(* ===== verification/Rate_Limit.thy ===== *)
theory Rate_Limit
  imports Prism_Prelude
begin

text \<open>
  The five fixed-window rate limiters of \<open>server/src/federation\<close>:
  \<open>content_rate_limit.rs\<close> (objects per hour), \<open>push_rate_limit.rs\<close> (requests per
  minute), \<open>backfill_rate_limit.rs\<close> (requests and bytes per minute),
  \<open>prior_home_rate_limit.rs\<close> (probes per day) and
  \<open>prior_home_challenge_rate_limit.rs\<close> (requests per minute by address and by key).
  Each keeps a hash map from a peer key to a \<open>WindowState\<close>; the map is modelled as a HOL map,
  the mutex-protected calls as state transformers and the clock as an argument, as the
  \<open>_at\<close> variants of the sources take it. The locale \<open>fixed_window\<close> states the contract the
  five share and proves the rolling-window bound once; each limiter is an interpretation.
\<close>

section \<open>The limiters\<close>

record WindowState =
  window_start_secs :: nat
  count :: nat

text \<open>\<open>g.entry(k).or_insert(..)\<close> followed by the window roll, as every limiter does it.\<close>

definition roll_entry :: "nat \<Rightarrow> ('k \<rightharpoonup> WindowState) \<Rightarrow> 'k \<Rightarrow> nat \<Rightarrow> WindowState" where
  "roll_entry window g k now =
     (let entry = (case g k of None \<Rightarrow> \<lparr>window_start_secs = now, count = 0\<rparr> | Some e \<Rightarrow> e)
      in if window \<le> now - window_start_secs entry
         then \<lparr>window_start_secs = now, count = 0\<rparr> else entry)"

text \<open>\<open>HashMap::retain\<close> on the entries whose window is still open.\<close>

definition retain_open :: "nat \<Rightarrow> nat \<Rightarrow> ('k \<rightharpoonup> WindowState) \<Rightarrow> ('k \<rightharpoonup> WindowState)" where
  "retain_open window now g = (\<lambda>k. case g k of None \<Rightarrow> None
     | Some v \<Rightarrow> if now - window_start_secs v < window then Some v else None)"

subsection \<open>ContentRateLimiter\<close>

definition MAX_CONTENT_OBJECTS_PER_HOUR :: nat where
  "MAX_CONTENT_OBJECTS_PER_HOUR = 10000"

definition CONTENT_WINDOW_SECS :: nat where
  "CONTENT_WINDOW_SECS = 3600"

record 'k ContentRateLimiter =
  crl_inner :: "'k \<rightharpoonup> WindowState"
  max_per_hour :: nat

definition content_new :: "nat \<Rightarrow> 'k ContentRateLimiter" where
  "content_new cap = \<lparr>crl_inner = Map.empty, max_per_hour = cap\<rparr>"

definition content_default :: "'k ContentRateLimiter" where
  "content_default = content_new MAX_CONTENT_OBJECTS_PER_HOUR"

definition check_and_count_at ::
  "'k ContentRateLimiter \<Rightarrow> 'k \<Rightarrow> nat \<Rightarrow> nat \<Rightarrow> bool \<times> 'k ContentRateLimiter" where
  "check_and_count_at l sender batch_size now =
     (if batch_size = 0 then (True, l)
      else
        let entry = roll_entry CONTENT_WINDOW_SECS (crl_inner l) sender now;
            new_count = sat_add32 (count entry) batch_size
        in if max_per_hour l < new_count
           then (False, l\<lparr>crl_inner := (crl_inner l)(sender \<mapsto> entry)\<rparr>)
           else (True, l\<lparr>crl_inner := (crl_inner l)(sender \<mapsto> entry\<lparr>count := new_count\<rparr>)\<rparr>))"

definition content_cleanup_stale_at ::
  "'k ContentRateLimiter \<Rightarrow> nat \<Rightarrow> 'k ContentRateLimiter" where
  "content_cleanup_stale_at l now =
     l\<lparr>crl_inner := retain_open CONTENT_WINDOW_SECS now (crl_inner l)\<rparr>"

subsection \<open>PushRateLimiter\<close>

definition USER_STATUS_RPM_PER_PEER :: nat where "USER_STATUS_RPM_PER_PEER = 60"

definition THREAD_STATUS_RPM_PER_PEER :: nat where "THREAD_STATUS_RPM_PER_PEER = 60"

definition REPORTS_RPM_PER_PEER :: nat where "REPORTS_RPM_PER_PEER = 30"

definition PUSH_WINDOW_SECS :: nat where "PUSH_WINDOW_SECS = 60"

record 'k PushRateLimiter =
  prl_inner :: "'k \<rightharpoonup> WindowState"
  push_max_requests :: nat

definition push_new :: "nat \<Rightarrow> 'k PushRateLimiter" where
  "push_new cap = \<lparr>prl_inner = Map.empty, push_max_requests = cap\<rparr>"

definition for_user_status :: "'k PushRateLimiter" where
  "for_user_status = push_new USER_STATUS_RPM_PER_PEER"

definition for_thread_status :: "'k PushRateLimiter" where
  "for_thread_status = push_new THREAD_STATUS_RPM_PER_PEER"

definition for_reports :: "'k PushRateLimiter" where
  "for_reports = push_new REPORTS_RPM_PER_PEER"

definition push_try_admit_at ::
  "'k PushRateLimiter \<Rightarrow> 'k \<Rightarrow> nat \<Rightarrow> bool \<times> 'k PushRateLimiter" where
  "push_try_admit_at l sender now =
     (let entry = roll_entry PUSH_WINDOW_SECS (prl_inner l) sender now
      in if push_max_requests l \<le> count entry
         then (False, l\<lparr>prl_inner := (prl_inner l)(sender \<mapsto> entry)\<rparr>)
         else (True, l\<lparr>prl_inner := (prl_inner l)
                 (sender \<mapsto> entry\<lparr>count := sat_add32 (count entry) 1\<rparr>)\<rparr>))"

definition push_cleanup_stale_at :: "'k PushRateLimiter \<Rightarrow> nat \<Rightarrow> 'k PushRateLimiter" where
  "push_cleanup_stale_at l now =
     l\<lparr>prl_inner := retain_open PUSH_WINDOW_SECS now (prl_inner l)\<rparr>"

subsection \<open>BackfillRateLimiter\<close>

definition BACKFILL_RPM_PER_PEER :: nat where "BACKFILL_RPM_PER_PEER = 100"

definition BACKFILL_BYTES_PER_MIN_PER_PEER :: nat where
  "BACKFILL_BYTES_PER_MIN_PER_PEER = 10 * 1024 * 1024"

definition BACKFILL_WINDOW_SECS :: nat where "BACKFILL_WINDOW_SECS = 60"

record BackfillWindow =
  bw_start_secs :: nat
  request_count :: nat
  bytes_count :: nat

record 'k BackfillRateLimiter =
  brl_inner :: "'k \<rightharpoonup> BackfillWindow"
  max_requests_per_window :: nat
  max_bytes_per_window :: nat

definition backfill_new :: "nat \<Rightarrow> nat \<Rightarrow> 'k BackfillRateLimiter" where
  "backfill_new cap cap_bytes = \<lparr>brl_inner = Map.empty,
     max_requests_per_window = cap, max_bytes_per_window = cap_bytes\<rparr>"

definition backfill_default :: "'k BackfillRateLimiter" where
  "backfill_default = backfill_new BACKFILL_RPM_PER_PEER BACKFILL_BYTES_PER_MIN_PER_PEER"

definition roll_backfill :: "('k \<rightharpoonup> BackfillWindow) \<Rightarrow> 'k \<Rightarrow> nat \<Rightarrow> BackfillWindow" where
  "roll_backfill g k now =
     (let fresh = \<lparr>bw_start_secs = now, request_count = 0, bytes_count = 0\<rparr>;
          entry = (case g k of None \<Rightarrow> fresh | Some e \<Rightarrow> e)
      in if BACKFILL_WINDOW_SECS \<le> now - bw_start_secs entry then fresh else entry)"

definition backfill_try_admit_at ::
  "'k BackfillRateLimiter \<Rightarrow> 'k \<Rightarrow> nat \<Rightarrow> bool \<times> 'k BackfillRateLimiter" where
  "backfill_try_admit_at l sender now =
     (let entry = roll_backfill (brl_inner l) sender now
      in if max_requests_per_window l \<le> request_count entry
         then (False, l\<lparr>brl_inner := (brl_inner l)(sender \<mapsto> entry)\<rparr>)
         else if max_bytes_per_window l \<le> bytes_count entry
         then (False, l\<lparr>brl_inner := (brl_inner l)(sender \<mapsto> entry)\<rparr>)
         else (True, l\<lparr>brl_inner := (brl_inner l)
                 (sender \<mapsto> entry\<lparr>request_count := sat_add32 (request_count entry) 1\<rparr>)\<rparr>))"

definition charge_bytes_at ::
  "'k BackfillRateLimiter \<Rightarrow> 'k \<Rightarrow> nat \<Rightarrow> nat \<Rightarrow> 'k BackfillRateLimiter" where
  "charge_bytes_at l sender n now =
     (let entry = roll_backfill (brl_inner l) sender now
      in l\<lparr>brl_inner := (brl_inner l)
           (sender \<mapsto> entry\<lparr>bytes_count := sat_add64 (bytes_count entry) n\<rparr>)\<rparr>)"

definition backfill_cleanup_stale_at ::
  "'k BackfillRateLimiter \<Rightarrow> nat \<Rightarrow> 'k BackfillRateLimiter" where
  "backfill_cleanup_stale_at l now = l\<lparr>brl_inner := (\<lambda>k. case brl_inner l k of None \<Rightarrow> None
     | Some v \<Rightarrow> if now - bw_start_secs v < BACKFILL_WINDOW_SECS then Some v else None)\<rparr>"

subsection \<open>PriorHomeRateLimiter\<close>

definition PRIOR_HOME_PROBES_PER_DAY_PER_KEY :: nat where
  "PRIOR_HOME_PROBES_PER_DAY_PER_KEY = 200"

definition PRIOR_HOME_WINDOW_SECS :: nat where "PRIOR_HOME_WINDOW_SECS = 86400"

record 'k PriorHomeRateLimiter =
  phl_inner :: "'k \<rightharpoonup> WindowState"
  max_per_window :: nat

definition prior_home_new :: "nat \<Rightarrow> 'k PriorHomeRateLimiter" where
  "prior_home_new cap = \<lparr>phl_inner = Map.empty, max_per_window = cap\<rparr>"

definition prior_home_default :: "'k PriorHomeRateLimiter" where
  "prior_home_default = prior_home_new PRIOR_HOME_PROBES_PER_DAY_PER_KEY"

definition prior_home_try_admit_at ::
  "'k PriorHomeRateLimiter \<Rightarrow> 'k \<Rightarrow> nat \<Rightarrow> bool \<times> 'k PriorHomeRateLimiter" where
  "prior_home_try_admit_at l subject_key now =
     (let entry = roll_entry PRIOR_HOME_WINDOW_SECS (phl_inner l) subject_key now
      in if max_per_window l \<le> count entry
         then (False, l\<lparr>phl_inner := (phl_inner l)(subject_key \<mapsto> entry)\<rparr>)
         else (True, l\<lparr>phl_inner := (phl_inner l)
                 (subject_key \<mapsto> entry\<lparr>count := sat_add32 (count entry) 1\<rparr>)\<rparr>))"

definition prior_home_cleanup_stale_at ::
  "'k PriorHomeRateLimiter \<Rightarrow> nat \<Rightarrow> 'k PriorHomeRateLimiter" where
  "prior_home_cleanup_stale_at l now =
     l\<lparr>phl_inner := retain_open PRIOR_HOME_WINDOW_SECS now (phl_inner l)\<rparr>"

subsection \<open>PriorHomeChallengeRateLimiter\<close>

definition PRIOR_HOME_CHALLENGE_RPM_PER_IP :: nat where "PRIOR_HOME_CHALLENGE_RPM_PER_IP = 60"

definition PRIOR_HOME_CHALLENGE_RPM_PER_KEY :: nat where "PRIOR_HOME_CHALLENGE_RPM_PER_KEY = 10"

definition CHALLENGE_WINDOW_SECS :: nat where "CHALLENGE_WINDOW_SECS = 60"

record ('i, 'k) PriorHomeChallengeRateLimiter =
  ips :: "'i \<rightharpoonup> WindowState"
  keys :: "'k \<rightharpoonup> WindowState"
  max_per_ip_per_window :: nat
  max_per_key_per_window :: nat

definition challenge_new :: "nat \<Rightarrow> nat \<Rightarrow> ('i, 'k) PriorHomeChallengeRateLimiter" where
  "challenge_new ip_cap key_cap = \<lparr>ips = Map.empty, keys = Map.empty,
     max_per_ip_per_window = ip_cap, max_per_key_per_window = key_cap\<rparr>"

definition challenge_default :: "('i, 'k) PriorHomeChallengeRateLimiter" where
  "challenge_default =
     challenge_new PRIOR_HOME_CHALLENGE_RPM_PER_IP PRIOR_HOME_CHALLENGE_RPM_PER_KEY"

definition set_caps :: "('i, 'k) PriorHomeChallengeRateLimiter \<Rightarrow> nat \<Rightarrow> nat
    \<Rightarrow> ('i, 'k) PriorHomeChallengeRateLimiter" where
  "set_caps l ip_cap key_cap =
     l\<lparr>max_per_ip_per_window := ip_cap, max_per_key_per_window := key_cap\<rparr>"

definition admit :: "('k \<rightharpoonup> WindowState) \<Rightarrow> 'k \<Rightarrow> nat \<Rightarrow> nat \<Rightarrow> bool \<times> ('k \<rightharpoonup> WindowState)" where
  "admit m k now cap =
     (let entry = roll_entry CHALLENGE_WINDOW_SECS m k now
      in if cap \<le> count entry then (False, m(k \<mapsto> entry))
         else (True, m(k \<mapsto> entry\<lparr>count := sat_add32 (count entry) 1\<rparr>)))"

definition try_admit_ip_at :: "('i, 'k) PriorHomeChallengeRateLimiter \<Rightarrow> 'i \<Rightarrow> nat
    \<Rightarrow> bool \<times> ('i, 'k) PriorHomeChallengeRateLimiter" where
  "try_admit_ip_at l ip now =
     (let (b, g) = admit (ips l) ip now (max_per_ip_per_window l) in (b, l\<lparr>ips := g\<rparr>))"

definition try_admit_key_at :: "('i, 'k) PriorHomeChallengeRateLimiter \<Rightarrow> 'k \<Rightarrow> nat
    \<Rightarrow> bool \<times> ('i, 'k) PriorHomeChallengeRateLimiter" where
  "try_admit_key_at l key now =
     (let (b, g) = admit (keys l) key now (max_per_key_per_window l) in (b, l\<lparr>keys := g\<rparr>))"

definition challenge_cleanup_stale_at :: "('i, 'k) PriorHomeChallengeRateLimiter \<Rightarrow> nat
    \<Rightarrow> ('i, 'k) PriorHomeChallengeRateLimiter" where
  "challenge_cleanup_stale_at l now =
     l\<lparr>ips := retain_open CHALLENGE_WINDOW_SECS now (ips l),
       keys := retain_open CHALLENGE_WINDOW_SECS now (keys l)\<rparr>"


section \<open>The shared contract\<close>

text \<open>
  What a caller relies on: \<open>spent s k\<close> is the open or expired window recorded for \<open>k\<close> (its start
  and the budget used in it), \<open>step s k c now\<close> asks for \<open>c\<close> units, \<open>sweep\<close> is the periodic
  cleanup.
\<close>

definition current_window :: "nat \<Rightarrow> (nat \<times> nat) option \<Rightarrow> nat \<Rightarrow> nat \<times> nat" where
  "current_window W e now = (case e of None \<Rightarrow> (now, 0)
     | Some (w, n) \<Rightarrow> if W \<le> now - w then (now, 0) else (w, n))"

text \<open>A caller's trace: admission requests, byte charges and sweeps, each with the clock it happens at.\<close>

datatype 'k event = Ask 'k nat nat | Charge 'k nat nat | Sweep nat

fun at :: "'k event \<Rightarrow> nat" where
  "at (Ask k c t) = t"
| "at (Charge k n t) = t"
| "at (Sweep t) = t"

text \<open>Units granted at times in \<open>[a, b)\<close>, over a history of \<open>(cost, time)\<close> pairs.\<close>

definition granted :: "(nat \<times> nat) list \<Rightarrow> nat \<Rightarrow> nat \<Rightarrow> nat" where
  "granted H a b = sum_list (map fst (filter (\<lambda>(c, t). a \<le> t \<and> t < b) H))"

lemma granted_Nil [simp]: "granted [] a b = 0"
  by (simp add: granted_def)

lemma granted_Cons [simp]:
  "granted ((c, t) # H) a b = (if a \<le> t \<and> t < b then c else 0) + granted H a b"
  by (simp add: granted_def)

lemma granted_mono: "a' \<le> a \<Longrightarrow> b \<le> b' \<Longrightarrow> granted H a b \<le> granted H a' b'"
  by (induction H) auto

lemma granted_split: "a \<le> m \<Longrightarrow> m \<le> b \<Longrightarrow> granted H a b = granted H a m + granted H m b"
  by (induction H) auto

lemma granted_eq_beyond:
  "\<forall>(c, t) \<in> set H. t < b \<Longrightarrow> b \<le> b' \<Longrightarrow> granted H a b' = granted H a b"
  by (induction H) auto

text \<open>The grants of a run to one key, newest first.\<close>

fun grants :: "('s \<Rightarrow> 'k \<Rightarrow> nat \<Rightarrow> nat \<Rightarrow> bool \<times> 's) \<Rightarrow> ('s \<Rightarrow> 'k \<Rightarrow> nat \<Rightarrow> nat \<Rightarrow> 's) \<Rightarrow>
    ('s \<Rightarrow> nat \<Rightarrow> 's) \<Rightarrow> 's \<Rightarrow> 'k event list \<Rightarrow> 'k \<Rightarrow> (nat \<times> nat) list \<Rightarrow> (nat \<times> nat) list" where
  "grants step charge sweep s [] k H = H"
| "grants step charge sweep s (Sweep t # es) k H = grants step charge sweep (sweep s t) es k H"
| "grants step charge sweep s (Charge k' n t # es) k H =
     grants step charge sweep (charge s k' n t) es k H"
| "grants step charge sweep s (Ask k' c t # es) k H =
     (case step s k' c t of (b, s') \<Rightarrow>
        grants step charge sweep s' es k (if b \<and> k' = k then (c, t) # H else H))"

fun asks_ok :: "(nat \<Rightarrow> bool) \<Rightarrow> 'k event list \<Rightarrow> bool" where
  "asks_ok P [] = True"
| "asks_ok P (Sweep t # es) = asks_ok P es"
| "asks_ok P (Charge k n t # es) = asks_ok P es"
| "asks_ok P (Ask k c t # es) = (P c \<and> asks_ok P es)"

text \<open>The invariant between a key's history, its recorded window and the clock.\<close>

definition hist_ok :: "nat \<Rightarrow> nat \<Rightarrow> nat \<Rightarrow> (nat \<times> nat) option \<Rightarrow> (nat \<times> nat) list \<Rightarrow> bool" where
  "hist_ok W C now e H \<longleftrightarrow>
     (\<forall>T. granted H T (T + W) \<le> 2 * C) \<and>
     (case e of
        None \<Rightarrow> (\<forall>(c, t) \<in> set H. t < now) \<and> (\<forall>T. now < T + W \<longrightarrow> granted H T now \<le> C)
      | Some (w, n) \<Rightarrow> w \<le> now \<and> (\<forall>(c, t) \<in> set H. t < w + W) \<and>
          granted H w (w + W) = n \<and> n \<le> C \<and> (\<forall>T. w < T + W \<longrightarrow> granted H T w \<le> C))"

lemma granted_none: "\<forall>(c, t) \<in> set H. t < a \<Longrightarrow> granted H a b = 0"
  by (induction H) auto

lemma granted_late:
  assumes "\<forall>(c, t) \<in> set H. t < w + W" "w \<le> T"
  shows "granted H T b \<le> granted H w (w + W)"
proof -
  have "granted H T b \<le> granted H w (max b (w + W))"
    using assms(2) by (intro granted_mono) auto
  also have "\<dots> = granted H w (w + W)"
    by (rule granted_eq_beyond) (use assms(1) in auto)
  finally show ?thesis .
qed

lemma hist_ok_init: "hist_ok W C now None []"
  by (simp add: hist_ok_def)

lemma hist_ok_advance:
  assumes "hist_ok W C now e H" "now \<le> now'"
  shows "hist_ok W C now' e H"
proof (cases e)
  case None
  with assms have lt: "\<forall>(c, t) \<in> set H. t < now"
    and le: "\<And>T. now < T + W \<Longrightarrow> granted H T now \<le> C"
    by (auto simp: hist_ok_def)
  from lt assms(2) have "granted H T now' = granted H T now" for T
    by (rule granted_eq_beyond)
  with None assms lt le show ?thesis
    by (fastforce simp: hist_ok_def)
next
  case (Some p)
  with assms show ?thesis by (auto simp: hist_ok_def)
qed

text \<open>Once a window has expired, what was granted in it bounds every younger interval.\<close>

lemma hist_ok_expire:
  assumes "hist_ok W C now (Some (w, n)) H" "W \<le> now - w"
  shows "hist_ok W C now None H"
proof -
  from assms(1) have h: "\<forall>(c, t) \<in> set H. t < w + W" "granted H w (w + W) \<le> C" "w \<le> now"
    by (auto simp: hist_ok_def)
  have "granted H T now \<le> C" if "now < T + W" for T
    using granted_late [OF h(1), of T now] h(2) that assms(2) h(3) by linarith
  with assms h(1,3) show ?thesis
    by (fastforce simp: hist_ok_def)
qed

lemma hist_ok_roll:
  assumes "hist_ok W C now e H" "current_window W e now = (w, n)" "0 < W"
  shows "hist_ok W C now (Some (w, n)) H \<and> now < w + W"
proof -
  have fresh: "hist_ok W C now (Some (now, 0)) H" if "hist_ok W C now None H"
    using that granted_none [of H now "now + W"] by (fastforce simp: hist_ok_def)
  show ?thesis
  proof (cases e)
    case None
    with assms fresh show ?thesis by (auto simp: current_window_def)
  next
    case (Some p)
    obtain w0 n0 where p: "p = (w0, n0)" by (cases p)
    show ?thesis
    proof (cases "W \<le> now - w0")
      case True
      with assms Some p hist_ok_expire fresh show ?thesis
        by (fastforce simp: current_window_def)
    next
      case False
      with assms Some p show ?thesis
        by (auto simp: current_window_def)
    qed
  qed
qed

lemma hist_ok_grant:
  assumes "hist_ok W C now (Some (w, n)) H" "now < w + W" "n + c \<le> C"
  shows "hist_ok W C now (Some (w, n + c)) ((c, now) # H)"
proof -
  from assms(1) have h: "\<forall>(c, t) \<in> set H. t < w + W" "granted H w (w + W) = n" "w \<le> now"
    "\<And>T. w < T + W \<Longrightarrow> granted H T w \<le> C" "\<And>T. granted H T (T + W) \<le> 2 * C"
    by (auto simp: hist_ok_def)
  have "c + granted H T (T + W) \<le> 2 * C" if T: "T \<le> now" "now < T + W" for T
  proof (cases "w \<le> T")
    case True
    with granted_late [OF h(1) True, of "T + W"] h(2) assms(3) show ?thesis by simp
  next
    case False
    with T have "granted H T (T + W) = granted H T w + granted H w (T + W)"
      by (intro granted_split) (use h(3) in auto)
    moreover have "granted H w (T + W) \<le> n"
      using granted_late [OF h(1) order_refl, of "T + W"] h(2) by simp
    moreover have "granted H T w \<le> C"
      using h(4) T h(3) by simp
    ultimately show ?thesis using assms(3) by linarith
  qed
  with assms h show ?thesis
    by (auto simp: hist_ok_def)
qed

locale fixed_window =
  fixes W :: nat
    and cap :: "'s \<Rightarrow> nat"
    and spent :: "'s \<Rightarrow> 'k \<Rightarrow> (nat \<times> nat) option"
    and step :: "'s \<Rightarrow> 'k \<Rightarrow> nat \<Rightarrow> nat \<Rightarrow> bool \<times> 's"
    and charge :: "'s \<Rightarrow> 'k \<Rightarrow> nat \<Rightarrow> nat \<Rightarrow> 's"
    and sweep :: "'s \<Rightarrow> nat \<Rightarrow> 's"
    and ok :: "'s \<Rightarrow> bool"
    and ok_cost :: "nat \<Rightarrow> bool"
  assumes W_pos: "0 < W"
    and ok_step: "ok s \<Longrightarrow> ok_cost c \<Longrightarrow> step s k c now = (b, s') \<Longrightarrow> ok s'"
    and ok_charge: "ok s \<Longrightarrow> ok (charge s k x now)"
    and ok_sweep: "ok s \<Longrightarrow> ok (sweep s now)"
    and cap_step: "step s k c now = (b, s') \<Longrightarrow> cap s' = cap s"
    and cap_charge: "cap (charge s k x now) = cap s"
    and cap_sweep: "cap (sweep s now) = cap s"
    and step_other: "step s k c now = (b, s') \<Longrightarrow> k' \<noteq> k \<Longrightarrow> spent s' k' = spent s k'"
    and step_admit: "ok s \<Longrightarrow> ok_cost c \<Longrightarrow> step s k c now = (True, s') \<Longrightarrow>
      current_window W (spent s k) now = (w, n) \<Longrightarrow>
      n + c \<le> cap s \<and> spent s' k = Some (w, n + c)"
    and step_reject: "ok s \<Longrightarrow> ok_cost c \<Longrightarrow> step s k c now = (False, s') \<Longrightarrow>
      current_window W (spent s k) now = (w, n) \<Longrightarrow> spent s' k = Some (w, n)"
    and charge_other: "k' \<noteq> k \<Longrightarrow> spent (charge s k x now) k' = spent s k'"
    and charge_spent: "spent (charge s k x now) k = spent s k \<or>
      spent (charge s k x now) k = Some (current_window W (spent s k) now)"
    and sweep_spent: "spent (sweep s now) k = (case spent s k of None \<Rightarrow> None
      | Some (w, n) \<Rightarrow> if now - w < W then Some (w, n) else None)"
begin

lemma hist_ok_step:
  assumes "ok s" "ok_cost c" "step s k c now = (b, s')" "hist_ok W (cap s) now (spent s k) H"
  shows "hist_ok W (cap s') now (spent s' k) (if b then (c, now) # H else H)"
proof -
  obtain w n where cw: "current_window W (spent s k) now = (w, n)"
    by (cases "current_window W (spent s k) now")
  from hist_ok_roll [OF assms(4) cw W_pos]
  have r: "hist_ok W (cap s) now (Some (w, n)) H" "now < w + W" by simp_all
  show ?thesis
  proof (cases b)
    case True
    with step_admit [OF assms(1,2) _ cw] assms(3)
    have "n + c \<le> cap s" "spent s' k = Some (w, n + c)" by auto
    with True r assms(3) show ?thesis
      by (simp add: hist_ok_grant cap_step)
  next
    case False
    with step_reject [OF assms(1,2) _ cw] assms(3) r show ?thesis
      by (simp add: cap_step)
  qed
qed

lemma hist_ok_sweep:
  assumes "hist_ok W (cap s) now (spent s k) H"
  shows "hist_ok W (cap (sweep s now)) now (spent (sweep s now) k) H"
  using assms
  by (auto simp: sweep_spent cap_sweep split: option.splits intro: hist_ok_expire)

lemma hist_ok_charge:
  assumes "hist_ok W (cap s) now (spent s k) H"
  shows "hist_ok W (cap (charge s k' x now)) now (spent (charge s k' x now) k) H"
proof (cases "k' = k")
  case True
  obtain w n where "current_window W (spent s k) now = (w, n)"
    by (cases "current_window W (spent s k) now")
  with hist_ok_roll [OF assms this W_pos] charge_spent [of s k x now] True assms show ?thesis
    by (auto simp: cap_charge)
next
  case False
  with assms show ?thesis by (simp add: charge_other cap_charge)
qed

lemma grants_hist_ok:
  assumes "ok s" "asks_ok ok_cost es" "sorted (now # map at es)"
    "hist_ok W (cap s) now (spent s k) H"
  shows "\<exists>now' e. hist_ok W (cap s) now' e (grants step charge sweep s es k H)"
  using assms
proof (induction es arbitrary: s now H)
  case Nil
  then show ?case by auto
next
  case (Cons ev es)
  show ?case
  proof (cases ev)
    case (Sweep t)
    with Cons.prems have "hist_ok W (cap s) t (spent s k) H"
      by (auto intro: hist_ok_advance)
    from Cons.IH [OF _ _ _ hist_ok_sweep [OF this]] Cons.prems Sweep
    show ?thesis by (auto simp: ok_sweep cap_sweep)
  next
    case (Charge k' x t)
    with Cons.prems have "hist_ok W (cap s) t (spent s k) H"
      by (auto intro: hist_ok_advance)
    from Cons.IH [OF _ _ _ hist_ok_charge [OF this, of k' x]] Cons.prems Charge
    show ?thesis by (auto simp: ok_charge cap_charge)
  next
    case (Ask k' c t)
    obtain b s' where st: "step s k' c t = (b, s')" by (cases "step s k' c t")
    from Cons.prems Ask have adv: "hist_ok W (cap s) t (spent s k) H"
      by (auto intro: hist_ok_advance)
    have "hist_ok W (cap s') t (spent s' k) (if b \<and> k' = k then (c, t) # H else H)"
    proof (cases "k' = k")
      case True
      with hist_ok_step [OF _ _ _ adv] Cons.prems Ask st show ?thesis by simp
    next
      case False
      with adv st show ?thesis by (simp add: cap_step step_other)
    qed
    from Cons.IH [OF _ _ _ this] Cons.prems Ask st
    show ?thesis by (auto simp: ok_step cap_step)
  qed
qed

text \<open>No more than twice the budget in any interval of one window's length, whatever the
  interleaving of requests from other keys and of sweeps.\<close>

lemma rolling_bound:
  assumes "ok s" "asks_ok ok_cost es" "sorted (map at es)" "spent s k = None"
  shows "granted (grants step charge sweep s es k []) T (T + W) \<le> 2 * cap s"
proof -
  have "sorted (0 # map at es)" using assms(3) by simp
  from grants_hist_ok [OF assms(1,2) this, of k "[]"] assms(4)
  show ?thesis by (auto simp: hist_ok_init hist_ok_def)
qed

text \<open>A sweep never changes a later decision: the window a request sees is the same.\<close>

lemma sweep_transparent:
  assumes "now \<le> now'"
  shows "current_window W (spent (sweep s now) k) now' = current_window W (spent s k) now'"
  using assms by (auto simp: current_window_def sweep_spent split: option.splits)

end

section \<open>The limiters keep the contract\<close>

definition window_pair :: "WindowState \<Rightarrow> nat \<times> nat" where
  "window_pair e = (window_start_secs e, count e)"

definition spent_in :: "('k \<rightharpoonup> WindowState) \<Rightarrow> 'k \<Rightarrow> (nat \<times> nat) option" where
  "spent_in g k = map_option window_pair (g k)"

lemma roll_entry_current:
  "current_window W (spent_in g k) now = window_pair (roll_entry W g k now)"
  by (auto simp: current_window_def spent_in_def window_pair_def roll_entry_def Let_def
      split: option.splits)

lemma spent_in_upd [simp]:
  "spent_in (g(k \<mapsto> e)) k' = (if k' = k then Some (window_pair e) else spent_in g k')"
  by (simp add: spent_in_def)

lemma spent_in_retain:
  "spent_in (retain_open W now g) k = (case spent_in g k of None \<Rightarrow> None
     | Some (w, n) \<Rightarrow> if now - w < W then Some (w, n) else None)"
  by (auto simp: spent_in_def retain_open_def window_pair_def split: option.splits)

lemma window_pair_count [simp]: "window_pair (e\<lparr>count := n\<rparr>) = (fst (window_pair e), n)"
  by (simp add: window_pair_def)

lemmas limiter_simps = roll_entry_current spent_in_retain window_pair_def Let_def

lemma roll_entry_bound: "\<forall>e. g k = Some e \<longrightarrow> count e \<le> c \<Longrightarrow> count (roll_entry W g k now) \<le> c"
  by (auto simp: roll_entry_def Let_def split: option.splits)

text \<open>The limiters without a byte budget have no charge; it is the identity for them.\<close>

definition no_charge :: "'s \<Rightarrow> 'k \<Rightarrow> nat \<Rightarrow> nat \<Rightarrow> 's" where
  "no_charge s k n now = s"

definition push_step :: "'k PushRateLimiter \<Rightarrow> 'k \<Rightarrow> nat \<Rightarrow> nat \<Rightarrow> bool \<times> 'k PushRateLimiter" where
  "push_step l k c now = push_try_admit_at l k now"

definition prior_home_step ::
  "'k PriorHomeRateLimiter \<Rightarrow> 'k \<Rightarrow> nat \<Rightarrow> nat \<Rightarrow> bool \<times> 'k PriorHomeRateLimiter" where
  "prior_home_step l k c now = prior_home_try_admit_at l k now"

definition backfill_step ::
  "'k BackfillRateLimiter \<Rightarrow> 'k \<Rightarrow> nat \<Rightarrow> nat \<Rightarrow> bool \<times> 'k BackfillRateLimiter" where
  "backfill_step l k c now = backfill_try_admit_at l k now"

definition ip_step :: "('i, 'k) PriorHomeChallengeRateLimiter \<Rightarrow> 'i \<Rightarrow> nat \<Rightarrow> nat
    \<Rightarrow> bool \<times> ('i, 'k) PriorHomeChallengeRateLimiter" where
  "ip_step l k c now = try_admit_ip_at l k now"

definition key_step :: "('i, 'k) PriorHomeChallengeRateLimiter \<Rightarrow> 'k \<Rightarrow> nat \<Rightarrow> nat
    \<Rightarrow> bool \<times> ('i, 'k) PriorHomeChallengeRateLimiter" where
  "key_step l k c now = try_admit_key_at l k now"

definition backfill_spent :: "('k \<rightharpoonup> BackfillWindow) \<Rightarrow> 'k \<Rightarrow> (nat \<times> nat) option" where
  "backfill_spent g k = map_option (\<lambda>e. (bw_start_secs e, request_count e)) (g k)"

lemma roll_backfill_current:
  "current_window BACKFILL_WINDOW_SECS (backfill_spent g k) now
    = (bw_start_secs (roll_backfill g k now), request_count (roll_backfill g k now))"
  by (auto simp: current_window_def backfill_spent_def roll_backfill_def Let_def
      split: option.splits)

lemma window_secs_pos [simp]:
  "0 < CONTENT_WINDOW_SECS" "0 < PUSH_WINDOW_SECS" "0 < PRIOR_HOME_WINDOW_SECS"
  "0 < CHALLENGE_WINDOW_SECS" "0 < BACKFILL_WINDOW_SECS"
  by (simp_all add: CONTENT_WINDOW_SECS_def PUSH_WINDOW_SECS_def PRIOR_HOME_WINDOW_SECS_def
      CHALLENGE_WINDOW_SECS_def BACKFILL_WINDOW_SECS_def)

lemma backfill_spent_upd [simp]:
  "backfill_spent (g(k \<mapsto> e)) k' =
     (if k' = k then Some (bw_start_secs e, request_count e) else backfill_spent g k')"
  by (simp add: backfill_spent_def)

lemma backfill_spent_cleanup:
  "backfill_spent (brl_inner (backfill_cleanup_stale_at l now)) k =
     (case backfill_spent (brl_inner l) k of None \<Rightarrow> None
      | Some (w, n) \<Rightarrow> if now - w < BACKFILL_WINDOW_SECS then Some (w, n) else None)"
  by (auto simp: backfill_spent_def backfill_cleanup_stale_at_def split: option.splits)

lemma backfill_cleanup_caps [simp]:
  "max_requests_per_window (backfill_cleanup_stale_at l now) = max_requests_per_window l"
  "max_bytes_per_window (backfill_cleanup_stale_at l now) = max_bytes_per_window l"
  by (simp_all add: backfill_cleanup_stale_at_def)

interpretation content: fixed_window CONTENT_WINDOW_SECS max_per_hour
  "\<lambda>l. spent_in (crl_inner l)" check_and_count_at no_charge content_cleanup_stale_at
  "\<lambda>l. max_per_hour l < u32_max" "\<lambda>c. 0 < c"
  by unfold_locales
    (auto simp: check_and_count_at_def content_cleanup_stale_at_def
      no_charge_def limiter_simps count_simps sat_add32_def not_less split: if_splits)

interpretation push: fixed_window PUSH_WINDOW_SECS push_max_requests
  "\<lambda>l. spent_in (prl_inner l)" push_step no_charge push_cleanup_stale_at
  "\<lambda>l. push_max_requests l \<le> u32_max" "\<lambda>c. c = 1"
  by unfold_locales
    (auto simp: push_step_def push_try_admit_at_def push_cleanup_stale_at_def
      no_charge_def limiter_simps sat_add32_exact split: if_splits)

interpretation prior_home: fixed_window PRIOR_HOME_WINDOW_SECS max_per_window
  "\<lambda>l. spent_in (phl_inner l)" prior_home_step no_charge prior_home_cleanup_stale_at
  "\<lambda>l. max_per_window l \<le> u32_max" "\<lambda>c. c = 1"
  by unfold_locales
    (auto simp: prior_home_step_def prior_home_try_admit_at_def
      prior_home_cleanup_stale_at_def no_charge_def limiter_simps sat_add32_exact split: if_splits)

lemmas challenge_simps = ip_step_def key_step_def try_admit_ip_at_def
  try_admit_key_at_def admit_def challenge_cleanup_stale_at_def no_charge_def

interpretation challenge_ip: fixed_window CHALLENGE_WINDOW_SECS max_per_ip_per_window
  "\<lambda>l. spent_in (ips l)" ip_step no_charge challenge_cleanup_stale_at
  "\<lambda>l. max_per_ip_per_window l \<le> u32_max" "\<lambda>c. c = 1"
  by unfold_locales
    (auto simp: challenge_simps limiter_simps sat_add32_exact split: if_splits)

interpretation challenge_key: fixed_window CHALLENGE_WINDOW_SECS max_per_key_per_window
  "\<lambda>l. spent_in (keys l)" key_step no_charge challenge_cleanup_stale_at
  "\<lambda>l. max_per_key_per_window l \<le> u32_max" "\<lambda>c. c = 1"
  by unfold_locales
    (auto simp: challenge_simps limiter_simps sat_add32_exact split: if_splits)

interpretation backfill: fixed_window BACKFILL_WINDOW_SECS max_requests_per_window
  "\<lambda>l. backfill_spent (brl_inner l)" backfill_step charge_bytes_at backfill_cleanup_stale_at
  "\<lambda>l. max_requests_per_window l \<le> u32_max" "\<lambda>c. c = 1"
  by unfold_locales
    (auto simp: backfill_step_def backfill_try_admit_at_def charge_bytes_at_def
      backfill_spent_cleanup roll_backfill_current Let_def sat_add32_exact
      split: if_splits)

section \<open>Properties of the limiters\<close>

lemma spent_in_empty [simp]: "spent_in Map.empty k = None"
  by (simp add: spent_in_def)

text \<open>The content limiter never lets one peer push more than twice its hourly object budget in
  any interval of one hour, for every monotone trace of batches from any peers and of sweeps. The
  budget has to be below \<open>u32::MAX\<close>, where the saturating counter stops growing.\<close>

theorem content_rolling_bound:
  assumes "cap < u32_max" "asks_ok (\<lambda>c. 0 < c) es" "sorted (map at es)"
  shows "granted (grants check_and_count_at no_charge content_cleanup_stale_at
      (content_new cap) es k []) T (T + CONTENT_WINDOW_SECS) \<le> 2 * cap"
  using content.rolling_bound [of "content_new cap" es k T] assms
  by (simp add: content_new_def)

theorem content_rolling_bound_witness:
  "granted (grants check_and_count_at no_charge content_cleanup_stale_at
      (content_new 5) [Ask True 3 0, Ask True 3 10, Ask True 2 3599, Sweep 3600, Ask True 5 3600]
      True []) 3599 (3599 + CONTENT_WINDOW_SECS) \<le> 2 * 5"
  by (rule content_rolling_bound) (simp_all add: u32_max_def)



text \<open>Once a peer's charged bytes reach the byte budget, every further backfill request in the
  same window is refused, and refusing leaves the request count as it was.\<close>

theorem backfill_byte_budget:
  assumes "roll_backfill (brl_inner l) k now = entry" "now' - bw_start_secs entry < BACKFILL_WINDOW_SECS"
    "max_bytes_per_window l \<le> sat_add64 (bytes_count entry) n"
  shows "fst (backfill_try_admit_at (charge_bytes_at l k n now) k now') = False \<and>
    backfill_spent (brl_inner (snd (backfill_try_admit_at (charge_bytes_at l k n now) k now'))) k
      = Some (bw_start_secs entry, request_count entry)"
proof -
  have "roll_backfill (brl_inner (charge_bytes_at l k n now)) k now'
      = entry\<lparr>bytes_count := sat_add64 (bytes_count entry) n\<rparr>"
    using assms(1,2) by (simp add: charge_bytes_at_def roll_backfill_def [of _ k now'] Let_def)
  with assms(3) show ?thesis
    by (auto simp: backfill_try_admit_at_def charge_bytes_at_def Let_def)
qed

theorem backfill_byte_budget_witness:
  "fst (backfill_try_admit_at (charge_bytes_at (backfill_new 9 100) True 100 5) True 40) = False"
  using backfill_byte_budget
    [of "backfill_new 9 100" True 5 "\<lparr>bw_start_secs = 5, request_count = 0, bytes_count = 0\<rparr>" 40 100]
  by (simp add: backfill_new_def roll_backfill_def BACKFILL_WINDOW_SECS_def sat_add64_def u64_max_def)

text \<open>An address and a key are budgeted independently: admitting an address changes no key's
  window and the other way round, and a sweep at an earlier time changes no later decision of either
  table.\<close>

theorem challenge_tables_independent:
  "keys (snd (try_admit_ip_at l ip now)) = keys l \<and> ips (snd (try_admit_key_at l key now)) = ips l \<and>
   fst (try_admit_ip_at (challenge_cleanup_stale_at l now) ip (now + d))
     = fst (try_admit_ip_at l ip (now + d)) \<and>
   fst (try_admit_key_at (challenge_cleanup_stale_at l now) key (now + d))
     = fst (try_admit_key_at l key (now + d))"
proof -
  have same: "count (roll_entry W (retain_open W now g) k (now + d)) = count (roll_entry W g k (now + d))"
    for W and g :: "'x \<rightharpoonup> WindowState" and k
    by (auto simp: roll_entry_def retain_open_def Let_def split: option.splits)
  show ?thesis
    by (auto simp: try_admit_ip_at_def try_admit_key_at_def admit_def Let_def
        challenge_cleanup_stale_at_def same split: prod.splits)
qed

end
