(* ===== verification/Utf8.thy ===== *)
theory Utf8
  imports Prism_Prelude
begin

text \<open>
  Rust strings. A \<open>str\<close> is modelled by its UTF-8 bytes, a HOL \<open>string\<close> whose characters are bytes, so
  that \<open>len\<close> is \<open>length\<close> and \<open>as_bytes().cmp\<close> is the lexicographic order. \<open>chars s\<close> is the
  sequence of Unicode scalar values, \<open>of_chars\<close> collects one back into a string. The theory holds the
  codec, its two round trips, and the character-boundary facts that truncation relies on.
\<close>

section \<open>The codec\<close>

definition scalar :: "nat \<Rightarrow> bool" where
  "scalar c \<longleftrightarrow> c < 0xD800 \<or> 0xE000 \<le> c \<and> c < 0x110000"

definition utf8_char :: "nat \<Rightarrow> nat list" where
  "utf8_char c =
     (if c < 0x80 then [c]
      else if c < 0x800 then [0xC0 + c div 64, 0x80 + c mod 64]
      else if c < 0x10000 then [0xE0 + c div 64 div 64, 0x80 + c div 64 mod 64, 0x80 + c mod 64]
      else [0xF0 + c div 64 div 64 div 64, 0x80 + c div 64 div 64 mod 64,
            0x80 + c div 64 mod 64, 0x80 + c mod 64])"

definition utf8_enc :: "nat list \<Rightarrow> nat list" where
  "utf8_enc cs = concat (map utf8_char cs)"

definition cont :: "nat \<Rightarrow> bool" where
  "cont b \<longleftrightarrow> 0x80 \<le> b \<and> b < 0xC0"

text \<open>One scalar value off the front, with the overlong, surrogate and range checks.\<close>

definition utf8_next :: "nat list \<Rightarrow> (nat \<times> nat list) option" where
  "utf8_next bs = (case bs of
     [] \<Rightarrow> None
   | a # r1 \<Rightarrow>
      if a < 0x80 then Some (a, r1)
      else if a < 0xC0 then None
      else (case r1 of [] \<Rightarrow> None | b # r2 \<Rightarrow>
        if \<not> cont b then None
        else if a < 0xE0 then
          (let c = (a - 0xC0) * 64 + (b - 0x80) in if 0x80 \<le> c then Some (c, r2) else None)
        else (case r2 of [] \<Rightarrow> None | d # r3 \<Rightarrow>
          if \<not> cont d then None
          else if a < 0xF0 then
            (let c = (a - 0xE0) * 4096 + (b - 0x80) * 64 + (d - 0x80)
             in if 0x800 \<le> c \<and> scalar c then Some (c, r3) else None)
          else (case r3 of [] \<Rightarrow> None | e # r4 \<Rightarrow>
            if \<not> cont e \<or> 0xF8 \<le> a then None
            else (let c = (a - 0xF0) * 262144 + (b - 0x80) * 4096 + (d - 0x80) * 64 + (e - 0x80)
                  in if 0x10000 \<le> c \<and> scalar c then Some (c, r4) else None)))))"

lemma utf8_next_shorter: "utf8_next bs = Some (c, r) \<Longrightarrow> length r < length bs"
  by (auto simp: utf8_next_def Let_def split: list.splits if_splits)

function utf8_dec :: "nat list \<Rightarrow> nat list option" where
  "utf8_dec bs = (if bs = [] then Some []
     else case utf8_next bs of None \<Rightarrow> None | Some (c, r) \<Rightarrow> map_option (Cons c) (utf8_dec r))"
  by pat_completeness auto
termination
  by (relation "measure length") (auto dest: utf8_next_shorter)

declare utf8_dec.simps [simp del]

lemma base64_digits:
  fixes c :: nat
  shows "c div 64 * 64 + c mod 64 = c"
    "c div 64 div 64 * 4096 + c div 64 mod 64 * 64 + c mod 64 = c"
    "c div 64 div 64 div 64 * 262144 + c div 64 div 64 mod 64 * 4096 + c div 64 mod 64 * 64 + c mod 64 = c"
  using div_mult_mod_eq [of c 64] div_mult_mod_eq [of "c div 64" 64]
    div_mult_mod_eq [of "c div 64 div 64" 64] by linarith+

lemma utf8_char_cases:
  "c < 0x80 \<Longrightarrow> utf8_char c = [c]"
  "0x80 \<le> c \<Longrightarrow> c < 0x800 \<Longrightarrow> utf8_char c = [0xC0 + c div 64, 0x80 + c mod 64]"
  "0x800 \<le> c \<Longrightarrow> c < 0x10000 \<Longrightarrow>
     utf8_char c = [0xE0 + c div 64 div 64, 0x80 + c div 64 mod 64, 0x80 + c mod 64]"
  "0x10000 \<le> c \<Longrightarrow> utf8_char c = [0xF0 + c div 64 div 64 div 64, 0x80 + c div 64 div 64 mod 64,
     0x80 + c div 64 mod 64, 0x80 + c mod 64]"
  by (simp_all add: utf8_char_def)

lemma cont_add [simp]: "x < 64 \<Longrightarrow> cont (0x80 + x)"
  by (simp add: cont_def)

lemma utf8_next_two: "x < 32 \<Longrightarrow> cont b \<Longrightarrow> 0x80 \<le> x * 64 + (b - 0x80) \<Longrightarrow>
    utf8_next ((0xC0 + x) # b # r) = Some (x * 64 + (b - 0x80), r)"
  by (simp add: utf8_next_def)

lemma utf8_next_three: "x < 16 \<Longrightarrow> cont b \<Longrightarrow> cont d \<Longrightarrow>
    0x800 \<le> x * 4096 + (b - 0x80) * 64 + (d - 0x80) \<Longrightarrow>
    scalar (x * 4096 + (b - 0x80) * 64 + (d - 0x80)) \<Longrightarrow>
    utf8_next ((0xE0 + x) # b # d # r) = Some (x * 4096 + (b - 0x80) * 64 + (d - 0x80), r)"
  by (simp add: utf8_next_def Let_def)

lemma utf8_next_four: "x < 8 \<Longrightarrow> cont b \<Longrightarrow> cont d \<Longrightarrow> cont e \<Longrightarrow>
    0x10000 \<le> x * 262144 + (b - 0x80) * 4096 + (d - 0x80) * 64 + (e - 0x80) \<Longrightarrow>
    scalar (x * 262144 + (b - 0x80) * 4096 + (d - 0x80) * 64 + (e - 0x80)) \<Longrightarrow>
    utf8_next ((0xF0 + x) # b # d # e # r)
      = Some (x * 262144 + (b - 0x80) * 4096 + (d - 0x80) * 64 + (e - 0x80), r)"
  by (simp add: utf8_next_def Let_def)

lemma utf8_char_next:
  assumes "scalar c"
  shows "utf8_next (utf8_char c @ r) = Some (c, r)"
proof -
  consider "c < 0x80" | "0x80 \<le> c" "c < 0x800" | "0x800 \<le> c" "c < 0x10000"
    | "0x10000 \<le> c" "c < 0x110000"
    using assms unfolding scalar_def by linarith
  then show ?thesis
  proof cases
    case 1
    then show ?thesis by (simp add: utf8_char_cases utf8_next_def)
  next
    case 2
    then have "c div 64 < 32" by (simp add: less_mult_imp_div_less)
    with utf8_next_two [of "c div 64" "0x80 + c mod 64" r] 2 show ?thesis
      by (simp add: utf8_char_cases base64_digits(1))
  next
    case 3
    then have "c div 64 div 64 < 16" by (simp add: less_mult_imp_div_less)
    with utf8_next_three [of "c div 64 div 64" "0x80 + c div 64 mod 64" "0x80 + c mod 64" r] 3 assms
    show ?thesis by (simp add: utf8_char_cases base64_digits(2))
  next
    case 4
    then have "c div 64 div 64 div 64 < 8" by (simp add: less_mult_imp_div_less)
    with utf8_next_four [of "c div 64 div 64 div 64" "0x80 + c div 64 div 64 mod 64"
        "0x80 + c div 64 mod 64" "0x80 + c mod 64" r] 4 assms
    show ?thesis by (simp add: utf8_char_cases base64_digits(3))
  qed
qed

lemma utf8_char_nonempty [simp]: "utf8_char c \<noteq> []"
  by (simp add: utf8_char_def)

lemma utf8_enc_simps [simp]:
  "utf8_enc [] = []"
  "utf8_enc (c # cs) = utf8_char c @ utf8_enc cs"
  "utf8_enc (cs @ ds) = utf8_enc cs @ utf8_enc ds"
  by (simp_all add: utf8_enc_def)

lemma utf8_dec_enc: "list_all scalar cs \<Longrightarrow> utf8_dec (utf8_enc cs) = Some cs"
  by (induction cs) (simp_all add: utf8_dec.simps utf8_char_next)

lemma base64_undigits:
  fixes x y z w :: nat
  assumes "x < 64"
  shows "(y * 64 + x) div 64 = y" "(y * 64 + x) mod 64 = x"
  using assms by simp_all

lemma cont_digit: "cont b \<Longrightarrow> b - 0x80 < 64"
  unfolding cont_def by linarith

lemma utf8_two:
  assumes "cont b" "0xC0 \<le> a" "a < 0xE0" "c = (a - 0xC0) * 64 + (b - 0x80)" "0x80 \<le> c"
  shows "utf8_char c = [a, b]" "scalar c"
proof -
  have "c div 64 = a - 0xC0" "c mod 64 = b - 0x80"
    unfolding assms(4) by (rule base64_undigits [OF cont_digit [OF assms(1)]])+
  moreover have "c < 0x800" using assms(3,4) cont_digit [OF assms(1)] by linarith
  moreover have "0x80 \<le> b" using assms(1) by (simp add: cont_def)
  ultimately show "utf8_char c = [a, b]" "scalar c"
    using assms(2) utf8_char_cases(2) [OF assms(5)] by (simp_all add: scalar_def)
qed

lemma utf8_three:
  assumes "cont b" "cont d" "0xE0 \<le> a" "a < 0xF0"
    "c = (a - 0xE0) * 4096 + (b - 0x80) * 64 + (d - 0x80)" "0x800 \<le> c"
  shows "utf8_char c = [a, b, d]"
proof -
  have c: "c = ((a - 0xE0) * 64 + (b - 0x80)) * 64 + (d - 0x80)"
    using assms(5) by (simp add: algebra_simps)
  have "c div 64 = (a - 0xE0) * 64 + (b - 0x80)" "c mod 64 = d - 0x80"
    unfolding c by (rule base64_undigits [OF cont_digit [OF assms(2)]])+
  moreover have "((a - 0xE0) * 64 + (b - 0x80)) div 64 = a - 0xE0"
    "((a - 0xE0) * 64 + (b - 0x80)) mod 64 = b - 0x80"
    by (rule base64_undigits [OF cont_digit [OF assms(1)]])+
  moreover have "c < 0x10000"
    using assms(4,5) cont_digit [OF assms(1)] cont_digit [OF assms(2)] by linarith
  moreover have "0x80 \<le> b" "0x80 \<le> d" using assms(1,2) by (simp_all add: cont_def)
  ultimately show ?thesis
    using assms(3) utf8_char_cases(3) [OF assms(6)] by simp
qed

lemma utf8_four:
  assumes "cont b" "cont d" "cont e" "0xF0 \<le> a"
    "c = (a - 0xF0) * 262144 + (b - 0x80) * 4096 + (d - 0x80) * 64 + (e - 0x80)" "0x10000 \<le> c"
  shows "utf8_char c = [a, b, d, e]"
proof -
  let ?y = "(a - 0xF0) * 64 + (b - 0x80)"
  have c: "c = (?y * 64 + (d - 0x80)) * 64 + (e - 0x80)"
    using assms(5) by (simp add: algebra_simps)
  have "c div 64 = ?y * 64 + (d - 0x80)" "c mod 64 = e - 0x80"
    unfolding c by (rule base64_undigits [OF cont_digit [OF assms(3)]])+
  moreover have "(?y * 64 + (d - 0x80)) div 64 = ?y" "(?y * 64 + (d - 0x80)) mod 64 = d - 0x80"
    by (rule base64_undigits [OF cont_digit [OF assms(2)]])+
  moreover have "?y div 64 = a - 0xF0" "?y mod 64 = b - 0x80"
    by (rule base64_undigits [OF cont_digit [OF assms(1)]])+
  moreover have "0x80 \<le> b" "0x80 \<le> d" "0x80 \<le> e" using assms(1-3) by (simp_all add: cont_def)
  ultimately show ?thesis
    using assms(4) utf8_char_cases(4) [OF assms(6)] by simp
qed

lemma utf8_next_char:
  assumes "utf8_next bs = Some (c, r)"
  shows "scalar c \<and> bs = utf8_char c @ r"
proof (cases bs)
  case Nil
  with assms show ?thesis by (simp add: utf8_next_def)
next
  case (Cons a r1)
  consider "a < 0x80" | "0xC0 \<le> a" "a < 0xE0" | "0xE0 \<le> a" "a < 0xF0" | "0xF0 \<le> a" "a < 0xF8"
    using assms Cons by (fastforce simp: utf8_next_def split: if_splits list.splits)
  then show ?thesis
  proof cases
    case 1
    with assms Cons show ?thesis by (auto simp: utf8_next_def utf8_char_def scalar_def)
  next
    case 2
    with assms Cons obtain b where "r1 = b # r" "cont b" "c = (a - 0xC0) * 64 + (b - 0x80)" "0x80 \<le> c"
      by (auto simp: utf8_next_def Let_def split: if_splits list.splits)
    with utf8_two 2 Cons show ?thesis by simp
  next
    case 3
    with assms Cons obtain b d where "r1 = b # d # r" "cont b" "cont d" "scalar c" "0x800 \<le> c"
      "c = (a - 0xE0) * 4096 + (b - 0x80) * 64 + (d - 0x80)"
      by (auto simp: utf8_next_def Let_def split: if_splits list.splits)
    with utf8_three [of b d a c] 3 Cons show ?thesis by simp
  next
    case 4
    with assms Cons obtain b d e where "r1 = b # d # e # r" "cont b" "cont d" "cont e" "scalar c"
      "0x10000 \<le> c" "c = (a - 0xF0) * 262144 + (b - 0x80) * 4096 + (d - 0x80) * 64 + (e - 0x80)"
      by (auto simp: utf8_next_def Let_def split: if_splits list.splits)
    with utf8_four [of b d e a c] 4(1) Cons show ?thesis by simp
  qed
qed

lemma utf8_enc_dec: "utf8_dec bs = Some cs \<Longrightarrow> list_all scalar cs \<and> utf8_enc cs = bs"
proof (induction bs arbitrary: cs rule: utf8_dec.induct)
  case (1 bs)
  show ?case
  proof (cases "bs = []")
    case True
    with 1 show ?thesis by (simp add: utf8_dec.simps)
  next
    case False
    with "1.prems" obtain c r ds where n: "utf8_next bs = Some (c, r)"
      and "utf8_dec r = Some ds" "cs = c # ds"
      by (auto simp: utf8_dec.simps [of bs] split: option.splits)
    with "1.IH" [OF False n] utf8_next_char [OF n] show ?thesis by auto
  qed
qed

section \<open>Strings\<close>

definition str_bytes :: "string \<Rightarrow> nat list" where
  "str_bytes s = map of_char s"

definition is_str :: "string \<Rightarrow> bool" where
  "is_str s \<longleftrightarrow> utf8_dec (str_bytes s) \<noteq> None"

definition chars :: "string \<Rightarrow> nat list" where
  "chars s = (case utf8_dec (str_bytes s) of None \<Rightarrow> [] | Some cs \<Rightarrow> cs)"

definition of_chars :: "nat list \<Rightarrow> string" where
  "of_chars cs = map char_of (utf8_enc cs)"

lemma utf8_char_byte: "scalar c \<Longrightarrow> b \<in> set (utf8_char c) \<Longrightarrow> b < 256"
proof -
  assume "scalar c" and b: "b \<in> set (utf8_char c)"
  have d: "c mod 64 < 64" "c div 64 mod 64 < 64" "c div 64 div 64 mod 64 < 64" by simp_all
  have "c < 0x110000" using \<open>scalar c\<close> by (auto simp: scalar_def)
  then have "c div 64 div 64 div 64 < 8" by (simp add: less_mult_imp_div_less)
  moreover have "c < 0x10000 \<Longrightarrow> c div 64 div 64 < 16" by (simp add: less_mult_imp_div_less)
  moreover have "c < 0x800 \<Longrightarrow> c div 64 < 32" by (simp add: less_mult_imp_div_less)
  ultimately show ?thesis
    using b d by (auto simp: utf8_char_def split: if_splits)
qed

lemma utf8_enc_byte: "list_all scalar cs \<Longrightarrow> b \<in> set (utf8_enc cs) \<Longrightarrow> b < 256"
  by (induction cs) (auto dest: utf8_char_byte)

lemma str_bytes_of_chars: "list_all scalar cs \<Longrightarrow> str_bytes (of_chars cs) = utf8_enc cs"
  by (auto simp: str_bytes_def of_chars_def intro!: map_idI dest: utf8_enc_byte)

lemma chars_of_chars [simp]: "list_all scalar cs \<Longrightarrow> chars (of_chars cs) = cs"
  by (simp add: chars_def str_bytes_of_chars utf8_dec_enc)

lemma is_str_of_chars [simp]: "list_all scalar cs \<Longrightarrow> is_str (of_chars cs)"
  by (simp add: is_str_def str_bytes_of_chars utf8_dec_enc)

lemma utf8_enc_chars: "is_str s \<Longrightarrow> utf8_enc (chars s) = map of_char s"
  using utf8_enc_dec [of "str_bytes s"] by (auto simp: is_str_def chars_def str_bytes_def)

lemma of_chars_chars [simp]: "is_str s \<Longrightarrow> of_chars (chars s) = s"
  by (simp add: of_chars_def utf8_enc_chars comp_def)

lemma chars_scalar [simp]: "list_all scalar (chars s)"
  by (auto simp: chars_def dest: utf8_enc_dec split: option.splits)

lemma length_of_chars: "length (of_chars cs) = length (utf8_enc cs)"
  by (simp add: of_chars_def)

lemma of_chars_Nil_iff [simp]: "of_chars cs = [] \<longleftrightarrow> cs = []"
  by (cases cs) (simp_all add: of_chars_def)

text \<open>ASCII strings are their own characters.\<close>

lemma utf8_enc_ascii: "list_all (\<lambda>c. c < 0x80) cs \<Longrightarrow> utf8_enc cs = cs"
  by (induction cs) (simp_all add: utf8_char_def)

lemma ascii_scalar: "list_all (\<lambda>c. c < 0x80) cs \<Longrightarrow> list_all scalar cs"
  by (auto simp: list_all_iff scalar_def)

lemma of_chars_ascii: "list_all (\<lambda>c. c < 0x80) cs \<Longrightarrow> of_chars cs = map char_of cs"
  by (simp add: of_chars_def utf8_enc_ascii)

lemma chars_ascii:
  assumes "list_all (\<lambda>c. of_char c < (0x80 :: nat)) s"
  shows "chars s = map of_char s" "is_str s"
proof -
  let ?cs = "map of_char s :: nat list"
  have a: "list_all (\<lambda>c. c < 0x80) ?cs" using assms by (simp add: list_all_iff)
  from of_chars_ascii [OF a] have s: "of_chars ?cs = s" by (simp add: comp_def)
  from chars_of_chars [OF ascii_scalar [OF a]] is_str_of_chars [OF ascii_scalar [OF a]]
  show "chars s = ?cs" "is_str s" unfolding s .
qed

section \<open>Character boundaries\<close>

text \<open>\<open>str::is_char_boundary\<close>: the ends of the string, and every byte that is no continuation byte.\<close>

definition is_char_boundary :: "string \<Rightarrow> nat \<Rightarrow> bool" where
  "is_char_boundary s i \<longleftrightarrow> i = 0 \<or> i = length s \<or> i < length s \<and> \<not> cont (of_char (s ! i))"

text \<open>The loop that walks back from \<open>end\<close> to the last boundary.\<close>

fun floor_boundary :: "string \<Rightarrow> nat \<Rightarrow> nat" where
  "floor_boundary s 0 = 0"
| "floor_boundary s (Suc n) = (if is_char_boundary s (Suc n) then Suc n else floor_boundary s n)"

lemma floor_boundary_le: "floor_boundary s n \<le> n"
  by (induction n) auto

lemma floor_boundary_boundary: "is_char_boundary s (floor_boundary s n)"
  by (induction n) (auto simp: is_char_boundary_def)

lemma utf8_char_split:
  "\<exists>a bs. utf8_char c = a # bs \<and> \<not> cont a \<and> list_all cont bs" if "scalar c"
  using that unfolding utf8_char_def cont_def scalar_def
  by auto

text \<open>Cutting an encoded string at a boundary keeps a prefix of its characters.\<close>

lemma take_boundary:
  assumes "list_all scalar cs" "i \<le> length (utf8_enc cs)"
    "i = length (utf8_enc cs) \<or> \<not> cont (utf8_enc cs ! i)"
  shows "\<exists>k. take i (utf8_enc cs) = utf8_enc (take k cs)"
  using assms
proof (induction cs arbitrary: i)
  case Nil
  then show ?case by auto
next
  case (Cons c cs)
  obtain a bs where ab: "utf8_char c = a # bs" "list_all cont bs"
    using utf8_char_split [of c] Cons.prems by auto
  show ?case
  proof (cases "i = 0")
    case True
    then have "take i (utf8_enc (c # cs)) = utf8_enc (take 0 (c # cs))" by simp
    then show ?thesis by blast
  next
    case False
    have long: "Suc (length bs) \<le> i"
    proof (rule ccontr)
      assume "\<not> ?thesis"
      with False obtain j where j: "i = Suc j" "j < length bs" by (cases i) auto
      with ab have "cont (utf8_enc (c # cs) ! i)"
        by (simp add: nth_append list_all_length)
      with Cons.prems(3) j ab show False by simp
    qed
    then obtain j where i: "i = Suc (length bs) + j" using le_Suc_ex by blast
    have "\<exists>k. take j (utf8_enc cs) = utf8_enc (take k cs)"
      using Cons.prems ab by (intro Cons.IH) (auto simp: i nth_append)
    then obtain k where "take j (utf8_enc cs) = utf8_enc (take k cs)" ..
    with ab have "take i (utf8_enc (c # cs)) = utf8_enc (take (Suc k) (c # cs))"
      by (simp add: i)
    then show ?thesis by blast
  qed
qed

lemma take_floor_boundary:
  assumes "is_str s" "n \<le> length s"
  shows "\<exists>k. take (floor_boundary s n) s = of_chars (take k (chars s))"
proof -
  let ?i = "floor_boundary s n" and ?cs = "chars s"
  have enc: "utf8_enc ?cs = map of_char s"
    using assms(1) by (rule utf8_enc_chars)
  have i: "?i \<le> length s" using floor_boundary_le [of s n] assms(2) by linarith
  have "\<exists>k. take ?i (utf8_enc ?cs) = utf8_enc (take k ?cs)"
  proof (cases "?i = 0")
    case True
    then show ?thesis by (metis take_0 utf8_enc_simps(1))
  next
    case False
    with floor_boundary_boundary [of s n] show ?thesis
      by (intro take_boundary) (use i in \<open>auto simp: enc is_char_boundary_def\<close>)
  qed
  then obtain k where "take ?i (map of_char s) = utf8_enc (take k ?cs)" by (auto simp: enc)
  moreover have "take ?i s = map char_of (take ?i (map of_char s :: nat list))"
    by (simp add: take_map comp_def)
  ultimately show ?thesis unfolding of_chars_def by metis
qed

end
