(* ===== verification/Filename.thy ===== *)
theory Filename
  imports Utf8
begin

text \<open>
  \<open>sanitize_attachment_filename\<close> of \<open>server/src/signed.rs\<close>. Unicode normalisation is the
  third-party crate \<open>unicode_normalization\<close>; it is the parameter \<open>nfc\<close>, a function on sequences of
  scalar values. What the development relies on is stated where it is used: that \<open>nfc\<close> yields scalar
  values (its Rust type), and that it leaves ASCII alone.
\<close>

section \<open>The sanitizer\<close>

definition MAX_ATTACHMENT_FILENAME_LEN :: nat where
  "MAX_ATTACHMENT_FILENAME_LEN = 255"

text \<open>The filter closure, one disjunct per early \<open>return false\<close>.\<close>

definition strip_filename_char :: "nat \<Rightarrow> bool" where
  "strip_filename_char cu \<longleftrightarrow>
     cu = 0x2F \<or> cu = 0x5C \<or> cu = 0
   \<or> (0x01 \<le> cu \<and> cu \<le> 0x1F) \<or> cu = 0x7F
   \<or> cu = 0x200E \<or> cu = 0x200F \<or> (0x202A \<le> cu \<and> cu \<le> 0x202E) \<or> (0x2066 \<le> cu \<and> cu \<le> 0x2069)
   \<or> (0x200B \<le> cu \<and> cu \<le> 0x200D) \<or> cu = 0x2060 \<or> cu = 0xFEFF
   \<or> cu \<in> {0x3C, 0x3E, 0x3A, 0x22, 0x7C, 0x3F, 0x2A}"

definition trim_leading_dots :: "string \<Rightarrow> string" where
  "trim_leading_dots s = dropWhile (\<lambda>c. c = CHR ''.'') s"

definition truncate_filename :: "string \<Rightarrow> string" where
  "truncate_filename s =
     (if length s \<le> MAX_ATTACHMENT_FILENAME_LEN then s
      else take (floor_boundary s MAX_ATTACHMENT_FILENAME_LEN) s)"

definition sanitize_attachment_filename :: "(nat list \<Rightarrow> nat list) \<Rightarrow> string \<Rightarrow> string option" where
  "sanitize_attachment_filename nfc raw =
     (let normalized = of_chars (filter (\<lambda>c. \<not> strip_filename_char c) (nfc (chars raw)));
          stripped = trim_leading_dots normalized;
          truncated = truncate_filename stripped
      in if truncated = [] then None else Some truncated)"

section \<open>The byte-level steps on characters\<close>

lemma utf8_char_dot: "scalar c \<Longrightarrow> hd (utf8_char c) = 0x2E \<longleftrightarrow> c = 0x2E"
  by (auto simp: utf8_char_def)

lemma dropWhile_dots:
  "list_all scalar cs \<Longrightarrow> dropWhile (\<lambda>b. b = 0x2E) (utf8_enc cs) = utf8_enc (dropWhile (\<lambda>c. c = 0x2E) cs)"
proof (induction cs)
  case Nil
  then show ?case by simp
next
  case (Cons c cs)
  obtain a bs where ab: "utf8_char c = a # bs" by (cases "utf8_char c") auto
  show ?case
  proof (cases "c = 0x2E")
    case True
    with Cons show ?thesis by (simp add: utf8_char_def)
  next
    case False
    with Cons.prems utf8_char_dot [of c] ab have "a \<noteq> 0x2E" by simp
    with False ab show ?thesis by simp
  qed
qed

lemma char_of_dot: "b < 256 \<Longrightarrow> char_of b = CHR ''.'' \<longleftrightarrow> b = (0x2E :: nat)"
proof -
  assume b: "b < 256"
  have "char_of b = CHR ''.'' \<longleftrightarrow> of_char (char_of b :: char) = (of_char CHR ''.'' :: nat)"
    by (simp only: of_char_eq_iff)
  also have "\<dots> \<longleftrightarrow> b = 0x2E" using b by simp
  finally show ?thesis .
qed

lemma trim_leading_dots_of_chars:
  assumes "list_all scalar cs"
  shows "trim_leading_dots (of_chars cs) = of_chars (dropWhile (\<lambda>c. c = 0x2E) cs)"
proof -
  have "trim_leading_dots (of_chars cs) = map char_of (dropWhile (\<lambda>b. char_of b = CHR ''.'') (utf8_enc cs))"
    by (simp add: trim_leading_dots_def of_chars_def dropWhile_map comp_def)
  also have "dropWhile (\<lambda>b. char_of b = CHR ''.'') (utf8_enc cs) = dropWhile (\<lambda>b. b = 0x2E) (utf8_enc cs)"
    by (rule dropWhile_cong) (auto simp: char_of_dot dest: utf8_enc_byte [OF assms])
  finally show ?thesis
    by (simp add: of_chars_def dropWhile_dots [OF assms])
qed

lemma truncate_filename_prefix:
  assumes "is_str s"
  shows "\<exists>k. truncate_filename s = of_chars (take k (chars s))"
proof (cases "length s \<le> MAX_ATTACHMENT_FILENAME_LEN")
  case True
  then have "truncate_filename s = of_chars (take (length (chars s)) (chars s))"
    using assms by (simp add: truncate_filename_def)
  then show ?thesis by blast
next
  case False
  with take_floor_boundary [OF assms, of MAX_ATTACHMENT_FILENAME_LEN] show ?thesis
    by (simp add: truncate_filename_def)
qed

lemma truncate_filename_length: "length (truncate_filename s) \<le> MAX_ATTACHMENT_FILENAME_LEN"
  using floor_boundary_le [of s MAX_ATTACHMENT_FILENAME_LEN]
  by (auto simp: truncate_filename_def)

lemma truncate_filename_short:
  "length s \<le> MAX_ATTACHMENT_FILENAME_LEN \<Longrightarrow> truncate_filename s = s"
  by (simp add: truncate_filename_def)

text \<open>What the sanitizer keeps, on characters: a prefix of the filtered characters without their
  leading dots.\<close>

definition clean_chars :: "nat list \<Rightarrow> bool" where
  "clean_chars cs \<longleftrightarrow> list_all scalar cs \<and> (\<forall>c \<in> set cs. \<not> strip_filename_char c) \<and>
     (cs \<noteq> [] \<longrightarrow> hd cs \<noteq> 0x2E)"

lemma clean_charsD: "clean_chars cs \<Longrightarrow> list_all scalar cs"
  by (simp add: clean_chars_def)

lemma clean_chars_take: "clean_chars cs \<Longrightarrow> clean_chars (take k cs)"
  by (cases cs; cases k) (auto simp: clean_chars_def list_all_iff dest: in_set_takeD)

lemma list_all_scalar_filter: "list_all scalar cs \<Longrightarrow> list_all scalar (filter P cs)"
  by (auto simp: list_all_iff)

lemma list_all_scalar_dropWhile: "list_all scalar cs \<Longrightarrow> list_all scalar (dropWhile P cs)"
  by (auto simp: list_all_iff dest: set_dropWhileD)

lemma clean_chars_filtered:
  assumes "list_all scalar cs"
  shows "clean_chars (dropWhile (\<lambda>c. c = 0x2E) (filter (\<lambda>c. \<not> strip_filename_char c) cs))"
  unfolding clean_chars_def
  using assms hd_dropWhile [of "\<lambda>c. c = 0x2E" "filter (\<lambda>c. \<not> strip_filename_char c) cs"]
  by (auto simp: list_all_scalar_filter list_all_scalar_dropWhile dest!: set_dropWhileD)

lemma sanitize_on_chars:
  assumes "list_all scalar (nfc (chars raw))"
  shows "sanitize_attachment_filename nfc raw =
    (let t = truncate_filename (of_chars (dropWhile (\<lambda>c. c = 0x2E)
        (filter (\<lambda>c. \<not> strip_filename_char c) (nfc (chars raw)))))
     in if t = [] then None else Some t)"
  unfolding sanitize_attachment_filename_def Let_def
  by (simp only: trim_leading_dots_of_chars [OF list_all_scalar_filter [OF assms]])

text \<open>\<open>nfc\<close> returns \<open>char\<close>s: scalar values.\<close>

definition nfc_ok :: "(nat list \<Rightarrow> nat list) \<Rightarrow> bool" where
  "nfc_ok nfc \<longleftrightarrow> (\<forall>cs. list_all scalar cs \<longrightarrow> list_all scalar (nfc cs))"

lemma sanitize_clean:
  assumes "nfc_ok nfc" "sanitize_attachment_filename nfc raw = Some f"
  shows "is_str f" "clean_chars (chars f)" "f \<noteq> []" "length f \<le> MAX_ATTACHMENT_FILENAME_LEN"
proof -
  let ?cs = "dropWhile (\<lambda>c. c = 0x2E) (filter (\<lambda>c. \<not> strip_filename_char c) (nfc (chars raw)))"
  have sc: "list_all scalar (nfc (chars raw))" using assms(1) by (simp add: nfc_ok_def)
  have f: "f = truncate_filename (of_chars ?cs)" "f \<noteq> []"
    using assms(2) unfolding sanitize_on_chars [of nfc raw, OF sc] Let_def
    by (simp_all split: if_split_asm)
  have clean: "clean_chars ?cs" using sc by (rule clean_chars_filtered)
  note sc' = clean_charsD [OF clean]
  obtain k where k: "f = of_chars (take k ?cs)"
    using truncate_filename_prefix [OF is_str_of_chars [OF sc']] chars_of_chars [OF sc'] f(1) by metis
  have ck: "clean_chars (take k ?cs)" using clean by (rule clean_chars_take)
  show "is_str f" unfolding k by (rule is_str_of_chars [OF clean_charsD [OF ck]])
  show "clean_chars (chars f)"
    unfolding k using ck by (simp only: chars_of_chars [OF clean_charsD [OF ck]])
  show "f \<noteq> []" by (rule f(2))
  show "length f \<le> MAX_ATTACHMENT_FILENAME_LEN"
    unfolding f(1) by (rule truncate_filename_length)
qed

lemma sanitize_fixed:
  assumes "is_str f" "clean_chars (chars f)" "f \<noteq> []" "length f \<le> MAX_ATTACHMENT_FILENAME_LEN"
    "nfc (chars f) = chars f"
  shows "sanitize_attachment_filename nfc f = Some f"
proof -
  have "filter (\<lambda>c. \<not> strip_filename_char c) (chars f) = chars f"
    using assms(2) by (auto simp: clean_chars_def filter_id_conv)
  moreover have "dropWhile (\<lambda>c. c = 0x2E) (chars f) = chars f"
    using assms(2) by (cases "chars f") (auto simp: clean_chars_def)
  moreover have "trim_leading_dots f = of_chars (dropWhile (\<lambda>c. c = 0x2E) (chars f))"
    using trim_leading_dots_of_chars [of "chars f"] assms(1) by simp
  ultimately show ?thesis
    using assms(1,3,4) by (simp add: sanitize_attachment_filename_def assms(5) truncate_filename_short)
qed

lemma sanitize_example: "sanitize_attachment_filename (\<lambda>cs. cs) ''..a/b'' = Some ''ab''"
proof -
  have "chars ''..a/b'' = [0x2E, 0x2E, 0x61, 0x2F, 0x62]" by (simp add: chars_ascii)
  moreover have "of_chars [0x61, 0x62] = ''ab''"
    using of_chars_chars [of "''ab''"] by (simp add: chars_ascii)
  ultimately show ?thesis
    by (simp add: sanitize_on_chars scalar_def strip_filename_char_def truncate_filename_def
        MAX_ATTACHMENT_FILENAME_LEN_def)
qed

section \<open>Properties\<close>



text \<open>On names whose normalisation and whose sanitized form are left alone by the normaliser, such as
  ASCII names, sanitizing is idempotent: the name an upload stores survives the fresh pass that every
  verifier of the signed payload makes.\<close>

theorem sanitize_idempotent:
  assumes "nfc_ok nfc" "\<And>cs. \<forall>c \<in> set cs. c < 0x80 \<Longrightarrow> nfc cs = cs"
    "\<forall>c \<in> set (chars raw). c < 0x80" "sanitize_attachment_filename nfc raw = Some f"
  shows "sanitize_attachment_filename nfc f = Some f"
proof -
  have n: "nfc (chars raw) = chars raw" using assms(2,3) by blast
  let ?cs = "dropWhile (\<lambda>c. c = 0x2E) (filter (\<lambda>c. \<not> strip_filename_char c) (chars raw))"
  have sc: "list_all scalar ?cs" by (simp add: list_all_scalar_filter list_all_scalar_dropWhile)
  have "f = truncate_filename (of_chars ?cs)"
    using assms(4) sanitize_on_chars [of nfc raw] unfolding n Let_def
    by (simp split: if_split_asm)
  with truncate_filename_prefix [of "of_chars ?cs"] sc
  obtain k where "f = of_chars (take k ?cs)" by auto
  moreover have "list_all scalar (take k ?cs)"
    using sc by (auto simp: list_all_iff dest: in_set_takeD)
  ultimately have "chars f = take k ?cs" by simp
  then have "\<forall>c \<in> set (chars f). c < 0x80"
    using assms(3) by (auto dest!: in_set_takeD set_dropWhileD)
  then have "nfc (chars f) = chars f" by (rule assms(2))
  with sanitize_clean [OF assms(1,4)] show ?thesis by (intro sanitize_fixed)
qed

theorem sanitize_idempotent_witness:
  "sanitize_attachment_filename (\<lambda>cs. cs) ''ab'' = Some ''ab''"
proof (rule sanitize_idempotent)
  show "nfc_ok (\<lambda>cs. cs)" by (simp add: nfc_ok_def)
  show "sanitize_attachment_filename (\<lambda>cs. cs) ''..a/b'' = Some ''ab''" by (rule sanitize_example)
  show "\<forall>c \<in> set (chars ''..a/b''). c < 0x80" by (simp add: chars_ascii)
qed simp

text \<open>Outside ASCII the sanitizer is not idempotent, because it normalises before it strips. With the
  facts of NFC that a letter e, a zero-width space and a combining acute accent are already normal and
  that e followed by the accent composes, the name of those three characters sanitizes to a name that a
  second pass changes; a verifier rejects it.\<close>

theorem sanitize_not_idempotent:
  assumes "nfc [0x65, 0x200B, 0x301] = [0x65, 0x200B, 0x301]" "nfc [0x65, 0x301] = [0xE9]"
  shows "\<exists>f. sanitize_attachment_filename nfc (of_chars [0x65, 0x200B, 0x301]) = Some f \<and>
    sanitize_attachment_filename nfc f \<noteq> Some f"
proof -
  have c: "chars (of_chars [0x65, 0x200B, 0x301]) = [0x65, 0x200B, 0x301]"
    "chars (of_chars [0x65, 0x301]) = [0x65, 0x301]"
    by (simp_all add: scalar_def)
  have e: "of_chars [0x65, 0x301] = map char_of [0x65, 0xCC, 0x81 :: nat]"
    "of_chars [0xE9] = map char_of [0xC3, 0xA9 :: nat]"
    by (simp_all add: of_chars_def utf8_char_def)
  have "sanitize_attachment_filename nfc (of_chars [0x65, 0x200B, 0x301]) = Some (of_chars [0x65, 0x301])"
    unfolding sanitize_attachment_filename_def c assms
    by (simp add: strip_filename_char_def Let_def e trim_leading_dots_def char_of_dot
        truncate_filename_short MAX_ATTACHMENT_FILENAME_LEN_def)
  moreover have "sanitize_attachment_filename nfc (of_chars [0x65, 0x301]) = Some (of_chars [0xE9])"
    unfolding sanitize_attachment_filename_def c assms
    by (simp add: strip_filename_char_def Let_def e trim_leading_dots_def char_of_dot
        truncate_filename_short MAX_ATTACHMENT_FILENAME_LEN_def)
  moreover have "of_chars [0xE9] \<noteq> of_chars [0x65, 0x301]" by (simp add: e)
  ultimately show ?thesis by auto
qed

theorem sanitize_not_idempotent_witness:
  "\<exists>f. sanitize_attachment_filename (\<lambda>cs. if cs = [0x65, 0x301] then [0xE9] else cs)
      (of_chars [0x65, 0x200B, 0x301]) = Some f \<and>
    sanitize_attachment_filename (\<lambda>cs. if cs = [0x65, 0x301] then [0xE9] else cs) f \<noteq> Some f"
  by (rule sanitize_not_idempotent) simp_all

end
