(* ===== verification/Cbor.thy ===== *)
theory Cbor
  imports Utf8
begin

text \<open>
  The CBOR values that signed payloads are made of, and the interface to the codec. The sources use the
  third-party crate \<open>ciborium\<close>: \<open>into_writer\<close> and \<open>from_reader\<close> are the parameters \<open>ser\<close> and \<open>de\<close>
  of the locale \<open>cbor_codec\<close>, whose one law is the crate's round trip on the values the program
  builds (unsigned integers, byte and text strings, arrays and maps, of bounded nesting). The second
  half of the theory defines a codec with the head and item encodings of RFC 8949 and proves that it
  satisfies the law, which is what the witnesses instantiate the parameters with.
\<close>

section \<open>Values\<close>

datatype cbor_value =
    VInteger int
  | VBytes bytes
  | VFloat u64
  | VText string
  | VBool bool
  | VNull
  | VTag u64 cbor_value
  | VArray "cbor_value list"
  | VMap "(cbor_value \<times> cbor_value) list"

text \<open>The values the encoders of the program build, to nesting depth \<open>d\<close>. A float is its 64 bits; the crate writes
  the shortest form that converts back to the same bits.\<close>

fun payload_value :: "nat \<Rightarrow> cbor_value \<Rightarrow> bool" where
  "payload_value d (VInteger i) = (0 \<le> i \<and> i < 2 ^ 64)"
| "payload_value d (VBytes b) = (length b < 2 ^ 64)"
| "payload_value d (VText s) = (is_str s \<and> length s < 2 ^ 64)"
| "payload_value d (VFloat w) = True"
| "payload_value (Suc d) (VArray vs) = (length vs < 2 ^ 64 \<and> list_all (payload_value d) vs)"
| "payload_value (Suc d) (VMap kvs) =
     (length kvs < 2 ^ 64 \<and> list_all (\<lambda>(k, v). payload_value d k \<and> payload_value d v) kvs)"
| "payload_value d v = False"

definition max_depth :: nat where
  "max_depth = 16"

locale cbor_codec =
  fixes ser :: "cbor_value \<Rightarrow> bytes option"
    and de :: "bytes \<Rightarrow> cbor_value option"
  assumes round_trip: "payload_value max_depth v \<Longrightarrow> \<exists>b. ser v = Some b \<and> de b = Some v"
begin

lemma ser_total: "payload_value max_depth v \<Longrightarrow> ser v \<noteq> None"
  using round_trip by fastforce

lemma de_ser: "payload_value max_depth v \<Longrightarrow> ser v = Some b \<Longrightarrow> de b = Some v"
  using round_trip by fastforce

lemma ser_inj:
  "payload_value max_depth v \<Longrightarrow> payload_value max_depth w \<Longrightarrow> ser v = ser w \<Longrightarrow> v = w"
  using round_trip by (metis option.inject)

end

section \<open>A codec that satisfies the law\<close>

fun be_bytes :: "nat \<Rightarrow> nat \<Rightarrow> bytes" where
  "be_bytes 0 n = []"
| "be_bytes (Suc k) n = be_bytes k (n div 256) @ [word_of_nat n]"

definition be_val :: "bytes \<Rightarrow> nat" where
  "be_val bs = foldl (\<lambda>a b. a * 256 + unat b) 0 bs"

lemma length_be_bytes [simp]: "length (be_bytes k n) = k"
  by (induction k arbitrary: n) simp_all

lemma be_val_bytes: "be_val (be_bytes k n) = n mod 256 ^ k"
proof (induction k arbitrary: n)
  case 0
  then show ?case by (simp add: be_val_def)
next
  case (Suc k)
  have "be_val (be_bytes (Suc k) n) = (n div 256 mod 256 ^ k) * 256 + n mod 256"
    using Suc [of "n div 256"] by (simp add: be_val_def unat_of_nat)
  also have "\<dots> = n mod 256 ^ Suc k"
    using mod_mult2_eq [of n 256 "256 ^ k"] by (simp add: algebra_simps)
  finally show ?case .
qed

definition enc_head :: "nat \<Rightarrow> nat \<Rightarrow> bytes" where
  "enc_head m n =
     (if n < 24 then [word_of_nat (m * 32 + n)]
      else if n < 2 ^ 8 then word_of_nat (m * 32 + 24) # be_bytes 1 n
      else if n < 2 ^ 16 then word_of_nat (m * 32 + 25) # be_bytes 2 n
      else if n < 2 ^ 32 then word_of_nat (m * 32 + 26) # be_bytes 4 n
      else word_of_nat (m * 32 + 27) # be_bytes 8 n)"

definition dec_head :: "bytes \<Rightarrow> (nat \<times> nat \<times> bytes) option" where
  "dec_head bs = (case bs of [] \<Rightarrow> None
   | b # r \<Rightarrow>
      let m = unat b div 32; a = unat b mod 32;
          arg = (\<lambda>k. if length r < k then None else Some (m, be_val (take k r), drop k r))
      in if a < 24 then Some (m, a, r)
         else if a = 24 then arg 1 else if a = 25 then arg 2
         else if a = 26 then arg 4 else if a = 27 then arg 8 else None)"

lemma head_byte:
  assumes "m < 8" "a < 32"
  shows "unat (word_of_nat (m * 32 + a) :: u8) div 32 = m"
    "unat (word_of_nat (m * 32 + a) :: u8) mod 32 = a"
proof -
  have "m * 32 + a < 256" using assms by linarith
  then have "unat (word_of_nat (m * 32 + a) :: u8) = m * 32 + a"
    by (simp add: unat_of_nat del: of_nat_add of_nat_mult)
  with assms show "unat (word_of_nat (m * 32 + a) :: u8) div 32 = m"
    "unat (word_of_nat (m * 32 + a) :: u8) mod 32 = a" by simp_all
qed

lemma dec_enc_head:
  assumes "m < 8" "n < 2 ^ 64"
  shows "dec_head (enc_head m n @ r) = Some (m, n, r)"
proof -
  have arg: "be_val (take k (be_bytes k n @ r)) = n" if "n < 256 ^ k" for k
    using that by (simp add: be_val_bytes)
  note hb = head_byte [OF assms(1)]
  consider "n < 24" | "24 \<le> n" "n < 2 ^ 8" | "2 ^ 8 \<le> n" "n < 2 ^ 16" | "2 ^ 16 \<le> n" "n < 2 ^ 32"
    | "2 ^ 32 \<le> n"
    by linarith
  then show ?thesis
  proof cases
    case 1
    then show ?thesis using hb [of n] by (simp add: enc_head_def dec_head_def Let_def)
  next
    case 2
    then have "enc_head m n = word_of_nat (m * 32 + 24) # be_bytes 1 n" by (simp add: enc_head_def)
    then show ?thesis using hb [of 24] arg [of 1] 2 by (simp add: dec_head_def Let_def)
  next
    case 3
    then have "enc_head m n = word_of_nat (m * 32 + 25) # be_bytes 2 n" by (simp add: enc_head_def)
    then show ?thesis using hb [of 25] arg [of 2] 3 by (simp add: dec_head_def Let_def)
  next
    case 4
    then have "enc_head m n = word_of_nat (m * 32 + 26) # be_bytes 4 n" by (simp add: enc_head_def)
    then show ?thesis using hb [of 26] arg [of 4] 4 by (simp add: dec_head_def Let_def)
  next
    case 5
    then have "enc_head m n = word_of_nat (m * 32 + 27) # be_bytes 8 n" by (simp add: enc_head_def)
    then show ?thesis using hb [of 27] arg [of 8] assms(2) by (simp add: dec_head_def Let_def)
  qed
qed

definition text_bytes :: "string \<Rightarrow> bytes" where
  "text_bytes s = map (\<lambda>c. word_of_nat (of_char c)) s"

definition bytes_text :: "bytes \<Rightarrow> string" where
  "bytes_text b = map (\<lambda>x. char_of (unat x)) b"

lemma bytes_text_bytes [simp]: "bytes_text (text_bytes s) = s"
  by (simp add: bytes_text_def text_bytes_def unat_of_nat comp_def)

lemma length_text_bytes [simp]: "length (text_bytes s) = length s"
  by (simp add: text_bytes_def)

text \<open>Encoding to depth \<open>d\<close>; a value nested deeper, or with a tag, has no encoding here.\<close>

fun concat_opt :: "bytes option list \<Rightarrow> bytes option" where
  "concat_opt [] = Some []"
| "concat_opt (None # xs) = None"
| "concat_opt (Some b # xs) = map_option ((@) b) (concat_opt xs)"

fun enc :: "nat \<Rightarrow> cbor_value \<Rightarrow> bytes option" where
  "enc d (VInteger i) =
     (if 0 \<le> i \<and> i < 2 ^ 64 then Some (enc_head 0 (nat i))
      else if i < 0 \<and> - (2 ^ 64) \<le> i then Some (enc_head 1 (nat (- i - 1))) else None)"
| "enc d (VBytes b) = Some (enc_head 2 (length b) @ b)"
| "enc d (VText s) = Some (enc_head 3 (length s) @ text_bytes s)"
| "enc d (VFloat w) = Some (0xFB # be_bytes 8 (unat w))"
| "enc d (VBool b) = Some (enc_head 7 (if b then 21 else 20))"
| "enc d VNull = Some (enc_head 7 22)"
| "enc (Suc d) (VArray vs) =
     map_option ((@) (enc_head 4 (length vs))) (concat_opt (map (enc d) vs))"
| "enc (Suc d) (VMap kvs) =
     map_option ((@) (enc_head 5 (length kvs)))
       (concat_opt (concat (map (\<lambda>(k, v). [enc d k, enc d v]) kvs)))"
| "enc d v = None"

fun dec_many :: "(bytes \<Rightarrow> ('a \<times> bytes) option) \<Rightarrow> nat \<Rightarrow> bytes \<Rightarrow> ('a list \<times> bytes) option" where
  "dec_many f 0 bs = Some ([], bs)"
| "dec_many f (Suc n) bs = (case f bs of None \<Rightarrow> None
     | Some (v, r) \<Rightarrow> (case dec_many f n r of None \<Rightarrow> None | Some (vs, r') \<Rightarrow> Some (v # vs, r')))"

fun pair_up :: "'a list \<Rightarrow> ('a \<times> 'a) list" where
  "pair_up (k # v # r) = (k, v) # pair_up r"
| "pair_up _ = []"

definition float_head :: "bytes \<Rightarrow> bool" where
  "float_head bs \<longleftrightarrow> bs \<noteq> [] \<and> hd bs = 0xFB"

fun dec :: "nat \<Rightarrow> bytes \<Rightarrow> (cbor_value \<times> bytes) option" where
  "dec d bs =
   (if float_head bs then
      (if length (tl bs) < 8 then None else Some (VFloat (word_of_nat (be_val (take 8 (tl bs)))), drop 8 (tl bs)))
    else case dec_head bs of None \<Rightarrow> None
   | Some (m, n, r) \<Rightarrow>
      if m = 0 then Some (VInteger (int n), r)
      else if m = 1 then Some (VInteger (- int n - 1), r)
      else if m = 2 then (if length r < n then None else Some (VBytes (take n r), drop n r))
      else if m = 3 then
        (if length r < n \<or> \<not> is_str (bytes_text (take n r)) then None
         else Some (VText (bytes_text (take n r)), drop n r))
      else if m = 7 then
        (if n = 20 then Some (VBool False, r) else if n = 21 then Some (VBool True, r)
         else if n = 22 then Some (VNull, r) else None)
      else (case d of 0 \<Rightarrow> None
       | Suc d' \<Rightarrow>
          if m = 4 then map_option (\<lambda>(vs, r'). (VArray vs, r')) (dec_many (dec d') n r)
          else if m = 5 then map_option (\<lambda>(vs, r'). (VMap (pair_up vs), r')) (dec_many (dec d') (2 * n) r)
          else None))"

declare dec.simps [simp del]

definition rfc_ser :: "cbor_value \<Rightarrow> bytes option" where
  "rfc_ser v = enc max_depth v"

definition rfc_de :: "bytes \<Rightarrow> cbor_value option" where
  "rfc_de bs = map_option fst (dec max_depth bs)"

lemma dec_many_enc:
  assumes "\<forall>v \<in> set vs. \<exists>b. enc d v = Some b \<and> (\<forall>r. dec d (b @ r) = Some (v, r))"
  shows "\<exists>b. concat_opt (map (enc d) vs) = Some b \<and>
    (\<forall>r. dec_many (dec d) (length vs) (b @ r) = Some (vs, r))"
  using assms
proof (induction vs)
  case Nil
  then show ?case by simp
next
  case (Cons v vs)
  then obtain b bs where "enc d v = Some b" "\<forall>r. dec d (b @ r) = Some (v, r)"
    "concat_opt (map (enc d) vs) = Some bs" "\<forall>r. dec_many (dec d) (length vs) (bs @ r) = Some (vs, r)"
    by auto
  then show ?case by simp
qed

lemma pair_up_concat [simp]: "pair_up (concat (map (\<lambda>(k, v). [k, v]) kvs)) = kvs"
  by (induction kvs) auto

lemma length_concat_pairs [simp]: "length (concat (map (\<lambda>(k, v). [k, v]) kvs)) = 2 * length kvs"
  by (induction kvs) auto

lemma map_concat_pairs:
  "concat (map (\<lambda>(k, v). [f k, f v]) kvs) = map f (concat (map (\<lambda>(k, v). [k, v]) kvs))"
  by (induction kvs) auto

lemma enc_head_Cons: "\<exists>a. a < 32 \<and> (n < 24 \<longrightarrow> a = n) \<and> (\<exists>r. enc_head m n = word_of_nat (m * 32 + a) # r)"
  unfolding enc_head_def by (auto intro: exI [of _ n] exI [of _ 24] exI [of _ 25] exI [of _ 26] exI [of _ 27])

lemma not_float_head [simp]:
  assumes "m < 7 \<or> m = 7 \<and> n < 24"
  shows "\<not> float_head (enc_head m n @ r)"
proof -
  obtain a r' where a: "a < 32" "n < 24 \<longrightarrow> a = n" "enc_head m n = word_of_nat (m * 32 + a) # r'"
    using enc_head_Cons by blast
  have b: "m * 32 + a < 251" using assms a(1,2) by auto
  then have "unat (word_of_nat (m * 32 + a) :: u8) = m * 32 + a"
    by (simp add: unat_of_nat del: of_nat_add of_nat_mult)
  then have "(word_of_nat (m * 32 + a) :: u8) \<noteq> 0xFB" using b by auto
  then show ?thesis by (simp add: float_head_def a(3) del: of_nat_add of_nat_mult)
qed

lemma float_head_Cons [simp]: "float_head (0xFB # r)"
  by (simp add: float_head_def)

lemma be_val_float: "word_of_nat (be_val (be_bytes 8 (unat w))) = (w :: u64)"
  using unsigned_less [of w, where 'a = nat] by (simp add: be_val_bytes)

lemma dec_map:
  assumes "n < 2 ^ 64" "dec_many (dec d) (2 * n) (b @ r) = Some (vs, r)"
  shows "dec (Suc d) (enc_head 5 n @ b @ r) = Some (VMap (pair_up vs), r)"
  using assms by (subst dec.simps) (simp add: dec_enc_head)

lemma dec_enc:
  "payload_value d v \<Longrightarrow> \<exists>b. enc d v = Some b \<and> (\<forall>r. dec d (b @ r) = Some (v, r))"
proof (induction d v rule: payload_value.induct)
  case (1 d i)
  then have "nat i < 2 ^ 64" by (simp add: nat_less_iff)
  with 1 show ?case by (simp add: dec.simps dec_enc_head)
next
  case (5 d vs)
  then have "\<forall>v \<in> set vs. \<exists>b. enc d v = Some b \<and> (\<forall>r. dec d (b @ r) = Some (v, r))"
    by (auto simp: list_all_iff)
  with dec_many_enc [OF this] 5 show ?case
    by (fastforce simp: dec.simps dec_enc_head)
next
  case (6 d kvs)
  let ?vs = "concat (map (\<lambda>(k, v). [k, v]) kvs)"
  have all: "\<forall>v \<in> set ?vs. \<exists>b. enc d v = Some b \<and> (\<forall>r. dec d (b @ r) = Some (v, r))"
  proof
    fix v
    assume "v \<in> set ?vs"
    then obtain k w where kw: "(k, w) \<in> set kvs" and v: "v = k \<or> v = w" by auto
    with "6.prems" have "payload_value d k \<and> payload_value d w" by (auto simp: list_all_iff)
    with "6.IH" kw v show "\<exists>b. enc d v = Some b \<and> (\<forall>r. dec d (b @ r) = Some (v, r))" by blast
  qed
  obtain b where b: "concat_opt (map (enc d) ?vs) = Some b"
    "\<And>r. dec_many (dec d) (2 * length kvs) (b @ r) = Some (?vs, r)"
    using dec_many_enc [OF all] by auto
  have "length kvs < 2 ^ 64" using "6.prems" by simp
  from dec_map [OF this b(2)]
  have "dec (Suc d) ((enc_head 5 (length kvs) @ b) @ r) = Some (VMap kvs, r)" for r
    by (simp only: append_assoc pair_up_concat)
  moreover have "enc (Suc d) (VMap kvs) = Some (enc_head 5 (length kvs) @ b)"
    using b(1) by (simp only: enc.simps map_concat_pairs [of "enc d"] option.map)
  ultimately show ?case by blast
qed (simp_all add: dec.simps dec_enc_head be_val_float)

interpretation rfc: cbor_codec rfc_ser rfc_de
proof
  fix v
  assume "payload_value max_depth v"
  from dec_enc [OF this] obtain b where b: "enc max_depth v = Some b"
    "\<And>r. dec max_depth (b @ r) = Some (v, r)" by auto
  from b(2) [of "[]"] b(1) show "\<exists>b. rfc_ser v = Some b \<and> rfc_de b = Some v"
    by (simp add: rfc_ser_def rfc_de_def)
qed

end
