(* ===== verification/Signed_Types.thy ===== *)
theory Signed_Types
  imports Filename Cbor
begin

text \<open>
  The data of \<open>server/src/signed.rs\<close>: class tags, wire limits, the fifteen payload classes as records,
  the sum \<open>SignedPayload\<close>, and the error enums. A field name carries a prefix for its record where the
  Rust structs share names. Byte arrays \<open>[u8; N]\<close> are byte lists; \<open>Signed_Wf\<close> holds their lengths.
\<close>

section \<open>Tags and limits\<close>

definition TAG_POST_REVISION :: string where "TAG_POST_REVISION = ''post-rev''"

definition TAG_RETRACTION :: string where "TAG_RETRACTION = ''retract''"

definition TAG_TRUST_EDGE :: string where "TAG_TRUST_EDGE = ''trust-edge''"

definition TAG_PROFILE :: string where "TAG_PROFILE = ''profile''"

definition TAG_MOVE :: string where "TAG_MOVE = ''move''"

definition TAG_ADMIN_REMOVAL :: string where "TAG_ADMIN_REMOVAL = ''admin-rm''"

definition TAG_FED_ENVELOPE :: string where "TAG_FED_ENVELOPE = ''fed-envelope''"

definition TAG_REGISTRATION_CHALLENGE :: string where
  "TAG_REGISTRATION_CHALLENGE = ''registration-challenge''"

definition TAG_PRIOR_HOME_CHALLENGE :: string where
  "TAG_PRIOR_HOME_CHALLENGE = ''prior-home-challenge''"

definition TAG_PRIOR_HOME_RESPONSE :: string where
  "TAG_PRIOR_HOME_RESPONSE = ''prior-home-response''"

definition TAG_THREAD_CREATE :: string where "TAG_THREAD_CREATE = ''thread-create''"

definition TAG_USER_STATUS :: string where "TAG_USER_STATUS = ''user-status''"

definition TAG_DEACTIVATION :: string where "TAG_DEACTIVATION = ''deactivate''"

definition TAG_THREAD_STATUS :: string where "TAG_THREAD_STATUS = ''thread-status''"

definition TAG_REPORT :: string where "TAG_REPORT = ''report''"

lemmas tag_defs = TAG_POST_REVISION_def TAG_RETRACTION_def TAG_TRUST_EDGE_def TAG_PROFILE_def
  TAG_MOVE_def TAG_ADMIN_REMOVAL_def TAG_FED_ENVELOPE_def TAG_REGISTRATION_CHALLENGE_def
  TAG_PRIOR_HOME_CHALLENGE_def TAG_PRIOR_HOME_RESPONSE_def TAG_THREAD_CREATE_def
  TAG_USER_STATUS_def TAG_DEACTIVATION_def TAG_THREAD_STATUS_def TAG_REPORT_def

definition V1 :: u64 where "V1 = 1"

definition MAX_PROFILE_BIO_LEN :: nat where "MAX_PROFILE_BIO_LEN = 4096"

definition MAX_THREAD_TITLE_LEN :: nat where "MAX_THREAD_TITLE_LEN = 300"

definition MAX_REPORT_DETAIL_LEN :: nat where "MAX_REPORT_DETAIL_LEN = 2000"

definition MAX_ATTACHMENT_SIZE :: nat where "MAX_ATTACHMENT_SIZE = 500 * 1024"

definition MAX_ATTACHMENTS_PER_OP :: nat where "MAX_ATTACHMENTS_PER_OP = 3"

definition ALLOWED_MIMES :: "string list" where
  "ALLOWED_MIMES = [''image/png'', ''image/jpeg'', ''image/webp'', ''text/plain'', ''application/pdf'']"

definition KEY_ATTACHMENTS :: string where "KEY_ATTACHMENTS = ''attachments''"

definition KEY_ATTACHMENT_CONTENT_HASH :: string where "KEY_ATTACHMENT_CONTENT_HASH = ''content_hash''"

definition KEY_ATTACHMENT_FILENAME :: string where "KEY_ATTACHMENT_FILENAME = ''filename''"

definition KEY_ATTACHMENT_MIME :: string where "KEY_ATTACHMENT_MIME = ''mime''"

definition KEY_ATTACHMENT_SIZE :: string where "KEY_ATTACHMENT_SIZE = ''size''"

lemmas key_defs = KEY_ATTACHMENTS_def KEY_ATTACHMENT_CONTENT_HASH_def KEY_ATTACHMENT_FILENAME_def
  KEY_ATTACHMENT_MIME_def KEY_ATTACHMENT_SIZE_def

section \<open>Payload classes\<close>

record AttachmentRef =
  content_hash :: bytes
  mime :: string
  att_size :: u64
  filename :: string

record PostRevision =
  pr_post_id :: bytes
  pr_author :: bytes
  pr_thread_id :: bytes
  parent_id :: "bytes option"
  revision :: u64
  body :: string
  pr_created_at :: u64
  attachments :: "AttachmentRef list"

record Retraction =
  rt_post_id :: bytes
  rt_author :: bytes
  rt_created_at :: u64

datatype TrustStance = Trust | Distrust | Neutral

fun stance_as_str :: "TrustStance \<Rightarrow> string" where
  "stance_as_str Trust = ''trust''"
| "stance_as_str Distrust = ''distrust''"
| "stance_as_str Neutral = ''neutral''"

definition stance_parse :: "string \<Rightarrow> TrustStance option" where
  "stance_parse s =
     (if s = ''trust'' then Some Trust else if s = ''distrust'' then Some Distrust
      else if s = ''neutral'' then Some Neutral else None)"

record TrustEdge =
  from_key :: bytes
  to_key :: bytes
  stance :: TrustStance
  te_created_at :: u64
  prior_edge_hash :: "bytes option"

record ProfileRevision =
  pf_user :: bytes
  display_name :: string
  bio :: string
  avatar_attachment_hash :: "bytes option"
  pf_created_at :: u64
  prior_profile_hash :: "bytes option"

record GenesisAttestation =
  ga_key :: bytes
  ga_genesis_at :: u64
  birth_instance_key :: bytes
  ga_sig :: bytes

record Move =
  mv_key :: bytes
  from_instance_key :: "bytes option"
  from_instance :: "string option"
  to_instance_key :: bytes
  to_instance :: string
  mv_created_at :: u64
  genesis_at :: u64
  genesis_attestation :: GenesisAttestation
  prior_move_hash :: "bytes option"

record AdminRemoval =
  ar_post_id :: bytes
  ar_target_author :: bytes
  ar_signing_instance :: string
  ar_created_at :: u64
  ar_reason :: "string option"

record FedEnvelope =
  sender :: bytes
  receiver :: bytes
  meth :: string
  path :: string
  body_hash :: "bytes option"
  fe_created_at :: u64
  fe_nonce :: bytes

record RegistrationChallenge =
  user_key :: bytes
  dest_instance_key :: bytes
  dest_domain :: string
  rc_nonce :: bytes
  rc_created_at :: u64

record PriorHomeChallenge =
  responder_instance_key :: bytes
  phc_subject_key :: bytes
  phc_nonce :: bytes
  phc_created_at :: u64
  expires_at :: u64

record PriorHomeResponse =
  phr_subject_key :: bytes
  challenge_hash :: bytes
  phr_created_at :: u64

record ThreadCreate =
  tc_thread_id :: bytes
  tc_author :: bytes
  room_slug :: string
  title :: string
  link_url :: "string option"
  op_post_id :: bytes
  tc_created_at :: u64

datatype UserStatusKind = Active | Suspended | Banned

fun user_status_as_str :: "UserStatusKind \<Rightarrow> string" where
  "user_status_as_str Active = ''active''"
| "user_status_as_str Suspended = ''suspended''"
| "user_status_as_str Banned = ''banned''"

definition user_status_parse :: "string \<Rightarrow> UserStatusKind option" where
  "user_status_parse s =
     (if s = ''active'' then Some Active else if s = ''suspended'' then Some Suspended
      else if s = ''banned'' then Some Banned else None)"

record UserStatus =
  subject :: bytes
  us_status :: UserStatusKind
  suspended_until :: "u64 option"
  us_signing_instance :: string
  us_reason :: "string option"
  us_created_at :: u64
  us_prior_status_hash :: "bytes option"

record Deactivation =
  da_user :: bytes
  da_created_at :: u64

datatype ThreadStatusKind = Open | Locked

fun thread_status_as_str :: "ThreadStatusKind \<Rightarrow> string" where
  "thread_status_as_str Open = ''open''"
| "thread_status_as_str Locked = ''locked''"

definition thread_status_parse :: "string \<Rightarrow> ThreadStatusKind option" where
  "thread_status_parse s =
     (if s = ''open'' then Some Open else if s = ''locked'' then Some Locked else None)"

record ThreadStatus =
  ts_thread_id :: bytes
  ts_status :: ThreadStatusKind
  ts_signing_instance :: string
  ts_reason :: "string option"
  ts_created_at :: u64
  ts_prior_status_hash :: "bytes option"

datatype ReportReason = Spam | RulesViolation | IllegalContent | OtherReason

fun report_reason_as_str :: "ReportReason \<Rightarrow> string" where
  "report_reason_as_str Spam = ''spam''"
| "report_reason_as_str RulesViolation = ''rules_violation''"
| "report_reason_as_str IllegalContent = ''illegal_content''"
| "report_reason_as_str OtherReason = ''other''"

definition report_reason_parse :: "string \<Rightarrow> ReportReason option" where
  "report_reason_parse s =
     (if s = ''spam'' then Some Spam else if s = ''rules_violation'' then Some RulesViolation
      else if s = ''illegal_content'' then Some IllegalContent
      else if s = ''other'' then Some OtherReason else None)"

record Report =
  rp_post_id :: bytes
  rp_target_author :: bytes
  reporter :: bytes
  rp_reason :: ReportReason
  detail :: "string option"
  rp_created_at :: u64

datatype SignedPayload =
    PostRevision PostRevision
  | Retraction Retraction
  | TrustEdge TrustEdge
  | ProfileRevision ProfileRevision
  | Move Move
  | AdminRemoval AdminRemoval
  | FedEnvelope FedEnvelope
  | RegistrationChallenge RegistrationChallenge
  | PriorHomeChallenge PriorHomeChallenge
  | PriorHomeResponse PriorHomeResponse
  | ThreadCreate ThreadCreate
  | UserStatus UserStatus
  | Deactivation Deactivation
  | ThreadStatus ThreadStatus
  | Report Report

section \<open>Errors\<close>

datatype ParseError =
    InvalidCbor
  | NonCanonical
  | NonTextKey
  | KeysOutOfOrder
  | DuplicateKey string
  | UnknownClass string
  | UnsupportedVersion string u64
  | MissingField string
  | WrongType string
  | BadByteLength string nat nat
  | InvalidStance string
  | IntegerOutOfRange string
  | TextTooLong string nat nat
  | AttachmentsEmpty
  | AttachmentsTooMany nat nat
  | NonCanonicalFilename
  | DisallowedMime string
  | AttachmentTooLarge nat u64
  | InvalidStatus string
  | InvalidReportReason string
  | IllegalSuspendedUntil
  | MovePresenceCoupling
  | GenesisAttestationMismatch

datatype VerifyError =
    Parse ParseError
  | BadSignatureLength
  | AuthorMismatch
  | SignatureFailed

section \<open>The string forms of the enums\<close>

text \<open>Each \<open>parse\<close> inverts its \<open>as_str\<close> and accepts nothing else.\<close>

lemma stance_round [simp]: "stance_parse (stance_as_str x) = Some x"
  by (cases x) (simp_all add: stance_parse_def)

lemma user_status_round [simp]: "user_status_parse (user_status_as_str x) = Some x"
  by (cases x) (simp_all add: user_status_parse_def)

lemma thread_status_round [simp]: "thread_status_parse (thread_status_as_str x) = Some x"
  by (cases x) (simp_all add: thread_status_parse_def)

lemma report_reason_round [simp]: "report_reason_parse (report_reason_as_str x) = Some x"
  by (cases x) (simp_all add: report_reason_parse_def)

lemma stance_parse_Some: "stance_parse s = Some x \<Longrightarrow> s = stance_as_str x"
  by (auto simp: stance_parse_def split: if_splits)

lemma user_status_parse_Some: "user_status_parse s = Some x \<Longrightarrow> s = user_status_as_str x"
  by (auto simp: user_status_parse_def split: if_splits)

lemma thread_status_parse_Some: "thread_status_parse s = Some x \<Longrightarrow> s = thread_status_as_str x"
  by (auto simp: thread_status_parse_def split: if_splits)

lemma report_reason_parse_Some: "report_reason_parse s = Some x \<Longrightarrow> s = report_reason_as_str x"
  by (auto simp: report_reason_parse_def split: if_splits)

end
