(* ===== verification/Signed_Encode.thy ===== *)
theory Signed_Encode
  imports Signed_Types "HOL-Library.List_Lexorder" "HOL-Library.Product_Lexorder" "HOL-Library.Multiset"
begin

text \<open>
  The encoder of \<open>server/src/signed.rs\<close>: the canonical key order, \<open>build_map\<close>, one
  \<open>_entries\<close>/\<open>_to_cbor\<close> pair per payload class (the entries are the vector the Rust function builds
  before it calls \<open>build_map\<close>), and \<open>encode\<close>, which returns \<open>None\<close> where the source panics.
\<close>

section \<open>Canonical key order\<close>

datatype ordering = Less | Equal | Greater

definition cmp :: "'a::linorder \<Rightarrow> 'a \<Rightarrow> ordering" where
  "cmp a b = (if a < b then Less else if a = b then Equal else Greater)"

fun then_with :: "ordering \<Rightarrow> ordering \<Rightarrow> ordering" where
  "then_with Equal o2 = o2"
| "then_with o1 o2 = o1"

text \<open>Lengths first, then the bytes in lexicographic order.\<close>

definition cbor_text_key_cmp :: "string \<Rightarrow> string \<Rightarrow> ordering" where
  "cbor_text_key_cmp a b = then_with (cmp (length a) (length b)) (cmp (str_bytes a) (str_bytes b))"

definition key_rank :: "string \<Rightarrow> nat \<times> nat list" where
  "key_rank s = (length s, str_bytes s)"

lemma str_bytes_inj [simp]: "str_bytes a = str_bytes b \<longleftrightarrow> a = b"
  unfolding str_bytes_def by (rule inj_map_eq_map) (simp add: inj_def)

lemma key_rank_inj [simp]: "key_rank a = key_rank b \<longleftrightarrow> a = b"
  by (auto simp: key_rank_def)

lemma inj_key_rank: "inj_on key_rank A"
  by (simp add: inj_on_def)

lemma cbor_text_key_cmp_rank: "cbor_text_key_cmp a b = cmp (key_rank a) (key_rank b)"
  by (auto simp: cbor_text_key_cmp_def cmp_def key_rank_def)

lemma cbor_text_key_cmp_Less: "cbor_text_key_cmp a b = Less \<longleftrightarrow> key_rank a < key_rank b"
  by (auto simp: cbor_text_key_cmp_rank cmp_def)

section \<open>Building maps\<close>

text \<open>\<open>Vec::sort_by\<close> with that comparison is the stable sort by \<open>key_rank\<close>.\<close>

definition sort_entries :: "(string \<times> cbor_value) list \<Rightarrow> (string \<times> cbor_value) list" where
  "sort_entries es = sort_key (\<lambda>e. key_rank (fst e)) es"

definition build_map :: "(string \<times> cbor_value) list \<Rightarrow> cbor_value" where
  "build_map es = VMap (map (\<lambda>(k, v). (VText k, v)) (sort_entries es))"

definition v_uint :: "u64 \<Rightarrow> cbor_value" where
  "v_uint n = VInteger (uint n)"

text \<open>\<open>if let Some(x) = .. { entries.push((k, f(x))) }\<close>\<close>

definition opt_entry :: "string \<Rightarrow> ('a \<Rightarrow> cbor_value) \<Rightarrow> 'a option \<Rightarrow> (string \<times> cbor_value) list" where
  "opt_entry k f x = (case x of None \<Rightarrow> [] | Some y \<Rightarrow> [(k, f y)])"

section \<open>The payload classes\<close>

definition attachment_ref_entries :: "AttachmentRef \<Rightarrow> (string \<times> cbor_value) list" where
  "attachment_ref_entries r =
     [(KEY_ATTACHMENT_CONTENT_HASH, VBytes (content_hash r)),
      (KEY_ATTACHMENT_FILENAME, VText (filename r)),
      (KEY_ATTACHMENT_MIME, VText (mime r)),
      (KEY_ATTACHMENT_SIZE, v_uint (att_size r))]"

definition attachment_ref_to_cbor :: "AttachmentRef \<Rightarrow> cbor_value" where
  "attachment_ref_to_cbor r = build_map (attachment_ref_entries r)"

definition attachments_to_cbor :: "AttachmentRef list \<Rightarrow> cbor_value" where
  "attachments_to_cbor refs = VArray (map attachment_ref_to_cbor refs)"

definition post_revision_entries :: "PostRevision \<Rightarrow> (string \<times> cbor_value) list" where
  "post_revision_entries p =
     [(''v'', v_uint V1),
      (''t'', VText TAG_POST_REVISION),
      (''post_id'', VBytes (pr_post_id p)),
      (''author'', VBytes (pr_author p)),
      (''thread_id'', VBytes (pr_thread_id p)),
      (''revision'', v_uint (revision p)),
      (''body'', VText (body p)),
      (''created_at'', v_uint (pr_created_at p))]
     @ opt_entry ''parent_id'' VBytes (parent_id p)
     @ (if attachments p = [] then [] else [(KEY_ATTACHMENTS, attachments_to_cbor (attachments p))])"

definition post_revision_to_cbor :: "PostRevision \<Rightarrow> cbor_value" where
  "post_revision_to_cbor p = build_map (post_revision_entries p)"

definition retraction_entries :: "Retraction \<Rightarrow> (string \<times> cbor_value) list" where
  "retraction_entries r =
     [(''v'', v_uint V1),
      (''t'', VText TAG_RETRACTION),
      (''post_id'', VBytes (rt_post_id r)),
      (''author'', VBytes (rt_author r)),
      (''created_at'', v_uint (rt_created_at r))]"

definition retraction_to_cbor :: "Retraction \<Rightarrow> cbor_value" where
  "retraction_to_cbor r = build_map (retraction_entries r)"

definition trust_edge_entries :: "TrustEdge \<Rightarrow> (string \<times> cbor_value) list" where
  "trust_edge_entries e =
     [(''v'', v_uint V1),
      (''t'', VText TAG_TRUST_EDGE),
      (''from_key'', VBytes (from_key e)),
      (''to_key'', VBytes (to_key e)),
      (''stance'', VText (stance_as_str (stance e))),
      (''created_at'', v_uint (te_created_at e))]
     @ opt_entry ''prior_edge_hash'' VBytes (prior_edge_hash e)"

definition trust_edge_to_cbor :: "TrustEdge \<Rightarrow> cbor_value" where
  "trust_edge_to_cbor e = build_map (trust_edge_entries e)"

definition profile_revision_entries :: "ProfileRevision \<Rightarrow> (string \<times> cbor_value) list" where
  "profile_revision_entries p =
     [(''v'', v_uint V1),
      (''t'', VText TAG_PROFILE),
      (''user'', VBytes (pf_user p)),
      (''display_name'', VText (display_name p)),
      (''bio'', VText (bio p)),
      (''created_at'', v_uint (pf_created_at p))]
     @ opt_entry ''avatar_attachment_hash'' VBytes (avatar_attachment_hash p)
     @ opt_entry ''prior_profile_hash'' VBytes (prior_profile_hash p)"

definition profile_revision_to_cbor :: "ProfileRevision \<Rightarrow> cbor_value" where
  "profile_revision_to_cbor p = build_map (profile_revision_entries p)"

definition genesis_attestation_entries :: "GenesisAttestation \<Rightarrow> (string \<times> cbor_value) list" where
  "genesis_attestation_entries a =
     [(''key'', VBytes (ga_key a)),
      (''genesis_at'', v_uint (ga_genesis_at a)),
      (''birth_instance_key'', VBytes (birth_instance_key a)),
      (''sig'', VBytes (ga_sig a))]"

definition genesis_attestation_to_cbor :: "GenesisAttestation \<Rightarrow> cbor_value" where
  "genesis_attestation_to_cbor a = build_map (genesis_attestation_entries a)"

text \<open>The bytes a birth instance signs: the attestation without its signature.\<close>

definition genesis_attestation_signing_bytes ::
  "(cbor_value \<Rightarrow> bytes option) \<Rightarrow> bytes \<Rightarrow> u64 \<Rightarrow> bytes \<Rightarrow> bytes option" where
  "genesis_attestation_signing_bytes ser key gen_at birth_key =
     ser (build_map
       [(''key'', VBytes key),
        (''genesis_at'', v_uint gen_at),
        (''birth_instance_key'', VBytes birth_key)])"

text \<open>A half-set \<open>from_\<close> pair drops both entries, as the tuple pattern of the source does.\<close>

definition move_entries :: "Move \<Rightarrow> (string \<times> cbor_value) list" where
  "move_entries m =
     [(''v'', v_uint V1),
      (''t'', VText TAG_MOVE),
      (''key'', VBytes (mv_key m)),
      (''to_instance_key'', VBytes (to_instance_key m)),
      (''to_instance'', VText (to_instance m)),
      (''created_at'', v_uint (mv_created_at m)),
      (''genesis_at'', v_uint (genesis_at m)),
      (''genesis_attestation'', genesis_attestation_to_cbor (genesis_attestation m))]
     @ (case (from_instance_key m, from_instance m) of
          (Some k, Some d) \<Rightarrow> [(''from_instance_key'', VBytes k), (''from_instance'', VText d)]
        | _ \<Rightarrow> [])
     @ opt_entry ''prior_move_hash'' VBytes (prior_move_hash m)"

definition move_to_cbor :: "Move \<Rightarrow> cbor_value" where
  "move_to_cbor m = build_map (move_entries m)"

definition admin_removal_entries :: "AdminRemoval \<Rightarrow> (string \<times> cbor_value) list" where
  "admin_removal_entries a =
     [(''v'', v_uint V1),
      (''t'', VText TAG_ADMIN_REMOVAL),
      (''post_id'', VBytes (ar_post_id a)),
      (''target_author'', VBytes (ar_target_author a)),
      (''signing_instance'', VText (ar_signing_instance a)),
      (''created_at'', v_uint (ar_created_at a))]
     @ opt_entry ''reason'' VText (ar_reason a)"

definition admin_removal_to_cbor :: "AdminRemoval \<Rightarrow> cbor_value" where
  "admin_removal_to_cbor a = build_map (admin_removal_entries a)"

definition fed_envelope_entries :: "FedEnvelope \<Rightarrow> (string \<times> cbor_value) list" where
  "fed_envelope_entries e =
     [(''v'', v_uint V1),
      (''t'', VText TAG_FED_ENVELOPE),
      (''sender'', VBytes (sender e)),
      (''receiver'', VBytes (receiver e)),
      (''method'', VText (meth e)),
      (''path'', VText (path e)),
      (''created_at'', v_uint (fe_created_at e)),
      (''nonce'', VBytes (fe_nonce e))]
     @ opt_entry ''body_hash'' VBytes (body_hash e)"

definition fed_envelope_to_cbor :: "FedEnvelope \<Rightarrow> cbor_value" where
  "fed_envelope_to_cbor e = build_map (fed_envelope_entries e)"

definition registration_challenge_entries :: "RegistrationChallenge \<Rightarrow> (string \<times> cbor_value) list" where
  "registration_challenge_entries c =
     [(''v'', v_uint V1),
      (''t'', VText TAG_REGISTRATION_CHALLENGE),
      (''user_key'', VBytes (user_key c)),
      (''dest_instance_key'', VBytes (dest_instance_key c)),
      (''dest_domain'', VText (dest_domain c)),
      (''nonce'', VBytes (rc_nonce c)),
      (''created_at'', v_uint (rc_created_at c))]"

definition registration_challenge_to_cbor :: "RegistrationChallenge \<Rightarrow> cbor_value" where
  "registration_challenge_to_cbor c = build_map (registration_challenge_entries c)"

definition prior_home_challenge_entries :: "PriorHomeChallenge \<Rightarrow> (string \<times> cbor_value) list" where
  "prior_home_challenge_entries c =
     [(''v'', v_uint V1),
      (''t'', VText TAG_PRIOR_HOME_CHALLENGE),
      (''responder_instance_key'', VBytes (responder_instance_key c)),
      (''subject_key'', VBytes (phc_subject_key c)),
      (''nonce'', VBytes (phc_nonce c)),
      (''created_at'', v_uint (phc_created_at c)),
      (''expires_at'', v_uint (expires_at c))]"

definition prior_home_challenge_to_cbor :: "PriorHomeChallenge \<Rightarrow> cbor_value" where
  "prior_home_challenge_to_cbor c = build_map (prior_home_challenge_entries c)"

definition prior_home_response_entries :: "PriorHomeResponse \<Rightarrow> (string \<times> cbor_value) list" where
  "prior_home_response_entries r =
     [(''v'', v_uint V1),
      (''t'', VText TAG_PRIOR_HOME_RESPONSE),
      (''subject_key'', VBytes (phr_subject_key r)),
      (''challenge_hash'', VBytes (challenge_hash r)),
      (''created_at'', v_uint (phr_created_at r))]"

definition prior_home_response_to_cbor :: "PriorHomeResponse \<Rightarrow> cbor_value" where
  "prior_home_response_to_cbor r = build_map (prior_home_response_entries r)"

definition thread_create_entries :: "ThreadCreate \<Rightarrow> (string \<times> cbor_value) list" where
  "thread_create_entries t =
     [(''v'', v_uint V1),
      (''t'', VText TAG_THREAD_CREATE),
      (''thread_id'', VBytes (tc_thread_id t)),
      (''author'', VBytes (tc_author t)),
      (''room_slug'', VText (room_slug t)),
      (''title'', VText (title t)),
      (''op_post_id'', VBytes (op_post_id t)),
      (''created_at'', v_uint (tc_created_at t))]
     @ opt_entry ''link_url'' VText (link_url t)"

definition thread_create_to_cbor :: "ThreadCreate \<Rightarrow> cbor_value" where
  "thread_create_to_cbor t = build_map (thread_create_entries t)"

definition user_status_entries :: "UserStatus \<Rightarrow> (string \<times> cbor_value) list" where
  "user_status_entries s =
     [(''v'', v_uint V1),
      (''t'', VText TAG_USER_STATUS),
      (''subject'', VBytes (subject s)),
      (''status'', VText (user_status_as_str (us_status s))),
      (''signing_instance'', VText (us_signing_instance s)),
      (''created_at'', v_uint (us_created_at s))]
     @ opt_entry ''suspended_until'' v_uint (suspended_until s)
     @ opt_entry ''reason'' VText (us_reason s)
     @ opt_entry ''prior_status_hash'' VBytes (us_prior_status_hash s)"

definition user_status_to_cbor :: "UserStatus \<Rightarrow> cbor_value" where
  "user_status_to_cbor s = build_map (user_status_entries s)"

definition deactivation_entries :: "Deactivation \<Rightarrow> (string \<times> cbor_value) list" where
  "deactivation_entries d =
     [(''v'', v_uint V1),
      (''t'', VText TAG_DEACTIVATION),
      (''user'', VBytes (da_user d)),
      (''created_at'', v_uint (da_created_at d))]"

definition deactivation_to_cbor :: "Deactivation \<Rightarrow> cbor_value" where
  "deactivation_to_cbor d = build_map (deactivation_entries d)"

definition thread_status_entries :: "ThreadStatus \<Rightarrow> (string \<times> cbor_value) list" where
  "thread_status_entries s =
     [(''v'', v_uint V1),
      (''t'', VText TAG_THREAD_STATUS),
      (''thread_id'', VBytes (ts_thread_id s)),
      (''status'', VText (thread_status_as_str (ts_status s))),
      (''signing_instance'', VText (ts_signing_instance s)),
      (''created_at'', v_uint (ts_created_at s))]
     @ opt_entry ''reason'' VText (ts_reason s)
     @ opt_entry ''prior_status_hash'' VBytes (ts_prior_status_hash s)"

definition thread_status_to_cbor :: "ThreadStatus \<Rightarrow> cbor_value" where
  "thread_status_to_cbor s = build_map (thread_status_entries s)"

definition report_entries :: "Report \<Rightarrow> (string \<times> cbor_value) list" where
  "report_entries r =
     [(''v'', v_uint V1),
      (''t'', VText TAG_REPORT),
      (''post_id'', VBytes (rp_post_id r)),
      (''target_author'', VBytes (rp_target_author r)),
      (''reporter'', VBytes (reporter r)),
      (''reason'', VText (report_reason_as_str (rp_reason r))),
      (''created_at'', v_uint (rp_created_at r))]
     @ opt_entry ''detail'' VText (detail r)"

definition report_to_cbor :: "Report \<Rightarrow> cbor_value" where
  "report_to_cbor r = build_map (report_entries r)"

fun payload_entries :: "SignedPayload \<Rightarrow> (string \<times> cbor_value) list" where
  "payload_entries (PostRevision p) = post_revision_entries p"
| "payload_entries (Retraction r) = retraction_entries r"
| "payload_entries (TrustEdge e) = trust_edge_entries e"
| "payload_entries (ProfileRevision p) = profile_revision_entries p"
| "payload_entries (Move m) = move_entries m"
| "payload_entries (AdminRemoval a) = admin_removal_entries a"
| "payload_entries (FedEnvelope e) = fed_envelope_entries e"
| "payload_entries (RegistrationChallenge c) = registration_challenge_entries c"
| "payload_entries (PriorHomeChallenge c) = prior_home_challenge_entries c"
| "payload_entries (PriorHomeResponse r) = prior_home_response_entries r"
| "payload_entries (ThreadCreate t) = thread_create_entries t"
| "payload_entries (UserStatus s) = user_status_entries s"
| "payload_entries (Deactivation d) = deactivation_entries d"
| "payload_entries (ThreadStatus s) = thread_status_entries s"
| "payload_entries (Report r) = report_entries r"

fun to_cbor_value :: "SignedPayload \<Rightarrow> cbor_value" where
  "to_cbor_value (PostRevision p) = post_revision_to_cbor p"
| "to_cbor_value (Retraction r) = retraction_to_cbor r"
| "to_cbor_value (TrustEdge e) = trust_edge_to_cbor e"
| "to_cbor_value (ProfileRevision p) = profile_revision_to_cbor p"
| "to_cbor_value (Move m) = move_to_cbor m"
| "to_cbor_value (AdminRemoval a) = admin_removal_to_cbor a"
| "to_cbor_value (FedEnvelope e) = fed_envelope_to_cbor e"
| "to_cbor_value (RegistrationChallenge c) = registration_challenge_to_cbor c"
| "to_cbor_value (PriorHomeChallenge c) = prior_home_challenge_to_cbor c"
| "to_cbor_value (PriorHomeResponse r) = prior_home_response_to_cbor r"
| "to_cbor_value (ThreadCreate t) = thread_create_to_cbor t"
| "to_cbor_value (UserStatus s) = user_status_to_cbor s"
| "to_cbor_value (Deactivation d) = deactivation_to_cbor d"
| "to_cbor_value (ThreadStatus s) = thread_status_to_cbor s"
| "to_cbor_value (Report r) = report_to_cbor r"

definition encode :: "(cbor_value \<Rightarrow> bytes option) \<Rightarrow> SignedPayload \<Rightarrow> bytes option" where
  "encode ser p = ser (to_cbor_value p)"

lemmas to_cbor_defs = post_revision_to_cbor_def retraction_to_cbor_def trust_edge_to_cbor_def
  profile_revision_to_cbor_def move_to_cbor_def admin_removal_to_cbor_def fed_envelope_to_cbor_def
  registration_challenge_to_cbor_def prior_home_challenge_to_cbor_def prior_home_response_to_cbor_def
  thread_create_to_cbor_def user_status_to_cbor_def deactivation_to_cbor_def
  thread_status_to_cbor_def report_to_cbor_def

lemmas entries_defs = post_revision_entries_def retraction_entries_def trust_edge_entries_def
  profile_revision_entries_def move_entries_def admin_removal_entries_def fed_envelope_entries_def
  registration_challenge_entries_def prior_home_challenge_entries_def prior_home_response_entries_def
  thread_create_entries_def user_status_entries_def deactivation_entries_def
  thread_status_entries_def report_entries_def

lemma to_cbor_value_entries: "to_cbor_value p = build_map (payload_entries p)"
  by (cases p) (simp_all add: to_cbor_defs)

section \<open>Facts about maps\<close>

lemma set_sort_entries [simp]: "set (sort_entries es) = set es"
  by (simp add: sort_entries_def)

lemma length_sort_entries [simp]: "length (sort_entries es) = length es"
  by (simp add: sort_entries_def)

lemma sorted_sort_entries: "sorted (map (\<lambda>e. key_rank (fst e)) (sort_entries es))"
  by (simp add: sort_entries_def)

lemma map_fst_sort_entries: "mset (map fst (sort_entries es)) = mset (map fst es)"
  by (simp add: sort_entries_def)

lemma distinct_sort_entries: "distinct (map fst (sort_entries es)) \<longleftrightarrow> distinct (map fst es)"
  using map_fst_sort_entries [of es] by (metis mset_eq_imp_distinct_iff)

lemma map_of_sort_entries:
  "distinct (map fst es) \<Longrightarrow> map_of (sort_entries es) = map_of es"
  by (rule map_of_inject_set [THEN iffD2]) (simp_all add: distinct_sort_entries)

lemma opt_entry_simps [simp]:
  "opt_entry k f None = []"
  "opt_entry k f (Some x) = [(k, f x)]"
  by (simp_all add: opt_entry_def)

lemma opt_entry_keys: "set (map fst (opt_entry k f x)) \<subseteq> {k}"
  by (cases x) simp_all

lemma map_of_opt_entry [simp]:
  "map_of (opt_entry k f x) k' = (if k' = k then map_option f x else None)"
  by (cases x) simp_all

lemma payload_value_build_map:
  assumes "length es < 2 ^ 64" "\<forall>(k, v) \<in> set es. is_str k \<and> length k < 2 ^ 64 \<and> payload_value d v"
  shows "payload_value (Suc d) (build_map es)"
  using assms by (auto simp: build_map_def list_all_iff)

end
