(* ===== verification/Signed_Parse.thy ===== *)
theory Signed_Parse
  imports Signed_Encode
begin

text \<open>
  The parser of \<open>server/src/signed.rs\<close>: the walk over a decoded map that enforces key order, the field
  accessors, one \<open>parse_\<close> function per payload class with its checks in the order of the source, and
  \<open>SignedPayload::parse\<close>. A \<open>BTreeMap<String, Value>\<close> is a partial map. The codec (\<open>ser\<close>, \<open>de\<close>) and
  Unicode normalisation (\<open>nfc\<close>) are parameters.
\<close>

section \<open>Maps and fields\<close>

type_synonym fields = "string \<Rightarrow> cbor_value option"

text \<open>The loop body: \<open>last_key\<close> and \<open>fields\<close> are its two variables.\<close>

fun collect_from :: "string option \<Rightarrow> fields \<Rightarrow> (cbor_value \<times> cbor_value) list \<Rightarrow> ParseError + fields" where
  "collect_from last_key flds [] = Inr flds"
| "collect_from last_key flds ((k, v) # rest) =
     (case k of
        VText key_str \<Rightarrow>
          if (case last_key of None \<Rightarrow> False | Some prev \<Rightarrow> cbor_text_key_cmp prev key_str \<noteq> Less)
          then Inl KeysOutOfOrder
          else if flds key_str \<noteq> None then Inl (DuplicateKey key_str)
          else collect_from (Some key_str) (flds(key_str \<mapsto> v)) rest
      | _ \<Rightarrow> Inl NonTextKey)"

definition collect_fields :: "(cbor_value \<times> cbor_value) list \<Rightarrow> ParseError + fields" where
  "collect_fields es = collect_from None Map.empty es"

definition require_version :: "string \<Rightarrow> u64 \<Rightarrow> ParseError + unit" where
  "require_version class got = (if got = V1 then Inr () else Inl (UnsupportedVersion class got))"

definition field_text :: "fields \<Rightarrow> string \<Rightarrow> ParseError + string" where
  "field_text flds name =
     andthen (ok_or (flds name) (MissingField name))
       (\<lambda>v. case v of VText s \<Rightarrow> Inr s | _ \<Rightarrow> Inl (WrongType name))"

definition field_uint :: "fields \<Rightarrow> string \<Rightarrow> ParseError + u64" where
  "field_uint flds name =
     andthen (ok_or (flds name) (MissingField name))
       (\<lambda>v. case v of
          VInteger i \<Rightarrow> if 0 \<le> i \<and> i < 2 ^ 64 then Inr (word_of_int i) else Inl (IntegerOutOfRange name)
        | _ \<Rightarrow> Inl (WrongType name))"

definition field_bytes_fixed :: "nat \<Rightarrow> fields \<Rightarrow> string \<Rightarrow> ParseError + bytes" where
  "field_bytes_fixed n flds name =
     andthen (ok_or (flds name) (MissingField name))
       (\<lambda>v. case v of
          VBytes b \<Rightarrow> if length b = n then Inr b else Inl (BadByteLength name n (length b))
        | _ \<Rightarrow> Inl (WrongType name))"

text \<open>\<open>if fields.contains_key(name) { Some(get(fields, name)?) } else { None }\<close>\<close>

definition opt_field :: "(fields \<Rightarrow> string \<Rightarrow> ParseError + 'a) \<Rightarrow> fields \<Rightarrow> string \<Rightarrow> ParseError + 'a option" where
  "opt_field get flds name =
     (if flds name \<noteq> None then andthen (get flds name) (\<lambda>x. Inr (Some x)) else Inr None)"

section \<open>The payload classes\<close>

definition parse_attachment_ref :: "(nat list \<Rightarrow> nat list) \<Rightarrow> cbor_value \<Rightarrow> ParseError + AttachmentRef" where
  "parse_attachment_ref nfc v =
     andthen (case v of VMap m \<Rightarrow> Inr m | _ \<Rightarrow> Inl (WrongType ''attachments[]'')) (\<lambda>map_entries.
     andthen (collect_fields map_entries) (\<lambda>flds.
     andthen (field_bytes_fixed 32 flds KEY_ATTACHMENT_CONTENT_HASH) (\<lambda>chash.
     andthen (field_text flds KEY_ATTACHMENT_FILENAME) (\<lambda>fname.
     andthen (guard (sanitize_attachment_filename nfc fname = Some fname) NonCanonicalFilename) (\<lambda>_.
     andthen (field_text flds KEY_ATTACHMENT_MIME) (\<lambda>mim.
     andthen (guard (mim \<in> set ALLOWED_MIMES) (DisallowedMime mim)) (\<lambda>_.
     andthen (field_uint flds KEY_ATTACHMENT_SIZE) (\<lambda>sz.
     andthen (guard (\<not> unat sz > MAX_ATTACHMENT_SIZE) (AttachmentTooLarge MAX_ATTACHMENT_SIZE sz)) (\<lambda>_.
     Inr \<lparr>content_hash = chash, mime = mim, att_size = sz, filename = fname\<rparr>)))))))))"

definition parse_attachments :: "(nat list \<Rightarrow> nat list) \<Rightarrow> fields \<Rightarrow> ParseError + AttachmentRef list" where
  "parse_attachments nfc flds =
     andthen (ok_or (flds KEY_ATTACHMENTS) (MissingField KEY_ATTACHMENTS)) (\<lambda>v.
     andthen (case v of VArray items \<Rightarrow> Inr items | _ \<Rightarrow> Inl (WrongType KEY_ATTACHMENTS)) (\<lambda>items.
     andthen (guard (items \<noteq> []) AttachmentsEmpty) (\<lambda>_.
     andthen (guard (\<not> length items > MAX_ATTACHMENTS_PER_OP)
                (AttachmentsTooMany MAX_ATTACHMENTS_PER_OP (length items))) (\<lambda>_.
     map_result (parse_attachment_ref nfc) items))))"

definition parse_post_revision :: "(nat list \<Rightarrow> nat list) \<Rightarrow> fields \<Rightarrow> ParseError + PostRevision" where
  "parse_post_revision nfc flds =
     andthen (field_bytes_fixed 16 flds ''post_id'') (\<lambda>post_id.
     andthen (field_bytes_fixed 32 flds ''author'') (\<lambda>author.
     andthen (field_bytes_fixed 16 flds ''thread_id'') (\<lambda>thread_id.
     andthen (opt_field (field_bytes_fixed 16) flds ''parent_id'') (\<lambda>parent.
     andthen (field_uint flds ''revision'') (\<lambda>rev_no.
     andthen (field_text flds ''body'') (\<lambda>bod.
     andthen (field_uint flds ''created_at'') (\<lambda>created.
     andthen (if flds KEY_ATTACHMENTS \<noteq> None then parse_attachments nfc flds else Inr []) (\<lambda>atts.
     Inr \<lparr>pr_post_id = post_id, pr_author = author, pr_thread_id = thread_id, parent_id = parent, revision = rev_no, body = bod, pr_created_at = created, attachments = atts\<rparr>))))))))"

definition parse_retraction :: "fields \<Rightarrow> ParseError + Retraction" where
  "parse_retraction flds =
     andthen (field_bytes_fixed 16 flds ''post_id'') (\<lambda>post_id.
     andthen (field_bytes_fixed 32 flds ''author'') (\<lambda>author.
     andthen (field_uint flds ''created_at'') (\<lambda>created.
     Inr \<lparr>rt_post_id = post_id, rt_author = author, rt_created_at = created\<rparr>)))"

definition parse_profile_revision :: "fields \<Rightarrow> ParseError + ProfileRevision" where
  "parse_profile_revision flds =
     andthen (field_bytes_fixed 32 flds ''user'') (\<lambda>user.
     andthen (field_text flds ''display_name'') (\<lambda>dname.
     andthen (field_text flds ''bio'') (\<lambda>bio_text.
     andthen (guard (\<not> length bio_text > MAX_PROFILE_BIO_LEN) (TextTooLong ''bio'' MAX_PROFILE_BIO_LEN (length bio_text))) (\<lambda>_.
     andthen (field_uint flds ''created_at'') (\<lambda>created.
     andthen (opt_field (field_bytes_fixed 32) flds ''avatar_attachment_hash'') (\<lambda>avatar.
     andthen (opt_field (field_bytes_fixed 32) flds ''prior_profile_hash'') (\<lambda>prior.
     Inr \<lparr>pf_user = user, display_name = dname, bio = bio_text, avatar_attachment_hash = avatar, pf_created_at = created, prior_profile_hash = prior\<rparr>)))))))"

definition parse_trust_edge :: "fields \<Rightarrow> ParseError + TrustEdge" where
  "parse_trust_edge flds =
     andthen (field_bytes_fixed 32 flds ''from_key'') (\<lambda>fk.
     andthen (field_bytes_fixed 32 flds ''to_key'') (\<lambda>tk.
     andthen (field_text flds ''stance'') (\<lambda>stance_str.
     andthen (ok_or (stance_parse stance_str) (InvalidStance stance_str)) (\<lambda>st.
     andthen (field_uint flds ''created_at'') (\<lambda>created.
     andthen (opt_field (field_bytes_fixed 32) flds ''prior_edge_hash'') (\<lambda>prior.
     Inr \<lparr>from_key = fk, to_key = tk, stance = st, te_created_at = created, prior_edge_hash = prior\<rparr>))))))"

definition parse_genesis_attestation :: "fields \<Rightarrow> bytes \<Rightarrow> u64 \<Rightarrow> ParseError + GenesisAttestation" where
  "parse_genesis_attestation flds outer_key outer_genesis_at =
     andthen (ok_or (flds ''genesis_attestation'') (MissingField ''genesis_attestation'')) (\<lambda>v.
     andthen (case v of VMap m \<Rightarrow> Inr m | _ \<Rightarrow> Inl (WrongType ''genesis_attestation'')) (\<lambda>map_entries.
     andthen (collect_fields map_entries) (\<lambda>inner.
     andthen (field_bytes_fixed 32 inner ''key'') (\<lambda>key.
     andthen (field_uint inner ''genesis_at'') (\<lambda>gen_at.
     andthen (field_bytes_fixed 32 inner ''birth_instance_key'') (\<lambda>birth.
     andthen (field_bytes_fixed 64 inner ''sig'') (\<lambda>sig.
     andthen (guard (\<not> (key \<noteq> outer_key \<or> gen_at \<noteq> outer_genesis_at)) GenesisAttestationMismatch) (\<lambda>_.
     Inr \<lparr>ga_key = key, ga_genesis_at = gen_at, birth_instance_key = birth, ga_sig = sig\<rparr>))))))))"

definition parse_move :: "fields \<Rightarrow> ParseError + Move" where
  "parse_move flds =
     andthen (field_bytes_fixed 32 flds ''key'') (\<lambda>key.
     andthen (guard ((flds ''from_instance_key'' \<noteq> None) = (flds ''from_instance'' \<noteq> None)) MovePresenceCoupling) (\<lambda>_.
     andthen (if flds ''from_instance_key'' \<noteq> None
        then andthen (field_bytes_fixed 32 flds ''from_instance_key'') (\<lambda>k.
             andthen (field_text flds ''from_instance'') (\<lambda>d. Inr (Some k, Some d)))
        else Inr (None, None)) (\<lambda>(fkey, fdom).
     andthen (field_bytes_fixed 32 flds ''to_instance_key'') (\<lambda>to_key.
     andthen (field_text flds ''to_instance'') (\<lambda>to_dom.
     andthen (field_uint flds ''created_at'') (\<lambda>created.
     andthen (field_uint flds ''genesis_at'') (\<lambda>gen_at.
     andthen (parse_genesis_attestation flds key gen_at) (\<lambda>att.
     andthen (opt_field (field_bytes_fixed 32) flds ''prior_move_hash'') (\<lambda>prior.
     andthen (guard (\<not> (fkey = None \<and> prior \<noteq> None)) MovePresenceCoupling) (\<lambda>_.
     Inr \<lparr>mv_key = key, from_instance_key = fkey, from_instance = fdom, to_instance_key = to_key, to_instance = to_dom, mv_created_at = created, genesis_at = gen_at, genesis_attestation = att, prior_move_hash = prior\<rparr>))))))))))"

definition parse_admin_removal :: "fields \<Rightarrow> ParseError + AdminRemoval" where
  "parse_admin_removal flds =
     andthen (field_bytes_fixed 16 flds ''post_id'') (\<lambda>post_id.
     andthen (field_bytes_fixed 32 flds ''target_author'') (\<lambda>target.
     andthen (field_text flds ''signing_instance'') (\<lambda>si.
     andthen (field_uint flds ''created_at'') (\<lambda>created.
     andthen (opt_field field_text flds ''reason'') (\<lambda>rsn.
     Inr \<lparr>ar_post_id = post_id, ar_target_author = target, ar_signing_instance = si, ar_created_at = created, ar_reason = rsn\<rparr>)))))"

definition parse_fed_envelope :: "fields \<Rightarrow> ParseError + FedEnvelope" where
  "parse_fed_envelope flds =
     andthen (field_bytes_fixed 32 flds ''sender'') (\<lambda>snd_key.
     andthen (field_bytes_fixed 32 flds ''receiver'') (\<lambda>rcv_key.
     andthen (field_text flds ''method'') (\<lambda>mth.
     andthen (field_text flds ''path'') (\<lambda>pth.
     andthen (field_uint flds ''created_at'') (\<lambda>created.
     andthen (field_bytes_fixed 16 flds ''nonce'') (\<lambda>nonce.
     andthen (opt_field (field_bytes_fixed 32) flds ''body_hash'') (\<lambda>bh.
     Inr \<lparr>sender = snd_key, receiver = rcv_key, meth = mth, path = pth, body_hash = bh, fe_created_at = created, fe_nonce = nonce\<rparr>)))))))"

definition parse_registration_challenge :: "fields \<Rightarrow> ParseError + RegistrationChallenge" where
  "parse_registration_challenge flds =
     andthen (field_bytes_fixed 32 flds ''user_key'') (\<lambda>uk.
     andthen (field_bytes_fixed 32 flds ''dest_instance_key'') (\<lambda>dk.
     andthen (field_text flds ''dest_domain'') (\<lambda>dd.
     andthen (field_bytes_fixed 32 flds ''nonce'') (\<lambda>nonce.
     andthen (field_uint flds ''created_at'') (\<lambda>created.
     Inr \<lparr>user_key = uk, dest_instance_key = dk, dest_domain = dd, rc_nonce = nonce, rc_created_at = created\<rparr>)))))"

definition parse_prior_home_challenge :: "fields \<Rightarrow> ParseError + PriorHomeChallenge" where
  "parse_prior_home_challenge flds =
     andthen (field_bytes_fixed 32 flds ''responder_instance_key'') (\<lambda>rk.
     andthen (field_bytes_fixed 32 flds ''subject_key'') (\<lambda>sk.
     andthen (field_bytes_fixed 32 flds ''nonce'') (\<lambda>nonce.
     andthen (field_uint flds ''created_at'') (\<lambda>created.
     andthen (field_uint flds ''expires_at'') (\<lambda>expires.
     Inr \<lparr>responder_instance_key = rk, phc_subject_key = sk, phc_nonce = nonce, phc_created_at = created, expires_at = expires\<rparr>)))))"

definition parse_prior_home_response :: "fields \<Rightarrow> ParseError + PriorHomeResponse" where
  "parse_prior_home_response flds =
     andthen (field_bytes_fixed 32 flds ''subject_key'') (\<lambda>sk.
     andthen (field_bytes_fixed 32 flds ''challenge_hash'') (\<lambda>ch.
     andthen (field_uint flds ''created_at'') (\<lambda>created.
     Inr \<lparr>phr_subject_key = sk, challenge_hash = ch, phr_created_at = created\<rparr>)))"

definition parse_thread_create :: "fields \<Rightarrow> ParseError + ThreadCreate" where
  "parse_thread_create flds =
     andthen (field_bytes_fixed 16 flds ''thread_id'') (\<lambda>thread_id.
     andthen (field_bytes_fixed 32 flds ''author'') (\<lambda>author.
     andthen (field_text flds ''room_slug'') (\<lambda>slug.
     andthen (field_text flds ''title'') (\<lambda>ttl.
     andthen (guard (\<not> length ttl > MAX_THREAD_TITLE_LEN) (TextTooLong ''title'' MAX_THREAD_TITLE_LEN (length ttl))) (\<lambda>_.
     andthen (field_bytes_fixed 16 flds ''op_post_id'') (\<lambda>op_id.
     andthen (field_uint flds ''created_at'') (\<lambda>created.
     andthen (opt_field field_text flds ''link_url'') (\<lambda>link.
     Inr \<lparr>tc_thread_id = thread_id, tc_author = author, room_slug = slug, title = ttl, link_url = link, op_post_id = op_id, tc_created_at = created\<rparr>))))))))"

definition parse_user_status :: "fields \<Rightarrow> ParseError + UserStatus" where
  "parse_user_status flds =
     andthen (field_bytes_fixed 32 flds ''subject'') (\<lambda>subj.
     andthen (field_text flds ''status'') (\<lambda>status_str.
     andthen (ok_or (user_status_parse status_str) (InvalidStatus status_str)) (\<lambda>st.
     andthen (field_text flds ''signing_instance'') (\<lambda>si.
     andthen (field_uint flds ''created_at'') (\<lambda>created.
     andthen (opt_field field_uint flds ''suspended_until'') (\<lambda>until.
     andthen (guard (\<not> (until \<noteq> None \<and> st \<noteq> Suspended)) IllegalSuspendedUntil) (\<lambda>_.
     andthen (opt_field field_text flds ''reason'') (\<lambda>rsn.
     andthen (opt_field (field_bytes_fixed 32) flds ''prior_status_hash'') (\<lambda>prior.
     Inr \<lparr>subject = subj, us_status = st, suspended_until = until, us_signing_instance = si, us_reason = rsn, us_created_at = created, us_prior_status_hash = prior\<rparr>)))))))))"

definition parse_deactivation :: "fields \<Rightarrow> ParseError + Deactivation" where
  "parse_deactivation flds =
     andthen (field_bytes_fixed 32 flds ''user'') (\<lambda>user.
     andthen (field_uint flds ''created_at'') (\<lambda>created.
     Inr \<lparr>da_user = user, da_created_at = created\<rparr>))"

definition parse_thread_status :: "fields \<Rightarrow> ParseError + ThreadStatus" where
  "parse_thread_status flds =
     andthen (field_bytes_fixed 16 flds ''thread_id'') (\<lambda>thread_id.
     andthen (field_text flds ''status'') (\<lambda>status_str.
     andthen (ok_or (thread_status_parse status_str) (InvalidStatus status_str)) (\<lambda>st.
     andthen (field_text flds ''signing_instance'') (\<lambda>si.
     andthen (field_uint flds ''created_at'') (\<lambda>created.
     andthen (opt_field field_text flds ''reason'') (\<lambda>rsn.
     andthen (opt_field (field_bytes_fixed 32) flds ''prior_status_hash'') (\<lambda>prior.
     Inr \<lparr>ts_thread_id = thread_id, ts_status = st, ts_signing_instance = si, ts_reason = rsn, ts_created_at = created, ts_prior_status_hash = prior\<rparr>)))))))"

text \<open>The text of a report's \<open>detail\<close> field, with its length check.\<close>

definition field_detail :: "fields \<Rightarrow> string \<Rightarrow> ParseError + string" where
  "field_detail flds name =
     andthen (field_text flds name) (\<lambda>d.
     andthen (guard (\<not> length d > MAX_REPORT_DETAIL_LEN) (TextTooLong name MAX_REPORT_DETAIL_LEN (length d)))
       (\<lambda>_. Inr d))"

definition parse_report :: "fields \<Rightarrow> ParseError + Report" where
  "parse_report flds =
     andthen (field_bytes_fixed 16 flds ''post_id'') (\<lambda>post_id.
     andthen (field_bytes_fixed 32 flds ''target_author'') (\<lambda>target.
     andthen (field_bytes_fixed 32 flds ''reporter'') (\<lambda>rep.
     andthen (field_text flds ''reason'') (\<lambda>reason_str.
     andthen (ok_or (report_reason_parse reason_str) (InvalidReportReason reason_str)) (\<lambda>rsn.
     andthen (field_uint flds ''created_at'') (\<lambda>created.
     andthen (opt_field field_detail flds ''detail'') (\<lambda>dtl.
     Inr \<lparr>rp_post_id = post_id, rp_target_author = target, reporter = rep, rp_reason = rsn, detail = dtl, rp_created_at = created\<rparr>)))))))"

section \<open>SignedPayload::parse\<close>

definition parse_as :: "string \<Rightarrow> u64 \<Rightarrow> ParseError + 'a \<Rightarrow> ('a \<Rightarrow> SignedPayload) \<Rightarrow> ParseError + SignedPayload" where
  "parse_as tag version r con =
     andthen (require_version tag version) (\<lambda>_. andthen r (\<lambda>x. Inr (con x)))"

text \<open>The dispatch on \<open>(t, v)\<close>.\<close>

definition parse_class :: "(nat list \<Rightarrow> nat list) \<Rightarrow> fields \<Rightarrow> string \<Rightarrow> u64 \<Rightarrow> ParseError + SignedPayload" where
  "parse_class nfc flds t version =
     (if t = TAG_POST_REVISION then
        parse_as TAG_POST_REVISION version (parse_post_revision nfc flds) PostRevision
      else if t = TAG_RETRACTION then
        parse_as TAG_RETRACTION version (parse_retraction flds) Retraction
      else if t = TAG_TRUST_EDGE then
        parse_as TAG_TRUST_EDGE version (parse_trust_edge flds) TrustEdge
      else if t = TAG_PROFILE then
        parse_as TAG_PROFILE version (parse_profile_revision flds) ProfileRevision
      else if t = TAG_MOVE then
        parse_as TAG_MOVE version (parse_move flds) Move
      else if t = TAG_ADMIN_REMOVAL then
        parse_as TAG_ADMIN_REMOVAL version (parse_admin_removal flds) AdminRemoval
      else if t = TAG_FED_ENVELOPE then
        parse_as TAG_FED_ENVELOPE version (parse_fed_envelope flds) FedEnvelope
      else if t = TAG_REGISTRATION_CHALLENGE then
        parse_as TAG_REGISTRATION_CHALLENGE version (parse_registration_challenge flds) RegistrationChallenge
      else if t = TAG_PRIOR_HOME_CHALLENGE then
        parse_as TAG_PRIOR_HOME_CHALLENGE version (parse_prior_home_challenge flds) PriorHomeChallenge
      else if t = TAG_PRIOR_HOME_RESPONSE then
        parse_as TAG_PRIOR_HOME_RESPONSE version (parse_prior_home_response flds) PriorHomeResponse
      else if t = TAG_THREAD_CREATE then
        parse_as TAG_THREAD_CREATE version (parse_thread_create flds) ThreadCreate
      else if t = TAG_USER_STATUS then
        parse_as TAG_USER_STATUS version (parse_user_status flds) UserStatus
      else if t = TAG_DEACTIVATION then
        parse_as TAG_DEACTIVATION version (parse_deactivation flds) Deactivation
      else if t = TAG_THREAD_STATUS then
        parse_as TAG_THREAD_STATUS version (parse_thread_status flds) ThreadStatus
      else if t = TAG_REPORT then
        parse_as TAG_REPORT version (parse_report flds) Report
      else Inl (UnknownClass t))"

text \<open>From the top-level map on.\<close>

definition parse_value :: "(nat list \<Rightarrow> nat list) \<Rightarrow> cbor_value \<Rightarrow> ParseError + SignedPayload" where
  "parse_value nfc v =
     andthen (case v of VMap m \<Rightarrow> Inr m | _ \<Rightarrow> Inl (WrongType ''payload'')) (\<lambda>map_entries.
     andthen (collect_fields map_entries) (\<lambda>flds.
     andthen (field_text flds ''t'') (\<lambda>t.
     andthen (field_uint flds ''v'') (\<lambda>version.
     parse_class nfc flds t version))))"

definition parse ::
  "(nat list \<Rightarrow> nat list) \<Rightarrow> (cbor_value \<Rightarrow> bytes option) \<Rightarrow> (bytes \<Rightarrow> cbor_value option)
   \<Rightarrow> bytes \<Rightarrow> ParseError + SignedPayload" where
  "parse nfc ser de input =
     andthen (ok_or (de input) InvalidCbor) (\<lambda>v.
     andthen (ok_or (ser v) InvalidCbor) (\<lambda>re_encoded.
     andthen (guard (\<not> re_encoded \<noteq> input) NonCanonical) (\<lambda>_.
     parse_value nfc v)))"

section \<open>What the map walk accepts\<close>

definition text_entries :: "(string \<times> cbor_value) list \<Rightarrow> (cbor_value \<times> cbor_value) list" where
  "text_entries kvs = map (\<lambda>(k, v). (VText k, v)) kvs"

definition ranks :: "(string \<times> cbor_value) list \<Rightarrow> (nat \<times> nat list) list" where
  "ranks kvs = map (\<lambda>e. key_rank (fst e)) kvs"

lemma build_map_text_entries: "build_map es = VMap (text_entries (sort_entries es))"
  by (simp add: build_map_def text_entries_def)

lemma text_entries_simps [simp]:
  "text_entries [] = []"
  "text_entries ((k, v) # kvs) = (VText k, v) # text_entries kvs"
  by (simp_all add: text_entries_def)

lemma ranks_simps [simp]:
  "ranks [] = []"
  "ranks ((k, v) # kvs) = key_rank k # ranks kvs"
  by (simp_all add: ranks_def)

text \<open>The loop invariant: every key collected so far ranks at most as high as the last one.\<close>

definition below :: "string option \<Rightarrow> fields \<Rightarrow> bool" where
  "below lk flds \<longleftrightarrow> (\<forall>k \<in> dom flds. \<exists>l. lk = Some l \<and> key_rank k \<le> key_rank l)"

lemma below_step:
  "below lk flds \<Longrightarrow> (\<And>l. lk = Some l \<Longrightarrow> key_rank l < key_rank k) \<Longrightarrow>
   flds k = None \<and> below (Some k) (flds(k \<mapsto> v))"
proof -
  assume b: "below lk flds" and l: "\<And>l. lk = Some l \<Longrightarrow> key_rank l < key_rank k"
  have *: "key_rank k' < key_rank k" if "k' \<in> dom flds" for k'
  proof -
    from b that obtain l where "lk = Some l" "key_rank k' \<le> key_rank l" by (auto simp: below_def)
    with l show ?thesis by (blast intro: le_less_trans)
  qed
  then have "k \<notin> dom flds" by blast
  moreover have "below (Some k) (flds(k \<mapsto> v))"
    using * by (auto simp: below_def intro: less_imp_le)
  ultimately show ?thesis by (simp add: domIff)
qed

lemma collect_from_Inr:
  assumes "below lk flds"
  shows "collect_from lk flds es = Inr m \<longleftrightarrow>
    (\<exists>kvs. es = text_entries kvs \<and> sorted_wrt (<) (ranks kvs) \<and>
       (\<forall>l. lk = Some l \<longrightarrow> (\<forall>r \<in> set (ranks kvs). key_rank l < r)) \<and> m = flds ++ map_of kvs)"
  using assms
proof (induction es arbitrary: lk flds)
  case Nil
  have "[] = text_entries kvs \<longleftrightarrow> kvs = []" for kvs by (auto simp: text_entries_def)
  then show ?case by auto
next
  case (Cons e es)
  obtain k v where e: "e = (k, v)" by (cases e)
  show ?case
  proof (cases "\<exists>s. k = VText s \<and> (\<forall>l. lk = Some l \<longrightarrow> key_rank l < key_rank s)")
    case False
    then have "collect_from lk flds (e # es) \<noteq> Inr m"
      by (auto simp: e cbor_text_key_cmp_Less split: cbor_value.splits option.splits)
    moreover have "\<not> (e # es = text_entries kvs \<and> (\<forall>l. lk = Some l \<longrightarrow> (\<forall>r \<in> set (ranks kvs). key_rank l < r)))" for kvs
      using False by (cases kvs) (auto simp: e)
    ultimately show ?thesis by blast
  next
    case True
    then obtain s where s: "k = VText s" "\<And>l. lk = Some l \<Longrightarrow> key_rank l < key_rank s" by blast
    from below_step [OF Cons.prems s(2)]
    have fs: "flds s = None" and b: "below (Some s) (flds(s \<mapsto> v))" for v by blast+
    have step: "collect_from lk flds (e # es) = collect_from (Some s) (flds(s \<mapsto> v)) es"
      using s fs by (auto simp: e cbor_text_key_cmp_Less split: option.splits)
    have upd: "flds(s \<mapsto> v) ++ map_of kvs = flds ++ map_of ((s, v) # kvs)"
      if "\<forall>r \<in> set (ranks kvs). key_rank s < r" for kvs
    proof -
      have "s \<notin> fst ` set kvs" using that by (force simp: ranks_def)
      then have "map_of kvs s = None" by (simp add: map_of_eq_None_iff)
      then show ?thesis by (auto simp: fun_eq_iff map_add_def split: option.splits)
    qed
    show ?thesis
    proof
      assume "collect_from lk flds (e # es) = Inr m"
      then obtain kvs where k: "es = text_entries kvs" "sorted_wrt (<) (ranks kvs)"
        "\<forall>r \<in> set (ranks kvs). key_rank s < r" "m = flds(s \<mapsto> v) ++ map_of kvs"
        unfolding step Cons.IH [OF b] by blast
      have "\<forall>l. lk = Some l \<longrightarrow> (\<forall>r \<in> set (ranks ((s, v) # kvs)). key_rank l < r)"
        using s(2) k(3) by (auto dest: order.strict_trans)
      with k upd [OF k(3)] show "\<exists>kvs. e # es = text_entries kvs \<and> sorted_wrt (<) (ranks kvs) \<and>
         (\<forall>l. lk = Some l \<longrightarrow> (\<forall>r \<in> set (ranks kvs). key_rank l < r)) \<and> m = flds ++ map_of kvs"
        by (intro exI [of _ "(s, v) # kvs"]) (simp add: e s(1))
    next
      assume "\<exists>kvs. e # es = text_entries kvs \<and> sorted_wrt (<) (ranks kvs) \<and>
         (\<forall>l. lk = Some l \<longrightarrow> (\<forall>r \<in> set (ranks kvs). key_rank l < r)) \<and> m = flds ++ map_of kvs"
      then obtain kvs where k: "e # es = text_entries kvs" "sorted_wrt (<) (ranks kvs)" "m = flds ++ map_of kvs"
        by blast
      from k(1) obtain kvs' where k': "kvs = (s, v) # kvs'" "es = text_entries kvs'"
        by (cases kvs) (auto simp: e s(1))
      with k(2) have lt: "\<forall>r \<in> set (ranks kvs'). key_rank s < r" by simp
      show "collect_from lk flds (e # es) = Inr m"
        unfolding step Cons.IH [OF b] using k k' lt upd [OF lt] by (intro exI [of _ kvs']) simp
    qed
  qed
qed

lemma collect_fields_Inr:
  "collect_fields es = Inr m \<longleftrightarrow>
   (\<exists>kvs. es = text_entries kvs \<and> sorted_wrt (<) (ranks kvs) \<and> m = map_of kvs)"
  unfolding collect_fields_def by (subst collect_from_Inr) (simp_all add: below_def)

lemma strict_ranks_distinct: "sorted_wrt (<) (ranks kvs) \<Longrightarrow> distinct (map fst kvs)"
  by (induction kvs) (force simp: ranks_def)+

lemma collect_fields_build:
  assumes "distinct (map fst es)"
  shows "collect_fields (text_entries (sort_entries es)) = Inr (map_of es)"
proof -
  have "distinct (ranks (sort_entries es))"
    using assms distinct_sort_entries [of es]
    by (simp add: ranks_def distinct_map inj_on_def)
  moreover have "sorted (ranks (sort_entries es))"
    using sorted_sort_entries [of es] by (simp add: ranks_def)
  ultimately have "sorted_wrt (<) (ranks (sort_entries es))"
    by (simp add: strict_sorted_iff)
  then show ?thesis
    unfolding collect_fields_Inr using map_of_sort_entries [OF assms] by auto
qed

end
