(* ===== verification/Signed_Wf.thy ===== *)
theory Signed_Wf
  imports Signed_Parse
begin

text \<open>
  The schema of each payload class as a predicate on its record, and the two directions that tie it to
  \<open>signed.rs\<close>: the encoder's entries of a well-formed payload parse back to it, and whatever a
  \<open>parse_\<close> function returns satisfies the schema and agrees with the fields it was read from.
\<close>

section \<open>Schemas\<close>

definition opt_len :: "nat \<Rightarrow> bytes option \<Rightarrow> bool" where
  "opt_len n x \<longleftrightarrow> (case x of None \<Rightarrow> True | Some b \<Rightarrow> length b = n)"

definition wf_attachment_ref :: "(nat list \<Rightarrow> nat list) \<Rightarrow> AttachmentRef \<Rightarrow> bool" where
  "wf_attachment_ref nfc r \<longleftrightarrow>
     length (content_hash r) = 32 \<and> sanitize_attachment_filename nfc (filename r) = Some (filename r)
   \<and> mime r \<in> set ALLOWED_MIMES \<and> unat (att_size r) \<le> MAX_ATTACHMENT_SIZE"

definition wf_genesis_attestation :: "GenesisAttestation \<Rightarrow> bool" where
  "wf_genesis_attestation a \<longleftrightarrow>
     length (ga_key a) = 32 \<and> length (birth_instance_key a) = 32 \<and> length (ga_sig a) = 64"

fun wf_payload :: "(nat list \<Rightarrow> nat list) \<Rightarrow> SignedPayload \<Rightarrow> bool" where
  "wf_payload nfc (PostRevision p) \<longleftrightarrow>
     length (pr_post_id p) = 16 \<and> length (pr_author p) = 32 \<and> length (pr_thread_id p) = 16
   \<and> opt_len 16 (parent_id p) \<and> length (attachments p) \<le> MAX_ATTACHMENTS_PER_OP
   \<and> list_all (wf_attachment_ref nfc) (attachments p)"
| "wf_payload nfc (Retraction r) \<longleftrightarrow> length (rt_post_id r) = 16 \<and> length (rt_author r) = 32"
| "wf_payload nfc (TrustEdge e) \<longleftrightarrow>
     length (from_key e) = 32 \<and> length (to_key e) = 32 \<and> opt_len 32 (prior_edge_hash e)"
| "wf_payload nfc (ProfileRevision p) \<longleftrightarrow>
     length (pf_user p) = 32 \<and> length (bio p) \<le> MAX_PROFILE_BIO_LEN
   \<and> opt_len 32 (avatar_attachment_hash p) \<and> opt_len 32 (prior_profile_hash p)"
| "wf_payload nfc (Move m) \<longleftrightarrow>
     length (mv_key m) = 32 \<and> opt_len 32 (from_instance_key m) \<and> length (to_instance_key m) = 32
   \<and> (from_instance_key m = None \<longleftrightarrow> from_instance m = None)
   \<and> wf_genesis_attestation (genesis_attestation m)
   \<and> ga_key (genesis_attestation m) = mv_key m \<and> ga_genesis_at (genesis_attestation m) = genesis_at m
   \<and> opt_len 32 (prior_move_hash m) \<and> (from_instance_key m = None \<longrightarrow> prior_move_hash m = None)"
| "wf_payload nfc (AdminRemoval a) \<longleftrightarrow> length (ar_post_id a) = 16 \<and> length (ar_target_author a) = 32"
| "wf_payload nfc (FedEnvelope e) \<longleftrightarrow>
     length (sender e) = 32 \<and> length (receiver e) = 32 \<and> opt_len 32 (body_hash e) \<and> length (fe_nonce e) = 16"
| "wf_payload nfc (RegistrationChallenge c) \<longleftrightarrow>
     length (user_key c) = 32 \<and> length (dest_instance_key c) = 32 \<and> length (rc_nonce c) = 32"
| "wf_payload nfc (PriorHomeChallenge c) \<longleftrightarrow>
     length (responder_instance_key c) = 32 \<and> length (phc_subject_key c) = 32 \<and> length (phc_nonce c) = 32"
| "wf_payload nfc (PriorHomeResponse r) \<longleftrightarrow>
     length (phr_subject_key r) = 32 \<and> length (challenge_hash r) = 32"
| "wf_payload nfc (ThreadCreate t) \<longleftrightarrow>
     length (tc_thread_id t) = 16 \<and> length (tc_author t) = 32 \<and> length (title t) \<le> MAX_THREAD_TITLE_LEN
   \<and> length (op_post_id t) = 16"
| "wf_payload nfc (UserStatus s) \<longleftrightarrow>
     length (subject s) = 32 \<and> (suspended_until s \<noteq> None \<longrightarrow> us_status s = Suspended)
   \<and> opt_len 32 (us_prior_status_hash s)"
| "wf_payload nfc (Deactivation d) \<longleftrightarrow> length (da_user d) = 32"
| "wf_payload nfc (ThreadStatus s) \<longleftrightarrow> length (ts_thread_id s) = 16 \<and> opt_len 32 (ts_prior_status_hash s)"
| "wf_payload nfc (Report r) \<longleftrightarrow>
     length (rp_post_id r) = 16 \<and> length (rp_target_author r) = 32 \<and> length (reporter r) = 32
   \<and> (case detail r of None \<Rightarrow> True | Some d \<Rightarrow> length d \<le> MAX_REPORT_DETAIL_LEN)"

text \<open>The \<open>String\<close> fields of a payload. A Rust \<open>String\<close> is valid UTF-8 shorter than the address space.\<close>

definition opt_list :: "'a option \<Rightarrow> 'a list" where
  "opt_list x = (case x of None \<Rightarrow> [] | Some y \<Rightarrow> [y])"

fun payload_strings :: "SignedPayload \<Rightarrow> string list" where
  "payload_strings (PostRevision p) = body p # concat (map (\<lambda>r. [filename r, mime r]) (attachments p))"
| "payload_strings (ProfileRevision p) = [display_name p, bio p]"
| "payload_strings (Move m) = to_instance m # opt_list (from_instance m)"
| "payload_strings (AdminRemoval a) = ar_signing_instance a # opt_list (ar_reason a)"
| "payload_strings (FedEnvelope e) = [meth e, path e]"
| "payload_strings (RegistrationChallenge c) = [dest_domain c]"
| "payload_strings (ThreadCreate t) = [room_slug t, title t] @ opt_list (link_url t)"
| "payload_strings (UserStatus s) = us_signing_instance s # opt_list (us_reason s)"
| "payload_strings (ThreadStatus s) = ts_signing_instance s # opt_list (ts_reason s)"
| "payload_strings (Report r) = opt_list (detail r)"
| "payload_strings _ = []"

definition rust_string :: "string \<Rightarrow> bool" where
  "rust_string s \<longleftrightarrow> is_str s \<and> length s < 2 ^ 64"

definition typed_payload :: "SignedPayload \<Rightarrow> bool" where
  "typed_payload p \<longleftrightarrow> list_all rust_string (payload_strings p)"

section \<open>Field accessors\<close>

lemma field_bytes_fixed_Inr [result_simps]:
  "field_bytes_fixed n flds k = Inr b \<longleftrightarrow> flds k = Some (VBytes b) \<and> length b = n"
proof (cases "flds k")
  case (Some v)
  then show ?thesis by (cases v) (auto simp: field_bytes_fixed_def)
qed (simp add: field_bytes_fixed_def)

lemma field_text_Inr [result_simps]: "field_text flds k = Inr s \<longleftrightarrow> flds k = Some (VText s)"
proof (cases "flds k")
  case (Some v)
  then show ?thesis by (cases v) (auto simp: field_text_def)
qed (simp add: field_text_def)

lemma uint_range_iff: "0 \<le> i \<and> i < 2 ^ 64 \<and> n = (word_of_int i :: u64) \<longleftrightarrow> i = uint n"
proof
  assume "0 \<le> i \<and> i < 2 ^ 64 \<and> n = (word_of_int i :: u64)"
  then show "i = uint n" by (simp add: uint_word_of_int)
next
  assume "i = uint n"
  then show "0 \<le> i \<and> i < 2 ^ 64 \<and> n = (word_of_int i :: u64)"
    using uint_bounded [of n] by simp
qed

lemma field_uint_Inr [result_simps]: "field_uint flds k = Inr n \<longleftrightarrow> flds k = Some (v_uint n)"
proof (cases "flds k")
  case (Some v)
  show ?thesis
  proof (cases v)
    case (VInteger i)
    with Some uint_range_iff [of i n] show ?thesis
      by (auto simp: field_uint_def v_uint_def)
  qed (simp_all add: Some field_uint_def v_uint_def)
qed (simp add: field_uint_def)

lemma v_uint_inj [simp]: "v_uint a = v_uint b \<longleftrightarrow> a = b"
  by (simp add: v_uint_def word_uint_eq_iff)

lemma map_option_inj_simps [simp]:
  "map_option VBytes x = map_option VBytes y \<longleftrightarrow> x = y"
  "map_option VText s = map_option VText t \<longleftrightarrow> s = t"
  "map_option v_uint m = map_option v_uint n \<longleftrightarrow> m = n"
  subgoal by (cases x; cases y) simp_all
  subgoal by (cases s; cases t) simp_all
  subgoal by (cases m; cases n) simp_all
  done

lemma map_add_opt_entry [simp]:
  "k' \<noteq> k \<Longrightarrow> (m ++ map_of (opt_entry k f x)) k' = m k'"
  "m k = None \<Longrightarrow> (m ++ map_of (opt_entry k f x)) k = map_option f x"
  by (cases x; simp add:)+

lemma opt_field_bytes [result_simps]:
  "opt_field (field_bytes_fixed n) flds k = Inr x \<longleftrightarrow> flds k = map_option VBytes x \<and> opt_len n x"
  by (cases x) (auto simp: opt_field_def opt_len_def result_simps)

lemma opt_field_text [result_simps]:
  "opt_field field_text flds k = Inr x \<longleftrightarrow> flds k = map_option VText x"
  by (cases x) (auto simp: opt_field_def result_simps)

lemma opt_field_uint [result_simps]:
  "opt_field field_uint flds k = Inr x \<longleftrightarrow> flds k = map_option v_uint x"
  by (cases x) (auto simp: opt_field_def result_simps)

lemma field_detail_Inr [result_simps]:
  "field_detail flds k = Inr s \<longleftrightarrow> flds k = Some (VText s) \<and> length s \<le> MAX_REPORT_DETAIL_LEN"
  by (auto simp: field_detail_def result_simps)

lemma opt_field_detail [result_simps]:
  "opt_field field_detail flds k = Inr x \<longleftrightarrow>
   flds k = map_option VText x \<and> (case x of None \<Rightarrow> True | Some d \<Rightarrow> length d \<le> MAX_REPORT_DETAIL_LEN)"
  by (cases x) (auto simp: opt_field_def result_simps)

section \<open>Schema keys\<close>

definition attachment_keys :: "string list" where
  "attachment_keys =
     [KEY_ATTACHMENT_CONTENT_HASH, KEY_ATTACHMENT_FILENAME, KEY_ATTACHMENT_MIME, KEY_ATTACHMENT_SIZE]"

definition attestation_keys :: "string list" where
  "attestation_keys = [''key'', ''genesis_at'', ''birth_instance_key'', ''sig'']"

fun schema_keys :: "SignedPayload \<Rightarrow> string list" where
  "schema_keys (PostRevision p) = [''v'', ''t'', ''post_id'', ''author'', ''thread_id'', ''revision'', ''body'',
     ''created_at'', ''parent_id'', ''attachments'']"
| "schema_keys (Retraction r) = [''v'', ''t'', ''post_id'', ''author'', ''created_at'']"
| "schema_keys (TrustEdge e) = [''v'', ''t'', ''from_key'', ''to_key'', ''stance'', ''created_at'', ''prior_edge_hash'']"
| "schema_keys (ProfileRevision p) = [''v'', ''t'', ''user'', ''display_name'', ''bio'', ''created_at'',
     ''avatar_attachment_hash'', ''prior_profile_hash'']"
| "schema_keys (Move m) = [''v'', ''t'', ''key'', ''to_instance_key'', ''to_instance'', ''created_at'', ''genesis_at'',
     ''genesis_attestation'', ''from_instance_key'', ''from_instance'', ''prior_move_hash'']"
| "schema_keys (AdminRemoval a) = [''v'', ''t'', ''post_id'', ''target_author'', ''signing_instance'', ''created_at'', ''reason'']"
| "schema_keys (FedEnvelope e) = [''v'', ''t'', ''sender'', ''receiver'', ''method'', ''path'', ''created_at'', ''nonce'', ''body_hash'']"
| "schema_keys (RegistrationChallenge c) = [''v'', ''t'', ''user_key'', ''dest_instance_key'', ''dest_domain'', ''nonce'', ''created_at'']"
| "schema_keys (PriorHomeChallenge c) = [''v'', ''t'', ''responder_instance_key'', ''subject_key'', ''nonce'', ''created_at'', ''expires_at'']"
| "schema_keys (PriorHomeResponse r) = [''v'', ''t'', ''subject_key'', ''challenge_hash'', ''created_at'']"
| "schema_keys (ThreadCreate t) = [''v'', ''t'', ''thread_id'', ''author'', ''room_slug'', ''title'', ''op_post_id'', ''created_at'', ''link_url'']"
| "schema_keys (UserStatus s) = [''v'', ''t'', ''subject'', ''status'', ''signing_instance'', ''created_at'', ''suspended_until'',
     ''reason'', ''prior_status_hash'']"
| "schema_keys (Deactivation d) = [''v'', ''t'', ''user'', ''created_at'']"
| "schema_keys (ThreadStatus s) = [''v'', ''t'', ''thread_id'', ''status'', ''signing_instance'', ''created_at'', ''reason'', ''prior_status_hash'']"
| "schema_keys (Report r) = [''v'', ''t'', ''post_id'', ''target_author'', ''reporter'', ''reason'', ''created_at'', ''detail'']"

text \<open>A map value none of whose keys is outside \<open>ks\<close>.\<close>

definition known_keys :: "string list \<Rightarrow> cbor_value \<Rightarrow> bool" where
  "known_keys ks v \<longleftrightarrow> (case v of VMap m \<Rightarrow> list_all (\<lambda>(k, _). list_ex (\<lambda>s. k = VText s) ks) m | _ \<Rightarrow> True)"

definition nested_known :: "fields \<Rightarrow> bool" where
  "nested_known flds \<longleftrightarrow>
     (case flds ''attachments'' of Some (VArray items) \<Rightarrow> list_all (known_keys attachment_keys) items | _ \<Rightarrow> True)
   \<and> (case flds ''genesis_attestation'' of Some v \<Rightarrow> known_keys attestation_keys v | _ \<Rightarrow> True)"

text \<open>The decoded top-level map holds, at the keys \<open>ks\<close>, exactly what \<open>es\<close> holds.\<close>

definition agree :: "string list \<Rightarrow> fields \<Rightarrow> (string \<times> cbor_value) list \<Rightarrow> bool" where
  "agree ks flds es \<longleftrightarrow> list_all (\<lambda>k. flds k = map_of es k) ks"

lemma agree_simps [simp]:
  "agree [] flds es"
  "agree (k # ks) flds es \<longleftrightarrow> flds k = map_of es k \<and> agree ks flds es"
  by (simp_all add: agree_def)

lemma text_entries_known:
  "known_keys ks (VMap (text_entries kvs)) \<longleftrightarrow> fst ` set kvs \<subseteq> set ks"
  by (auto simp: known_keys_def text_entries_def list_all_iff list_ex_iff)

lemma sort_entries_unique:
  assumes "sorted_wrt (<) (ranks kvs)" "distinct (map fst es)" "map_of kvs = map_of es"
  shows "kvs = sort_entries es"
proof -
  have d: "distinct (map fst kvs)" using assms(1) by (rule strict_ranks_distinct)
  have mem: "e \<in> set xs \<longleftrightarrow> map_of xs (fst e) = Some (snd e)"
    if "distinct (map fst xs)" for e and xs :: "(string \<times> cbor_value) list"
    using map_of_eq_Some_iff [OF that, of "fst e" "snd e"] by simp
  have eq: "set kvs = set (sort_entries es)"
    using mem [OF d] mem [OF assms(2)] assms(3) by auto
  have ds: "distinct (map fst (sort_entries es))" using assms(2) by (simp add: distinct_sort_entries)
  have rk: "distinct (ranks xs)" if "distinct (map fst xs)" for xs :: "(string \<times> cbor_value) list"
    using that by (auto simp: ranks_def distinct_map inj_on_def)
  show ?thesis
  proof (rule map_sorted_distinct_set_unique [where f = "\<lambda>e. key_rank (fst e)"])
    show "inj_on (\<lambda>e. key_rank (fst e)) (set kvs \<union> set (sort_entries es))"
      unfolding eq [symmetric] using d by (simp add: inj_on_def distinct_map)
    show "sorted (map (\<lambda>e. key_rank (fst e)) kvs)"
      using assms(1) by (simp add: ranks_def strict_sorted_imp_sorted)
    show "distinct (map (\<lambda>e. key_rank (fst e)) kvs)" using rk [OF d] by (simp add: ranks_def)
    show "distinct (map (\<lambda>e. key_rank (fst e)) (sort_entries es))" using rk [OF ds] by (simp add: ranks_def)
  qed (simp_all add: eq sorted_sort_entries)
qed

section \<open>Nested maps\<close>

lemma known_agree_eq:
  assumes "sorted_wrt (<) (ranks kvs)" "distinct (map fst es)" "fst ` set kvs \<subseteq> set ks"
    "fst ` set es \<subseteq> set ks" "agree ks (map_of kvs) es"
  shows "VMap (text_entries kvs) = build_map es"
proof -
  have "map_of kvs k = map_of es k" for k
  proof (cases "k \<in> set ks")
    case True
    with assms(5) show ?thesis by (simp add: agree_def list_all_iff)
  next
    case False
    with assms(3,4) have "k \<notin> fst ` set kvs" "k \<notin> fst ` set es" by blast+
    then show ?thesis by (simp add: map_of_eq_None_iff [THEN iffD2])
  qed
  then have "map_of kvs = map_of es" by blast
  from sort_entries_unique [OF assms(1,2) this] show ?thesis by (simp add: build_map_text_entries)
qed

lemma parse_attachment_ref_sound:
  assumes "parse_attachment_ref nfc v = Inr r"
  shows "wf_attachment_ref nfc r" "known_keys attachment_keys v \<Longrightarrow> v = attachment_ref_to_cbor r"
proof -
  obtain m flds where v: "v = VMap m" and c: "collect_fields m = Inr flds"
    and wf: "wf_attachment_ref nfc r" and a: "agree attachment_keys flds (attachment_ref_entries r)"
    using assms
    by (cases v)
       (auto simp: parse_attachment_ref_def result_simps wf_attachment_ref_def attachment_keys_def
          attachment_ref_entries_def key_defs)
  show "wf_attachment_ref nfc r" by (rule wf)
  from c obtain kvs where k: "m = text_entries kvs" "sorted_wrt (<) (ranks kvs)" "flds = map_of kvs"
    by (auto simp: collect_fields_Inr)
  assume "known_keys attachment_keys v"
  then show "v = attachment_ref_to_cbor r"
    unfolding attachment_ref_to_cbor_def v k(1)
    using k a
    by (intro known_agree_eq [where ks = attachment_keys])
       (auto simp: v text_entries_known, auto simp: attachment_ref_entries_def attachment_keys_def key_defs)
qed

lemma parse_attachment_ref_complete:
  assumes "wf_attachment_ref nfc r"
  shows "parse_attachment_ref nfc (attachment_ref_to_cbor r) = Inr r"
proof -
  have "collect_fields (text_entries (sort_entries (attachment_ref_entries r))) = Inr (map_of (attachment_ref_entries r))"
    by (rule collect_fields_build) (simp add: attachment_ref_entries_def key_defs)
  with assms show ?thesis
    by (simp add: parse_attachment_ref_def attachment_ref_to_cbor_def build_map_text_entries result_simps
        wf_attachment_ref_def not_less)
       (simp add: attachment_ref_entries_def key_defs)
qed

lemma parse_attachments_sound:
  assumes "parse_attachments nfc flds = Inr rs"
  shows "rs \<noteq> []" "length rs \<le> MAX_ATTACHMENTS_PER_OP" "list_all (wf_attachment_ref nfc) rs"
    "nested_known flds \<Longrightarrow> flds KEY_ATTACHMENTS = Some (attachments_to_cbor rs)"
proof -
  obtain items where f: "flds KEY_ATTACHMENTS = Some (VArray items)" and l: "items \<noteq> []"
      "length items \<le> MAX_ATTACHMENTS_PER_OP" and r: "map_result (parse_attachment_ref nfc) items = Inr rs"
    using assms
    by (cases "the (flds KEY_ATTACHMENTS)") (auto simp: parse_attachments_def result_simps not_less)
  from r have len: "length rs = length items" and
    el: "\<And>i. i < length items \<Longrightarrow> parse_attachment_ref nfc (items ! i) = Inr (rs ! i)"
    by (auto simp: map_result_Inr_nth list_all2_conv_all_nth)
  show "rs \<noteq> []" "length rs \<le> MAX_ATTACHMENTS_PER_OP" using len l by auto
  show "list_all (wf_attachment_ref nfc) rs"
    using len el parse_attachment_ref_sound(1) by (auto simp: list_all_length)
  assume "nested_known flds"
  with f have "\<And>i. i < length items \<Longrightarrow> known_keys attachment_keys (items ! i)"
    by (auto simp: nested_known_def key_defs list_all_length)
  then have "\<And>i. i < length items \<Longrightarrow> items ! i = attachment_ref_to_cbor (rs ! i)"
    using el parse_attachment_ref_sound(2) by blast
  then have "items = map attachment_ref_to_cbor rs" using len by (simp add: list_eq_iff_nth_eq)
  with f show "flds KEY_ATTACHMENTS = Some (attachments_to_cbor rs)" by (simp add: attachments_to_cbor_def)
qed

lemma parse_attachments_complete:
  assumes "flds KEY_ATTACHMENTS = Some (attachments_to_cbor rs)" "rs \<noteq> []"
    "length rs \<le> MAX_ATTACHMENTS_PER_OP" "list_all (wf_attachment_ref nfc) rs"
  shows "parse_attachments nfc flds = Inr rs"
  using assms map_result_map [of rs "parse_attachment_ref nfc" attachment_ref_to_cbor]
  by (simp add: parse_attachments_def attachments_to_cbor_def parse_attachment_ref_complete list_all_iff
      result_simps not_less)

lemma parse_genesis_attestation_sound:
  assumes "parse_genesis_attestation flds key gen_at = Inr a"
  shows "wf_genesis_attestation a" "ga_key a = key" "ga_genesis_at a = gen_at"
    "nested_known flds \<Longrightarrow> flds ''genesis_attestation'' = Some (genesis_attestation_to_cbor a)"
proof -
  obtain m inner where v: "flds ''genesis_attestation'' = Some (VMap m)" and c: "collect_fields m = Inr inner"
    and wf: "wf_genesis_attestation a" "ga_key a = key" "ga_genesis_at a = gen_at"
    and ag: "agree attestation_keys inner (genesis_attestation_entries a)"
    using assms
    by (cases "the (flds ''genesis_attestation'')")
       (auto simp: parse_genesis_attestation_def result_simps wf_genesis_attestation_def attestation_keys_def
          genesis_attestation_entries_def)
  show "wf_genesis_attestation a" "ga_key a = key" "ga_genesis_at a = gen_at" by (fact wf)+
  from c obtain kvs where k: "m = text_entries kvs" "sorted_wrt (<) (ranks kvs)" "inner = map_of kvs"
    by (auto simp: collect_fields_Inr)
  assume "nested_known flds"
  with v k(1) have kn: "fst ` set kvs \<subseteq> set attestation_keys"
    by (simp add: nested_known_def text_entries_known)
  have "VMap (text_entries kvs) = build_map (genesis_attestation_entries a)"
    using kn k ag
    by (intro known_agree_eq [where ks = attestation_keys])
       (simp_all, simp_all add: genesis_attestation_entries_def attestation_keys_def)
  with v k(1) show "flds ''genesis_attestation'' = Some (genesis_attestation_to_cbor a)"
    by (simp add: genesis_attestation_to_cbor_def)
qed

lemma parse_genesis_attestation_complete:
  assumes "flds ''genesis_attestation'' = Some (genesis_attestation_to_cbor a)" "wf_genesis_attestation a"
  shows "parse_genesis_attestation flds (ga_key a) (ga_genesis_at a) = Inr a"
proof -
  have "collect_fields (text_entries (sort_entries (genesis_attestation_entries a))) =
      Inr (map_of (genesis_attestation_entries a))"
    by (rule collect_fields_build) (simp add: genesis_attestation_entries_def)
  with assms show ?thesis
    by (simp add: parse_genesis_attestation_def genesis_attestation_to_cbor_def build_map_text_entries
        result_simps wf_genesis_attestation_def)
       (simp add: genesis_attestation_entries_def)
qed

section \<open>The payload classes\<close>

text \<open>Soundness: a parsed record satisfies its schema and holds the values of the fields it was read
  from. Completeness: the fields of a well-formed record parse to it.\<close>

lemma parse_retraction_sound:
  "parse_retraction flds = Inr x \<Longrightarrow>
   wf_payload nfc (Retraction x) \<and> agree (drop 2 (schema_keys (Retraction x))) flds (retraction_entries x)"
  by (auto simp: parse_retraction_def retraction_entries_def result_simps)

lemma parse_retraction_complete:
  "wf_payload nfc (Retraction x) \<Longrightarrow> agree (drop 2 (schema_keys (Retraction x))) flds (retraction_entries x) \<Longrightarrow>
   parse_retraction flds = Inr x"
  by (simp add: parse_retraction_def retraction_entries_def result_simps not_less)

lemma parse_trust_edge_sound:
  "parse_trust_edge flds = Inr x \<Longrightarrow>
   wf_payload nfc (TrustEdge x) \<and> agree (drop 2 (schema_keys (TrustEdge x))) flds (trust_edge_entries x)"
  by (auto simp: parse_trust_edge_def trust_edge_entries_def result_simps dest: stance_parse_Some)

lemma parse_trust_edge_complete:
  "wf_payload nfc (TrustEdge x) \<Longrightarrow> agree (drop 2 (schema_keys (TrustEdge x))) flds (trust_edge_entries x) \<Longrightarrow>
   parse_trust_edge flds = Inr x"
  by (simp add: parse_trust_edge_def trust_edge_entries_def result_simps not_less)

lemma parse_profile_revision_sound:
  "parse_profile_revision flds = Inr x \<Longrightarrow>
   wf_payload nfc (ProfileRevision x) \<and> agree (drop 2 (schema_keys (ProfileRevision x))) flds (profile_revision_entries x)"
  by (auto simp: parse_profile_revision_def profile_revision_entries_def result_simps)

lemma parse_profile_revision_complete:
  "wf_payload nfc (ProfileRevision x) \<Longrightarrow> agree (drop 2 (schema_keys (ProfileRevision x))) flds (profile_revision_entries x) \<Longrightarrow>
   parse_profile_revision flds = Inr x"
  by (simp add: parse_profile_revision_def profile_revision_entries_def result_simps not_less)

lemma parse_admin_removal_sound:
  "parse_admin_removal flds = Inr x \<Longrightarrow>
   wf_payload nfc (AdminRemoval x) \<and> agree (drop 2 (schema_keys (AdminRemoval x))) flds (admin_removal_entries x)"
  by (auto simp: parse_admin_removal_def admin_removal_entries_def result_simps)

lemma parse_admin_removal_complete:
  "wf_payload nfc (AdminRemoval x) \<Longrightarrow> agree (drop 2 (schema_keys (AdminRemoval x))) flds (admin_removal_entries x) \<Longrightarrow>
   parse_admin_removal flds = Inr x"
  by (simp add: parse_admin_removal_def admin_removal_entries_def result_simps not_less)

lemma parse_fed_envelope_sound:
  "parse_fed_envelope flds = Inr x \<Longrightarrow>
   wf_payload nfc (FedEnvelope x) \<and> agree (drop 2 (schema_keys (FedEnvelope x))) flds (fed_envelope_entries x)"
  by (auto simp: parse_fed_envelope_def fed_envelope_entries_def result_simps)

lemma parse_fed_envelope_complete:
  "wf_payload nfc (FedEnvelope x) \<Longrightarrow> agree (drop 2 (schema_keys (FedEnvelope x))) flds (fed_envelope_entries x) \<Longrightarrow>
   parse_fed_envelope flds = Inr x"
  by (simp add: parse_fed_envelope_def fed_envelope_entries_def result_simps not_less)

lemma parse_registration_challenge_sound:
  "parse_registration_challenge flds = Inr x \<Longrightarrow>
   wf_payload nfc (RegistrationChallenge x) \<and> agree (drop 2 (schema_keys (RegistrationChallenge x))) flds (registration_challenge_entries x)"
  by (auto simp: parse_registration_challenge_def registration_challenge_entries_def result_simps)

lemma parse_registration_challenge_complete:
  "wf_payload nfc (RegistrationChallenge x) \<Longrightarrow> agree (drop 2 (schema_keys (RegistrationChallenge x))) flds (registration_challenge_entries x) \<Longrightarrow>
   parse_registration_challenge flds = Inr x"
  by (simp add: parse_registration_challenge_def registration_challenge_entries_def result_simps not_less)

lemma parse_prior_home_challenge_sound:
  "parse_prior_home_challenge flds = Inr x \<Longrightarrow>
   wf_payload nfc (PriorHomeChallenge x) \<and> agree (drop 2 (schema_keys (PriorHomeChallenge x))) flds (prior_home_challenge_entries x)"
  by (auto simp: parse_prior_home_challenge_def prior_home_challenge_entries_def result_simps)

lemma parse_prior_home_challenge_complete:
  "wf_payload nfc (PriorHomeChallenge x) \<Longrightarrow> agree (drop 2 (schema_keys (PriorHomeChallenge x))) flds (prior_home_challenge_entries x) \<Longrightarrow>
   parse_prior_home_challenge flds = Inr x"
  by (simp add: parse_prior_home_challenge_def prior_home_challenge_entries_def result_simps not_less)

lemma parse_prior_home_response_sound:
  "parse_prior_home_response flds = Inr x \<Longrightarrow>
   wf_payload nfc (PriorHomeResponse x) \<and> agree (drop 2 (schema_keys (PriorHomeResponse x))) flds (prior_home_response_entries x)"
  by (auto simp: parse_prior_home_response_def prior_home_response_entries_def result_simps)

lemma parse_prior_home_response_complete:
  "wf_payload nfc (PriorHomeResponse x) \<Longrightarrow> agree (drop 2 (schema_keys (PriorHomeResponse x))) flds (prior_home_response_entries x) \<Longrightarrow>
   parse_prior_home_response flds = Inr x"
  by (simp add: parse_prior_home_response_def prior_home_response_entries_def result_simps not_less)

lemma parse_thread_create_sound:
  "parse_thread_create flds = Inr x \<Longrightarrow>
   wf_payload nfc (ThreadCreate x) \<and> agree (drop 2 (schema_keys (ThreadCreate x))) flds (thread_create_entries x)"
  by (auto simp: parse_thread_create_def thread_create_entries_def result_simps)

lemma parse_thread_create_complete:
  "wf_payload nfc (ThreadCreate x) \<Longrightarrow> agree (drop 2 (schema_keys (ThreadCreate x))) flds (thread_create_entries x) \<Longrightarrow>
   parse_thread_create flds = Inr x"
  by (simp add: parse_thread_create_def thread_create_entries_def result_simps not_less)

lemma parse_user_status_sound:
  "parse_user_status flds = Inr x \<Longrightarrow>
   wf_payload nfc (UserStatus x) \<and> agree (drop 2 (schema_keys (UserStatus x))) flds (user_status_entries x)"
  by (auto simp: parse_user_status_def user_status_entries_def result_simps dest: user_status_parse_Some)

lemma parse_user_status_complete:
  "wf_payload nfc (UserStatus x) \<Longrightarrow> agree (drop 2 (schema_keys (UserStatus x))) flds (user_status_entries x) \<Longrightarrow>
   parse_user_status flds = Inr x"
  by (simp add: parse_user_status_def user_status_entries_def result_simps not_less) auto

lemma parse_deactivation_sound:
  "parse_deactivation flds = Inr x \<Longrightarrow>
   wf_payload nfc (Deactivation x) \<and> agree (drop 2 (schema_keys (Deactivation x))) flds (deactivation_entries x)"
  by (auto simp: parse_deactivation_def deactivation_entries_def result_simps)

lemma parse_deactivation_complete:
  "wf_payload nfc (Deactivation x) \<Longrightarrow> agree (drop 2 (schema_keys (Deactivation x))) flds (deactivation_entries x) \<Longrightarrow>
   parse_deactivation flds = Inr x"
  by (simp add: parse_deactivation_def deactivation_entries_def result_simps not_less)

lemma parse_thread_status_sound:
  "parse_thread_status flds = Inr x \<Longrightarrow>
   wf_payload nfc (ThreadStatus x) \<and> agree (drop 2 (schema_keys (ThreadStatus x))) flds (thread_status_entries x)"
  by (auto simp: parse_thread_status_def thread_status_entries_def result_simps dest: thread_status_parse_Some)

lemma parse_thread_status_complete:
  "wf_payload nfc (ThreadStatus x) \<Longrightarrow> agree (drop 2 (schema_keys (ThreadStatus x))) flds (thread_status_entries x) \<Longrightarrow>
   parse_thread_status flds = Inr x"
  by (simp add: parse_thread_status_def thread_status_entries_def result_simps not_less)

lemma parse_report_sound:
  "parse_report flds = Inr x \<Longrightarrow>
   wf_payload nfc (Report x) \<and> agree (drop 2 (schema_keys (Report x))) flds (report_entries x)"
  by (auto simp: parse_report_def report_entries_def result_simps dest: report_reason_parse_Some)

lemma parse_report_complete:
  "wf_payload nfc (Report x) \<Longrightarrow> agree (drop 2 (schema_keys (Report x))) flds (report_entries x) \<Longrightarrow>
   parse_report flds = Inr x"
  by (simp add: parse_report_def report_entries_def result_simps not_less)

lemma parse_post_revision_sound:
  assumes "parse_post_revision nfc flds = Inr x"
  shows "wf_payload nfc (PostRevision x)"
    and "agree [''post_id'', ''author'', ''thread_id'', ''revision'', ''body'', ''created_at'', ''parent_id''] flds
      (post_revision_entries x)"
    and "nested_known flds \<Longrightarrow> agree [''attachments''] flds (post_revision_entries x)"
proof -
  let ?K = "[''post_id'', ''author'', ''thread_id'', ''revision'', ''body'', ''created_at'', ''parent_id'']"
  obtain atts where at: "(if flds KEY_ATTACHMENTS \<noteq> None then parse_attachments nfc flds else Inr []) = Inr atts"
    "attachments x = atts"
    and rest: "length (pr_post_id x) = 16" "length (pr_author x) = 32" "length (pr_thread_id x) = 16"
      "opt_len 16 (parent_id x)" "agree ?K flds (post_revision_entries x)"
    using assms by (auto simp: parse_post_revision_def post_revision_entries_def result_simps key_defs)
  show "agree ?K flds (post_revision_entries x)" by (rule rest(5))
  show "wf_payload nfc (PostRevision x)"
    using at rest parse_attachments_sound(2,3) [of nfc flds atts] by (auto split: if_splits)
  assume "nested_known flds"
  then show "agree [''attachments''] flds (post_revision_entries x)"
    using at parse_attachments_sound(1,4) [of nfc flds atts]
    by (auto simp: post_revision_entries_def key_defs split: if_splits)
qed

lemma parse_post_revision_complete:
  assumes "wf_payload nfc (PostRevision x)" "agree (drop 2 (schema_keys (PostRevision x))) flds (post_revision_entries x)"
  shows "parse_post_revision nfc flds = Inr x"
proof -
  have f: "flds KEY_ATTACHMENTS = (if attachments x = [] then None else Some (attachments_to_cbor (attachments x)))"
    using assms(2) by (simp add: post_revision_entries_def key_defs)
  then have "(if flds KEY_ATTACHMENTS \<noteq> None then parse_attachments nfc flds else Inr []) = Inr (attachments x)"
    using assms(1) parse_attachments_complete [of flds "attachments x" nfc] by simp
  with assms show ?thesis
    by (simp add: parse_post_revision_def) (simp add: post_revision_entries_def result_simps key_defs)
qed

lemma parse_move_sound:
  assumes "parse_move flds = Inr x"
  shows "wf_payload nfc (Move x)"
    and "agree [''key'', ''to_instance_key'', ''to_instance'', ''created_at'', ''genesis_at'', ''from_instance_key'',
       ''from_instance'', ''prior_move_hash''] flds (move_entries x)"
    and "nested_known flds \<Longrightarrow> agree [''genesis_attestation''] flds (move_entries x)"
proof -
  let ?K = "[''key'', ''to_instance_key'', ''to_instance'', ''created_at'', ''genesis_at'', ''from_instance_key'',
       ''from_instance'', ''prior_move_hash'']"
  obtain att where a: "parse_genesis_attestation flds (mv_key x) (genesis_at x) = Inr att" "genesis_attestation x = att"
    and rest: "length (mv_key x) = 32" "opt_len 32 (from_instance_key x)" "length (to_instance_key x) = 32"
      "from_instance_key x = None \<longleftrightarrow> from_instance x = None" "opt_len 32 (prior_move_hash x)"
      "from_instance_key x = None \<longrightarrow> prior_move_hash x = None" "agree ?K flds (move_entries x)"
    using assms
    by (auto simp: parse_move_def move_entries_def result_simps opt_len_def split: if_splits)
  show "agree ?K flds (move_entries x)" by (rule rest(7))
  show "wf_payload nfc (Move x)"
    using a rest parse_genesis_attestation_sound(1-3) [of flds "mv_key x" "genesis_at x" att] by simp
  assume "nested_known flds"
  then show "agree [''genesis_attestation''] flds (move_entries x)"
    using a parse_genesis_attestation_sound(4) [of flds "mv_key x" "genesis_at x" att]
    by (simp add: move_entries_def)
qed

lemma parse_move_complete:
  assumes "wf_payload nfc (Move x)" "agree (drop 2 (schema_keys (Move x))) flds (move_entries x)"
  shows "parse_move flds = Inr x"
proof -
  have "flds ''genesis_attestation'' = Some (genesis_attestation_to_cbor (genesis_attestation x))"
    using assms(2) by (simp add: move_entries_def)
  with assms(1) parse_genesis_attestation_complete [of flds "genesis_attestation x"]
  have "parse_genesis_attestation flds (mv_key x) (genesis_at x) = Inr (genesis_attestation x)" by simp
  with assms show ?thesis
    by (cases "from_instance_key x"; cases "from_instance x")
       (simp_all add: parse_move_def result_simps, simp_all add: move_entries_def opt_len_def)
qed

section \<open>All classes\<close>

lemma schema_keys_nodup: "distinct (map fst (payload_entries p))"
proof (cases p)
  case (PostRevision x)
  then show ?thesis by (cases "parent_id x") (simp_all add: post_revision_entries_def key_defs)
next
  case (TrustEdge x)
  then show ?thesis by (cases "prior_edge_hash x") (simp_all add: trust_edge_entries_def)
next
  case (ProfileRevision x)
  then show ?thesis
    by (cases "avatar_attachment_hash x"; cases "prior_profile_hash x") (simp_all add: profile_revision_entries_def)
next
  case (Move x)
  then show ?thesis
    by (cases "prior_move_hash x"; cases "from_instance_key x"; cases "from_instance x") (simp_all add: move_entries_def)
next
  case (AdminRemoval x)
  then show ?thesis by (cases "ar_reason x") (simp_all add: admin_removal_entries_def)
next
  case (FedEnvelope x)
  then show ?thesis by (cases "body_hash x") (simp_all add: fed_envelope_entries_def)
next
  case (ThreadCreate x)
  then show ?thesis by (cases "link_url x") (simp_all add: thread_create_entries_def)
next
  case (UserStatus x)
  then show ?thesis
    by (cases "suspended_until x"; cases "us_reason x"; cases "us_prior_status_hash x") (simp_all add: user_status_entries_def)
next
  case (ThreadStatus x)
  then show ?thesis by (cases "ts_reason x"; cases "ts_prior_status_hash x") (simp_all add: thread_status_entries_def)
next
  case (Report x)
  then show ?thesis by (cases "detail x") (simp_all add: report_entries_def)
qed (simp_all add: entries_defs)

lemma fst_opt_entry: "fst ` set (opt_entry k f x) \<subseteq> S \<longleftrightarrow> x = None \<or> k \<in> S"
  by (cases x) simp_all

lemma payload_entries_schema: "fst ` set (payload_entries p) \<subseteq> set (schema_keys p)"
proof (cases p)
  case (Move x)
  then show ?thesis
    by (cases "from_instance_key x"; cases "from_instance x") (simp_all add: move_entries_def fst_opt_entry)
qed (simp_all add: entries_defs key_defs image_Un fst_opt_entry)

lemma tag_version_entry: "map_of (payload_entries p) ''v'' = Some (v_uint V1)"
  by (cases p) (simp_all add: entries_defs)

fun class_tag :: "SignedPayload \<Rightarrow> string" where
  "class_tag (PostRevision p) = TAG_POST_REVISION"
| "class_tag (Retraction r) = TAG_RETRACTION"
| "class_tag (TrustEdge e) = TAG_TRUST_EDGE"
| "class_tag (ProfileRevision p) = TAG_PROFILE"
| "class_tag (Move m) = TAG_MOVE"
| "class_tag (AdminRemoval a) = TAG_ADMIN_REMOVAL"
| "class_tag (FedEnvelope e) = TAG_FED_ENVELOPE"
| "class_tag (RegistrationChallenge c) = TAG_REGISTRATION_CHALLENGE"
| "class_tag (PriorHomeChallenge c) = TAG_PRIOR_HOME_CHALLENGE"
| "class_tag (PriorHomeResponse r) = TAG_PRIOR_HOME_RESPONSE"
| "class_tag (ThreadCreate t) = TAG_THREAD_CREATE"
| "class_tag (UserStatus s) = TAG_USER_STATUS"
| "class_tag (Deactivation d) = TAG_DEACTIVATION"
| "class_tag (ThreadStatus s) = TAG_THREAD_STATUS"
| "class_tag (Report r) = TAG_REPORT"

lemma tag_entry: "map_of (payload_entries p) ''t'' = Some (VText (class_tag p))"
  by (cases p) (simp_all add: entries_defs)

lemmas parse_complete = parse_post_revision_complete parse_retraction_complete parse_trust_edge_complete
  parse_profile_revision_complete parse_move_complete parse_admin_removal_complete parse_fed_envelope_complete
  parse_registration_challenge_complete parse_prior_home_challenge_complete parse_prior_home_response_complete
  parse_thread_create_complete parse_user_status_complete parse_deactivation_complete
  parse_thread_status_complete parse_report_complete

lemma agree_drop: "agree ks flds es \<Longrightarrow> agree (drop n ks) flds es"
  by (auto simp: agree_def list_all_iff dest: in_set_dropD)

lemma parse_class_complete:
  assumes "wf_payload nfc p" "agree (schema_keys p) flds (payload_entries p)"
  shows "parse_class nfc flds (class_tag p) V1 = Inr p"
  using assms(1) agree_drop [OF assms(2), of 2]
  by (cases p)
     (simp_all del: wf_payload.simps schema_keys.simps add: parse_class_def parse_as_def require_version_def tag_defs,
      simp_all only: parse_complete payload_entries.simps andthen_simps)

lemma schema_has_tag: "{''t'', ''v''} \<subseteq> set (schema_keys p)"
  by (cases p) simp_all

lemma parse_value_complete:
  assumes "wf_payload nfc p" "sorted_wrt (<) (ranks kvs)" "agree (schema_keys p) (map_of kvs) (payload_entries p)"
  shows "parse_value nfc (VMap (text_entries kvs)) = Inr p"
proof -
  have "collect_fields (text_entries kvs) = Inr (map_of kvs)"
    using assms(2) by (auto simp: collect_fields_Inr)
  moreover have "map_of kvs ''t'' = Some (VText (class_tag p))" "map_of kvs ''v'' = Some (v_uint V1)"
    using assms(3) schema_has_tag [of p] tag_entry [of p] tag_version_entry [of p]
    by (auto simp: agree_def list_all_iff)
  then have "field_text (map_of kvs) ''t'' = Inr (class_tag p)" "field_uint (map_of kvs) ''v'' = Inr V1"
    by (simp_all add: result_simps)
  ultimately show ?thesis
    using parse_class_complete [OF assms(1,3)] by (simp add: parse_value_def)
qed

lemma strict_sort_entries:
  assumes "distinct (map fst es)"
  shows "sorted_wrt (<) (ranks (sort_entries es))"
  using collect_fields_build [OF assms] assms
  by (auto simp: collect_fields_Inr text_entries_def inj_on_def dest!: inj_onD)

end
