(* ===== verification/Signed_Verify.thy ===== *)
theory Signed_Verify
  imports Signed_Wf
begin

text \<open>
  \<open>SignedPayload::parse\<close> as the inverse of \<open>SignedPayload::encode\<close>, and \<open>verify\<close> with its per-class
  identity binding. Ed25519 (\<open>ed25519_dalek\<close>) is the parameter \<open>ed_verify key message signature\<close>.
\<close>

section \<open>verify\<close>

fun identity_binding :: "SignedPayload \<Rightarrow> bytes option" where
  "identity_binding (PostRevision p) = Some (pr_author p)"
| "identity_binding (Retraction r) = Some (rt_author r)"
| "identity_binding (TrustEdge e) = Some (from_key e)"
| "identity_binding (ProfileRevision p) = Some (pf_user p)"
| "identity_binding (Move m) = Some (mv_key m)"
| "identity_binding (Deactivation d) = Some (da_user d)"
| "identity_binding (ThreadCreate t) = Some (tc_author t)"
| "identity_binding (Report r) = Some (reporter r)"
| "identity_binding (RegistrationChallenge c) = Some (user_key c)"
| "identity_binding (PriorHomeResponse r) = Some (phr_subject_key r)"
| "identity_binding (FedEnvelope e) = Some (sender e)"
| "identity_binding (PriorHomeChallenge c) = Some (responder_instance_key c)"
| "identity_binding (AdminRemoval _) = None"
| "identity_binding (UserStatus _) = None"
| "identity_binding (ThreadStatus _) = None"

definition map_err :: "('e \<Rightarrow> 'f) \<Rightarrow> 'e + 'a \<Rightarrow> 'f + 'a" where
  "map_err f r = (case r of Inl e \<Rightarrow> Inl (f e) | Inr x \<Rightarrow> Inr x)"

definition verify ::
  "(nat list \<Rightarrow> nat list) \<Rightarrow> (cbor_value \<Rightarrow> bytes option) \<Rightarrow> (bytes \<Rightarrow> cbor_value option)
   \<Rightarrow> (bytes \<Rightarrow> bytes \<Rightarrow> bytes \<Rightarrow> bool) \<Rightarrow> bytes \<Rightarrow> bytes \<Rightarrow> bytes \<Rightarrow> VerifyError + SignedPayload" where
  "verify nfc ser de ed_verify payload_bytes signature_bytes claimed_key =
     andthen (guard (length signature_bytes = 64) BadSignatureLength) (\<lambda>_.
     andthen (map_err Parse (parse nfc ser de payload_bytes)) (\<lambda>payload.
     andthen (guard (\<not> (case identity_binding payload of
                          None \<Rightarrow> False | Some identity_key \<Rightarrow> identity_key \<noteq> claimed_key)) AuthorMismatch) (\<lambda>_.
     andthen (guard (ed_verify claimed_key payload_bytes signature_bytes) SignatureFailed) (\<lambda>_.
     Inr payload))))"

lemma map_err_Inr [result_simps]: "map_err f r = Inr x \<longleftrightarrow> r = Inr x"
  by (cases r) (simp_all add: map_err_def)

lemma map_err_Inl [result_simps]: "map_err f r = Inl e \<longleftrightarrow> (\<exists>e'. r = Inl e' \<and> e = f e')"
  by (cases r) (auto simp: map_err_def)

section \<open>What the parser accepts\<close>

lemma parse_as_Inr [result_simps]:
  "parse_as tag v r con = Inr p \<longleftrightarrow> v = V1 \<and> (\<exists>x. r = Inr x \<and> p = con x)"
  by (auto simp: parse_as_def require_version_def result_simps split: if_splits)

lemma parse_class_Inr:
  assumes "parse_class nfc flds t v = Inr p"
  shows "v = V1" "t = class_tag p"
    "case p of
       PostRevision x \<Rightarrow> parse_post_revision nfc flds = Inr x
     | Retraction x \<Rightarrow> parse_retraction flds = Inr x
     | TrustEdge x \<Rightarrow> parse_trust_edge flds = Inr x
     | ProfileRevision x \<Rightarrow> parse_profile_revision flds = Inr x
     | Move x \<Rightarrow> parse_move flds = Inr x
     | AdminRemoval x \<Rightarrow> parse_admin_removal flds = Inr x
     | FedEnvelope x \<Rightarrow> parse_fed_envelope flds = Inr x
     | RegistrationChallenge x \<Rightarrow> parse_registration_challenge flds = Inr x
     | PriorHomeChallenge x \<Rightarrow> parse_prior_home_challenge flds = Inr x
     | PriorHomeResponse x \<Rightarrow> parse_prior_home_response flds = Inr x
     | ThreadCreate x \<Rightarrow> parse_thread_create flds = Inr x
     | UserStatus x \<Rightarrow> parse_user_status flds = Inr x
     | Deactivation x \<Rightarrow> parse_deactivation flds = Inr x
     | ThreadStatus x \<Rightarrow> parse_thread_status flds = Inr x
     | Report x \<Rightarrow> parse_report flds = Inr x"
  using assms unfolding parse_class_def parse_as_Inr
  by (auto simp: parse_as_Inr split: if_split_asm)

lemmas class_sound = parse_retraction_sound parse_trust_edge_sound parse_profile_revision_sound
  parse_admin_removal_sound parse_fed_envelope_sound parse_registration_challenge_sound
  parse_prior_home_challenge_sound parse_prior_home_response_sound parse_thread_create_sound
  parse_user_status_sound parse_deactivation_sound parse_thread_status_sound parse_report_sound

definition nested_keys :: "string list" where
  "nested_keys = [''attachments'', ''genesis_attestation'']"

definition flat_keys :: "SignedPayload \<Rightarrow> string list" where
  "flat_keys p = filter (\<lambda>k. k \<notin> set nested_keys) (schema_keys p)"

lemma parse_class_sound:
  assumes "parse_class nfc flds t v = Inr p" "flds ''t'' = Some (VText t)" "flds ''v'' = Some (v_uint v)"
  shows "wf_payload nfc p" "agree (flat_keys p) flds (payload_entries p)"
    "nested_known flds \<Longrightarrow> agree (schema_keys p) flds (payload_entries p)"
proof -
  note i = parse_class_Inr [OF assms(1)]
  have tv: "agree [''v'', ''t''] flds (payload_entries p)"
    using assms(2,3) i(1,2) by (simp add: tag_entry tag_version_entry)
  have "wf_payload nfc p \<and> agree (flat_keys p) flds (payload_entries p)
     \<and> (nested_known flds \<longrightarrow> agree (schema_keys p) flds (payload_entries p))"
  proof (cases p)
    case (PostRevision x)
    with i(3) have "parse_post_revision nfc flds = Inr x" by simp
    from parse_post_revision_sound [OF this] tv PostRevision show ?thesis
      by (simp add: flat_keys_def nested_keys_def del: wf_payload.simps)
  next
    case (Move x)
    with i(3) have "parse_move flds = Inr x" by simp
    from parse_move_sound [OF this] tv Move show ?thesis
      by (simp add: flat_keys_def nested_keys_def del: wf_payload.simps)
  qed (use i(3) tv in
        \<open>auto simp: flat_keys_def nested_keys_def simp del: wf_payload.simps dest!: class_sound [where nfc = nfc]\<close>)
  then show "wf_payload nfc p" "agree (flat_keys p) flds (payload_entries p)"
    "nested_known flds \<Longrightarrow> agree (schema_keys p) flds (payload_entries p)" by blast+
qed

text \<open>No key of the decoded value is outside the schema, at the top level and in the nested maps.\<close>

definition only_known :: "SignedPayload \<Rightarrow> cbor_value \<Rightarrow> bool" where
  "only_known p v \<longleftrightarrow> known_keys (schema_keys p) v \<and>
     (case v of VMap m \<Rightarrow>
        list_all (\<lambda>(k, x).
          (k = VText ''attachments'' \<longrightarrow>
             (case x of VArray items \<Rightarrow> list_all (known_keys attachment_keys) items | _ \<Rightarrow> True))
        \<and> (k = VText ''genesis_attestation'' \<longrightarrow> known_keys attestation_keys x)) m
      | _ \<Rightarrow> True)"

lemma only_known_nested:
  assumes "only_known p (VMap (text_entries kvs))"
  shows "nested_known (map_of kvs)"
proof -
  have "(VText k, x) \<in> set (text_entries kvs)" if "map_of kvs k = Some x" for k x
    using map_of_SomeD [OF that] by (force simp: text_entries_def)
  with assms have
    at: "\<And>x. map_of kvs ''attachments'' = Some x \<Longrightarrow>
      (case x of VArray items \<Rightarrow> list_all (known_keys attachment_keys) items | _ \<Rightarrow> True)" and
    ge: "\<And>x. map_of kvs ''genesis_attestation'' = Some x \<Longrightarrow> known_keys attestation_keys x"
    unfolding only_known_def list_all_iff by fastforce+
  show ?thesis
    unfolding nested_known_def
    using at ge by (cases "map_of kvs ''attachments''"; cases "map_of kvs ''genesis_attestation''") simp_all
qed

lemma parse_value_Inr:
  assumes "parse_value nfc v = Inr p"
  obtains kvs where "v = VMap (text_entries kvs)" "sorted_wrt (<) (ranks kvs)" "wf_payload nfc p"
    "agree (flat_keys p) (map_of kvs) (payload_entries p)"
    "nested_known (map_of kvs) \<longrightarrow> agree (schema_keys p) (map_of kvs) (payload_entries p)"
proof -
  obtain m flds t ver where v: "v = VMap m" and c: "collect_fields m = Inr flds"
    and t: "flds ''t'' = Some (VText t)" "flds ''v'' = Some (v_uint ver)" and p: "parse_class nfc flds t ver = Inr p"
    using assms by (cases v) (auto simp: parse_value_def result_simps)
  from c obtain kvs where k: "m = text_entries kvs" "sorted_wrt (<) (ranks kvs)" "flds = map_of kvs"
    by (auto simp: collect_fields_Inr)
  with v t p show thesis using that parse_class_sound [of nfc flds t ver p] by simp
qed

lemma parse_Inr:
  "parse nfc ser de b = Inr p \<longleftrightarrow> (\<exists>v. de b = Some v \<and> ser v = Some b \<and> parse_value nfc v = Inr p)"
  by (auto simp: parse_def result_simps)

section \<open>Typed payloads are values of the codec\<close>

definition typed_entries :: "nat \<Rightarrow> (string \<times> cbor_value) list \<Rightarrow> bool" where
  "typed_entries d es \<longleftrightarrow> length es < 2 ^ 64 \<and> list_all (\<lambda>(k, v). rust_string k \<and> payload_value d v) es"

lemma payload_value_uint [simp]: "payload_value d (v_uint n)"
  using uint_bounded [of n] by (simp add: v_uint_def)

lemma payload_value_text [simp]: "payload_value d (VText s) \<longleftrightarrow> rust_string s"
  by (simp add: rust_string_def)

declare payload_value.simps(3) [simp del]

lemma payload_value_map: "typed_entries d es \<Longrightarrow> payload_value (Suc d) (build_map es)"
  unfolding typed_entries_def
  by (rule payload_value_build_map) (auto simp: list_all_iff rust_string_def)

lemma ascii_rust_string: "list_all (\<lambda>c. of_char c < (0x80 :: nat)) s \<Longrightarrow> length s < 2 ^ 64 \<Longrightarrow> rust_string s"
  using chars_ascii [of s] by (simp add: rust_string_def)

lemma schema_keys_rust: "list_all rust_string (schema_keys p)"
proof -
  have "list_all (list_all (\<lambda>c. of_char c < (0x80 :: nat))) (schema_keys p)"
    "list_all (\<lambda>k. length k < 2 ^ 64) (schema_keys p)"
    by (cases p; simp)+
  then show ?thesis by (auto simp: list_all_iff intro!: ascii_rust_string)
qed

lemma class_tag_rust: "rust_string (class_tag p)"
  by (rule ascii_rust_string; cases p; simp add: tag_defs)

lemma enum_rust [simp]:
  "rust_string (stance_as_str a)" "rust_string (user_status_as_str b)"
  "rust_string (thread_status_as_str c)" "rust_string (report_reason_as_str d)"
  subgoal by (rule ascii_rust_string; cases a; simp)
  subgoal by (rule ascii_rust_string; cases b; simp)
  subgoal by (rule ascii_rust_string; cases c; simp)
  subgoal by (rule ascii_rust_string; cases d; simp)
  done

definition values_ok :: "nat \<Rightarrow> (string \<times> cbor_value) list \<Rightarrow> bool" where
  "values_ok d es \<longleftrightarrow> list_all (\<lambda>e. payload_value d (snd e)) es"

lemma values_ok_simps [simp]:
  "values_ok d []"
  "values_ok d ((k, v) # es) \<longleftrightarrow> payload_value d v \<and> values_ok d es"
  "values_ok d (es @ fs) \<longleftrightarrow> values_ok d es \<and> values_ok d fs"
  by (simp_all add: values_ok_def)

lemma values_ok_opt [simp]:
  "values_ok d (opt_entry k f x) \<longleftrightarrow> (case x of None \<Rightarrow> True | Some y \<Rightarrow> payload_value d (f y))"
  by (cases x) simp_all

lemma opt_list_rust: "list_all rust_string (opt_list x) \<Longrightarrow> (case x of None \<Rightarrow> True | Some s \<Rightarrow> payload_value d (VText s))"
  by (cases x) (simp_all add: opt_list_def)

lemma attachment_ref_value:
  assumes "wf_attachment_ref nfc r" "rust_string (filename r)" "rust_string (mime r)"
  shows "payload_value (Suc d) (attachment_ref_to_cbor r)"
  unfolding attachment_ref_to_cbor_def
proof (rule payload_value_map)
  have "rust_string KEY_ATTACHMENT_CONTENT_HASH" "rust_string KEY_ATTACHMENT_FILENAME"
    "rust_string KEY_ATTACHMENT_MIME" "rust_string KEY_ATTACHMENT_SIZE"
    by (rule ascii_rust_string; simp add: key_defs)+
  with assms show "typed_entries d (attachment_ref_entries r)"
    by (simp add: typed_entries_def attachment_ref_entries_def wf_attachment_ref_def)
qed

lemma attestation_value:
  assumes "wf_genesis_attestation a"
  shows "payload_value (Suc d) (genesis_attestation_to_cbor a)"
  unfolding genesis_attestation_to_cbor_def
proof (rule payload_value_map)
  have "rust_string ''key''" "rust_string ''genesis_at''" "rust_string ''birth_instance_key''" "rust_string ''sig''"
    by (rule ascii_rust_string; simp)+
  with assms show "typed_entries d (genesis_attestation_entries a)"
    by (simp add: typed_entries_def genesis_attestation_entries_def wf_genesis_attestation_def)
qed

lemma attachments_value:
  assumes "list_all (wf_attachment_ref nfc) rs" "length rs \<le> MAX_ATTACHMENTS_PER_OP"
    "list_all rust_string (concat (map (\<lambda>r. [filename r, mime r]) rs))"
  shows "payload_value (Suc (Suc d)) (attachments_to_cbor rs)"
  using assms attachment_ref_value [of nfc]
  by (auto simp: attachments_to_cbor_def list_all_iff MAX_ATTACHMENTS_PER_OP_def)

lemma payload_values_ok:
  assumes "wf_payload nfc p" "typed_payload p"
  shows "values_ok (Suc (Suc d)) (payload_entries p)"
proof -
  have tag: "rust_string (class_tag p)" by (rule class_tag_rust)
  show ?thesis
  proof (cases p)
    case (PostRevision x)
    with assms tag show ?thesis
      by (simp add: post_revision_entries_def typed_payload_def opt_len_def attachments_value [of nfc]
          split: option.splits)
  next
    case (Move x)
    with assms tag show ?thesis
      by (cases "from_instance_key x"; cases "from_instance x")
         (simp_all add: move_entries_def typed_payload_def opt_list_def attestation_value opt_len_def
            split: option.splits)
  qed (use assms tag in \<open>simp_all add: entries_defs typed_payload_def opt_len_def opt_list_rust split: option.splits\<close>)
qed

lemma payload_typed_entries:
  assumes "wf_payload nfc p" "typed_payload p"
  shows "typed_entries 15 (payload_entries p)"
proof -
  have ok: "values_ok 15 (payload_entries p)" using payload_values_ok [OF assms, of 13] by simp
  have "rust_string k" if "(k, v) \<in> set (payload_entries p)" for k v
  proof -
    from that have "k \<in> fst ` set (payload_entries p)" by force
    with payload_entries_schema schema_keys_rust show ?thesis by (auto simp: list_all_iff)
  qed
  moreover have "length (payload_entries p) < 2 ^ 64"
    by (cases p) (simp_all add: entries_defs opt_entry_def split: option.splits)
  ultimately show ?thesis
    using ok by (auto simp: typed_entries_def values_ok_def list_all_iff)
qed

lemma payload_value_top: "typed_entries 15 es \<Longrightarrow> payload_value max_depth (build_map es)"
  using payload_value_map [of 15 es] by (simp add: max_depth_def)

lemma length_payload_entries: "length (payload_entries p) \<le> 11"
  by (cases p) (simp_all add: entries_defs opt_entry_def split: option.splits)

section \<open>Round trip and injectivity\<close>

lemma encode_total:
  assumes "cbor_codec ser de" "wf_payload nfc p" "typed_payload p"
  obtains b where "encode ser p = Some b" "de b = Some (to_cbor_value p)" "parse nfc ser de b = Inr p"
proof -
  from cbor_codec.round_trip [OF assms(1) payload_value_top [OF payload_typed_entries [OF assms(2,3)]]]
  obtain b where b: "ser (to_cbor_value p) = Some b" "de b = Some (to_cbor_value p)"
    by (auto simp: to_cbor_value_entries)
  have "agree (schema_keys p) (map_of (sort_entries (payload_entries p))) (payload_entries p)"
    by (simp add: agree_def list_all_iff map_of_sort_entries [OF schema_keys_nodup])
  then have "parse_value nfc (to_cbor_value p) = Inr p"
    using assms(2) strict_sort_entries [OF schema_keys_nodup]
    by (simp only: to_cbor_value_entries build_map_text_entries parse_value_complete)
  with b that show thesis by (simp add: encode_def parse_Inr)
qed

text \<open>C1. Every well-formed payload encodes, and parsing its encoding gives the payload back, for each of
  the fifteen classes and any codec with the round-trip law.\<close>

theorem parse_encode:
  assumes "cbor_codec ser de" "wf_payload nfc p" "typed_payload p"
  shows "\<exists>b. encode ser p = Some b \<and> parse nfc ser de b = Inr p"
  using encode_total [OF assms] by blast

definition sample_deactivation :: SignedPayload where
  "sample_deactivation = Deactivation \<lparr>da_user = replicate 32 7, da_created_at = 1700000000\<rparr>"

lemma sample_deactivation_ok: "wf_payload nfc sample_deactivation" "typed_payload sample_deactivation"
  by (simp_all add: sample_deactivation_def typed_payload_def)

theorem parse_encode_witness:
  "\<exists>b. encode rfc_ser sample_deactivation = Some b \<and> parse id rfc_ser rfc_de b = Inr sample_deactivation"
  by (rule parse_encode [OF rfc.cbor_codec_axioms sample_deactivation_ok])

text \<open>C2. Two different well-formed payloads never have the same signed bytes, whatever their classes: a
  signature over one is never a signature over another.\<close>

theorem encode_injective:
  assumes "cbor_codec ser de" "wf_payload nfc p" "typed_payload p" "wf_payload nfc q" "typed_payload q"
  shows "encode ser p = encode ser q \<longleftrightarrow> p = q"
proof -
  from encode_total [OF assms(1-3)] obtain b where b: "encode ser p = Some b" "parse nfc ser de b = Inr p" by blast
  from encode_total [OF assms(1,4,5)] obtain c where c: "encode ser q = Some c" "parse nfc ser de c = Inr q" by blast
  from b c show ?thesis by auto
qed

definition sample_retraction :: SignedPayload where
  "sample_retraction =
     Retraction \<lparr>rt_post_id = replicate 16 1, rt_author = replicate 32 7, rt_created_at = 1700000000\<rparr>"

lemma sample_retraction_ok: "wf_payload nfc sample_retraction" "typed_payload sample_retraction"
  by (simp_all add: sample_retraction_def typed_payload_def)

theorem encode_injective_witness:
  "encode rfc_ser sample_deactivation \<noteq> encode rfc_ser sample_retraction"
  using encode_injective [OF rfc.cbor_codec_axioms sample_deactivation_ok sample_retraction_ok]
  by (simp add: sample_deactivation_def sample_retraction_def)

text \<open>C3. Whatever \<open>parse\<close> accepts is the codec's own encoding of a map with text keys in strictly
  increasing canonical order; the payload it returns satisfies its class's schema, and at every
  non-nested schema key the map holds exactly what the encoder would write for that payload.\<close>

theorem parse_sound:
  assumes "parse nfc ser de b = Inr p"
  shows "wf_payload nfc p \<and>
    (\<exists>kvs. de b = Some (VMap (text_entries kvs)) \<and> ser (VMap (text_entries kvs)) = Some b
       \<and> sorted_wrt (<) (ranks kvs) \<and> agree (flat_keys p) (map_of kvs) (payload_entries p))"
proof -
  from assms obtain v where v: "de b = Some v" "ser v = Some b" "parse_value nfc v = Inr p" by (auto simp: parse_Inr)
  from v(3) obtain kvs where "v = VMap (text_entries kvs)" "sorted_wrt (<) (ranks kvs)" "wf_payload nfc p"
    "agree (flat_keys p) (map_of kvs) (payload_entries p)" by (rule parse_value_Inr)
  with v show ?thesis by blast
qed

lemma sample_parses:
  obtains b where "parse id rfc_ser rfc_de b = Inr sample_deactivation"
    "rfc_de b = Some (to_cbor_value sample_deactivation)" "encode rfc_ser sample_deactivation = Some b"
  using encode_total [OF rfc.cbor_codec_axioms sample_deactivation_ok] by metis

theorem parse_sound_witness:
  "\<exists>b. parse id rfc_ser rfc_de b = Inr sample_deactivation \<and> wf_payload id sample_deactivation"
proof -
  obtain b where b: "parse id rfc_ser rfc_de b = Inr sample_deactivation" by (rule sample_parses)
  from parse_sound [OF b] b show ?thesis by blast
qed

text \<open>C4. If the decoded map has no key outside the schema, the accepted bytes are the ones \<open>encode\<close>
  produces for the returned payload: there is no second wire form.\<close>

theorem parse_canonical:
  assumes "parse nfc ser de b = Inr p" "de b = Some v" "only_known p v"
  shows "encode ser p = Some b"
proof -
  from assms have v: "ser v = Some b" "parse_value nfc v = Inr p" by (auto simp: parse_Inr)
  from v(2) obtain kvs where k: "v = VMap (text_entries kvs)" "sorted_wrt (<) (ranks kvs)" "wf_payload nfc p"
    "agree (flat_keys p) (map_of kvs) (payload_entries p)"
    "nested_known (map_of kvs) \<longrightarrow> agree (schema_keys p) (map_of kvs) (payload_entries p)" by (rule parse_value_Inr)
  have "agree (schema_keys p) (map_of kvs) (payload_entries p)"
    using k(5) only_known_nested [of p kvs] assms(3) k(1) by blast
  moreover have "fst ` set kvs \<subseteq> set (schema_keys p)"
    using assms(3) by (simp add: k(1) only_known_def text_entries_known)
  ultimately have "v = build_map (payload_entries p)"
    unfolding k(1) using k(2) schema_keys_nodup payload_entries_schema by (intro known_agree_eq) auto
  with v(1) show ?thesis by (simp add: encode_def to_cbor_value_entries)
qed

lemma sample_only_known: "only_known sample_deactivation (to_cbor_value sample_deactivation)"
  unfolding only_known_def to_cbor_value_entries build_map_text_entries text_entries_known
  by (simp add: list_all_iff text_entries_def) (simp add: sample_deactivation_def deactivation_entries_def)

theorem parse_canonical_witness:
  "\<exists>b. parse id rfc_ser rfc_de b = Inr sample_deactivation \<and> encode rfc_ser sample_deactivation = Some b"
proof -
  obtain b where b: "parse id rfc_ser rfc_de b = Inr sample_deactivation"
    "rfc_de b = Some (to_cbor_value sample_deactivation)" by (rule sample_parses)
  from parse_canonical [OF b sample_only_known] b(1) show ?thesis by blast
qed

text \<open>An unknown key is not rejected: for every well-formed payload and every key outside its schema
  there are accepted bytes that carry the key, parse to that payload, and differ from its encoding.\<close>

theorem parse_accepts_unknown_key:
  assumes "cbor_codec ser de" "wf_payload nfc p" "typed_payload p"
    and "k \<notin> set (schema_keys p)" "rust_string k"
  shows "\<exists>b kvs. parse nfc ser de b = Inr p \<and> de b = Some (VMap (text_entries kvs)) \<and> k \<in> fst ` set kvs
    \<and> encode ser p \<noteq> Some b"
proof -
  let ?es = "payload_entries p @ [(k, VBytes [])]"
  let ?kvs = "sort_entries ?es"
  have k: "k \<notin> fst ` set (payload_entries p)" using assms(4) payload_entries_schema by blast
  then have d: "distinct (map fst ?es)" using schema_keys_nodup by simp
  have "typed_entries 15 ?es"
    using payload_typed_entries [OF assms(2,3)] assms(5) length_payload_entries [of p]
    by (simp add: typed_entries_def)
  from cbor_codec.round_trip [OF assms(1) payload_value_top [OF this]]
  obtain b where b: "ser (build_map ?es) = Some b" "de b = Some (build_map ?es)" by blast
  have "agree (schema_keys p) (map_of ?kvs) (payload_entries p)"
    using assms(4) by (auto simp: agree_def list_all_iff map_of_sort_entries [OF d] map_add_def split: option.splits)
  then have "parse_value nfc (build_map ?es) = Inr p"
    using parse_value_complete [OF assms(2) strict_sort_entries [OF d]] by (simp add: build_map_text_entries)
  with b have "parse nfc ser de b = Inr p" by (simp add: parse_Inr)
  moreover have "encode ser p \<noteq> Some b"
  proof
    assume "encode ser p = Some b"
    then have "to_cbor_value p = build_map ?es"
      using encode_total [OF assms(1-3)] b(2) by fastforce
    from arg_cong [OF this, of "\<lambda>v. case v of VMap m \<Rightarrow> length m | _ \<Rightarrow> 0"] show False
      by (simp add: to_cbor_value_entries build_map_def)
  qed
  moreover have "k \<in> fst ` set ?kvs" by simp
  moreover have "de b = Some (VMap (text_entries ?kvs))" using b(2) by (simp only: build_map_text_entries)
  ultimately show ?thesis by blast
qed

theorem parse_accepts_unknown_key_witness:
  "\<exists>b kvs. parse id rfc_ser rfc_de b = Inr sample_deactivation \<and> rfc_de b = Some (VMap (text_entries kvs))
    \<and> ''extra'' \<in> fst ` set kvs \<and> encode rfc_ser sample_deactivation \<noteq> Some b"
  by (rule parse_accepts_unknown_key [OF rfc.cbor_codec_axioms sample_deactivation_ok])
     (simp_all add: sample_deactivation_def ascii_rust_string)

section \<open>verify\<close>

lemma verify_Inr:
  "verify nfc ser de ed b sig key = Inr p \<longleftrightarrow>
     length sig = 64 \<and> parse nfc ser de b = Inr p \<and> identity_binding p \<in> {None, Some key} \<and> ed key b sig"
  by (auto simp: verify_def result_simps split: option.splits)

text \<open>What was signed verifies: for a signing function whose 64-byte output the verifier accepts, the
  encoding of a well-formed payload verifies under the key the payload names as its author, and the
  payload comes back.\<close>

theorem verify_signed:
  assumes "cbor_codec ser de" "wf_payload nfc p" "typed_payload p"
    and "\<And>m. length (sign m) = 64 \<and> ed key m (sign m)"
    and "identity_binding p \<in> {None, Some key}"
  shows "\<exists>b. encode ser p = Some b \<and> verify nfc ser de ed b (sign b) key = Inr p"
proof -
  from encode_total [OF assms(1-3)] obtain b where "encode ser p = Some b" "parse nfc ser de b = Inr p" by blast
  with assms(4,5) show ?thesis by (auto simp: verify_Inr)
qed

theorem verify_signed_witness:
  "\<exists>b. encode rfc_ser sample_retraction = Some b \<and>
     verify id rfc_ser rfc_de (\<lambda>k m s. s = replicate 64 (hd k)) b (replicate 64 7) (replicate 32 7)
       = Inr sample_retraction"
  by (rule verify_signed [OF rfc.cbor_codec_axioms sample_retraction_ok,
        where sign = "\<lambda>_. replicate 64 7"])
     (simp_all add: sample_retraction_def)

text \<open>Accepted bytes have one author: if the same bytes verify under two keys, with whatever
  signatures, then both calls return the same payload, each signature verifies under its own key, and
  the keys are equal unless the class is one of the three that name their signer by domain.\<close>

theorem verify_unique_signer:
  assumes "verify nfc ser de ed b sig key = Inr p" "verify nfc ser de ed b sig' key' = Inr p'"
  shows "p = p' \<and> ed key b sig \<and> ed key' b sig' \<and> wf_payload nfc p
    \<and> (key = key' \<or> class_tag p \<in> {TAG_ADMIN_REMOVAL, TAG_USER_STATUS, TAG_THREAD_STATUS})"
proof -
  from assms have p: "parse nfc ser de b = Inr p" "p = p'" "identity_binding p \<in> {None, Some key}"
    "identity_binding p \<in> {None, Some key'}" "ed key b sig" "ed key' b sig'" by (auto simp: verify_Inr)
  from p(1) have "wf_payload nfc p" by (auto simp: parse_Inr elim: parse_value_Inr)
  moreover have "identity_binding p = None \<Longrightarrow>
      class_tag p \<in> {TAG_ADMIN_REMOVAL, TAG_USER_STATUS, TAG_THREAD_STATUS}"
    by (cases p) simp_all
  ultimately show ?thesis using p by auto
qed

lemma sample_verifies:
  obtains b where "verify id rfc_ser rfc_de (\<lambda>k m s. s = replicate 64 (hd k)) b (replicate 64 7) (replicate 32 7)
    = Inr sample_deactivation"
proof -
  obtain b where "parse id rfc_ser rfc_de b = Inr sample_deactivation" by (rule sample_parses)
  then have "verify id rfc_ser rfc_de (\<lambda>k m s. s = replicate 64 (hd k)) b (replicate 64 7) (replicate 32 7)
    = Inr sample_deactivation" by (simp add: verify_Inr) (simp add: sample_deactivation_def)
  then show thesis by (rule that)
qed

theorem verify_unique_signer_witness:
  "\<exists>b. verify id rfc_ser rfc_de (\<lambda>k m s. s = replicate 64 (hd k)) b (replicate 64 7) (replicate 32 7)
     = Inr sample_deactivation \<and> wf_payload id sample_deactivation"
proof -
  obtain b where b: "verify id rfc_ser rfc_de (\<lambda>k m s. s = replicate 64 (hd k)) b (replicate 64 7) (replicate 32 7)
    = Inr sample_deactivation" by (rule sample_verifies)
  from verify_unique_signer [OF b b] b show ?thesis by blast
qed

section \<open>Errors\<close>

definition no_dup :: "ParseError + 'a \<Rightarrow> bool" where
  "no_dup r \<longleftrightarrow> (\<forall>k. r \<noteq> Inl (DuplicateKey k))"

lemma no_dup_simps [simp]:
  "no_dup (Inr x)"
  "no_dup (Inl e) \<longleftrightarrow> (\<forall>k. e \<noteq> DuplicateKey k)"
  by (simp_all add: no_dup_def)

lemma no_dup_andthen: "no_dup r \<Longrightarrow> (\<And>x. no_dup (f x)) \<Longrightarrow> no_dup (andthen r f)"
  by (auto simp: no_dup_def result_simps)

lemma no_dup_collect_from: "below lk flds \<Longrightarrow> no_dup (collect_from lk flds es)"
proof (induction es arbitrary: lk flds)
  case (Cons e es)
  obtain k v where e: "e = (k, v)" by (cases e)
  show ?case
  proof (cases k)
    case (VText s)
    show ?thesis
    proof (cases "\<exists>l. lk = Some l \<and> cbor_text_key_cmp l s \<noteq> Less")
      case False
      then have "\<And>l. lk = Some l \<Longrightarrow> key_rank l < key_rank s" by (simp add: cbor_text_key_cmp_Less)
      with Cons.prems have "flds s = None" "below (Some s) (flds(s \<mapsto> v))" using below_step by blast+
      with Cons.IH VText e show ?thesis by (auto simp: no_dup_def split: option.splits)
    qed (auto simp: e VText no_dup_def)
  qed (simp_all add: e no_dup_def)
qed simp

lemma no_dup_field [simp]:
  "no_dup (collect_fields es)" "no_dup (field_text flds k)" "no_dup (field_uint flds k)"
  "no_dup (field_bytes_fixed n flds k)" "no_dup (guard c e) \<longleftrightarrow> c \<or> (\<forall>k. e \<noteq> DuplicateKey k)"
  "no_dup (ok_or x e) \<longleftrightarrow> x \<noteq> None \<or> (\<forall>k. e \<noteq> DuplicateKey k)"
  subgoal by (simp add: collect_fields_def no_dup_collect_from below_def)
  subgoal by (auto simp: field_text_def no_dup_def result_simps split: cbor_value.splits)
  subgoal by (auto simp: field_uint_def no_dup_def result_simps split: cbor_value.splits if_splits)
  subgoal by (auto simp: field_bytes_fixed_def no_dup_def result_simps split: cbor_value.splits if_splits)
  subgoal by (auto simp: no_dup_def guard_def)
  subgoal by (cases x) (auto simp: no_dup_def)
  done

lemma no_dup_opt_field: "(\<And>f k. no_dup (get f k)) \<Longrightarrow> no_dup (opt_field get flds k)"
  by (auto simp: opt_field_def intro!: no_dup_andthen)

lemma no_dup_map_result: "(\<And>x. no_dup (f x)) \<Longrightarrow> no_dup (map_result f xs)"
  by (induction xs) (auto intro!: no_dup_andthen)

lemma no_dup_as_map: "(\<forall>k. e \<noteq> DuplicateKey k) \<Longrightarrow> no_dup (case v of VMap m \<Rightarrow> Inr m | _ \<Rightarrow> Inl e)"
  by (cases v) (simp_all add: no_dup_def)

lemma no_dup_as_array: "(\<forall>k. e \<noteq> DuplicateKey k) \<Longrightarrow> no_dup (case v of VArray m \<Rightarrow> Inr m | _ \<Rightarrow> Inl e)"
  by (cases v) (simp_all add: no_dup_def)

lemmas no_dup_intros = no_dup_andthen no_dup_opt_field no_dup_map_result no_dup_as_map no_dup_as_array

lemma no_dup_nested [simp]:
  "no_dup (parse_attachments nfc flds)" "no_dup (parse_genesis_attestation flds key gen_at)" "no_dup (field_detail flds k)"
proof -
  have "no_dup (parse_attachment_ref nfc v)" for v
    unfolding parse_attachment_ref_def by (intro no_dup_intros) simp_all
  then show "no_dup (parse_attachments nfc flds)"
    unfolding parse_attachments_def by (intro no_dup_intros) simp_all
  show "no_dup (parse_genesis_attestation flds key gen_at)"
    unfolding parse_genesis_attestation_def by (intro no_dup_intros) simp_all
  show "no_dup (field_detail flds k)"
    unfolding field_detail_def by (intro no_dup_intros) simp_all
qed

lemmas parse_defs = parse_post_revision_def parse_retraction_def parse_trust_edge_def
  parse_profile_revision_def parse_admin_removal_def parse_fed_envelope_def
  parse_registration_challenge_def parse_prior_home_challenge_def parse_prior_home_response_def
  parse_thread_create_def parse_user_status_def parse_deactivation_def parse_thread_status_def
  parse_report_def

lemma no_dup_parse_as: "no_dup r \<Longrightarrow> no_dup (parse_as tag ver r con)"
  unfolding parse_as_def
  by (intro no_dup_intros) (simp_all add: require_version_def no_dup_def)

lemma no_dup_classes [simp]:
  "no_dup (parse_post_revision nfc flds)" "no_dup (parse_retraction flds)" "no_dup (parse_trust_edge flds)"
  "no_dup (parse_profile_revision flds)" "no_dup (parse_admin_removal flds)" "no_dup (parse_fed_envelope flds)"
  "no_dup (parse_registration_challenge flds)" "no_dup (parse_prior_home_challenge flds)"
  "no_dup (parse_prior_home_response flds)" "no_dup (parse_thread_create flds)" "no_dup (parse_user_status flds)"
  "no_dup (parse_deactivation flds)" "no_dup (parse_thread_status flds)" "no_dup (parse_report flds)"
  unfolding parse_defs by (intro no_dup_intros; simp)+

lemma no_dup_move [simp]: "no_dup (parse_move flds)"
  unfolding parse_move_def
  by (intro no_dup_intros) (auto intro!: no_dup_intros simp: case_prod_unfold)

text \<open>The \<open>DuplicateKey\<close> branches are dead: a repeated key ranks equal to its predecessor or below an
  earlier one, so the key-order check before them always reports \<open>KeysOutOfOrder\<close>.\<close>

theorem parse_never_duplicate_key: "parse nfc ser de b \<noteq> Inl (DuplicateKey k)"
proof -
  have cls: "no_dup (parse_class nfc flds t ver)" for flds t ver
    by (simp add: parse_class_def no_dup_parse_as)
  have "no_dup (parse_value nfc v)" for v
    unfolding parse_value_def by (intro no_dup_intros cls) simp_all
  then have "no_dup (parse nfc ser de b)"
    unfolding parse_def by (intro no_dup_intros) simp_all
  then show ?thesis by (simp add: no_dup_def)
qed

section \<open>Key order\<close>

definition wire_key :: "string \<Rightarrow> nat list" where
  "wire_key s = map unat (the (rfc_ser (VText s)))"

lemma wire_key_short:
  assumes "length s < 24"
  shows "wire_key s = (96 + length s) # str_bytes s"
proof -
  have "unat (word_of_nat (96 + length s) :: u8) = 96 + length s"
    using assms by (simp add: unat_of_nat del: of_nat_add)
  moreover have "unat (word_of_nat (of_char c) :: u8) = of_char c" for c :: char
    by (simp add: unat_of_nat)
  ultimately show ?thesis
    using assms
    by (simp add: wire_key_def rfc_ser_def enc_head_def text_bytes_def str_bytes_def max_depth_def
        del: of_nat_add)
qed

text \<open>On keys under 24 bytes the comparison of the source is the bytewise order of their RFC 8949
  encodings, the canonical map order.\<close>

theorem key_order_is_bytewise:
  assumes "length a < 24" "length b < 24"
  shows "cbor_text_key_cmp a b = cmp (wire_key a) (wire_key b)"
  using assms by (auto simp: cbor_text_key_cmp_def wire_key_short cmp_def)

theorem key_order_is_bytewise_witness:
  "cbor_text_key_cmp ''v'' ''bio'' = cmp (wire_key ''v'') (wire_key ''bio'') \<and> cbor_text_key_cmp ''v'' ''bio'' = Less"
  using key_order_is_bytewise [of "''v''" "''bio''"] by (simp add: cbor_text_key_cmp_def cmp_def)

end
