(* ===== verification/Outbound_Queue.thy ===== *)
theory Outbound_Queue
  imports Cbor "HOL-Library.AList" "HOL-Library.Multiset"
begin

text \<open>
  \<open>server/src/federation/outbound_queue.rs\<close>: the per-peer outbound queues, their eviction rules and
  byte accounting, the operations of the drain worker, and the worker itself as a step relation.

  A \<open>HashMap<[u8; 32], PeerQueue>\<close> is an association list; the unspecified order in which the standard
  library iterates over it is the parameter \<open>iter\<close>. Instants and durations are naturals
  (nanoseconds). \<open>usize\<close> byte counts are naturals: they are sums of lengths of live buffers, which
  stay below the address space. \<open>saturating_sub\<close> is subtraction of naturals.
\<close>

section \<open>Data\<close>

definition MAX_CONTENT_BATCH_OUTBOUND :: nat where
  "MAX_CONTENT_BATCH_OUTBOUND = 64"

record BackoffPolicy =
  bo_initial :: nat
  bo_max :: nat

record OutboundQueueConfig =
  cfg_total_bytes :: nat
  bytes_per_peer :: nat
  objects_per_peer :: nat
  object_max_age :: nat
  max_batch :: nat
  backoff :: BackoffPolicy

record QueuedObject =
  qo_path :: string
  body_key :: string
  wire_bytes :: bytes
  enqueued_at :: nat

record PeerQueue =
  items :: "QueuedObject list"
  pq_bytes :: nat
  wake :: bool
  worker_spawned :: bool
  in_flight :: bool
  stopped :: bool

text \<open>The field \<open>wake\<close> is the permit that \<open>Notify::notify_one\<close> stores and \<open>notified().await\<close> consumes.\<close>

definition PeerQueue_new :: PeerQueue where
  "PeerQueue_new = \<lparr>items = [], pq_bytes = 0, wake = False, worker_spawned = False,
     in_flight = False, stopped = False\<rparr>"

type_synonym peer_pk = bytes

record OutboundQueuesState =
  peers :: "(peer_pk \<times> PeerQueue) list"
  total_bytes :: nat

definition OutboundQueues_new :: OutboundQueuesState where
  "OutboundQueues_new = \<lparr>peers = [], total_bytes = 0\<rparr>"

definition get_peer :: "OutboundQueuesState \<Rightarrow> peer_pk \<Rightarrow> PeerQueue option" where
  "get_peer st pk = map_of (peers st) pk"

definition set_peer :: "OutboundQueuesState \<Rightarrow> peer_pk \<Rightarrow> PeerQueue \<Rightarrow> OutboundQueuesState" where
  "set_peer st pk q = st\<lparr>peers := AList.update pk q (peers st)\<rparr>"

section \<open>enqueue\<close>

text \<open>Step 1: drop the oldest objects of this peer until the new one fits its two caps. The result is the
  remaining queue, its byte count, and the bytes freed.\<close>

fun peer_cap_loop ::
  "OutboundQueueConfig \<Rightarrow> nat \<Rightarrow> QueuedObject list \<Rightarrow> nat \<Rightarrow> nat \<Rightarrow> QueuedObject list \<times> nat \<times> nat" where
  "peer_cap_loop cfg object_bytes [] b freed = ([], b, freed)"
| "peer_cap_loop cfg object_bytes (x # xs) b freed =
     (if length (x # xs) + 1 > objects_per_peer cfg \<or> b + object_bytes > bytes_per_peer cfg
      then peer_cap_loop cfg object_bytes xs (b - length (wire_bytes x)) (freed + length (wire_bytes x))
      else (x # xs, b, freed))"

text \<open>\<open>Iterator::max_by_key\<close> returns the last of the maximal elements.\<close>

fun max_by_key :: "('a \<Rightarrow> nat) \<Rightarrow> 'a list \<Rightarrow> 'a option" where
  "max_by_key f [] = None"
| "max_by_key f (x # xs) =
     (case max_by_key f xs of None \<Rightarrow> Some x | Some y \<Rightarrow> if f y \<ge> f x then Some y else Some x)"

definition largest_peer ::
  "((peer_pk \<times> PeerQueue) list \<Rightarrow> (peer_pk \<times> PeerQueue) list) \<Rightarrow> (peer_pk \<times> PeerQueue) list \<Rightarrow> peer_pk option" where
  "largest_peer iter ps =
     map_option fst (max_by_key (\<lambda>e. pq_bytes (snd e)) (filter (\<lambda>e. items (snd e) \<noteq> []) (iter ps)))"

definition total_items :: "(peer_pk \<times> PeerQueue) list \<Rightarrow> nat" where
  "total_items ps = (\<Sum>e\<leftarrow>ps. length (items (snd e)))"

definition wire_sum :: "QueuedObject list \<Rightarrow> nat" where
  "wire_sum xs = (\<Sum>x\<leftarrow>xs. length (wire_bytes x))"

datatype cap_result =
    Fits OutboundQueuesState
  | NoRoom OutboundQueuesState
  | CapPanic

lemma update_split:
  "map_of ps k = Some q \<Longrightarrow>
   \<exists>as bs. ps = as @ (k, q) # bs \<and> k \<notin> fst ` set as \<and> AList.update k q' ps = as @ (k, q') # bs"
proof (induction ps)
  case (Cons e ps)
  obtain k0 q0 where e: "e = (k0, q0)" by (cases e)
  show ?case
  proof (cases "k0 = k")
    case True
    with Cons.prems e show ?thesis by (intro exI [of _ "[]"] exI [of _ ps]) simp
  next
    case False
    with Cons.prems e have "map_of ps k = Some q" by simp
    from Cons.IH [OF this] obtain as bs where
      "ps = as @ (k, q) # bs" "k \<notin> fst ` set as" "AList.update k q' ps = as @ (k, q') # bs" by blast
    with False e show ?thesis by (intro exI [of _ "e # as"] exI [of _ bs]) simp
  qed
qed simp

lemma total_items_pop:
  assumes "map_of ps k = Some q" "items q = x # xs" "items q' = xs"
  shows "total_items (AList.update k q' ps) < total_items ps"
proof -
  from update_split [OF assms(1), of q'] obtain as bs where
    "ps = as @ (k, q) # bs" "AList.update k q' ps = as @ (k, q') # bs" by blast
  with assms(2,3) show ?thesis by (simp add: total_items_def)
qed

text \<open>Step 2: evict from the peer with the most bytes until the new object fits the process-wide cap. The
  two \<open>expect\<close> calls of the source are the \<open>CapPanic\<close> branches.\<close>

function global_cap_loop ::
  "((peer_pk \<times> PeerQueue) list \<Rightarrow> (peer_pk \<times> PeerQueue) list) \<Rightarrow> nat \<Rightarrow> nat \<Rightarrow> OutboundQueuesState \<Rightarrow> cap_result" where
  "global_cap_loop iter cap object_bytes st =
     (if \<not> total_bytes st + object_bytes > cap then Fits st
      else (case largest_peer iter (peers st) of
        None \<Rightarrow> NoRoom st
      | Some pk \<Rightarrow> (case map_of (peers st) pk of
          None \<Rightarrow> CapPanic
        | Some q \<Rightarrow> (case items q of
            [] \<Rightarrow> CapPanic
          | x # xs \<Rightarrow>
              global_cap_loop iter cap object_bytes
                \<lparr>peers = AList.update pk (q\<lparr>items := xs, pq_bytes := pq_bytes q - length (wire_bytes x)\<rparr>) (peers st),
                 total_bytes = total_bytes st - length (wire_bytes x)\<rparr>))))"
  by pat_completeness auto
termination
  by (relation "measure (\<lambda>(_, _, _, st). total_items (peers st))") (auto intro: total_items_pop)

declare global_cap_loop.simps [simp del]

datatype enqueue_result =
    Enqueued OutboundQueuesState bool
  | Discarded OutboundQueuesState
  | EnqueuePanic

text \<open>The result of \<open>enqueue\<close> is the state under the lock: \<open>Enqueued st spawn_needed\<close> continues with
  \<open>spawn_drain_worker\<close> (when needed) and \<open>notify_one\<close>; \<open>Discarded\<close> is either early return.\<close>

definition enqueue ::
  "OutboundQueueConfig \<Rightarrow> ((peer_pk \<times> PeerQueue) list \<Rightarrow> (peer_pk \<times> PeerQueue) list) \<Rightarrow> nat
   \<Rightarrow> peer_pk \<Rightarrow> string \<Rightarrow> string \<Rightarrow> bytes \<Rightarrow> OutboundQueuesState \<Rightarrow> enqueue_result" where
  "enqueue cfg iter now pk path key wire st =
     (let object_bytes = length wire;
          object = \<lparr>qo_path = path, body_key = key, wire_bytes = wire, enqueued_at = now\<rparr>;
          st0 = (if get_peer st pk = None then set_peer st pk PeerQueue_new else st)
      in case get_peer st0 pk of
        None \<Rightarrow> EnqueuePanic
      | Some q0 \<Rightarrow>
          let (xs, b, freed) = peer_cap_loop cfg object_bytes (items q0) (pq_bytes q0) 0;
              q1 = q0\<lparr>items := xs, pq_bytes := b\<rparr>;
              st1 = (set_peer st0 pk q1)\<lparr>total_bytes := total_bytes st0 - freed\<rparr>
          in if xs = [] \<and> object_bytes > bytes_per_peer cfg then Discarded st1
             else (case global_cap_loop iter (cfg_total_bytes cfg) object_bytes st1 of
               CapPanic \<Rightarrow> EnqueuePanic
             | NoRoom st2 \<Rightarrow> Discarded st2
             | Fits st2 \<Rightarrow> (case get_peer st2 pk of
                 None \<Rightarrow> EnqueuePanic
               | Some q2 \<Rightarrow>
                   let q3 = q2\<lparr>items := items q2 @ [object], pq_bytes := pq_bytes q2 + object_bytes,
                               worker_spawned := True\<rparr>
                   in Enqueued ((set_peer st2 pk q3)\<lparr>total_bytes := total_bytes st2 + object_bytes\<rparr>)
                        (\<not> worker_spawned q2))))"

section \<open>The other operations\<close>

definition is_idle_now :: "OutboundQueuesState \<Rightarrow> bool" where
  "is_idle_now st = list_all (\<lambda>e. items (snd e) = [] \<and> \<not> in_flight (snd e)) (peers st)"

definition depth_for :: "OutboundQueuesState \<Rightarrow> peer_pk \<Rightarrow> nat \<times> nat" where
  "depth_for st pk = (case get_peer st pk of Some q \<Rightarrow> (length (items q), pq_bytes q) | None \<Rightarrow> (0, 0))"

text \<open>\<open>drop_peer\<close> under the lock; the boolean says whether \<open>notify_one\<close> follows.\<close>

definition drop_peer :: "peer_pk \<Rightarrow> OutboundQueuesState \<Rightarrow> OutboundQueuesState \<times> bool" where
  "drop_peer pk st = (case get_peer st pk of
     None \<Rightarrow> (st, False)
   | Some q \<Rightarrow> (set_peer st pk (q\<lparr>stopped := True\<rparr>), True))"

definition notify_one :: "peer_pk \<Rightarrow> OutboundQueuesState \<Rightarrow> OutboundQueuesState" where
  "notify_one pk st = (case get_peer st pk of None \<Rightarrow> st | Some q \<Rightarrow> set_peer st pk (q\<lparr>wake := True\<rparr>))"

text \<open>The loop of \<open>take_batch\<close>: remaining queue, byte count, batch, and stale bytes.\<close>

fun take_loop ::
  "OutboundQueueConfig \<Rightarrow> nat \<Rightarrow> QueuedObject list \<Rightarrow> nat \<Rightarrow> QueuedObject list \<Rightarrow> (string \<times> string) option \<Rightarrow> nat
   \<Rightarrow> QueuedObject list \<times> nat \<times> QueuedObject list \<times> nat" where
  "take_loop cfg now [] b batch route stale = ([], b, batch, stale)"
| "take_loop cfg now (x # xs) b batch route stale =
     (if \<not> length batch < max_batch cfg then (x # xs, b, batch, stale)
      else if now - enqueued_at x > object_max_age cfg
      then take_loop cfg now xs (b - length (wire_bytes x)) batch route (stale + length (wire_bytes x))
      else if route \<noteq> None \<and> route \<noteq> Some (qo_path x, body_key x) then (x # xs, b, batch, stale)
      else take_loop cfg now xs (b - length (wire_bytes x)) (batch @ [x])
             (Some (qo_path x, body_key x)) stale)"

definition take_batch ::
  "OutboundQueueConfig \<Rightarrow> nat \<Rightarrow> peer_pk \<Rightarrow> OutboundQueuesState \<Rightarrow> OutboundQueuesState \<times> QueuedObject list" where
  "take_batch cfg now pk st = (case get_peer st pk of
     None \<Rightarrow> (st, [])
   | Some q \<Rightarrow>
       let (xs, b, batch, stale) = take_loop cfg now (items q) (pq_bytes q) [] None 0;
           q1 = q\<lparr>items := xs, pq_bytes := b\<rparr>;
           st1 = (set_peer st pk q1)\<lparr>total_bytes := total_bytes st - stale\<rparr>
       in if batch = [] then (st1, [])
          else ((set_peer st1 pk (q1\<lparr>in_flight := True\<rparr>))\<lparr>total_bytes := total_bytes st1 - wire_sum batch\<rparr>, batch))"

definition requeue_front :: "peer_pk \<Rightarrow> QueuedObject list \<Rightarrow> OutboundQueuesState \<Rightarrow> OutboundQueuesState" where
  "requeue_front pk batch st = (case get_peer st pk of
     None \<Rightarrow> st
   | Some q \<Rightarrow>
       let q1 = fold (\<lambda>x q. q\<lparr>items := x # items q\<rparr>) (rev batch) q;
           refund = wire_sum (rev batch)
       in (set_peer st pk (q1\<lparr>pq_bytes := pq_bytes q1 + refund\<rparr>))\<lparr>total_bytes := total_bytes st + refund\<rparr>)"

definition mark_in_flight_false :: "peer_pk \<Rightarrow> OutboundQueuesState \<Rightarrow> OutboundQueuesState" where
  "mark_in_flight_false pk st = (case get_peer st pk of
     None \<Rightarrow> st | Some q \<Rightarrow> set_peer st pk (q\<lparr>in_flight := False\<rparr>))"

definition mark_idle :: "peer_pk \<Rightarrow> OutboundQueuesState \<Rightarrow> OutboundQueuesState" where
  "mark_idle pk st = (case get_peer st pk of
     None \<Rightarrow> st | Some q \<Rightarrow> set_peer st pk (q\<lparr>in_flight := False\<rparr>))"

definition check_and_remove_if_stopped :: "peer_pk \<Rightarrow> OutboundQueuesState \<Rightarrow> OutboundQueuesState \<times> bool" where
  "check_and_remove_if_stopped pk st = (case get_peer st pk of
     None \<Rightarrow> (st, True)
   | Some q \<Rightarrow>
       if \<not> stopped q then (st, False)
       else (\<lparr>peers = AList.delete pk (peers st), total_bytes = total_bytes st - pq_bytes q\<rparr>, True))"

section \<open>Dispatch\<close>

datatype DispatchOutcome = Success | Terminal4xx nat | Transient

definition is_success :: "nat \<Rightarrow> bool" where "is_success s \<longleftrightarrow> 200 \<le> s \<and> s < 300"
definition is_client_error :: "nat \<Rightarrow> bool" where "is_client_error s \<longleftrightarrow> 400 \<le> s \<and> s < 500"
definition is_server_error :: "nat \<Rightarrow> bool" where "is_server_error s \<longleftrightarrow> 500 \<le> s \<and> s < 600"

text \<open>The match on the transport's reply; \<open>None\<close> is a transport error.\<close>

definition dispatch_outcome :: "nat option \<Rightarrow> DispatchOutcome" where
  "dispatch_outcome reply = (case reply of
     None \<Rightarrow> Transient
   | Some status \<Rightarrow>
       if is_success status then Success
       else if status = 429 \<or> is_server_error status then Transient
       else if is_client_error status then Terminal4xx status
       else Transient)"

definition encode_batch_body :: "(cbor_value \<Rightarrow> bytes option) \<Rightarrow> string \<Rightarrow> bytes list \<Rightarrow> bytes option" where
  "encode_batch_body ser key wires = ser (VMap [(VText key, VArray (map VBytes wires))])"

text \<open>The backoff after a transient failure; \<open>mul\<close> stands for \<open>Duration::mul_f64(multiplier)\<close>.\<close>

definition next_backoff :: "BackoffPolicy \<Rightarrow> (nat \<Rightarrow> nat) \<Rightarrow> nat \<Rightarrow> nat" where
  "next_backoff bo mul cur = min (mul cur) (bo_max bo)"

text \<open>Full jitter with a floor; \<open>scaled\<close> is the random fraction of \<open>current\<close>.\<close>

definition jitter_full :: "nat \<Rightarrow> nat \<Rightarrow> nat" where
  "jitter_full scaled current = max scaled (max (current div 10) 1000000)"

section \<open>Accounting\<close>

definition q_ok :: "PeerQueue \<Rightarrow> bool" where
  "q_ok q \<longleftrightarrow> pq_bytes q = wire_sum (items q)"

definition byte_sum :: "(peer_pk \<times> PeerQueue) list \<Rightarrow> nat" where
  "byte_sum ps = (\<Sum>e\<leftarrow>ps. pq_bytes (snd e))"

definition accounted :: "OutboundQueuesState \<Rightarrow> bool" where
  "accounted st \<longleftrightarrow> distinct (map fst (peers st)) \<and> list_all (\<lambda>e. q_ok (snd e)) (peers st)
     \<and> total_bytes st = byte_sum (peers st)"

lemma wire_sum_simps [simp]:
  "wire_sum [] = 0"
  "wire_sum (x # xs) = length (wire_bytes x) + wire_sum xs"
  "wire_sum (xs @ ys) = wire_sum xs + wire_sum ys"
  "wire_sum (rev xs) = wire_sum xs"
  by (simp_all add: wire_sum_def rev_map [symmetric] sum_list_rev)

lemma get_set_peer [simp]:
  "get_peer (set_peer st pk q) pk' = (if pk' = pk then Some q else get_peer st pk')"
  unfolding get_peer_def set_peer_def by (simp add: AList.update_conv')

lemma get_peer_total [simp]: "get_peer (st\<lparr>total_bytes := n\<rparr>) = get_peer st"
  by (simp add: get_peer_def fun_eq_iff)

lemma total_set_peer [simp]: "total_bytes (set_peer st pk q) = total_bytes st"
  by (simp add: set_peer_def)

lemma accounted_peer: "accounted st \<Longrightarrow> get_peer st pk = Some q \<Longrightarrow> q_ok q \<and> pq_bytes q \<le> total_bytes st"
proof -
  assume a: "accounted st" and g: "get_peer st pk = Some q"
  then have m: "(pk, q) \<in> set (peers st)" by (simp add: get_peer_def map_of_SomeD)
  then have "pq_bytes q \<in> set (map (\<lambda>e. pq_bytes (snd e)) (peers st))" by force
  then have "pq_bytes q \<le> byte_sum (peers st)" unfolding byte_sum_def by (rule member_le_sum_list) simp
  with a m show ?thesis by (auto simp: accounted_def list_all_iff)
qed

text \<open>Replacing one queue moves the process total by the difference of its byte counts.\<close>

lemma accounted_replace:
  assumes "accounted st" "get_peer st pk = Some q" "q_ok q'" "n + pq_bytes q = total_bytes st + pq_bytes q'"
  shows "accounted ((set_peer st pk q')\<lparr>total_bytes := n\<rparr>)"
proof -
  from assms(2) have "map_of (peers st) pk = Some q" by (simp add: get_peer_def)
  from update_split [OF this, of q'] obtain as bs where
    ps: "peers st = as @ (pk, q) # bs" and up: "AList.update pk q' (peers st) = as @ (pk, q') # bs" by blast
  from assms(1,3,4) show ?thesis
    unfolding accounted_def set_peer_def OutboundQueuesState.simps up
    by (auto simp: ps byte_sum_def)
qed

lemma accounted_insert:
  assumes "accounted st" "get_peer st pk = None"
  shows "accounted (set_peer st pk PeerQueue_new)"
proof -
  have n: "pk \<notin> fst ` set (peers st)" using assms(2) by (simp add: get_peer_def map_of_eq_None_iff)
  have "pk \<notin> fst ` set xs \<Longrightarrow> AList.update pk PeerQueue_new xs = xs @ [(pk, PeerQueue_new)]" for xs
    by (induction xs) auto
  from this [OF n] have "AList.update pk PeerQueue_new (peers st) = peers st @ [(pk, PeerQueue_new)]" .
  with assms n show ?thesis
    by (auto simp: accounted_def set_peer_def byte_sum_def q_ok_def PeerQueue_new_def)
qed

lemma accounted_flags:
  assumes "accounted st" "get_peer st pk = Some q" "items q' = items q" "pq_bytes q' = pq_bytes q"
  shows "accounted (set_peer st pk q')"
proof -
  have "q_ok q'" using assms accounted_peer by (simp add: q_ok_def)
  from accounted_replace [OF assms(1,2) this, of "total_bytes st"] assms(4) show ?thesis by (simp add: set_peer_def)
qed

subsection \<open>The per-peer cap\<close>

lemma peer_cap_loop_spec:
  assumes "peer_cap_loop cfg n xs b f = (ys, b', f')" "b = wire_sum xs"
  shows "\<exists>dropped. xs = dropped @ ys \<and> b' = wire_sum ys \<and> f' = f + wire_sum dropped
    \<and> (ys = [] \<or> length ys + 1 \<le> objects_per_peer cfg \<and> b' + n \<le> bytes_per_peer cfg)"
  using assms
proof (induction xs arbitrary: b f)
  case (Cons x xs)
  show ?case
  proof (cases "length (x # xs) + 1 > objects_per_peer cfg \<or> b + n > bytes_per_peer cfg")
    case True
    with Cons.prems have "peer_cap_loop cfg n xs (b - length (wire_bytes x)) (f + length (wire_bytes x)) = (ys, b', f')"
      by simp
    from Cons.IH [OF this] Cons.prems(2) obtain d where "xs = d @ ys" "b' = wire_sum ys"
      "f' = f + length (wire_bytes x) + wire_sum d"
      "ys = [] \<or> length ys + 1 \<le> objects_per_peer cfg \<and> b' + n \<le> bytes_per_peer cfg" by auto
    then show ?thesis by (intro exI [of _ "x # d"]) simp
  next
    case False
    with Cons.prems show ?thesis by (intro exI [of _ "[]"]) auto
  qed
qed simp

lemma peer_cap_loop_keeps:
  assumes "length xs + 1 \<le> objects_per_peer cfg" "b + n \<le> bytes_per_peer cfg"
  shows "peer_cap_loop cfg n xs b f = (xs, b, f)"
  using assms by (cases xs) simp_all

subsection \<open>The process-wide cap\<close>

definition iteration_order :: "((peer_pk \<times> PeerQueue) list \<Rightarrow> (peer_pk \<times> PeerQueue) list) \<Rightarrow> bool" where
  "iteration_order iter \<longleftrightarrow> (\<forall>ps. mset (iter ps) = mset ps)"

lemma max_by_key_None: "max_by_key f xs = None \<longleftrightarrow> xs = []"
  by (cases xs) (auto split: option.splits)

lemma max_by_key_Some:
  "max_by_key f xs = Some y \<Longrightarrow> y \<in> set xs \<and> (\<forall>x \<in> set xs. f x \<le> f y)"
  by (induction xs arbitrary: y) (fastforce simp: max_by_key_None split: option.splits if_splits)+

lemma largest_peer_spec:
  assumes "iteration_order iter" "distinct (map fst ps)"
  shows "largest_peer iter ps = None \<longleftrightarrow> (\<forall>e \<in> set ps. items (snd e) = [])"
    and "largest_peer iter ps = Some pk \<Longrightarrow>
      \<exists>q. map_of ps pk = Some q \<and> items q \<noteq> [] \<and> (\<forall>e \<in> set ps. items (snd e) \<noteq> [] \<longrightarrow> pq_bytes (snd e) \<le> pq_bytes q)"
proof -
  have s: "set (iter ps) = set ps" using assms(1) by (metis iteration_order_def set_mset_mset)
  show "largest_peer iter ps = None \<longleftrightarrow> (\<forall>e \<in> set ps. items (snd e) = [])"
    by (simp add: largest_peer_def max_by_key_None filter_empty_conv s)
  assume "largest_peer iter ps = Some pk"
  then obtain q where m: "max_by_key (\<lambda>e. pq_bytes (snd e)) (filter (\<lambda>e. items (snd e) \<noteq> []) (iter ps)) = Some (pk, q)"
    by (auto simp: largest_peer_def)
  from max_by_key_Some [OF m] s assms(2)
  show "\<exists>q. map_of ps pk = Some q \<and> items q \<noteq> [] \<and>
      (\<forall>e \<in> set ps. items (snd e) \<noteq> [] \<longrightarrow> pq_bytes (snd e) \<le> pq_bytes q)"
    by (intro exI [of _ q]) auto
qed

text \<open>A queue that lost some of its oldest objects and nothing else; a state in which every queue did.\<close>

definition trimmed :: "PeerQueue \<Rightarrow> PeerQueue \<Rightarrow> bool" where
  "trimmed q q' \<longleftrightarrow> (\<exists>d. items q = d @ items q') \<and> wake q' = wake q \<and> worker_spawned q' = worker_spawned q
     \<and> in_flight q' = in_flight q \<and> stopped q' = stopped q"

definition trims :: "OutboundQueuesState \<Rightarrow> OutboundQueuesState \<Rightarrow> bool" where
  "trims st st' \<longleftrightarrow> (\<forall>pk. rel_option trimmed (get_peer st pk) (get_peer st' pk))"

lemma trimmed_refl [simp]: "trimmed q q"
  by (simp add: trimmed_def)

lemma trimmed_trans: "trimmed p q \<Longrightarrow> trimmed q r \<Longrightarrow> trimmed p r"
  by (auto simp: trimmed_def)

lemma trims_refl [simp]: "trims st st"
  by (simp add: trims_def option.rel_refl)

lemma rel_trimmed_trans: "rel_option trimmed x y \<Longrightarrow> rel_option trimmed y z \<Longrightarrow> rel_option trimmed x z"
  by (cases x; cases y; cases z) (auto intro: trimmed_trans)

lemma trims_trans: "trims a b \<Longrightarrow> trims b c \<Longrightarrow> trims a c"
  unfolding trims_def by (blast intro: rel_trimmed_trans)

lemma trims_set:
  "get_peer st pk = Some q \<Longrightarrow> trimmed q q' \<Longrightarrow> trims st ((set_peer st pk q')\<lparr>total_bytes := n\<rparr>)"
  by (auto simp: trims_def option.rel_refl)

lemma trimsD: "trims st st' \<Longrightarrow> get_peer st pk = Some q \<Longrightarrow> \<exists>q'. get_peer st' pk = Some q' \<and> trimmed q q'"
  unfolding trims_def by (metis option_rel_Some1)

definition cap_ok :: "nat \<Rightarrow> nat \<Rightarrow> OutboundQueuesState \<Rightarrow> cap_result \<Rightarrow> bool" where
  "cap_ok cap n st r = (case r of
     Fits st' \<Rightarrow> accounted st' \<and> trims st st' \<and> total_bytes st' + n \<le> cap
   | NoRoom st' \<Rightarrow> accounted st' \<and> trims st st' \<and> total_bytes st' = 0 \<and> n > cap
   | CapPanic \<Rightarrow> False)"

lemma cap_ok_trans: "trims a b \<Longrightarrow> cap_ok cap n b r \<Longrightarrow> cap_ok cap n a r"
  by (auto simp: cap_ok_def split: cap_result.splits intro: trims_trans)

lemma byte_sum_zero:
  assumes "list_all (\<lambda>e. q_ok (snd e)) ps" "\<forall>e \<in> set ps. items (snd e) = []"
  shows "byte_sum ps = 0"
  using assms by (induction ps) (auto simp: byte_sum_def q_ok_def)

lemma global_cap_loop_ok:
  assumes "iteration_order iter" "accounted st"
  shows "cap_ok cap n st (global_cap_loop iter cap n st)"
  using assms
proof (induction iter cap n st rule: global_cap_loop.induct)
  case (1 iter cap n st)
  show ?case
  proof (cases "total_bytes st + n > cap")
    case False
    with "1.prems" show ?thesis by (subst global_cap_loop.simps) (simp add: cap_ok_def)
  next
    case True
    have d: "distinct (map fst (peers st))" using "1.prems" by (simp add: accounted_def)
    show ?thesis
    proof (cases "largest_peer iter (peers st)")
      case None
      with largest_peer_spec(1) [OF "1.prems"(1) d] have "\<forall>e \<in> set (peers st). items (snd e) = []" by simp
      with "1.prems" have "total_bytes st = 0" by (simp add: accounted_def byte_sum_zero)
      with None True "1.prems" show ?thesis
        by (subst global_cap_loop.simps) (simp add: cap_ok_def)
    next
      case (Some pk)
      from largest_peer_spec(2) [OF "1.prems"(1) d Some] obtain q where
        q: "map_of (peers st) pk = Some q" "items q \<noteq> []" by blast
      then obtain x xs where xs: "items q = x # xs" by (cases "items q") auto
      let ?n = "length (wire_bytes x)"
      let ?q = "q\<lparr>items := xs, pq_bytes := pq_bytes q - ?n\<rparr>"
      let ?st = "\<lparr>peers = AList.update pk ?q (peers st), total_bytes = total_bytes st - ?n\<rparr>"
      have eq: "?st = (set_peer st pk ?q)\<lparr>total_bytes := total_bytes st - ?n\<rparr>" by (simp add: set_peer_def)
      have g: "get_peer st pk = Some q" using q(1) by (simp add: get_peer_def)
      from accounted_peer [OF "1.prems"(2) g] have "pq_bytes q = ?n + wire_sum xs" "pq_bytes q \<le> total_bytes st"
        by (simp_all add: q_ok_def xs)
      then have acc: "accounted ?st"
        unfolding eq by (intro accounted_replace [OF "1.prems"(2) g]) (simp_all add: q_ok_def)
      have tr: "trims st ?st" unfolding eq by (rule trims_set [OF g]) (simp add: trimmed_def xs)
      have "global_cap_loop iter cap n st = global_cap_loop iter cap n ?st"
        using True Some q(1) xs by (subst global_cap_loop.simps) simp
      moreover have "cap_ok cap n ?st (global_cap_loop iter cap n ?st)"
        using "1.IH" [OF _ Some q(1) xs "1.prems"(1) acc] True by simp
      ultimately show ?thesis using tr by (simp add: cap_ok_trans)
    qed
  qed
qed

text \<open>When the object fits already, step 2 evicts nothing.\<close>

lemma global_cap_loop_fits: "total_bytes st + n \<le> cap \<Longrightarrow> global_cap_loop iter cap n st = Fits st"
  by (subst global_cap_loop.simps) simp

subsection \<open>enqueue\<close>

text \<open>The queue contents a peer had before, the empty queue for an unknown peer.\<close>

definition items_of :: "OutboundQueuesState \<Rightarrow> peer_pk \<Rightarrow> QueuedObject list" where
  "items_of st pk = (case get_peer st pk of None \<Rightarrow> [] | Some q \<Rightarrow> items q)"

definition suffix_of :: "'a list \<Rightarrow> 'a list \<Rightarrow> bool" where
  "suffix_of ys xs \<longleftrightarrow> (\<exists>d. xs = d @ ys)"

lemma trims_items: "trims st st' \<Longrightarrow> suffix_of (items_of st' pk) (items_of st pk)"
proof -
  assume "trims st st'"
  then have "rel_option trimmed (get_peer st pk) (get_peer st' pk)" by (simp add: trims_def)
  then show ?thesis
    by (cases "get_peer st pk"; cases "get_peer st' pk") (auto simp: items_of_def suffix_of_def trimmed_def)
qed

lemma suffix_of_length: "suffix_of ys xs \<Longrightarrow> length ys \<le> length xs \<and> wire_sum ys \<le> wire_sum xs"
  by (auto simp: suffix_of_def)

text \<open>The contract of \<open>enqueue\<close>, as a predicate on its result.\<close>

definition enqueue_ok ::
  "OutboundQueueConfig \<Rightarrow> nat \<Rightarrow> peer_pk \<Rightarrow> string \<Rightarrow> string \<Rightarrow> bytes \<Rightarrow> OutboundQueuesState \<Rightarrow> enqueue_result \<Rightarrow> bool" where
  "enqueue_ok cfg now pk path key wire st r = (case r of
     Enqueued st' spawn \<Rightarrow>
       accounted st' \<and> total_bytes st' \<le> cfg_total_bytes cfg
     \<and> (\<exists>q old. get_peer st' pk = Some q \<and> worker_spawned q
          \<and> items q = old @ [\<lparr>qo_path = path, body_key = key, wire_bytes = wire, enqueued_at = now\<rparr>]
          \<and> suffix_of old (items_of st pk) \<and> pq_bytes q \<le> bytes_per_peer cfg
          \<and> length (items q) \<le> max 1 (objects_per_peer cfg))
     \<and> (\<forall>pk'. pk' \<noteq> pk \<longrightarrow> suffix_of (items_of st' pk') (items_of st pk'))
     \<and> (spawn \<longleftrightarrow> (case get_peer st pk of None \<Rightarrow> True | Some q \<Rightarrow> \<not> worker_spawned q))
   | Discarded st' \<Rightarrow>
       accounted st' \<and> length wire > min (bytes_per_peer cfg) (cfg_total_bytes cfg)
     \<and> (\<forall>pk'. suffix_of (items_of st' pk') (items_of st pk'))
   | EnqueuePanic \<Rightarrow> False)"

lemma items_of_new [simp]: "items_of (set_peer st pk PeerQueue_new) pk' = (if pk' = pk then [] else items_of st pk')"
  by (simp add: items_of_def PeerQueue_new_def)

definition push_object :: "nat \<Rightarrow> string \<Rightarrow> string \<Rightarrow> bytes \<Rightarrow> PeerQueue \<Rightarrow> PeerQueue" where
  "push_object now path key wire q =
     q\<lparr>items := items q @ [\<lparr>qo_path = path, body_key = key, wire_bytes = wire, enqueued_at = now\<rparr>],
       pq_bytes := pq_bytes q + length wire, worker_spawned := True\<rparr>"

definition with_peer :: "peer_pk \<Rightarrow> OutboundQueuesState \<Rightarrow> OutboundQueuesState" where
  "with_peer pk st = (if get_peer st pk = None then set_peer st pk PeerQueue_new else st)"

lemma items_of_with_peer [simp]: "items_of (with_peer pk st) pk' = items_of st pk'"
  by (auto simp: with_peer_def items_of_def PeerQueue_new_def)

text \<open>The state after step 1, and the rest of \<open>enqueue\<close> from there.\<close>

lemma enqueue_step1:
  assumes "accounted st"
  obtains st1 q1 where "accounted st1" "trims (with_peer pk st) st1"
    "get_peer st1 pk = Some q1"
    "items q1 = [] \<or> length (items q1) + 1 \<le> objects_per_peer cfg \<and> pq_bytes q1 + length wire \<le> bytes_per_peer cfg"
    "enqueue cfg iter now pk path key wire st =
      (if items q1 = [] \<and> length wire > bytes_per_peer cfg then Discarded st1
       else (case global_cap_loop iter (cfg_total_bytes cfg) (length wire) st1 of
         CapPanic \<Rightarrow> EnqueuePanic
       | NoRoom st2 \<Rightarrow> Discarded st2
       | Fits st2 \<Rightarrow> (case get_peer st2 pk of None \<Rightarrow> EnqueuePanic | Some q2 \<Rightarrow>
           Enqueued ((set_peer st2 pk (push_object now path key wire q2))
             \<lparr>total_bytes := total_bytes st2 + length wire\<rparr>) (\<not> worker_spawned q2))))"
proof -
  define st0 where "st0 = with_peer pk st"
  note st0_def = st0_def [unfolded with_peer_def]
  have a0: "accounted st0" using assms by (simp add: st0_def accounted_insert)
  obtain q0 where q0: "get_peer st0 pk = Some q0" by (cases "get_peer st pk") (auto simp: st0_def)
  obtain xs b f where l: "peer_cap_loop cfg (length wire) (items q0) (pq_bytes q0) 0 = (xs, b, f)"
    by (rule prod_cases3)
  have qok: "pq_bytes q0 = wire_sum (items q0)" "pq_bytes q0 \<le> total_bytes st0"
    using accounted_peer [OF a0 q0] by (simp_all add: q_ok_def)
  from peer_cap_loop_spec [OF l qok(1)] obtain d where
    d: "items q0 = d @ xs" "b = wire_sum xs" "f = wire_sum d"
    "xs = [] \<or> length xs + 1 \<le> objects_per_peer cfg \<and> b + length wire \<le> bytes_per_peer cfg" by auto
  define q1 where "q1 = q0\<lparr>items := xs, pq_bytes := b\<rparr>"
  define st1 where "st1 = (set_peer st0 pk q1)\<lparr>total_bytes := total_bytes st0 - f\<rparr>"
  show thesis
  proof (rule that [of st1 q1])
    show "accounted st1"
      unfolding st1_def using d qok by (intro accounted_replace [OF a0 q0]) (simp_all add: q1_def q_ok_def)
    have "trims st0 st1"
      unfolding st1_def using d by (intro trims_set [OF q0]) (auto simp: trimmed_def q1_def)
    then show "trims (with_peer pk st) st1" by (simp add: st0_def with_peer_def)
    show "enqueue cfg iter now pk path key wire st =
      (if items q1 = [] \<and> length wire > bytes_per_peer cfg then Discarded st1
       else (case global_cap_loop iter (cfg_total_bytes cfg) (length wire) st1 of
         CapPanic \<Rightarrow> EnqueuePanic
       | NoRoom st2 \<Rightarrow> Discarded st2
       | Fits st2 \<Rightarrow> (case get_peer st2 pk of None \<Rightarrow> EnqueuePanic | Some q2 \<Rightarrow>
           Enqueued ((set_peer st2 pk (push_object now path key wire q2))
             \<lparr>total_bytes := total_bytes st2 + length wire\<rparr>) (\<not> worker_spawned q2))))"
      unfolding enqueue_def Let_def push_object_def st0_def [symmetric] by (simp add: q0 l st1_def q1_def)
  qed (use d(4) in \<open>simp_all add: st1_def q1_def\<close>)
qed

lemma push_object_accounted:
  assumes "accounted st" "get_peer st pk = Some q"
  shows "accounted ((set_peer st pk (push_object now path key wire q))\<lparr>total_bytes := total_bytes st + length wire\<rparr>)"
  using accounted_peer [OF assms]
  by (intro accounted_replace [OF assms]) (simp_all add: push_object_def q_ok_def)

lemma suffix_of_trans: "suffix_of a b \<Longrightarrow> suffix_of b c \<Longrightarrow> suffix_of a c"
  by (auto simp: suffix_of_def)

text \<open>What \<open>enqueue\<close> leaves of the queues, and the object it appends.\<close>

lemma enqueue_cases:
  assumes "accounted st" "iteration_order iter"
  shows "case enqueue cfg iter now pk path key wire st of
      EnqueuePanic \<Rightarrow> False
    | Discarded st' \<Rightarrow> accounted st' \<and> trims (with_peer pk st) st'
        \<and> length wire > min (bytes_per_peer cfg) (cfg_total_bytes cfg)
    | Enqueued st' spawn \<Rightarrow> (\<exists>st2 q2. accounted st2 \<and> trims (with_peer pk st) st2 \<and> get_peer st2 pk = Some q2
        \<and> st' = (set_peer st2 pk (push_object now path key wire q2))\<lparr>total_bytes := total_bytes st2 + length wire\<rparr>
        \<and> total_bytes st' \<le> cfg_total_bytes cfg \<and> pq_bytes q2 + length wire \<le> bytes_per_peer cfg
        \<and> length (items q2) + 1 \<le> max 1 (objects_per_peer cfg) \<and> spawn = (\<not> worker_spawned q2))"
proof -
  obtain st1 q1 where a1: "accounted st1" and t1: "trims (with_peer pk st) st1"
    and q1: "get_peer st1 pk = Some q1"
    and c1: "items q1 = [] \<or> length (items q1) + 1 \<le> objects_per_peer cfg \<and> pq_bytes q1 + length wire \<le> bytes_per_peer cfg"
    and enq: "enqueue cfg iter now pk path key wire st =
      (if items q1 = [] \<and> length wire > bytes_per_peer cfg then Discarded st1
       else (case global_cap_loop iter (cfg_total_bytes cfg) (length wire) st1 of
         CapPanic \<Rightarrow> EnqueuePanic
       | NoRoom st2 \<Rightarrow> Discarded st2
       | Fits st2 \<Rightarrow> (case get_peer st2 pk of None \<Rightarrow> EnqueuePanic | Some q2 \<Rightarrow>
           Enqueued ((set_peer st2 pk (push_object now path key wire q2))
             \<lparr>total_bytes := total_bytes st2 + length wire\<rparr>) (\<not> worker_spawned q2))))"
    by (rule enqueue_step1 [OF assms(1), where cfg = cfg and iter = iter and now = now and pk = pk
          and path = path and key = key and wire = wire])
  have g: "cap_ok (cfg_total_bytes cfg) (length wire) st1 (global_cap_loop iter (cfg_total_bytes cfg) (length wire) st1)"
    by (rule global_cap_loop_ok [OF assms(2) a1])
  show ?thesis
  proof (cases "items q1 = [] \<and> length wire > bytes_per_peer cfg")
    case True
    with a1 t1 show ?thesis by (simp add: enq min_less_iff_disj)
  next
    case F: False
    show ?thesis
    proof (cases "global_cap_loop iter (cfg_total_bytes cfg) (length wire) st1")
      case (NoRoom st2)
      with F g t1 show ?thesis by (auto simp: enq cap_ok_def intro: trims_trans)
    next
      case CapPanic
      with g show ?thesis by (simp add: cap_ok_def)
    next
      case (Fits st2)
      with g have a2: "accounted st2" "trims st1 st2" "total_bytes st2 + length wire \<le> cfg_total_bytes cfg"
        by (simp_all add: cap_ok_def)
      from trimsD [OF a2(2) q1] obtain q2 where q2: "get_peer st2 pk = Some q2" "trimmed q1 q2" by blast
      then have "suffix_of (items q2) (items q1)" by (auto simp: trimmed_def suffix_of_def)
      moreover have "pq_bytes q2 = wire_sum (items q2)" "pq_bytes q1 = wire_sum (items q1)"
        using accounted_peer [OF a2(1) q2(1)] accounted_peer [OF a1 q1] by (simp_all add: q_ok_def)
      ultimately have "pq_bytes q2 + length wire \<le> bytes_per_peer cfg" "length (items q2) + 1 \<le> max 1 (objects_per_peer cfg)"
        using suffix_of_length c1 F by fastforce+
      with F Fits a2 q2 trims_trans [OF t1 a2(2)] show ?thesis
        by (auto simp: enq)
    qed
  qed
qed

lemma enqueue_enqueue_ok:
  assumes "accounted st" "iteration_order iter"
  shows "enqueue_ok cfg now pk path key wire st (enqueue cfg iter now pk path key wire st)"
proof (cases "enqueue cfg iter now pk path key wire st")
  case EnqueuePanic
  with enqueue_cases [OF assms, where cfg = cfg and now = now and pk = pk and path = path and key = key and wire = wire] show ?thesis by simp
next
  case (Discarded st')
  with enqueue_cases [OF assms, where cfg = cfg and now = now and pk = pk and path = path and key = key and wire = wire]
    trims_items [of "with_peer pk st" st'] show ?thesis by (simp add: enqueue_ok_def)
next
  case (Enqueued st' spawn)
  obtain st2 q2 where a2: "accounted st2" "trims (with_peer pk st) st2" "get_peer st2 pk = Some q2"
    and st': "st' = (set_peer st2 pk (push_object now path key wire q2))\<lparr>total_bytes := total_bytes st2 + length wire\<rparr>"
    and caps: "total_bytes st' \<le> cfg_total_bytes cfg" "pq_bytes q2 + length wire \<le> bytes_per_peer cfg"
      "length (items q2) + 1 \<le> max 1 (objects_per_peer cfg)" "spawn = (\<not> worker_spawned q2)"
    using enqueue_cases [OF assms, where cfg = cfg and now = now and pk = pk and path = path and key = key and wire = wire]
    unfolding Enqueued enqueue_result.case by blast
  have acc: "accounted st'" unfolding st' by (rule push_object_accounted [OF a2(1,3)])
  have suf: "suffix_of (items_of st2 pk') (items_of st pk')" for pk' using trims_items [OF a2(2), of pk'] by simp
  then have old: "suffix_of (items q2) (items_of st pk)" using a2(3) by (metis items_of_def option.simps(5))
  have "rel_option trimmed (get_peer (with_peer pk st) pk) (Some q2)" using a2(2,3) by (metis trims_def)
  then have "spawn \<longleftrightarrow> (case get_peer st pk of None \<Rightarrow> True | Some q \<Rightarrow> \<not> worker_spawned q)"
    using caps(4) by (auto simp: with_peer_def trimmed_def PeerQueue_new_def split: if_splits option.splits)
  with Enqueued acc caps old suf show ?thesis
    by (auto simp: enqueue_ok_def st' push_object_def items_of_def)
qed

end
