(* ===== verification/Outbound_Worker.thy ===== *)
theory Outbound_Worker
  imports Outbound_Queue
begin

text \<open>
  The drain worker of \<open>outbound_queue.rs\<close>: what \<open>take_batch\<close> and \<open>requeue_front\<close> do to a queue, and
  \<open>spawn_drain_worker\<close> as a step relation in which every acquisition of the mutex is one step, so that
  enqueues, \<open>drop_peer\<close> calls and pending notifications interleave with it freely.
\<close>

section \<open>take\_batch and requeue\_front\<close>

definition fresh :: "OutboundQueueConfig \<Rightarrow> nat \<Rightarrow> QueuedObject \<Rightarrow> bool" where
  "fresh cfg now x \<longleftrightarrow> \<not> now - enqueued_at x > object_max_age cfg"

definition route_of :: "QueuedObject \<Rightarrow> string \<times> string" where
  "route_of x = (qo_path x, body_key x)"

definition same_route :: "QueuedObject list \<Rightarrow> bool" where
  "same_route xs \<longleftrightarrow> (\<forall>x \<in> set xs. \<forall>y \<in> set xs. route_of x = route_of y)"

lemma same_routeI: "\<forall>x \<in> set xs. r = Some (route_of x) \<Longrightarrow> same_route xs"
  unfolding same_route_def by (metis option.inject)

text \<open>The loop takes a prefix of the queue: its fresh objects are the batch, the others are dropped. It
  stops at a full batch, at a change of route, or at the end.\<close>

lemma take_loop_spec:
  assumes "take_loop cfg now xs b bt r s = (ys, b', bt', s')" "b = wire_sum xs"
    and "length bt \<le> max_batch cfg" "\<forall>x \<in> set bt. r = Some (route_of x)" "bt = [] \<longrightarrow> r = None"
  shows "\<exists>pre. xs = pre @ ys \<and> b' = wire_sum ys \<and> bt' = bt @ filter (fresh cfg now) pre
    \<and> s' = s + wire_sum (filter (\<lambda>x. \<not> fresh cfg now x) pre) \<and> length bt' \<le> max_batch cfg
    \<and> same_route bt' \<and> (ys = [] \<or> bt' \<noteq> [] \<or> max_batch cfg = 0)"
  using assms
proof (induction xs arbitrary: b bt r s)
  case Nil
  then show ?case by (auto intro: same_routeI)
next
  case (Cons x xs)
  show ?case
  proof (cases "\<not> length bt < max_batch cfg \<or> fresh cfg now x \<and> r \<noteq> None \<and> r \<noteq> Some (route_of x)")
    case True
    with Cons.prems(1) have "ys = x # xs" "b' = b" "bt' = bt" "s' = s"
      by (auto simp: fresh_def route_of_def split: if_splits)
    with Cons.prems(2-) True show ?thesis by (auto simp: not_less intro: same_routeI)
  next
    case False
    show ?thesis
    proof (cases "fresh cfg now x")
      case True
      with False Cons.prems(1)
      have "take_loop cfg now xs (b - length (wire_bytes x)) (bt @ [x]) (Some (route_of x)) s = (ys, b', bt', s')"
        by (auto simp: fresh_def route_of_def)
      moreover have "r = None \<or> r = Some (route_of x)" using False True by blast
      then have "\<forall>y \<in> set (bt @ [x]). Some (route_of x) = Some (route_of y)" using Cons.prems(4) by auto
      ultimately obtain pre where
        "xs = pre @ ys \<and> b' = wire_sum ys \<and> bt' = (bt @ [x]) @ filter (fresh cfg now) pre
          \<and> s' = s + wire_sum (filter (\<lambda>x. \<not> fresh cfg now x) pre) \<and> length bt' \<le> max_batch cfg
          \<and> same_route bt' \<and> (ys = [] \<or> bt' \<noteq> [] \<or> max_batch cfg = 0)"
        using Cons.IH [of "b - length (wire_bytes x)" "bt @ [x]" "Some (route_of x)" s] Cons.prems(2,3) False by auto
      with True show ?thesis by (intro exI [of _ "x # pre"]) auto
    next
      case stale: False
      with False Cons.prems(1)
      have "take_loop cfg now xs (b - length (wire_bytes x)) bt r (s + length (wire_bytes x)) = (ys, b', bt', s')"
        by (auto simp: fresh_def)
      from Cons.IH [OF this] Cons.prems(2-) obtain pre where
        "xs = pre @ ys \<and> b' = wire_sum ys \<and> bt' = bt @ filter (fresh cfg now) pre
          \<and> s' = s + length (wire_bytes x) + wire_sum (filter (\<lambda>x. \<not> fresh cfg now x) pre) \<and> length bt' \<le> max_batch cfg
          \<and> same_route bt' \<and> (ys = [] \<or> bt' \<noteq> [] \<or> max_batch cfg = 0)"
        by auto
      with stale show ?thesis by (intro exI [of _ "x # pre"]) auto
    qed
  qed
qed

lemma wire_sum_partition: "wire_sum (filter P xs) + wire_sum (filter (\<lambda>x. \<not> P x) xs) = wire_sum xs"
  by (induction xs) auto

text \<open>What \<open>take_batch\<close> does to the state of a known peer.\<close>

lemma take_batch_Some:
  assumes "accounted st" "get_peer st pk = Some q" "take_batch cfg now pk st = (st', batch)"
  obtains pre q' where "items q = pre @ items q'" "batch = filter (fresh cfg now) pre"
    "length batch \<le> max_batch cfg" "same_route batch"
    "items q' = [] \<or> batch \<noteq> [] \<or> max_batch cfg = 0" "q_ok q'"
    "st' = (set_peer st pk q')\<lparr>total_bytes := total_bytes st - wire_sum pre\<rparr>"
    "pq_bytes q = wire_sum pre + pq_bytes q'"
    "wake q' = wake q" "worker_spawned q' = worker_spawned q" "stopped q' = stopped q"
    "in_flight q' \<longleftrightarrow> in_flight q \<or> batch \<noteq> []"
proof -
  obtain xs b bt stale where l: "take_loop cfg now (items q) (pq_bytes q) [] None 0 = (xs, b, bt, stale)"
    by (rule prod_cases4)
  have qok: "pq_bytes q = wire_sum (items q)" using accounted_peer [OF assms(1,2)] by (simp add: q_ok_def)
  from take_loop_spec [OF l qok] obtain pre where pre: "items q = pre @ xs" "b = wire_sum xs"
    "bt = filter (fresh cfg now) pre" "stale = wire_sum (filter (\<lambda>x. \<not> fresh cfg now x) pre)"
    "length bt \<le> max_batch cfg" "same_route bt" "xs = [] \<or> bt \<noteq> [] \<or> max_batch cfg = 0"
    by auto
  let ?q' = "q\<lparr>items := xs, pq_bytes := b, in_flight := in_flight q \<or> bt \<noteq> []\<rparr>"
  have sum: "wire_sum pre = stale + wire_sum bt" using wire_sum_partition [of "fresh cfg now" pre] pre by simp
  have "batch = bt" using assms(2,3) by (auto simp: take_batch_def l Let_def split: if_splits)
  moreover have "st' = (set_peer st pk ?q')\<lparr>total_bytes := total_bytes st - wire_sum pre\<rparr>"
    using assms(2,3) by (auto simp: take_batch_def l Let_def set_peer_def sum split: if_splits)
  ultimately show thesis
    using that [of pre ?q'] pre qok by (simp add: q_ok_def)
qed

lemma take_batch_accounted:
  assumes "accounted st" "take_batch cfg now pk st = (st', batch)"
  shows "accounted st'"
proof (cases "get_peer st pk")
  case None
  with assms show ?thesis by (simp add: take_batch_def)
next
  case (Some q)
  from assms(1) Some assms(2) obtain pre q' where "q_ok q'" "pq_bytes q = wire_sum pre + pq_bytes q'"
    "st' = (set_peer st pk q')\<lparr>total_bytes := total_bytes st - wire_sum pre\<rparr>" by (rule take_batch_Some)
  with accounted_peer [OF assms(1) Some] show ?thesis
    by (simp add: accounted_replace [OF assms(1) Some])
qed

lemma requeue_items: "fold (\<lambda>x q. q\<lparr>items := x # items q\<rparr>) (rev batch) q = q\<lparr>items := batch @ items q\<rparr>"
proof (induction batch arbitrary: q)
  case (Cons x xs)
  then show ?case by simp
qed simp

lemma requeue_front_Some:
  "get_peer st pk = Some q \<Longrightarrow> requeue_front pk batch st =
     (set_peer st pk (q\<lparr>items := batch @ items q, pq_bytes := pq_bytes q + wire_sum batch\<rparr>))
       \<lparr>total_bytes := total_bytes st + wire_sum batch\<rparr>"
  by (simp add: requeue_front_def requeue_items Let_def)

lemma requeue_front_accounted:
  assumes "accounted st"
  shows "accounted (requeue_front pk batch st)"
proof (cases "get_peer st pk")
  case None
  with assms show ?thesis by (simp add: requeue_front_def)
next
  case (Some q)
  with accounted_peer [OF assms Some] show ?thesis
    by (simp add: requeue_front_Some accounted_replace [OF assms Some] q_ok_def)
qed

lemma check_and_remove_accounted:
  assumes "accounted st" "check_and_remove_if_stopped pk st = (st', b)"
  shows "accounted st'"
proof (cases "\<exists>q. get_peer st pk = Some q \<and> stopped q")
  case False
  with assms show ?thesis by (auto simp: check_and_remove_if_stopped_def split: option.splits if_splits)
next
  case True
  then obtain q where q: "get_peer st pk = Some q" "stopped q" by blast
  then have st': "st' = \<lparr>peers = AList.delete pk (peers st), total_bytes = total_bytes st - pq_bytes q\<rparr>"
    using assms(2) by (simp add: check_and_remove_if_stopped_def)
  from q have "map_of (peers st) pk = Some q" by (simp add: get_peer_def)
  from update_split [OF this] obtain as bs where ps: "peers st = as @ (pk, q) # bs" "pk \<notin> fst ` set as" by blast
  moreover have "pk \<notin> fst ` set bs" using assms(1) ps(1) by (simp add: accounted_def)
  moreover have "filter (\<lambda>(k, _). pk \<noteq> k) xs = xs" if "pk \<notin> fst ` set xs" for xs :: "(peer_pk \<times> PeerQueue) list"
    using that by (induction xs) auto
  ultimately have "AList.delete pk (peers st) = as @ bs" by (simp add: AList.delete_eq)
  with assms(1) ps show ?thesis by (auto simp: st' accounted_def byte_sum_def)
qed

lemma flag_ops_accounted:
  assumes "accounted st"
  shows "accounted (fst (drop_peer pk st))" "accounted (notify_one pk st)"
    "accounted (mark_idle pk st)" "accounted (mark_in_flight_false pk st)"
  using assms
  by (auto simp: drop_peer_def notify_one_def mark_idle_def mark_in_flight_false_def accounted_flags
      split: option.splits)

section \<open>The worker\<close>

text \<open>Where a worker is between two acquisitions of the lock: waiting on \<open>wake\<close>; before the check after
  a wake-up; at the top of the inner loop; before \<open>take_batch\<close>; before \<open>mark_idle\<close>; awaiting the HTTP
  reply; before \<open>requeue_front\<close>; before \<open>mark_in_flight_false\<close> and arming the backoff timer.\<close>

datatype phase =
    Parked | Woken | LoopTop | Taking | Idling
  | Sending "QueuedObject list" | Requeueing "QueuedObject list" | Unflagging

text \<open>\<open>pending\<close> counts the \<open>notify_one\<close> calls on a peer's \<open>Notify\<close> that will still happen: the one at the
  end of \<open>enqueue\<close> and of \<open>drop_peer\<close>, and the one of each armed backoff timer. Removing an entry
  orphans its \<open>Notify\<close>, so the count restarts at zero.\<close>

record sys =
  queues :: OutboundQueuesState
  workers :: "peer_pk \<Rightarrow> phase option"
  pending :: "peer_pk \<Rightarrow> nat"
  backoff_current :: "peer_pk \<Rightarrow> nat"

definition sys_init :: sys where
  "sys_init = \<lparr>queues = OutboundQueues_new, workers = Map.empty, pending = (\<lambda>_. 0), backoff_current = (\<lambda>_. 0)\<rparr>"

definition set_phase :: "peer_pk \<Rightarrow> phase \<Rightarrow> OutboundQueuesState \<Rightarrow> sys \<Rightarrow> sys" where
  "set_phase pk ph st s = s\<lparr>queues := st, workers := (workers s)(pk \<mapsto> ph)\<rparr>"

definition add_pending :: "peer_pk \<Rightarrow> sys \<Rightarrow> sys" where
  "add_pending pk s = s\<lparr>pending := (pending s)(pk := pending s pk + 1)\<rparr>"

definition exit_worker :: "peer_pk \<Rightarrow> OutboundQueuesState \<Rightarrow> sys \<Rightarrow> sys" where
  "exit_worker pk st s = s\<lparr>queues := st, workers := (workers s)(pk := None), pending := (pending s)(pk := 0)\<rparr>"

definition spawn_worker :: "OutboundQueueConfig \<Rightarrow> peer_pk \<Rightarrow> bool \<Rightarrow> sys \<Rightarrow> sys" where
  "spawn_worker cfg pk needed s =
     (if needed then s\<lparr>workers := (workers s)(pk \<mapsto> Parked),
        backoff_current := (backoff_current s)(pk := bo_initial (backoff cfg))\<rparr> else s)"

inductive step ::
  "OutboundQueueConfig \<Rightarrow> ((peer_pk \<times> PeerQueue) list \<Rightarrow> (peer_pk \<times> PeerQueue) list) \<Rightarrow> (nat \<Rightarrow> nat) \<Rightarrow> sys \<Rightarrow> sys \<Rightarrow> bool"
  for cfg iter mul where
  enqueued: "enqueue cfg iter now pk path key wire (queues s) = Enqueued st spawn \<Longrightarrow>
     step cfg iter mul s (add_pending pk (spawn_worker cfg pk spawn (s\<lparr>queues := st\<rparr>)))"
| discarded: "enqueue cfg iter now pk path key wire (queues s) = Discarded st \<Longrightarrow>
     step cfg iter mul s (s\<lparr>queues := st\<rparr>)"
| dropped: "drop_peer pk (queues s) = (st, b) \<Longrightarrow>
     step cfg iter mul s (if b then add_pending pk (s\<lparr>queues := st\<rparr>) else s\<lparr>queues := st\<rparr>)"
| notified: "pending s pk > 0 \<Longrightarrow>
     step cfg iter mul s (s\<lparr>queues := notify_one pk (queues s), pending := (pending s)(pk := pending s pk - 1)\<rparr>)"
| woken: "workers s pk = Some Parked \<Longrightarrow> get_peer (queues s) pk = Some q \<Longrightarrow> wake q \<Longrightarrow>
     step cfg iter mul s (set_phase pk Woken (set_peer (queues s) pk (q\<lparr>wake := False\<rparr>)) s)"
| woken_exit: "workers s pk = Some Woken \<Longrightarrow> check_and_remove_if_stopped pk (queues s) = (st, True) \<Longrightarrow>
     step cfg iter mul s (exit_worker pk st s)"
| woken_go: "workers s pk = Some Woken \<Longrightarrow> check_and_remove_if_stopped pk (queues s) = (st, False) \<Longrightarrow>
     step cfg iter mul s (set_phase pk LoopTop st s)"
| top_exit: "workers s pk = Some LoopTop \<Longrightarrow> check_and_remove_if_stopped pk (queues s) = (st, True) \<Longrightarrow>
     step cfg iter mul s (exit_worker pk st s)"
| top_go: "workers s pk = Some LoopTop \<Longrightarrow> check_and_remove_if_stopped pk (queues s) = (st, False) \<Longrightarrow>
     step cfg iter mul s (set_phase pk Taking st s)"
| take_none: "workers s pk = Some Taking \<Longrightarrow> take_batch cfg now pk (queues s) = (st, []) \<Longrightarrow>
     step cfg iter mul s (set_phase pk Idling st s)"
| take_some: "workers s pk = Some Taking \<Longrightarrow> take_batch cfg now pk (queues s) = (st, batch) \<Longrightarrow> batch \<noteq> [] \<Longrightarrow>
     step cfg iter mul s (set_phase pk (Sending batch) st s)"
| idle: "workers s pk = Some Idling \<Longrightarrow>
     step cfg iter mul s (set_phase pk Parked (mark_idle pk (queues s)) s)"
| sent: "workers s pk = Some (Sending batch) \<Longrightarrow> dispatch_outcome reply \<noteq> Transient \<Longrightarrow>
     step cfg iter mul s ((set_phase pk LoopTop (queues s) s)
       \<lparr>backoff_current := (backoff_current s)(pk := bo_initial (backoff cfg))\<rparr>)"
| failed: "workers s pk = Some (Sending batch) \<Longrightarrow> dispatch_outcome reply = Transient \<Longrightarrow>
     step cfg iter mul s (set_phase pk (Requeueing batch) (queues s) s)"
| requeued: "workers s pk = Some (Requeueing batch) \<Longrightarrow>
     step cfg iter mul s (set_phase pk Unflagging (requeue_front pk batch (queues s)) s)"
| unflagged: "workers s pk = Some Unflagging \<Longrightarrow>
     step cfg iter mul s ((add_pending pk (set_phase pk Parked (mark_in_flight_false pk (queues s)) s))
       \<lparr>backoff_current := (backoff_current s)(pk := next_backoff (backoff cfg) mul (backoff_current s pk))\<rparr>)"

inductive reachable :: "OutboundQueueConfig \<Rightarrow> ((peer_pk \<times> PeerQueue) list \<Rightarrow> (peer_pk \<times> PeerQueue) list)
    \<Rightarrow> (nat \<Rightarrow> nat) \<Rightarrow> sys \<Rightarrow> bool" for cfg iter mul where
  init: "reachable cfg iter mul sys_init"
| more: "reachable cfg iter mul s \<Longrightarrow> step cfg iter mul s s' \<Longrightarrow> reachable cfg iter mul s'"

section \<open>The invariant\<close>

definition quiet :: "phase option \<Rightarrow> bool" where
  "quiet ph \<longleftrightarrow> ph = Some Parked \<or> ph = Some Idling"

definition before_check :: "phase option \<Rightarrow> bool" where
  "before_check ph \<longleftrightarrow> ph = None \<or> ph = Some Woken \<or> ph = Some LoopTop"

definition holds_batch :: "phase option \<Rightarrow> bool" where
  "holds_batch ph = (case ph of Some (Sending b) \<Rightarrow> True | Some (Requeueing b) \<Rightarrow> True | _ \<Rightarrow> False)"

lemmas phase_defs = quiet_def before_check_def holds_batch_def

text \<open>A worker exists exactly for the entries that spawned one; an entry without a worker is empty; a
  waiting worker with something to do has a wake-up coming; a stopped peer's worker that is past its
  check has one too; a worker that holds a batch is marked in flight.\<close>

fun peer_inv :: "PeerQueue option \<Rightarrow> phase option \<Rightarrow> nat \<Rightarrow> bool" where
  "peer_inv None ph n \<longleftrightarrow> ph = None"
| "peer_inv (Some q) ph n \<longleftrightarrow> (ph = None \<longleftrightarrow> \<not> worker_spawned q) \<and> (ph = None \<longrightarrow> items q = [])
     \<and> (items q \<noteq> [] \<and> quiet ph \<longrightarrow> wake q \<or> n > 0)
     \<and> (stopped q \<and> \<not> before_check ph \<longrightarrow> wake q \<or> n > 0) \<and> (holds_batch ph \<longrightarrow> in_flight q)"

definition sys_inv :: "sys \<Rightarrow> bool" where
  "sys_inv s \<longleftrightarrow> accounted (queues s) \<and>
     (\<forall>pk. peer_inv (get_peer (queues s) pk) (workers s pk) (pending s pk))"

lemma peer_inv_trimmed:
  "rel_option trimmed x y \<Longrightarrow> peer_inv x ph n \<Longrightarrow> peer_inv y ph n"
  by (cases x; cases y) (auto simp: trimmed_def)

lemma peer_inv_with_peer:
  "peer_inv (get_peer st pk') ph n \<Longrightarrow> peer_inv (get_peer (with_peer pk st) pk') ph n"
  by (auto simp: with_peer_def PeerQueue_new_def phase_defs)

lemma sys_invI:
  assumes "accounted (queues s)" "peer_inv (get_peer (queues s) pk) (workers s pk) (pending s pk)"
    and "\<And>pk'. pk' \<noteq> pk \<Longrightarrow> peer_inv (get_peer (queues s) pk') (workers s pk') (pending s pk')"
  shows "sys_inv s"
  using assms by (metis sys_inv_def)

lemma sys_invD: "sys_inv s \<Longrightarrow> peer_inv (get_peer (queues s) pk) (workers s pk) (pending s pk)"
  by (simp add: sys_inv_def)

lemma inv_has_peer: "sys_inv s \<Longrightarrow> workers s pk = Some ph \<Longrightarrow> \<exists>q. get_peer (queues s) pk = Some q"
  using sys_invD [of s pk] by (cases "get_peer (queues s) pk") auto

lemma get_peer_delete:
  "distinct (map fst ps) \<Longrightarrow> get_peer \<lparr>peers = AList.delete pk ps, total_bytes = n\<rparr> pk' =
     (if pk' = pk then None else map_of ps pk')"
  by (simp add: get_peer_def AList.delete_conv')

lemma check_false: "check_and_remove_if_stopped pk st = (st', False) \<Longrightarrow>
    st' = st \<and> (\<exists>q. get_peer st pk = Some q \<and> \<not> stopped q)"
  by (auto simp: check_and_remove_if_stopped_def split: option.splits if_splits)

lemma check_true:
  assumes "accounted st" "check_and_remove_if_stopped pk st = (st', True)"
  shows "get_peer st' pk' = (if pk' = pk then None else get_peer st pk')"
proof (cases "get_peer st pk")
  case None
  with assms(2) show ?thesis by (auto simp: check_and_remove_if_stopped_def)
next
  case (Some q)
  with assms(2) have "st' = \<lparr>peers = AList.delete pk (peers st), total_bytes = total_bytes st - pq_bytes q\<rparr>"
    by (auto simp: check_and_remove_if_stopped_def split: if_splits)
  with assms(1) show ?thesis by (simp add: get_peer_delete accounted_def) (simp add: get_peer_def)
qed

lemma exit_inv:
  assumes "sys_inv s" "check_and_remove_if_stopped pk (queues s) = (st, True)"
  shows "sys_inv (exit_worker pk st s)"
  using assms check_and_remove_accounted [OF _ assms(2)] check_true [OF _ assms(2)]
  by (auto simp: sys_inv_def exit_worker_def)

lemma enqueued_inv:
  assumes "sys_inv s" "iteration_order iter"
    and "enqueue cfg iter now pk path key wire (queues s) = Enqueued st spawn"
  shows "sys_inv (add_pending pk (spawn_worker cfg pk spawn (s\<lparr>queues := st\<rparr>)))"
proof -
  have acc: "accounted (queues s)" using assms(1) by (simp add: sys_inv_def)
  obtain st2 q2 where a2: "accounted st2" "trims (with_peer pk (queues s)) st2" "get_peer st2 pk = Some q2"
    and st: "st = (set_peer st2 pk (push_object now path key wire q2))\<lparr>total_bytes := total_bytes st2 + length wire\<rparr>"
    and sp: "spawn = (\<not> worker_spawned q2)"
    using enqueue_cases [OF acc assms(2), where cfg = cfg and now = now and pk = pk and path = path and key = key and wire = wire]
    unfolding assms(3) enqueue_result.case by blast
  have inv: "peer_inv (get_peer st2 pk') (workers s pk') (pending s pk')" for pk'
    using peer_inv_trimmed peer_inv_with_peer [OF sys_invD [OF assms(1)]] a2(2) by (metis trims_def)
  show ?thesis
  proof (rule sys_invI [where pk = pk])
    show "accounted (queues (add_pending pk (spawn_worker cfg pk spawn (s\<lparr>queues := st\<rparr>))))"
      using push_object_accounted [OF a2(1,3)] by (simp add: add_pending_def spawn_worker_def st)
  qed (use inv [of pk] inv a2(3) sp in
      \<open>auto simp: add_pending_def spawn_worker_def st push_object_def phase_defs split: if_splits\<close>)
qed

lemma discarded_inv:
  assumes "sys_inv s" "iteration_order iter"
    and "enqueue cfg iter now pk path key wire (queues s) = Discarded st"
  shows "sys_inv (s\<lparr>queues := st\<rparr>)"
proof -
  have acc: "accounted (queues s)" using assms(1) by (simp add: sys_inv_def)
  from enqueue_cases [OF acc assms(2), where cfg = cfg and now = now and pk = pk and path = path and key = key and wire = wire]
  have st: "accounted st" "trims (with_peer pk (queues s)) st" unfolding assms(3) by auto
  then show ?thesis
    using peer_inv_trimmed peer_inv_with_peer [OF sys_invD [OF assms(1)]]
    unfolding sys_inv_def trims_def by (metis sys.select_convs sys.surjective sys.update_convs(1))
qed

text \<open>A step that replaces one peer's queue and moves its worker, and touches nothing else.\<close>

lemma local_step_inv:
  assumes "sys_inv s" "accounted st" "get_peer st pk = Some q" "\<And>pk'. pk' \<noteq> pk \<Longrightarrow> get_peer st pk' = get_peer (queues s) pk'"
    and "peer_inv (Some q) (Some ph) n" "n = pending s pk \<or> n = pending s pk + 1"
    and "queues s' = st" "workers s' = (workers s)(pk \<mapsto> ph)" "pending s' = (pending s)(pk := n)"
  shows "sys_inv s'"
  using assms(2-) sys_invD [OF assms(1)] by (intro sys_invI [where pk = pk]) auto

lemma take_step_inv:
  assumes "sys_inv s" "max_batch cfg > 0" "workers s pk = Some Taking" "take_batch cfg now pk (queues s) = (st, batch)"
  shows "sys_inv (set_phase pk (if batch = [] then Idling else Sending batch) st s)"
proof -
  have acc: "accounted (queues s)" using assms(1) by (simp add: sys_inv_def)
  from inv_has_peer [OF assms(1,3)] obtain q where q: "get_peer (queues s) pk = Some q" by blast
  from acc q assms(4) obtain pre q' where
    "items q' = [] \<or> batch \<noteq> [] \<or> max_batch cfg = 0"
    "st = (set_peer (queues s) pk q')\<lparr>total_bytes := total_bytes (queues s) - wire_sum pre\<rparr>"
    "wake q' = wake q" "worker_spawned q' = worker_spawned q" "stopped q' = stopped q"
    "in_flight q' \<longleftrightarrow> in_flight q \<or> batch \<noteq> []" by (rule take_batch_Some)
  with sys_invD [OF assms(1), of pk] take_batch_accounted [OF acc assms(4)] q assms(2,3)
  show ?thesis
    by (intro local_step_inv [OF assms(1), where pk = pk and q = q' and n = "pending s pk"])
       (auto simp: set_phase_def phase_defs)
qed

lemma flag_step_inv:
  assumes "sys_inv s" "get_peer (queues s) pk = Some q" "items q' = items q" "pq_bytes q' = pq_bytes q"
    and "peer_inv (Some q') (Some ph) n" "n = pending s pk \<or> n = pending s pk + 1"
    and "queues s' = set_peer (queues s) pk q'" "workers s' = (workers s)(pk \<mapsto> ph)" "pending s' = (pending s)(pk := n)"
  shows "sys_inv s'"
proof (rule local_step_inv [OF assms(1) _ _ _ assms(5,6)])
  show "accounted (set_peer (queues s) pk q')"
    using assms(1-4) by (intro accounted_flags) (auto simp: sys_inv_def)
qed (use assms in auto)

lemma drop_inv:
  assumes "sys_inv s" "drop_peer pk (queues s) = (st, b)"
  shows "sys_inv (if b then add_pending pk (s\<lparr>queues := st\<rparr>) else s\<lparr>queues := st\<rparr>)"
proof (cases "get_peer (queues s) pk")
  case None
  with assms show ?thesis by (auto simp: drop_peer_def)
next
  case (Some q)
  with assms(2) have st: "st = set_peer (queues s) pk (q\<lparr>stopped := True\<rparr>)" "b" by (auto simp: drop_peer_def)
  have "accounted st" using flag_ops_accounted(1) [of "queues s" pk] assms by (simp add: sys_inv_def)
  with Some st sys_invD [OF assms(1)] sys_invD [OF assms(1), of pk] show ?thesis
    by (intro sys_invI [where pk = pk]) (auto simp: add_pending_def)
qed

lemma notify_inv:
  assumes "sys_inv s" "pending s pk > 0"
  shows "sys_inv (s\<lparr>queues := notify_one pk (queues s), pending := (pending s)(pk := pending s pk - 1)\<rparr>)"
proof (cases "get_peer (queues s) pk")
  case None
  with sys_invD [OF assms(1)] sys_invD [OF assms(1), of pk] assms(1) show ?thesis
    by (intro sys_invI [where pk = pk]) (auto simp: notify_one_def sys_inv_def)
next
  case (Some q)
  moreover have "accounted (notify_one pk (queues s))" using assms(1) by (simp add: sys_inv_def flag_ops_accounted)
  ultimately show ?thesis
    using sys_invD [OF assms(1)] sys_invD [OF assms(1), of pk]
    by (intro sys_invI [where pk = pk]) (auto simp: notify_one_def)
qed

lemma step_inv:
  assumes "step cfg iter mul s s'" "sys_inv s" "iteration_order iter" "max_batch cfg > 0"
  shows "sys_inv s'"
  using assms(1)
proof cases
  case (enqueued now pk path key wire st spawn)
  with enqueued_inv [OF assms(2,3)] show ?thesis by simp
next
  case (discarded now pk path key wire st)
  with discarded_inv [OF assms(2,3)] show ?thesis by simp
next
  case (dropped pk st b)
  with drop_inv [OF assms(2)] show ?thesis by simp
next
  case (notified pk)
  with notify_inv [OF assms(2)] show ?thesis by simp
next
  case (woken pk q)
  with sys_invD [OF assms(2), of pk] show ?thesis
    by (intro flag_step_inv [OF assms(2) woken(3), where q' = "q\<lparr>wake := False\<rparr>" and ph = Woken and n = "pending s pk"])
       (auto simp: set_phase_def phase_defs)
next
  case (woken_exit pk st)
  with exit_inv [OF assms(2)] show ?thesis by simp
next
  case (top_exit pk st)
  with exit_inv [OF assms(2)] show ?thesis by simp
next
  case (woken_go pk st)
  from check_false [OF woken_go(3)] obtain q where "st = queues s" "get_peer (queues s) pk = Some q" by blast
  with woken_go sys_invD [OF assms(2)] sys_invD [OF assms(2), of pk] assms(2) show ?thesis
    by (intro sys_invI [where pk = pk]) (auto simp: set_phase_def phase_defs sys_inv_def)
next
  case (top_go pk st)
  from check_false [OF top_go(3)] obtain q where "st = queues s" "get_peer (queues s) pk = Some q" "\<not> stopped q" by blast
  with top_go sys_invD [OF assms(2)] sys_invD [OF assms(2), of pk] assms(2) show ?thesis
    by (intro sys_invI [where pk = pk]) (auto simp: set_phase_def phase_defs sys_inv_def)
next
  case (take_none pk now st)
  with take_step_inv [OF assms(2,4) take_none(2,3)] show ?thesis by simp
next
  case (take_some pk now st batch)
  with take_step_inv [OF assms(2,4) take_some(2,3)] show ?thesis by simp
next
  case (idle pk)
  from inv_has_peer [OF assms(2) idle(2)] obtain q where q: "get_peer (queues s) pk = Some q" by blast
  with idle sys_invD [OF assms(2), of pk] show ?thesis
    by (intro flag_step_inv [OF assms(2) q, where q' = "q\<lparr>in_flight := False\<rparr>" and ph = Parked and n = "pending s pk"])
       (auto simp: set_phase_def phase_defs mark_idle_def)
next
  case (sent pk batch reply)
  with sys_invD [OF assms(2)] sys_invD [OF assms(2), of pk] inv_has_peer [OF assms(2) sent(2)] assms(2) show ?thesis
    by (intro sys_invI [where pk = pk]) (auto simp: set_phase_def phase_defs sys_inv_def)
next
  case (failed pk batch reply)
  with sys_invD [OF assms(2)] sys_invD [OF assms(2), of pk] inv_has_peer [OF assms(2) failed(2)] assms(2) show ?thesis
    by (intro sys_invI [where pk = pk]) (auto simp: set_phase_def phase_defs sys_inv_def)
next
  case (requeued pk batch)
  from inv_has_peer [OF assms(2) requeued(2)] obtain q where q: "get_peer (queues s) pk = Some q" by blast
  have "accounted (requeue_front pk batch (queues s))" using assms(2) by (simp add: sys_inv_def requeue_front_accounted)
  with requeued q sys_invD [OF assms(2), of pk] sys_invD [OF assms(2)] show ?thesis
    by (intro sys_invI [where pk = pk]) (auto simp: set_phase_def phase_defs requeue_front_Some [OF q])
next
  case (unflagged pk)
  from inv_has_peer [OF assms(2) unflagged(2)] obtain q where q: "get_peer (queues s) pk = Some q" by blast
  with unflagged sys_invD [OF assms(2), of pk] show ?thesis
    by (intro flag_step_inv [OF assms(2) q, where q' = "q\<lparr>in_flight := False\<rparr>" and ph = Parked and n = "pending s pk + 1"])
       (auto simp: set_phase_def phase_defs mark_in_flight_false_def add_pending_def)
qed

lemma reachable_inv:
  assumes "reachable cfg iter mul s" "iteration_order iter" "max_batch cfg > 0"
  shows "sys_inv s"
  using assms
proof (induction rule: reachable.induct)
  case init
  then show ?case
    by (simp add: sys_inv_def sys_init_def OutboundQueues_new_def accounted_def byte_sum_def get_peer_def)
next
  case (more s s')
  then show ?case using step_inv by blast
qed

section \<open>Properties\<close>

definition small_cfg :: OutboundQueueConfig where
  "small_cfg = \<lparr>cfg_total_bytes = 100, bytes_per_peer = 10, objects_per_peer = 2, object_max_age = 50,
     max_batch = MAX_CONTENT_BATCH_OUTBOUND, backoff = \<lparr>bo_initial = 1, bo_max = 8\<rparr>\<rparr>"

lemma iteration_order_id: "iteration_order (\<lambda>ps. ps)"
  by (simp add: iteration_order_def)

lemma accounted_new: "accounted OutboundQueues_new"
  by (simp add: OutboundQueues_new_def accounted_def byte_sum_def)

text \<open>C8. \<open>enqueue\<close> never panics and keeps the byte accounting exact. An accepted object is last in its
  peer's queue behind a suffix of what was there; afterwards the peer is within both of its caps and
  the process within the total; every other queue only lost some of its oldest objects; and a worker is
  requested exactly when the peer has none. An object is refused only when it exceeds a cap by itself.\<close>

theorem enqueue_contract:
  assumes "accounted st" "iteration_order iter"
  shows "enqueue_ok cfg now pk path key wire st (enqueue cfg iter now pk path key wire st)"
  by (rule enqueue_enqueue_ok [OF assms])

theorem enqueue_contract_witness:
  "enqueue_ok small_cfg 7 [1] ''/p'' ''objects'' [9] OutboundQueues_new
     (enqueue small_cfg (\<lambda>ps. ps) 7 [1] ''/p'' ''objects'' [9] OutboundQueues_new)"
  by (rule enqueue_contract [OF accounted_new iteration_order_id])

text \<open>Within the caps nothing is dropped: an object that fits the peer's two caps and the process
  total is appended and no queue loses anything.\<close>

theorem enqueue_within_caps:
  assumes "get_peer st pk = Some q" "length (items q) + 1 \<le> objects_per_peer cfg"
    and "pq_bytes q + length wire \<le> bytes_per_peer cfg" "total_bytes st + length wire \<le> cfg_total_bytes cfg"
  shows "enqueue cfg iter now pk path key wire st =
    Enqueued ((set_peer st pk (push_object now path key wire q))\<lparr>total_bytes := total_bytes st + length wire\<rparr>)
      (\<not> worker_spawned q)"
proof -
  have "set_peer st pk q = st"
  proof -
    from assms(1) have "map_of (peers st) pk = Some q" by (simp add: get_peer_def)
    from update_split [OF this, of q] have "AList.update pk q (peers st) = peers st" by auto
    then show ?thesis by (simp add: set_peer_def)
  qed
  moreover have "q\<lparr>items := items q, pq_bytes := pq_bytes q\<rparr> = q" "st\<lparr>total_bytes := total_bytes st\<rparr> = st" by simp_all
  moreover have "\<not> (items q = [] \<and> length wire > bytes_per_peer cfg)" using assms(3) by simp
  ultimately show ?thesis
    unfolding enqueue_def Let_def push_object_def
    using assms by (simp add: peer_cap_loop_keeps global_cap_loop_fits)
qed

theorem enqueue_within_caps_witness:
  "\<exists>st. enqueue small_cfg (\<lambda>ps. ps) 7 [1] ''/p'' ''objects'' [9] \<lparr>peers = [([1], PeerQueue_new)], total_bytes = 0\<rparr>
     = Enqueued st True"
  using enqueue_within_caps [of "\<lparr>peers = [([1], PeerQueue_new)], total_bytes = 0\<rparr>" "[1]" PeerQueue_new small_cfg "[9]"
      "\<lambda>ps. ps" 7 "''/p''" "''objects''"]
  by (simp add: get_peer_def PeerQueue_new_def small_cfg_def)

definition one_queued :: sys where
  "one_queued = (case enqueue small_cfg (\<lambda>ps. ps) 7 [1] ''/p'' ''objects'' [9] OutboundQueues_new of
     Enqueued st spawn \<Rightarrow> add_pending [1] (spawn_worker small_cfg [1] spawn (sys_init\<lparr>queues := st\<rparr>)) | _ \<Rightarrow> sys_init)"

lemma one_queued_facts:
  "reachable small_cfg (\<lambda>ps. ps) id one_queued"
  "\<exists>q. get_peer (queues one_queued) [1] = Some q \<and> items q \<noteq> []"
proof -
  let ?e = "enqueue small_cfg (\<lambda>ps. ps) 7 [1] ''/p'' ''objects'' [9] OutboundQueues_new"
  have ok: "enqueue_ok small_cfg 7 [1] ''/p'' ''objects'' [9] OutboundQueues_new ?e"
    by (rule enqueue_enqueue_ok [OF accounted_new iteration_order_id])
  have "length ([9] :: bytes) \<le> min (bytes_per_peer small_cfg) (cfg_total_bytes small_cfg)" by (simp add: small_cfg_def)
  with ok obtain st spawn where e: "?e = Enqueued st spawn"
    by (cases ?e) (auto simp: enqueue_ok_def)
  have q0: "queues sys_init = OutboundQueues_new" by (simp add: sys_init_def)
  have "step small_cfg (\<lambda>ps. ps) id sys_init one_queued"
    using step.enqueued [of small_cfg "\<lambda>ps. ps" 7 "[1]" "''/p''" "''objects''" "[9]" sys_init, unfolded q0, OF e]
    by (simp add: one_queued_def e)
  then show "reachable small_cfg (\<lambda>ps. ps) id one_queued" by (rule reachable.more [OF reachable.init])
  from ok e show "\<exists>q. get_peer (queues one_queued) [1] = Some q \<and> items q \<noteq> []"
    by (auto simp: one_queued_def enqueue_ok_def add_pending_def spawn_worker_def)
qed

text \<open>C9. In every reachable state, whatever the interleaving of enqueues, drops, worker steps and timers,
  each peer's byte count is the sum of its objects and the process total is the sum over the peers.\<close>

theorem reachable_accounting:
  assumes "reachable cfg iter mul s" "iteration_order iter" "max_batch cfg > 0"
  shows "accounted (queues s)"
  using reachable_inv [OF assms] by (simp add: sys_inv_def)

theorem reachable_accounting_witness: "accounted (queues one_queued)"
  by (rule reachable_accounting [OF one_queued_facts(1) iteration_order_id])
     (simp add: small_cfg_def MAX_CONTENT_BATCH_OUTBOUND_def)

text \<open>C10. No lost wake-up: in every reachable state a peer with queued objects has a worker, and that
  worker is running, or its wake permit is set, or a notification for it is still to come.\<close>

theorem no_lost_wakeup:
  assumes "reachable cfg iter mul s" "iteration_order iter" "max_batch cfg > 0"
    and "get_peer (queues s) pk = Some q" "items q \<noteq> []"
  shows "\<exists>ph. workers s pk = Some ph \<and> (ph \<notin> {Parked, Idling} \<or> wake q \<or> pending s pk > 0)"
  using sys_invD [OF reachable_inv [OF assms(1-3)], of pk] assms(4,5)
  by (cases "workers s pk") (auto simp: phase_defs)

theorem no_lost_wakeup_witness:
  "\<exists>q ph. get_peer (queues one_queued) [1] = Some q \<and> items q \<noteq> [] \<and> workers one_queued [1] = Some ph
     \<and> (ph \<notin> {Parked, Idling} \<or> wake q \<or> pending one_queued [1] > 0)"
proof -
  obtain q where q: "get_peer (queues one_queued) [1] = Some q" "items q \<noteq> []" using one_queued_facts(2) by blast
  from no_lost_wakeup [OF one_queued_facts(1) iteration_order_id _ q] q show ?thesis
    by (auto simp: small_cfg_def MAX_CONTENT_BATCH_OUTBOUND_def)
qed

text \<open>\<open>is_idle_now\<close> is a sound idle test: when it holds in a reachable state, no worker holds a batch
  and no peer has a queued object or byte.\<close>

theorem idle_means_drained:
  assumes "reachable cfg iter mul s" "iteration_order iter" "max_batch cfg > 0" "is_idle_now (queues s)"
  shows "total_bytes (queues s) = 0 \<and> items_of (queues s) pk = [] \<and> \<not> holds_batch (workers s pk)"
proof -
  have inv: "sys_inv s" by (rule reachable_inv [OF assms(1-3)])
  have idle: "\<forall>e \<in> set (peers (queues s)). items (snd e) = [] \<and> \<not> in_flight (snd e)"
    using assms(4) by (simp add: is_idle_now_def list_all_iff)
  have "total_bytes (queues s) = 0"
    using inv idle by (simp add: sys_inv_def accounted_def byte_sum_zero)
  moreover have "items q = [] \<and> \<not> in_flight q" if "get_peer (queues s) pk = Some q" for q
  proof -
    have "(pk, q) \<in> set (peers (queues s))" using that by (simp add: get_peer_def map_of_SomeD)
    with idle show ?thesis by fastforce
  qed
  ultimately show ?thesis
    using sys_invD [OF inv, of pk] by (cases "get_peer (queues s) pk") (auto simp: items_of_def holds_batch_def)
qed

theorem idle_means_drained_witness: "total_bytes (queues sys_init) = 0 \<and> items_of (queues sys_init) [1] = []"
  using idle_means_drained [OF reachable.init [of small_cfg "\<lambda>ps. ps" id] iteration_order_id, of "[1]"]
  by (simp add: small_cfg_def MAX_CONTENT_BATCH_OUTBOUND_def sys_init_def OutboundQueues_new_def is_idle_now_def)

text \<open>A batch is the fresh part of a prefix of the queue, in order, all for one route, at most
  \<open>max_batch\<close> long; the stale part of the prefix is dropped, the rest of the queue is untouched, and an
  empty batch means the queue is now empty. Other peers are unaffected.\<close>

theorem take_batch_contract:
  assumes "accounted st" "get_peer st pk = Some q" "take_batch cfg now pk st = (st', batch)" "max_batch cfg > 0"
  shows "accounted st' \<and> (\<exists>pre. items q = pre @ items_of st' pk \<and> batch = filter (fresh cfg now) pre)
    \<and> length batch \<le> max_batch cfg \<and> same_route batch \<and> (batch = [] \<longrightarrow> items_of st' pk = [])
    \<and> (\<forall>pk'. pk' \<noteq> pk \<longrightarrow> get_peer st' pk' = get_peer st pk')"
proof -
  from assms(1-3) obtain pre q' where p: "items q = pre @ items q'" "batch = filter (fresh cfg now) pre"
    "length batch \<le> max_batch cfg" "same_route batch" "items q' = [] \<or> batch \<noteq> [] \<or> max_batch cfg = 0"
    "st' = (set_peer st pk q')\<lparr>total_bytes := total_bytes st - wire_sum pre\<rparr>" by (rule take_batch_Some)
  then have i: "items_of st' pk = items q'" by (simp add: items_of_def)
  show ?thesis using take_batch_accounted [OF assms(1,3)] p i assms(4) by auto
qed

definition two_objects :: OutboundQueuesState where
  "two_objects = \<lparr>peers = [([1], PeerQueue_new\<lparr>items := [
       \<lparr>qo_path = ''/a'', body_key = ''objects'', wire_bytes = [5], enqueued_at = 0\<rparr>,
       \<lparr>qo_path = ''/b'', body_key = ''edges'', wire_bytes = [6, 7], enqueued_at = 3\<rparr>], pq_bytes := 3\<rparr>)],
     total_bytes = 3\<rparr>"

lemma two_objects_accounted: "accounted two_objects"
  by (simp add: two_objects_def accounted_def byte_sum_def q_ok_def PeerQueue_new_def)

theorem take_batch_contract_witness:
  "\<exists>st batch. take_batch small_cfg 9 [1] two_objects = (st, batch) \<and> length batch = 1 \<and> same_route batch
     \<and> length (items_of st [1]) = 1"
proof -
  obtain st batch where t: "take_batch small_cfg 9 [1] two_objects = (st, batch)" by (cases "take_batch small_cfg 9 [1] two_objects")
  have "\<exists>q. get_peer two_objects [1] = Some q" by (simp add: two_objects_def get_peer_def)
  then obtain q where q: "get_peer two_objects [1] = Some q" by blast
  from take_batch_contract [OF two_objects_accounted q t] have "same_route batch"
    by (simp add: small_cfg_def MAX_CONTENT_BATCH_OUTBOUND_def)
  moreover have "length batch = 1 \<and> length (items_of st [1]) = 1"
    using t by (auto simp: two_objects_def take_batch_def get_peer_def set_peer_def small_cfg_def
        MAX_CONTENT_BATCH_OUTBOUND_def items_of_def)
  ultimately show ?thesis using t by blast
qed

text \<open>A transient failure loses nothing but stale objects: \<open>take_batch\<close> followed by \<open>requeue_front\<close>
  leaves the queue as it was, in order, without the stale objects of the prefix, and the byte counts follow.\<close>

theorem requeue_restores:
  assumes "accounted st" "get_peer st pk = Some q" "take_batch cfg now pk st = (st', batch)"
  shows "\<exists>pre rest. items q = pre @ rest \<and> items_of (requeue_front pk batch st') pk = filter (fresh cfg now) pre @ rest
    \<and> total_bytes (requeue_front pk batch st') + wire_sum (filter (\<lambda>x. \<not> fresh cfg now x) pre) = total_bytes st
    \<and> accounted (requeue_front pk batch st')"
proof -
  from assms obtain pre q' where p: "items q = pre @ items q'" "batch = filter (fresh cfg now) pre"
    "st' = (set_peer st pk q')\<lparr>total_bytes := total_bytes st - wire_sum pre\<rparr>"
    "pq_bytes q = wire_sum pre + pq_bytes q'" by (rule take_batch_Some)
  then have g: "get_peer st' pk = Some q'" by simp
  have "wire_sum pre \<le> total_bytes st" using accounted_peer [OF assms(1,2)] p(4) by simp
  with p g wire_sum_partition [of "fresh cfg now" pre]
  have "items_of (requeue_front pk batch st') pk = filter (fresh cfg now) pre @ items q'"
    "total_bytes (requeue_front pk batch st') + wire_sum (filter (\<lambda>x. \<not> fresh cfg now x) pre) = total_bytes st"
    by (simp_all add: requeue_front_Some items_of_def)
  with p(1) requeue_front_accounted [OF take_batch_accounted [OF assms(1,3)]] show ?thesis by blast
qed

theorem requeue_restores_witness:
  "\<exists>st batch. take_batch small_cfg 9 [1] two_objects = (st, batch)
     \<and> total_bytes (requeue_front [1] batch st) \<le> total_bytes two_objects"
proof -
  obtain st batch where t: "take_batch small_cfg 9 [1] two_objects = (st, batch)" by (cases "take_batch small_cfg 9 [1] two_objects")
  have "\<exists>q. get_peer two_objects [1] = Some q" by (simp add: two_objects_def get_peer_def)
  then obtain q where q: "get_peer two_objects [1] = Some q" by blast
  from requeue_restores [OF two_objects_accounted q t] t show ?thesis by fastforce
qed

text \<open>An entry whose first object was refused for its size has no worker, yet \<open>drop_peer\<close> latches its
  \<open>stopped\<close> flag: the next object for that peer is accepted, a worker is requested for it, and that
  worker's first check discards the object without sending it.\<close>

theorem stopped_entry_swallows_object:
  assumes "length big > bytes_per_peer cfg" "length wire \<le> bytes_per_peer cfg" "length wire \<le> cfg_total_bytes cfg"
    and "objects_per_peer cfg \<ge> 1"
  shows "\<exists>st1 st2 st3 st4.
     enqueue cfg iter now pk path key big OutboundQueues_new = Discarded st1
   \<and> drop_peer pk st1 = (st2, True)
   \<and> enqueue cfg iter now pk path key wire st2 = Enqueued st3 True \<and> length (items_of st3 pk) = 1
   \<and> check_and_remove_if_stopped pk st3 = (st4, True) \<and> get_peer st4 pk = None"
proof -
  let ?st1 = "set_peer OutboundQueues_new pk PeerQueue_new"
  let ?q = "PeerQueue_new\<lparr>stopped := True\<rparr>"
  let ?st2 = "set_peer ?st1 pk ?q"
  let ?st3 = "(set_peer ?st2 pk (push_object now path key wire ?q))\<lparr>total_bytes := length wire\<rparr>"
  have e1: "enqueue cfg iter now pk path key big OutboundQueues_new = Discarded ?st1"
    using assms(1) by (simp add: enqueue_def get_peer_def set_peer_def OutboundQueues_new_def PeerQueue_new_def)
  have d: "drop_peer pk ?st1 = (?st2, True)" by (simp add: drop_peer_def)
  have "get_peer ?st2 pk = Some ?q" by simp
  from enqueue_within_caps [OF this] assms
  have e2: "enqueue cfg iter now pk path key wire ?st2 = Enqueued ?st3 True"
    by (simp add: PeerQueue_new_def OutboundQueues_new_def)
  have l: "length (items_of ?st3 pk) = 1" by (simp add: items_of_def push_object_def PeerQueue_new_def)
  obtain st4 where c: "check_and_remove_if_stopped pk ?st3 = (st4, True)"
    by (simp add: check_and_remove_if_stopped_def push_object_def PeerQueue_new_def)
  have "accounted ?st1" by (rule accounted_insert [OF accounted_new]) (simp add: get_peer_def OutboundQueues_new_def)
  then have "accounted ?st2" by (rule accounted_flags) simp_all
  from push_object_accounted [OF this, where q = ?q] have "accounted ?st3" by (simp add: OutboundQueues_new_def)
  from check_true [OF this c] have "get_peer st4 pk = None" by simp
  with e1 d e2 l c show ?thesis by blast
qed

theorem stopped_entry_swallows_object_witness:
  "\<exists>st1 st2 st3 st4.
     enqueue small_cfg (\<lambda>ps. ps) 0 [1] ''/p'' ''objects'' (replicate 11 0) OutboundQueues_new = Discarded st1
   \<and> drop_peer [1] st1 = (st2, True)
   \<and> enqueue small_cfg (\<lambda>ps. ps) 0 [1] ''/p'' ''objects'' [9] st2 = Enqueued st3 True \<and> length (items_of st3 [1]) = 1
   \<and> check_and_remove_if_stopped [1] st3 = (st4, True) \<and> get_peer st4 [1] = None"
  by (rule stopped_entry_swallows_object) (simp_all add: small_cfg_def)

end
