(* ===== verification/Csr_Graph.thy ===== *)
theory Csr_Graph
  imports Prism_Prelude
begin

text \<open>
  \<open>CsrGraph\<close> of \<open>server/src/trust.rs\<close>: the compressed-sparse-row graph built by counting degrees, an
  exclusive prefix sum and a write cursor per node. Node indices and offsets (\<open>u32\<close>) are naturals; a
  graph has fewer than \<open>2 ^ 32\<close> nodes and edges. An out-of-range index panics in the source:
  \<open>from_edges\<close> returns \<open>None\<close> there, and \<open>neighbors\<close> is only read below \<open>num_nodes\<close> (a list is
  returned above it so that the function is total).
\<close>

section \<open>The graph\<close>

record CsrGraph =
  offsets :: "nat list"
  targets :: "nat list"
  num_nodes :: nat

definition degrees :: "nat \<Rightarrow> (nat \<times> nat) list \<Rightarrow> nat list" where
  "degrees n es = fold (\<lambda>e d. d[fst e := d ! fst e + 1]) es (replicate n 0)"

definition prefix_sum :: "nat \<Rightarrow> nat list \<Rightarrow> nat list" where
  "prefix_sum n d = fold (\<lambda>i off. off[i + 1 := off ! i + d ! i]) [0..<n] (replicate (n + 1) 0)"

fun fill_targets :: "(nat \<times> nat) list \<Rightarrow> nat list \<Rightarrow> nat list \<Rightarrow> nat list" where
  "fill_targets [] tgts cursor = tgts"
| "fill_targets ((src, tgt) # es) tgts cursor =
     fill_targets es (tgts[cursor ! src := tgt]) (cursor[src := cursor ! src + 1])"

definition from_edges :: "nat \<Rightarrow> (nat \<times> nat) list \<Rightarrow> CsrGraph option" where
  "from_edges n es =
     (if list_all (\<lambda>e. fst e < n) es then
        let off = prefix_sum n (degrees n es)
        in Some \<lparr>offsets = off, targets = fill_targets es (replicate (length es) 0) (take n off), num_nodes = n\<rparr>
      else None)"

definition neighbors :: "CsrGraph \<Rightarrow> nat \<Rightarrow> nat list" where
  "neighbors g i =
     (if i < num_nodes g then
        let start = offsets g ! i; end = offsets g ! (i + 1) in take (end - start) (drop start (targets g))
      else [])"

definition reverse_edges :: "CsrGraph \<Rightarrow> (nat \<times> nat) list" where
  "reverse_edges g = concat (map (\<lambda>src. map (\<lambda>tgt. (tgt, src)) (neighbors g src)) [0..<num_nodes g])"

definition transpose :: "CsrGraph \<Rightarrow> CsrGraph option" where
  "transpose g = from_edges (num_nodes g) (reverse_edges g)"

section \<open>Degrees and offsets\<close>

text \<open>The edges out of a node, in the order of the edge list: what the three passes compute.\<close>

definition out :: "(nat \<times> nat) list \<Rightarrow> nat \<Rightarrow> nat list" where
  "out es i = map snd (filter (\<lambda>e. fst e = i) es)"

lemma out_simps [simp]:
  "out [] i = []"
  "out (e # es) i = (if fst e = i then snd e # out es i else out es i)"
  "out (es @ fs) i = out es i @ out fs i"
  by (simp_all add: out_def)

lemma degrees_fold:
  "list_all (\<lambda>e. fst e < length d) es \<Longrightarrow> length (fold (\<lambda>e d. d[fst e := d ! fst e + 1]) es d) = length d
   \<and> (\<forall>i < length d. fold (\<lambda>e d. d[fst e := d ! fst e + 1]) es d ! i = d ! i + length (out es i))"
  by (induction es arbitrary: d) (auto simp: nth_list_update)

lemma degrees_nth:
  assumes "list_all (\<lambda>e. fst e < n) es"
  shows "length (degrees n es) = n" "i < n \<Longrightarrow> degrees n es ! i = length (out es i)"
  using degrees_fold [of "replicate n 0" es] assms by (simp_all add: degrees_def)

definition below_count :: "(nat \<times> nat) list \<Rightarrow> nat \<Rightarrow> nat" where
  "below_count es i = (\<Sum>j < i. length (out es j))"

lemma below_count_Suc: "below_count es (Suc i) = below_count es i + length (out es i)"
  by (simp add: below_count_def)

lemma below_count_mono: "i \<le> j \<Longrightarrow> below_count es i \<le> below_count es j"
  by (induction j) (auto simp: below_count_Suc le_Suc_eq)

lemma below_count_total: "list_all (\<lambda>e. fst e < n) es \<Longrightarrow> below_count es n = length es"
proof (induction es)
  case Nil
  then show ?case by (simp add: below_count_def)
next
  case (Cons e es)
  have "below_count (e # es) n = below_count es n + (\<Sum>j < n. if fst e = j then 1 else 0)"
    unfolding below_count_def sum.distrib [symmetric] by (rule sum.cong) auto
  with Cons show ?case by (simp add: sum.delta)
qed

lemma prefix_sum_upto:
  assumes "list_all (\<lambda>e. fst e < n) es" "k \<le> n"
  shows "let off = fold (\<lambda>i off. off[i + 1 := off ! i + degrees n es ! i]) [0..<k] (replicate (n + 1) 0)
    in length off = n + 1 \<and> (\<forall>i \<le> k. off ! i = below_count es i)"
  using assms(2)
proof (induction k)
  case 0
  then show ?case by (simp add: below_count_def)
next
  case (Suc k)
  with degrees_nth [OF assms(1)] show ?case
    by (auto simp: Let_def nth_list_update below_count_Suc le_Suc_eq)
qed

lemma prefix_sum_nth:
  assumes "list_all (\<lambda>e. fst e < n) es"
  shows "length (prefix_sum n (degrees n es)) = n + 1"
    "i \<le> n \<Longrightarrow> prefix_sum n (degrees n es) ! i = below_count es i"
  using prefix_sum_upto [OF assms, of n] by (simp_all add: prefix_sum_def Let_def)

section \<open>The fill pass\<close>

text \<open>After the edges \<open>ps\<close> were written, node \<open>i\<close>'s slots start with the targets of its edges in \<open>ps\<close> and
  its cursor stands behind them.\<close>

definition filled :: "(nat \<times> nat) list \<Rightarrow> nat \<Rightarrow> (nat \<times> nat) list \<Rightarrow> nat list \<Rightarrow> nat list \<Rightarrow> bool" where
  "filled all n ps tgts cursor \<longleftrightarrow> length tgts = length all \<and> length cursor = n \<and>
     (\<forall>i < n. cursor ! i = below_count all i + length (out ps i)
        \<and> take (length (out ps i)) (drop (below_count all i) tgts) = out ps i)"

lemma take_drop_update_out:
  "p < a \<or> a + k \<le> p \<Longrightarrow> take k (drop a (xs[p := t])) = take k (drop a xs)"
  by (auto simp: list_eq_iff_nth_eq nth_list_update)

lemma take_drop_update_end:
  "a + k < length xs \<Longrightarrow> take (Suc k) (drop a (xs[a + k := t])) = take k (drop a xs) @ [t]"
  by (auto simp: list_eq_iff_nth_eq nth_list_update nth_append)

lemma filled_step:
  assumes "filled all n ps tgts cursor" "s < n" "length (out ps s) < length (out all s)"
    and "\<And>i. i < n \<Longrightarrow> length (out ps i) \<le> length (out all i)" "list_all (\<lambda>e. fst e < n) all"
  shows "filled all n (ps @ [(s, t)]) (tgts[cursor ! s := t]) (cursor[s := cursor ! s + 1])"
proof -
  let ?k = "length (out ps s)"
  have len: "length tgts = length all" "length cursor = n" and
    cur: "\<And>i. i < n \<Longrightarrow> cursor ! i = below_count all i + length (out ps i)" and
    tk: "\<And>i. i < n \<Longrightarrow> take (length (out ps i)) (drop (below_count all i) tgts) = out ps i"
    using assms(1) by (auto simp: filled_def)
  have c: "cursor ! s = below_count all s + ?k" using cur assms(2) by blast
  have ub: "below_count all s + ?k < below_count all (Suc s)" using assms(3) by (simp add: below_count_Suc)
  have "below_count all (Suc s) \<le> length all"
    using below_count_mono [of "Suc s" n all] below_count_total [OF assms(5)] assms(2) by simp
  with ub len have pos: "below_count all s + ?k < length tgts" by simp
  have other: "cursor ! s < below_count all i \<or> below_count all i + length (out ps i) \<le> cursor ! s"
    if "i < n" "i \<noteq> s" for i
  proof (cases "i < s")
    case True
    have "below_count all i + length (out ps i) \<le> below_count all (Suc i)"
      using assms(4) that(1) by (simp add: below_count_Suc)
    also have "\<dots> \<le> below_count all s" using True by (intro below_count_mono) simp
    finally show ?thesis by (simp add: c)
  next
    case False
    with that(2) have "below_count all (Suc s) \<le> below_count all i" by (intro below_count_mono) simp
    with ub show ?thesis by (simp add: c)
  qed
  show ?thesis
    unfolding filled_def
  proof (intro conjI allI impI)
    fix i assume i: "i < n"
    show "cursor[s := cursor ! s + 1] ! i = below_count all i + length (out (ps @ [(s, t)]) i)"
      using i cur c len by (simp add: nth_list_update)
    show "take (length (out (ps @ [(s, t)]) i)) (drop (below_count all i) (tgts[cursor ! s := t])) = out (ps @ [(s, t)]) i"
    proof (cases "i = s")
      case True
      with tk [OF assms(2)] pos show ?thesis by (simp add: c take_drop_update_end)
    next
      case False
      with tk [OF i] other [OF i] show ?thesis by (simp add: take_drop_update_out)
    qed
  qed (simp_all add: len)
qed

lemma filled_all:
  assumes "filled all n ps tgts cursor" "all = ps @ es" "list_all (\<lambda>e. fst e < n) all"
  shows "\<exists>cursor'. filled all n all (fill_targets es tgts cursor) cursor'"
  using assms
proof (induction es arbitrary: ps tgts cursor)
  case Nil
  then show ?case by auto
next
  case (Cons e es)
  obtain s t where e: "e = (s, t)" by (cases e)
  have "filled all n (ps @ [(s, t)]) (tgts[cursor ! s := t]) (cursor[s := cursor ! s + 1])"
    using Cons.prems by (intro filled_step) (auto simp: e)
  from Cons.IH [OF this] Cons.prems e show ?case by simp
qed

text \<open>A graph built from an edge list is well formed: its neighbour lists are the targets of the edges
  out of each node, in the order of the list.\<close>

lemma from_edges_Some: "from_edges n es \<noteq> None \<longleftrightarrow> list_all (\<lambda>e. fst e < n) es"
  by (simp add: from_edges_def Let_def)

lemma from_edges_neighbors:
  assumes "from_edges n es = Some g"
  shows "num_nodes g = n" "neighbors g i = (if i < n then out es i else [])"
proof -
  have b: "list_all (\<lambda>e. fst e < n) es" using assms by (simp add: from_edges_def split: if_splits)
  let ?off = "prefix_sum n (degrees n es)"
  have g: "g = \<lparr>offsets = ?off, targets = fill_targets es (replicate (length es) 0) (take n ?off), num_nodes = n\<rparr>"
    using assms b by (simp add: from_edges_def Let_def)
  show "num_nodes g = n" by (simp add: g)
  have "filled es n [] (replicate (length es) 0) (take n ?off)"
    using prefix_sum_nth [OF b] by (simp add: filled_def)
  from filled_all [OF this _ b] have
    "i < n \<Longrightarrow> take (length (out es i)) (drop (below_count es i) (targets g)) = out es i"
    by (auto simp: filled_def g)
  then show "neighbors g i = (if i < n then out es i else [])"
    using prefix_sum_nth [OF b] by (simp add: neighbors_def g below_count_Suc)
qed

section \<open>The transpose\<close>

text \<open>The graphs of the program: built from an edge list over its own nodes.\<close>

definition graph_of :: "nat \<Rightarrow> (nat \<times> nat) list \<Rightarrow> CsrGraph \<Rightarrow> bool" where
  "graph_of n es g \<longleftrightarrow> from_edges n es = Some g \<and> list_all (\<lambda>e. snd e < n) es"

lemma graph_of_neighbors:
  "graph_of n es g \<Longrightarrow> num_nodes g = n \<and> neighbors g i = (if i < n then out es i else [])"
  using from_edges_neighbors [of n es g] by (simp add: graph_of_def)

lemma graph_of_targets: "graph_of n es g \<Longrightarrow> set (neighbors g i) \<subseteq> {..<n}"
  using graph_of_neighbors [of n es g i] by (auto simp: graph_of_def out_def list_all_iff)

lemma out_concat: "out (concat xss) i = concat (map (\<lambda>xs. out xs i) xss)"
  by (induction xss) simp_all

lemma out_flip: "out (map (\<lambda>t. (t, s)) ts) i = replicate (count_list ts i) s"
  by (induction ts) simp_all

lemma count_replicate_upt:
  "count_list (concat (map (\<lambda>s. replicate (f s) s) [0..<n])) j = (if j < n then f j else (0 :: nat))"
proof (induction n)
  case (Suc n)
  have "count_list (replicate m x) y = (if x = y then m else 0)" for m and x y :: nat by (induction m) auto
  with Suc show ?case by (auto simp: less_Suc_eq)
qed simp

lemma reverse_edges_bounds:
  assumes "graph_of n es g"
  shows "list_all (\<lambda>e. fst e < n) (reverse_edges g)" "list_all (\<lambda>e. snd e < n) (reverse_edges g)"
  using graph_of_neighbors [OF assms] graph_of_targets [OF assms]
  by (fastforce simp: reverse_edges_def list_all_iff)+

lemma transpose_graph_of:
  assumes "graph_of n es g"
  shows "\<exists>g'. transpose g = Some g' \<and> graph_of n (reverse_edges g) g'"
  using reverse_edges_bounds [OF assms] graph_of_neighbors [OF assms] from_edges_Some [of n "reverse_edges g"]
  by (auto simp: transpose_def graph_of_def)

lemma transpose_counts:
  assumes "graph_of n es g" "transpose g = Some g'" "i < n"
  shows "count_list (neighbors g' i) j = count_list (neighbors g j) i"
proof -
  have g': "graph_of n (reverse_edges g) g'" using transpose_graph_of [OF assms(1)] assms(2) by auto
  have "neighbors g' i = concat (map (\<lambda>s. replicate (count_list (neighbors g s) i) s) [0..<n])"
    using graph_of_neighbors [OF g', of i] graph_of_neighbors [OF assms(1)] assms(3)
    by (simp add: reverse_edges_def out_concat out_flip comp_def)
  then show ?thesis
    using graph_of_neighbors [OF assms(1), of j] by (simp add: count_replicate_upt)
qed

lemma transpose_neighbors:
  assumes "graph_of n es g" "transpose g = Some g'" "i < n"
  shows "j \<in> set (neighbors g' i) \<longleftrightarrow> i \<in> set (neighbors g j)"
  using transpose_counts [OF assms, of j] by (metis count_list_0_iff)

text \<open>Counting sort builds the graph it should: whenever every source is a node, \<open>from_edges\<close>
  succeeds, and the neighbours of a node are exactly the targets of its edges, in edge-list order.\<close>

theorem csr_neighbors:
  assumes "list_all (\<lambda>e. fst e < n) es"
  shows "\<exists>g. from_edges n es = Some g \<and> num_nodes g = n
    \<and> (\<forall>i < n. neighbors g i = map snd (filter (\<lambda>e. fst e = i) es))"
proof -
  obtain g where "from_edges n es = Some g" using from_edges_Some assms by blast
  with from_edges_neighbors [OF this] show ?thesis by (simp add: out_def)
qed

theorem csr_neighbors_witness:
  "\<exists>g. from_edges 3 [(2, 0), (0, 1), (2, 1)] = Some g \<and> neighbors g 2 = [0, 1]"
  using csr_neighbors [of 3 "[(2, 0), (0, 1), (2, 1)]"] by auto

text \<open>The transpose exists for every graph over its own nodes and reverses each edge as often as it
  occurs: \<open>j\<close> is a neighbour of \<open>i\<close> in it as many times as \<open>i\<close> is one of \<open>j\<close> in the graph.\<close>

theorem transpose_reverses:
  assumes "graph_of n es g"
  shows "\<exists>g'. transpose g = Some g' \<and> num_nodes g' = n
    \<and> (\<forall>i < n. \<forall>j. count_list (neighbors g' i) j = count_list (neighbors g j) i)"
proof -
  obtain g' where g': "transpose g = Some g'" "graph_of n (reverse_edges g) g'"
    using transpose_graph_of [OF assms] by blast
  with transpose_counts [OF assms g'(1)] graph_of_neighbors [OF g'(2)] show ?thesis by auto
qed

theorem transpose_reverses_witness:
  "\<exists>g g'. from_edges 3 [(2, 0), (0, 1), (2, 1)] = Some g \<and> transpose g = Some g' \<and> num_nodes g' = 3"
proof -
  obtain g where g: "from_edges 3 [(2, 0), (0, 1), (2, 1)] = Some g"
    using from_edges_Some [of 3 "[(2, 0), (0, 1), (2, 1)]"] by auto
  then have "graph_of 3 [(2, 0), (0, 1), (2, 1)] g" by (simp add: graph_of_def)
  from transpose_reverses [OF this] g show ?thesis by blast
qed

end
