(* ===== verification/Level_Search.thy ===== *)
theory Level_Search
  imports Prism_Prelude
begin

text \<open>
  The contract shared by the two breadth-first searches of \<open>server/src/trust.rs\<close>. A search keeps a
  queue of nodes with their depth and a set of visited nodes; a step pops the head and, below the depth
  limit, visits its unvisited successors one level deeper. From that alone follows what a level-order
  search finds: the visited nodes at the end are those within the limit, each at its distance. The
  provider may carry a fact \<open>labels\<close> about its state and the depths assigned so far.
\<close>

section \<open>Walks and distances\<close>

fun walk :: "('n \<Rightarrow> 'n set) \<Rightarrow> 'n set \<Rightarrow> nat \<Rightarrow> 'n set" where
  "walk succ seeds 0 = seeds"
| "walk succ seeds (Suc k) = (\<Union>y \<in> walk succ seeds k. succ y)"

text \<open>The first level of at most \<open>md\<close> that holds a node.\<close>

definition level :: "('n \<Rightarrow> 'n set) \<Rightarrow> 'n set \<Rightarrow> nat \<Rightarrow> 'n \<Rightarrow> nat option" where
  "level succ seeds md x = find (\<lambda>k. x \<in> walk succ seeds k) [0..<md]"

lemma find_upt_Some:
  "find P [0..<n] = Some k \<longleftrightarrow> k < n \<and> P k \<and> (\<forall>j < k. \<not> P j)"
  by (auto simp: find_Some_iff)

lemma level_Some:
  "level succ seeds md x = Some k \<longleftrightarrow> k < md \<and> x \<in> walk succ seeds k \<and> (\<forall>j < k. x \<notin> walk succ seeds j)"
  by (simp add: level_def find_upt_Some)

lemma level_None: "level succ seeds md x = None \<longleftrightarrow> (\<forall>k < md. x \<notin> walk succ seeds k)"
  by (auto simp: level_def find_None_iff)

section \<open>Queues ordered by level\<close>

definition level_queue :: "('n \<times> nat) list \<Rightarrow> bool" where
  "level_queue q \<longleftrightarrow> sorted (map snd q) \<and> (\<forall>it \<in> set q. snd it \<le> snd (hd q) + 1)"

lemma level_queue_Cons:
  assumes "level_queue ((x, d) # rest)"
  shows "\<forall>it \<in> set rest. d \<le> snd it \<and> snd it \<le> d + 1" "sorted (map snd rest)"
  using assms by (auto simp: level_queue_def)

lemma level_queueI:
  assumes "sorted (map snd rest)" "\<forall>it \<in> set rest. d \<le> snd it \<and> snd it \<le> d + 1"
    and "\<forall>it \<in> set new. snd it = d + 1"
  shows "level_queue (rest @ new)" "rest @ new \<noteq> [] \<Longrightarrow> d \<le> snd (hd (rest @ new))"
proof -
  have hd: "d \<le> snd (hd (rest @ new))" if "rest @ new \<noteq> []"
    using that assms(2,3) by (cases rest; cases new) auto
  then show "rest @ new \<noteq> [] \<Longrightarrow> d \<le> snd (hd (rest @ new))" .
  have "sorted (map snd new)" using assms(3) by (induction new) auto
  with assms show "level_queue (rest @ new)"
    unfolding level_queue_def using hd by (fastforce simp: sorted_append)
qed

section \<open>The interface and what it gives\<close>

locale level_search =
  fixes queue :: "'s \<Rightarrow> ('n \<times> nat) list"
    and visited :: "'s \<Rightarrow> 'n set"
    and step :: "'s \<Rightarrow> 's"
    and succ :: "'n \<Rightarrow> 'n set"
    and md :: nat
    and labels :: "('n \<Rightarrow> nat) \<Rightarrow> 's \<Rightarrow> bool"
  assumes pop: "labels dep s \<Longrightarrow> queue s = (x, d) # rest \<Longrightarrow> d \<ge> md \<Longrightarrow> dep x = d \<Longrightarrow>
      queue (step s) = rest \<and> visited (step s) = visited s \<and> labels dep (step s)"
    and expand: "labels dep s \<Longrightarrow> queue s = (x, d) # rest \<Longrightarrow> 1 \<le> d \<Longrightarrow> d < md \<Longrightarrow> x \<in> visited s \<Longrightarrow> dep x = d \<Longrightarrow>
      \<exists>new. queue (step s) = rest @ new \<and> (\<forall>it \<in> set new. snd it = d + 1)
        \<and> visited (step s) = visited s \<union> succ x \<and> fst ` set new = succ x - visited s
        \<and> labels (\<lambda>p. if p \<in> visited s then dep p else d + 1) (step s)"
begin

definition placed :: "'n set \<Rightarrow> ('n \<Rightarrow> nat) \<Rightarrow> 'n set \<Rightarrow> bool" where
  "placed seeds dep V \<longleftrightarrow> (\<forall>p \<in> V. 1 \<le> dep p \<and> dep p \<le> max 1 md \<and> p \<in> walk succ seeds (dep p - 1))"

definition closed :: "('n \<Rightarrow> nat) \<Rightarrow> 'n set \<Rightarrow> 'n \<Rightarrow> bool" where
  "closed dep V p \<longleftrightarrow> (\<forall>y \<in> succ p. y \<in> V \<and> dep y \<le> dep p + 1)"

definition level_inv :: "'n set \<Rightarrow> ('n \<Rightarrow> nat) \<Rightarrow> 's \<Rightarrow> bool" where
  "level_inv seeds dep s \<longleftrightarrow>
     (\<forall>it \<in> set (queue s). fst it \<in> visited s \<and> dep (fst it) = snd it)
   \<and> level_queue (queue s)
   \<and> placed seeds dep (visited s)
   \<and> (\<forall>p \<in> visited s. p \<in> fst ` set (queue s) \<or> dep p \<ge> md \<or> closed dep (visited s) p)
   \<and> (queue s \<noteq> [] \<longrightarrow> (\<forall>p \<in> visited s. dep p \<le> snd (hd (queue s)) + 1))
   \<and> (\<forall>p \<in> seeds. p \<in> visited s \<and> dep p = 1)
   \<and> labels dep s"

lemma level_invD:
  assumes "level_inv seeds dep s"
  shows "it \<in> set (queue s) \<Longrightarrow> fst it \<in> visited s \<and> dep (fst it) = snd it" "level_queue (queue s)"
    "p \<in> visited s \<Longrightarrow> 1 \<le> dep p \<and> dep p \<le> max 1 md \<and> p \<in> walk succ seeds (dep p - 1)"
    "p \<in> visited s \<Longrightarrow> p \<in> fst ` set (queue s) \<or> dep p \<ge> md \<or> closed dep (visited s) p"
    "queue s \<noteq> [] \<Longrightarrow> p \<in> visited s \<Longrightarrow> dep p \<le> snd (hd (queue s)) + 1"
    "p \<in> seeds \<Longrightarrow> p \<in> visited s \<and> dep p = 1" "labels dep s"
  using assms by (simp_all add: level_inv_def placed_def)

lemma level_inv_seed:
  assumes "fst ` set (queue s) = seeds" "visited s = seeds" "\<forall>it \<in> set (queue s). snd it = 1" "labels (\<lambda>_. 1) s"
  shows "level_inv seeds (\<lambda>_. 1) s"
proof -
  have "level_queue (queue s)" using level_queueI(1) [of "[]" 0 "queue s"] assms(3) by simp
  with assms show ?thesis by (auto simp: level_inv_def placed_def)
qed

lemma level_inv_pop:
  assumes inv: "level_inv seeds dep s" and q: "queue s = (x, d) # rest" and d: "d \<ge> md"
  shows "level_inv seeds dep (step s)"
proof -
  have x: "dep x = d" using level_invD(1) [OF inv, of "(x, d)"] q by simp
  have st: "queue (step s) = rest" "visited (step s) = visited s" "labels dep (step s)"
    using pop [OF level_invD(7) [OF inv] q d x] by simp_all
  note r = level_queue_Cons [OF level_invD(2) [OF inv, unfolded q]]
  note lq = level_queueI [OF r(2,1), of "[]", simplified]
  have "p \<in> fst ` set rest \<or> dep p \<ge> md \<or> closed dep (visited s) p" if "p \<in> visited s" for p
    using level_invD(4) [OF inv that] x d by (auto simp: q)
  moreover have "dep p \<le> snd (hd rest) + 1" if "p \<in> visited s" "rest \<noteq> []" for p
    using level_invD(5) [OF inv _ that(1)] lq(2) [OF that(2)] by (simp add: q)
  ultimately show ?thesis
    using level_invD [OF inv] lq(1) by (auto simp: level_inv_def placed_def st q)
qed

lemma level_inv_expand:
  assumes inv: "level_inv seeds dep s" and q: "queue s = (x, d) # rest" and d: "d < md"
  shows "level_inv seeds (\<lambda>p. if p \<in> visited s then dep p else d + 1) (step s)"
proof -
  let ?dep = "\<lambda>p. if p \<in> visited s then dep p else d + 1"
  have x: "x \<in> visited s" "dep x = d" using level_invD(1) [OF inv, of "(x, d)"] q by simp_all
  then have w: "1 \<le> d" "x \<in> walk succ seeds (d - 1)" using level_invD(3) [OF inv] by auto
  have top: "p \<in> visited s \<Longrightarrow> dep p \<le> d + 1" for p using level_invD(5) [OF inv, of p] by (simp add: q)
  note r = level_queue_Cons [OF level_invD(2) [OF inv, unfolded q]]
  obtain new where new: "queue (step s) = rest @ new" "\<forall>it \<in> set new. snd it = d + 1"
    "visited (step s) = visited s \<union> succ x" "fst ` set new = succ x - visited s" "labels ?dep (step s)"
    using expand [OF level_invD(7) [OF inv] q w(1) d x] by blast
  note lq = level_queueI [OF r(2,1) new(2)]
  have 1: "fst it \<in> visited (step s) \<and> ?dep (fst it) = snd it" if "it \<in> set (queue (step s))" for it
    using that level_invD(1) [OF inv, of it] new(2,4) by (auto simp: new(1,3) q)
  have 3: "1 \<le> ?dep p \<and> ?dep p \<le> max 1 md \<and> p \<in> walk succ seeds (?dep p - 1)" if "p \<in> visited (step s)" for p
  proof (cases "p \<in> visited s")
    case True
    then show ?thesis using level_invD(3) [OF inv True] by simp
  next
    case False
    with that have "p \<in> succ x" by (simp add: new(3))
    with w have "p \<in> walk succ seeds d" by (cases d) auto
    with False d show ?thesis by simp
  qed
  have 4: "p \<in> fst ` set (queue (step s)) \<or> ?dep p \<ge> md \<or> closed ?dep (visited (step s)) p"
    if "p \<in> visited (step s)" for p
  proof (cases "p \<in> visited s")
    case False
    with that show ?thesis by (simp add: new(1,3,4) image_Un)
  next
    case True
    then consider "p = x" | "p \<in> fst ` set rest" | "dep p \<ge> md" | "closed dep (visited s) p"
      using level_invD(4) [OF inv True] by (auto simp: q)
    then show ?thesis
    proof cases
      case 1
      with x top show ?thesis by (auto simp: closed_def new(3))
    qed (use True in \<open>auto simp: closed_def new(1,3)\<close>)
  qed
  have 5: "?dep p \<le> snd (hd (queue (step s))) + 1" if "queue (step s) \<noteq> []" for p
    using lq(2) that top [of p] by (auto simp: new(1) intro: order_trans)
  have 6: "p \<in> visited (step s) \<and> ?dep p = 1" if "p \<in> seeds" for p
    using level_invD(6) [OF inv that] by (simp add: new(3))
  show ?thesis
    unfolding level_inv_def placed_def using 1 3 4 5 6 lq(1) new(1,5) by (intro conjI ballI impI) simp_all
qed

lemma level_inv_step:
  assumes "\<exists>dep. level_inv seeds dep s" "queue s \<noteq> []"
  shows "\<exists>dep. level_inv seeds dep (step s)"
proof -
  obtain dep where inv: "level_inv seeds dep s" using assms(1) by blast
  obtain x d rest where q: "queue s = (x, d) # rest" by (cases "queue s") (use assms(2) in auto)
  show ?thesis
    using level_inv_pop [OF inv q] level_inv_expand [OF inv q] by (cases "d \<ge> md") (auto simp: not_le)
qed

text \<open>With the queue empty, the visited nodes are those a walk within the limit reaches, at their level.\<close>

lemma level_inv_complete:
  assumes inv: "level_inv seeds dep s" and q: "queue s = []"
  shows "x \<in> walk succ seeds k \<Longrightarrow> k < md \<Longrightarrow> x \<in> visited s \<and> dep x \<le> k + 1"
proof (induction k arbitrary: x)
  case 0
  then show ?case using level_invD(6) [OF inv, of x] by simp
next
  case (Suc k)
  then obtain y where y: "y \<in> walk succ seeds k" "x \<in> succ y" by auto
  with Suc have v: "y \<in> visited s" "dep y \<le> k + 1" by auto
  with level_invD(4) [OF inv v(1)] q Suc.prems(2) have "closed dep (visited s) y" by auto
  with y v show ?case by (fastforce simp: closed_def)
qed

lemma level_inv_final:
  assumes inv: "level_inv seeds dep s" and q: "queue s = []" and md: "md \<ge> 1"
  shows "x \<in> visited s \<and> dep x = k + 1 \<longleftrightarrow> level succ seeds md x = Some k"
    "x \<in> visited s \<longleftrightarrow> (\<exists>k. level succ seeds md x = Some k)"
proof -
  have 1: "level succ seeds md x = Some (dep x - 1) \<and> dep x \<ge> 1" if v: "x \<in> visited s" for x
  proof -
    have p: "1 \<le> dep x" "dep x \<le> md" "x \<in> walk succ seeds (dep x - 1)" using level_invD(3) [OF inv v] md by auto
    moreover have "x \<notin> walk succ seeds j" if "j < dep x - 1" for j
    proof -
      from that p(2) have "j < md" "\<not> dep x \<le> j + 1" by linarith+
      with level_inv_complete [OF inv q, of x j] show ?thesis by blast
    qed
    ultimately show ?thesis by (auto simp: level_Some)
  qed
  have 2: "x \<in> visited s" if "level succ seeds md x = Some k" for x k
    using that level_inv_complete [OF inv q, of x k] by (simp add: level_Some)
  show "x \<in> visited s \<longleftrightarrow> (\<exists>k. level succ seeds md x = Some k)" using 1 2 by blast
  show "x \<in> visited s \<and> dep x = k + 1 \<longleftrightarrow> level succ seeds md x = Some k"
    using 1 [of x] 2 [of x k] by auto
qed

end

end
