(* ===== verification/Trust_Bfs.thy ===== *)
theory Trust_Bfs
  imports Csr_Graph Level_Search Complex_Main "HOL-Library.AList"
begin

text \<open>
  The scoring of \<open>server/src/trust.rs\<close>: path groups, the reliability penalty, and the forward
  breadth-first search with its per-first-hop visited sets. A \<open>f64\<close> is a real number and every \<open>f64\<close>
  operation rounds its exact result with the parameter \<open>rnd\<close>; what the theorems need of \<open>rnd\<close> is that
  it is monotone and exact at 0 and 1, as rounding to nearest is. \<open>powi\<close> is repeated multiplication.
  The \<open>HashMap\<close> of path groups is an association list in order of first insertion; the results are
  read as a map, since the source iterates it in an unspecified order.
\<close>

section \<open>Constants and arithmetic\<close>

definition fmul :: "(real \<Rightarrow> real) \<Rightarrow> real \<Rightarrow> real \<Rightarrow> real" where
  "fmul rnd a b = rnd (a * b)"

definition fsub :: "(real \<Rightarrow> real) \<Rightarrow> real \<Rightarrow> real \<Rightarrow> real" where
  "fsub rnd a b = rnd (a - b)"

definition DECAY :: "(real \<Rightarrow> real) \<Rightarrow> real" where
  "DECAY rnd = rnd (7 / 10)"

definition MAX_DEPTH :: nat where
  "MAX_DEPTH = 3"

definition MINIMUM_TRUST_THRESHOLD :: "(real \<Rightarrow> real) \<Rightarrow> real" where
  "MINIMUM_TRUST_THRESHOLD rnd = rnd (45 / 100)"

definition DISTRUST_PENALTY :: real where
  "DISTRUST_PENALTY = 1 / 4"

fun f64_powi :: "(real \<Rightarrow> real) \<Rightarrow> real \<Rightarrow> nat \<Rightarrow> real" where
  "f64_powi rnd x 0 = 1"
| "f64_powi rnd x (Suc n) = fmul rnd (f64_powi rnd x n) x"

definition f64_rounding :: "(real \<Rightarrow> real) \<Rightarrow> bool" where
  "f64_rounding rnd \<longleftrightarrow> mono rnd \<and> rnd 0 = 0 \<and> rnd 1 = 1"

section \<open>Path groups\<close>

type_synonym path_groups = "(nat \<times> real) list"

fun add_group :: "nat \<Rightarrow> real \<Rightarrow> path_groups \<Rightarrow> path_groups" where
  "add_group grp score [] = [(grp, score)]"
| "add_group grp score ((g, s) # gs) =
     (if g = grp then (g, if score > s then score else s) # gs else (g, s) # add_group grp score gs)"

definition combined_score :: "(real \<Rightarrow> real) \<Rightarrow> path_groups \<Rightarrow> real" where
  "combined_score rnd gs =
     (if gs = [] then 0
      else fsub rnd 1 (fold (\<lambda>e acc. fmul rnd acc (fsub rnd 1 (snd e))) gs 1))"

definition reliability :: "(real \<Rightarrow> real) \<Rightarrow> nat list \<Rightarrow> nat set \<Rightarrow> real" where
  "reliability rnd ns viewer_distrusts =
     f64_powi rnd (fsub rnd 1 DISTRUST_PENALTY) (length (filter (\<lambda>n. n \<in> viewer_distrusts) ns))"

type_synonym target_groups = "(nat \<times> path_groups) list"

text \<open>\<open>target_groups.entry(t).or_insert_with(PathGroups::new).add(group, score)\<close>\<close>

definition record_path :: "nat \<Rightarrow> nat \<Rightarrow> real \<Rightarrow> target_groups \<Rightarrow> target_groups" where
  "record_path t grp score tgs =
     AList.update t (add_group grp score (case map_of tgs t of None \<Rightarrow> [] | Some gs \<Rightarrow> gs)) tgs"

section \<open>Forward search\<close>

text \<open>A queue item: node, depth, first hop, path score.\<close>

type_synonym bfs_item = "nat \<times> nat \<times> nat \<times> real"

record bfs =
  bq :: "bfs_item list"
  tg :: target_groups
  vis :: "(nat \<times> nat) set"

fun seed :: "(real \<Rightarrow> real) \<Rightarrow> nat \<Rightarrow> CsrGraph \<Rightarrow> nat set \<Rightarrow> nat list \<Rightarrow> nat set \<Rightarrow> bfs \<Rightarrow> bfs" where
  "seed rnd src g vd [] seeded st = st"
| "seed rnd src g vd (n # ns) seeded st =
     (if n = src \<or> n \<in> seeded then seed rnd src g vd ns seeded st
      else let penalized = reliability rnd (neighbors g n) vd
           in seed rnd src g vd ns (insert n seeded)
                \<lparr>bq = bq st @ [(n, 1, n, penalized)], tg = record_path n n penalized (tg st),
                 vis = insert (n, n) (vis st)\<rparr>)"

definition visit ::
  "(real \<Rightarrow> real) \<Rightarrow> nat \<Rightarrow> CsrGraph \<Rightarrow> nat set \<Rightarrow> nat \<Rightarrow> nat \<Rightarrow> real \<Rightarrow> nat \<Rightarrow> bfs \<Rightarrow> bfs" where
  "visit rnd src g vd depth first_hop path_score next st =
     (if next = src \<or> (first_hop, next) \<in> vis st then st
      else let r = reliability rnd (neighbors g next) vd;
               next_score = fmul rnd (fmul rnd path_score (DECAY rnd)) r
           in \<lparr>bq = bq st @ [(next, depth + 1, first_hop, next_score)],
               tg = record_path next first_hop next_score (tg st),
               vis = insert (first_hop, next) (vis st)\<rparr>)"

definition expand ::
  "(real \<Rightarrow> real) \<Rightarrow> nat \<Rightarrow> CsrGraph \<Rightarrow> nat set \<Rightarrow> nat \<Rightarrow> nat \<Rightarrow> real \<Rightarrow> nat list \<Rightarrow> bfs \<Rightarrow> bfs" where
  "expand rnd src g vd depth first_hop path_score ns st =
     fold (visit rnd src g vd depth first_hop path_score) ns st"

definition bfs_step :: "(real \<Rightarrow> real) \<Rightarrow> nat \<Rightarrow> CsrGraph \<Rightarrow> nat set \<Rightarrow> nat \<Rightarrow> bfs \<Rightarrow> bfs" where
  "bfs_step rnd src g vd max_depth st = (case bq st of
     [] \<Rightarrow> st
   | (current, depth, first_hop, path_score) # rest \<Rightarrow>
       if depth \<ge> max_depth then st\<lparr>bq := rest\<rparr>
       else expand rnd src g vd depth first_hop path_score (neighbors g current) (st\<lparr>bq := rest\<rparr>))"

definition bfs_weight :: "CsrGraph \<Rightarrow> nat \<Rightarrow> bfs_item list \<Rightarrow> nat" where
  "bfs_weight g max_depth q = (\<Sum>it\<leftarrow>q. Suc (length (targets g)) ^ (max_depth - fst (snd it)))"

lemma neighbors_length: "length (neighbors g i) \<le> length (targets g)"
  by (auto simp: neighbors_def Let_def)

lemma visit_queue:
  "\<exists>new. bq (visit rnd src g vd d fh ps n st) = bq st @ new \<and> length new \<le> 1 \<and> (\<forall>it \<in> set new. fst (snd it) = d + 1)"
  by (simp add: visit_def Let_def)

lemma expand_queue:
  "\<exists>new. bq (expand rnd src g vd d fh ps ns st) = bq st @ new \<and> length new \<le> length ns
     \<and> (\<forall>it \<in> set new. fst (snd it) = d + 1)"
proof (induction ns arbitrary: st)
  case Nil
  then show ?case by (simp add: expand_def)
next
  case (Cons n ns)
  obtain new1 where n1: "bq (visit rnd src g vd d fh ps n st) = bq st @ new1" "length new1 \<le> 1"
    "\<forall>it \<in> set new1. fst (snd it) = d + 1" using visit_queue by blast
  obtain new2 where n2: "bq (expand rnd src g vd d fh ps ns (visit rnd src g vd d fh ps n st)) =
      bq (visit rnd src g vd d fh ps n st) @ new2" "length new2 \<le> length ns" "\<forall>it \<in> set new2. fst (snd it) = d + 1"
    using Cons.IH by blast
  with n1 show ?case by (intro exI [of _ "new1 @ new2"]) (auto simp: expand_def)
qed

lemma bfs_step_decreases:
  assumes "bq st \<noteq> []"
  shows "bfs_weight g md (bq (bfs_step rnd src g vd md st)) < bfs_weight g md (bq st)"
proof -
  let ?B = "Suc (length (targets g))"
  obtain cur d fh ps rest where q: "bq st = (cur, d, fh, ps) # rest" by (cases "bq st") (use assms in auto)
  show ?thesis
  proof (cases "d \<ge> md")
    case True
    then show ?thesis by (simp add: bfs_step_def q bfs_weight_def)
  next
    case False
    obtain new where new: "bq (expand rnd src g vd d fh ps (neighbors g cur) (st\<lparr>bq := rest\<rparr>)) = rest @ new"
      "length new \<le> length (neighbors g cur)" "\<forall>it \<in> set new. fst (snd it) = d + 1"
      using expand_queue [of rnd src g vd d fh ps "neighbors g cur" "st\<lparr>bq := rest\<rparr>"] by auto
    have "bfs_weight g md new = length new * ?B ^ (md - (d + 1))"
      using new(3) by (induction new) (simp_all add: bfs_weight_def)
    also have "\<dots> < ?B * ?B ^ (md - (d + 1))"
    proof (rule mult_less_mono1)
      show "length new < ?B" using new(2) neighbors_length [of g cur] by simp
    qed simp
    also have "\<dots> = ?B ^ (md - d)" using False by (simp flip: power_Suc add: Suc_diff_Suc)
    finally show ?thesis
      using False new(1) by (simp add: bfs_step_def q bfs_weight_def)
  qed
qed

function bfs_loop :: "(real \<Rightarrow> real) \<Rightarrow> nat \<Rightarrow> CsrGraph \<Rightarrow> nat set \<Rightarrow> nat \<Rightarrow> bfs \<Rightarrow> bfs" where
  "bfs_loop rnd src g vd max_depth st =
     (if bq st = [] then st else bfs_loop rnd src g vd max_depth (bfs_step rnd src g vd max_depth st))"
  by pat_completeness auto
termination
  by (relation "measure (\<lambda>(rnd, src, g, vd, md, st). bfs_weight g md (bq st))") (auto simp: bfs_step_decreases)

declare bfs_loop.simps [simp del]

definition bfs_run :: "(real \<Rightarrow> real) \<Rightarrow> nat \<Rightarrow> CsrGraph \<Rightarrow> nat list \<Rightarrow> nat set \<Rightarrow> nat \<Rightarrow> bfs" where
  "bfs_run rnd src g source_neighbors vd max_depth =
     bfs_loop rnd src g vd max_depth (seed rnd src g vd source_neighbors {} \<lparr>bq = [], tg = [], vis = {}\<rparr>)"

definition forward_bfs_inner ::
  "(real \<Rightarrow> real) \<Rightarrow> nat \<Rightarrow> CsrGraph \<Rightarrow> nat list \<Rightarrow> nat set \<Rightarrow> nat \<Rightarrow> (nat \<times> real) list" where
  "forward_bfs_inner rnd src g source_neighbors viewer_distrusts max_depth =
     (let results = map (\<lambda>e. (fst e, combined_score rnd (snd e)))
            (tg (bfs_run rnd src g source_neighbors viewer_distrusts max_depth))
      in if viewer_distrusts \<noteq> {} then
           map (\<lambda>e. if fst e \<in> viewer_distrusts then (fst e, 0) else e) results
         else results)"

type_synonym distrust_sets = "nat \<Rightarrow> nat set option"

definition forward_bfs :: "(real \<Rightarrow> real) \<Rightarrow> nat \<Rightarrow> CsrGraph \<Rightarrow> distrust_sets \<Rightarrow> (nat \<times> real) list" where
  "forward_bfs rnd src g ds =
     forward_bfs_inner rnd src g (neighbors g src) (case ds src of None \<Rightarrow> {} | Some s \<Rightarrow> s) MAX_DEPTH"

text \<open>Loop invariants: what holds after seeding and is kept by a step holds at the end, where the queue
  is empty.\<close>

lemma bfs_loop_invariant:
  assumes "P st" "\<And>st. P st \<Longrightarrow> bq st \<noteq> [] \<Longrightarrow> P (bfs_step rnd src g vd md st)"
  shows "P (bfs_loop rnd src g vd md st) \<and> bq (bfs_loop rnd src g vd md st) = []"
  using assms
proof (induction rnd src g vd md st rule: bfs_loop.induct)
  case (1 rnd src g vd md st)
  show ?case
  proof (cases "bq st = []")
    case True
    with 1 show ?thesis by (subst (1 2) bfs_loop.simps) simp
  next
    case False
    with 1 show ?thesis by (subst (1 2) bfs_loop.simps) simp
  qed
qed

section \<open>Group tables\<close>

lemma map_of_add_group:
  "map_of (add_group grp s gs) g = (if g = grp then Some (case map_of gs grp of None \<Rightarrow> s | Some s0 \<Rightarrow> if s > s0 then s else s0)
     else map_of gs g)"
  by (induction gs) auto

definition group_score :: "target_groups \<Rightarrow> nat \<Rightarrow> nat \<Rightarrow> real option" where
  "group_score tgs t grp = (case map_of tgs t of None \<Rightarrow> None | Some gs \<Rightarrow> map_of gs grp)"

lemma group_score_record:
  "group_score (record_path t grp s tgs) t' g' =
     (if t' = t \<and> g' = grp then Some (case group_score tgs t grp of None \<Rightarrow> s | Some s0 \<Rightarrow> if s > s0 then s else s0)
      else group_score tgs t' g')"
  by (auto simp: group_score_def record_path_def AList.update_conv' map_of_add_group split: option.splits)

text \<open>Distinct targets, distinct groups per target, no empty group list.\<close>

definition tg_ok :: "target_groups \<Rightarrow> bool" where
  "tg_ok tgs \<longleftrightarrow> distinct (map fst tgs) \<and> list_all (\<lambda>e. snd e \<noteq> [] \<and> distinct (map fst (snd e))) tgs"

lemma add_group_keys: "set (map fst (add_group grp s gs)) = insert grp (set (map fst gs))"
proof (induction gs)
  case (Cons e gs)
  then show ?case by (cases e) (simp add: insert_commute)
qed simp

lemma distinct_add_group: "distinct (map fst gs) \<Longrightarrow> distinct (map fst (add_group grp s gs))"
proof (induction gs)
  case (Cons e gs)
  then show ?case using add_group_keys [of grp s gs] by (cases e) auto
qed simp

lemma add_group_nonempty [simp]: "add_group grp s gs \<noteq> []"
  by (cases gs) (auto split: if_splits)

lemma tg_ok_record:
  assumes "tg_ok tgs"
  shows "tg_ok (record_path t grp s tgs)"
proof -
  have "distinct (map fst (case map_of tgs t of None \<Rightarrow> [] | Some gs \<Rightarrow> gs))"
    using assms by (auto simp: tg_ok_def list_all_iff split: option.splits dest: map_of_SomeD)
  then have d: "distinct (map fst (add_group grp s (case map_of tgs t of None \<Rightarrow> [] | Some gs \<Rightarrow> gs)))"
    by (rule distinct_add_group)
  have "set (AList.update t v tgs) \<subseteq> insert (t, v) (set tgs)" for v
    by (induction tgs) auto
  with assms d show ?thesis
    by (fastforce simp: tg_ok_def list_all_iff record_path_def distinct_update)
qed

lemma tg_ok_key: "tg_ok tgs \<Longrightarrow> t \<in> fst ` set tgs \<longleftrightarrow> (\<exists>grp s. group_score tgs t grp = Some s)"
proof -
  assume ok: "tg_ok tgs"
  show ?thesis
  proof
    assume "t \<in> fst ` set tgs"
    then obtain gs where gs: "(t, gs) \<in> set tgs" by auto
    with ok have "gs \<noteq> []" by (auto simp: tg_ok_def list_all_iff)
    then obtain g s r where "gs = (g, s) # r" by (cases gs) auto
    moreover have "map_of tgs t = Some gs" using gs ok by (simp add: tg_ok_def)
    ultimately show "\<exists>grp s. group_score tgs t grp = Some s" by (auto simp: group_score_def)
  next
    assume "\<exists>grp s. group_score tgs t grp = Some s"
    then obtain gs where "map_of tgs t = Some gs" by (auto simp: group_score_def split: option.splits)
    then show "t \<in> fst ` set tgs" by (force dest: map_of_SomeD)
  qed
qed

section \<open>Reachability\<close>

text \<open>The nodes that a walk of exactly \<open>k\<close> edges from \<open>fh\<close> reaches without entering \<open>src\<close>.\<close>

fun reach_in :: "CsrGraph \<Rightarrow> nat \<Rightarrow> nat \<Rightarrow> nat \<Rightarrow> nat set" where
  "reach_in g src fh 0 = {fh}"
| "reach_in g src fh (Suc k) = (\<Union>y \<in> reach_in g src fh k. set (neighbors g y)) - {src}"

text \<open>The number of edges of a shortest such walk, when it is below the limit.\<close>

definition hops :: "CsrGraph \<Rightarrow> nat \<Rightarrow> nat \<Rightarrow> nat \<Rightarrow> nat \<Rightarrow> nat option" where
  "hops g src md fh t = find (\<lambda>k. t \<in> reach_in g src fh k) [0..<md]"

text \<open>The forward search walks over pairs of a first hop and a node.\<close>

definition fsucc :: "nat \<Rightarrow> CsrGraph \<Rightarrow> nat \<times> nat \<Rightarrow> (nat \<times> nat) set" where
  "fsucc src g p = {fst p} \<times> (set (neighbors g (snd p)) - {src})"

definition fseeds :: "nat \<Rightarrow> nat list \<Rightarrow> (nat \<times> nat) set" where
  "fseeds src ns = (\<lambda>x. (x, x)) ` (set ns - {src})"

lemma walk_reach_in:
  "(fh, x) \<in> walk (fsucc src g) (fseeds src ns) k \<longleftrightarrow> fh \<in> set ns - {src} \<and> x \<in> reach_in g src fh k"
proof (induction k arbitrary: x)
  case 0
  then show ?case by (auto simp: fseeds_def)
next
  case (Suc k)
  have "(fh, x) \<in> walk (fsucc src g) (fseeds src ns) (Suc k) \<longleftrightarrow>
      (\<exists>y. (fh, y) \<in> walk (fsucc src g) (fseeds src ns) k \<and> x \<in> set (neighbors g y) - {src})"
    by (force simp: fsucc_def)
  with Suc show ?case by auto
qed

lemma level_hops:
  "level (fsucc src g) (fseeds src ns) md (fh, x) = (if fh \<in> set ns - {src} then hops g src md fh x else None)"
proof (cases "fh \<in> set ns - {src}")
  case True
  then show ?thesis by (simp add: level_def hops_def walk_reach_in)
next
  case False
  then show ?thesis by (simp only: level_None walk_reach_in if_False) blast
qed

section \<open>The search keeps its invariant\<close>

definition depth_of :: "bfs_item \<Rightarrow> nat" where "depth_of it = fst (snd it)"
definition node_key :: "bfs_item \<Rightarrow> nat \<times> nat" where "node_key it = (fst (snd (snd it)), fst it)"
definition score_of :: "bfs_item \<Rightarrow> real" where "score_of it = snd (snd (snd it))"

definition fqueue :: "bfs \<Rightarrow> ((nat \<times> nat) \<times> nat) list" where
  "fqueue st = map (\<lambda>it. (node_key it, depth_of it)) (bq st)"

text \<open>The group table holds a score for exactly the visited pairs.\<close>

definition scored :: "bfs \<Rightarrow> bool" where
  "scored st \<longleftrightarrow> tg_ok (tg st) \<and> (\<forall>t fh. (\<exists>s. group_score (tg st) t fh = Some s) \<longleftrightarrow> (fh, t) \<in> vis st)"

text \<open>In exact arithmetic and without distrusts a path score depends on the depth alone.\<close>

definition lvl :: "nat \<Rightarrow> real" where
  "lvl d = (7 / 10) ^ (d - 1)"

definition levelled :: "(nat \<times> nat \<Rightarrow> nat) \<Rightarrow> bfs \<Rightarrow> bool" where
  "levelled dep st \<longleftrightarrow> (\<forall>it \<in> set (bq st). score_of it = lvl (depth_of it))
     \<and> (\<forall>t fh s. group_score (tg st) t fh = Some s \<longrightarrow> s = lvl (dep (fh, t)))"

definition flabels :: "(real \<Rightarrow> real) \<Rightarrow> nat set \<Rightarrow> (nat \<times> nat \<Rightarrow> nat) \<Rightarrow> bfs \<Rightarrow> bool" where
  "flabels rnd vd dep st \<longleftrightarrow> scored st \<and> (rnd = id \<and> vd = {} \<longrightarrow> levelled dep st)"

lemma scored_record:
  "scored st \<Longrightarrow> scored \<lparr>bq = q, tg = record_path t fh s (tg st), vis = insert (fh, t) (vis st)\<rparr>"
  by (auto simp: scored_def tg_ok_record group_score_record)

lemma scored_fresh: "scored st \<Longrightarrow> (fh, t) \<notin> vis st \<Longrightarrow> group_score (tg st) t fh = None"
  unfolding scored_def by (cases "group_score (tg st) t fh") auto

lemma levelled_record:
  assumes "scored st" "(fh, t) \<notin> vis st" "levelled dep st" "dep (fh, t) = d" "s = lvl d"
  shows "levelled dep \<lparr>bq = bq st @ [(t, d, fh, s)], tg = record_path t fh s (tg st), vis = insert (fh, t) (vis st)\<rparr>"
  using assms scored_fresh [OF assms(1,2)]
  by (auto simp: levelled_def group_score_record score_of_def depth_of_def split: if_splits)

lemma reliability_none: "reliability rnd ns {} = 1"
  by (simp add: reliability_def)

lemma lvl_Suc: "d \<ge> 1 \<Longrightarrow> lvl (d + 1) = lvl d * (7 / 10)"
  by (cases d) (simp_all add: lvl_def)

text \<open>Visiting a list of neighbours from an item of depth \<open>d\<close>.\<close>

lemma visit_new:
  assumes "n \<noteq> src" "(fh, n) \<notin> vis st" "s = fmul rnd (fmul rnd ps (DECAY rnd)) (reliability rnd (neighbors g n) vd)"
  shows "visit rnd src g vd d fh ps n st =
    \<lparr>bq = bq st @ [(n, d + 1, fh, s)], tg = record_path n fh s (tg st), vis = insert (fh, n) (vis st)\<rparr>"
  using assms by (simp add: visit_def Let_def)

lemma expand_Cons: "expand rnd src g vd d fh ps (n # ns) st = expand rnd src g vd d fh ps ns (visit rnd src g vd d fh ps n st)"
  by (simp add: expand_def)

lemma expand_spec:
  assumes "scored st"
  shows "\<exists>new. let st' = expand rnd src g vd d fh ps ns st in
     bq st' = bq st @ new \<and> vis st' = vis st \<union> {fh} \<times> (set ns - {src}) \<and> scored st'
   \<and> (\<forall>it \<in> set new. depth_of it = d + 1) \<and> node_key ` set new = vis st' - vis st"
  using assms
proof (induction ns arbitrary: st)
  case Nil
  then show ?case by (simp add: expand_def)
next
  case (Cons n ns)
  let ?v = "visit rnd src g vd d fh ps n st"
  show ?case
  proof (cases "n = src \<or> (fh, n) \<in> vis st")
    case True
    then have "?v = st" by (simp add: visit_def)
    with Cons.IH [OF Cons.prems] True show ?thesis unfolding expand_Cons by (auto simp: Let_def)
  next
    case False
    define s where "s = fmul rnd (fmul rnd ps (DECAY rnd)) (reliability rnd (neighbors g n) vd)"
    have v: "?v = \<lparr>bq = bq st @ [(n, d + 1, fh, s)], tg = record_path n fh s (tg st), vis = insert (fh, n) (vis st)\<rparr>"
      using False by (intro visit_new) (simp_all add: s_def)
    have "scored ?v" unfolding v by (rule scored_record [OF Cons.prems])
    from Cons.IH [OF this] obtain new where
      new: "bq (expand rnd src g vd d fh ps ns ?v) = bq ?v @ new"
        "vis (expand rnd src g vd d fh ps ns ?v) = vis ?v \<union> {fh} \<times> (set ns - {src})"
        "scored (expand rnd src g vd d fh ps ns ?v)" "\<forall>it \<in> set new. depth_of it = d + 1"
        "node_key ` set new = vis (expand rnd src g vd d fh ps ns ?v) - vis ?v"
      by (auto simp: Let_def)
    show ?thesis
      unfolding expand_Cons using new False
      by (intro exI [of _ "(n, d + 1, fh, s) # new"]) (auto simp: Let_def v depth_of_def node_key_def)
  qed
qed

lemma expand_levelled:
  assumes "scored st" "levelled D st" "ps = lvl d" "d \<ge> 1" "\<forall>x. (fh, x) \<notin> vis st \<longrightarrow> D (fh, x) = d + 1"
  shows "levelled D (expand id src g {} d fh ps ns st)"
  using assms
proof (induction ns arbitrary: st)
  case Nil
  then show ?case by (simp add: expand_def)
next
  case (Cons n ns)
  let ?v = "visit id src g {} d fh ps n st"
  show ?case
  proof (cases "n = src \<or> (fh, n) \<in> vis st")
    case True
    then have "?v = st" by (simp add: visit_def)
    then show ?thesis unfolding expand_Cons using Cons.IH [OF Cons.prems] by (simp only:)
  next
    case False
    have v: "?v = \<lparr>bq = bq st @ [(n, d + 1, fh, lvl (d + 1))], tg = record_path n fh (lvl (d + 1)) (tg st), vis = insert (fh, n) (vis st)\<rparr>"
    proof (rule visit_new)
      show "lvl (d + 1) = fmul id (fmul id ps (DECAY id)) (reliability id (neighbors g n) {})"
        unfolding Cons.prems(3) lvl_Suc [OF Cons.prems(4)] fmul_def DECAY_def reliability_none by simp
    qed (use False in simp_all)
    have "scored ?v" unfolding v by (rule scored_record [OF Cons.prems(1)])
    moreover have "levelled D ?v" unfolding v using False Cons.prems by (intro levelled_record) auto
    moreover have "\<forall>x. (fh, x) \<notin> vis ?v \<longrightarrow> D (fh, x) = d + 1" using Cons.prems(5) by (simp add: v)
    ultimately show ?thesis unfolding expand_Cons using Cons.IH [OF _ _ Cons.prems(3,4)] by blast
  qed
qed

lemma fqueue_Cons:
  assumes "fqueue st = (x, d) # rest"
  obtains ps q where "bq st = (snd x, d, fst x, ps) # q" "rest = map (\<lambda>it. (node_key it, depth_of it)) q"
  using assms unfolding fqueue_def node_key_def depth_of_def by (cases "bq st") auto

lemma bfs_step_pop:
  assumes "flabels rnd vd dep st" "fqueue st = (x, d) # rest" "d \<ge> md"
  shows "fqueue (bfs_step rnd src g vd md st) = rest \<and> vis (bfs_step rnd src g vd md st) = vis st
    \<and> flabels rnd vd dep (bfs_step rnd src g vd md st)"
proof -
  obtain ps q where q: "bq st = (snd x, d, fst x, ps) # q" "rest = map (\<lambda>it. (node_key it, depth_of it)) q"
    using fqueue_Cons [OF assms(2)] .
  with assms show ?thesis
    by (simp add: bfs_step_def fqueue_def flabels_def scored_def levelled_def)
qed

lemma bfs_step_expand:
  assumes lab: "flabels rnd vd dep st" and fq: "fqueue st = (x, d) # rest" and d: "d < md"
    and x: "x \<in> vis st" "dep x = d" and pos: "d \<ge> 1"
  shows "\<exists>new. fqueue (bfs_step rnd src g vd md st) = rest @ new \<and> (\<forall>it \<in> set new. snd it = d + 1)
    \<and> vis (bfs_step rnd src g vd md st) = vis st \<union> fsucc src g x \<and> fst ` set new = fsucc src g x - vis st
    \<and> flabels rnd vd (\<lambda>p. if p \<in> vis st then dep p else d + 1) (bfs_step rnd src g vd md st)"
proof -
  obtain ps q where q: "bq st = (snd x, d, fst x, ps) # q" "rest = map (\<lambda>it. (node_key it, depth_of it)) q"
    using fqueue_Cons [OF fq] .
  let ?e = "expand rnd src g vd d (fst x) ps (neighbors g (snd x)) (st\<lparr>bq := q\<rparr>)"
  let ?D = "\<lambda>p. if p \<in> vis st then dep p else d + 1"
  have st: "bfs_step rnd src g vd md st = ?e" using q(1) d by (simp add: bfs_step_def)
  have sc: "scored (st\<lparr>bq := q\<rparr>)" using lab by (simp add: flabels_def scored_def)
  from expand_spec [OF this, of rnd src g vd d "fst x" ps "neighbors g (snd x)"] obtain new where
    new: "bq ?e = q @ new" "vis ?e = vis st \<union> fsucc src g x" "scored ?e" "\<forall>it \<in> set new. depth_of it = d + 1"
      "node_key ` set new = fsucc src g x - vis st"
    by (auto simp: Let_def fsucc_def Un_Diff)
  have "levelled ?D ?e" if id: "rnd = id" "vd = {}"
  proof -
    have l: "levelled dep st" using lab id by (simp add: flabels_def)
    have ps: "ps = lvl d" using l by (simp add: levelled_def q(1) score_of_def depth_of_def)
    have dom: "group_score (tg st) t fh = Some s \<Longrightarrow> (fh, t) \<in> vis st" for t fh s
      using sc by (auto simp: scored_def)
    have "levelled ?D (st\<lparr>bq := q\<rparr>)" using l dom by (simp add: levelled_def q(1))
    from expand_levelled [OF sc this ps pos] show ?thesis by (simp add: id)
  qed
  then have lab': "flabels rnd vd ?D ?e" using new(3) by (simp add: flabels_def)
  show ?thesis
    unfolding st using new lab'
    by (intro exI [of _ "map (\<lambda>it. (node_key it, depth_of it)) new"]) (simp add: fqueue_def q(2) image_image)
qed

lemma seed_spec:
  assumes "scored st" "vis st = (\<lambda>x. (x, x)) ` seeded" "node_key ` set (bq st) = vis st" "\<forall>it \<in> set (bq st). depth_of it = 1"
    "rnd = id \<and> vd = {} \<longrightarrow> levelled (\<lambda>_. 1) st"
  shows "let st' = seed rnd src g vd ns seeded st in flabels rnd vd (\<lambda>_. 1) st'
    \<and> vis st' = (\<lambda>x. (x, x)) ` (seeded \<union> (set ns - {src}))
    \<and> node_key ` set (bq st') = vis st' \<and> (\<forall>it \<in> set (bq st'). depth_of it = 1)"
  using assms
proof (induction ns arbitrary: seeded st)
  case Nil
  then show ?case by (simp add: flabels_def)
next
  case (Cons n ns)
  show ?case
  proof (cases "n = src \<or> n \<in> seeded")
    case True
    then have eq: "seed rnd src g vd (n # ns) seeded st = seed rnd src g vd ns seeded st"
      "seeded \<union> (set (n # ns) - {src}) = seeded \<union> (set ns - {src})" by auto
    show ?thesis unfolding eq by (rule Cons.IH [OF Cons.prems])
  next
    case False
    define p where "p = reliability rnd (neighbors g n) vd"
    define st' where "st' = \<lparr>bq = bq st @ [(n, 1, n, p)], tg = record_path n n p (tg st), vis = insert (n, n) (vis st)\<rparr>"
    have eq: "seed rnd src g vd (n # ns) seeded st = seed rnd src g vd ns (insert n seeded) st'"
      "seeded \<union> (set (n # ns) - {src}) = insert n seeded \<union> (set ns - {src})"
      using False by (auto simp: st'_def p_def Let_def)
    have "scored st'" unfolding st'_def by (rule scored_record [OF Cons.prems(1)])
    moreover have "rnd = id \<and> vd = {} \<longrightarrow> levelled (\<lambda>_. 1) st'"
      unfolding st'_def using False Cons.prems(1,2,5)
      by (intro impI levelled_record) (auto simp: p_def reliability_none lvl_def)
    ultimately show ?thesis
      unfolding eq using Cons.prems(2-4)
      by (intro Cons.IH) (auto simp: st'_def node_key_def depth_of_def)
  qed
qed

abbreviation bfs_empty :: bfs where
  "bfs_empty \<equiv> \<lparr>bq = [], tg = [], vis = {}\<rparr>"

lemma seed_start:
  fixes rnd src g vd ns
  defines "st \<equiv> seed rnd src g vd ns {} bfs_empty"
  shows "flabels rnd vd (\<lambda>_. 1) st" "vis st = fseeds src ns" "fst ` set (fqueue st) = vis st"
    "\<forall>it \<in> set (fqueue st). snd it = 1"
proof -
  have "scored bfs_empty" "levelled (\<lambda>_. 1) bfs_empty"
    by (simp_all add: scored_def levelled_def tg_ok_def group_score_def)
  from seed_spec [OF this(1), of "{}" rnd vd src g ns] this(2)
  show "flabels rnd vd (\<lambda>_. 1) st" "vis st = fseeds src ns" "fst ` set (fqueue st) = vis st"
    "\<forall>it \<in> set (fqueue st). snd it = 1"
    by (simp_all add: Let_def st_def fseeds_def fqueue_def image_image)
qed

interpretation fwd: level_search fqueue vis "bfs_step rnd src g vd md" "fsucc src g" md "flabels rnd vd"
  for rnd src g vd md
proof
  show "fqueue (bfs_step rnd src g vd md st) = rest \<and> vis (bfs_step rnd src g vd md st) = vis st
      \<and> flabels rnd vd dep (bfs_step rnd src g vd md st)"
    if "flabels rnd vd dep st" "fqueue st = (x, d) # rest" "md \<le> d" for dep st x d rest
    using that by (rule bfs_step_pop)
qed (rule bfs_step_expand)

abbreviation fwd_inv where
  "fwd_inv rnd src g vd md \<equiv> level_search.level_inv fqueue vis (fsucc src g) md (flabels rnd vd)"

lemma fqueue_Nil [simp]: "fqueue st = [] \<longleftrightarrow> bq st = []"
  by (simp add: fqueue_def)

lemma bfs_run_inv:
  "(\<exists>dep. fwd_inv rnd src g vd md (fseeds src ns) dep (bfs_run rnd src g ns vd md))
    \<and> bq (bfs_run rnd src g ns vd md) = []"
  unfolding bfs_run_def
proof (rule bfs_loop_invariant)
  show "\<exists>dep. fwd_inv rnd src g vd md (fseeds src ns) dep (seed rnd src g vd ns {} bfs_empty)"
    using fwd.level_inv_seed [OF _ seed_start(2,4,1)] seed_start(2,3) by metis
  show "\<exists>dep. fwd_inv rnd src g vd md (fseeds src ns) dep (bfs_step rnd src g vd md st)"
    if "\<exists>dep. fwd_inv rnd src g vd md (fseeds src ns) dep st" "bq st \<noteq> []" for st
    using fwd.level_inv_step [OF that(1)] that(2) by simp
qed

lemma bfs_run_visited:
  assumes "md \<ge> 1"
  shows "(fh, t) \<in> vis (bfs_run rnd src g ns vd md) \<longleftrightarrow> fh \<in> set ns - {src} \<and> hops g src md fh t \<noteq> None"
    "scored (bfs_run rnd src g ns vd md)"
    "rnd = id \<Longrightarrow> vd = {} \<Longrightarrow> group_score (tg (bfs_run rnd src g ns vd md)) t fh = Some s \<Longrightarrow>
      \<exists>k. hops g src md fh t = Some k \<and> s = (7 / 10) ^ k"
proof -
  let ?st = "bfs_run rnd src g ns vd md"
  obtain dep where inv: "fwd_inv rnd src g vd md (fseeds src ns) dep ?st" and q: "bq ?st = []"
    using bfs_run_inv by blast
  note fin = fwd.level_inv_final [OF inv _ assms, unfolded fqueue_Nil, OF q]
  show "(fh, t) \<in> vis ?st \<longleftrightarrow> fh \<in> set ns - {src} \<and> hops g src md fh t \<noteq> None"
    unfolding fin(2) level_hops by auto
  have lab: "flabels rnd vd dep ?st" by (rule fwd.level_invD(7) [OF inv])
  then show sc: "scored ?st" by (simp add: flabels_def)
  assume "rnd = id" "vd = {}" and s: "group_score (tg ?st) t fh = Some s"
  with lab have "s = lvl (dep (fh, t))" by (auto simp: flabels_def levelled_def)
  moreover have "(fh, t) \<in> vis ?st" using sc s by (auto simp: scored_def)
  then obtain k where k: "level (fsucc src g) (fseeds src ns) md (fh, t) = Some k" using fin(2) by blast
  moreover have "dep (fh, t) = k + 1" using fin(1) k by blast
  ultimately show "\<exists>k. hops g src md fh t = Some k \<and> s = (7 / 10) ^ k"
    by (auto simp: level_hops lvl_def split: if_splits)
qed

section \<open>Who is scored\<close>

lemma forward_keys: "map fst (forward_bfs_inner rnd src g ns vd md) = map fst (tg (bfs_run rnd src g ns vd md))"
  by (simp add: forward_bfs_inner_def Let_def comp_def)

lemma scored_keys: "scored st \<Longrightarrow> t \<in> fst ` set (tg st) \<longleftrightarrow> (\<exists>fh. (fh, t) \<in> vis st)"
  using tg_ok_key [of "tg st" t] by (simp add: scored_def)

lemma hops_None: "hops g src md fh t \<noteq> None \<longleftrightarrow> (\<exists>k < md. t \<in> reach_in g src fh k)"
  by (auto simp: hops_def find_None_iff)

lemma forward_key_set:
  assumes "md \<ge> 1"
  shows "fst ` set (forward_bfs_inner rnd src g ns vd md) = {t. \<exists>fh \<in> set ns - {src}. \<exists>k < md. t \<in> reach_in g src fh k}"
proof (rule set_eqI)
  note v = bfs_run_visited [OF assms, where rnd = rnd and src = src and g = g and ns = ns and vd = vd]
  show "t \<in> fst ` set (forward_bfs_inner rnd src g ns vd md) \<longleftrightarrow>
      t \<in> {t. \<exists>fh \<in> set ns - {src}. \<exists>k < md. t \<in> reach_in g src fh k}" for t
    unfolding list.set_map [symmetric] forward_keys
    unfolding list.set_map scored_keys [OF v(2)] v(1) hops_None mem_Collect_eq by blast
qed

text \<open>C38. The search terminates and scores exactly the users it should: each target appears once, and a
  target appears if and only if a walk of at most \<open>max_depth\<close> edges leads from the viewer over one of
  the given first hops to it without returning to the viewer.\<close>

theorem forward_reaches:
  assumes "max_depth \<ge> 1"
  shows "distinct (map fst (forward_bfs_inner rnd src g ns vd max_depth))
    \<and> set (map fst (forward_bfs_inner rnd src g ns vd max_depth)) =
      {t. \<exists>fh \<in> set ns - {src}. \<exists>k < max_depth. t \<in> reach_in g src fh k}"
proof
  have "scored (bfs_run rnd src g ns vd max_depth)" by (rule bfs_run_visited(2) [OF assms])
  then show "distinct (map fst (forward_bfs_inner rnd src g ns vd max_depth))"
    unfolding forward_keys by (simp add: scored_def tg_ok_def)
qed (simp add: forward_key_set [OF assms])

theorem forward_reaches_witness:
  "map fst (forward_bfs_inner id 0 (the (from_edges 4 [(0, 1), (1, 2), (2, 3), (2, 0)])) [1] {} 3) = [1, 2, 3]
   \<and> set (map fst (forward_bfs_inner id 0 (the (from_edges 4 [(0, 1), (1, 2), (2, 3), (2, 0)])) [1] {} 3)) =
      {t. \<exists>fh \<in> set [1] - {0}. \<exists>k < 3. t \<in> reach_in (the (from_edges 4 [(0, 1), (1, 2), (2, 3), (2, 0)])) 0 fh k}"
proof
  show "map fst (forward_bfs_inner id 0 (the (from_edges 4 [(0, 1), (1, 2), (2, 3), (2, 0)])) [1] {} 3) = [1, 2, 3]"
    by code_simp
qed (rule forward_reaches [THEN conjunct2], simp)

end
