(* ===== verification/Trust_Scores.thy ===== *)
theory Trust_Scores
  imports Trust_Bfs
begin

text \<open>
  What the forward search of \<open>server/src/trust.rs\<close> computes: every score is between 0 and 1 whatever the
  rounding, a distrusted user scores 0, and without distrusts the score of a target is the
  independent combination, over the first hops that reach it, of the decay to the power of the
  distance. With distrusts the score of a group is the one of the first path found.
\<close>

section \<open>Ranges\<close>

lemma rounding_unit:
  assumes "f64_rounding rnd" "0 \<le> x" "x \<le> 1"
  shows "0 \<le> rnd x" "rnd x \<le> 1"
  using assms monoD [of rnd 0 x] monoD [of rnd x 1] by (simp_all add: f64_rounding_def)

lemma fmul_unit:
  assumes "f64_rounding rnd" "0 \<le> a" "a \<le> 1" "0 \<le> b" "b \<le> 1"
  shows "0 \<le> fmul rnd a b \<and> fmul rnd a b \<le> 1"
  using rounding_unit [OF assms(1), of "a * b"] assms(2-) by (simp add: fmul_def mult_le_one)

lemma fsub_unit:
  assumes "f64_rounding rnd" "0 \<le> b" "b \<le> 1"
  shows "0 \<le> fsub rnd 1 b \<and> fsub rnd 1 b \<le> 1"
  using rounding_unit [OF assms(1), of "1 - b"] assms(2-) by (simp add: fsub_def)

lemma powi_unit:
  assumes "f64_rounding rnd" "0 \<le> x" "x \<le> 1"
  shows "0 \<le> f64_powi rnd x n \<and> f64_powi rnd x n \<le> 1"
  by (induction n) (use fmul_unit [OF assms(1)] assms(2,3) in simp_all)

lemma reliability_unit: "f64_rounding rnd \<Longrightarrow> 0 \<le> reliability rnd ns vd \<and> reliability rnd ns vd \<le> 1"
  unfolding reliability_def DISTRUST_PENALTY_def
  by (intro powi_unit) (use fsub_unit [of rnd "1 / 4"] in simp_all)

lemma DECAY_unit: "f64_rounding rnd \<Longrightarrow> 0 \<le> DECAY rnd \<and> DECAY rnd \<le> 1"
  using rounding_unit [of rnd "7 / 10"] by (simp add: DECAY_def)

definition unit_state :: "bfs \<Rightarrow> bool" where
  "unit_state st \<longleftrightarrow> (\<forall>it \<in> set (bq st). 0 \<le> score_of it \<and> score_of it \<le> 1)
     \<and> (\<forall>e \<in> set (tg st). \<forall>p \<in> set (snd e). 0 \<le> snd p \<and> snd p \<le> 1)"

lemma set_add_group: "p \<in> set (add_group grp s gs) \<Longrightarrow> p \<in> set gs \<or> snd p = s"
  by (induction gs) (auto split: if_splits)

lemma unit_record:
  assumes "unit_state st" "0 \<le> s" "s \<le> 1"
  shows "unit_state \<lparr>bq = bq st @ [(n, d, fh, s)], tg = record_path n fh s (tg st), vis = V\<rparr>"
proof -
  have upd: "e \<in> set (AList.update k v xs) \<Longrightarrow> e = (k, v) \<or> e \<in> set xs" for e k v and xs :: "(nat \<times> path_groups) list"
    by (induction xs) (auto split: if_splits)
  have old: "0 \<le> snd p \<and> snd p \<le> 1" if "p \<in> set gs" "map_of (tg st) n = Some gs" for p gs
  proof -
    have "(n, gs) \<in> set (tg st)" using that(2) by (rule map_of_SomeD)
    with that(1) assms(1) show ?thesis by (fastforce simp: unit_state_def)
  qed
  have "0 \<le> snd p \<and> snd p \<le> 1" if "e \<in> set (record_path n fh s (tg st))" "p \<in> set (snd e)" for e p
    using upd [OF that(1) [unfolded record_path_def]]
  proof
    assume "e = (n, add_group fh s (case map_of (tg st) n of None \<Rightarrow> [] | Some gs \<Rightarrow> gs))"
    with that(2) have "p \<in> set (case map_of (tg st) n of None \<Rightarrow> [] | Some gs \<Rightarrow> gs) \<or> snd p = s"
      by (auto dest: set_add_group)
    with old [of p] assms(2,3) show ?thesis by (cases "map_of (tg st) n") auto
  next
    assume "e \<in> set (tg st)"
    with assms(1) that(2) show ?thesis unfolding unit_state_def by blast
  qed
  with assms show ?thesis by (auto simp: unit_state_def score_of_def)
qed

lemma unit_expand:
  assumes "f64_rounding rnd" "0 \<le> ps" "ps \<le> 1" "unit_state st"
  shows "unit_state (expand rnd src g vd d fh ps ns st)"
  using assms(4)
proof (induction ns arbitrary: st)
  case Nil
  then show ?case by (simp add: expand_def)
next
  case (Cons n ns)
  have "unit_state (visit rnd src g vd d fh ps n st)"
  proof (cases "n = src \<or> (fh, n) \<in> vis st")
    case False
    have s: "0 \<le> fmul rnd (fmul rnd ps (DECAY rnd)) (reliability rnd (neighbors g n) vd)
        \<and> fmul rnd (fmul rnd ps (DECAY rnd)) (reliability rnd (neighbors g n) vd) \<le> 1"
      using fmul_unit [OF assms(1)] DECAY_unit [OF assms(1)] reliability_unit [OF assms(1)] assms(2,3) by simp
    from False have "n \<noteq> src" "(fh, n) \<notin> vis st" by simp_all
    from visit_new [OF this refl] show ?thesis using unit_record [OF Cons.prems] s by simp
  qed (use Cons.prems in \<open>auto simp: visit_def\<close>)
  from Cons.IH [OF this] show ?case by (simp add: expand_Cons)
qed

lemma unit_seed:
  assumes "f64_rounding rnd" "unit_state st"
  shows "unit_state (seed rnd src g vd ns seeded st)"
  using assms(2)
proof (induction ns arbitrary: st seeded)
  case (Cons n ns)
  show ?case
  proof (cases "n = src \<or> n \<in> seeded")
    case True
    with Cons show ?thesis by simp
  next
    case False
    then have "seed rnd src g vd (n # ns) seeded st = seed rnd src g vd ns (insert n seeded)
      \<lparr>bq = bq st @ [(n, 1, n, reliability rnd (neighbors g n) vd)],
       tg = record_path n n (reliability rnd (neighbors g n) vd) (tg st), vis = insert (n, n) (vis st)\<rparr>"
      by (simp add: Let_def)
    with Cons reliability_unit [OF assms(1)] unit_record show ?thesis by simp
  qed
qed simp

lemma unit_run:
  assumes "f64_rounding rnd"
  shows "unit_state (bfs_run rnd src g ns vd md)"
  unfolding bfs_run_def
proof (rule bfs_loop_invariant [THEN conjunct1])
  show "unit_state (seed rnd src g vd ns {} bfs_empty)"
    by (rule unit_seed [OF assms]) (simp add: unit_state_def)
  show "unit_state (bfs_step rnd src g vd md st)" if u: "unit_state st" and ne: "bq st \<noteq> []" for st
  proof -
    obtain cur d fh ps rest where q: "bq st = (cur, d, fh, ps) # rest" by (cases "bq st") (use ne in auto)
    have "0 \<le> ps" "ps \<le> 1" "unit_state (st\<lparr>bq := rest\<rparr>)" using u by (auto simp: unit_state_def q score_of_def)
    with unit_expand [OF assms] show ?thesis by (simp add: bfs_step_def q)
  qed
qed

lemma combined_unit:
  assumes r: "f64_rounding rnd" and "\<forall>p \<in> set gs. 0 \<le> snd p \<and> snd p \<le> 1"
  shows "0 \<le> combined_score rnd gs \<and> combined_score rnd gs \<le> 1"
proof -
  have "0 \<le> acc \<Longrightarrow> acc \<le> 1 \<Longrightarrow>
      0 \<le> fold (\<lambda>e acc. fmul rnd acc (fsub rnd 1 (snd e))) gs acc
      \<and> fold (\<lambda>e acc. fmul rnd acc (fsub rnd 1 (snd e))) gs acc \<le> 1" for acc
    using assms(2)
  proof (induction gs arbitrary: acc)
    case (Cons p gs)
    have "0 \<le> fsub rnd 1 (snd p)" "fsub rnd 1 (snd p) \<le> 1" using fsub_unit [OF r, of "snd p"] Cons.prems(3) by simp_all
    with fmul_unit [OF r Cons.prems(1,2)] Cons show ?case by simp
  qed simp
  from this [of 1] show ?thesis
    unfolding combined_score_def using fsub_unit [OF r] by simp
qed

lemma forward_bfs_inner_alt:
  "forward_bfs_inner rnd src g ns vd md =
     map (\<lambda>e. (fst e, if fst e \<in> vd then 0 else combined_score rnd (snd e))) (tg (bfs_run rnd src g ns vd md))"
  by (auto simp: forward_bfs_inner_def Let_def)

text \<open>Scores are probabilities under any rounding that is monotone and exact at 0 and 1, and a user
  whom the viewer distrusts scores 0 whatever paths lead to them.\<close>

theorem forward_scores_range:
  assumes "f64_rounding rnd" "(t, s) \<in> set (forward_bfs_inner rnd src g ns vd max_depth)"
  shows "0 \<le> s \<and> s \<le> 1 \<and> (t \<in> vd \<longrightarrow> s = 0)"
proof -
  obtain gs where gs: "(t, gs) \<in> set (tg (bfs_run rnd src g ns vd max_depth))"
    "s = (if t \<in> vd then 0 else combined_score rnd gs)"
    using assms(2) by (auto simp: forward_bfs_inner_alt)
  have "\<forall>p \<in> set gs. 0 \<le> snd p \<and> snd p \<le> 1"
    using unit_run [OF assms(1)] gs(1) unfolding unit_state_def by force
  from combined_unit [OF assms(1) this] gs(2) show ?thesis by simp
qed

theorem forward_scores_range_witness:
  "\<exists>s. (2, s) \<in> set (forward_bfs_inner id 0 (the (from_edges 4 [(0, 1), (1, 2), (2, 3)])) [1] {3} 3) \<and> 0 \<le> s \<and> s \<le> 1"
proof -
  have m: "(2, 21 / 40) \<in> set (forward_bfs_inner id 0 (the (from_edges 4 [(0, 1), (1, 2), (2, 3)])) [1] {3} 3)"
    by code_simp
  have "f64_rounding id" by (simp add: f64_rounding_def mono_def)
  from forward_scores_range [OF this m] m show ?thesis by blast
qed

section \<open>The score without distrusts\<close>

lemma combined_exact:
  assumes "gs \<noteq> []" "distinct (map fst gs)"
  shows "combined_score id gs = 1 - (\<Prod>k \<in> fst ` set gs. 1 - the (map_of gs k))"
proof -
  have "fold (\<lambda>e acc. acc * (1 - snd e)) gs acc = acc * (\<Prod>k \<in> fst ` set gs. 1 - the (map_of gs k))" for acc
    using assms(2)
  proof (induction gs arbitrary: acc)
    case (Cons p gs)
    have "(\<Prod>k \<in> fst ` set gs. 1 - the (map_of (p # gs) k)) = (\<Prod>k \<in> fst ` set gs. 1 - the (map_of gs k))"
    proof (rule prod.cong [OF refl])
      fix k assume "k \<in> fst ` set gs"
      moreover have "fst p \<notin> fst ` set gs" using Cons.prems by simp
      ultimately have "k \<noteq> fst p" by blast
      then show "1 - the (map_of (p # gs) k) = 1 - the (map_of gs k)" by simp
    qed
    with Cons.IH [of "acc * (1 - snd p)"] Cons.prems show ?case by (simp add: mult.assoc)
  qed simp
  with assms(1) show ?thesis by (simp add: combined_score_def fmul_def fsub_def)
qed

text \<open>The specification: the first hops over which the target is reached are independent sources of
  evidence, each worth the decay to the power of its distance to the target.\<close>

definition via :: "CsrGraph \<Rightarrow> nat \<Rightarrow> nat \<Rightarrow> nat list \<Rightarrow> nat \<Rightarrow> nat list" where
  "via g src md ns t = filter (\<lambda>fh. fh \<noteq> src \<and> hops g src md fh t \<noteq> None) (remdups ns)"

definition trust_score :: "CsrGraph \<Rightarrow> nat \<Rightarrow> nat \<Rightarrow> nat list \<Rightarrow> nat \<Rightarrow> real option" where
  "trust_score g src md ns t =
     (if via g src md ns t = [] then None
      else Some (1 - (\<Prod>fh\<leftarrow>via g src md ns t. 1 - (7 / 10) ^ the (hops g src md fh t))))"

lemma trust_score_alt:
  "trust_score g src md ns t =
     (let V = {fh \<in> set ns - {src}. hops g src md fh t \<noteq> None} in
      if V = {} then None else Some (1 - (\<Prod>fh \<in> V. 1 - (7 / 10) ^ the (hops g src md fh t))))"
proof -
  have set: "set (via g src md ns t) = {fh \<in> set ns - {src}. hops g src md fh t \<noteq> None}"
    by (auto simp: via_def)
  have "(\<Prod>fh\<leftarrow>via g src md ns t. f fh) = (\<Prod>fh \<in> set (via g src md ns t). f fh)" for f :: "nat \<Rightarrow> real"
    by (rule prod.distinct_set_conv_list [symmetric]) (simp add: via_def)
  moreover have "via g src md ns t = [] \<longleftrightarrow> set (via g src md ns t) = {}" by simp
  ultimately show ?thesis unfolding trust_score_def Let_def set by (simp only:)
qed

lemma map_of_map_snd: "map_of (map (\<lambda>e. (fst e, f (fst e) (snd e))) xs) k = map_option (f k) (map_of xs k)"
  by (induction xs) auto

lemma map_of_forward:
  "map_of (forward_bfs_inner rnd src g ns vd md) t =
     map_option (\<lambda>gs. if t \<in> vd then 0 else combined_score rnd gs) (map_of (tg (bfs_run rnd src g ns vd md)) t)"
  unfolding forward_bfs_inner_alt by (rule map_of_map_snd)

text \<open>The combined score of a table entry, from what its groups are.\<close>

lemma combined_groups:
  assumes ok: "tg_ok tgs" and grp: "\<forall>c. group_score tgs t c = (if c \<in> V then Some (f c) else None)"
  shows "map_option (combined_score id) (map_of tgs t) = (if V = {} then None else Some (1 - (\<Prod>c \<in> V. 1 - f c)))"
proof (cases "map_of tgs t")
  case None
  then have "c \<notin> V" for c using grp [rule_format, of c] by (auto simp: group_score_def)
  then have "V = {}" by blast
  with None show ?thesis by simp
next
  case (Some gs)
  then have gs: "gs \<noteq> []" "distinct (map fst gs)" "\<And>c. map_of gs c = (if c \<in> V then Some (f c) else None)"
    using ok map_of_SomeD [OF Some] grp by (auto simp: tg_ok_def list_all_iff group_score_def)
  have keys: "fst ` set gs = V"
  proof (rule set_eqI)
    show "c \<in> fst ` set gs \<longleftrightarrow> c \<in> V" for c
      using gs(3) [of c] map_of_eq_None_iff [of gs c] by (auto split: if_splits)
  qed
  then have "V \<noteq> {}" using gs(1) by (metis image_is_empty set_empty)
  moreover have "(\<Prod>k \<in> fst ` set gs. 1 - the (map_of gs k)) = (\<Prod>c \<in> V. 1 - f c)"
    by (rule prod.cong [OF keys]) (simp add: gs(3))
  ultimately show ?thesis using Some combined_exact [OF gs(1,2)] by simp
qed

lemma forward_exact:
  assumes md: "md \<ge> 1"
  shows "map_of (forward_bfs_inner id src g ns {} md) t = trust_score g src md ns t"
proof -
  let ?tg = "tg (bfs_run id src g ns {} md)"
  let ?V = "{fh \<in> set ns - {src}. hops g src md fh t \<noteq> None}"
  note run = bfs_run_visited [OF md, where rnd = id and src = src and g = g and ns = ns and vd = "{}"]
  have ok: "tg_ok ?tg" using run(2) by (simp add: scored_def)
  have dom: "(\<exists>s. group_score ?tg t fh = Some s) \<longleftrightarrow> fh \<in> ?V" for fh
    using run(2) run(1) [of fh t] by (simp add: scored_def)
  have val: "s = (7 / 10) ^ the (hops g src md fh t)" if "group_score ?tg t fh = Some s" for fh s
    using run(3) [OF refl refl that] by auto
  have "group_score ?tg t fh = (if fh \<in> ?V then Some ((7 / 10) ^ the (hops g src md fh t)) else None)" for fh
    using dom [of fh] val [of fh] by (cases "group_score ?tg t fh") auto
  then show ?thesis
    using combined_groups [OF ok, of t ?V "\<lambda>fh. (7 / 10) ^ the (hops g src md fh t)"]
    by (simp add: map_of_forward trust_score_alt Let_def)
qed

text \<open>C35. For a viewer without distrusts, and with the rounding of the arithmetic left aside, the search
  computes the specified score: one minus the product, over the distinct first hops that reach the
  target within the limit, of one minus \<open>0.7\<close> to the number of edges from the first hop to the target
  on a shortest walk that avoids the viewer; targets out of reach are absent.\<close>

theorem forward_score_exact:
  assumes "ds src = None \<or> ds src = Some {}"
  shows "map_of (forward_bfs id src g ds) t = trust_score g src MAX_DEPTH (neighbors g src) t"
proof -
  have "(case ds src of None \<Rightarrow> {} | Some s \<Rightarrow> s) = {}" using assms by auto
  then show ?thesis unfolding forward_bfs_def using forward_exact [of MAX_DEPTH] by (simp add: MAX_DEPTH_def)
qed

theorem forward_score_exact_witness:
  "map_of (forward_bfs id 0 (the (from_edges 4 [(0, 1), (0, 2), (1, 3), (2, 3), (2, 1)])) Map.empty) 3 = Some (91 / 100)"
proof -
  have "trust_score (the (from_edges 4 [(0, 1), (0, 2), (1, 3), (2, 3), (2, 1)])) 0 MAX_DEPTH
      (neighbors (the (from_edges 4 [(0, 1), (0, 2), (1, 3), (2, 3), (2, 1)])) 0) 3 = Some (91 / 100)"
    by code_simp
  with forward_score_exact [of Map.empty 0 "the (from_edges 4 [(0, 1), (0, 2), (1, 3), (2, 3), (2, 1)])" 3]
  show ?thesis by simp
qed

section \<open>The score with distrusts\<close>

text \<open>Two databases that hold the same trust edges and the same distrusts can give one viewer
  different scores for the same user, on either side of the visibility threshold: the group of a first
  hop keeps the score of the path found first, not of the best path, and which path is found first
  depends on the order of the edges.\<close>

theorem score_depends_on_edge_order:
  "\<exists>es es' g g' s s'. set es = set es' \<and> from_edges 6 es = Some g \<and> from_edges 6 es' = Some g'
     \<and> map_of (forward_bfs id 0 g [0 \<mapsto> {5}]) 4 = Some s \<and> map_of (forward_bfs id 0 g' [0 \<mapsto> {5}]) 4 = Some s'
     \<and> s < MINIMUM_TRUST_THRESHOLD id \<and> MINIMUM_TRUST_THRESHOLD id \<le> s'"
proof -
  let ?es = "[(0, 1), (1, 2), (1, 3), (2, 4), (3, 4), (2, 5)] :: (nat \<times> nat) list"
  let ?es' = "[(0, 1), (1, 3), (1, 2), (2, 4), (3, 4), (2, 5)] :: (nat \<times> nat) list"
  have "from_edges 6 ?es = Some (the (from_edges 6 ?es))" "from_edges 6 ?es' = Some (the (from_edges 6 ?es'))"
    by code_simp+
  moreover have "map_of (forward_bfs id 0 (the (from_edges 6 ?es)) [0 \<mapsto> {5}]) 4 = Some (147 / 400)"
    "map_of (forward_bfs id 0 (the (from_edges 6 ?es')) [0 \<mapsto> {5}]) 4 = Some (49 / 100)"
    by code_simp+
  moreover have "147 / 400 < MINIMUM_TRUST_THRESHOLD id" "MINIMUM_TRUST_THRESHOLD id \<le> 49 / 100"
    by (simp_all add: MINIMUM_TRUST_THRESHOLD_def)
  moreover have "set ?es = set ?es'" by auto
  ultimately show ?thesis by blast
qed

end
