(* ===== verification/Trust_Reverse.thy ===== *)
theory Trust_Reverse
  imports Trust_Scores
begin

text \<open>
  The reverse search of \<open>server/src/trust.rs\<close>: from a reader over the transposed graph to everyone who
  trusts them, with one visited set and groups keyed by the predecessor. It meets the same level-search
  contract as the forward search, and the score it gives a user for the reader is the one the forward
  search from that user would give.
\<close>

section \<open>The search\<close>

text \<open>A queue item: node, depth, path score.\<close>

record rbfs =
  rq :: "(nat \<times> nat \<times> real) list"
  rtg :: target_groups
  rvis :: "nat set"

definition rseed_visit :: "nat \<Rightarrow> nat \<Rightarrow> rbfs \<Rightarrow> rbfs" where
  "rseed_visit reader neighbor st =
     (if neighbor = reader then st
      else let st = st\<lparr>rtg := record_path neighbor reader 1 (rtg st)\<rparr>
           in if neighbor \<in> rvis st then st
              else st\<lparr>rvis := insert neighbor (rvis st), rq := rq st @ [(neighbor, 1, 1)]\<rparr>)"

definition rvisit :: "nat \<Rightarrow> nat \<Rightarrow> nat \<Rightarrow> real \<Rightarrow> nat \<Rightarrow> rbfs \<Rightarrow> rbfs" where
  "rvisit reader current depth next_score next st =
     (if next = reader then st
      else let st = st\<lparr>rtg := record_path next current next_score (rtg st)\<rparr>
           in if next \<in> rvis st then st
              else st\<lparr>rvis := insert next (rvis st), rq := rq st @ [(next, depth + 1, next_score)]\<rparr>)"

definition rstep :: "(real \<Rightarrow> real) \<Rightarrow> nat \<Rightarrow> CsrGraph \<Rightarrow> rbfs \<Rightarrow> rbfs" where
  "rstep rnd reader g st = (case rq st of
     [] \<Rightarrow> st
   | (current, depth, path_score) # rest \<Rightarrow>
       if depth \<ge> MAX_DEPTH then st\<lparr>rq := rest\<rparr>
       else fold (rvisit reader current depth (fmul rnd path_score (DECAY rnd))) (neighbors g current) (st\<lparr>rq := rest\<rparr>))"

definition rweight :: "CsrGraph \<Rightarrow> (nat \<times> nat \<times> real) list \<Rightarrow> nat" where
  "rweight g q = (\<Sum>it\<leftarrow>q. Suc (length (targets g)) ^ (MAX_DEPTH - fst (snd it)))"

lemma rvisit_queue:
  "\<exists>new. rq (rvisit reader cur d s n st) = rq st @ new \<and> length new \<le> 1 \<and> (\<forall>it \<in> set new. fst (snd it) = d + 1)"
  by (simp add: rvisit_def Let_def)

lemma rexpand_queue:
  "\<exists>new. rq (fold (rvisit reader cur d s) ns st) = rq st @ new \<and> length new \<le> length ns
     \<and> (\<forall>it \<in> set new. fst (snd it) = d + 1)"
proof (induction ns arbitrary: st)
  case (Cons n ns)
  obtain new1 where n1: "rq (rvisit reader cur d s n st) = rq st @ new1" "length new1 \<le> 1"
    "\<forall>it \<in> set new1. fst (snd it) = d + 1" using rvisit_queue by blast
  obtain new2 where n2: "rq (fold (rvisit reader cur d s) ns (rvisit reader cur d s n st)) =
      rq (rvisit reader cur d s n st) @ new2" "length new2 \<le> length ns" "\<forall>it \<in> set new2. fst (snd it) = d + 1"
    using Cons.IH by blast
  with n1 show ?case by (intro exI [of _ "new1 @ new2"]) auto
qed simp

lemma rstep_decreases:
  assumes "rq st \<noteq> []"
  shows "rweight g (rq (rstep rnd reader g st)) < rweight g (rq st)"
proof -
  let ?B = "Suc (length (targets g))"
  obtain cur d ps rest where q: "rq st = (cur, d, ps) # rest" by (cases "rq st") (use assms in auto)
  show ?thesis
  proof (cases "d \<ge> MAX_DEPTH")
    case True
    then show ?thesis by (simp add: rstep_def q rweight_def)
  next
    case False
    let ?s = "fmul rnd ps (DECAY rnd)"
    obtain new where new: "rq (fold (rvisit reader cur d ?s) (neighbors g cur) (st\<lparr>rq := rest\<rparr>)) = rest @ new"
      "length new \<le> length (neighbors g cur)" "\<forall>it \<in> set new. fst (snd it) = d + 1"
      using rexpand_queue [of reader cur d ?s "neighbors g cur" "st\<lparr>rq := rest\<rparr>"] by auto
    have "rweight g new = length new * ?B ^ (MAX_DEPTH - (d + 1))"
      using new(3) by (induction new) (simp_all add: rweight_def)
    also have "\<dots> < ?B * ?B ^ (MAX_DEPTH - (d + 1))"
    proof (rule mult_less_mono1)
      show "length new < ?B" using new(2) neighbors_length [of g cur] by simp
    qed simp
    also have "\<dots> = ?B ^ (MAX_DEPTH - d)" using False by (simp flip: power_Suc add: Suc_diff_Suc)
    finally show ?thesis using False new(1) by (simp add: rstep_def q rweight_def)
  qed
qed

function rbfs_loop :: "(real \<Rightarrow> real) \<Rightarrow> nat \<Rightarrow> CsrGraph \<Rightarrow> rbfs \<Rightarrow> rbfs" where
  "rbfs_loop rnd reader g st = (if rq st = [] then st else rbfs_loop rnd reader g (rstep rnd reader g st))"
  by pat_completeness auto
termination
  by (relation "measure (\<lambda>(rnd, reader, g, st). rweight g (rq st))") (auto simp: rstep_decreases)

declare rbfs_loop.simps [simp del]

definition rbfs_run :: "(real \<Rightarrow> real) \<Rightarrow> nat \<Rightarrow> CsrGraph \<Rightarrow> rbfs" where
  "rbfs_run rnd reader g =
     rbfs_loop rnd reader g (fold (rseed_visit reader) (neighbors g reader) \<lparr>rq = [], rtg = [], rvis = {}\<rparr>)"

definition reverse_bfs :: "(real \<Rightarrow> real) \<Rightarrow> nat \<Rightarrow> CsrGraph \<Rightarrow> (nat \<times> real) list" where
  "reverse_bfs rnd reader g = map (\<lambda>e. (fst e, combined_score rnd (snd e))) (rtg (rbfs_run rnd reader g))"

lemma rbfs_loop_invariant:
  assumes "P st" "\<And>st. P st \<Longrightarrow> rq st \<noteq> [] \<Longrightarrow> P (rstep rnd reader g st)"
  shows "P (rbfs_loop rnd reader g st) \<and> rq (rbfs_loop rnd reader g st) = []"
  using assms
proof (induction rnd reader g st rule: rbfs_loop.induct)
  case (1 rnd reader g st)
  show ?case
  proof (cases "rq st = []")
    case True
    with 1 show ?thesis by (subst (1 2) rbfs_loop.simps) simp
  next
    case False
    with 1 show ?thesis by (subst (1 2) rbfs_loop.simps) simp
  qed
qed

section \<open>Labels\<close>

definition rsucc :: "nat \<Rightarrow> CsrGraph \<Rightarrow> nat \<Rightarrow> nat set" where
  "rsucc reader g x = set (neighbors g x) - {reader}"

definition rqueue :: "rbfs \<Rightarrow> (nat \<times> nat) list" where
  "rqueue st = map (\<lambda>it. (fst it, fst (snd it))) (rq st)"

text \<open>Which groups a table holds, and at which score: the direct trusters under the reader, and the
  predecessors expanded so far. Scores are exact.\<close>

definition rgroup_sound :: "nat \<Rightarrow> CsrGraph \<Rightarrow> (nat \<Rightarrow> nat) \<Rightarrow> rbfs \<Rightarrow> bool" where
  "rgroup_sound reader g dep st \<longleftrightarrow> (\<forall>t c s. group_score (rtg st) t c = Some s \<longrightarrow>
     (c = reader \<and> t \<in> rsucc reader g reader \<and> s = 1)
   \<or> (c \<in> rvis st \<and> dep c < MAX_DEPTH \<and> t \<in> rsucc reader g c \<and> s = lvl (dep c + 1)))"

definition rgroup_complete :: "nat \<Rightarrow> CsrGraph \<Rightarrow> (nat \<Rightarrow> nat) \<Rightarrow> rbfs \<Rightarrow> bool" where
  "rgroup_complete reader g dep st \<longleftrightarrow>
     (\<forall>t \<in> rsucc reader g reader. group_score (rtg st) t reader \<noteq> None)
   \<and> (\<forall>c \<in> rvis st. c \<in> fst ` set (rqueue st) \<or> dep c \<ge> MAX_DEPTH \<or> (\<forall>t \<in> rsucc reader g c. group_score (rtg st) t c \<noteq> None))"

definition rlabels :: "nat \<Rightarrow> CsrGraph \<Rightarrow> (nat \<Rightarrow> nat) \<Rightarrow> rbfs \<Rightarrow> bool" where
  "rlabels reader g dep st \<longleftrightarrow> tg_ok (rtg st) \<and> reader \<notin> rvis st
     \<and> (\<forall>it \<in> set (rq st). snd (snd it) = lvl (fst (snd it)))
     \<and> rgroup_sound reader g dep st \<and> rgroup_complete reader g dep st"

lemma rqueue_Cons:
  assumes "rqueue st = (x, d) # rest"
  obtains ps q where "rq st = (x, d, ps) # q" "rest = map (\<lambda>it. (fst it, fst (snd it))) q"
  using assms unfolding rqueue_def by (cases "rq st") auto

lemma rqueue_nodes: "fst ` set (rqueue st) = fst ` set (rq st)"
  by (simp add: rqueue_def image_image)

text \<open>One pass over the neighbours of \<open>cur\<close> with one score: the seeding loop and the expansion.\<close>

definition rpass :: "nat \<Rightarrow> nat \<Rightarrow> nat \<Rightarrow> real \<Rightarrow> nat list \<Rightarrow> rbfs \<Rightarrow> rbfs" where
  "rpass reader cur d s ns st = fold (rvisit reader cur d s) ns st"

lemma rpass_simps:
  "rpass reader cur d s [] st = st"
  "rpass reader cur d s (n # ns) st = rpass reader cur d s ns (rvisit reader cur d s n st)"
  by (simp_all add: rpass_def)

lemma rseed_visit_eq: "rseed_visit reader = rvisit reader reader 0 1"
  by (intro ext) (simp add: rseed_visit_def rvisit_def Let_def)

lemma rpass_tg_ok: "tg_ok (rtg st) \<Longrightarrow> tg_ok (rtg (rpass reader cur d s ns st))"
  by (induction ns arbitrary: st) (auto simp: rpass_simps rvisit_def Let_def tg_ok_record)

lemma rpass_table:
  assumes "\<forall>t s'. group_score (rtg st) t cur = Some s' \<longrightarrow> s' = s"
  shows "group_score (rtg (rpass reader cur d s ns st)) t c =
     (if c = cur \<and> t \<in> set ns - {reader} then Some s else group_score (rtg st) t c)"
  using assms
proof (induction ns arbitrary: st)
  case (Cons n ns)
  have r: "group_score (rtg (rvisit reader cur d s n st)) t' c' =
      (if c' = cur \<and> t' = n \<and> n \<noteq> reader then Some s else group_score (rtg st) t' c')" for t' c'
    using Cons.prems by (auto simp: rvisit_def Let_def group_score_record split: option.splits)
  have "\<forall>t' s'. group_score (rtg (rvisit reader cur d s n st)) t' cur = Some s' \<longrightarrow> s' = s"
    using Cons.prems by (simp add: r)
  from Cons.IH [OF this] show ?case unfolding rpass_simps r by auto
qed (simp add: rpass_simps)

lemma rpass_queue:
  "\<exists>new. rq (rpass reader cur d s ns st) = rq st @ new \<and> (\<forall>it \<in> set new. snd it = (d + 1, s))
    \<and> rvis (rpass reader cur d s ns st) = rvis st \<union> (set ns - {reader})
    \<and> fst ` set new = (set ns - {reader}) - rvis st"
proof (induction ns arbitrary: st)
  case Nil
  then show ?case by (simp add: rpass_simps)
next
  case (Cons n ns)
  let ?v = "rvisit reader cur d s n st"
  obtain new where new: "rq (rpass reader cur d s ns ?v) = rq ?v @ new" "\<forall>it \<in> set new. snd it = (d + 1, s)"
    "rvis (rpass reader cur d s ns ?v) = rvis ?v \<union> (set ns - {reader})"
    "fst ` set new = (set ns - {reader}) - rvis ?v"
    using Cons.IH by blast
  show ?case
  proof (cases "n = reader \<or> n \<in> rvis st")
    case True
    then have "rq ?v = rq st" "rvis ?v = rvis st" by (auto simp: rvisit_def Let_def)
    with new True show ?thesis by (intro exI [of _ new]) (auto simp: rpass_simps)
  next
    case False
    then have "rq ?v = rq st @ [(n, d + 1, s)]" "rvis ?v = insert n (rvis st)" by (auto simp: rvisit_def Let_def)
    with new False show ?thesis by (intro exI [of _ "(n, d + 1, s) # new"]) (auto simp: rpass_simps)
  qed
qed

section \<open>The contract\<close>

lemma rstep_pop:
  assumes "rlabels reader g dep st" "rqueue st = (x, d) # rest" "d \<ge> MAX_DEPTH" "dep x = d"
  shows "rqueue (rstep rnd reader g st) = rest \<and> rvis (rstep rnd reader g st) = rvis st
    \<and> rlabels reader g dep (rstep rnd reader g st)"
proof -
  obtain ps q where q: "rq st = (x, d, ps) # q" "rest = map (\<lambda>it. (fst it, fst (snd it))) q"
    using rqueue_Cons [OF assms(2)] .
  then have st: "rstep rnd reader g st = st\<lparr>rq := q\<rparr>" using assms(3) by (simp add: rstep_def)
  have c: "rgroup_complete reader g dep st" using assms(1) by (simp add: rlabels_def)
  have "c \<in> fst ` set (rqueue (st\<lparr>rq := q\<rparr>)) \<or> dep c \<ge> MAX_DEPTH \<or> (\<forall>t \<in> rsucc reader g c. group_score (rtg st) t c \<noteq> None)"
    if "c \<in> rvis st" for c
  proof (cases "c = x")
    case False
    with c that have "c \<in> fst ` set (rqueue st) \<or> dep c \<ge> MAX_DEPTH \<or> (\<forall>t \<in> rsucc reader g c. group_score (rtg st) t c \<noteq> None)"
      by (simp only: rgroup_complete_def)
    with False show ?thesis by (auto simp: rqueue_def q(1))
  qed (use assms(3,4) in simp)
  with c have "rgroup_complete reader g dep (st\<lparr>rq := q\<rparr>)" by (simp add: rgroup_complete_def)
  with assms(1) show ?thesis
    unfolding st by (simp add: rqueue_def q rlabels_def rgroup_sound_def)
qed

lemma rstep_expand:
  assumes lab: "rlabels reader g dep st" and rq: "rqueue st = (x, d) # rest" and pos: "1 \<le> d" and d: "d < MAX_DEPTH"
    and x: "x \<in> rvis st" "dep x = d"
  shows "\<exists>new. rqueue (rstep id reader g st) = rest @ new \<and> (\<forall>it \<in> set new. snd it = d + 1)
    \<and> rvis (rstep id reader g st) = rvis st \<union> rsucc reader g x \<and> fst ` set new = rsucc reader g x - rvis st
    \<and> rlabels reader g (\<lambda>p. if p \<in> rvis st then dep p else d + 1) (rstep id reader g st)"
proof -
  obtain ps q where q: "rq st = (x, d, ps) # q" "rest = map (\<lambda>it. (fst it, fst (snd it))) q"
    using rqueue_Cons [OF rq] .
  let ?D = "\<lambda>p. if p \<in> rvis st then dep p else d + 1"
  have ps: "ps = lvl d" using lab by (simp add: rlabels_def q(1))
  define e where "e = rpass reader x d (lvl (d + 1)) (neighbors g x) (st\<lparr>rq := q\<rparr>)"
  have st: "rstep id reader g st = e"
  proof -
    have "fmul id ps (DECAY id) = lvl (d + 1)" unfolding ps lvl_Suc [OF pos] fmul_def DECAY_def by simp
    with d show ?thesis by (simp add: rstep_def q(1) rpass_def e_def)
  qed
  obtain new where new: "rq e = q @ new" "\<forall>it \<in> set new. snd it = (d + 1, lvl (d + 1))"
    "rvis e = rvis st \<union> rsucc reader g x" "fst ` set new = rsucc reader g x - rvis st"
    using rpass_queue [of reader x d "lvl (d + 1)" "neighbors g x" "st\<lparr>rq := q\<rparr>"] unfolding e_def by (auto simp: rsucc_def)
  have nr: "reader \<notin> rvis st" using lab by (simp add: rlabels_def)
  with x(1) have xr: "x \<noteq> reader" by blast
  have snd: "rgroup_sound reader g dep st" and cpl: "rgroup_complete reader g dep st" using lab by (simp_all add: rlabels_def)
  have same: "\<forall>t s'. group_score (rtg (st\<lparr>rq := q\<rparr>)) t x = Some s' \<longrightarrow> s' = lvl (d + 1)"
    using snd xr x(2) by (auto simp: rgroup_sound_def)
  have tab: "group_score (rtg e) t c = (if c = x \<and> t \<in> rsucc reader g x then Some (lvl (d + 1)) else group_score (rtg st) t c)" for t c
    using rpass_table [OF same, of reader d "neighbors g x" t c] by (simp add: rsucc_def e_def)
  have s': "rgroup_sound reader g ?D e"
    unfolding rgroup_sound_def
  proof (intro allI impI)
    fix t c s assume "group_score (rtg e) t c = Some s"
    then consider "c = x" "t \<in> rsucc reader g x" "s = lvl (d + 1)" | "group_score (rtg st) t c = Some s"
      unfolding tab by (auto split: if_splits)
    then show "(c = reader \<and> t \<in> rsucc reader g reader \<and> s = 1)
        \<or> (c \<in> rvis e \<and> ?D c < MAX_DEPTH \<and> t \<in> rsucc reader g c \<and> s = lvl (?D c + 1))"
    proof cases
      case 1
      with x d show ?thesis by (simp add: new(3))
    next
      case 2
      with snd show ?thesis unfolding rgroup_sound_def by (fastforce simp: new(3))
    qed
  qed
  have keep: "group_score (rtg st) t c \<noteq> None \<Longrightarrow> group_score (rtg e) t c \<noteq> None" for t c by (simp add: tab)
  have c': "rgroup_complete reader g ?D e"
    unfolding rgroup_complete_def
  proof (intro conjI ballI)
    show "group_score (rtg e) t reader \<noteq> None" if "t \<in> rsucc reader g reader" for t
      using cpl that keep by (simp add: rgroup_complete_def)
    fix c assume "c \<in> rvis e"
    then consider "c \<in> rvis st" | "c \<in> fst ` set new" using new(3,4) by blast
    then show "c \<in> fst ` set (rqueue e) \<or> ?D c \<ge> MAX_DEPTH \<or> (\<forall>t \<in> rsucc reader g c. group_score (rtg e) t c \<noteq> None)"
    proof cases
      case 1
      then have "c \<in> fst ` set (rqueue st) \<or> dep c \<ge> MAX_DEPTH \<or> (\<forall>t \<in> rsucc reader g c. group_score (rtg st) t c \<noteq> None)"
        using cpl by (simp add: rgroup_complete_def)
      then consider "c = x" | "c \<in> fst ` set q" | "dep c \<ge> MAX_DEPTH" | "\<forall>t \<in> rsucc reader g c. group_score (rtg st) t c \<noteq> None"
        by (auto simp: rqueue_nodes q(1))
      then show ?thesis
      proof cases
        case 1
        then show ?thesis by (simp add: tab)
      next
        case 2
        then show ?thesis by (auto simp: rqueue_nodes new(1))
      next
        case 3
        with \<open>c \<in> rvis st\<close> show ?thesis by simp
      next
        case 4
        with keep show ?thesis by blast
      qed
    next
      case 2
      then show ?thesis by (auto simp: rqueue_nodes new(1))
    qed
  qed
  have "rlabels reader g ?D e"
    unfolding rlabels_def using s' c' lab new(2) nr
    by (auto simp: rlabels_def new(1,3) rsucc_def q(1) e_def [THEN arg_cong, of rtg] rpass_tg_ok)
  then show ?thesis
    unfolding st using new
    by (intro exI [of _ "map (\<lambda>it. (fst it, fst (snd it))) new"]) (auto simp: rqueue_def q(2) image_image)
qed

interpretation rev: level_search rqueue rvis "rstep id reader g" "rsucc reader g" MAX_DEPTH "rlabels reader g"
  for reader g
proof
  show "rqueue (rstep id reader g st) = rest \<and> rvis (rstep id reader g st) = rvis st
      \<and> rlabels reader g dep (rstep id reader g st)"
    if "rlabels reader g dep st" "rqueue st = (x, d) # rest" "MAX_DEPTH \<le> d" "dep x = d" for dep st x d rest
    using that by (rule rstep_pop)
qed (rule rstep_expand)

abbreviation rev_inv where
  "rev_inv reader g \<equiv> level_search.level_inv rqueue rvis (rsucc reader g) MAX_DEPTH (rlabels reader g)"

lemma rqueue_Nil [simp]: "rqueue st = [] \<longleftrightarrow> rq st = []"
  by (simp add: rqueue_def)

lemma rseed_inv:
  "rev_inv reader g (rsucc reader g reader) (\<lambda>_. 1)
     (fold (rseed_visit reader) (neighbors g reader) \<lparr>rq = [], rtg = [], rvis = {}\<rparr>)"
proof -
  let ?s = "rpass reader reader 0 1 (neighbors g reader) \<lparr>rq = [], rtg = [], rvis = {}\<rparr>"
  have eq: "fold (rseed_visit reader) (neighbors g reader) \<lparr>rq = [], rtg = [], rvis = {}\<rparr> = ?s"
    by (simp add: rpass_def rseed_visit_eq)
  have q: "\<forall>it \<in> set (rq ?s). snd it = (1, 1)" "rvis ?s = rsucc reader g reader" "fst ` set (rq ?s) = rsucc reader g reader"
    using rpass_queue [of reader reader 0 1 "neighbors g reader" "\<lparr>rq = [], rtg = [], rvis = {}\<rparr>"]
    by (auto simp: rsucc_def)
  have t: "group_score (rtg ?s) t c = (if c = reader \<and> t \<in> rsucc reader g reader then Some 1 else None)" for t c
    by (subst rpass_table) (simp_all add: group_score_def rsucc_def)
  have nodes: "fst ` set (rqueue ?s) = rsucc reader g reader" using q(3) by (simp add: rqueue_def image_image)
  have "tg_ok (rtg ?s)" by (rule rpass_tg_ok) (simp add: tg_ok_def)
  then have "rlabels reader g (\<lambda>_. 1) ?s"
    unfolding rlabels_def rgroup_sound_def rgroup_complete_def nodes t q(2)
    using q(1) by (auto simp: rsucc_def lvl_def)
  then show ?thesis
    unfolding eq using q(1,2) nodes by (intro rev.level_inv_seed) (auto simp: rqueue_def)
qed

text \<open>The groups at the end: the direct trusters under the reader, and for every predecessor at level 0
  or 1 those who trust it.\<close>

definition rlevel :: "nat \<Rightarrow> CsrGraph \<Rightarrow> nat \<Rightarrow> nat option" where
  "rlevel reader g = level (rsucc reader g) (rsucc reader g reader) (MAX_DEPTH - 1)"

lemma rlevel_Some:
  "rlevel reader g c = Some k \<longleftrightarrow> level (rsucc reader g) (rsucc reader g reader) MAX_DEPTH c = Some k \<and> k + 1 < MAX_DEPTH"
  by (auto simp: rlevel_def level_Some)

lemma rbfs_run_groups:
  "tg_ok (rtg (rbfs_run id reader g))"
  "group_score (rtg (rbfs_run id reader g)) t c =
     (if c = reader then if t \<in> rsucc reader g reader then Some 1 else None
      else case rlevel reader g c of None \<Rightarrow> None
        | Some k \<Rightarrow> if t \<in> rsucc reader g c then Some ((7 / 10) ^ (k + 1)) else None)"
proof -
  let ?st = "rbfs_run id reader g"
  have "(\<exists>dep. rev_inv reader g (rsucc reader g reader) dep ?st) \<and> rq ?st = []"
    unfolding rbfs_run_def
  proof (rule rbfs_loop_invariant)
    show "\<exists>dep. rev_inv reader g (rsucc reader g reader) dep
        (fold (rseed_visit reader) (neighbors g reader) \<lparr>rq = [], rtg = [], rvis = {}\<rparr>)"
      using rseed_inv by blast
    show "\<exists>dep. rev_inv reader g (rsucc reader g reader) dep (rstep id reader g st)"
      if "\<exists>dep. rev_inv reader g (rsucc reader g reader) dep st" "rq st \<noteq> []" for st
      using rev.level_inv_step [OF that(1)] that(2) by simp
  qed
  then obtain dep where inv: "rev_inv reader g (rsucc reader g reader) dep ?st" and q: "rqueue ?st = []" by auto
  have "MAX_DEPTH \<ge> 1" by (simp add: MAX_DEPTH_def)
  note fin = rev.level_inv_final [OF inv q this]
  have lab: "rlabels reader g dep ?st" by (rule rev.level_invD(7) [OF inv])
  then show "tg_ok (rtg ?st)" by (simp add: rlabels_def)
  have vis: "c \<in> rvis ?st \<and> dep c < MAX_DEPTH \<longleftrightarrow> rlevel reader g c \<noteq> None" for c
  proof (cases "level (rsucc reader g) (rsucc reader g reader) MAX_DEPTH c")
    case (Some k)
    then have "c \<in> rvis ?st" "dep c = k + 1" using fin(1) [of c k] by simp_all
    with Some show ?thesis using rlevel_Some [of reader g c k] by (cases "rlevel reader g c") (auto simp: rlevel_Some)
  next
    case None
    then have "c \<notin> rvis ?st" "rlevel reader g c = None"
      using fin(2) [of c] rlevel_Some [of reader g c] by (auto simp: option.expand)
    then show ?thesis by simp
  qed
  have nr: "reader \<notin> rvis ?st" and sound: "group_score (rtg ?st) t c = Some s \<Longrightarrow>
      (c = reader \<and> t \<in> rsucc reader g reader \<and> s = 1)
    \<or> (c \<in> rvis ?st \<and> dep c < MAX_DEPTH \<and> t \<in> rsucc reader g c \<and> s = lvl (dep c + 1))" for t c s
    using lab by (simp_all add: rlabels_def rgroup_sound_def)
  have cplr: "t \<in> rsucc reader g reader \<Longrightarrow> group_score (rtg ?st) t reader \<noteq> None"
    and cpl: "c \<in> rvis ?st \<Longrightarrow> dep c < MAX_DEPTH \<Longrightarrow> t \<in> rsucc reader g c \<Longrightarrow> group_score (rtg ?st) t c \<noteq> None" for t c
    using lab q by (fastforce simp: rlabels_def rgroup_complete_def)+
  show "group_score (rtg ?st) t c =
     (if c = reader then if t \<in> rsucc reader g reader then Some 1 else None
      else case rlevel reader g c of None \<Rightarrow> None
        | Some k \<Rightarrow> if t \<in> rsucc reader g c then Some ((7 / 10) ^ (k + 1)) else None)"
  proof (cases "group_score (rtg ?st) t c")
    case None
    with cplr [of t] cpl [of c t] vis [of c] show ?thesis by (auto split: option.splits)
  next
    case (Some s)
    from sound [OF Some] show ?thesis
    proof (elim disjE conjE)
      assume "c \<in> rvis ?st" "dep c < MAX_DEPTH" "t \<in> rsucc reader g c" "s = lvl (dep c + 1)"
      moreover then obtain k where k: "rlevel reader g c = Some k" using vis [of c] by auto
      moreover have "dep c = k + 1" using k fin(1) [of c k] rlevel_Some by blast
      ultimately show ?thesis using Some nr by (auto simp: lvl_def)
    qed (use Some in simp)
  qed
qed

section \<open>Agreement with the forward search\<close>

lemma reverse_bfs_exact:
  assumes V: "\<forall>c. group_score (rtg (rbfs_run id reader g)) t c = (if c \<in> V then Some (f c) else None)"
  shows "map_of (reverse_bfs id reader g) t = (if V = {} then None else Some (1 - (\<Prod>c \<in> V. 1 - f c)))"
  unfolding reverse_bfs_def combined_groups [OF rbfs_run_groups(1) V, symmetric]
  by (rule map_of_map_snd)

lemma upt_MAX: "[0..<MAX_DEPTH] = [0, 1, 2]" "[0..<MAX_DEPTH - 1] = [0, 1]"
  by (simp_all add: MAX_DEPTH_def upt_rec)

text \<open>A predecessor of the reader that is not a direct truster away: its level, and the number of hops
  from it to the reader that avoid a source which does not trust the reader directly.\<close>

lemma rlevel_hops:
  assumes tr: "\<And>i j. j \<in> set (neighbors rg i) \<longleftrightarrow> i \<in> set (neighbors g j)"
    and nd: "r \<notin> set (neighbors g a)" and ar: "a \<noteq> r" and cr: "c \<noteq> r"
  shows "hops g a MAX_DEPTH c r = map_option Suc (rlevel r rg c)"
proof -
  have h0: "r \<in> reach_in g a c 0 \<longleftrightarrow> False" using cr by simp
  have h1: "r \<in> reach_in g a c 1 \<longleftrightarrow> r \<in> set (neighbors g c)" using ar by simp
  have h2: "r \<in> reach_in g a c 2 \<longleftrightarrow> (\<exists>y \<in> set (neighbors g c). r \<in> set (neighbors g y))"
    using ar nd by (auto simp: numeral_2_eq_2)
  have l0: "c \<in> walk (rsucc r rg) (rsucc r rg r) 0 \<longleftrightarrow> r \<in> set (neighbors g c)"
    using cr by (simp add: rsucc_def tr)
  have l1: "r \<notin> set (neighbors g c) \<Longrightarrow>
      c \<in> walk (rsucc r rg) (rsucc r rg r) 1 \<longleftrightarrow> (\<exists>y \<in> set (neighbors g c). r \<in> set (neighbors g y))"
    using cr by (auto simp: rsucc_def tr)
  show ?thesis
    unfolding hops_def rlevel_def level_def upt_MAX find.simps h0 h1 h2 l0 using l1 by simp
qed

lemma transpose_iff:
  assumes "graph_of n es g" "transpose g = Some rg"
  shows "j \<in> set (neighbors rg i) \<longleftrightarrow> i \<in> set (neighbors g j)"
proof (cases "i < n")
  case True
  with transpose_neighbors [OF assms] show ?thesis by blast
next
  case False
  obtain es' where rg: "graph_of n es' rg" using transpose_graph_of [OF assms(1)] assms(2) by auto
  from graph_of_neighbors [OF this, of i] False have "neighbors rg i = []" by simp
  with False graph_of_targets [OF assms(1), of j] show ?thesis by auto
qed

text \<open>C34. The reverse search gives every author the score the forward search from that author gives the
  reader: over the transposed graph, one pass from the reader with a single visited set and groups
  keyed by predecessor computes, for each author who does not trust themselves, the same score (or
  the same absence) as the search from the author with per-first-hop visited sets, in exact
  arithmetic and with distrusts left aside. That no path through the author itself counts follows from
  the depth limit.\<close>

theorem reverse_agrees_with_forward:
  assumes "graph_of n es g" "transpose g = Some rg" "author \<noteq> reader" "(author, author) \<notin> set es"
  shows "map_of (reverse_bfs id reader rg) author = map_of (forward_bfs id author g Map.empty) reader"
proof -
  let ?N = "set (neighbors g author)"
  note tr = transpose_iff [OF assms(1,2)]
  let ?V = "{c \<in> ?N. c = reader \<or> rlevel reader rg c \<noteq> None}"
  let ?f = "\<lambda>c. if c = reader then 1 else (7 / 10) ^ (the (rlevel reader rg c) + 1) :: real"
  let ?W = "{c \<in> ?N - {author}. hops g author MAX_DEPTH c reader \<noteq> None}"
  let ?h = "\<lambda>c. (7 / 10) ^ the (hops g author MAX_DEPTH c reader) :: real"
  have grp: "\<forall>c. group_score (rtg (rbfs_run id reader rg)) author c = (if c \<in> ?V then Some (?f c) else None)"
    unfolding rbfs_run_groups(2) rsucc_def using assms(3) by (auto simp: tr split: option.splits)
  have na: "author \<notin> ?N"
    using graph_of_neighbors [OF assms(1), of author] assms(4) by (auto simp: out_def)
  have fwd: "map_of (forward_bfs id author g Map.empty) reader = (if ?W = {} then None else Some (1 - (\<Prod>c \<in> ?W. 1 - ?h c)))"
    unfolding forward_bfs_def using forward_exact [of MAX_DEPTH author g] by (simp add: MAX_DEPTH_def trust_score_alt Let_def)
  have zero: "(\<Prod>c \<in> A. 1 - F c) = (0 :: real)" if "finite A" "reader \<in> A" "F reader = 1" for A and F :: "nat \<Rightarrow> real"
    using that by (auto simp: prod_zero_iff)
  show ?thesis
  proof (cases "reader \<in> ?N")
    case True
    have "hops g author MAX_DEPTH reader reader = Some 0" by (simp add: hops_def upt_MAX)
    with True assms(3) have W: "reader \<in> ?W" "?h reader = 1" by auto
    have V: "reader \<in> ?V" "?f reader = 1" using True by auto
    have pV: "(\<Prod>c \<in> ?V. 1 - ?f c) = 0" using V by (intro zero) simp_all
    have pW: "(\<Prod>c \<in> ?W. 1 - ?h c) = 0" using W by (intro zero) simp_all
    have "?V \<noteq> {}" "?W \<noteq> {}" using V(1) W(1) by blast+
    then show ?thesis unfolding reverse_bfs_exact [OF grp] fwd pV pW by (simp only: if_False)
  next
    case False
    have h: "hops g author MAX_DEPTH c reader = map_option Suc (rlevel reader rg c)" if "c \<in> ?N" for c
      using False that by (intro rlevel_hops tr assms(3)) auto
    have VW: "?V = ?W" using False h na by auto
    have "(\<Prod>c \<in> ?V. 1 - ?f c) = (\<Prod>c \<in> ?W. 1 - ?h c)"
      by (rule prod.cong [OF VW]) (use False h in auto)
    with VW show ?thesis unfolding reverse_bfs_exact [OF grp] fwd by (simp only:)
  qed
qed

theorem reverse_agrees_with_forward_witness:
  "\<exists>g rg. from_edges 4 [(0, 1), (0, 2), (1, 3), (2, 3)] = Some g \<and> transpose g = Some rg
     \<and> map_of (reverse_bfs id 3 rg) 0 = Some (91 / 100) \<and> map_of (forward_bfs id 0 g Map.empty) 3 = Some (91 / 100)"
proof -
  let ?es = "[(0, 1), (0, 2), (1, 3), (2, 3)] :: (nat \<times> nat) list"
  let ?g = "the (from_edges 4 ?es)"
  let ?rg = "the (transpose ?g)"
  have g: "from_edges 4 ?es = Some ?g" "transpose ?g = Some ?rg" by code_simp+
  then have "graph_of 4 ?es ?g" by (simp add: graph_of_def)
  from reverse_agrees_with_forward [OF this g(2), of 0 3]
  have "map_of (reverse_bfs id 3 ?rg) 0 = map_of (forward_bfs id 0 ?g Map.empty) 3" by simp
  moreover have "map_of (reverse_bfs id 3 ?rg) 0 = Some (91 / 100)" by code_simp
  ultimately show ?thesis using g by (metis)
qed

end
