(* ===== verification/Node_Index.thy ===== *)
theory Node_Index
  imports Prism_Prelude "HOL-Library.Multiset"
begin

text \<open>
  \<open>NodeIndex\<close> and \<open>NodeIndexBuilder\<close> of \<open>server/src/trust.rs\<close>: interning of UUIDs into dense indices and
  the frozen, sorted table that is searched by bisection. A \<open>Uuid\<close> is a 128-bit word, ordered as its
  bytes are. The builder's \<open>HashMap\<close> is an association list: \<open>freeze\<close> sorts its entries by their
  distinct keys, so the order in which the map iterates does not matter.
\<close>

type_synonym uuid = "128 word"

record NodeIndexBuilder =
  uuid_to_id :: "(uuid \<times> nat) list"
  b_id_to_uuid :: "uuid list"

record NodeIndex =
  by_uuid :: "(uuid \<times> nat) list"
  id_to_uuid :: "uuid list"

definition builder_new :: NodeIndexBuilder where
  "builder_new = \<lparr>uuid_to_id = [], b_id_to_uuid = []\<rparr>"

definition intern :: "uuid \<Rightarrow> NodeIndexBuilder \<Rightarrow> NodeIndexBuilder \<times> nat" where
  "intern u b = (case map_of (uuid_to_id b) u of
     Some i \<Rightarrow> (b, i)
   | None \<Rightarrow>
       let i = length (b_id_to_uuid b)
       in (\<lparr>uuid_to_id = (u, i) # uuid_to_id b, b_id_to_uuid = b_id_to_uuid b @ [u]\<rparr>, i))"

definition builder_num_nodes :: "NodeIndexBuilder \<Rightarrow> nat" where
  "builder_num_nodes b = length (b_id_to_uuid b)"

definition freeze :: "NodeIndexBuilder \<Rightarrow> NodeIndex" where
  "freeze b = \<lparr>by_uuid = sort_key fst (uuid_to_id b), id_to_uuid = b_id_to_uuid b\<rparr>"

definition index_num_nodes :: "NodeIndex \<Rightarrow> nat" where
  "index_num_nodes ix = length (id_to_uuid ix)"

text \<open>\<open>slice::binary_search_by_key\<close>, on the half-open range \<open>[lo, hi)\<close>.\<close>

function bsearch :: "(uuid \<times> nat) list \<Rightarrow> uuid \<Rightarrow> nat \<Rightarrow> nat \<Rightarrow> nat option" where
  "bsearch xs u lo hi =
     (if hi \<le> lo then None
      else let mid = lo + (hi - lo) div 2; k = fst (xs ! mid)
           in if k = u then Some mid else if k < u then bsearch xs u (mid + 1) hi else bsearch xs u lo mid)"
  by pat_completeness auto
termination by (relation "measure (\<lambda>(_, _, lo, hi). hi - lo)") auto

declare bsearch.simps [simp del]

definition get_id :: "NodeIndex \<Rightarrow> uuid \<Rightarrow> nat option" where
  "get_id ix u = map_option (\<lambda>i. snd (by_uuid ix ! i)) (bsearch (by_uuid ix) u 0 (length (by_uuid ix)))"

definition get_uuid :: "NodeIndex \<Rightarrow> nat \<Rightarrow> uuid option" where
  "get_uuid ix i = (if i < length (id_to_uuid ix) then Some (id_to_uuid ix ! i) else None)"

text \<open>The streaming loop of \<open>TrustGraph::build\<close>: intern both endpoints of each row, in row order.\<close>

fun intern_edges :: "(uuid \<times> uuid) list \<Rightarrow> NodeIndexBuilder \<Rightarrow> NodeIndexBuilder \<times> (nat \<times> nat) list" where
  "intern_edges [] b = (b, [])"
| "intern_edges ((s, t) # rows) b =
     (let (b1, i) = intern s b; (b2, j) = intern t b1; (b3, es) = intern_edges rows b2
      in (b3, (i, j) # es))"

section \<open>Bisection\<close>

lemma bsearch_spec:
  assumes "sorted_wrt (<) (map fst xs)" "hi \<le> length xs"
    and "\<forall>i < lo. fst (xs ! i) < u" "\<forall>i. hi \<le> i \<and> i < length xs \<longrightarrow> u < fst (xs ! i)"
  shows "case bsearch xs u lo hi of Some i \<Rightarrow> i < length xs \<and> fst (xs ! i) = u | None \<Rightarrow> u \<notin> fst ` set xs"
  using assms
proof (induction xs u lo hi rule: bsearch.induct)
  case (1 xs u lo hi)
  have le: "fst (xs ! i) < fst (xs ! j)" if "i < j" "j < length xs" for i j
    using sorted_wrt_nth_less [OF "1.prems"(1), of i j] that by simp
  show ?case
  proof (cases "hi \<le> lo")
    case True
    have "u \<noteq> fst (xs ! i)" if "i < length xs" for i
    proof (cases "i < lo")
      case True
      with "1.prems"(3) have "fst (xs ! i) < u" by blast
      then show ?thesis by auto
    next
      case False
      with \<open>hi \<le> lo\<close> "1.prems"(4) that have "u < fst (xs ! i)" by simp
      then show ?thesis by auto
    qed
    then have "fst e \<noteq> u" if "e \<in> set xs" for e using that by (metis in_set_conv_nth)
    then have "u \<notin> fst ` set xs" by blast
    with True show ?thesis by (subst bsearch.simps) simp
  next
    case False
    define mid where "mid = lo + (hi - lo) div 2"
    have m: "lo \<le> mid" "mid < hi" using False by (auto simp: mid_def)
    with "1.prems"(2) have ml: "mid < length xs" by simp
    consider "fst (xs ! mid) = u" | "fst (xs ! mid) < u" | "u < fst (xs ! mid)" by force
    then show ?thesis
    proof cases
      case 1
      then have "bsearch xs u lo hi = Some mid"
        using False by (subst bsearch.simps) (simp add: Let_def mid_def [symmetric])
      with 1 ml show ?thesis by simp
    next
      case 2
      have "fst (xs ! i) < u" if "i < mid + 1" for i
        using 2 le [of i mid] ml that by (cases "i = mid") auto
      then have "case bsearch xs u (mid + 1) hi of Some i \<Rightarrow> i < length xs \<and> fst (xs ! i) = u | None \<Rightarrow> u \<notin> fst ` set xs"
        using 2 by (intro "1.IH"(1) [OF False mid_def refl]) (use "1.prems" in auto)
      moreover have "bsearch xs u lo hi = bsearch xs u (mid + 1) hi"
        using False 2 by (subst bsearch.simps) (auto simp: Let_def mid_def [symmetric])
      ultimately show ?thesis by simp
    next
      case 3
      then have ne: "fst (xs ! mid) \<noteq> u" "\<not> fst (xs ! mid) < u" by auto
      have "u < fst (xs ! i)" if "mid \<le> i \<and> i < length xs" for i
        using 3 le [of mid i] that by (cases "i = mid") auto
      then have "case bsearch xs u lo mid of Some i \<Rightarrow> i < length xs \<and> fst (xs ! i) = u | None \<Rightarrow> u \<notin> fst ` set xs"
        using ne ml "1.prems" by (intro "1.IH"(2) [OF False mid_def refl]) simp_all
      moreover have "bsearch xs u lo hi = bsearch xs u lo mid"
        using False 3 by (subst bsearch.simps) (auto simp: Let_def mid_def [symmetric])
      ultimately show ?thesis by simp
    qed
  qed
qed

section \<open>The builder invariant\<close>

definition builder_ok :: "NodeIndexBuilder \<Rightarrow> bool" where
  "builder_ok b \<longleftrightarrow> distinct (map fst (uuid_to_id b)) \<and>
     (\<forall>u i. map_of (uuid_to_id b) u = Some i \<longleftrightarrow> i < length (b_id_to_uuid b) \<and> b_id_to_uuid b ! i = u)"

lemma builder_ok_new: "builder_ok builder_new"
  by (simp add: builder_ok_def builder_new_def)

lemma intern_ok:
  assumes "builder_ok b" "intern u b = (b', i)"
  shows "builder_ok b' \<and> map_of (uuid_to_id b') u = Some i \<and> (\<exists>new. b_id_to_uuid b' = b_id_to_uuid b @ new)"
proof (cases "map_of (uuid_to_id b) u")
  case (Some j)
  with assms show ?thesis by (auto simp: intern_def)
next
  case None
  let ?n = "length (b_id_to_uuid b)"
  have b': "b' = \<lparr>uuid_to_id = (u, ?n) # uuid_to_id b, b_id_to_uuid = b_id_to_uuid b @ [u]\<rparr>" "i = ?n"
    using assms(2) None by (auto simp: intern_def Let_def)
  have fresh: "\<not> (k < ?n \<and> b_id_to_uuid b ! k = u)" for k using assms(1) None by (metis builder_ok_def option.discI)
  from assms(1) have m: "\<And>v k. map_of (uuid_to_id b) v = Some k \<longleftrightarrow> k < ?n \<and> b_id_to_uuid b ! k = v"
    and d: "distinct (map fst (uuid_to_id b))" by (auto simp: builder_ok_def)
  have "builder_ok b'"
    unfolding builder_ok_def b' using m fresh d None
    by (auto simp: nth_append map_of_eq_None_iff less_Suc_eq split: if_splits)
  then show ?thesis by (simp add: b')
qed

lemma map_of_prefix:
  assumes "builder_ok b" "builder_ok b'" "b_id_to_uuid b' = b_id_to_uuid b @ new" "map_of (uuid_to_id b) u = Some i"
  shows "map_of (uuid_to_id b') u = Some i"
  using assms by (auto simp: builder_ok_def nth_append)

lemma intern_edges_ok:
  assumes "builder_ok b" "intern_edges rows b = (b', es)"
  shows "builder_ok b' \<and> (\<exists>new. b_id_to_uuid b' = b_id_to_uuid b @ new)
    \<and> list_all2 (\<lambda>(s, t) (i, j). map_of (uuid_to_id b') s = Some i \<and> map_of (uuid_to_id b') t = Some j) rows es"
  using assms
proof (induction rows arbitrary: b es b')
  case Nil
  then show ?case by auto
next
  case (Cons r rows)
  obtain s t where r: "r = (s, t)" by (cases r)
  obtain b1 i where 1: "intern s b = (b1, i)" by (cases "intern s b")
  obtain b2 j where 2: "intern t b1 = (b2, j)" by (cases "intern t b1")
  obtain b3 es' where 3: "intern_edges rows b2 = (b3, es')" by (cases "intern_edges rows b2")
  have eq: "b' = b3" "es = (i, j) # es'" using Cons.prems(2) by (simp_all add: r 1 2 3)
  note o1 = intern_ok [OF Cons.prems(1) 1]
  then have ok1: "builder_ok b1" by blast
  note o2 = intern_ok [OF ok1 2]
  then have ok2: "builder_ok b2" by blast
  note o3 = Cons.IH [OF ok2 3]
  from o1 o2 o3 obtain n1 n2 n3 where n: "b_id_to_uuid b1 = b_id_to_uuid b @ n1"
    "b_id_to_uuid b2 = b_id_to_uuid b1 @ n2" "b_id_to_uuid b3 = b_id_to_uuid b2 @ n3" by blast
  have "map_of (uuid_to_id b3) s = Some i"
    using map_of_prefix [OF ok1 _ _ conjunct1 [OF conjunct2 [OF o1]], of b3 "n2 @ n3"] o3 n by simp
  moreover have "map_of (uuid_to_id b3) t = Some j"
    using map_of_prefix [OF ok2 _ n(3) conjunct1 [OF conjunct2 [OF o2]]] o3 by simp
  ultimately show ?case using o3 n by (auto simp: eq r)
qed

lemma freeze_get_id:
  assumes "builder_ok b"
  shows "get_id (freeze b) u = map_of (uuid_to_id b) u"
proof -
  let ?xs = "sort_key fst (uuid_to_id b)"
  have d: "distinct (map fst ?xs)"
    using assms mset_eq_imp_distinct_iff [of "map fst ?xs" "map fst (uuid_to_id b)"]
    by (simp add: builder_ok_def)
  then have s: "sorted_wrt (<) (map fst ?xs)" by (simp add: strict_sorted_iff)
  have m: "map_of ?xs = map_of (uuid_to_id b)"
    using d assms by (intro map_of_inject_set [THEN iffD2]) (simp_all add: builder_ok_def)
  have bs: "case bsearch ?xs u 0 (length ?xs) of Some i \<Rightarrow> i < length ?xs \<and> fst (?xs ! i) = u | None \<Rightarrow> u \<notin> fst ` set ?xs"
    by (rule bsearch_spec [OF s]) auto
  have "map_option (\<lambda>i. snd (?xs ! i)) (bsearch ?xs u 0 (length ?xs)) = map_of ?xs u"
  proof (cases "bsearch ?xs u 0 (length ?xs)")
    case None
    with bs have "u \<notin> fst ` set ?xs" by simp
    then have "map_of ?xs u = None" unfolding map_of_eq_None_iff .
    with None show ?thesis by simp
  next
    case (Some i)
    with bs have i: "i < length ?xs" "fst (?xs ! i) = u" by simp_all
    then have "(u, snd (?xs ! i)) \<in> set ?xs" by (metis nth_mem prod.collapse)
    with d Some show ?thesis by simp
  qed
  then show ?thesis by (simp add: get_id_def freeze_def m)
qed

text \<open>The index built from a stream of edges is a bijection between the UUIDs it interned and the
  dense indices below \<open>num_nodes\<close>, and each row was recorded under the indices of its endpoints: the
  bisection finds exactly what the reverse table holds.\<close>

theorem index_bijection:
  assumes "intern_edges rows builder_new = (b, es)"
  shows "(\<forall>u i. get_id (freeze b) u = Some i \<longleftrightarrow> get_uuid (freeze b) i = Some u)
    \<and> list_all2 (\<lambda>(s, t) (i, j). get_id (freeze b) s = Some i \<and> get_id (freeze b) t = Some j) rows es"
proof -
  note ok = intern_edges_ok [OF builder_ok_new assms]
  then have b: "builder_ok b" by blast
  then have "get_id (freeze b) u = Some i \<longleftrightarrow> get_uuid (freeze b) i = Some u" for u i
    by (simp add: freeze_get_id) (simp add: builder_ok_def get_uuid_def freeze_def)
  moreover have "list_all2 (\<lambda>(s, t) (i, j). get_id (freeze b) s = Some i \<and> get_id (freeze b) t = Some j) rows es"
    using ok by (simp add: freeze_get_id [OF b])
  ultimately show ?thesis by blast
qed

theorem index_bijection_witness:
  "\<exists>b es. intern_edges [(9, 4), (4, 7)] builder_new = (b, es) \<and> es = [(0, 1), (1, 2)] \<and> get_id (freeze b) 7 = Some 2"
proof -
  obtain b es where i: "intern_edges [(9, 4), (4, 7)] builder_new = (b, es)"
    by (cases "intern_edges [(9, 4), (4, 7)] builder_new")
  then have es: "es = [(0, 1), (1, 2)]" by (auto simp: intern_def builder_new_def Let_def)
  from index_bijection [OF i] es have "get_id (freeze b) 7 = Some 2" by simp
  with i es show ?thesis by blast
qed

end
