(* ===== verification/Trust_Graph.thy ===== *)
theory Trust_Graph
  imports Trust_Reverse Node_Index
begin

text \<open>
  The public interface of \<open>TrustGraph\<close> in \<open>server/src/trust.rs\<close>: building the graph from the rows of the
  two queries, the edge tests, scores and distances, the enumeration of concrete paths, and the overlay
  of a viewer's pending edge changes. The rows are arguments, as parsed UUIDs. A panic on a dense index
  outside the graph cannot happen for indices that come from the graph itself; \<open>uuid_of\<close> is total by
  returning 0 there. Logarithms and conversions round with the same parameter as the arithmetic.
\<close>

section \<open>Building\<close>

record TrustGraph =
  forward :: CsrGraph
  reverse :: CsrGraph
  index :: NodeIndex
  dsets :: "(nat \<times> nat set) list"

definition distrust_of :: "(nat \<times> nat set) list \<Rightarrow> distrust_sets" where
  "distrust_of ds = map_of ds"

text \<open>\<open>distrust_sets.entry(src_id).or_default().insert(tgt_id)\<close> for the rows whose two users are indexed\<close>

definition add_distrust :: "NodeIndex \<Rightarrow> uuid \<times> uuid \<Rightarrow> (nat \<times> nat set) list \<Rightarrow> (nat \<times> nat set) list" where
  "add_distrust ix row ds = (case (get_id ix (fst row), get_id ix (snd row)) of
     (Some s, Some t) \<Rightarrow> AList.update s (insert t (case map_of ds s of None \<Rightarrow> {} | Some D \<Rightarrow> D)) ds
   | _ \<Rightarrow> ds)"

definition build_distrusts :: "NodeIndex \<Rightarrow> (uuid \<times> uuid) list \<Rightarrow> (nat \<times> nat set) list" where
  "build_distrusts ix rows = fold (add_distrust ix) rows []"

definition build :: "(uuid \<times> uuid) list \<Rightarrow> (uuid \<times> uuid) list \<Rightarrow> TrustGraph option" where
  "build trust_rows distrust_rows =
     (let (builder, dense_edges) = intern_edges trust_rows builder_new;
          ix = freeze builder
      in case from_edges (builder_num_nodes builder) dense_edges of
           None \<Rightarrow> None
         | Some f \<Rightarrow> (case transpose f of
             None \<Rightarrow> None
           | Some r \<Rightarrow> Some \<lparr>forward = f, reverse = r, index = ix, dsets = build_distrusts ix distrust_rows\<rparr>))"

definition empty_graph :: TrustGraph where
  "empty_graph = \<lparr>forward = \<lparr>offsets = [0], targets = [], num_nodes = 0\<rparr>,
     reverse = \<lparr>offsets = [0], targets = [], num_nodes = 0\<rparr>,
     index = \<lparr>by_uuid = [], id_to_uuid = []\<rparr>, dsets = []\<rparr>"

section \<open>Edge tests\<close>

definition has_trust_edge :: "TrustGraph \<Rightarrow> uuid \<Rightarrow> uuid \<Rightarrow> bool" where
  "has_trust_edge G viewer target = (case get_id (index G) viewer of
     None \<Rightarrow> False
   | Some v \<Rightarrow> (case get_id (index G) target of
       None \<Rightarrow> False
     | Some t \<Rightarrow> t \<in> set (neighbors (forward G) v)))"

definition has_distrust_edge :: "TrustGraph \<Rightarrow> uuid \<Rightarrow> uuid \<Rightarrow> bool" where
  "has_distrust_edge G viewer target = (case get_id (index G) viewer of
     None \<Rightarrow> False
   | Some v \<Rightarrow> (case get_id (index G) target of
       None \<Rightarrow> False
     | Some t \<Rightarrow> (case distrust_of (dsets G) v of None \<Rightarrow> False | Some D \<Rightarrow> t \<in> D)))"

section \<open>Scores and distances\<close>

definition score_to_distance :: "(real \<Rightarrow> real) \<Rightarrow> real \<Rightarrow> real" where
  "score_to_distance rnd score =
     (if score \<ge> 1 then 1
      else if score \<le> 0 then 3
      else let d = rnd (1 + rnd (rnd (ln score) / rnd (ln (DECAY rnd))))
           in if d < 1 then 1 else if d > 3 then 3 else d)"

record TrustScore =
  target_user :: uuid
  score :: real
  distance :: real

text \<open>Indexing past the table would panic; every id the searches return is in range, so the \<open>0\<close> of the first
  case is never used.\<close>

definition uuid_of :: "NodeIndex \<Rightarrow> nat \<Rightarrow> uuid" where
  "uuid_of ix i = (case get_uuid ix i of None \<Rightarrow> 0 | Some u \<Rightarrow> u)"

text \<open>Filter by the threshold, convert, sort by distance (stable): shared by \<open>forward_scores\<close> and its
  delta-aware variant.\<close>

definition to_scores :: "(real \<Rightarrow> real) \<Rightarrow> NodeIndex \<Rightarrow> (nat \<times> real) list \<Rightarrow> TrustScore list" where
  "to_scores rnd ix results = sort_key distance
     (map (\<lambda>e. \<lparr>target_user = uuid_of ix (fst e), score = snd e, distance = score_to_distance rnd (snd e)\<rparr>)
        (filter (\<lambda>e. snd e \<ge> MINIMUM_TRUST_THRESHOLD rnd) results))"

definition forward_scores :: "(real \<Rightarrow> real) \<Rightarrow> TrustGraph \<Rightarrow> uuid \<Rightarrow> TrustScore list" where
  "forward_scores rnd G reader = (case get_id (index G) reader of
     None \<Rightarrow> []
   | Some i \<Rightarrow> to_scores rnd (index G) (forward_bfs rnd i (forward G) (distrust_of (dsets G))))"

text \<open>The \<open>HashMap\<close> that \<open>distance_map\<close> computes on a cache miss; \<open>f32\<close> narrows a value for storage.\<close>

definition distance_entries :: "(real \<Rightarrow> real) \<Rightarrow> TrustScore list \<Rightarrow> (uuid \<times> real) list" where
  "distance_entries f32 scores = map (\<lambda>s. (target_user s, f32 (distance s))) scores"

definition reverse_scores :: "(real \<Rightarrow> real) \<Rightarrow> TrustGraph \<Rightarrow> uuid \<Rightarrow> (uuid \<times> real) list" where
  "reverse_scores rnd G reader = (case get_id (index G) reader of
     None \<Rightarrow> []
   | Some i \<Rightarrow> map (\<lambda>e. (uuid_of (index G) (fst e), snd e)) (reverse_bfs rnd i (reverse G)))"

definition reverse_score_entries :: "(real \<Rightarrow> real) \<Rightarrow> (real \<Rightarrow> real) \<Rightarrow> TrustGraph \<Rightarrow> uuid \<Rightarrow> (uuid \<times> real) list" where
  "reverse_score_entries rnd f32 G reader = (case get_id (index G) reader of
     None \<Rightarrow> []
   | Some reader_id \<Rightarrow>
       map (\<lambda>e. let effective = (case get_id (index G) (fst e) of
                    None \<Rightarrow> snd e
                  | Some author_id \<Rightarrow> (case distrust_of (dsets G) author_id of
                      None \<Rightarrow> snd e
                    | Some distrusted \<Rightarrow> if reader_id \<in> distrusted then 0 else snd e))
                in (fst e, f32 effective))
         (reverse_scores rnd G reader))"

definition reads_count :: "(real \<Rightarrow> real) \<Rightarrow> TrustGraph \<Rightarrow> uuid \<Rightarrow> real \<Rightarrow> nat" where
  "reads_count rnd G user threshold = (case get_id (index G) user of
     None \<Rightarrow> 0
   | Some i \<Rightarrow> length (filter (\<lambda>e. snd e \<ge> threshold) (forward_bfs rnd i (forward G) (distrust_of (dsets G)))))"

definition readers_count :: "(real \<Rightarrow> real) \<Rightarrow> TrustGraph \<Rightarrow> uuid \<Rightarrow> real \<Rightarrow> nat" where
  "readers_count rnd G user threshold = (case get_id (index G) user of
     None \<Rightarrow> 0
   | Some i \<Rightarrow> length (filter (\<lambda>e. snd e \<ge> threshold) (reverse_bfs rnd i (reverse G))))"

text \<open>The scan of a result list for one target, shared by \<open>trust_between\<close> and its delta-aware variant.\<close>

fun scan_target :: "(real \<Rightarrow> real) \<Rightarrow> nat \<Rightarrow> (nat \<times> real) list \<Rightarrow> (real \<times> real option) option" where
  "scan_target rnd target_id [] = None"
| "scan_target rnd target_id ((node, s) # rest) =
     (if node = target_id then
        Some (s, if s \<ge> MINIMUM_TRUST_THRESHOLD rnd then Some (score_to_distance rnd s) else None)
      else scan_target rnd target_id rest)"

definition trust_between :: "(real \<Rightarrow> real) \<Rightarrow> TrustGraph \<Rightarrow> uuid \<Rightarrow> uuid \<Rightarrow> (real \<times> real option) option" where
  "trust_between rnd G source target = (case get_id (index G) source of
     None \<Rightarrow> None
   | Some s \<Rightarrow> (case get_id (index G) target of
       None \<Rightarrow> None
     | Some t \<Rightarrow> scan_target rnd t (forward_bfs rnd s (forward G) (distrust_of (dsets G)))))"

section \<open>Concrete paths\<close>

datatype TrustPath = Direct | TwoHop uuid | ThreeHop uuid uuid

text \<open>The body shared by \<open>paths_to\<close> and \<open>paths_to_with_delta\<close>, from the source's first hops and distrusts.\<close>

definition paths_via :: "TrustGraph \<Rightarrow> nat \<Rightarrow> nat \<Rightarrow> nat list \<Rightarrow> nat set \<Rightarrow> TrustPath list" where
  "paths_via G s t source_neighbors distrusted =
     (let nb = neighbors (forward G);
          mids = filter (\<lambda>mid. \<not> (mid = s \<or> mid = t \<or> mid \<in> distrusted)) source_neighbors
      in (if t \<in> set source_neighbors then [Direct] else [])
       @ map (\<lambda>mid. TwoHop (uuid_of (index G) mid)) (filter (\<lambda>mid. t \<in> set (nb mid)) mids)
       @ concat (map (\<lambda>mid1. map (\<lambda>mid2. ThreeHop (uuid_of (index G) mid1) (uuid_of (index G) mid2))
            (filter (\<lambda>mid2. \<not> (mid2 = s \<or> mid2 = t \<or> mid2 = mid1 \<or> mid2 \<in> distrusted) \<and> t \<in> set (nb mid2)) (nb mid1)))
          mids))"

definition paths_to :: "TrustGraph \<Rightarrow> uuid \<Rightarrow> uuid \<Rightarrow> TrustPath list" where
  "paths_to G source target = (case get_id (index G) source of
     None \<Rightarrow> []
   | Some s \<Rightarrow> (case get_id (index G) target of
       None \<Rightarrow> []
     | Some t \<Rightarrow>
         if s = t then []
         else paths_via G s t (neighbors (forward G) s)
                (case distrust_of (dsets G) s of None \<Rightarrow> {} | Some D \<Rightarrow> D)))"

section \<open>Cache budgets\<close>

definition DELTA_CACHE_BUDGET_SIXTEENTHS :: nat where
  "DELTA_CACHE_BUDGET_SIXTEENTHS = 1"

definition BYTES_PER_MAP_ENTRY :: nat where
  "BYTES_PER_MAP_ENTRY = 28"

definition MAP_BASE_OVERHEAD :: nat where
  "MAP_BASE_OVERHEAD = 48"

definition bfs_weight_of :: "(uuid \<times> real) list \<Rightarrow> nat" where
  "bfs_weight_of val = MAP_BASE_OVERHEAD + length val * BYTES_PER_MAP_ENTRY"

definition split_cache_budget :: "nat \<Rightarrow> nat \<times> nat \<times> nat" where
  "split_cache_budget budget =
     (let reverse = budget div 2;
          delta = budget * DELTA_CACHE_BUDGET_SIXTEENTHS div 16;
          forward = budget div 2 - delta
      in (forward, delta, reverse))"

lemma split_cache_budget_total:
  "split_cache_budget budget = (f, d, r) \<Longrightarrow> f + d + r \<le> budget \<and> budget \<le> f + d + r + 1 \<and> d \<le> f"
  by (auto simp: split_cache_budget_def Let_def DELTA_CACHE_BUDGET_SIXTEENTHS_def)

section \<open>What the graph holds\<close>

lemma intern_uuids: "builder_ok b \<Longrightarrow> intern u b = (b', i) \<Longrightarrow> set (b_id_to_uuid b') = insert u (set (b_id_to_uuid b))"
  by (auto simp: intern_def Let_def builder_ok_def in_set_conv_nth split: option.splits)

lemma intern_edges_uuids:
  "builder_ok b \<Longrightarrow> intern_edges rows b = (b', es) \<Longrightarrow>
   set (b_id_to_uuid b') = set (b_id_to_uuid b) \<union> fst ` set rows \<union> snd ` set rows"
proof (induction rows arbitrary: b es b')
  case (Cons r rows)
  obtain b1 i where 1: "intern (fst r) b = (b1, i)" by (cases "intern (fst r) b")
  obtain b2 j where 2: "intern (snd r) b1 = (b2, j)" by (cases "intern (snd r) b1")
  obtain b3 es' where 3: "intern_edges rows b2 = (b3, es')" by (cases "intern_edges rows b2")
  have eq: "b' = b3" using Cons.prems(2) 1 2 3 by (cases r) simp
  have ok: "builder_ok b1" "builder_ok b2" using intern_ok [OF Cons.prems(1) 1] intern_ok 2 by blast+
  show ?case
    using Cons.IH [OF ok(2) 3] intern_uuids [OF Cons.prems(1) 1] intern_uuids [OF ok(1) 2] by (auto simp: eq)
qed simp

text \<open>A graph built from rows: its index knows exactly the users of the trust rows, and its edges are the
  rows under that index.\<close>

definition users_of :: "(uuid \<times> uuid) list \<Rightarrow> uuid set" where
  "users_of rows = fst ` set rows \<union> snd ` set rows"

lemma index_of_rows:
  assumes "intern_edges rows builder_new = (b, es)"
  shows "get_id (freeze b) u = Some i \<longleftrightarrow> i < builder_num_nodes b \<and> b_id_to_uuid b ! i = u"
    "get_id (freeze b) u \<noteq> None \<longleftrightarrow> u \<in> users_of rows"
    "list_all2 (\<lambda>r e. get_id (freeze b) (fst r) = Some (fst e) \<and> get_id (freeze b) (snd r) = Some (snd e)) rows es"
proof -
  note ok = intern_edges_ok [OF builder_ok_new assms]
  then have b: "builder_ok b" by blast
  show id: "get_id (freeze b) u = Some i \<longleftrightarrow> i < builder_num_nodes b \<and> b_id_to_uuid b ! i = u" for i
    using b unfolding freeze_get_id [OF b] by (simp add: builder_ok_def builder_num_nodes_def)
  have "u \<in> set (b_id_to_uuid b) \<longleftrightarrow> u \<in> users_of rows"
    using intern_edges_uuids [OF builder_ok_new assms] by (auto simp: users_of_def builder_new_def)
  moreover have "get_id (freeze b) u \<noteq> None \<longleftrightarrow> u \<in> set (b_id_to_uuid b)"
    using id by (auto simp: in_set_conv_nth builder_num_nodes_def)
  ultimately show "get_id (freeze b) u \<noteq> None \<longleftrightarrow> u \<in> users_of rows" by blast
  show "list_all2 (\<lambda>r e. get_id (freeze b) (fst r) = Some (fst e) \<and> get_id (freeze b) (snd r) = Some (snd e)) rows es"
    using ok by (auto simp: freeze_get_id [OF b] case_prod_beta elim!: list_all2_mono)
qed

lemma build_spec:
  assumes "build trows drows = Some G"
  obtains b es where "intern_edges trows builder_new = (b, es)" "index G = freeze b"
    "graph_of (builder_num_nodes b) es (forward G)" "transpose (forward G) = Some (reverse G)"
    "dsets G = build_distrusts (freeze b) drows"
proof -
  obtain b es where be: "intern_edges trows builder_new = (b, es)" by (cases "intern_edges trows builder_new")
  obtain f where f: "from_edges (builder_num_nodes b) es = Some f" "index G = freeze b" "forward G = f"
    "transpose f = Some (reverse G)" "dsets G = build_distrusts (freeze b) drows"
    using assms by (auto simp: build_def be Let_def split: option.splits)
  have "list_all (\<lambda>e. snd e < builder_num_nodes b) es"
    using index_of_rows(3) [OF be] by (induction rule: list_all2_induct) (auto simp: index_of_rows(1) [OF be])
  with f be that show ?thesis by (simp add: graph_of_def)
qed

text \<open>Building never fails, and the graph answers the edge tests as its rows do.\<close>

lemma build_total: "\<exists>G. build trows drows = Some G"
proof -
  obtain b es where be: "intern_edges trows builder_new = (b, es)" by (cases "intern_edges trows builder_new")
  have l: "list_all (\<lambda>e. fst e < builder_num_nodes b \<and> snd e < builder_num_nodes b) es"
    using index_of_rows(3) [OF be] by (induction rule: list_all2_induct) (auto simp: index_of_rows(1) [OF be])
  then obtain f where f: "from_edges (builder_num_nodes b) es = Some f"
    using from_edges_Some [of "builder_num_nodes b" es] by (auto simp: list_all_iff)
  with l have "graph_of (builder_num_nodes b) es f" by (auto simp: graph_of_def list_all_iff)
  from transpose_graph_of [OF this] f be show ?thesis by (auto simp: build_def Let_def)
qed

lemma neighbors_rows:
  assumes "build trows drows = Some G" "get_id (index G) v = Some i" "get_id (index G) t = Some j"
  shows "j \<in> set (neighbors (forward G) i) \<longleftrightarrow> (v, t) \<in> set trows"
proof -
  obtain b es where be: "intern_edges trows builder_new = (b, es)" and G: "index G = freeze b"
    "graph_of (builder_num_nodes b) es (forward G)" using build_spec [OF assms(1)] by metis
  note ix = index_of_rows [OF be]
  have i: "i < builder_num_nodes b" using assms(2) by (simp add: G ix(1))
  have "(v, t) \<in> set trows \<longleftrightarrow> (i, j) \<in> set es"
  proof -
    have eq: "length trows = length es" "\<And>k. k < length es \<Longrightarrow> get_id (freeze b) (fst (trows ! k)) = Some (fst (es ! k))
        \<and> get_id (freeze b) (snd (trows ! k)) = Some (snd (es ! k))"
      using ix(3) by (auto simp: list_all2_conv_all_nth)
    have inj: "get_id (freeze b) u = Some n \<Longrightarrow> get_id (freeze b) u' = Some n \<Longrightarrow> u = u'" for u u' n by (simp add: ix(1))
    have "trows ! k = (v, t) \<longleftrightarrow> es ! k = (i, j)" if "k < length es" for k
    proof
      assume "trows ! k = (v, t)"
      with eq(2) [OF that] assms(2,3) show "es ! k = (i, j)" by (cases "es ! k") (simp add: G)
    next
      assume "es ! k = (i, j)"
      with eq(2) [OF that] assms(2,3) inj show "trows ! k = (v, t)" by (cases "trows ! k") (simp add: G)
    qed
    with eq(1) show ?thesis by (auto simp: in_set_conv_nth)
  qed
  moreover have "j \<in> set (neighbors (forward G) i) \<longleftrightarrow> (i, j) \<in> set es"
    using graph_of_neighbors [OF G(2), of i] i by (force simp: out_def)
  ultimately show ?thesis by simp
qed

lemma build_distrusts_spec:
  "t \<in> (case map_of (build_distrusts ix rows) s of None \<Rightarrow> {} | Some D \<Rightarrow> D) \<longleftrightarrow>
     (\<exists>r \<in> set rows. get_id ix (fst r) = Some s \<and> get_id ix (snd r) = Some t)"
proof -
  have "t \<in> (case map_of (fold (add_distrust ix) rows ds) s of None \<Rightarrow> {} | Some D \<Rightarrow> D) \<longleftrightarrow>
     t \<in> (case map_of ds s of None \<Rightarrow> {} | Some D \<Rightarrow> D) \<or> (\<exists>r \<in> set rows. get_id ix (fst r) = Some s \<and> get_id ix (snd r) = Some t)" for ds
  proof (induction rows arbitrary: ds)
    case (Cons r rows)
    have "t \<in> (case map_of (add_distrust ix r ds) s of None \<Rightarrow> {} | Some D \<Rightarrow> D) \<longleftrightarrow>
        t \<in> (case map_of ds s of None \<Rightarrow> {} | Some D \<Rightarrow> D) \<or> get_id ix (fst r) = Some s \<and> get_id ix (snd r) = Some t"
      by (auto simp: add_distrust_def update_conv' split: option.splits)
    with Cons show ?case by auto
  qed simp
  then show ?thesis by (simp add: build_distrusts_def)
qed

lemma has_edge_rows:
  assumes "build trows drows = Some G"
  shows "has_trust_edge G v t \<longleftrightarrow> (v, t) \<in> set trows"
    "has_distrust_edge G v t \<longleftrightarrow> (v, t) \<in> set drows \<and> v \<in> users_of trows \<and> t \<in> users_of trows"
proof -
  obtain b es where be: "intern_edges trows builder_new = (b, es)" and G: "index G = freeze b"
    "dsets G = build_distrusts (freeze b) drows" using build_spec [OF assms] by metis
  note ix = index_of_rows [OF be]
  have u: "(v, t) \<in> set trows \<Longrightarrow> v \<in> users_of trows \<and> t \<in> users_of trows" by (force simp: users_of_def)
  show "has_trust_edge G v t \<longleftrightarrow> (v, t) \<in> set trows"
    using neighbors_rows [OF assms, of v _ t] u ix(2) [of v] ix(2) [of t]
    by (auto simp: has_trust_edge_def G split: option.splits)
  have inj: "get_id (freeze b) u = Some n \<Longrightarrow> get_id (freeze b) u' = Some n \<Longrightarrow> u = u'" for u u' n by (simp add: ix(1))
  show "has_distrust_edge G v t \<longleftrightarrow> (v, t) \<in> set drows \<and> v \<in> users_of trows \<and> t \<in> users_of trows"
  proof (cases "get_id (freeze b) v = None \<or> get_id (freeze b) t = None")
    case True
    with ix(2) [of v] ix(2) [of t] show ?thesis by (auto simp: has_distrust_edge_def G split: option.splits)
  next
    case False
    then obtain i j where ij: "get_id (freeze b) v = Some i" "get_id (freeze b) t = Some j" by auto
    have "(\<exists>r \<in> set drows. get_id (freeze b) (fst r) = Some i \<and> get_id (freeze b) (snd r) = Some j) \<longleftrightarrow> (v, t) \<in> set drows"
      using ij inj by (metis fst_conv snd_conv prod.collapse)
    with build_distrusts_spec [of j "freeze b" drows i]
    have "has_distrust_edge G v t \<longleftrightarrow> (v, t) \<in> set drows"
      by (simp add: has_distrust_edge_def G distrust_of_def ij) (cases "map_of (build_distrusts (freeze b) drows) i", simp_all)
    with False ix(2) [of v] ix(2) [of t] show ?thesis by auto
  qed
qed

section \<open>Distances\<close>

text \<open>Distances run from 1 to 3 whatever the rounding; in exact arithmetic a better score is never farther,
  and one, two and three hops of a single path are at 1, 2 and 3.\<close>

lemma score_to_distance_range: "1 \<le> score_to_distance rnd s \<and> score_to_distance rnd s \<le> 3"
  by (auto simp: score_to_distance_def Let_def)

lemma ln_decay: "ln (7 / 10 :: real) < 0"
  by simp

lemma score_to_distance_antimono:
  assumes "s \<le> s'"
  shows "score_to_distance id s' \<le> score_to_distance id s"
proof (cases "s \<le> 0 \<or> s' \<ge> 1")
  case True
  then show ?thesis using score_to_distance_range [of id s] score_to_distance_range [of id s']
    by (auto simp: score_to_distance_def)
next
  case False
  with assms have "ln s \<le> ln s'" by simp
  then have "ln s' / ln (7 / 10) \<le> ln s / ln (7 / 10)" using ln_decay by (intro divide_right_mono_neg) auto
  with False assms show ?thesis by (auto simp: score_to_distance_def Let_def DECAY_def)
qed

lemma score_to_distance_hops:
  assumes "k \<le> 2"
  shows "score_to_distance id ((7 / 10) ^ k) = real k + 1"
proof -
  define p where "p = (7 / 10 :: real) ^ k"
  have "ln p / ln (7 / 10) = real k" using ln_decay by (simp add: p_def ln_realpow)
  moreover have "0 < p" by (simp add: p_def)
  moreover have "k > 0 \<Longrightarrow> p < 1" "k = 0 \<Longrightarrow> p = 1" by (simp_all add: p_def power_less_one_iff)
  ultimately have "score_to_distance id p = real k + 1"
    using assms by (cases "k = 0") (auto simp: score_to_distance_def Let_def DECAY_def)
  then show ?thesis by (simp add: p_def)
qed

section \<open>Paths and scores\<close>

lemma scan_target_None: "scan_target rnd t xs = None \<longleftrightarrow> t \<notin> fst ` set xs"
  by (induction xs) (auto split: if_splits)

lemma scan_target_Some:
  "scan_target rnd t xs = Some r \<Longrightarrow> \<exists>s. map_of xs t = Some s \<and>
     r = (s, if s \<ge> MINIMUM_TRUST_THRESHOLD rnd then Some (score_to_distance rnd s) else None)"
  by (induction xs) (auto split: if_splits)

lemma paths_via_nonempty:
  "paths_via G s t ns {} \<noteq> [] \<longleftrightarrow>
     t \<in> set ns \<or> (\<exists>m \<in> set ns. m \<noteq> s \<and> m \<noteq> t \<and> (t \<in> set (neighbors (forward G) m) \<or>
       (\<exists>n \<in> set (neighbors (forward G) m). n \<noteq> s \<and> n \<noteq> t \<and> n \<noteq> m \<and> t \<in> set (neighbors (forward G) n))))"
  by (auto simp: paths_via_def Let_def filter_empty_conv)

lemma reach_three:
  "(\<exists>k < MAX_DEPTH. t \<in> reach_in g s fh k) \<longleftrightarrow>
     t = fh \<or> t \<noteq> s \<and> (t \<in> set (neighbors g fh) \<or> (\<exists>n \<in> set (neighbors g fh). n \<noteq> s \<and> t \<in> set (neighbors g n)))"
proof -
  have "(\<exists>k < MAX_DEPTH. P k) \<longleftrightarrow> P 0 \<or> P 1 \<or> P 2" for P
    unfolding MAX_DEPTH_def by (auto simp: numeral_3_eq_3 numeral_2_eq_2 less_Suc_eq)
  then show ?thesis by (auto simp: numeral_2_eq_2)
qed

lemma short_or_simple:
  "t \<noteq> s \<and> (\<exists>fh \<in> N. fh \<noteq> s \<and> (t = fh \<or> t \<in> nb fh \<or> (\<exists>n \<in> nb fh. n \<noteq> s \<and> t \<in> nb n))) \<longleftrightarrow>
   s \<noteq> t \<and> (t \<in> N \<or> (\<exists>m \<in> N. m \<noteq> s \<and> m \<noteq> t \<and> (t \<in> nb m \<or> (\<exists>n \<in> nb m. n \<noteq> s \<and> n \<noteq> t \<and> n \<noteq> m \<and> t \<in> nb n))))"
  (is "?l \<longleftrightarrow> ?r")
proof
  assume ?l
  then obtain fh where fh: "t \<noteq> s" "fh \<in> N" "fh \<noteq> s" "t = fh \<or> t \<in> nb fh \<or> (\<exists>n \<in> nb fh. n \<noteq> s \<and> t \<in> nb n)" by blast
  show ?r
  proof (cases "t = fh \<or> t \<in> nb fh")
    case True
    with fh show ?thesis by blast
  next
    case False
    with fh(4) obtain n where "n \<in> nb fh" "n \<noteq> s" "t \<in> nb n" by blast
    moreover from this False have "n \<noteq> t" "n \<noteq> fh" by blast+
    ultimately show ?thesis using fh False by blast
  qed
next
  assume ?r
  then have ne: "t \<noteq> s" and "t \<in> N \<or> (\<exists>m \<in> N. m \<noteq> s \<and> (t \<in> nb m \<or> (\<exists>n \<in> nb m. n \<noteq> s \<and> t \<in> nb n)))" by auto
  then consider "t \<in> N" | m where "m \<in> N" "m \<noteq> s" "t \<in> nb m \<or> (\<exists>n \<in> nb m. n \<noteq> s \<and> t \<in> nb n)" by blast
  then show ?l
  proof cases
    case 1
    with ne show ?thesis by (intro conjI bexI [of _ t]) simp_all
  next
    case 2
    with ne show ?thesis by (intro conjI bexI [of _ m]) simp_all
  qed
qed

text \<open>The list of concrete paths and the score tell the same story: for a viewer without distrusts,
  \<open>paths_to\<close> lists a path exactly when \<open>trust_between\<close> finds a score.\<close>

theorem paths_iff_score:
  assumes "\<And>i. get_id (index G) source = Some i \<Longrightarrow> distrust_of (dsets G) i \<in> {None, Some {}}"
  shows "paths_to G source target \<noteq> [] \<longleftrightarrow> trust_between rnd G source target \<noteq> None"
proof (cases "get_id (index G) source = None \<or> get_id (index G) target = None")
  case True
  then show ?thesis by (auto simp: paths_to_def trust_between_def split: option.splits)
next
  case False
  then obtain s t where st: "get_id (index G) source = Some s" "get_id (index G) target = Some t" by auto
  let ?g = "forward G" and ?ns = "neighbors (forward G) s"
  have D: "(case distrust_of (dsets G) s of None \<Rightarrow> {} | Some D \<Rightarrow> D) = {}" using assms [OF st(1)] by auto
  have "MAX_DEPTH \<ge> 1" by (simp add: MAX_DEPTH_def)
  note keys = forward_key_set [OF this, of rnd s ?g ?ns "{}"]
  have "trust_between rnd G source target \<noteq> None \<longleftrightarrow>
      (\<exists>fh \<in> set ?ns - {s}. \<exists>k < MAX_DEPTH. t \<in> reach_in ?g s fh k)"
    by (simp only: trust_between_def st option.case scan_target_None forward_bfs_def D keys not_not mem_Collect_eq)
  also have "\<dots> \<longleftrightarrow> t \<noteq> s \<and> (\<exists>fh \<in> set ?ns. fh \<noteq> s \<and> (t = fh \<or> t \<in> set (neighbors ?g fh)
      \<or> (\<exists>n \<in> set (neighbors ?g fh). n \<noteq> s \<and> t \<in> set (neighbors ?g n))))"
    unfolding reach_three by blast
  also have "\<dots> \<longleftrightarrow> s \<noteq> t \<and> paths_via G s t ?ns {} \<noteq> []"
    unfolding paths_via_nonempty by (rule short_or_simple)
  finally show ?thesis by (simp add: paths_to_def st D)
qed

theorem paths_iff_score_witness:
  "paths_to (the (build [(1, 2), (2, 3), (3, 4)] [])) 1 4 = [ThreeHop 2 3]
   \<and> trust_between id (the (build [(1, 2), (2, 3), (3, 4)] [])) 1 4 \<noteq> None"
proof -
  let ?G = "the (build [(1, 2), (2, 3), (3, 4)] [])"
  have p: "paths_to ?G 1 4 = [ThreeHop 2 3]" "dsets ?G = []" by code_simp+
  then have "distrust_of (dsets ?G) i \<in> {None, Some {}}" for i by (simp add: distrust_of_def)
  from paths_iff_score [OF this, where source = 1 and target = 4 and rnd = id] p show ?thesis by simp
qed

end
