(* ===== verification/Pending_Deltas.thy ===== *)
theory Pending_Deltas
  imports Trust_Graph
begin

text \<open>
  \<open>ViewerDelta\<close> and \<open>PendingDeltas\<close> of \<open>server/src/trust.rs\<close>, the overlay of a delta on the cached graph,
  and the delta-aware queries. A \<open>HashSet\<close> is a duplicate-free list in an arbitrary order. The
  read-write lock is a flag that says whether it is poisoned, with the count of poisonings that the
  metrics record. The sequence counter (\<open>u64\<close>, one increment per click) is a natural number.
\<close>

datatype TrustStance = Neutral | Trust | Distrust

record ViewerDelta =
  trust_added :: "uuid list"
  trust_removed :: "uuid list"
  distrust_added :: "uuid list"
  distrust_removed :: "uuid list"
  d_seq :: nat

definition delta_default :: ViewerDelta where
  "delta_default = \<lparr>trust_added = [], trust_removed = [], distrust_added = [], distrust_removed = [], d_seq = 0\<rparr>"

definition delta_is_empty :: "ViewerDelta \<Rightarrow> bool" where
  "delta_is_empty d \<longleftrightarrow> trust_added d = [] \<and> trust_removed d = [] \<and> distrust_added d = [] \<and> distrust_removed d = []"

record PendingDeltas =
  pd_inner :: "uuid \<rightharpoonup> ViewerDelta"
  seq_counter :: nat
  lock_poisoned :: bool
  poisoned_count :: nat

definition deltas_new :: PendingDeltas where
  "deltas_new = \<lparr>pd_inner = Map.empty, seq_counter = 1, lock_poisoned = False, poisoned_count = 0\<rparr>"

definition record_poisoned :: "PendingDeltas \<Rightarrow> PendingDeltas" where
  "record_poisoned pd = pd\<lparr>poisoned_count := poisoned_count pd + 1\<rparr>"

definition current_seq :: "PendingDeltas \<Rightarrow> nat" where
  "current_seq pd = seq_counter pd"

definition deltas_get :: "PendingDeltas \<Rightarrow> uuid \<Rightarrow> ViewerDelta \<times> PendingDeltas" where
  "deltas_get pd viewer =
     (if lock_poisoned pd then (delta_default, record_poisoned pd)
      else (case pd_inner pd viewer of None \<Rightarrow> delta_default | Some d \<Rightarrow> d, pd))"

text \<open>The update of one viewer's entry under the lock.\<close>

definition delta_update :: "uuid \<Rightarrow> bool \<Rightarrow> bool \<Rightarrow> TrustStance \<Rightarrow> nat \<Rightarrow> ViewerDelta \<Rightarrow> ViewerDelta" where
  "delta_update target cached_was_trust cached_was_distrust new_stance seq entry =
     (let now_trust = (new_stance = Trust); now_distrust = (new_stance = Distrust);
          put = (\<lambda>c xs. if c then List.insert target (removeAll target xs) else removeAll target xs)
      in \<lparr>trust_added = put (now_trust \<and> \<not> cached_was_trust) (trust_added entry),
          trust_removed = put (\<not> now_trust \<and> cached_was_trust) (trust_removed entry),
          distrust_added = put (now_distrust \<and> \<not> cached_was_distrust) (distrust_added entry),
          distrust_removed = put (\<not> now_distrust \<and> cached_was_distrust) (distrust_removed entry),
          d_seq = max (d_seq entry) seq\<rparr>)"

definition deltas_apply :: "uuid \<Rightarrow> uuid \<Rightarrow> bool \<Rightarrow> bool \<Rightarrow> TrustStance \<Rightarrow> PendingDeltas \<Rightarrow> PendingDeltas" where
  "deltas_apply viewer target cached_was_trust cached_was_distrust new_stance pd =
     (let seq = seq_counter pd; pd = pd\<lparr>seq_counter := seq + 1\<rparr>
      in if lock_poisoned pd then record_poisoned pd
         else let entry = delta_update target cached_was_trust cached_was_distrust new_stance seq
                    (case pd_inner pd viewer of None \<Rightarrow> delta_default | Some d \<Rightarrow> d)
              in if delta_is_empty entry then pd\<lparr>pd_inner := (pd_inner pd)(viewer := None)\<rparr>
                 else pd\<lparr>pd_inner := (pd_inner pd)(viewer \<mapsto> entry)\<rparr>)"

definition purge_below :: "nat \<Rightarrow> PendingDeltas \<Rightarrow> PendingDeltas" where
  "purge_below high_water pd =
     (if lock_poisoned pd then record_poisoned pd
      else pd\<lparr>pd_inner := (\<lambda>v. case pd_inner pd v of
                None \<Rightarrow> None | Some d \<Rightarrow> if d_seq d \<ge> high_water then Some d else None)\<rparr>)"

section \<open>The overlay\<close>

definition ids_of :: "NodeIndex \<Rightarrow> uuid list \<Rightarrow> nat list" where
  "ids_of ix us = List.map_filter (get_id ix) us"

definition apply_delta_overlay :: "nat \<Rightarrow> TrustGraph \<Rightarrow> ViewerDelta \<Rightarrow> nat list \<times> nat set" where
  "apply_delta_overlay source G delta =
     (let neighbors0 = neighbors (forward G) source;
          removed = ids_of (index G) (trust_removed delta);
          neighbors1 = filter (\<lambda>n. n \<notin> set removed) neighbors0;
          neighbors2 = neighbors1 @ filter (\<lambda>n. n \<notin> set neighbors1) (ids_of (index G) (trust_added delta));
          distrusts0 = (case distrust_of (dsets G) source of None \<Rightarrow> {} | Some D \<Rightarrow> D);
          distrusts1 = distrusts0 - set (ids_of (index G) (distrust_removed delta));
          distrusts2 = distrusts1 \<union> set (ids_of (index G) (distrust_added delta))
      in (neighbors2, distrusts2))"

definition forward_scores_with_delta :: "(real \<Rightarrow> real) \<Rightarrow> TrustGraph \<Rightarrow> uuid \<Rightarrow> ViewerDelta \<Rightarrow> TrustScore list" where
  "forward_scores_with_delta rnd G reader delta =
     (if delta_is_empty delta then forward_scores rnd G reader
      else case get_id (index G) reader of
        None \<Rightarrow> []
      | Some i \<Rightarrow> let (source_neighbors, viewer_distrusts) = apply_delta_overlay i G delta
          in to_scores rnd (index G) (forward_bfs_inner rnd i (forward G) source_neighbors viewer_distrusts MAX_DEPTH))"

definition trust_between_with_delta ::
  "(real \<Rightarrow> real) \<Rightarrow> TrustGraph \<Rightarrow> uuid \<Rightarrow> uuid \<Rightarrow> ViewerDelta \<Rightarrow> (real \<times> real option) option" where
  "trust_between_with_delta rnd G source target delta =
     (if delta_is_empty delta then trust_between rnd G source target
      else case get_id (index G) source of
        None \<Rightarrow> None
      | Some s \<Rightarrow> (case get_id (index G) target of
          None \<Rightarrow> None
        | Some t \<Rightarrow> let (source_neighbors, viewer_distrusts) = apply_delta_overlay s G delta
            in scan_target rnd t (forward_bfs_inner rnd s (forward G) source_neighbors viewer_distrusts MAX_DEPTH)))"

definition paths_to_with_delta :: "TrustGraph \<Rightarrow> uuid \<Rightarrow> uuid \<Rightarrow> ViewerDelta \<Rightarrow> TrustPath list" where
  "paths_to_with_delta G source target delta =
     (if delta_is_empty delta then paths_to G source target
      else case get_id (index G) source of
        None \<Rightarrow> []
      | Some s \<Rightarrow> (case get_id (index G) target of
          None \<Rightarrow> []
        | Some t \<Rightarrow>
            if s = t then []
            else let (source_neighbors, distrusted) = apply_delta_overlay s G delta
                 in paths_via G s t source_neighbors distrusted))"

section \<open>The result caches\<close>

text \<open>The three \<open>quick_cache\<close> tables of a graph. Insertion into a cache may evict anything: it is a parameter
  of which only \<open>cache_insert\<close> is used.\<close>

type_synonym bfs_map = "(uuid \<times> real) list"

record BfsCaches =
  forward_cache :: "uuid \<rightharpoonup> bfs_map"
  reverse_cache :: "uuid \<rightharpoonup> bfs_map"
  delta_forward_cache :: "uuid \<times> nat \<rightharpoonup> bfs_map"

definition cache_insert :: "(('k \<rightharpoonup> 'v) \<Rightarrow> 'k \<Rightarrow> 'v \<Rightarrow> ('k \<rightharpoonup> 'v)) \<Rightarrow> bool" where
  "cache_insert ins \<longleftrightarrow> (\<forall>c k v. ins c k v \<subseteq>\<^sub>m c(k \<mapsto> v))"

definition cached :: "(('k \<rightharpoonup> 'v) \<Rightarrow> 'k \<Rightarrow> 'v \<Rightarrow> ('k \<rightharpoonup> 'v)) \<Rightarrow> 'k \<Rightarrow> 'v \<Rightarrow> ('k \<rightharpoonup> 'v) \<Rightarrow> 'v \<times> ('k \<rightharpoonup> 'v)" where
  "cached ins k compute c = (case c k of Some v \<Rightarrow> (v, c) | None \<Rightarrow> (compute, ins c k compute))"

definition distance_map where
  "distance_map ins rnd f32 G reader cs =
     (let (m, c) = cached ins reader (distance_entries f32 (forward_scores rnd G reader)) (forward_cache cs)
      in (m, cs\<lparr>forward_cache := c\<rparr>))"

definition reverse_score_map where
  "reverse_score_map ins rnd f32 G reader cs =
     (let (m, c) = cached ins reader (reverse_score_entries rnd f32 G reader) (reverse_cache cs)
      in (m, cs\<lparr>reverse_cache := c\<rparr>))"

definition distance_map_with_delta where
  "distance_map_with_delta ins insd rnd f32 G reader delta cs =
     (if delta_is_empty delta then distance_map ins rnd f32 G reader cs
      else let (m, c) = cached insd (reader, d_seq delta)
                 (distance_entries f32 (forward_scores_with_delta rnd G reader delta)) (delta_forward_cache cs)
           in (m, cs\<lparr>delta_forward_cache := c\<rparr>))"

section \<open>Membership after an update\<close>

lemma set_ids_of: "set (ids_of ix us) = {i. \<exists>u \<in> set us. get_id ix u = Some i}"
  by (force simp: ids_of_def List.map_filter_def)

lemma delta_update_sets:
  "set (trust_added (delta_update t ct cd st q d)) = (set (trust_added d) - {t}) \<union> (if st = Trust \<and> \<not> ct then {t} else {})"
  "set (trust_removed (delta_update t ct cd st q d)) = (set (trust_removed d) - {t}) \<union> (if st \<noteq> Trust \<and> ct then {t} else {})"
  "set (distrust_added (delta_update t ct cd st q d)) = (set (distrust_added d) - {t}) \<union> (if st = Distrust \<and> \<not> cd then {t} else {})"
  "set (distrust_removed (delta_update t ct cd st q d)) = (set (distrust_removed d) - {t}) \<union> (if st \<noteq> Distrust \<and> cd then {t} else {})"
  by (auto simp: delta_update_def Let_def)

text \<open>The delta of a viewer as the readers see it, when the lock is not poisoned.\<close>

definition delta_of :: "PendingDeltas \<Rightarrow> uuid \<Rightarrow> ViewerDelta" where
  "delta_of pd v = fst (deltas_get pd v)"

lemma delta_of_not_poisoned: "\<not> lock_poisoned pd \<Longrightarrow> delta_of pd v = (case pd_inner pd v of None \<Rightarrow> delta_default | Some d \<Rightarrow> d)"
  by (simp add: delta_of_def deltas_get_def)

lemma deltas_apply_other: "v' \<noteq> v \<Longrightarrow> pd_inner (deltas_apply v t ct cd st pd) v' = pd_inner pd v'"
  by (simp add: deltas_apply_def Let_def record_poisoned_def)

lemma deltas_apply_fields [simp]:
  "seq_counter (deltas_apply v t ct cd st pd) = seq_counter pd + 1"
  "lock_poisoned (deltas_apply v t ct cd st pd) = lock_poisoned pd"
  by (simp_all add: deltas_apply_def Let_def record_poisoned_def)

lemma deltas_apply_sets:
  assumes "\<not> lock_poisoned pd" "f \<in> {trust_added, trust_removed, distrust_added, distrust_removed}"
  shows "set (f (delta_of (deltas_apply v t ct cd st pd) v)) = set (f (delta_update t ct cd st (seq_counter pd) (delta_of pd v)))"
  using assms by (auto simp: delta_of_not_poisoned deltas_apply_def Let_def delta_is_empty_def delta_default_def)

lemma deltas_apply_seq:
  assumes "\<not> lock_poisoned pd" "pd_inner (deltas_apply v t ct cd st pd) v = Some d" "\<forall>d'. pd_inner pd v = Some d' \<longrightarrow> d_seq d' < seq_counter pd"
  shows "d_seq d < seq_counter pd + 1"
proof -
  have "d = delta_update t ct cd st (seq_counter pd) (case pd_inner pd v of None \<Rightarrow> delta_default | Some d \<Rightarrow> d)"
    using assms(1,2) by (auto simp: deltas_apply_def Let_def split: if_splits)
  then have "d_seq d = max (d_seq (case pd_inner pd v of None \<Rightarrow> delta_default | Some d \<Rightarrow> d)) (seq_counter pd)"
    by (simp add: delta_update_def Let_def)
  with assms(3) show ?thesis by (cases "pd_inner pd v") (auto simp: delta_default_def)
qed

section \<open>What the overlay shows\<close>

text \<open>Whether the search from \<open>v\<close> treats \<open>t\<close> as trusted by \<open>v\<close>, or as distrusted.\<close>

definition sees_trust :: "TrustGraph \<Rightarrow> ViewerDelta \<Rightarrow> uuid \<Rightarrow> uuid \<Rightarrow> bool" where
  "sees_trust G d v t = (case (get_id (index G) v, get_id (index G) t) of
     (Some i, Some j) \<Rightarrow> j \<in> set (fst (apply_delta_overlay i G d)) | _ \<Rightarrow> False)"

definition sees_distrust :: "TrustGraph \<Rightarrow> ViewerDelta \<Rightarrow> uuid \<Rightarrow> uuid \<Rightarrow> bool" where
  "sees_distrust G d v t = (case (get_id (index G) v, get_id (index G) t) of
     (Some i, Some j) \<Rightarrow> j \<in> snd (apply_delta_overlay i G d) | _ \<Rightarrow> False)"

definition indexed :: "TrustGraph \<Rightarrow> uuid \<Rightarrow> bool" where
  "indexed G u \<longleftrightarrow> get_id (index G) u \<noteq> None"

definition index_inj :: "TrustGraph \<Rightarrow> bool" where
  "index_inj G \<longleftrightarrow> (\<forall>u u' i. get_id (index G) u = Some i \<longrightarrow> get_id (index G) u' = Some i \<longrightarrow> u = u')"

lemma build_index_inj: "build trows drows = Some G \<Longrightarrow> index_inj G"
proof -
  assume "build trows drows = Some G"
  then obtain b es where be: "intern_edges trows builder_new = (b, es)" "index G = freeze b"
    using build_spec by metis
  then show ?thesis using index_of_rows(1) [OF be(1)] by (auto simp: index_inj_def)
qed

lemma empty_index: "get_id (index empty_graph) u = None"
  by (simp add: empty_graph_def get_id_def bsearch.simps)

lemma sees_iff:
  assumes "index_inj G" "indexed G v" "indexed G t"
  shows "sees_trust G d v t \<longleftrightarrow> has_trust_edge G v t \<and> t \<notin> set (trust_removed d) \<or> t \<in> set (trust_added d)"
    "sees_distrust G d v t \<longleftrightarrow> has_distrust_edge G v t \<and> t \<notin> set (distrust_removed d) \<or> t \<in> set (distrust_added d)"
proof -
  obtain i j where ij: "get_id (index G) v = Some i" "get_id (index G) t = Some j"
    using assms(2,3) by (auto simp: indexed_def)
  have mem: "j \<in> set (ids_of (index G) us) \<longleftrightarrow> t \<in> set us" for us
    using ij(2) assms(1) unfolding set_ids_of index_inj_def by blast
  show "sees_trust G d v t \<longleftrightarrow> has_trust_edge G v t \<and> t \<notin> set (trust_removed d) \<or> t \<in> set (trust_added d)"
    by (auto simp: sees_trust_def ij apply_delta_overlay_def Let_def mem has_trust_edge_def)
  show "sees_distrust G d v t \<longleftrightarrow> has_distrust_edge G v t \<and> t \<notin> set (distrust_removed d) \<or> t \<in> set (distrust_added d)"
    by (auto simp: sees_distrust_def ij apply_delta_overlay_def Let_def mem has_distrust_edge_def split: option.splits)
qed

section \<open>Cache transparency\<close>

lemma cached_ok:
  assumes "cache_insert ins" "\<forall>k v. c k = Some v \<longrightarrow> v = F k" "compute = F k"
  shows "fst (cached ins k compute c) = F k" "\<forall>k' v. snd (cached ins k compute c) k' = Some v \<longrightarrow> v = F k'"
proof -
  show "fst (cached ins k compute c) = F k" using assms(2,3) by (auto simp: cached_def split: option.splits)
  have "ins c k compute \<subseteq>\<^sub>m c(k \<mapsto> compute)" using assms(1) by (simp add: cache_insert_def)
  then have "ins c k compute k' = Some v \<Longrightarrow> (c(k \<mapsto> compute)) k' = Some v" for k' v
    unfolding map_le_def by (metis domI)
  then have "ins c k compute k' = Some v \<Longrightarrow> v = F k'" for k' v
    using assms(2,3) by (metis fun_upd_apply option.inject)
  with assms(2) show "\<forall>k' v. snd (cached ins k compute c) k' = Some v \<longrightarrow> v = F k'"
    by (auto simp: cached_def split: option.splits)
qed

text \<open>A cache is right when every entry is what a fresh search would compute; for the delta cache this
  needs one delta per reader and sequence number.\<close>

definition caches_ok where
  "caches_ok rnd f32 G D cs \<longleftrightarrow>
     (\<forall>r m. forward_cache cs r = Some m \<longrightarrow> m = distance_entries f32 (forward_scores rnd G r))
   \<and> (\<forall>r m. reverse_cache cs r = Some m \<longrightarrow> m = reverse_score_entries rnd f32 G r)
   \<and> (\<forall>k m. delta_forward_cache cs k = Some m \<longrightarrow> m = distance_entries f32 (forward_scores_with_delta rnd G (fst k) (D k)))"



text \<open>Two clicks of one viewer whose sequence numbers are taken in one order and whose entries are written
  in the other leave two different deltas under one sequence number, so under one cache key.\<close>

lemma delta_seq_reused:
  assumes "a \<noteq> b" "q < q'"
  shows "d_seq (delta_update a False False Trust q (delta_update b False False Trust q' d)) =
      d_seq (delta_update b False False Trust q' d)"
    "a \<notin> set (trust_added d) \<Longrightarrow> delta_update a False False Trust q (delta_update b False False Trust q' d) \<noteq>
      delta_update b False False Trust q' d"
proof -
  show "d_seq (delta_update a False False Trust q (delta_update b False False Trust q' d)) =
      d_seq (delta_update b False False Trust q' d)"
    using assms by (simp add: delta_update_def Let_def)
  assume "a \<notin> set (trust_added d)"
  with assms(1) have "set (trust_added (delta_update a False False Trust q (delta_update b False False Trust q' d))) \<noteq>
      set (trust_added (delta_update b False False Trust q' d))"
    unfolding delta_update_sets by auto
  then show "delta_update a False False Trust q (delta_update b False False Trust q' d) \<noteq>
      delta_update b False False Trust q' d" by metis
qed

end
