(* ===== verification/Trust_Rebuild.thy ===== *)
theory Trust_Rebuild
  imports Pending_Deltas
begin

text \<open>
  The rebuild loop of \<open>server/src/trust.rs\<close> beside the two handlers of \<open>server/src/users.rs\<close> that change a
  trust edge, as a step relation: a handler snapshots the cached state of the edge, commits the new
  stance, and records the delta; the loop captures the high-water mark, reads the two tables, swaps the
  graph in and purges. One viewer's handlers run one after the other; everything else interleaves. The
  database is the current stance of every pair; \<open>live\<close> are the users who are not banned.
\<close>

section \<open>Scheduling of a rebuild\<close>

record RebuildSchedule =
  debounce :: nat
  min_interval :: nat
  max_interval :: nat
  bfs_cache_bytes :: nat

definition schedule_default :: RebuildSchedule where
  "schedule_default = \<lparr>debounce = 5, min_interval = 30, max_interval = 300, bfs_cache_bytes = 64 * 1024 * 1024\<rparr>"

text \<open>The instant the inner loop of \<open>rebuild_loop\<close> sleeps until.\<close>

definition rebuild_target :: "RebuildSchedule \<Rightarrow> nat \<Rightarrow> nat \<Rightarrow> nat \<Rightarrow> nat" where
  "rebuild_target window last_rebuild first_mutation last_mutation =
     (let earliest_rebuild = last_rebuild + min_interval window;
          deadline = first_mutation + max_interval window;
          debounce_at = last_mutation + debounce window
      in min (max debounce_at earliest_rebuild) deadline)"

text \<open>The inner loop over the later mutation instants: a mutation before the target moves the target.\<close>

fun rebuild_at :: "RebuildSchedule \<Rightarrow> nat \<Rightarrow> nat \<Rightarrow> nat \<Rightarrow> nat list \<Rightarrow> nat" where
  "rebuild_at w last_rebuild first_mutation last_mutation [] = rebuild_target w last_rebuild first_mutation last_mutation"
| "rebuild_at w last_rebuild first_mutation last_mutation (t # ts) =
     (if t < rebuild_target w last_rebuild first_mutation last_mutation
      then rebuild_at w last_rebuild first_mutation t ts
      else rebuild_target w last_rebuild first_mutation last_mutation)"

lemma rebuild_at_window:
  assumes "sorted (last_mutation # ts)"
  shows "rebuild_at w lr fm last_mutation ts \<le> fm + max_interval w"
    "rebuild_at w lr fm last_mutation ts < fm + max_interval w \<Longrightarrow>
       lr + min_interval w \<le> rebuild_at w lr fm last_mutation ts
     \<and> (\<forall>t \<in> set (last_mutation # ts). t < rebuild_at w lr fm last_mutation ts \<longrightarrow>
          t + debounce w \<le> rebuild_at w lr fm last_mutation ts)"
proof -
  have "rebuild_at w lr fm last_mutation ts \<le> fm + max_interval w
    \<and> (rebuild_at w lr fm last_mutation ts < fm + max_interval w \<longrightarrow>
         lr + min_interval w \<le> rebuild_at w lr fm last_mutation ts
       \<and> last_mutation + debounce w \<le> rebuild_at w lr fm last_mutation ts
       \<and> (\<forall>t \<in> set ts. t < rebuild_at w lr fm last_mutation ts \<longrightarrow> t + debounce w \<le> rebuild_at w lr fm last_mutation ts))"
    using assms
  proof (induction ts arbitrary: last_mutation)
    case Nil
    then show ?case by (auto simp: rebuild_target_def Let_def)
  next
    case (Cons t ts)
    show ?case
    proof (cases "t < rebuild_target w lr fm last_mutation")
      case True
      with Cons.IH [of t] Cons.prems show ?thesis by auto
    next
      case False
      with Cons.prems have "\<forall>u \<in> set (t # ts). rebuild_target w lr fm last_mutation \<le> u" by auto
      with False show ?thesis by (auto simp: rebuild_target_def Let_def)
    qed
  qed
  then show "rebuild_at w lr fm last_mutation ts \<le> fm + max_interval w"
    "rebuild_at w lr fm last_mutation ts < fm + max_interval w \<Longrightarrow>
       lr + min_interval w \<le> rebuild_at w lr fm last_mutation ts
     \<and> (\<forall>t \<in> set (last_mutation # ts). t < rebuild_at w lr fm last_mutation ts \<longrightarrow>
          t + debounce w \<le> rebuild_at w lr fm last_mutation ts)" by auto
qed

text \<open>The rebuild that a change triggers starts at most \<open>max_interval\<close> after that change. If it starts
  earlier than that, it starts at least \<open>min_interval\<close> after the previous rebuild, and no change of the
  burst happened within \<open>debounce\<close> before it.\<close>

theorem rebuild_schedule:
  assumes "sorted (first_mutation # ts)"
  shows "rebuild_at w last_rebuild first_mutation first_mutation ts \<le> first_mutation + max_interval w
    \<and> (rebuild_at w last_rebuild first_mutation first_mutation ts < first_mutation + max_interval w \<longrightarrow>
         last_rebuild + min_interval w \<le> rebuild_at w last_rebuild first_mutation first_mutation ts
       \<and> (\<forall>t \<in> set (first_mutation # ts). t < rebuild_at w last_rebuild first_mutation first_mutation ts \<longrightarrow>
            t + debounce w \<le> rebuild_at w last_rebuild first_mutation first_mutation ts))"
  using rebuild_at_window [OF assms] by blast

theorem rebuild_schedule_witness:
  "rebuild_at schedule_default 70 100 100 [102, 104, 120] = 109
   \<and> rebuild_at schedule_default 70 100 100 [102, 104, 120] \<le> 100 + max_interval schedule_default"
  using rebuild_schedule [of 100 "[102, 104, 120]" schedule_default 70]
  by (simp add: schedule_default_def rebuild_target_def Let_def)

section \<open>Handlers\<close>

datatype flight = Snapshotted uuid TrustStance bool bool | Committed uuid TrustStance bool bool

datatype rphase =
    Waiting
  | Captured nat
  | ReadTrust nat "(uuid \<times> uuid) list"
  | Built nat TrustGraph
  | Swapped nat

record rsys =
  db :: "uuid \<times> uuid \<Rightarrow> TrustStance"
  graph :: TrustGraph
  deltas :: PendingDeltas
  loop :: rphase
  flights :: "uuid \<rightharpoonup> flight"
  settled :: "uuid set"
  quiet :: "uuid set"

text \<open>The ghost fields: \<open>quiet\<close> are the viewers who did nothing since the rebuild in progress captured its
  mark, \<open>settled\<close> those whose last completed rebuild they were quiet for, less those who acted during a
  rebuild after it.\<close>

definition acted :: "uuid \<Rightarrow> rsys \<Rightarrow> rsys" where
  "acted v s = (if loop s = Waiting then s else s\<lparr>settled := settled s - {v}, quiet := quiet s - {v}\<rparr>)"

definition mutation_snapshot :: "uuid \<Rightarrow> uuid \<Rightarrow> TrustStance \<Rightarrow> rsys \<Rightarrow> rsys" where
  "mutation_snapshot viewer target new_stance s =
     acted viewer (s\<lparr>flights := (flights s)(viewer \<mapsto>
       Snapshotted target new_stance (has_trust_edge (graph s) viewer target) (has_distrust_edge (graph s) viewer target))\<rparr>)"

definition mutation_commit :: "uuid \<Rightarrow> uuid \<Rightarrow> TrustStance \<Rightarrow> bool \<Rightarrow> bool \<Rightarrow> rsys \<Rightarrow> rsys" where
  "mutation_commit viewer target new_stance ct cd s =
     acted viewer (s\<lparr>db := (db s)((viewer, target) := new_stance),
       flights := (flights s)(viewer \<mapsto> Committed target new_stance ct cd)\<rparr>)"

definition mutation_record :: "uuid \<Rightarrow> uuid \<Rightarrow> TrustStance \<Rightarrow> bool \<Rightarrow> bool \<Rightarrow> rsys \<Rightarrow> rsys" where
  "mutation_record viewer target new_stance ct cd s =
     acted viewer (s\<lparr>deltas := deltas_apply viewer target ct cd new_stance (deltas s),
       flights := (flights s)(viewer := None)\<rparr>)"

section \<open>Steps\<close>

definition select_trust :: "(uuid \<Rightarrow> bool) \<Rightarrow> (uuid \<times> uuid \<Rightarrow> TrustStance) \<Rightarrow> (uuid \<times> uuid) list \<Rightarrow> bool" where
  "select_trust live D rows \<longleftrightarrow> set rows = {p. D p = Trust \<and> live (fst p) \<and> live (snd p)}"

definition select_distrust :: "(uuid \<times> uuid \<Rightarrow> TrustStance) \<Rightarrow> (uuid \<times> uuid) list \<Rightarrow> bool" where
  "select_distrust D rows \<longleftrightarrow> set rows = {p. D p = Distrust}"

inductive rstep_to :: "(uuid \<Rightarrow> bool) \<Rightarrow> rsys \<Rightarrow> rsys \<Rightarrow> bool" for live where
  snapshot: "flights s v = None \<Longrightarrow> v \<noteq> t \<Longrightarrow> rstep_to live s (mutation_snapshot v t st s)"
| abort: "flights s v = Some (Snapshotted t st ct cd) \<Longrightarrow> rstep_to live s (acted v (s\<lparr>flights := (flights s)(v := None)\<rparr>))"
| commit: "flights s v = Some (Snapshotted t st ct cd) \<Longrightarrow> (st = Neutral \<longrightarrow> db s (v, t) \<noteq> Neutral) \<Longrightarrow>
    rstep_to live s (mutation_commit v t st ct cd s)"
| record_delta: "flights s v = Some (Committed t st ct cd) \<Longrightarrow> rstep_to live s (mutation_record v t st ct cd s)"
| capture: "loop s = Waiting \<Longrightarrow>
    rstep_to live s (s\<lparr>loop := Captured (current_seq (deltas s)), quiet := {v. flights s v = None},
      settled := {v \<in> settled s. flights s v = None}\<rparr>)"
| read_trust: "loop s = Captured hw \<Longrightarrow> select_trust live (db s) rows \<Longrightarrow> rstep_to live s (s\<lparr>loop := ReadTrust hw rows\<rparr>)"
| build_graph: "loop s = ReadTrust hw rows \<Longrightarrow> select_distrust (db s) drows \<Longrightarrow> build rows drows = Some G \<Longrightarrow>
    rstep_to live s (s\<lparr>loop := Built hw G\<rparr>)"
| swap: "loop s = Built hw G \<Longrightarrow> rstep_to live s (s\<lparr>loop := Swapped hw, graph := G\<rparr>)"
| purge: "loop s = Swapped hw \<Longrightarrow>
    rstep_to live s (s\<lparr>loop := Waiting, deltas := purge_below hw (deltas s), settled := settled s \<union> quiet s, quiet := {}\<rparr>)"
| failed: "loop s \<in> {Captured hw, ReadTrust hw rows} \<Longrightarrow> rstep_to live s (s\<lparr>loop := Waiting, quiet := {}\<rparr>)"

definition rinit :: "(uuid \<times> uuid \<Rightarrow> TrustStance) \<Rightarrow> rsys" where
  "rinit D = \<lparr>db = D, graph = empty_graph, deltas = deltas_new, loop = Waiting, flights = Map.empty, settled = {}, quiet = {}\<rparr>"

inductive rreachable :: "(uuid \<Rightarrow> bool) \<Rightarrow> rsys \<Rightarrow> bool" for live where
  init: "rreachable live (rinit D)"
| step: "rreachable live s \<Longrightarrow> rstep_to live s s' \<Longrightarrow> rreachable live s'"

section \<open>The invariant\<close>

text \<open>A graph that shows the database's stance of \<open>v\<close> without any delta.\<close>

definition mirrors :: "(uuid \<Rightarrow> bool) \<Rightarrow> (uuid \<times> uuid \<Rightarrow> TrustStance) \<Rightarrow> TrustGraph \<Rightarrow> uuid \<Rightarrow> uuid \<Rightarrow> bool" where
  "mirrors live D G v t \<longleftrightarrow> (live v \<and> live t \<longrightarrow> (has_trust_edge G v t \<longleftrightarrow> D (v, t) = Trust))
     \<and> (indexed G v \<and> indexed G t \<longrightarrow> (has_distrust_edge G v t \<longleftrightarrow> D (v, t) = Distrust))"

text \<open>A delta that, laid over the graph, shows the database's stance of \<open>v\<close> on \<open>t\<close>.\<close>

definition patches :: "(uuid \<Rightarrow> bool) \<Rightarrow> (uuid \<times> uuid \<Rightarrow> TrustStance) \<Rightarrow> TrustGraph \<Rightarrow> ViewerDelta \<Rightarrow> uuid \<Rightarrow> uuid \<Rightarrow> bool" where
  "patches live D G d v t \<longleftrightarrow>
     (t \<in> set (trust_added d) \<longrightarrow> D (v, t) = Trust) \<and> (t \<in> set (trust_removed d) \<longrightarrow> D (v, t) \<noteq> Trust)
   \<and> (t \<in> set (distrust_added d) \<longrightarrow> D (v, t) = Distrust) \<and> (t \<in> set (distrust_removed d) \<longrightarrow> D (v, t) \<noteq> Distrust)
   \<and> (t \<notin> set (trust_added d) \<union> set (trust_removed d) \<and> live v \<and> live t \<longrightarrow> (has_trust_edge G v t \<longleftrightarrow> D (v, t) = Trust))
   \<and> (t \<notin> set (distrust_added d) \<union> set (distrust_removed d) \<and> indexed G v \<and> indexed G t \<longrightarrow>
        (has_distrust_edge G v t \<longleftrightarrow> D (v, t) = Distrust))"

definition busy_on :: "flight option \<Rightarrow> uuid \<Rightarrow> bool" where
  "busy_on f t \<longleftrightarrow> (\<exists>st ct cd. f = Some (Committed t st ct cd))"

definition settled_ok :: "(uuid \<Rightarrow> bool) \<Rightarrow> rsys \<Rightarrow> uuid \<Rightarrow> bool" where
  "settled_ok live s v \<longleftrightarrow> (\<forall>t. \<not> busy_on (flights s v) t \<longrightarrow> patches live (db s) (graph s) (delta_of (deltas s) v) v t)"

definition flight_ok :: "rsys \<Rightarrow> uuid \<Rightarrow> bool" where
  "flight_ok s v \<longleftrightarrow> (\<forall>t st ct cd.
     (flights s v = Some (Snapshotted t st ct cd) \<longrightarrow> ct = has_trust_edge (graph s) v t \<and> cd = has_distrust_edge (graph s) v t)
   \<and> (flights s v = Some (Committed t st ct cd) \<longrightarrow> ct = has_trust_edge (graph s) v t \<and> cd = has_distrust_edge (graph s) v t
        \<and> db s (v, t) = st))"

definition old_delta :: "nat \<Rightarrow> rsys \<Rightarrow> uuid \<Rightarrow> bool" where
  "old_delta hw s v \<longleftrightarrow> (\<forall>d. pd_inner (deltas s) v = Some d \<longrightarrow> d_seq d < hw)"

definition quiet_ok :: "(uuid \<Rightarrow> bool) \<Rightarrow> rsys \<Rightarrow> uuid \<Rightarrow> bool" where
  "quiet_ok live s v \<longleftrightarrow> flights s v = None \<and> (case loop s of
     Waiting \<Rightarrow> True
   | Captured hw \<Rightarrow> old_delta hw s v
   | ReadTrust hw rows \<Rightarrow> old_delta hw s v \<and> (\<forall>t. (v, t) \<in> set rows \<longleftrightarrow> db s (v, t) = Trust \<and> live v \<and> live t)
   | Built hw G \<Rightarrow> old_delta hw s v \<and> (\<forall>t. mirrors live (db s) G v t)
   | Swapped hw \<Rightarrow> old_delta hw s v \<and> (\<forall>t. mirrors live (db s) (graph s) v t))"

definition graphs_ok :: "rsys \<Rightarrow> bool" where
  "graphs_ok s \<longleftrightarrow> index_inj (graph s) \<and> (\<forall>hw G. loop s = Built hw G \<longrightarrow> index_inj G)"

definition rinv :: "(uuid \<Rightarrow> bool) \<Rightarrow> rsys \<Rightarrow> bool" where
  "rinv live s \<longleftrightarrow> \<not> lock_poisoned (deltas s) \<and> graphs_ok s
     \<and> (\<forall>v. old_delta (seq_counter (deltas s)) s v)
     \<and> (if loop s = Waiting then quiet s = {} else settled s \<subseteq> quiet s)
     \<and> (\<forall>v \<in> settled s. settled_ok live s v \<and> flight_ok s v)
     \<and> (\<forall>v \<in> quiet s. quiet_ok live s v)"

lemma rinvD:
  assumes "rinv live s"
  shows "\<not> lock_poisoned (deltas s)" "graphs_ok s" "old_delta (seq_counter (deltas s)) s v"
    "loop s = Waiting \<Longrightarrow> quiet s = {}" "loop s \<noteq> Waiting \<Longrightarrow> settled s \<subseteq> quiet s"
    "v \<in> settled s \<Longrightarrow> settled_ok live s v" "v \<in> settled s \<Longrightarrow> flight_ok s v" "v \<in> quiet s \<Longrightarrow> quiet_ok live s v"
  using assms unfolding rinv_def by (simp_all split: if_splits)

text \<open>A step of one viewer's handler touches nothing of another viewer.\<close>

definition touches_only :: "uuid \<Rightarrow> rsys \<Rightarrow> rsys \<Rightarrow> bool" where
  "touches_only v s s' \<longleftrightarrow> graph s' = graph s \<and> loop s' = loop s
     \<and> lock_poisoned (deltas s') = lock_poisoned (deltas s) \<and> seq_counter (deltas s) \<le> seq_counter (deltas s')
     \<and> (\<forall>v'. v' \<noteq> v \<longrightarrow> flights s' v' = flights s v' \<and> pd_inner (deltas s') v' = pd_inner (deltas s) v'
          \<and> (\<forall>t. db s' (v', t) = db s (v', t)))"

definition only_viewer :: "uuid \<Rightarrow> rsys \<Rightarrow> rsys \<Rightarrow> bool" where
  "only_viewer v s s' \<longleftrightarrow> touches_only v s s'
     \<and> (if loop s = Waiting then settled s' = settled s \<and> quiet s' = quiet s
        else settled s' = settled s - {v} \<and> quiet s' = quiet s - {v})"

lemma only_viewer_acted:
  assumes "touches_only v s s'" "settled s' = settled s" "quiet s' = quiet s"
  shows "only_viewer v s (acted v s')"
  using assms by (auto simp: only_viewer_def touches_only_def acted_def split: if_splits)

lemma rinv_only_viewer:
  assumes inv: "rinv live s" and ov: "only_viewer v s s'"
    and seq: "old_delta (seq_counter (deltas s')) s' v"
    and mine: "loop s = Waiting \<Longrightarrow> v \<in> settled s \<Longrightarrow> settled_ok live s' v \<and> flight_ok s' v"
  shows "rinv live s'"
proof -
  have eq: "graph s' = graph s" "loop s' = loop s" "lock_poisoned (deltas s') = lock_poisoned (deltas s)"
    using ov by (simp_all add: only_viewer_def touches_only_def)
  have other: "flights s' v' = flights s v'" "pd_inner (deltas s') v' = pd_inner (deltas s) v'" "db s' (v', t) = db s (v', t)"
    if "v' \<noteq> v" for v' t using ov that by (simp_all add: only_viewer_def touches_only_def)
  have np: "\<not> lock_poisoned (deltas s)" by (rule rinvD(1) [OF inv])
  have delta: "delta_of (deltas s') v' = delta_of (deltas s) v'" if "v' \<noteq> v" for v'
    using np eq(3) other(2) [OF that] by (simp add: delta_of_not_poisoned)
  have old: "old_delta hw s' v' = old_delta hw s v'" if "v' \<noteq> v" for hw v' using other(2) [OF that] by (simp add: old_delta_def)
  have sub: "settled s' \<subseteq> settled s" "quiet s' \<subseteq> quiet s"
    and gone: "loop s \<noteq> Waiting \<Longrightarrow> v \<notin> settled s' \<and> v \<notin> quiet s'"
    and wait: "loop s = Waiting \<Longrightarrow> settled s' = settled s \<and> quiet s' = quiet s"
    and still: "loop s \<noteq> Waiting \<Longrightarrow> settled s \<subseteq> quiet s \<Longrightarrow> settled s' \<subseteq> quiet s'"
    using ov by (auto simp: only_viewer_def split: if_splits)
  have so: "settled_ok live s' v' \<and> flight_ok s' v'" if "v' \<in> settled s'" for v'
  proof (cases "v' = v")
    case True
    with that gone sub have "loop s = Waiting" "v \<in> settled s" by auto
    with mine True show ?thesis by simp
  next
    case False
    have "settled_ok live s v'" "flight_ok s v'" using rinvD(6,7) [OF inv] that sub by blast+
    with False show ?thesis
      by (simp add: settled_ok_def flight_ok_def patches_def other delta eq)
  qed
  have qo: "quiet_ok live s' v'" if "v' \<in> quiet s'" for v'
  proof -
    have ne: "v' \<noteq> v" using that gone sub rinvD(4) [OF inv] by (cases "loop s = Waiting") auto
    have "quiet_ok live s v'" using rinvD(8) [OF inv] that sub by blast
    moreover have "mirrors live (db s') G v' = mirrors live (db s) G v'" for G
      by (intro ext) (simp add: mirrors_def other [OF ne])
    ultimately show ?thesis by (auto simp: quiet_ok_def eq old [OF ne] other [OF ne] split: rphase.splits)
  qed
  have od: "old_delta (seq_counter (deltas s')) s' v'" for v'
  proof (cases "v' = v")
    case False
    have "seq_counter (deltas s) \<le> seq_counter (deltas s')" using ov by (simp add: only_viewer_def touches_only_def)
    with rinvD(3) [OF inv, of v'] show ?thesis unfolding old_delta_def other(2) [OF False] by fastforce
  qed (use seq in simp)
  have ph: "if loop s' = Waiting then quiet s' = {} else settled s' \<subseteq> quiet s'"
    using rinvD(4,5) [OF inv] wait still by (simp add: eq)
  have "graphs_ok s'" using rinvD(2) [OF inv] by (simp add: graphs_ok_def eq)
  with np so qo od ph show ?thesis unfolding rinv_def eq by blast
qed

text \<open>Recording a committed stance restores the patch on its target and leaves the others.\<close>

lemma patches_record:
  assumes "\<not> lock_poisoned pd" "ct = has_trust_edge G v t" "cd = has_distrust_edge G v t" "D (v, t) = st"
    and "\<forall>t'. t' \<noteq> t \<longrightarrow> patches live D G (delta_of pd v) v t'"
  shows "patches live D G (delta_of (deltas_apply v t ct cd st pd) v) v t'"
proof -
  have f: "set (trust_added (delta_of (deltas_apply v t ct cd st pd) v)) = (set (trust_added (delta_of pd v)) - {t}) \<union> (if st = Trust \<and> \<not> ct then {t} else {})"
    "set (trust_removed (delta_of (deltas_apply v t ct cd st pd) v)) = (set (trust_removed (delta_of pd v)) - {t}) \<union> (if st \<noteq> Trust \<and> ct then {t} else {})"
    "set (distrust_added (delta_of (deltas_apply v t ct cd st pd) v)) = (set (distrust_added (delta_of pd v)) - {t}) \<union> (if st = Distrust \<and> \<not> cd then {t} else {})"
    "set (distrust_removed (delta_of (deltas_apply v t ct cd st pd) v)) = (set (distrust_removed (delta_of pd v)) - {t}) \<union> (if st \<noteq> Distrust \<and> cd then {t} else {})"
    by (simp_all add: deltas_apply_sets [OF assms(1)] delta_update_sets)
  show ?thesis
  proof (cases "t' = t")
    case True
    then show ?thesis unfolding patches_def f using assms(2-4) by (simp split: if_splits)
  next
    case False
    then have "patches live D G (delta_of pd v) v t'" using assms(5) by blast
    with False show ?thesis unfolding patches_def f by (simp split: if_splits)
  qed
qed

section \<open>Every step keeps it\<close>

lemma acted_fields [simp]:
  "db (acted v s) = db s" "graph (acted v s) = graph s" "deltas (acted v s) = deltas s" "loop (acted v s) = loop s"
  "flights (acted v s) = flights s"
  by (simp_all add: acted_def)

lemma acted_settled_ok [simp]:
  "settled_ok live (acted v s) v' = settled_ok live s v'" "flight_ok (acted v s) v' = flight_ok s v'"
  "old_delta hw (acted v s) v' = old_delta hw s v'"
  by (simp_all add: settled_ok_def flight_ok_def old_delta_def)

lemma snapshot_inv:
  assumes inv: "rinv live s" and "flights s v = None"
  shows "rinv live (mutation_snapshot v t st s)"
  unfolding mutation_snapshot_def
proof (rule rinv_only_viewer [OF inv only_viewer_acted])
  let ?s = "s\<lparr>flights := (flights s)(v \<mapsto> Snapshotted t st (has_trust_edge (graph s) v t) (has_distrust_edge (graph s) v t))\<rparr>"
  show "touches_only v s ?s" by (simp add: touches_only_def)
  show "settled_ok live (acted v ?s) v \<and> flight_ok (acted v ?s) v" if "v \<in> settled s"
    using rinvD(6) [OF inv that] by (simp add: settled_ok_def busy_on_def flight_ok_def assms(2))
qed (use rinvD(3) [OF inv] in \<open>simp_all add: old_delta_def\<close>)

lemma abort_inv:
  assumes inv: "rinv live s" and "flights s v = Some (Snapshotted t st ct cd)"
  shows "rinv live (acted v (s\<lparr>flights := (flights s)(v := None)\<rparr>))"
proof (rule rinv_only_viewer [OF inv only_viewer_acted])
  let ?s = "s\<lparr>flights := (flights s)(v := None)\<rparr>"
  show "touches_only v s ?s" by (simp add: touches_only_def)
  show "settled_ok live (acted v ?s) v \<and> flight_ok (acted v ?s) v" if "v \<in> settled s"
    using rinvD(6) [OF inv that] by (simp add: settled_ok_def busy_on_def flight_ok_def assms(2))
qed (use rinvD(3) [OF inv] in \<open>simp_all add: old_delta_def\<close>)

lemma commit_inv:
  assumes inv: "rinv live s" and fl: "flights s v = Some (Snapshotted t st ct cd)"
  shows "rinv live (mutation_commit v t st ct cd s)"
  unfolding mutation_commit_def
proof (rule rinv_only_viewer [OF inv only_viewer_acted])
  let ?s = "s\<lparr>db := (db s)((v, t) := st), flights := (flights s)(v \<mapsto> Committed t st ct cd)\<rparr>"
  show "touches_only v s ?s" by (simp add: touches_only_def)
  show "settled_ok live (acted v ?s) v \<and> flight_ok (acted v ?s) v" if "v \<in> settled s"
    using rinvD(6,7) [OF inv that] by (simp add: settled_ok_def busy_on_def flight_ok_def fl patches_def)
qed (use rinvD(3) [OF inv] in \<open>simp_all add: old_delta_def\<close>)

lemma record_inv:
  assumes inv: "rinv live s" and fl: "flights s v = Some (Committed t st ct cd)"
  shows "rinv live (mutation_record v t st ct cd s)"
  unfolding mutation_record_def
proof (rule rinv_only_viewer [OF inv only_viewer_acted])
  let ?s = "s\<lparr>deltas := deltas_apply v t ct cd st (deltas s), flights := (flights s)(v := None)\<rparr>"
  note np = rinvD(1) [OF inv]
  show "touches_only v s ?s" by (simp add: touches_only_def deltas_apply_other)
  show "old_delta (seq_counter (deltas (acted v ?s))) (acted v ?s) v"
    using deltas_apply_seq [OF np] rinvD(3) [OF inv, of v] by (simp add: old_delta_def)
  show "settled_ok live (acted v ?s) v \<and> flight_ok (acted v ?s) v" if "v \<in> settled s"
  proof -
    have fo: "ct = has_trust_edge (graph s) v t" "cd = has_distrust_edge (graph s) v t" "db s (v, t) = st"
      using rinvD(7) [OF inv that] fl by (simp_all add: flight_ok_def)
    have "\<forall>t'. t' \<noteq> t \<longrightarrow> patches live (db s) (graph s) (delta_of (deltas s) v) v t'"
      using rinvD(6) [OF inv that] by (simp add: settled_ok_def fl busy_on_def)
    from patches_record [OF np fo this] show ?thesis
      by (simp add: settled_ok_def flight_ok_def busy_on_def)
  qed
qed simp_all

text \<open>The loop's own steps.\<close>

lemma capture_inv:
  assumes inv: "rinv live s" and "loop s = Waiting"
  shows "rinv live (s\<lparr>loop := Captured (current_seq (deltas s)), quiet := {v. flights s v = None},
    settled := {v \<in> settled s. flights s v = None}\<rparr>)" (is "rinv live ?s")
proof -
  have "settled_ok live ?s v \<and> flight_ok ?s v" if "v \<in> settled s" for v
    using rinvD(6,7) [OF inv that] by (simp add: settled_ok_def flight_ok_def)
  moreover have "quiet_ok live ?s v" if "flights s v = None" for v
    using rinvD(3) [OF inv, of v] that by (simp add: quiet_ok_def old_delta_def current_seq_def)
  moreover have "old_delta (seq_counter (deltas s)) ?s v" for v using rinvD(3) [OF inv, of v] by (simp add: old_delta_def)
  moreover have "graphs_ok ?s" using rinvD(2) [OF inv] by (simp add: graphs_ok_def)
  ultimately show ?thesis using rinvD(1) [OF inv] by (auto simp: rinv_def)
qed

lemma rinv_loop:
  assumes inv: "rinv live s" and "loop s \<noteq> Waiting" "ph \<noteq> Waiting"
    and G: "G' = graph s \<or> index_inj G'" "\<forall>hw G. ph = Built hw G \<longrightarrow> index_inj G"
    and q: "\<And>v. quiet_ok live s v \<Longrightarrow> quiet_ok live (s\<lparr>loop := ph, graph := G'\<rparr>) v"
    and st: "\<And>v. v \<in> settled s \<Longrightarrow> quiet_ok live s v \<Longrightarrow> settled_ok live s v \<Longrightarrow> settled_ok live (s\<lparr>loop := ph, graph := G'\<rparr>) v"
  shows "rinv live (s\<lparr>loop := ph, graph := G'\<rparr>)" (is "rinv live ?s")
proof -
  have sub: "settled s \<subseteq> quiet s" by (rule rinvD(5) [OF inv assms(2)])
  have "quiet_ok live ?s v" if "v \<in> quiet s" for v using q rinvD(8) [OF inv that] by blast
  moreover have "settled_ok live ?s v \<and> flight_ok ?s v" if "v \<in> settled s" for v
  proof -
    have qo: "quiet_ok live s v" using rinvD(8) [OF inv] that sub by blast
    then have "flights s v = None" by (simp add: quiet_ok_def)
    with st [OF that qo] rinvD(6) [OF inv that] show ?thesis by (simp add: flight_ok_def)
  qed
  moreover have "old_delta (seq_counter (deltas s)) ?s v" for v using rinvD(3) [OF inv, of v] by (simp add: old_delta_def)
  moreover have "graphs_ok ?s" using rinvD(2) [OF inv] G by (auto simp: graphs_ok_def)
  ultimately show ?thesis using rinvD(1) [OF inv] sub assms(3) by (simp add: rinv_def)
qed

lemma settled_loop [simp]: "settled_ok live (s\<lparr>loop := ph\<rparr>) v = settled_ok live s v"
  by (simp add: settled_ok_def)

lemma read_trust_inv:
  assumes inv: "rinv live s" and ph: "loop s = Captured hw" and rows: "select_trust live (db s) rows"
  shows "rinv live (s\<lparr>loop := ReadTrust hw rows\<rparr>)"
proof -
  have "rinv live (s\<lparr>loop := ReadTrust hw rows, graph := graph s\<rparr>)"
  proof (rule rinv_loop [OF inv])
    show "quiet_ok live (s\<lparr>loop := ReadTrust hw rows, graph := graph s\<rparr>) v" if "quiet_ok live s v" for v
      using that rows by (simp add: quiet_ok_def ph old_delta_def select_trust_def)
  qed (use ph in \<open>auto\<close>)
  then show ?thesis by simp
qed

lemma build_mirrors:
  assumes "build rows drows = Some G" "select_distrust D drows" "\<forall>t. (v, t) \<in> set rows \<longleftrightarrow> D (v, t) = Trust \<and> live v \<and> live t"
  shows "mirrors live D G v t"
proof -
  obtain b es where be: "intern_edges rows builder_new = (b, es)" "index G = freeze b" using build_spec [OF assms(1)] by metis
  have "indexed G u \<longleftrightarrow> u \<in> users_of rows" for u unfolding indexed_def be(2) by (rule index_of_rows(2) [OF be(1)])
  with has_edge_rows [OF assms(1), of v t] assms(2,3) show ?thesis
    by (simp add: mirrors_def select_distrust_def)
qed

lemma build_graph_inv:
  assumes inv: "rinv live s" and ph: "loop s = ReadTrust hw rows" and d: "select_distrust (db s) drows" and G: "build rows drows = Some G"
  shows "rinv live (s\<lparr>loop := Built hw G\<rparr>)"
proof -
  have "rinv live (s\<lparr>loop := Built hw G, graph := graph s\<rparr>)"
  proof (rule rinv_loop [OF inv])
    show "quiet_ok live (s\<lparr>loop := Built hw G, graph := graph s\<rparr>) v" if "quiet_ok live s v" for v
      using that build_mirrors [OF G d, of v live] by (auto simp: quiet_ok_def ph old_delta_def)
  qed (use ph build_index_inj [OF G] in \<open>auto\<close>)
  then show ?thesis by simp
qed

lemma patches_mirrors: "patches live D G d v t \<Longrightarrow> mirrors live D G' v t \<Longrightarrow> patches live D G' d v t"
  by (auto simp: patches_def mirrors_def)

lemma swap_inv:
  assumes inv: "rinv live s" and ph: "loop s = Built hw G"
  shows "rinv live (s\<lparr>loop := Swapped hw, graph := G\<rparr>)"
proof (rule rinv_loop [OF inv])
  show "quiet_ok live (s\<lparr>loop := Swapped hw, graph := G\<rparr>) v" if "quiet_ok live s v" for v
    using that by (auto simp: quiet_ok_def ph old_delta_def)
  show "settled_ok live (s\<lparr>loop := Swapped hw, graph := G\<rparr>) v" if "quiet_ok live s v" "settled_ok live s v" for v
    using that patches_mirrors [of live "db s" "graph s" _ v _ G] by (simp add: quiet_ok_def ph settled_ok_def busy_on_def)
qed (use ph rinvD(2) [OF inv] in \<open>auto simp: graphs_ok_def\<close>)

lemma purged_delta:
  assumes "\<not> lock_poisoned pd" "\<forall>d. pd_inner pd v = Some d \<longrightarrow> d_seq d < hw"
  shows "delta_of (purge_below hw pd) v = delta_default"
  using assms by (auto simp: delta_of_def deltas_get_def purge_below_def split: option.splits)

lemma purge_inv:
  assumes inv: "rinv live s" and ph: "loop s = Swapped hw"
  shows "rinv live (s\<lparr>loop := Waiting, deltas := purge_below hw (deltas s), settled := settled s \<union> quiet s, quiet := {}\<rparr>)"
    (is "rinv live ?s")
proof -
  have np: "\<not> lock_poisoned (deltas s)" by (rule rinvD(1) [OF inv])
  have "settled_ok live ?s v \<and> flight_ok ?s v" if "v \<in> settled s \<union> quiet s" for v
  proof -
    have "quiet_ok live s v" using that rinvD(5,8) [OF inv] ph by auto
    then have q: "flights s v = None" "old_delta hw s v" "\<forall>t. mirrors live (db s) (graph s) v t"
      by (simp_all add: quiet_ok_def ph)
    have "delta_of (purge_below hw (deltas s)) v = delta_default"
      using q(2) np by (intro purged_delta) (simp_all add: old_delta_def)
    with q show ?thesis
      by (simp add: settled_ok_def flight_ok_def busy_on_def patches_def mirrors_def delta_default_def)
  qed
  moreover have "old_delta (seq_counter (purge_below hw (deltas s))) ?s v" for v
    using rinvD(3) [OF inv, of v] np by (auto simp: old_delta_def purge_below_def split: option.splits)
  moreover have "graphs_ok ?s" using rinvD(2) [OF inv] by (simp add: graphs_ok_def)
  ultimately show ?thesis using np by (simp add: rinv_def purge_below_def)
qed

lemma failed_inv:
  assumes inv: "rinv live s"
  shows "rinv live (s\<lparr>loop := Waiting, quiet := {}\<rparr>)" (is "rinv live ?s")
proof -
  have "settled_ok live ?s v \<and> flight_ok ?s v" if "v \<in> settled s" for v
    using rinvD(6,7) [OF inv that] by (simp add: settled_ok_def flight_ok_def)
  moreover have "old_delta (seq_counter (deltas s)) ?s v" for v using rinvD(3) [OF inv, of v] by (simp add: old_delta_def)
  moreover have "graphs_ok ?s" using rinvD(2) [OF inv] by (simp add: graphs_ok_def)
  ultimately show ?thesis using rinvD(1) [OF inv] by (simp add: rinv_def)
qed

lemma rinv_rinit: "rinv live (rinit D)"
  by (simp add: rinv_def rinit_def deltas_new_def graphs_ok_def index_inj_def empty_index old_delta_def)

lemma rstep_inv: "rstep_to live s s' \<Longrightarrow> rinv live s \<Longrightarrow> rinv live s'"
  by (induction rule: rstep_to.induct)
    (blast intro: snapshot_inv abort_inv commit_inv record_inv capture_inv read_trust_inv build_graph_inv swap_inv purge_inv failed_inv)+

lemma rreachable_inv: "rreachable live s \<Longrightarrow> rinv live s"
  by (induction rule: rreachable.induct) (auto intro: rinv_rinit rstep_inv)


text \<open>Runs used as examples: a whole request, and a rebuild with what happens between its read and its swap.\<close>

definition mutate :: "uuid \<Rightarrow> uuid \<Rightarrow> TrustStance \<Rightarrow> rsys \<Rightarrow> rsys" where
  "mutate v t st s =
     (let ct = has_trust_edge (graph s) v t; cd = has_distrust_edge (graph s) v t
      in mutation_record v t st ct cd (mutation_commit v t st ct cd (mutation_snapshot v t st s)))"

lemma mutate_reachable:
  assumes "rreachable live s" "flights s v = None" "v \<noteq> t" "st = Neutral \<longrightarrow> db s (v, t) \<noteq> Neutral"
  shows "rreachable live (mutate v t st s)"
proof -
  let ?ct = "has_trust_edge (graph s) v t" and ?cd = "has_distrust_edge (graph s) v t"
  let ?s1 = "mutation_snapshot v t st s"
  have 1: "rreachable live ?s1" by (rule rreachable.step [OF assms(1) rstep_to.snapshot]) (use assms in simp_all)
  have 2: "rreachable live (mutation_commit v t st ?ct ?cd ?s1)"
    by (rule rreachable.step [OF 1 rstep_to.commit]) (use assms in \<open>simp_all add: mutation_snapshot_def\<close>)
  show ?thesis
    unfolding mutate_def Let_def
    by (rule rreachable.step [OF 2 rstep_to.record_delta]) (simp add: mutation_commit_def)
qed

lemma mutate_fields:
  "loop (mutate v t st s) = loop s" "graph (mutate v t st s) = graph s" "db (mutate v t st s) = (db s)((v, t) := st)"
  "flights (mutate v t st s) = (flights s)(v := None)"
  "deltas (mutate v t st s) = deltas_apply v t (has_trust_edge (graph s) v t) (has_distrust_edge (graph s) v t) st (deltas s)"
  "loop s = Waiting \<Longrightarrow> settled (mutate v t st s) = settled s \<and> quiet (mutate v t st s) = quiet s"
  by (simp_all add: mutate_def mutation_record_def mutation_commit_def mutation_snapshot_def Let_def acted_def)

lemma read_reachable:
  assumes "rreachable live s" "loop s = Waiting" "select_trust live (db s) rows" "select_distrust (db s) drows"
    "build rows drows = Some G"
  shows "rreachable live (s\<lparr>loop := Built (current_seq (deltas s)) G, quiet := {v. flights s v = None},
    settled := {v \<in> settled s. flights s v = None}\<rparr>)"
proof -
  let ?s1 = "s\<lparr>loop := Captured (current_seq (deltas s)), quiet := {v. flights s v = None}, settled := {v \<in> settled s. flights s v = None}\<rparr>"
  have 1: "rreachable live ?s1" by (rule rreachable.step [OF assms(1) rstep_to.capture]) (rule assms(2))
  have 2: "rreachable live (?s1\<lparr>loop := ReadTrust (current_seq (deltas s)) rows\<rparr>)"
    by (rule rreachable.step [OF 1 rstep_to.read_trust]) (use assms(3) in simp_all)
  have "rreachable live (?s1\<lparr>loop := ReadTrust (current_seq (deltas s)) rows, loop := Built (current_seq (deltas s)) G\<rparr>)"
    by (rule rreachable.step [OF 2 rstep_to.build_graph]) (use assms(4,5) in simp_all)
  then show ?thesis by (cases s) simp
qed

lemma finish_reachable:
  assumes "rreachable live s" "loop s = Built hw G"
  shows "rreachable live (s\<lparr>loop := Waiting, graph := G, deltas := purge_below hw (deltas s), settled := settled s \<union> quiet s, quiet := {}\<rparr>)"
proof -
  have 1: "rreachable live (s\<lparr>loop := Swapped hw, graph := G\<rparr>)"
    by (rule rreachable.step [OF assms(1) rstep_to.swap [OF assms(2)]])
  have "rreachable live ((s\<lparr>loop := Swapped hw, graph := G\<rparr>)\<lparr>loop := Waiting, deltas := purge_below hw (deltas s), settled := settled s \<union> quiet s, quiet := {}\<rparr>)"
    using rreachable.step [OF 1 rstep_to.purge, of hw] by simp
  then show ?thesis by (cases s) simp
qed

definition demo_db :: "uuid \<times> uuid \<Rightarrow> TrustStance" where
  "demo_db = (\<lambda>p. if p = (1, 2) \<or> p = (3, 2) then Trust else Neutral)"

definition demo_start :: rsys where
  "demo_start = (rinit demo_db)\<lparr>graph := the (build [(1, 2), (3, 2)] []), settled := UNIV\<rparr>"

lemma build_demo: "build [(1, 2), (3, 2)] [] = Some (the (build [(1, 2), (3, 2)] []))"
  using build_total [of "[(1, 2), (3, 2)]" "[]"] by auto

lemma demo_start_reachable: "rreachable (\<lambda>_. True) demo_start"
proof -
  have t: "select_trust (\<lambda>_. True) (db (rinit demo_db)) [(1, 2), (3, 2)]"
    by (auto simp: select_trust_def rinit_def demo_db_def)
  have d: "select_distrust (db (rinit demo_db)) []"
    by (auto simp: select_distrust_def rinit_def demo_db_def)
  have "rreachable (\<lambda>_. True) ((rinit demo_db)\<lparr>loop := Built 1 (the (build [(1, 2), (3, 2)] [])), quiet := UNIV, settled := {}\<rparr>)"
    using read_reachable [OF rreachable.init _ t d build_demo] by (simp add: rinit_def current_seq_def deltas_new_def)
  from finish_reachable [OF this] show ?thesis
    by (simp add: demo_start_def rinit_def purge_below_def deltas_new_def)
qed

lemma demo_graph:
  "indexed (the (build [(1, 2), (3, 2)] [])) 1" "indexed (the (build [(1, 2), (3, 2)] [])) 3"
  "has_trust_edge (the (build [(1, 2), (3, 2)] [])) 1 3 = False" "has_distrust_edge (the (build [(1, 2), (3, 2)] [])) 1 3 = False"
  by code_simp+


text \<open>A change that overlaps a rebuild can be lost: there is a reachable state, with no request and no
  rebuild in progress, in which the database says the viewer is neutral towards a user whom the cached
  graph, with the viewer's delta laid over it, shows as trusted. The delta was computed against the
  graph that the rebuild replaced, where going back to neutral cancelled the pending change.\<close>

theorem overlapping_change_lost:
  "\<exists>s v t. rreachable (\<lambda>_. True) s \<and> loop s = Waiting \<and> flights s = Map.empty
     \<and> indexed (graph s) v \<and> indexed (graph s) t
     \<and> db s (v, t) = Neutral \<and> sees_trust (graph s) (delta_of (deltas s) v) v t"
proof -
  let ?G0 = "the (build [(1, 2), (3, 2)] [])" and ?rows = "[(1, 2), (3, 2), (1, 3)] :: (uuid \<times> uuid) list"
  let ?G1 = "the (build ?rows [])"
  let ?s1 = "mutate 1 3 Trust demo_start"
  have G1: "build ?rows [] = Some ?G1" using build_total [of ?rows "[]"] by auto
  have s1: "rreachable (\<lambda>_. True) ?s1"
    by (rule mutate_reachable [OF demo_start_reachable]) (simp_all add: demo_start_def rinit_def)
  have f1: "loop ?s1 = Waiting" "graph ?s1 = ?G0" "db ?s1 = demo_db((1, 3) := Trust)" "flights ?s1 = Map.empty"
    "deltas ?s1 = deltas_apply 1 3 False False Trust deltas_new"
    by (simp_all add: mutate_fields(1-5) demo_start_def rinit_def demo_graph)
  let ?s2 = "?s1\<lparr>loop := Built (current_seq (deltas ?s1)) ?G1, quiet := {v. flights ?s1 v = None}, settled := {v \<in> settled ?s1. flights ?s1 v = None}\<rparr>"
  have s2: "rreachable (\<lambda>_. True) ?s2"
    using G1 by (intro read_reachable [OF s1 f1(1)])
      (auto simp: f1 select_trust_def select_distrust_def demo_db_def)
  let ?s3 = "mutate 1 3 Neutral ?s2"
  have s3: "rreachable (\<lambda>_. True) ?s3" by (rule mutate_reachable [OF s2]) (simp_all add: f1)
  let ?s4 = "?s3\<lparr>loop := Waiting, graph := ?G1, deltas := purge_below (current_seq (deltas ?s1)) (deltas ?s3), settled := settled ?s3 \<union> quiet ?s3, quiet := {}\<rparr>"
  have s4: "rreachable (\<lambda>_. True) ?s4" by (rule finish_reachable [OF s3]) (simp add: mutate_fields)
  have d: "deltas ?s4 = purge_below 2 (deltas_apply 1 3 False False Neutral (deltas_apply 1 3 False False Trust deltas_new))"
    by (simp add: mutate_fields(1-5) demo_start_def rinit_def demo_graph current_seq_def) (simp add: deltas_new_def numeral_2_eq_2)
  have none: "delta_of (deltas ?s4) 1 = delta_default"
    unfolding d by (simp add: delta_of_def deltas_get_def purge_below_def deltas_apply_def deltas_new_def delta_update_def
      delta_is_empty_def delta_default_def Let_def)
  have g: "indexed ?G1 1" "indexed ?G1 3" "sees_trust ?G1 delta_default 1 3" by code_simp+
  have f4: "loop ?s4 = Waiting" "flights ?s4 = Map.empty" "graph ?s4 = ?G1" "db ?s4 (1, 3) = Neutral"
    by (simp_all add: mutate_fields(1-5) demo_start_def rinit_def)
  show ?thesis
  proof (intro exI conjI)
    show "rreachable (\<lambda>_. True) ?s4" by (rule s4)
    show "indexed (graph ?s4) 1" "indexed (graph ?s4) 3" "sees_trust (graph ?s4) (delta_of (deltas ?s4) 1) 1 3"
      unfolding f4(3) none by (rule g)+
  qed (rule f4)+
qed

end
