(* ===== verification/Bloom_Filter.thy ===== *)
theory Bloom_Filter
  imports Prism_Prelude Complex_Main
begin

text \<open>
  \<open>BloomFilter\<close> of \<open>server/src/federation/bloom.rs\<close>: the filter an instance announces to its peers so that
  they forward what its users can see. SipHash-2-4 (the crate \<open>siphasher\<close>) is the parameter \<open>sip\<close>, from
  the two key halves and the input to a 64-bit value; no law of it is used. Positions are 64-bit words
  with the wrap-around of the source, bytes are words, and \<open>f32\<close>/\<open>f64\<close> values are reals.
\<close>

unbundle bit_operations_syntax

section \<open>Parameters\<close>

type_synonym siphash = "u64 \<times> u64 \<Rightarrow> bytes \<Rightarrow> u64"

definition K_A :: "u64 \<times> u64" where
  "K_A = (0x0123456789abcdef, 0x0123456789abcdef)"

definition K_B :: "u64 \<times> u64" where
  "K_B = (0xfedcba9876543210, 0xfedcba9876543210)"

definition MIN_M_BITS :: nat where
  "MIN_M_BITS = 64"

definition MAX_M_BITS :: nat where
  "MAX_M_BITS = 2 ^ 32"

definition MIN_K :: nat where
  "MIN_K = 1"

definition MAX_K :: nat where
  "MAX_K = 32"

datatype ParamError = BadM | BadK

datatype ApplyMaskError = LengthMismatch

record BloomFilter =
  bf_k :: nat
  bf_m :: nat
  bf_n_est :: nat
  bf_fpr_target :: real
  bf_bits :: bytes

definition check_params :: "nat \<Rightarrow> nat \<Rightarrow> ParamError + unit" where
  "check_params k m =
     (if \<not> (MIN_K \<le> k \<and> k \<le> MAX_K) then Inl BadK
      else if m < MIN_M_BITS \<or> m \<ge> MAX_M_BITS \<or> \<not> 64 dvd m then Inl BadM
      else Inr ())"

definition new_empty :: "nat \<Rightarrow> nat \<Rightarrow> nat \<Rightarrow> real \<Rightarrow> ParamError + BloomFilter" where
  "new_empty k m n_est fpr = andthen (check_params k m) (\<lambda>_.
     Inr \<lparr>bf_k = k, bf_m = m, bf_n_est = n_est, bf_fpr_target = fpr, bf_bits = replicate (m div 8) 0\<rparr>)"

definition from_parts :: "nat \<Rightarrow> nat \<Rightarrow> nat \<Rightarrow> real \<Rightarrow> bytes \<Rightarrow> ParamError + BloomFilter" where
  "from_parts k m n_est fpr bs = andthen (check_params k m) (\<lambda>_.
     if length bs \<noteq> m div 8 then Inl BadM
     else Inr \<lparr>bf_k = k, bf_m = m, bf_n_est = n_est, bf_fpr_target = fpr, bf_bits = bs\<rparr>)"

definition all_ones_sentinel :: BloomFilter where
  "all_ones_sentinel = \<lparr>bf_k = 1, bf_m = 64, bf_n_est = 0, bf_fpr_target = 1, bf_bits = replicate 8 0xFF\<rparr>"

section \<open>Operations\<close>

definition hashes :: "siphash \<Rightarrow> bytes \<Rightarrow> u64 \<times> u64" where
  "hashes sip key = (sip K_A key, sip K_B key)"

definition bit_positions :: "siphash \<Rightarrow> nat \<Rightarrow> nat \<Rightarrow> bytes \<Rightarrow> nat list" where
  "bit_positions sip k m key =
     (let (a, b) = hashes sip key in map (\<lambda>i. unat (a + of_nat i * b) mod m) [0..<k])"

definition byte_and_mask :: "nat \<Rightarrow> nat \<times> u8" where
  "byte_and_mask p = (p div 8, push_bit (7 - p mod 8) 1)"

definition set_position :: "nat \<Rightarrow> bytes \<Rightarrow> bytes" where
  "set_position p bits = (let (i, msk) = byte_and_mask p in bits[i := (bits ! i) OR msk])"

definition test_position :: "bytes \<Rightarrow> nat \<Rightarrow> bool" where
  "test_position bits p = (let (i, msk) = byte_and_mask p in (bits ! i) AND msk \<noteq> 0)"

definition bloom_insert :: "siphash \<Rightarrow> bytes \<Rightarrow> BloomFilter \<Rightarrow> BloomFilter" where
  "bloom_insert sip key f = f\<lparr>bf_bits := fold set_position (bit_positions sip (bf_k f) (bf_m f) key) (bf_bits f)\<rparr>"

definition bloom_contains :: "siphash \<Rightarrow> BloomFilter \<Rightarrow> bytes \<Rightarrow> bool" where
  "bloom_contains sip f key = list_all (test_position (bf_bits f)) (bit_positions sip (bf_k f) (bf_m f) key)"

definition or_mask :: "bytes \<Rightarrow> BloomFilter \<Rightarrow> ApplyMaskError + BloomFilter" where
  "or_mask msk f =
     (if length msk \<noteq> length (bf_bits f) then Inl LengthMismatch
      else Inr (f\<lparr>bf_bits := map2 (OR) (bf_bits f) msk\<rparr>))"

definition coverage :: "siphash \<Rightarrow> BloomFilter \<Rightarrow> bytes list \<Rightarrow> real" where
  "coverage sip f keys =
     (if keys = [] then 1 else real (length (filter (bloom_contains sip f) keys)) / real (length keys))"

definition popcount :: "BloomFilter \<Rightarrow> nat" where
  "popcount f = (\<Sum>b\<leftarrow>bf_bits f. length (filter (bit b) [0..<8]))"

text \<open>Sizing. \<open>m_raw\<close> is the ceiling of the ideal size; the cast to \<open>u64\<close> saturates and the rounding up wraps.\<close>

definition recommend_m :: "nat \<Rightarrow> real \<Rightarrow> nat" where
  "recommend_m n_est fpr =
     (if n_est = 0 \<or> fpr \<le> 0 \<or> fpr \<ge> 1 then MIN_M_BITS
      else let m_raw = real_of_int \<lceil>- (real n_est * ln fpr) / (ln 2 * ln 2)\<rceil>;
               m = min (nat \<lfloor>max m_raw (real MIN_M_BITS)\<rfloor>) u64_max;
               m = (if \<not> 64 dvd m then (m + (64 - m mod 64)) mod 2 ^ 64 else m);
               upper = MAX_M_BITS - 64
           in min m upper)"

definition recommend_k :: "nat \<Rightarrow> nat \<Rightarrow> nat" where
  "recommend_k m n_est =
     (if n_est = 0 then MIN_K
      else let k_raw = real m / real n_est * ln 2;
               k = min (nat \<lfloor>max (real_of_int (round k_raw)) (real MIN_K)\<rfloor>) u32_max
           in max MIN_K (min k MAX_K))"

section \<open>Bits\<close>

definition bloom_wf :: "BloomFilter \<Rightarrow> bool" where
  "bloom_wf f \<longleftrightarrow> MIN_K \<le> bf_k f \<and> bf_k f \<le> MAX_K \<and> MIN_M_BITS \<le> bf_m f \<and> bf_m f < MAX_M_BITS \<and> 64 dvd bf_m f
     \<and> length (bf_bits f) = bf_m f div 8"

text \<open>The bit a position names, and the set of positions that a bit vector has on.\<close>

definition ones :: "bytes \<Rightarrow> nat set" where
  "ones bits = {p. p < 8 * length bits \<and> bit (bits ! (p div 8)) (7 - p mod 8)}"

lemma mask_bit: "bit (2 ^ n :: u8) j \<longleftrightarrow> n < 8 \<and> j = n"
  by (auto simp: bit_exp_iff)

lemma and_mask_zero: "(w :: u8) AND 2 ^ n = 0 \<longleftrightarrow> \<not> (n < 8 \<and> bit w n)"
proof
  assume "w AND 2 ^ n = 0"
  then have "\<not> bit (w AND 2 ^ n) n" by simp
  then show "\<not> (n < 8 \<and> bit w n)" by (auto simp: bit_and_iff mask_bit)
next
  assume "\<not> (n < 8 \<and> bit w n)"
  then show "w AND 2 ^ n = 0" by (intro bit_word_eqI) (auto simp: bit_and_iff mask_bit)
qed

lemma test_position_ones: "p < 8 * length bits \<Longrightarrow> test_position bits p \<longleftrightarrow> p \<in> ones bits"
  by (auto simp: test_position_def byte_and_mask_def ones_def and_mask_zero)

lemma length_set_position [simp]: "length (set_position p bits) = length bits"
  by (simp add: set_position_def byte_and_mask_def)

lemma same_bit_iff: "p div 8 = q div 8 \<and> 7 - p mod 8 = 7 - q mod 8 \<longleftrightarrow> p = (q :: nat)"
proof
  assume a: "p div 8 = q div 8 \<and> 7 - p mod 8 = 7 - q mod 8"
  moreover have "p mod 8 \<le> 7" "q mod 8 \<le> 7" by (simp_all add: Suc_le_eq flip: less_Suc_eq_le)
  ultimately have "p mod 8 = q mod 8" by linarith
  with a show "p = q" by (metis div_mult_mod_eq)
qed simp

lemma ones_set_position: "p < 8 * length bits \<Longrightarrow> ones (set_position p bits) = insert p (ones bits)"
proof (rule set_eqI)
  fix q assume p: "p < 8 * length bits"
  have pd: "p div 8 < length bits" using p by (simp add: less_mult_imp_div_less mult.commute)
  show "q \<in> ones (set_position p bits) \<longleftrightarrow> q \<in> insert p (ones bits)"
  proof (cases "p div 8 = q div 8")
    case True
    then show ?thesis
      using p pd same_bit_iff [of p q] by (auto simp: ones_def set_position_def byte_and_mask_def bit_or_iff mask_bit)
  next
    case False
    then show ?thesis by (auto simp: ones_def set_position_def byte_and_mask_def)
  qed
qed

lemma ones_fold_set:
  "\<forall>p \<in> set ps. p < 8 * length bits \<Longrightarrow> ones (fold set_position ps bits) = ones bits \<union> set ps \<and> length (fold set_position ps bits) = length bits"
  by (induction ps arbitrary: bits) (auto simp: ones_set_position)

lemma ones_or: "length a = length b \<Longrightarrow> ones (map2 (OR) a b) = ones a \<union> ones b"
proof (rule set_eqI)
  fix p assume l: "length a = length b"
  show "p \<in> ones (map2 (OR) a b) \<longleftrightarrow> p \<in> ones a \<union> ones b"
  proof (cases "p div 8 < length b")
    case True
    with l show ?thesis by (auto simp: ones_def bit_or_iff)
  next
    case False
    with l show ?thesis by (auto simp: ones_def less_mult_imp_div_less mult.commute)
  qed
qed

lemma ones_zero: "ones (replicate n 0) = {}"
  by (auto simp: ones_def less_mult_imp_div_less mult.commute)

lemma ones_inj: "length a = length b \<Longrightarrow> ones a = ones b \<Longrightarrow> a = b"
proof (rule nth_equalityI)
  fix i assume l: "length a = length b" "ones a = ones b" and i: "i < length a"
  have "bit (a ! i) j \<longleftrightarrow> bit (b ! i) j" if j: "j < 8" for j
  proof -
    define r where "r = 7 - j"
    have r: "r < 8" "7 - r = j" using j by (auto simp: r_def)
    let ?p = "8 * i + r"
    have p: "?p div 8 = i" "7 - ?p mod 8 = j" "?p < 8 * length a" using r i by auto
    have "?p \<in> ones a \<longleftrightarrow> ?p \<in> ones b" using l(2) by simp
    with p l(1) show ?thesis by (simp add: ones_def)
  qed
  then show "a ! i = b ! i" by (intro bit_word_eqI) simp
qed

section \<open>Filters\<close>

lemma wf_dims: "bloom_wf f \<Longrightarrow> 8 * length (bf_bits f) = bf_m f \<and> 0 < bf_m f"
  by (auto simp: bloom_wf_def MIN_M_BITS_def)

lemma positions_range: "bloom_wf f \<Longrightarrow> \<forall>p \<in> set (bit_positions sip (bf_k f) (bf_m f) key). p < 8 * length (bf_bits f)"
  using wf_dims [of f] by (auto simp: bit_positions_def hashes_def)

lemma insert_spec:
  assumes "bloom_wf f"
  shows "ones (bf_bits (bloom_insert sip key f)) = ones (bf_bits f) \<union> set (bit_positions sip (bf_k f) (bf_m f) key)"
    "bloom_wf (bloom_insert sip key f)" "bf_k (bloom_insert sip key f) = bf_k f" "bf_m (bloom_insert sip key f) = bf_m f"
  using ones_fold_set [OF positions_range [OF assms, of sip key]] assms
  by (simp_all add: bloom_insert_def bloom_wf_def)

lemma contains_spec:
  "bloom_wf f \<Longrightarrow> bloom_contains sip f key \<longleftrightarrow> set (bit_positions sip (bf_k f) (bf_m f) key) \<subseteq> ones (bf_bits f)"
  using positions_range [of f sip key] by (auto simp: bloom_contains_def list_all_iff test_position_ones)

definition insert_all :: "siphash \<Rightarrow> bytes list \<Rightarrow> BloomFilter \<Rightarrow> BloomFilter" where
  "insert_all sip keys f = fold (bloom_insert sip) keys f"

lemma insert_all_spec:
  assumes "bloom_wf f"
  shows "ones (bf_bits (insert_all sip keys f)) =
      ones (bf_bits f) \<union> (\<Union>key \<in> set keys. set (bit_positions sip (bf_k f) (bf_m f) key))"
    "bloom_wf (insert_all sip keys f)" "bf_k (insert_all sip keys f) = bf_k f" "bf_m (insert_all sip keys f) = bf_m f"
proof -
  have "ones (bf_bits (insert_all sip keys f)) =
      ones (bf_bits f) \<union> (\<Union>key \<in> set keys. set (bit_positions sip (bf_k f) (bf_m f) key))
    \<and> bloom_wf (insert_all sip keys f) \<and> bf_k (insert_all sip keys f) = bf_k f \<and> bf_m (insert_all sip keys f) = bf_m f"
    using assms
  proof (induction keys arbitrary: f)
    case (Cons key keys)
    with insert_spec [OF Cons.prems, of sip key] show ?case by (auto simp: insert_all_def)
  qed (simp add: insert_all_def)
  then show "ones (bf_bits (insert_all sip keys f)) =
      ones (bf_bits f) \<union> (\<Union>key \<in> set keys. set (bit_positions sip (bf_k f) (bf_m f) key))"
    "bloom_wf (insert_all sip keys f)" "bf_k (insert_all sip keys f) = bf_k f" "bf_m (insert_all sip keys f) = bf_m f"
    by blast+
qed

lemma or_mask_spec:
  assumes "bloom_wf f" "or_mask msk f = Inr f'"
  shows "ones (bf_bits f') = ones (bf_bits f) \<union> ones msk" "bloom_wf f'" "bf_k f' = bf_k f" "bf_m f' = bf_m f"
proof -
  have l: "length msk = length (bf_bits f)" and f': "f' = f\<lparr>bf_bits := map2 (OR) (bf_bits f) msk\<rparr>"
    using assms(2) by (simp_all add: or_mask_def split: if_splits)
  show "ones (bf_bits f') = ones (bf_bits f) \<union> ones msk" using ones_or [OF l [symmetric]] by (simp add: f')
  show "bloom_wf f'" using assms(1) l by (simp add: f' bloom_wf_def)
  show "bf_k f' = bf_k f" "bf_m f' = bf_m f" by (simp_all add: f')
qed

lemma new_empty_spec:
  assumes "new_empty k m n fpr = Inr f"
  shows "bloom_wf f" "ones (bf_bits f) = {}" "bf_k f = k" "bf_m f = m"
  using assms ones_zero by (auto simp: new_empty_def check_params_def bloom_wf_def andthen_def split: if_splits)

section \<open>A set that may say too much\<close>

text \<open>A history of additions and merges; a refused merge leaves the set as it was.\<close>

fun run_history :: "('k \<Rightarrow> 's \<Rightarrow> 's) \<Rightarrow> ('m \<Rightarrow> 's \<Rightarrow> 'e + 's) \<Rightarrow> ('k + 'm) list \<Rightarrow> 's \<Rightarrow> 's" where
  "run_history add merge [] s = s"
| "run_history add merge (Inl k # es) s = run_history add merge es (add k s)"
| "run_history add merge (Inr m # es) s = run_history add merge es (case merge m s of Inl e \<Rightarrow> s | Inr s' \<Rightarrow> s')"

text \<open>What the routing layer relies on: a member once added is never reported absent, whatever is added or
  merged afterwards.\<close>

locale approximate_set =
  fixes wf :: "'s \<Rightarrow> bool" and add :: "'k \<Rightarrow> 's \<Rightarrow> 's" and mem :: "'s \<Rightarrow> 'k \<Rightarrow> bool" and merge :: "'m \<Rightarrow> 's \<Rightarrow> 'e + 's"
  assumes add_wf: "wf s \<Longrightarrow> wf (add k s)"
    and add_mem: "wf s \<Longrightarrow> mem (add k s) k"
    and add_keeps: "wf s \<Longrightarrow> mem s k' \<Longrightarrow> mem (add k s) k'"
    and merge_wf: "wf s \<Longrightarrow> merge m s = Inr s' \<Longrightarrow> wf s'"
    and merge_keeps: "wf s \<Longrightarrow> merge m s = Inr s' \<Longrightarrow> mem s k \<Longrightarrow> mem s' k"
begin

lemma merged:
  assumes "wf s"
  shows "wf (case merge m s of Inl e \<Rightarrow> s | Inr s' \<Rightarrow> s')" "mem s k \<Longrightarrow> mem (case merge m s of Inl e \<Rightarrow> s | Inr s' \<Rightarrow> s') k"
  using assms merge_wf [of s m] merge_keeps [of s m] by (auto split: sum.splits)

lemma run_keeps: "wf s \<Longrightarrow> mem s k \<Longrightarrow> mem (run_history add merge es s) k"
proof (induction es arbitrary: s)
  case (Cons e es)
  then show ?case by (cases e) (simp_all add: add_wf add_keeps merged)
qed simp

lemma run_members: "wf s \<Longrightarrow> Inl k \<in> set es \<Longrightarrow> mem (run_history add merge es s) k"
proof (induction es arbitrary: s)
  case (Cons e es)
  then show ?case by (cases e) (auto simp: add_wf add_mem run_keeps merged)
qed simp

end

interpretation bloom: approximate_set bloom_wf "bloom_insert sip" "bloom_contains sip" or_mask for sip
proof
  fix f f' :: BloomFilter and key key' msk
  assume wf: "bloom_wf f"
  show "bloom_wf (bloom_insert sip key f)" by (rule insert_spec(2) [OF wf])
  note s = insert_spec [OF wf, of sip key] contains_spec [OF insert_spec(2) [OF wf], of sip]
  show "bloom_contains sip (bloom_insert sip key f) key" by (simp add: s)
  show "bloom_contains sip (bloom_insert sip key f) key'" if "bloom_contains sip f key'"
    using that unfolding contains_spec [OF wf] by (auto simp: s)
  assume m: "or_mask msk f = Inr f'"
  show "bloom_wf f'" by (rule or_mask_spec(2) [OF wf m])
  show "bloom_contains sip f' key" if "bloom_contains sip f key"
    using that or_mask_spec [OF wf m] unfolding contains_spec [OF wf] contains_spec [OF or_mask_spec(2) [OF wf m]] by auto
qed

text \<open>No false negatives: a key inserted into a valid filter is found in it after any later insertions
  and OR-masks, with any hash function.\<close>

theorem no_false_negatives:
  assumes "bloom_wf f" "Inl key \<in> set es"
  shows "bloom_contains sip (run_history (bloom_insert sip) or_mask es f) key"
  by (rule bloom.run_members [OF assms])

definition small_filter :: BloomFilter where
  "small_filter = \<lparr>bf_k = 3, bf_m = 64, bf_n_est = 2, bf_fpr_target = 1 / 100, bf_bits = replicate 8 0\<rparr>"

definition byte_sum_hash :: siphash where
  "byte_sum_hash k x = fst k + (\<Sum>b\<leftarrow>x. ucast b) * 2654435761"

theorem no_false_negatives_witness:
  "bloom_contains byte_sum_hash (run_history (bloom_insert byte_sum_hash) or_mask
     [Inl [1, 2, 3], Inr [1, 2], Inl [9], Inr (replicate 8 1)] small_filter) [1, 2, 3]"
  by (rule no_false_negatives) (simp_all add: bloom_wf_def small_filter_def MIN_K_def MAX_K_def MIN_M_BITS_def MAX_M_BITS_def)

text \<open>The incremental update is exact: OR-ing into the announced filter the bits of a filter of the
  new keys alone, of the same dimensions, gives bit for bit the filter rebuilt from the old and the new keys
  together.\<close>

theorem delta_equals_rebuild:
  assumes "new_empty k m n fpr = Inr f"
  shows "map_sum id bf_bits (or_mask (bf_bits (insert_all sip new f)) (insert_all sip old f)) =
    Inr (bf_bits (insert_all sip (old @ new) f))"
proof -
  note e = new_empty_spec [OF assms]
  note a = insert_all_spec [OF e(1), of sip]
  have l: "length (bf_bits (insert_all sip xs f)) = bf_m f div 8" for xs using a(2,4) [of xs] by (simp add: bloom_wf_def)
  let ?g = "map2 (OR) (bf_bits (insert_all sip old f)) (bf_bits (insert_all sip new f))"
  have "?g = bf_bits (insert_all sip (old @ new) f)"
  proof (rule ones_inj)
    show "ones ?g = ones (bf_bits (insert_all sip (old @ new) f))"
      by (subst ones_or) (auto simp: l a(1) e(2))
  qed (simp add: l)
  then show ?thesis by (simp add: or_mask_def l)
qed

theorem delta_equals_rebuild_witness:
  "new_empty 3 64 2 (1 / 100) = Inr small_filter
   \<and> map_sum id bf_bits (or_mask (bf_bits (insert_all byte_sum_hash [[9]] small_filter)) (insert_all byte_sum_hash [[1, 2]] small_filter)) =
     Inr (bf_bits (insert_all byte_sum_hash ([[1, 2]] @ [[9]]) small_filter))"
proof
  show e: "new_empty 3 64 2 (1 / 100) = Inr small_filter"
    by (simp add: new_empty_def check_params_def andthen_def small_filter_def MIN_K_def MAX_K_def MIN_M_BITS_def MAX_M_BITS_def)
  show "map_sum id bf_bits (or_mask (bf_bits (insert_all byte_sum_hash [[9]] small_filter)) (insert_all byte_sum_hash [[1, 2]] small_filter)) =
     Inr (bf_bits (insert_all byte_sum_hash ([[1, 2]] @ [[9]]) small_filter))"
    by (rule delta_equals_rebuild [OF e])
qed

text \<open>The recommended parameters are in range, so a filter of that size can be built.\<close>

lemma recommend_k_range: "MIN_K \<le> recommend_k m n \<and> recommend_k m n \<le> MAX_K"
  by (simp add: recommend_k_def Let_def MIN_K_def MAX_K_def)

lemma round_up_64:
  assumes "m \<le> u64_max - 63" "MIN_M_BITS \<le> m"
  shows "64 dvd (if \<not> 64 dvd m then (m + (64 - m mod 64)) mod 2 ^ 64 else m)"
    "MIN_M_BITS \<le> (if \<not> 64 dvd m then (m + (64 - m mod 64)) mod 2 ^ 64 else m)"
proof -
  have lt: "m mod 64 < 64" by simp
  have d: "64 dvd m + (64 - m mod 64)"
    using lt by (intro dvdI [of _ _ "m div 64 + 1"]) (simp add: algebra_simps minus_mult_div_eq_mod [symmetric])
  show "MIN_M_BITS \<le> (if \<not> 64 dvd m then (m + (64 - m mod 64)) mod 2 ^ 64 else m)"
    "64 dvd (if \<not> 64 dvd m then (m + (64 - m mod 64)) mod 2 ^ 64 else m)"
  proof -
    have "m + (64 - m mod 64) < 2 ^ 64" if "\<not> 64 dvd m"
    proof -
      have "m mod 64 \<noteq> 0" using that by (simp add: dvd_eq_mod_eq_0)
      with assms(1) show ?thesis by (simp add: u64_max_def)
    qed
    with d assms(2) show "MIN_M_BITS \<le> (if \<not> 64 dvd m then (m + (64 - m mod 64)) mod 2 ^ 64 else m)"
      "64 dvd (if \<not> 64 dvd m then (m + (64 - m mod 64)) mod 2 ^ 64 else m)" by auto
  qed
qed

lemma floor_cap:
  assumes "(x :: real) \<le> 2 ^ 64 - 64"
  shows "min (nat \<lfloor>max x (real MIN_M_BITS)\<rfloor>) u64_max \<le> u64_max - 63"
proof -
  have "real (nat \<lfloor>max x (real MIN_M_BITS)\<rfloor>) \<le> max x (real MIN_M_BITS)" by (simp add: MIN_M_BITS_def)
  also have "\<dots> \<le> real (2 ^ 64 - 64)" using assms by (simp add: MIN_M_BITS_def)
  finally have "nat \<lfloor>max x (real MIN_M_BITS)\<rfloor> \<le> 2 ^ 64 - 64" by (simp only: of_nat_le_iff)
  then show ?thesis by (simp add: u64_max_def)
qed

lemma floor_min: "MIN_M_BITS \<le> min (nat \<lfloor>max x (real MIN_M_BITS)\<rfloor>) u64_max"
proof -
  have "of_int (int MIN_M_BITS) \<le> max x (real MIN_M_BITS)" by simp
  then have "int MIN_M_BITS \<le> \<lfloor>max x (real MIN_M_BITS)\<rfloor>" by (simp only: le_floor_iff)
  then have "MIN_M_BITS \<le> nat \<lfloor>max x (real MIN_M_BITS)\<rfloor>" by linarith
  then show ?thesis by (simp add: MIN_M_BITS_def u64_max_def)
qed

lemma cap_size:
  assumes "64 dvd x" "MIN_M_BITS \<le> x"
  shows "MIN_M_BITS \<le> min x (MAX_M_BITS - 64) \<and> min x (MAX_M_BITS - 64) < MAX_M_BITS \<and> 64 dvd min x (MAX_M_BITS - 64)"
  using assms by (auto simp: min_def MAX_M_BITS_def MIN_M_BITS_def)

lemma recommend_m_cases:
  "recommend_m n fpr = MIN_M_BITS \<or>
   (\<exists>m. m = min (nat \<lfloor>max (real_of_int \<lceil>- (real n * ln fpr) / (ln 2 * ln 2)\<rceil>) (real MIN_M_BITS)\<rfloor>) u64_max \<and>
     recommend_m n fpr = min (if \<not> 64 dvd m then (m + (64 - m mod 64)) mod 2 ^ 64 else m) (MAX_M_BITS - 64))"
  unfolding recommend_m_def Let_def by (simp only: if_splits simp_thms ex_simps) presburger

text \<open>The sizing functions always recommend parameters that the constructor accepts, as long as the
  ideal size in bits is below \<open>2 ^ 64 - 64\<close>, where the rounding up would wrap.\<close>

theorem recommended_params_accepted:
  assumes "real_of_int \<lceil>- (real n * ln fpr) / (ln 2 * ln 2)\<rceil> \<le> 2 ^ 64 - 64"
  shows "\<exists>f. new_empty (recommend_k (recommend_m n fpr) n) (recommend_m n fpr) n fpr = Inr f"
proof -
  have "MIN_M_BITS \<le> recommend_m n fpr \<and> recommend_m n fpr < MAX_M_BITS \<and> 64 dvd recommend_m n fpr"
    using recommend_m_cases [of n fpr]
  proof (elim disjE exE conjE)
    assume "recommend_m n fpr = MIN_M_BITS"
    then show ?thesis by (simp add: MIN_M_BITS_def MAX_M_BITS_def)
  next
    fix m
    assume m: "m = min (nat \<lfloor>max (real_of_int \<lceil>- (real n * ln fpr) / (ln 2 * ln 2)\<rceil>) (real MIN_M_BITS)\<rfloor>) u64_max"
      and eq: "recommend_m n fpr = min (if \<not> 64 dvd m then (m + (64 - m mod 64)) mod 2 ^ 64 else m) (MAX_M_BITS - 64)"
    have "m \<le> u64_max - 63" "MIN_M_BITS \<le> m" unfolding m by (rule floor_cap [OF assms], rule floor_min)
    from cap_size [OF round_up_64 [OF this]] show ?thesis unfolding eq .
  qed
  then show ?thesis using recommend_k_range [of "recommend_m n fpr" n]
    by (simp add: new_empty_def check_params_def andthen_def)
qed

theorem recommended_params_accepted_witness:
  "\<exists>f. new_empty (recommend_k (recommend_m 100 (1 / 2)) 100) (recommend_m 100 (1 / 2)) 100 (1 / 2) = Inr f"
proof (rule recommended_params_accepted)
  have "- (real 100 * ln (1 / 2)) / (ln 2 * ln 2) = 100 / (ln 2 :: real)" by (simp add: ln_div)
  moreover have "1 / 2 \<le> (ln 2 :: real)" using ln_le_minus_one [of "1 / 2"] by (simp add: ln_div)
  then have "100 / ln 2 \<le> (200 :: real)" by (simp add: divide_le_eq)
  ultimately have "- (real 100 * ln (1 / 2)) / (ln 2 * ln 2) \<le> 200" by simp
  then have "\<lceil>- (real 100 * ln (1 / 2)) / (ln 2 * ln 2)\<rceil> \<le> 200" by (simp only: ceiling_le_iff of_int_numeral)
  moreover have "real_of_int i \<le> 2 ^ 64 - 64" if "i \<le> 200" for i using that by simp
  ultimately show "real_of_int \<lceil>- (real 100 * ln (1 / 2)) / (ln 2 * ln 2)\<rceil> \<le> 2 ^ 64 - 64" by blast
qed

end
