(* ===== verification/Ip_Addr.thy ===== *)
theory Ip_Addr
  imports Utf8
begin

text \<open>
  IP address literals as \<open>server/src/federation/domain.rs\<close> uses them: the \<open>FromStr\<close> parsers of
  \<open>std::net::Ipv4Addr\<close> and \<open>Ipv6Addr\<close>, the address classes of \<open>std\<close> that the deny list calls, and the
  round trip of the dotted form. A parser step maps the remaining text to a value and the text after it;
  \<open>None\<close> leaves the text where it was (\<open>read_atomically\<close>).
\<close>

section \<open>Digits and numbers\<close>

text \<open>\<open>char::to_digit\<close> for the radixes 10 and 16.\<close>

definition to_digit :: "nat \<Rightarrow> char \<Rightarrow> nat option" where
  "to_digit radix c =
     (let b = of_char c;
          d = (if 48 \<le> b \<and> b \<le> 57 then b - 48
               else if 97 \<le> b \<and> b \<le> 122 then b - 87
               else if 65 \<le> b \<and> b \<le> 90 then b - 55 else 36)
      in if d < radix then Some d else None)"

fun read_digits :: "nat \<Rightarrow> nat \<Rightarrow> nat \<Rightarrow> nat \<Rightarrow> string \<Rightarrow> (nat \<times> nat \<times> string) option" where
  "read_digits radix max_digits result count [] = Some (result, count, [])"
| "read_digits radix max_digits result count (c # cs) =
     (case to_digit radix c of
        None \<Rightarrow> Some (result, count, c # cs)
      | Some d \<Rightarrow>
          if count + 1 > max_digits then None
          else read_digits radix max_digits (result * radix + d) (count + 1) cs)"

text \<open>The result converts to the integer type with values below \<open>bound\<close>.\<close>

definition read_number :: "nat \<Rightarrow> nat \<Rightarrow> bool \<Rightarrow> nat \<Rightarrow> string \<Rightarrow> (nat \<times> string) option" where
  "read_number radix max_digits allow_zero_prefix bound s =
     (case read_digits radix max_digits 0 0 s of
        None \<Rightarrow> None
      | Some (result, digit_count, rest) \<Rightarrow>
          if digit_count = 0 then None
          else if \<not> allow_zero_prefix \<and> take 1 s = ''0'' \<and> digit_count > 1 then None
          else if result < bound then Some (result, rest) else None)"

definition read_separator :: "char \<Rightarrow> nat \<Rightarrow> (string \<Rightarrow> ('a \<times> string) option) \<Rightarrow> string \<Rightarrow> ('a \<times> string) option" where
  "read_separator sep index inner s =
     (if index > 0 then (case s of [] \<Rightarrow> None | c # cs \<Rightarrow> if c = sep then inner cs else None) else inner s)"

section \<open>Addresses\<close>

datatype Ipv4Addr = Ipv4 u8 u8 u8 u8

text \<open>The eight segments.\<close>

datatype Ipv6Addr = Ipv6 "u16 list"

definition read_octet :: "nat \<Rightarrow> string \<Rightarrow> (nat \<times> string) option" where
  "read_octet i = read_separator CHR ''.'' i (read_number 10 3 False 256)"

definition read_ipv4_addr :: "string \<Rightarrow> (Ipv4Addr \<times> string) option" where
  "read_ipv4_addr s0 =
     (case read_octet 0 s0 of None \<Rightarrow> None | Some (a, s1) \<Rightarrow>
      (case read_octet 1 s1 of None \<Rightarrow> None | Some (b, s2) \<Rightarrow>
      (case read_octet 2 s2 of None \<Rightarrow> None | Some (c, s3) \<Rightarrow>
      (case read_octet 3 s3 of None \<Rightarrow> None | Some (d, s4) \<Rightarrow>
        Some (Ipv4 (of_nat a) (of_nat b) (of_nat c) (of_nat d), s4)))))"

text \<open>The two segments of an embedded IPv4 address.\<close>

fun v4_segments :: "Ipv4Addr \<Rightarrow> u16 list" where
  "v4_segments (Ipv4 a b c d) = [ucast a * 256 + ucast b, ucast c * 256 + ucast d]"

text \<open>The chunk reader: \<open>left\<close> groups may still be read, \<open>i\<close> have been read before this one. The flag says
  that the chunk ended in an embedded IPv4 address.\<close>

fun read_groups :: "nat \<Rightarrow> nat \<Rightarrow> string \<Rightarrow> u16 list \<times> bool \<times> string" where
  "read_groups 0 i s = ([], False, s)"
| "read_groups (Suc left) i s =
     (case if left \<ge> 1 then read_separator CHR '':'' i read_ipv4_addr s else None of
        Some (v4, r) \<Rightarrow> (v4_segments v4, True, r)
      | None \<Rightarrow>
          (case read_separator CHR '':'' i (read_number 16 4 True 65536) s of
             None \<Rightarrow> ([], False, s)
           | Some (g, r) \<Rightarrow> (case read_groups left (Suc i) r of (gs, b, r') \<Rightarrow> (of_nat g # gs, b, r'))))"

definition read_ipv6_addr :: "string \<Rightarrow> (Ipv6Addr \<times> string) option" where
  "read_ipv6_addr s =
     (case read_groups 8 0 s of (head, head_ipv4, r) \<Rightarrow>
        if length head = 8 then Some (Ipv6 head, r)
        else if head_ipv4 then None
        else if take 2 r \<noteq> ''::'' then None
        else (case read_groups (8 - (length head + 1)) 0 (drop 2 r) of (tail, _, r') \<Rightarrow>
                Some (Ipv6 (head @ replicate (8 - length head - length tail) 0 @ tail), r')))"

text \<open>The whole text must be consumed.\<close>

definition parse_ipv4 :: "string \<Rightarrow> Ipv4Addr option" where
  "parse_ipv4 s = (if length s > 15 then None
     else case read_ipv4_addr s of Some (a, []) \<Rightarrow> Some a | _ \<Rightarrow> None)"

definition parse_ipv6 :: "string \<Rightarrow> Ipv6Addr option" where
  "parse_ipv6 s = (case read_ipv6_addr s of Some (a, []) \<Rightarrow> Some a | _ \<Rightarrow> None)"

section \<open>Address classes of the standard library\<close>

fun v4_is_loopback :: "Ipv4Addr \<Rightarrow> bool" where
  "v4_is_loopback (Ipv4 a b c d) = (a = 127)"

fun v4_is_private :: "Ipv4Addr \<Rightarrow> bool" where
  "v4_is_private (Ipv4 a b c d) = (a = 10 \<or> a = 172 \<and> 16 \<le> b \<and> b \<le> 31 \<or> a = 192 \<and> b = 168)"

fun v4_is_link_local :: "Ipv4Addr \<Rightarrow> bool" where
  "v4_is_link_local (Ipv4 a b c d) = (a = 169 \<and> b = 254)"

definition v4_is_broadcast :: "Ipv4Addr \<Rightarrow> bool" where
  "v4_is_broadcast x \<longleftrightarrow> x = Ipv4 255 255 255 255"

fun v4_is_multicast :: "Ipv4Addr \<Rightarrow> bool" where
  "v4_is_multicast (Ipv4 a b c d) = (224 \<le> a \<and> a \<le> 239)"

definition v4_is_unspecified :: "Ipv4Addr \<Rightarrow> bool" where
  "v4_is_unspecified x \<longleftrightarrow> x = Ipv4 0 0 0 0"

fun segments :: "Ipv6Addr \<Rightarrow> u16 list" where
  "segments (Ipv6 gs) = gs"

definition v6_is_loopback :: "Ipv6Addr \<Rightarrow> bool" where
  "v6_is_loopback x \<longleftrightarrow> segments x = [0, 0, 0, 0, 0, 0, 0, 1]"

definition v6_is_unspecified :: "Ipv6Addr \<Rightarrow> bool" where
  "v6_is_unspecified x \<longleftrightarrow> segments x = [0, 0, 0, 0, 0, 0, 0, 0]"

text \<open>\<open>Ipv6Addr::to_ipv4\<close>: \<open>::ffff:a.b.c.d\<close> and \<open>::a.b.c.d\<close>.\<close>

fun to_ipv4 :: "Ipv6Addr \<Rightarrow> Ipv4Addr option" where
  "to_ipv4 (Ipv6 [a, b, c, d, e, f, g, h]) =
     (if a = 0 \<and> b = 0 \<and> c = 0 \<and> d = 0 \<and> e = 0 \<and> (f = 0 \<or> f = 0xffff)
      then Some (Ipv4 (ucast (drop_bit 8 g)) (ucast g) (ucast (drop_bit 8 h)) (ucast h)) else None)"
| "to_ipv4 _ = None"

section \<open>Decimal text\<close>

definition digit_char :: "nat \<Rightarrow> char" where
  "digit_char d = char_of (48 + d)"

fun show_dec :: "nat \<Rightarrow> string" where
  "show_dec n = (if n < 10 then [digit_char n] else show_dec (n div 10) @ [digit_char (n mod 10)])"

declare show_dec.simps [simp del]

fun dotted :: "Ipv4Addr \<Rightarrow> string" where
  "dotted (Ipv4 a b c d) = show_dec (unat a) @ ''.'' @ show_dec (unat b) @ ''.'' @ show_dec (unat c) @ ''.'' @ show_dec (unat d)"

lemma of_char_digit [simp]: "d < 10 \<Longrightarrow> of_char (digit_char d) = (48 + d :: nat)"
  by (simp add: digit_char_def)

lemma to_digit_digit: "d < 10 \<Longrightarrow> 10 \<le> radix \<Longrightarrow> to_digit radix (digit_char d) = Some d"
  by (simp add: to_digit_def)

definition all_digits :: "nat \<Rightarrow> string \<Rightarrow> bool" where
  "all_digits radix s \<longleftrightarrow> (\<forall>c \<in> set s. to_digit radix c \<noteq> None)"

definition value_of :: "nat \<Rightarrow> nat \<Rightarrow> string \<Rightarrow> nat" where
  "value_of radix = foldl (\<lambda>n c. n * radix + the (to_digit radix c))"

definition stops :: "nat \<Rightarrow> string \<Rightarrow> bool" where
  "stops radix s \<longleftrightarrow> (case s of [] \<Rightarrow> True | c # _ \<Rightarrow> to_digit radix c = None)"

lemma read_digits_run:
  assumes "all_digits radix ds" "stops radix rest"
  shows "read_digits radix m r n (ds @ rest) =
    (if ds = [] \<or> n + length ds \<le> m then Some (value_of radix r ds, n + length ds, rest) else None)"
  using assms
proof (induction ds arbitrary: r n)
  case Nil
  then show ?case by (cases rest) (simp_all add: stops_def value_of_def)
next
  case (Cons c ds)
  then obtain d where "to_digit radix c = Some d" by (auto simp: all_digits_def)
  with Cons show ?case by (auto simp: all_digits_def value_of_def)
qed

lemma read_number_run:
  assumes "all_digits radix ds" "stops radix rest" "ds \<noteq> []"
  shows "read_number radix m z bound (ds @ rest) =
    (if length ds \<le> m \<and> (z \<or> hd ds \<noteq> CHR ''0'' \<or> length ds = 1) \<and> value_of radix 0 ds < bound
     then Some (value_of radix 0 ds, rest) else None)"
proof -
  have "take 1 (ds @ rest) = ''0'' \<longleftrightarrow> hd ds = CHR ''0''" using assms(3) by (cases ds) simp_all
  with assms(3) show ?thesis
    unfolding read_number_def read_digits_run [OF assms(1,2)] by (auto simp: Suc_le_eq neq_Nil_conv)
qed

lemma read_number_none: "stops radix s \<Longrightarrow> read_number radix m z bound s = None"
  by (simp add: read_number_def read_digits_run [of radix "[]" s, simplified] all_digits_def)

lemma value_of_append: "value_of radix r (xs @ [c]) = value_of radix r xs * radix + the (to_digit radix c)"
  by (simp add: value_of_def)

lemma value_of_single: "value_of radix r [c] = r * radix + the (to_digit radix c)"
  by (simp add: value_of_def)

lemma show_dec_digits: "all_digits 10 (show_dec n) \<and> show_dec n \<noteq> []"
proof (induction n rule: show_dec.induct)
  case (1 n)
  then show ?case by (subst (1 2) show_dec.simps) (auto simp: all_digits_def to_digit_digit)
qed

lemma value_of_show_dec: "value_of 10 0 (show_dec n) = n"
proof (induction n rule: show_dec.induct)
  case (1 n)
  then show ?case
    by (subst show_dec.simps) (auto simp: value_of_append to_digit_digit value_of_single)
qed

lemma show_dec_length: "n < 10 ^ Suc k \<Longrightarrow> length (show_dec n) \<le> Suc k"
proof (induction k arbitrary: n)
  case 0
  then show ?case by (subst show_dec.simps) simp
next
  case (Suc k)
  then have "n div 10 < 10 ^ Suc k" by (simp add: less_mult_imp_div_less)
  with Suc.IH show ?case by (subst show_dec.simps) simp
qed

lemma hd_show_dec: "0 < n \<Longrightarrow> hd (show_dec n) \<noteq> CHR ''0''"
proof (induction n rule: show_dec.induct)
  case (1 n)
  show ?case
  proof (cases "n < 10")
    case True
    have "digit_char n \<noteq> CHR ''0''"
    proof
      assume "digit_char n = CHR ''0''"
      then have "of_char (digit_char n) = (of_char CHR ''0'' :: nat)" by simp
      with True "1.prems" show False by simp
    qed
    with True show ?thesis by (subst show_dec.simps) simp
  next
    case False
    then show ?thesis using 1 show_dec_digits [of "n div 10"] by (subst show_dec.simps) simp
  qed
qed

lemma show_dec_zero: "hd (show_dec n) \<noteq> CHR ''0'' \<or> length (show_dec n) = 1"
  using hd_show_dec [of n] by (cases "n = 0") (simp_all add: show_dec.simps [of 0])

lemma read_number_show_dec:
  assumes "n < bound" "n < 10 ^ Suc k" "stops 10 rest"
  shows "read_number 10 (Suc k) z bound (show_dec n @ rest) = Some (n, rest)"
  using assms show_dec_digits [of n] show_dec_length [OF assms(2)] show_dec_zero [of n]
  by (simp add: read_number_run value_of_show_dec)

lemma octet_bound: "unat (a :: u8) < 256" "unat (a :: u8) < 10 ^ Suc 2"
  using unsigned_less [of a, where 'a = nat] by simp_all

lemma read_octet_show:
  "stops 10 rest \<Longrightarrow> read_octet 0 (show_dec (unat (a :: u8)) @ rest) = Some (unat a, rest)"
  "0 < i \<Longrightarrow> stops 10 rest \<Longrightarrow> read_octet i (CHR ''.'' # show_dec (unat (a :: u8)) @ rest) = Some (unat a, rest)"
  using read_number_show_dec [OF octet_bound, of rest False a] by (simp_all add: read_octet_def read_separator_def numeral_3_eq_3)

lemma stops_simps [simp]: "stops radix []" "radix \<le> 16 \<Longrightarrow> stops radix (CHR ''.'' # s)" "radix \<le> 16 \<Longrightarrow> stops radix (CHR '':'' # s)"
  by (simp_all add: stops_def to_digit_def)

lemma read_ipv4_dotted: "stops 10 rest \<Longrightarrow> read_ipv4_addr (dotted a @ rest) = Some (a, rest)"
  by (cases a) (simp add: read_ipv4_addr_def read_octet_show)

lemma dotted_length: "length (dotted a) \<le> 15"
proof (cases a)
  case (Ipv4 a b c d)
  have "length (show_dec (unat x)) \<le> 3" for x :: u8
    using show_dec_length [of "unat x" 2] octet_bound(2) [of x] by simp
  from this [of a] this [of b] this [of c] this [of d] show ?thesis unfolding Ipv4 by simp
qed

lemma parse_ipv4_dotted: "parse_ipv4 (dotted a) = Some a"
  using read_ipv4_dotted [of "[]" a] dotted_length [of a] by (simp add: parse_ipv4_def)

text \<open>An IPv4 literal has a full stop, so text without one is not read as an address.\<close>

lemma read_octet_dot:
  assumes "read_octet (Suc i) s = Some (n, r)"
  shows "CHR ''.'' \<in> set s"
  using assms by (auto simp: read_octet_def read_separator_def split: list.splits if_splits)

lemma read_digits_suffix: "read_digits radix m r n s = Some (v, k, t) \<Longrightarrow> set t \<subseteq> set s"
proof (induction s arbitrary: r n)
  case (Cons c s)
  then show ?case by (fastforce split: option.splits if_splits)
qed simp

lemma read_number_suffix: "read_number radix m z b s = Some (v, t) \<Longrightarrow> set t \<subseteq> set s"
  by (auto simp: read_number_def dest!: read_digits_suffix split: option.splits if_splits)

lemma read_ipv4_needs_dot: "read_ipv4_addr s = Some x \<Longrightarrow> CHR ''.'' \<in> set s"
  by (auto simp: read_ipv4_addr_def read_octet_def [of 0] read_separator_def split: option.splits
      dest!: read_octet_dot [of 0, simplified] read_number_suffix)

section \<open>The mapped form\<close>

definition mapped_segments :: "Ipv4Addr \<Rightarrow> u16 list" where
  "mapped_segments a = [0, 0, 0, 0, 0, 0xffff] @ v4_segments a"

lemma length_v4_segments [simp]: "length (v4_segments a) = 2"
  by (cases a) simp

lemma read_ipv4_colon: "read_ipv4_addr (CHR '':'' # s) = None"
  by (simp add: read_ipv4_addr_def read_octet_def read_separator_def read_number_none)

lemma read_groups_step:
  "1 \<le> left \<Longrightarrow> read_separator CHR '':'' i read_ipv4_addr s = Some (v4, r) \<Longrightarrow>
     read_groups (Suc left) i s = (v4_segments v4, True, r)"
  "read_separator CHR '':'' i read_ipv4_addr s = None \<Longrightarrow>
     read_separator CHR '':'' i (read_number 16 4 True 65536) s = None \<Longrightarrow> read_groups (Suc left) i s = ([], False, s)"
  "read_separator CHR '':'' i read_ipv4_addr s = None \<Longrightarrow>
     read_separator CHR '':'' i (read_number 16 4 True 65536) s = Some (g, r) \<Longrightarrow>
     read_groups left (Suc i) r = (gs, b, r') \<Longrightarrow> read_groups (Suc left) i s = (of_nat g # gs, b, r')"
  by simp_all

lemma read_groups_mapped:
  assumes "stops 10 rest"
  shows "read_groups 7 0 (''ffff:'' @ dotted a @ rest) = (0xffff # v4_segments a, True, rest)"
proof -
  have "read_ipv4_addr (''ffff:'' @ dotted a @ rest) = None"
    by (simp add: read_ipv4_addr_def read_octet_def read_separator_def read_number_none stops_def to_digit_def)
  moreover have "read_number 16 4 True 65536 (''ffff'' @ '':'' @ dotted a @ rest) = Some (0xffff, '':'' @ dotted a @ rest)"
    by (subst read_number_run) (simp_all add: all_digits_def to_digit_def value_of_def)
  moreover have "read_groups (Suc 5) (Suc 0) ('':'' @ dotted a @ rest) = (v4_segments a, True, rest)"
    by (rule read_groups_step(1)) (simp_all add: read_separator_def read_ipv4_dotted [OF assms])
  ultimately have "read_groups (Suc (Suc 5)) 0 (''ffff:'' @ dotted a @ rest) = (of_nat 0xffff # v4_segments a, True, rest)"
    by (intro read_groups_step(3)) (simp_all add: read_separator_def del: read_groups.simps)
  then show ?thesis by simp
qed

lemma parse_ipv6_mapped: "parse_ipv6 (''::ffff:'' @ dotted a) = Some (Ipv6 (mapped_segments a))"
proof -
  have "read_groups (Suc 7) 0 (''::ffff:'' @ dotted a) = ([], False, ''::ffff:'' @ dotted a)"
    by (rule read_groups_step(2)) (simp_all add: read_separator_def read_ipv4_colon read_number_none)
  then have h: "read_groups 8 0 (''::ffff:'' @ dotted a) = ([], False, ''::ffff:'' @ dotted a)" by simp
  have t: "read_groups 7 0 (''ffff:'' @ dotted a) = (0xffff # v4_segments a, True, [])"
    using read_groups_mapped [of "[]" a] by simp
  have z: "replicate 5 (0 :: u16) = [0, 0, 0, 0, 0]" by (simp add: eval_nat_numeral)
  show ?thesis
    unfolding parse_ipv6_def read_ipv6_addr_def h using t
    by (simp add: mapped_segments_def z del: read_groups.simps)
qed

lemma parse_ipv4_mapped: "parse_ipv4 (''::ffff:'' @ dotted a) = None"
  by (simp add: parse_ipv4_def read_ipv4_colon)

lemma two_octets:
  fixes p q :: u8
  shows "ucast (drop_bit 8 (ucast p * 256 + ucast q :: u16)) = p" "ucast (ucast p * 256 + ucast q :: u16) = q"
proof -
  let ?w = "ucast p * 256 + ucast q :: u16"
  have u: "unat (ucast x :: u16) = unat x" for x :: u8
    using octet_bound(1) [of x] by (simp add: unsigned_ucast_eq take_bit_nat_eq_self)
  have n: "unat ?w = unat p * 256 + unat q"
    using octet_bound(1) [of p] octet_bound(1) [of q] by (simp add: unat_word_ariths u)
  have "unat (drop_bit 8 ?w) = unat p"
    using octet_bound(1) [of q] by (simp add: drop_bit_eq_div unat_div n)
  then show "ucast (drop_bit 8 ?w) = p"
    using octet_bound(1) [of p] by (simp only: word_unat_eq_iff unsigned_ucast_eq) (simp add: take_bit_nat_eq_self)
  show "ucast ?w = q"
    using octet_bound(1) [of q] by (simp only: word_unat_eq_iff unsigned_ucast_eq n) (simp add: take_bit_eq_mod)
qed

lemma to_ipv4_mapped: "to_ipv4 (Ipv6 (mapped_segments a)) = Some a"
  by (cases a) (simp add: mapped_segments_def two_octets)

section \<open>The characters of a literal\<close>

text \<open>What a reader consumes are digits, full stops and, for an IPv6 literal, colons.\<close>

definition v4_char :: "char \<Rightarrow> bool" where
  "v4_char c \<longleftrightarrow> to_digit 10 c \<noteq> None \<or> c = CHR ''.''"

definition ip_char :: "char \<Rightarrow> bool" where
  "ip_char c \<longleftrightarrow> to_digit 16 c \<noteq> None \<or> c = CHR ''.'' \<or> c = CHR '':''"

definition consumes :: "(char \<Rightarrow> bool) \<Rightarrow> string \<Rightarrow> string \<Rightarrow> bool" where
  "consumes P s t \<longleftrightarrow> (\<exists>u. s = u @ t \<and> list_all P u)"

lemma consumesI: "s = u @ t \<Longrightarrow> list_all P u \<Longrightarrow> consumes P s t"
  by (auto simp: consumes_def)

lemma consumes_refl [simp]: "consumes P s s"
  by (simp add: consumes_def)

lemma consumes_trans: "consumes P s t \<Longrightarrow> consumes P t r \<Longrightarrow> consumes P s r"
  by (auto simp: consumes_def)

lemma consumes_Cons: "consumes P s t \<Longrightarrow> P c \<Longrightarrow> consumes P (c # s) t"
  by (auto simp: consumes_def intro!: consumesI [of _ "c # _", unfolded consumes_def])

lemma consumes_mono: "consumes P s t \<Longrightarrow> (\<And>c. P c \<Longrightarrow> Q c) \<Longrightarrow> consumes Q s t"
  unfolding consumes_def by (blast intro: list.pred_mono_strong)

lemma consumes_all: "consumes P s [] \<Longrightarrow> list_all P s"
  by (auto simp: consumes_def)

lemma read_digits_consumes:
  "read_digits radix m r n s = Some (v, k, t) \<Longrightarrow> (\<And>c. to_digit radix c \<noteq> None \<Longrightarrow> P c) \<Longrightarrow> consumes P s t"
proof (induction s arbitrary: r n)
  case (Cons c s)
  then show ?case by (auto split: option.splits if_splits intro!: consumes_Cons)
qed simp

lemma read_number_consumes:
  "read_number radix m z b s = Some (v, t) \<Longrightarrow> (\<And>c. to_digit radix c \<noteq> None \<Longrightarrow> P c) \<Longrightarrow> consumes P s t"
  by (auto simp: read_number_def split: option.splits if_splits elim!: read_digits_consumes)

lemma read_separator_consumes:
  assumes "read_separator sep i inner s = Some (v, t)" "P sep" "\<And>s. inner s = Some (v, t) \<Longrightarrow> consumes P s t"
  shows "consumes P s t"
  using assms by (auto simp: read_separator_def split: if_splits list.splits intro: consumes_Cons)

lemma read_octet_consumes: "read_octet i s = Some (v, t) \<Longrightarrow> consumes v4_char s t"
  unfolding read_octet_def
  by (erule read_separator_consumes) (auto simp: v4_char_def elim!: read_number_consumes)

lemma read_ipv4_consumes: "read_ipv4_addr s = Some (a, t) \<Longrightarrow> consumes v4_char s t"
  by (auto simp: read_ipv4_addr_def split: option.splits dest!: read_octet_consumes) (meson consumes_trans)

lemma v4_char_ip_char: "v4_char c \<Longrightarrow> ip_char c"
  by (auto simp: v4_char_def ip_char_def to_digit_def Let_def split: if_splits)

lemma ip_char_separators [simp]: "ip_char CHR ''.''" "ip_char CHR '':''"
  by (simp_all add: ip_char_def)

lemma read_groups_consumes: "read_groups l i s = (gs, b, t) \<Longrightarrow> consumes ip_char s t"
proof (induction l arbitrary: i s gs)
  case (Suc l)
  show ?case
  proof (cases "if l \<ge> 1 then read_separator CHR '':'' i read_ipv4_addr s else None")
    case (Some x)
    then have "read_separator CHR '':'' i read_ipv4_addr s = Some (fst x, t)"
      using Suc.prems by (auto split: if_splits prod.splits)
    then show ?thesis
      by (rule read_separator_consumes) (auto dest!: read_ipv4_consumes intro: consumes_mono v4_char_ip_char)
  next
    case None
    show ?thesis
    proof (cases "read_separator CHR '':'' i (read_number 16 4 True 65536) s")
      case (Some y)
      obtain g r where y: "y = (g, r)" by (cases y)
      from Some have "consumes ip_char s r" unfolding y
        by (rule read_separator_consumes) (auto simp: ip_char_def elim!: read_number_consumes)
      moreover have "consumes ip_char r t"
        using Suc.prems None Some Suc.IH unfolding y by (auto simp del: One_nat_def split: prod.splits)
      ultimately show ?thesis by (rule consumes_trans)
    qed (use Suc.prems None in auto)
  qed
qed simp

lemma parse_ipv4_chars: "parse_ipv4 s = Some a \<Longrightarrow> list_all v4_char s"
  by (auto simp: parse_ipv4_def split: if_splits option.splits prod.splits list.splits
      dest!: read_ipv4_consumes intro: consumes_all)

lemma parse_ipv6_chars:
  assumes "parse_ipv6 s = Some b"
  shows "list_all ip_char s"
proof -
  obtain x where r: "read_ipv6_addr s = Some (x, [])"
    using assms by (auto simp: parse_ipv6_def split: option.splits prod.splits list.splits)
  obtain hd1 f r1 where h: "read_groups 8 0 s = (hd1, f, r1)" by (metis prod_cases3)
  note c1 = read_groups_consumes [OF h]
  show ?thesis
  proof (cases "length hd1 = 8")
    case True
    with r h c1 show ?thesis by (simp add: read_ipv6_addr_def consumes_all)
  next
    case False
    obtain tl1 g r2 where t: "read_groups (8 - (length hd1 + 1)) 0 (drop 2 r1) = (tl1, g, r2)" by (metis prod_cases3)
    from False r h t have e: "take 2 r1 = ''::''" "r2 = []" by (auto simp: read_ipv6_addr_def split: if_splits)
    have "consumes ip_char r1 (drop 2 r1)"
      by (rule consumesI [where u = "''::''"]) (use append_take_drop_id [of 2 r1] e(1) in auto)
    with c1 read_groups_consumes [OF t] e(2) show ?thesis by (blast intro: consumes_trans consumes_all)
  qed
qed

end
