(* ===== verification/Instance_Domain.thy ===== *)
theory Instance_Domain
  imports Ip_Addr
begin

text \<open>
  The format gate and the IP deny list of \<open>server/src/federation/domain.rs\<close>, and the checks that
  \<open>server/src/federation/transport.rs\<close> makes with them before it dials a peer. The grammar of the accepted
  text is characterised exactly; the deny list is characterised by address intervals, for the dotted and the
  mapped form of an IPv4 address.
\<close>

section \<open>Text helpers of the standard library\<close>

text \<open>\<open>rsplit_once(':')\<close> and \<open>split('.')\<close>.\<close>

definition rsplit_once :: "char \<Rightarrow> string \<Rightarrow> (string \<times> string) option" where
  "rsplit_once c s =
     (if c \<in> set s then Some (rev (tl (dropWhile (\<lambda>x. x \<noteq> c) (rev s))), rev (takeWhile (\<lambda>x. x \<noteq> c) (rev s))) else None)"

fun split_on :: "char \<Rightarrow> string \<Rightarrow> string list" where
  "split_on c [] = [[]]"
| "split_on c (x # xs) = (if x = c then [] # split_on c xs
     else case split_on c xs of [] \<Rightarrow> [[x]] | l # ls \<Rightarrow> (x # l) # ls)"

definition ascii_alphanumeric :: "char \<Rightarrow> bool" where
  "ascii_alphanumeric c \<longleftrightarrow> (let b = of_char c :: nat in 48 \<le> b \<and> b \<le> 57 \<or> 65 \<le> b \<and> b \<le> 90 \<or> 97 \<le> b \<and> b \<le> 122)"

text \<open>\<open>char::is_ascii_whitespace\<close>: tab, line feed, form feed, carriage return, space.\<close>

definition ascii_whitespace :: "char \<Rightarrow> bool" where
  "ascii_whitespace c \<longleftrightarrow> (of_char c :: nat) \<in> {9, 10, 12, 13, 32}"

text \<open>\<open>u16::from_str\<close>: an optional plus sign, then digits with the overflow check.\<close>

fun u16_digits :: "nat \<Rightarrow> string \<Rightarrow> nat option" where
  "u16_digits acc [] = Some acc"
| "u16_digits acc (c # cs) = (case to_digit 10 c of
     None \<Rightarrow> None
   | Some d \<Rightarrow> if acc * 10 + d < 65536 then u16_digits (acc * 10 + d) cs else None)"

definition parse_u16 :: "string \<Rightarrow> nat option" where
  "parse_u16 s =
     (if s = [] \<or> s = ''+'' \<or> s = ''-'' then None
      else if hd s = CHR ''+'' then u16_digits 0 (tl s) else u16_digits 0 s)"

section \<open>The gate\<close>

record InstanceDomain =
  host :: string
  port :: "nat option"

datatype DomainValidationError = Empty | TooLong | InvalidCharacter | InvalidHost | InvalidPort

text \<open>A character of UTF-8 text outside ASCII has bytes that are neither whitespace nor allowed, so the two
  character loops may run over the bytes.\<close>

definition domain_char :: "char \<Rightarrow> bool" where
  "domain_char c \<longleftrightarrow> ascii_alphanumeric c \<or> c \<in> {CHR ''-'', CHR ''.'', CHR '':'', CHR ''['', CHR '']''}"

definition parse_port :: "string \<Rightarrow> DomainValidationError + nat" where
  "parse_port s = (case parse_u16 s of
     None \<Rightarrow> Inl InvalidPort | Some p \<Rightarrow> if p = 0 then Inl InvalidPort else Inr p)"

text \<open>The checks of the loop body for one label.\<close>

definition label_ok :: "string \<Rightarrow> bool" where
  "label_ok label \<longleftrightarrow> \<not> (label = [] \<or> length label > 63) \<and> \<not> (hd label = CHR ''-'' \<or> last label = CHR ''-'')
     \<and> (\<forall>c \<in> set label. ascii_alphanumeric c \<or> c = CHR ''-'')"

definition validate_ldh_hostname :: "string \<Rightarrow> DomainValidationError + unit" where
  "validate_ldh_hostname h =
     (if length h > 253 \<or> take 1 h = ''.'' \<or> take 1 (rev h) = ''.'' then Inl InvalidHost
      else if list_all label_ok (split_on CHR ''.'' h) then Inr () else Inl InvalidHost)"

text \<open>The bracketed branch, after the opening bracket.\<close>

definition parse_bracketed :: "string \<Rightarrow> DomainValidationError + InstanceDomain" where
  "parse_bracketed rest =
     (if CHR '']'' \<notin> set rest then Inl InvalidHost
      else let h = takeWhile (\<lambda>c. c \<noteq> CHR '']'') rest; after = tl (dropWhile (\<lambda>c. c \<noteq> CHR '']'') rest)
      in case parse_ipv6 h of
           None \<Rightarrow> Inl InvalidHost
         | Some _ \<Rightarrow> (case after of
             [] \<Rightarrow> Inr \<lparr>host = h, port = None\<rparr>
           | c # port_str \<Rightarrow>
               if c \<noteq> CHR '':'' then Inl InvalidPort
               else andthen (parse_port port_str) (\<lambda>p. Inr \<lparr>host = h, port = Some p\<rparr>)))"

definition parse_plain :: "string \<Rightarrow> DomainValidationError + InstanceDomain" where
  "parse_plain s =
     andthen (case rsplit_once CHR '':'' s of
        Some (h, p) \<Rightarrow> andthen (parse_port p) (\<lambda>q. Inr (h, Some q))
      | None \<Rightarrow> Inr (s, None))
     (\<lambda>(h, p). if h = [] then Inl InvalidHost
        else if parse_ipv4 h \<noteq> None then Inr \<lparr>host = h, port = p\<rparr>
        else andthen (validate_ldh_hostname h) (\<lambda>_. Inr \<lparr>host = h, port = p\<rparr>))"

definition parse_instance_domain :: "string \<Rightarrow> DomainValidationError + InstanceDomain" where
  "parse_instance_domain s =
     (if s = [] then Inl Empty
      else if list_all ascii_whitespace s then Inl Empty
      else if length s > 253 + 6 then Inl TooLong
      else if \<not> list_all domain_char s then Inl InvalidCharacter
      else if hd s = CHR ''['' then parse_bracketed (tl s)
      else parse_plain s)"

section \<open>The deny list\<close>

fun octet :: "nat \<Rightarrow> Ipv4Addr \<Rightarrow> u8" where
  "octet i (Ipv4 a b c d) = [a, b, c, d] ! i"

unbundle bit_operations_syntax

definition is_blocked_v4 :: "Ipv4Addr \<Rightarrow> bool" where
  "is_blocked_v4 a \<longleftrightarrow> v4_is_loopback a \<or> v4_is_private a \<or> v4_is_link_local a \<or> v4_is_broadcast a
     \<or> v4_is_multicast a \<or> v4_is_unspecified a \<or> (octet 0 a = 100 \<and> octet 1 a AND 0xc0 = 64)"

definition v6_is_multicast :: "Ipv6Addr \<Rightarrow> bool" where
  "v6_is_multicast a \<longleftrightarrow> segments a ! 0 AND 0xff00 = 0xff00"

definition is_blocked_v6 :: "Ipv6Addr \<Rightarrow> bool" where
  "is_blocked_v6 a =
     (if v6_is_loopback a \<or> v6_is_multicast a \<or> v6_is_unspecified a then True
      else let seg = segments a ! 0
           in if seg AND 0xffc0 = 0xfe80 then True
              else if seg AND 0xfe00 = 0xfc00 then True
              else case to_ipv4 a of Some v4 \<Rightarrow> is_blocked_v4 v4 | None \<Rightarrow> False)"

definition is_blocked_ip_literal :: "string \<Rightarrow> bool" where
  "is_blocked_ip_literal h = (case parse_ipv4 h of
     Some v4 \<Rightarrow> is_blocked_v4 v4
   | None \<Rightarrow> (case parse_ipv6 h of Some v6 \<Rightarrow> is_blocked_v6 v6 | None \<Rightarrow> False))"

text \<open>\<open>allow_private_targets_from_env\<close> and \<open>insecure_http_from_env\<close>: the value of the variable, \<open>None\<close> when it is
  unset or not Unicode.\<close>

definition env_switch :: "string option \<Rightarrow> bool" where
  "env_switch v \<longleftrightarrow> v \<in> {Some ''1'', Some ''true'', Some ''TRUE''}"

section \<open>The dialling checks of the transport\<close>

type_synonym peer_id = bytes

datatype TransportError =
    UnknownPeer peer_id
  | InvalidPeerDomain peer_id
  | BlockedTarget peer_id
  | Dispatch string

definition scheme :: "bool \<Rightarrow> string" where
  "scheme insecure_http = (if insecure_http then ''http'' else ''https'')"

text \<open>\<open>ReqwestTransport::request\<close> up to the URL: \<open>row\<close> is the result of the lookup of the peer's row
  (\<open>Inl\<close> a database error), \<open>url_parse\<close> the URL parser.\<close>

definition request_url :: "(string \<Rightarrow> 'u option) \<Rightarrow> bool \<Rightarrow> bool \<Rightarrow> peer_id \<Rightarrow> unit + string option \<Rightarrow> string \<Rightarrow> TransportError + 'u" where
  "request_url url_parse allow_private_targets insecure_http target row path_and_query =
     (case row of
        Inl _ \<Rightarrow> Inl (Dispatch ''other'')
      | Inr None \<Rightarrow> Inl (UnknownPeer target)
      | Inr (Some instance_domain) \<Rightarrow>
          (case parse_instance_domain instance_domain of
             Inl _ \<Rightarrow> Inl (InvalidPeerDomain target)
           | Inr parsed \<Rightarrow>
               if \<not> allow_private_targets \<and> is_blocked_ip_literal (host parsed) then Inl (BlockedTarget target)
               else (case url_parse (scheme insecure_http @ ''://'' @ instance_domain @ path_and_query) of
                  None \<Rightarrow> Inl (InvalidPeerDomain target)
                | Some url \<Rightarrow> Inr url)))"

definition fetch_identity_url :: "(string \<Rightarrow> 'u option) \<Rightarrow> bool \<Rightarrow> bool \<Rightarrow> string \<Rightarrow> TransportError + 'u" where
  "fetch_identity_url url_parse allow_private_targets insecure_http domain =
     (case parse_instance_domain domain of
        Inl _ \<Rightarrow> Inl (Dispatch ''build'')
      | Inr parsed \<Rightarrow>
          if \<not> allow_private_targets \<and> is_blocked_ip_literal (host parsed) then Inl (Dispatch ''blocked'')
          else (case url_parse (scheme insecure_http @ ''://'' @ domain @ ''/federation/v1/identity'') of
             None \<Rightarrow> Inl (Dispatch ''build'')
           | Some url \<Rightarrow> Inr url))"

section \<open>Splitting\<close>

lemma rsplit_once_Some: "rsplit_once c s = Some (a, b) \<longleftrightarrow> s = a @ c # b \<and> c \<notin> set b"
proof
  assume r: "rsplit_once c s = Some (a, b)"
  then have "c \<in> set (rev s)" by (simp add: rsplit_once_def split: if_splits)
  then have "dropWhile (\<lambda>x. x \<noteq> c) (rev s) \<noteq> []" by (auto simp: dropWhile_eq_Nil_conv)
  then obtain d ds where d: "dropWhile (\<lambda>x. x \<noteq> c) (rev s) = d # ds" by (meson neq_Nil_conv)
  then have "d = c" using hd_dropWhile [of "\<lambda>x. x \<noteq> c" "rev s"] by simp
  moreover have "rev s = takeWhile (\<lambda>x. x \<noteq> c) (rev s) @ d # ds" unfolding d [symmetric] by simp
  then have "s = rev ds @ d # rev (takeWhile (\<lambda>x. x \<noteq> c) (rev s))" by (simp add: rev_swap)
  ultimately show "s = a @ c # b \<and> c \<notin> set b"
    using r d by (auto simp: rsplit_once_def split: if_splits dest: set_takeWhileD)
next
  assume "s = a @ c # b \<and> c \<notin> set b"
  then have s: "rev s = rev b @ c # rev a" "c \<in> set s" and n: "\<And>x. x \<in> set (rev b) \<Longrightarrow> x \<noteq> c" by auto
  have "takeWhile (\<lambda>x. x \<noteq> c) (rev s) = rev b" "dropWhile (\<lambda>x. x \<noteq> c) (rev s) = c # rev a"
    unfolding s(1) by (subst takeWhile_append2 [OF n] dropWhile_append2 [OF n]; simp)+
  with s(2) show "rsplit_once c s = Some (a, b)" by (simp add: rsplit_once_def)
qed

lemma rsplit_once_None: "rsplit_once c s = None \<longleftrightarrow> c \<notin> set s"
  by (simp add: rsplit_once_def)

lemma first_occurrence: "a @ c # x = b @ c # y \<Longrightarrow> c \<notin> set a \<Longrightarrow> c \<notin> set b \<Longrightarrow> a = b \<and> x = y"
proof (induction a arbitrary: b)
  case Nil
  then show ?case by (cases b) auto
next
  case (Cons z a)
  then show ?case by (cases b) auto
qed

text \<open>The text of a label list.\<close>

fun join :: "char \<Rightarrow> string list \<Rightarrow> string" where
  "join c [] = []"
| "join c [l] = l"
| "join c (l # ls) = l @ c # join c ls"

lemma split_on_nonempty [simp]: "split_on c s \<noteq> []"
  by (cases s) (auto split: list.splits)

lemma join_Cons_char: "ls \<noteq> [] \<Longrightarrow> join c ((x # hd ls) # tl ls) = x # join c ls"
  by (cases "(c, ls)" rule: join.cases) auto

lemma join_Cons: "ls \<noteq> [] \<Longrightarrow> join c (l # ls) = l @ c # join c ls"
  by (cases ls) auto

lemma join_split: "join c (split_on c s) = s"
proof (induction s)
  case (Cons x xs)
  then show ?case
    using join_Cons_char [of "split_on c xs" c x] by (auto simp: join_Cons split: list.splits)
qed simp

lemma split_on_fresh: "c \<notin> set l \<Longrightarrow> split_on c l = [l]"
  by (induction l) auto

lemma split_on_append: "c \<notin> set l \<Longrightarrow> split_on c (l @ c # s) = l # split_on c s"
  by (induction l) auto

lemma split_join: "ls \<noteq> [] \<Longrightarrow> \<forall>l \<in> set ls. c \<notin> set l \<Longrightarrow> split_on c (join c ls) = ls"
  by (induction c ls rule: join.induct) (auto simp: split_on_fresh split_on_append)

lemma split_on_snoc: "split_on c (s @ [c]) = split_on c s @ [[]]"
  by (induction s) (auto split: list.splits simp: neq_Nil_conv)

section \<open>Ports and host names\<close>

lemma value_of_mono: "acc \<le> value_of 10 acc s"
proof (induction s arbitrary: acc)
  case (Cons c s)
  show ?case using Cons [of "acc * 10 + the (to_digit 10 c)"] by (simp add: value_of_def)
qed (simp add: value_of_def)

lemma u16_digits_iff:
  "acc < 65536 \<Longrightarrow> u16_digits acc s = Some n \<longleftrightarrow> all_digits 10 s \<and> value_of 10 acc s = n \<and> n < 65536"
proof (induction s arbitrary: acc)
  case Nil
  then show ?case by (auto simp: all_digits_def value_of_def)
next
  case (Cons c s)
  show ?case
  proof (cases "to_digit 10 c")
    case None
    then show ?thesis by (simp add: all_digits_def)
  next
    case (Some d)
    have v: "value_of 10 acc (c # s) = value_of 10 (acc * 10 + d) s" using Some by (simp add: value_of_def)
    show ?thesis
      using Cons.IH [of "acc * 10 + d"] value_of_mono [of "acc * 10 + d" s] Some
      unfolding v by (auto simp: all_digits_def)
  qed
qed

text \<open>A port of the grammar: decimal digits with a value from 1 to 65535; zeros may lead.\<close>

definition port_text :: "string \<Rightarrow> nat \<Rightarrow> bool" where
  "port_text ds p \<longleftrightarrow> ds \<noteq> [] \<and> all_digits 10 ds \<and> value_of 10 0 ds = p \<and> 1 \<le> p \<and> p \<le> 65535"

lemma domain_char_plus: "\<not> domain_char CHR ''+''"
  by (simp add: domain_char_def ascii_alphanumeric_def)

lemma parse_port_iff:
  assumes "list_all domain_char ds"
  shows "parse_port ds = Inr p \<longleftrightarrow> port_text ds p"
proof -
  have "hd ds \<noteq> CHR ''+''" if "ds \<noteq> []" using assms that domain_char_plus by (cases ds) auto
  moreover have "\<not> all_digits 10 ''-''" by (simp add: all_digits_def to_digit_def)
  ultimately have "parse_u16 ds = Some p \<longleftrightarrow> ds \<noteq> [] \<and> all_digits 10 ds \<and> value_of 10 0 ds = p \<and> p < 65536"
    by (auto simp: parse_u16_def u16_digits_iff)
  then show ?thesis
    by (auto simp: parse_port_def port_text_def split: option.splits if_splits)
qed

lemma port_text_no_colon: "port_text ds p \<Longrightarrow> CHR '':'' \<notin> set ds"
  by (auto simp: port_text_def all_digits_def to_digit_def)

text \<open>Host names: labels of letters, digits and inner hyphens, joined by full stops.\<close>

definition ldh_hostname :: "string \<Rightarrow> bool" where
  "ldh_hostname h \<longleftrightarrow> length h \<le> 253 \<and> (\<exists>ls. ls \<noteq> [] \<and> h = join CHR ''.'' ls \<and>
     (\<forall>l \<in> set ls. 1 \<le> length l \<and> length l \<le> 63 \<and> hd l \<noteq> CHR ''-'' \<and> last l \<noteq> CHR ''-'' \<and>
        (\<forall>c \<in> set l. ascii_alphanumeric c \<or> c = CHR ''-'')))"

lemma label_ok_iff: "label_ok l \<longleftrightarrow> 1 \<le> length l \<and> length l \<le> 63 \<and> hd l \<noteq> CHR ''-'' \<and> last l \<noteq> CHR ''-'' \<and>
    (\<forall>c \<in> set l. ascii_alphanumeric c \<or> c = CHR ''-'')"
  by (auto simp: label_ok_def Suc_le_eq)

lemma label_no_dot: "label_ok l \<Longrightarrow> CHR ''.'' \<notin> set l"
  by (auto simp: label_ok_def ascii_alphanumeric_def)

lemma validate_ldh_iff: "validate_ldh_hostname h = Inr () \<longleftrightarrow> ldh_hostname h"
proof -
  have start: "\<not> list_all label_ok (split_on CHR ''.'' h)" if "take 1 h = ''.''"
    using that by (cases h) (simp_all add: label_ok_def)
  have fin: "\<not> list_all label_ok (split_on CHR ''.'' h)" if "take 1 (rev h) = ''.''"
  proof -
    from that obtain g where "h = g @ ''.''" by (cases h rule: rev_cases) auto
    then show ?thesis by (simp add: split_on_snoc label_ok_def)
  qed
  have "list_all label_ok (split_on CHR ''.'' h) \<longleftrightarrow> (\<exists>ls. ls \<noteq> [] \<and> h = join CHR ''.'' ls \<and> list_all label_ok ls)"
  proof
    assume "list_all label_ok (split_on CHR ''.'' h)"
    then show "\<exists>ls. ls \<noteq> [] \<and> h = join CHR ''.'' ls \<and> list_all label_ok ls"
      by (intro exI [of _ "split_on CHR ''.'' h"]) (simp add: join_split)
  next
    assume "\<exists>ls. ls \<noteq> [] \<and> h = join CHR ''.'' ls \<and> list_all label_ok ls"
    then obtain ls where ls: "ls \<noteq> []" "h = join CHR ''.'' ls" "list_all label_ok ls" by blast
    then have "split_on CHR ''.'' h = ls" by (auto intro!: split_join dest: label_no_dot simp: list_all_iff)
    with ls show "list_all label_ok (split_on CHR ''.'' h)" by simp
  qed
  then have "ldh_hostname h \<longleftrightarrow> length h \<le> 253 \<and> list_all label_ok (split_on CHR ''.'' h)"
    unfolding ldh_hostname_def label_ok_iff list_all_iff by blast
  with start fin show ?thesis unfolding validate_ldh_hostname_def by auto
qed

section \<open>The accepted grammar\<close>

text \<open>The text \<open>s\<close> of an authority with host \<open>h\<close> and port \<open>p\<close>.\<close>

fun port_suffix :: "string \<Rightarrow> nat option \<Rightarrow> bool" where
  "port_suffix t None \<longleftrightarrow> t = []"
| "port_suffix t (Some p) \<longleftrightarrow> (\<exists>ds. t = CHR '':'' # ds \<and> port_text ds p)"

definition authority :: "string \<Rightarrow> string \<Rightarrow> nat option \<Rightarrow> bool" where
  "authority s h p \<longleftrightarrow> (\<exists>t. port_suffix t p \<and>
     (s = h @ t \<and> (parse_ipv4 h \<noteq> None \<or> ldh_hostname h) \<or> s = ''['' @ h @ '']'' @ t \<and> parse_ipv6 h \<noteq> None))"

lemma v4_char_facts: "v4_char c \<Longrightarrow> domain_char c \<and> c \<noteq> CHR '':'' \<and> c \<noteq> CHR ''['' \<and> c \<noteq> CHR '']''"
  by (auto simp: v4_char_def domain_char_def ascii_alphanumeric_def to_digit_def Let_def split: if_splits)

lemma ip_char_facts: "ip_char c \<Longrightarrow> domain_char c \<and> c \<noteq> CHR ''['' \<and> c \<noteq> CHR '']''"
  by (auto simp: ip_char_def domain_char_def ascii_alphanumeric_def to_digit_def Let_def split: if_splits)

lemma set_join: "set (join c ls) \<subseteq> insert c (\<Union> (set ` set ls))"
  by (induction c ls rule: join.induct) auto

lemma ldh_facts:
  assumes "ldh_hostname h" "c \<in> set h"
  shows "domain_char c" "c \<noteq> CHR '':''" "c \<noteq> CHR ''[''"
proof -
  obtain ls where "h = join CHR ''.'' ls" "\<forall>l \<in> set ls. \<forall>c \<in> set l. ascii_alphanumeric c \<or> c = CHR ''-''"
    using assms(1) by (auto simp: ldh_hostname_def)
  with assms(2) set_join [of "CHR ''.''" ls] have "ascii_alphanumeric c \<or> c = CHR ''-'' \<or> c = CHR ''.''" by blast
  then show "domain_char c" "c \<noteq> CHR '':''" "c \<noteq> CHR ''[''"
    by (auto simp: domain_char_def ascii_alphanumeric_def)
qed

lemma ldh_nonempty: "ldh_hostname h \<Longrightarrow> h \<noteq> []"
proof -
  assume "ldh_hostname h"
  then obtain ls where "ls \<noteq> []" "h = join CHR ''.'' ls" "\<forall>l \<in> set ls. 1 \<le> length l"
    by (auto simp: ldh_hostname_def)
  then show ?thesis by (cases "(CHR ''.'', ls)" rule: join.cases) auto
qed

lemma plain_host_facts:
  assumes "parse_ipv4 h \<noteq> None \<or> ldh_hostname h"
  shows "list_all domain_char h" "CHR '':'' \<notin> set h" "h \<noteq> []" "hd h \<noteq> CHR ''[''"
proof -
  have f: "domain_char c \<and> c \<noteq> CHR '':'' \<and> c \<noteq> CHR ''[''" if "c \<in> set h" for c
    using assms that ldh_facts [of h c] parse_ipv4_chars [of h] v4_char_facts [of c] by (auto simp: list_all_iff)
  then show "list_all domain_char h" "CHR '':'' \<notin> set h" by (auto simp: list_all_iff)
  show n: "h \<noteq> []"
    using assms ldh_nonempty by (auto simp: parse_ipv4_def read_ipv4_addr_def read_octet_def read_separator_def read_number_none)
  show "hd h \<noteq> CHR ''[''" using f [OF hd_in_set [OF n]] by blast
qed

lemma port_suffix_chars: "port_suffix t p \<Longrightarrow> list_all domain_char t"
  by (cases p) (auto simp: port_text_def all_digits_def list_all_iff domain_char_def ascii_alphanumeric_def to_digit_def Let_def
      split: if_splits)

lemma authority_chars: "authority s h p \<Longrightarrow> list_all domain_char s \<and> s \<noteq> []"
proof -
  assume "authority s h p"
  then consider t where "port_suffix t p" "s = h @ t" "parse_ipv4 h \<noteq> None \<or> ldh_hostname h"
    | t where "port_suffix t p" "s = ''['' @ h @ '']'' @ t" "parse_ipv6 h \<noteq> None" by (auto simp: authority_def)
  then show ?thesis
  proof cases
    case 1
    then show ?thesis using plain_host_facts [OF 1(3)] port_suffix_chars [OF 1(1)] by simp
  next
    case 2
    then obtain a where "parse_ipv6 h = Some a" by blast
    from parse_ipv6_chars [OF this] have "list_all domain_char h" using ip_char_facts by (auto simp: list_all_iff)
    moreover have "domain_char CHR ''[''" "domain_char CHR '']''" by (simp_all add: domain_char_def)
    ultimately show ?thesis using 2 port_suffix_chars [OF 2(1)] by simp
  qed
qed

lemma parse_plain_iff:
  assumes "list_all domain_char s"
  shows "parse_plain s = Inr d \<longleftrightarrow> (\<exists>t. port_suffix t (port d) \<and> s = host d @ t \<and> (parse_ipv4 (host d) \<noteq> None \<or> ldh_hostname (host d)))"
    (is "_ \<longleftrightarrow> ?R")
proof -
  have ldh: "validate_ldh_hostname h = Inr u \<longleftrightarrow> ldh_hostname h" for h u using validate_ldh_iff by (cases u) simp
  show ?thesis
  proof (cases "rsplit_once CHR '':'' s")
    case None
    then have "port_suffix t (port d) \<and> s = host d @ t \<longleftrightarrow> t = [] \<and> port d = None \<and> s = host d" for t
      by (cases "port d") (auto simp: rsplit_once_None)
    then have R: "?R \<longleftrightarrow> port d = None \<and> s = host d \<and> (parse_ipv4 s \<noteq> None \<or> ldh_hostname s)" by metis
    have "parse_plain s = Inr d \<longleftrightarrow> s \<noteq> [] \<and> port d = None \<and> s = host d \<and> (parse_ipv4 s \<noteq> None \<or> ldh_hostname s)"
      using None by (cases d) (auto simp: parse_plain_def andthen_Inr ldh split: if_splits)
    with R plain_host_facts(3) [of s] show ?thesis by blast
  next
    case (Some x)
    obtain a b where x: "x = (a, b)" by (cases x)
    have ab: "s = a @ CHR '':'' # b" "CHR '':'' \<notin> set b" using Some unfolding x rsplit_once_Some by auto
    have "parse_port b = Inr q \<longleftrightarrow> port_text b q" for q using assms ab by (intro parse_port_iff) simp
    then have L: "parse_plain s = Inr d \<longleftrightarrow> (\<exists>q. port_text b q \<and> port d = Some q \<and> host d = a \<and> a \<noteq> [] \<and> (parse_ipv4 a \<noteq> None \<or> ldh_hostname a))"
      using Some x by (cases d) (auto simp: parse_plain_def andthen_Inr ldh split: if_splits)
    have "?R \<longleftrightarrow> (\<exists>q. port_text b q \<and> port d = Some q \<and> host d = a \<and> (parse_ipv4 a \<noteq> None \<or> ldh_hostname a))"
    proof
      assume ?R
      then obtain t where t: "port_suffix t (port d)" "s = host d @ t" "parse_ipv4 (host d) \<noteq> None \<or> ldh_hostname (host d)" by blast
      note nc = plain_host_facts(2) [OF t(3)]
      show "\<exists>q. port_text b q \<and> port d = Some q \<and> host d = a \<and> (parse_ipv4 a \<noteq> None \<or> ldh_hostname a)"
      proof (cases "port d")
        case None
        with t(1,2) have "host d = a @ CHR '':'' # b" using ab by simp
        then have "CHR '':'' \<in> set (host d)" by simp
        with nc show ?thesis by blast
      next
        case (Some q)
        with t obtain ds where ds: "t = CHR '':'' # ds" "port_text ds q" by auto
        with t(2) port_text_no_colon have "rsplit_once CHR '':'' s = Some (host d, ds)" by (auto simp: rsplit_once_Some)
        then have "host d = a" "ds = b" using \<open>rsplit_once CHR '':'' s = Some x\<close> x by auto
        with ds t Some show ?thesis by auto
      qed
    qed (auto simp: ab)
    with L plain_host_facts(3) [of a] show ?thesis by blast
  qed
qed

lemma parse_bracketed_iff:
  assumes "list_all domain_char s"
  shows "parse_bracketed s = Inr d \<longleftrightarrow> (\<exists>t. port_suffix t (port d) \<and> s = host d @ '']'' @ t \<and> parse_ipv6 (host d) \<noteq> None)"
    (is "_ \<longleftrightarrow> ?R")
proof (cases "CHR '']'' \<in> set s")
  case False
  then show ?thesis by (auto simp: parse_bracketed_def)
next
  case True
  then obtain h after where s: "s = h @ CHR '']'' # after" "CHR '']'' \<notin> set h" by (auto dest: split_list_first)
  then have tw: "takeWhile (\<lambda>c. c \<noteq> CHR '']'') s = h" "dropWhile (\<lambda>c. c \<noteq> CHR '']'') s = CHR '']'' # after"
    by (auto simp: takeWhile_append dropWhile_append)
  have pp: "parse_port ds = Inr p \<longleftrightarrow> port_text ds p" if "after = c # ds" for c ds p
    using assms s that by (intro parse_port_iff) simp
  have suf: "port_suffix after (port d) \<longleftrightarrow> (case after of [] \<Rightarrow> port d = None
      | c # ds \<Rightarrow> c = CHR '':'' \<and> (\<exists>p. parse_port ds = Inr p \<and> port d = Some p))"
    by (cases "port d"; cases after) (auto simp: pp)
  have R: "?R \<longleftrightarrow> host d = h \<and> port_suffix after (port d) \<and> parse_ipv6 h \<noteq> None"
  proof
    assume ?R
    then obtain t a where t: "port_suffix t (port d)" "s = host d @ '']'' @ t" "parse_ipv6 (host d) = Some a" by blast
    from parse_ipv6_chars [OF t(3)] have "CHR '']'' \<notin> set (host d)" using ip_char_facts by (auto simp: list_all_iff)
    with s t(2) have "host d = h" "t = after" using first_occurrence [of "host d" _ t h after] by auto
    with t show "host d = h \<and> port_suffix after (port d) \<and> parse_ipv6 h \<noteq> None" by simp
  qed (auto simp: s)
  show ?thesis unfolding R suf using True
    by (cases d) (auto simp: parse_bracketed_def tw andthen_Inr split: option.splits list.splits if_splits)
qed

lemma parse_authority:
  "parse_instance_domain s = Inr d \<longleftrightarrow> length s \<le> 259 \<and> authority s (host d) (port d)"
proof (cases "s \<noteq> [] \<and> list_all domain_char s")
  case False
  then show ?thesis using authority_chars [of s "host d" "port d"]
    by (auto simp: parse_instance_domain_def)
next
  case True
  then obtain c r where c: "s = c # r" by (cases s) auto
  have ws: "\<not> list_all ascii_whitespace s"
    using True by (auto simp: c domain_char_def ascii_alphanumeric_def ascii_whitespace_def)
  show ?thesis
  proof (cases "c = CHR ''[''")
    case b: True
    have "(\<exists>t. port_suffix t (port d) \<and> s = host d @ t \<and> (parse_ipv4 (host d) \<noteq> None \<or> ldh_hostname (host d))) \<longleftrightarrow> False"
    proof -
      have "hd s \<noteq> CHR ''[''" if "s = host d @ t" "parse_ipv4 (host d) \<noteq> None \<or> ldh_hostname (host d)" for t
        using that(1) plain_host_facts(3,4) [OF that(2)] by simp
      moreover have "hd s = CHR ''[''" by (simp add: c b)
      ultimately show ?thesis by metis
    qed
    then have "authority s (host d) (port d) \<longleftrightarrow> parse_bracketed r = Inr d"
      using parse_bracketed_iff [of r d] True by (auto simp: authority_def c b)
    with True ws show ?thesis by (auto simp: parse_instance_domain_def c b)
  next
    case nb: False
    then have "authority s (host d) (port d) \<longleftrightarrow> parse_plain s = Inr d"
      using parse_plain_iff [of s d] True by (auto simp: authority_def c)
    with True ws nb show ?thesis by (auto simp: parse_instance_domain_def c)
  qed
qed

section \<open>The deny list as address blocks\<close>

fun v4_value :: "Ipv4Addr \<Rightarrow> nat" where
  "v4_value (Ipv4 a b c d) = ((unat a * 256 + unat b) * 256 + unat c) * 256 + unat d"

text \<open>The blocks, as network and prefix length.\<close>

definition blocked_nets :: "(Ipv4Addr \<times> nat) list" where
  "blocked_nets =
     [(Ipv4 0 0 0 0, 32), (Ipv4 10 0 0 0, 8), (Ipv4 100 64 0 0, 10), (Ipv4 127 0 0 0, 8), (Ipv4 169 254 0 0, 16),
      (Ipv4 172 16 0 0, 12), (Ipv4 192 168 0 0, 16), (Ipv4 224 0 0 0, 4), (Ipv4 255 255 255 255, 32)]"

definition in_net :: "Ipv4Addr \<Rightarrow> Ipv4Addr \<times> nat \<Rightarrow> bool" where
  "in_net a net \<longleftrightarrow> v4_value a div 2 ^ (32 - snd net) = v4_value (fst net) div 2 ^ (32 - snd net)"

lemma shared_space: "(b :: u8) AND 0xc0 = 64 \<longleftrightarrow> unat b div 64 = 1"
proof -
  have "(0xc0 :: u8) = push_bit 6 (mask 2)" by (simp add: mask_eq_exp_minus_1)
  moreover have "b AND push_bit 6 (mask 2) = push_bit 6 (drop_bit 6 b)" by (auto intro!: bit_word_eqI simp: bit_simps)
  ultimately have "b AND 0xc0 = push_bit 6 (drop_bit 6 b)" by simp
  then have "b AND 0xc0 = 64 \<longleftrightarrow> unat (push_bit 6 (drop_bit 6 b)) = 64" by (simp add: word_unat_eq_iff)
  also have "unat (push_bit 6 (drop_bit 6 b)) = unat b div 64 * 64"
  proof -
    have "unat b div 64 * 64 < 256" using octet_bound(1) [of b] by (metis div_times_less_eq_dividend le_less_trans)
    then show ?thesis by (simp add: push_bit_eq_mult drop_bit_eq_div unat_word_ariths unat_div)
  qed
  finally show ?thesis by simp
qed

declare v4_value.simps [simp del]

lemma pair_eq: "b < n \<Longrightarrow> q < n \<Longrightarrow> a * n + b = p * n + q \<longleftrightarrow> a = p \<and> b = q" for a b n p q :: nat
  by (metis add_diff_cancel_left' add_diff_cancel_right' div_mult_self3 div_less add_0_right less_nat_zero_code mod_less mod_mult_self3)

lemma v4_prefix:
  "v4_value (Ipv4 a b c d) div 16777216 = unat a"
  "v4_value (Ipv4 a b c d) div 65536 = unat a * 256 + unat b"
  "v4_value (Ipv4 a b c d) div 4194304 = unat a * 4 + unat b div 64"
  "v4_value (Ipv4 a b c d) div 1048576 = unat a * 16 + unat b div 16"
  "v4_value (Ipv4 a b c d) div 268435456 = unat a div 16"
proof -
  let ?v = "v4_value (Ipv4 a b c d)"
  note bounds = octet_bound(1) [of b] octet_bound(1) [of c] octet_bound(1) [of d]
  show m: "?v div 65536 = unat a * 256 + unat b"
    using bounds by (intro div_nat_eqI) (simp_all add: v4_value.simps algebra_simps)
  have "?v div 16777216 = ?v div 65536 div 256" "?v div 4194304 = ?v div 65536 div 64"
    "?v div 1048576 = ?v div 65536 div 16" "?v div 268435456 = ?v div 65536 div 256 div 16"
    by (simp_all add: div_mult2_eq [symmetric])
  moreover have "(x * 256 + y) div 64 = x * 4 + y div 64" "(x * 256 + y) div 16 = x * 16 + y div 16" for x y :: nat
    by simp_all
  ultimately show "?v div 16777216 = unat a" "?v div 4194304 = unat a * 4 + unat b div 64"
    "?v div 1048576 = unat a * 16 + unat b div 16" "?v div 268435456 = unat a div 16"
    using bounds(1) unfolding m by simp_all
qed

lemma v4_value_inj: "v4_value x = v4_value y \<longleftrightarrow> x = y"
  by (cases x; cases y) (simp only: v4_value.simps pair_eq octet_bound(1) word_unat_eq_iff Ipv4Addr.inject conj_assoc)

lemma in_net_octets:
  "in_net (Ipv4 a b c d) (Ipv4 p q r s, 4) \<longleftrightarrow> unat a div 16 = unat p div 16"
  "in_net (Ipv4 a b c d) (Ipv4 p q r s, 8) \<longleftrightarrow> a = p"
  "in_net (Ipv4 a b c d) (Ipv4 p q r s, 10) \<longleftrightarrow> a = p \<and> unat b div 64 = unat q div 64"
  "in_net (Ipv4 a b c d) (Ipv4 p q r s, 12) \<longleftrightarrow> a = p \<and> unat b div 16 = unat q div 16"
  "in_net (Ipv4 a b c d) (Ipv4 p q r s, 16) \<longleftrightarrow> a = p \<and> b = q"
  "in_net x (y, 32) \<longleftrightarrow> x = y"
proof -
  have d: "unat (w :: u8) div 64 < 4" "unat w div 16 < 16" for w
    using octet_bound(1) [of w] by (simp_all add: less_mult_imp_div_less)
  show "in_net (Ipv4 a b c d) (Ipv4 p q r s, 4) \<longleftrightarrow> unat a div 16 = unat p div 16"
    "in_net (Ipv4 a b c d) (Ipv4 p q r s, 8) \<longleftrightarrow> a = p"
    "in_net (Ipv4 a b c d) (Ipv4 p q r s, 10) \<longleftrightarrow> a = p \<and> unat b div 64 = unat q div 64"
    "in_net (Ipv4 a b c d) (Ipv4 p q r s, 12) \<longleftrightarrow> a = p \<and> unat b div 16 = unat q div 16"
    "in_net (Ipv4 a b c d) (Ipv4 p q r s, 16) \<longleftrightarrow> a = p \<and> b = q"
    "in_net x (y, 32) \<longleftrightarrow> x = y"
    by (simp_all add: in_net_def v4_prefix v4_value_inj pair_eq d octet_bound(1) word_unat_eq_iff)
qed

lemma octet_blocks:
  "unat (a :: u8) div 16 = 14 \<longleftrightarrow> 224 \<le> a \<and> a \<le> 239"
  "unat (a :: u8) div 16 = 1 \<longleftrightarrow> 16 \<le> a \<and> a \<le> 31"
proof -
  have "n div 16 = 14 \<longleftrightarrow> 224 \<le> n \<and> n \<le> 239" "n div 16 = 1 \<longleftrightarrow> 16 \<le> n \<and> n \<le> 31" for n :: nat
  proof -
    define q r where "q = n div 16" and "r = n mod 16"
    have "n = 16 * q + r" "r < 16" by (simp_all add: q_def r_def)
    then show "n div 16 = 14 \<longleftrightarrow> 224 \<le> n \<and> n \<le> 239" "n div 16 = 1 \<longleftrightarrow> 16 \<le> n \<and> n \<le> 31"
      unfolding q_def [symmetric] by linarith+
  qed
  then show "unat a div 16 = 14 \<longleftrightarrow> 224 \<le> a \<and> a \<le> 239" "unat a div 16 = 1 \<longleftrightarrow> 16 \<le> a \<and> a \<le> 31"
    by (simp_all add: word_le_nat_alt)
qed

lemma blocked_v4_nets: "is_blocked_v4 x \<longleftrightarrow> list_ex (in_net x) blocked_nets"
proof (cases x)
  case (Ipv4 a b c d)
  have "list_ex (in_net x) blocked_nets \<longleftrightarrow> x = Ipv4 0 0 0 0 \<or> a = 10 \<or> a = 100 \<and> unat b div 64 = 1 \<or> a = 127
      \<or> a = 169 \<and> b = 254 \<or> a = 172 \<and> 16 \<le> b \<and> b \<le> 31 \<or> a = 192 \<and> b = 168 \<or> 224 \<le> a \<and> a \<le> 239 \<or> x = Ipv4 255 255 255 255"
    unfolding Ipv4 blocked_nets_def by (simp add: in_net_octets octet_blocks [simplified])
  moreover have "is_blocked_v4 x \<longleftrightarrow> a = 127 \<or> (a = 10 \<or> a = 172 \<and> 16 \<le> b \<and> b \<le> 31 \<or> a = 192 \<and> b = 168) \<or> (a = 169 \<and> b = 254)
      \<or> x = Ipv4 255 255 255 255 \<or> (224 \<le> a \<and> a \<le> 239) \<or> x = Ipv4 0 0 0 0 \<or> (a = 100 \<and> unat b div 64 = 1)"
    unfolding Ipv4 is_blocked_v4_def v4_is_unspecified_def v4_is_broadcast_def
    by (simp only: v4_is_loopback.simps v4_is_private.simps v4_is_link_local.simps v4_is_multicast.simps octet.simps nth_Cons_0
        One_nat_def nth_Cons_Suc shared_space)
  ultimately show ?thesis by blast
qed

text \<open>The format gate accepts exactly the authorities of the documented grammar: at most 259 bytes, an IPv4
  literal or a host name of letter-digit-hyphen labels or a bracketed IPv6 literal, then optionally a colon and a
  decimal port from 1 to 65535; host and port of the result are those of the text. In particular every accepted
  text consists of letters, digits, hyphens, full stops, colons and brackets only, so it cannot carry user
  information, a path, a query, a fragment or white space into the URL built from it.\<close>

theorem gate_accepts_authorities:
  "parse_instance_domain s = Inr d \<longleftrightarrow> length s \<le> 259 \<and> list_all domain_char s \<and> authority s (host d) (port d)"
  using parse_authority [of s d] authority_chars [of s "host d" "port d"] by blast

text \<open>The deny list refuses an IPv4 literal exactly when its address lies in one of nine blocks (unspecified,
  private, shared, loopback, link local, multicast and broadcast), and it treats the IPv6-mapped spelling of an
  address like the dotted one, so the mapped form is no way round the list.\<close>

theorem deny_list_blocks:
  "(is_blocked_ip_literal (dotted a) \<longleftrightarrow> list_ex (in_net a) blocked_nets) \<and>
   (is_blocked_ip_literal (''::ffff:'' @ dotted a) \<longleftrightarrow> list_ex (in_net a) blocked_nets)"
proof -
  have "is_blocked_v6 (Ipv6 (mapped_segments a)) = is_blocked_v4 a"
    using to_ipv4_mapped [of a]
    by (simp add: is_blocked_v6_def mapped_segments_def v6_is_loopback_def v6_is_unspecified_def v6_is_multicast_def Let_def)
  then show ?thesis
    by (simp add: is_blocked_ip_literal_def parse_ipv4_dotted parse_ipv4_mapped parse_ipv6_mapped blocked_v4_nets del: append.simps)
qed

section \<open>Hosts that are numbers\<close>

lemma digit_facts: "to_digit 10 c \<noteq> None \<Longrightarrow> ascii_alphanumeric c \<and> c \<noteq> CHR ''.'' \<and> c \<noteq> CHR ''-'' \<and> c \<noteq> CHR '':''"
  by (auto simp: to_digit_def ascii_alphanumeric_def Let_def split: if_splits)

lemma number_fresh:
  assumes "all_digits 10 h"
  shows "CHR '':'' \<notin> set h" "CHR ''.'' \<notin> set h"
  using assms by (auto simp: all_digits_def to_digit_def)

lemma number_is_ldh:
  assumes "all_digits 10 h" "h \<noteq> []" "length h \<le> 63"
  shows "ldh_hostname h"
proof -
  have "\<forall>c \<in> set h. ascii_alphanumeric c \<and> c \<noteq> CHR ''-''" using assms(1) digit_facts by (auto simp: all_digits_def)
  with assms(2,3) show ?thesis unfolding ldh_hostname_def
    by (intro conjI exI [of _ "[h]"]) (auto simp: Suc_le_eq)
qed

lemma number_not_ipv6:
  assumes "all_digits 10 h"
  shows "parse_ipv6 h = None"
proof -
  note nc = number_fresh(1) [OF assms] and nd = number_fresh(2) [OF assms]
  have v4: "read_ipv4_addr t = None" if "CHR ''.'' \<notin> set t" for t using read_ipv4_needs_dot [of t] that by (cases "read_ipv4_addr t") auto
  have more: "read_groups l (Suc i) t = ([], False, t)" if "CHR '':'' \<notin> set t" for l i t
    using that by (cases l) (auto simp: read_separator_def split: list.splits)
  obtain gs b r where g: "read_groups 8 0 h = (gs, b, r)" by (metis prod_cases3)
  have "length gs < 8 \<and> CHR '':'' \<notin> set r"
  proof (cases "read_number 16 4 True 65536 h")
    case None
    then have "read_groups (Suc 7) 0 h = ([], False, h)" using v4 [OF nd] by (intro read_groups_step(2)) (simp_all add: read_separator_def)
    with g nc show ?thesis by simp
  next
    case (Some x)
    obtain v t where x: "x = (v, t)" by (cases x)
    have t: "CHR '':'' \<notin> set t" using read_number_suffix [of 16 4 True 65536 h v t] Some nc unfolding x by blast
    have "read_groups (Suc 7) 0 h = ([of_nat v], False, t)"
      using Some v4 [OF nd] more [OF t, of 7 0] unfolding x by (intro read_groups_step(3)) (simp_all add: read_separator_def del: read_groups.simps)
    with g t show ?thesis by simp
  qed
  moreover from this have "take 2 r \<noteq> ''::''" using in_set_takeD [of "CHR '':''" 2 r] by auto
  ultimately show ?thesis using g by (auto simp: parse_ipv6_def read_ipv6_addr_def)
qed

text \<open>A host written as one decimal number passes both layers: the gate takes it for a host name and the deny
  list, which only knows the four-part form, does not block it. URL parsers read such a host as the IPv4 address
  with that value, so the number 2130706433 names the loopback address.\<close>

theorem numeric_host_unblocked:
  assumes "all_digits 10 h" "h \<noteq> []" "length h \<le> 63"
  shows "parse_instance_domain h = Inr \<lparr>host = h, port = None\<rparr> \<and> \<not> is_blocked_ip_literal h"
proof -
  have "CHR ''.'' \<notin> set h" by (rule number_fresh(2) [OF assms(1)])
  then have "parse_ipv4 h = None" using read_ipv4_needs_dot [of h] by (auto simp: parse_ipv4_def split: option.splits)
  moreover have "authority h h None" using number_is_ldh [OF assms] by (auto simp: authority_def)
  ultimately show ?thesis
    using assms(3) parse_authority [of h "\<lparr>host = h, port = None\<rparr>"] number_not_ipv6 [OF assms(1)]
    by (simp add: is_blocked_ip_literal_def)
qed

theorem numeric_host_unblocked_witness:
  "v4_value (Ipv4 127 0 0 1) = 2130706433 \<and> is_blocked_ip_literal (dotted (Ipv4 127 0 0 1)) \<and>
   parse_instance_domain ''2130706433'' = Inr \<lparr>host = ''2130706433'', port = None\<rparr> \<and> \<not> is_blocked_ip_literal ''2130706433''"
proof (intro conjI)
  show "v4_value (Ipv4 127 0 0 1) = 2130706433" by (simp add: v4_value.simps)
  show "is_blocked_ip_literal (dotted (Ipv4 127 0 0 1))"
    by (simp add: is_blocked_ip_literal_def parse_ipv4_dotted is_blocked_v4_def del: dotted.simps)
  have "parse_instance_domain ''2130706433'' = Inr \<lparr>host = ''2130706433'', port = None\<rparr> \<and> \<not> is_blocked_ip_literal ''2130706433''"
    by (rule numeric_host_unblocked) (simp_all add: all_digits_def to_digit_def)
  then show "parse_instance_domain ''2130706433'' = Inr \<lparr>host = ''2130706433'', port = None\<rparr>" "\<not> is_blocked_ip_literal ''2130706433''"
    by simp_all
qed

end
