(* ===== verification/Trust_Code.thy ===== *)
theory Trust_Code
  imports Instance_Domain
begin

text \<open>
  Trust codes, \<open>server/src/federation/trust_code.rs\<close>: minting and the right-to-left parser. The accepted inputs
  are exactly the minted texts, up to white space around them. \<open>str::split_at\<close> panics off a character boundary,
  so the parser's result is an outcome: it returns a result or panics.
\<close>

section \<open>The code\<close>

datatype 'a outcome = Panic | Returns 'a

definition PREFIX :: string where
  "PREFIX = '':trust:''"

definition MAX_DISPLAY_NAME_LEN :: nat where
  "MAX_DISPLAY_NAME_LEN = 128"

record TrustCode =
  display_name :: string
  home_domain :: string
  user_pubkey :: bytes
  instance_pubkey :: bytes

datatype TrustCodeError = MissingPrefix | Malformed | BadHex | BadName | BadDomain

definition lower_hex :: "char \<Rightarrow> bool" where
  "lower_hex c \<longleftrightarrow> (let b = of_char c :: nat in 48 \<le> b \<and> b \<le> 57 \<or> 97 \<le> b \<and> b \<le> 102)"

unbundle bit_operations_syntax

fun hex_pairs :: "string \<Rightarrow> bytes option" where
  "hex_pairs (h # l # r) =
     (case to_digit 16 h of None \<Rightarrow> None | Some hi \<Rightarrow>
      (case to_digit 16 l of None \<Rightarrow> None | Some lo \<Rightarrow>
       map_option (Cons (push_bit 4 (of_nat hi) OR of_nat lo)) (hex_pairs r)))"
| "hex_pairs _ = Some []"

definition decode_hex32 :: "string \<Rightarrow> bytes option" where
  "decode_hex32 s = (if length s \<noteq> 64 \<or> \<not> list_all lower_hex s then None else hex_pairs s)"

definition hex_digit :: "nat \<Rightarrow> char" where
  "hex_digit d = char_of (if d < 10 then 48 + d else 87 + d)"

text \<open>The format \<open>{b:02x}\<close> of a byte.\<close>

definition hex_byte :: "u8 \<Rightarrow> string" where
  "hex_byte b = [hex_digit (unat b div 16), hex_digit (unat b mod 16)]"

definition encode_hex32 :: "bytes \<Rightarrow> string" where
  "encode_hex32 bs = concat (map hex_byte bs)"

definition mint :: "string \<Rightarrow> string \<Rightarrow> bytes \<Rightarrow> bytes \<Rightarrow> string" where
  "mint name domain user inst =
     PREFIX @ name @ ''@'' @ domain @ '':'' @ encode_hex32 user @ ''@'' @ encode_hex32 inst"

text \<open>\<open>str::trim\<close> and \<open>char::is_control\<close>, on Unicode scalar values.\<close>

definition white_space :: "nat \<Rightarrow> bool" where
  "white_space c \<longleftrightarrow> 9 \<le> c \<and> c \<le> 13 \<or> 0x2000 \<le> c \<and> c \<le> 0x200A
     \<or> c \<in> {32, 0x85, 0xA0, 0x1680, 0x2028, 0x2029, 0x202F, 0x205F, 0x3000}"

definition trim :: "string \<Rightarrow> string" where
  "trim s = of_chars (rev (dropWhile white_space (rev (dropWhile white_space (chars s)))))"

definition control :: "nat \<Rightarrow> bool" where
  "control c \<longleftrightarrow> c < 32 \<or> 127 \<le> c \<and> c < 160"

definition split_at :: "string \<Rightarrow> nat \<Rightarrow> (string \<times> string) outcome" where
  "split_at s n = (if n \<le> length s \<and> is_char_boundary s n then Returns (take n s, drop n s) else Panic)"

definition strip_suffix :: "char \<Rightarrow> string \<Rightarrow> string option" where
  "strip_suffix c s = (if s \<noteq> [] \<and> last s = c then Some (butlast s) else None)"

definition split_once :: "char \<Rightarrow> string \<Rightarrow> (string \<times> string) option" where
  "split_once c s = (if c \<in> set s
     then Some (takeWhile (\<lambda>x. x \<noteq> c) s, tl (dropWhile (\<lambda>x. x \<noteq> c) s)) else None)"

text \<open>One peel off the right: 64 bytes of hexadecimal after a delimiter. Both halves of the parser do this in
  the same order of checks.\<close>

definition peel :: "char \<Rightarrow> string \<Rightarrow> (TrustCodeError + string \<times> bytes) outcome" where
  "peel delim body =
     (if length body < 64 then Returns (Inl Malformed)
      else case split_at body (length body - 64) of
        Panic \<Rightarrow> Panic
      | Returns (rest, hex) \<Rightarrow>
          (case strip_suffix delim rest of
             None \<Rightarrow> Returns (Inl Malformed)
           | Some rest \<Rightarrow> (case decode_hex32 hex of
               None \<Rightarrow> Returns (Inl BadHex) | Some key \<Rightarrow> Returns (Inr (rest, key)))))"

definition parse_head :: "string \<Rightarrow> bytes \<Rightarrow> bytes \<Rightarrow> TrustCodeError + TrustCode" where
  "parse_head head user inst =
     (case split_once CHR ''@'' head of
        None \<Rightarrow> Inl Malformed
      | Some (name, domain) \<Rightarrow>
          if name = [] \<or> length name > MAX_DISPLAY_NAME_LEN \<or> list_ex control (chars name) then Inl BadName
          else case parse_instance_domain domain of
            Inl _ \<Rightarrow> Inl BadDomain
          | Inr _ \<Rightarrow> Inr \<lparr>display_name = name, home_domain = domain, user_pubkey = user, instance_pubkey = inst\<rparr>)"

definition trust_code_parse :: "string \<Rightarrow> (TrustCodeError + TrustCode) outcome" where
  "trust_code_parse input =
     (let t = trim input
      in if take 7 t \<noteq> PREFIX then Returns (Inl MissingPrefix)
         else case peel CHR ''@'' (drop 7 t) of
           Panic \<Rightarrow> Panic
         | Returns (Inl e) \<Rightarrow> Returns (Inl e)
         | Returns (Inr (rest, inst)) \<Rightarrow>
             (case peel CHR '':'' rest of
                Panic \<Rightarrow> Panic
              | Returns (Inl e) \<Rightarrow> Returns (Inl e)
              | Returns (Inr (head, user)) \<Rightarrow> Returns (parse_head head user inst)))"

section \<open>Hexadecimal\<close>

lemma hex_digit_facts:
  assumes "d < 16"
  shows "lower_hex (hex_digit d)" "to_digit 16 (hex_digit d) = Some d"
  using assms by (auto simp: lower_hex_def hex_digit_def to_digit_def Let_def)

lemma lower_hex_digit:
  assumes "lower_hex c"
  obtains d where "d < 16" "c = hex_digit d"
proof -
  define b where "b = (of_char c :: nat)"
  have c: "c = char_of b" by (simp add: b_def)
  from assms have "48 \<le> b \<and> b \<le> 57 \<or> 97 \<le> b \<and> b \<le> 102" by (simp add: lower_hex_def b_def Let_def)
  then show thesis
  proof
    assume "48 \<le> b \<and> b \<le> 57"
    then show thesis by (intro that [of "b - 48"]) (auto simp: c hex_digit_def)
  next
    assume "97 \<le> b \<and> b \<le> 102"
    then show thesis by (intro that [of "b - 87"]) (auto simp: c hex_digit_def)
  qed
qed

lemma nibble_bounds [simp]: "unat (b :: u8) div 16 < 16" "unat b mod 16 < 16"
  using octet_bound(1) [of b] by (simp_all add: less_mult_imp_div_less)

lemma nibbles: "push_bit 4 (of_nat (unat b div 16)) OR of_nat (unat b mod 16) = (b :: u8)"
proof -
  have "(of_nat (unat b div 16) :: u8) = drop_bit 4 b"
    using mod_less [OF le_less_trans [OF div_le_dividend octet_bound(1)], of b 16]
    by (simp add: word_unat_eq_iff drop_bit_eq_div unat_div unat_of_nat)
  moreover have "(of_nat (unat b mod 16) :: u8) = take_bit 4 b"
    by (simp add: word_unat_eq_iff take_bit_eq_mod unat_mod unat_of_nat)
  moreover have "push_bit 4 (drop_bit 4 b) OR take_bit 4 b = b"
    by (rule bit_word_eqI) (auto simp: bit_simps)
  ultimately show ?thesis by simp
qed

lemma hex_byte_join:
  assumes "h < 16" "l < 16"
  shows "hex_byte (push_bit 4 (of_nat h) OR of_nat l) = [hex_digit h, hex_digit l]"
proof -
  let ?b = "of_nat (h * 16 + l) :: u8"
  have n: "unat ?b = h * 16 + l" using assms by (simp only: unat_of_nat) simp
  have "?b = push_bit 4 (of_nat h) OR of_nat l"
    using nibbles [of ?b] assms(2) unfolding n by simp
  then show ?thesis using n assms(2) by (simp add: hex_byte_def)
qed

lemma encode_hex_chars: "list_all lower_hex (encode_hex32 bs)" "length (encode_hex32 bs) = 2 * length bs"
  by (induction bs) (simp_all add: encode_hex32_def hex_byte_def hex_digit_facts)

lemma hex_pairs_encode: "hex_pairs (encode_hex32 bs) = Some bs"
  by (induction bs) (simp_all add: encode_hex32_def hex_byte_def hex_digit_facts nibbles)

lemma decode_encode: "length k = 32 \<Longrightarrow> decode_hex32 (encode_hex32 k) = Some k"
  by (simp add: decode_hex32_def encode_hex_chars hex_pairs_encode)

lemma encode_pairs: "hex_pairs s = Some k \<Longrightarrow> list_all lower_hex s \<Longrightarrow> even (length s) \<Longrightarrow> encode_hex32 k = s \<and> 2 * length k = length s"
proof (induction s arbitrary: k rule: hex_pairs.induct)
  case (1 h l r)
  obtain hi lo where d: "hi < 16" "h = hex_digit hi" "lo < 16" "l = hex_digit lo"
    using "1.prems"(2) by (auto elim!: lower_hex_digit)
  with "1.prems"(1) obtain k' where k: "hex_pairs r = Some k'" "k = (push_bit 4 (of_nat hi) OR of_nat lo) # k'"
    by (auto simp: hex_digit_facts)
  have "encode_hex32 k' = r \<and> 2 * length k' = length r"
    by (rule "1.IH" [of hi lo]) (use "1.prems" d k in \<open>auto simp: hex_digit_facts\<close>)
  then show ?case using d by (simp add: k encode_hex32_def hex_byte_join)
qed (simp_all add: encode_hex32_def)

lemma decode_hex32_iff: "decode_hex32 s = Some k \<longleftrightarrow> length k = 32 \<and> s = encode_hex32 k"
proof
  assume "decode_hex32 s = Some k"
  then have "hex_pairs s = Some k" "list_all lower_hex s" "length s = 64" by (auto simp: decode_hex32_def split: if_splits)
  with encode_pairs [of s k] show "length k = 32 \<and> s = encode_hex32 k" by auto
qed (simp add: decode_encode)

section \<open>Peeling\<close>

lemma peel_iff: "peel delim body = Returns (Inr (rest, key)) \<longleftrightarrow> length key = 32 \<and> body = rest @ [delim] @ encode_hex32 key"
proof
  assume p: "peel delim body = Returns (Inr (rest, key))"
  let ?n = "length body - 64"
  from p have l: "64 \<le> length body" and s: "strip_suffix delim (take ?n body) = Some rest" and d: "decode_hex32 (drop ?n body) = Some key"
    by (auto simp: peel_def split_at_def split: if_splits option.splits)
  from s have "take ?n body = rest @ [delim]"
    by (auto simp: strip_suffix_def split: if_splits)
  with d append_take_drop_id [of ?n body] show "length key = 32 \<and> body = rest @ [delim] @ encode_hex32 key"
    by (simp add: decode_hex32_iff)
next
  assume a: "length key = 32 \<and> body = rest @ [delim] @ encode_hex32 key"
  let ?h = "encode_hex32 key"
  have h: "length ?h = 64" "list_all lower_hex ?h" using a by (simp_all add: encode_hex_chars)
  then obtain c cs where c: "?h = c # cs" "lower_hex c" by (cases ?h) auto
  then have "\<not> cont (of_char c)" by (auto simp: lower_hex_def cont_def Let_def)
  then have "is_char_boundary body (length rest + 1)" using a c by (simp add: is_char_boundary_def nth_append)
  then have "split_at body (length body - 64) = Returns (rest @ [delim], ?h)" using a h by (simp add: split_at_def)
  then show "peel delim body = Returns (Inr (rest, key))"
    using a h by (simp add: peel_def strip_suffix_def decode_encode)
qed

lemma split_once_iff: "split_once c s = Some (a, b) \<longleftrightarrow> s = a @ c # b \<and> c \<notin> set a"
proof
  assume r: "split_once c s = Some (a, b)"
  then have "c \<in> set s" by (simp add: split_once_def split: if_splits)
  then obtain x y where xy: "s = x @ c # y" "c \<notin> set x" by (auto dest: split_list_first)
  then have "takeWhile (\<lambda>z. z \<noteq> c) s = x" "dropWhile (\<lambda>z. z \<noteq> c) s = c # y"
    by (auto simp: takeWhile_append dropWhile_append)
  with r xy show "s = a @ c # b \<and> c \<notin> set a" by (simp add: split_once_def)
qed (auto simp: split_once_def takeWhile_append dropWhile_append)

section \<open>Accepted codes\<close>

definition code_ok :: "TrustCode \<Rightarrow> bool" where
  "code_ok c \<longleftrightarrow> display_name c \<noteq> [] \<and> length (display_name c) \<le> 128 \<and> CHR ''@'' \<notin> set (display_name c)
     \<and> list_all (\<lambda>u. \<not> control u) (chars (display_name c))
     \<and> (\<exists>d. parse_instance_domain (home_domain c) = Inr d)
     \<and> length (user_pubkey c) = 32 \<and> length (instance_pubkey c) = 32"

abbreviation mint_of :: "TrustCode \<Rightarrow> string" where
  "mint_of c \<equiv> mint (display_name c) (home_domain c) (user_pubkey c) (instance_pubkey c)"

lemma parse_head_iff:
  "parse_head h u i = Inr c \<longleftrightarrow> h = display_name c @ ''@'' @ home_domain c \<and> user_pubkey c = u \<and> instance_pubkey c = i
     \<and> display_name c \<noteq> [] \<and> length (display_name c) \<le> 128 \<and> CHR ''@'' \<notin> set (display_name c)
     \<and> list_all (\<lambda>u. \<not> control u) (chars (display_name c)) \<and> (\<exists>d. parse_instance_domain (home_domain c) = Inr d)"
proof (cases "split_once CHR ''@'' h")
  case None
  then have "CHR ''@'' \<notin> set h" by (simp add: split_once_def split: if_splits)
  then show ?thesis using None by (auto simp: parse_head_def)
next
  case (Some x)
  obtain n d where x: "x = (n, d)" by (cases x)
  from Some have nd: "h = n @ CHR ''@'' # d" "CHR ''@'' \<notin> set n" unfolding x split_once_iff by auto
  have "h = display_name c @ ''@'' @ home_domain c \<and> CHR ''@'' \<notin> set (display_name c) \<longleftrightarrow> display_name c = n \<and> home_domain c = d"
    using nd first_occurrence [of "display_name c" "CHR ''@''" "home_domain c" n d] by auto
  then show ?thesis
    using Some x by (cases c) (auto simp: parse_head_def MAX_DISPLAY_NAME_LEN_def list_ex_iff list_all_iff split: sum.splits)
qed

lemma parse_code_iff:
  "trust_code_parse input = Returns (Inr c) \<longleftrightarrow> trim input = mint_of c \<and> code_ok c"
proof
  assume p: "trust_code_parse input = Returns (Inr c)"
  let ?t = "trim input"
  have t: "take 7 ?t = PREFIX" using p by (simp add: trust_code_parse_def Let_def split: if_splits)
  then obtain rest inst head user where pl: "peel CHR ''@'' (drop 7 ?t) = Returns (Inr (rest, inst))"
    "peel CHR '':'' rest = Returns (Inr (head, user))" "parse_head head user inst = Inr c"
    using p by (auto simp: trust_code_parse_def Let_def split: outcome.splits sum.splits)
  then have "drop 7 ?t = display_name c @ ''@'' @ home_domain c @ '':'' @ encode_hex32 (user_pubkey c) @ ''@'' @ encode_hex32 (instance_pubkey c)"
    by (simp add: peel_iff parse_head_iff)
  with t have "?t = mint_of c" using append_take_drop_id [of 7 ?t] by (simp add: mint_def)
  with pl show "trim input = mint_of c \<and> code_ok c" by (auto simp: peel_iff parse_head_iff code_ok_def)
next
  assume a: "trim input = mint_of c \<and> code_ok c"
  define head where "head = display_name c @ ''@'' @ home_domain c"
  define rest where "rest = head @ '':'' @ encode_hex32 (user_pubkey c)"
  have k: "length (user_pubkey c) = 32" "length (instance_pubkey c) = 32" using a by (simp_all add: code_ok_def)
  have "drop 7 (trim input) = rest @ ''@'' @ encode_hex32 (instance_pubkey c)" "take 7 (trim input) = PREFIX"
    using a by (simp_all add: mint_def PREFIX_def rest_def head_def)
  moreover have "peel CHR ''@'' (rest @ ''@'' @ encode_hex32 (instance_pubkey c)) = Returns (Inr (rest, instance_pubkey c))"
    "peel CHR '':'' rest = Returns (Inr (head, user_pubkey c))" using k by (simp_all add: peel_iff rest_def)
  moreover have "parse_head head (user_pubkey c) (instance_pubkey c) = Inr c"
    using a unfolding parse_head_iff by (simp add: head_def code_ok_def)
  ultimately show "trust_code_parse input = Returns (Inr c)" by (simp add: trust_code_parse_def)
qed

section \<open>White space around a code\<close>

lemma of_chars_append: "of_chars (xs @ ys) = of_chars xs @ of_chars ys"
  by (simp add: of_chars_def)

lemma is_str_append: "is_str a \<Longrightarrow> is_str b \<Longrightarrow> is_str (a @ b)"
  and chars_append: "is_str a \<Longrightarrow> is_str b \<Longrightarrow> chars (a @ b) = chars a @ chars b"
proof -
  assume ab: "is_str a" "is_str b"
  have e: "a @ b = of_chars (chars a @ chars b)" using ab by (simp add: of_chars_append)
  have "list_all scalar (chars a @ chars b)" by (simp only: list_all_append chars_scalar)
  then show "is_str (a @ b)" "chars (a @ b) = chars a @ chars b" unfolding e by simp_all
qed

lemma trim_id:
  assumes "is_str s" "chars s \<noteq> []" "\<not> white_space (hd (chars s))" "\<not> white_space (last (chars s))"
  shows "trim s = s"
proof -
  have "dropWhile white_space (chars s) = chars s" using assms(2,3) by (cases "chars s") auto
  moreover have "dropWhile white_space (rev (chars s)) = rev (chars s)"
    using assms(2,4) by (cases "chars s" rule: rev_cases) auto
  ultimately show ?thesis using assms(1) by (simp add: trim_def)
qed

lemma ascii_list: "list_all domain_char s \<Longrightarrow> list_all (\<lambda>c. of_char c < (0x80 :: nat)) s"
  "list_all lower_hex s \<Longrightarrow> list_all (\<lambda>c. of_char c < (0x80 :: nat)) s"
  by (auto simp: list_all_iff domain_char_def ascii_alphanumeric_def lower_hex_def Let_def)

lemma mint_is_str:
  assumes "is_str (display_name c)" "code_ok c"
  shows "is_str (mint_of c)" "trim (mint_of c) = mint_of c"
proof -
  let ?mid = "''@'' @ home_domain c @ '':'' @ encode_hex32 (user_pubkey c) @ ''@'' @ encode_hex32 (instance_pubkey c)"
  obtain d where "parse_instance_domain (home_domain c) = Inr d" using assms(2) by (auto simp: code_ok_def)
  then have "list_all domain_char (home_domain c)" using parse_authority authority_chars by blast
  note ascii = ascii_list(1) [OF this] ascii_list(2) [OF encode_hex_chars(1)]
  have mid: "list_all (\<lambda>b. of_char b < (0x80 :: nat)) ?mid" using ascii by simp
  have pre: "list_all (\<lambda>b. of_char b < (0x80 :: nat)) PREFIX" by (simp add: PREFIX_def)
  note m = chars_ascii [OF mid] and p = chars_ascii [OF pre]
  have e: "mint_of c = PREFIX @ display_name c @ ?mid" by (simp add: mint_def)
  show str: "is_str (mint_of c)" unfolding e by (intro is_str_append assms(1) m p)
  have ch: "chars (mint_of c) = chars PREFIX @ chars (display_name c) @ chars ?mid"
    unfolding e by (simp only: chars_append is_str_append assms(1) m(2) p(2))
  have "encode_hex32 (instance_pubkey c) \<noteq> []"
    using encode_hex_chars(2) [of "instance_pubkey c"] assms(2) by (auto simp: code_ok_def)
  then obtain z x where z: "encode_hex32 (instance_pubkey c) = z @ [x]" by (cases "encode_hex32 (instance_pubkey c)" rule: rev_cases) auto
  then have "lower_hex x" using encode_hex_chars(1) [of "instance_pubkey c"] by simp
  then have "\<not> white_space (of_char x)" by (auto simp: lower_hex_def white_space_def Let_def)
  moreover have "last (chars ?mid) = of_char x" unfolding m(1) by (simp add: z)
  ultimately have "\<not> white_space (last (chars ?mid))" by simp
  moreover have "chars ?mid \<noteq> []" unfolding m(1) by simp
  moreover have "hd (chars PREFIX) = 58" "chars PREFIX \<noteq> []" unfolding p(1) by (simp_all add: PREFIX_def)
  ultimately show "trim (mint_of c) = mint_of c"
    by (intro trim_id str) (simp_all add: ch white_space_def)
qed

text \<open>The parser accepts exactly the minted codes, with white space around them: an accepted input is, once
  trimmed, the code that \<open>mint\<close> makes of the parsed fields, and every code minted from a name, a domain and two
  keys that satisfy the field rules is parsed back to those fields.\<close>

theorem parse_accepts_minted:
  "(trust_code_parse input = Returns (Inr c) \<longleftrightarrow> trim input = mint_of c \<and> code_ok c) \<and>
   (is_str (display_name c) \<and> code_ok c \<longrightarrow> trust_code_parse (mint_of c) = Returns (Inr c))"
  using parse_code_iff [of input c] parse_code_iff [of "mint_of c" c] mint_is_str [of c] by blast

definition sample_code :: TrustCode where
  "sample_code = \<lparr>display_name = ''alice'', home_domain = ''example.com:8443'',
     user_pubkey = replicate 32 0xab, instance_pubkey = replicate 32 0xcd\<rparr>"

theorem parse_accepts_minted_witness:
  "code_ok sample_code \<and> trust_code_parse (mint_of sample_code) = Returns (Inr sample_code)"
proof -
  have "ldh_hostname ''example.com''"
    unfolding ldh_hostname_def by (intro conjI exI [of _ "[''example'', ''com'']"]) (simp_all add: ascii_alphanumeric_def)
  moreover have "port_text ''8443'' 8443" by (simp add: port_text_def all_digits_def to_digit_def value_of_def)
  ultimately have "authority ''example.com:8443'' ''example.com'' (Some 8443)"
    unfolding authority_def by (intro exI [of _ "'':8443''"]) simp
  then have "parse_instance_domain ''example.com:8443'' = Inr \<lparr>host = ''example.com'', port = Some 8443\<rparr>"
    by (simp add: parse_authority)
  moreover have "chars ''alice'' = map of_char ''alice''" "is_str ''alice''" by (rule chars_ascii; simp)+
  ultimately have ok: "code_ok sample_code" "is_str (display_name sample_code)"
    by (simp_all add: code_ok_def sample_code_def control_def)
  then show ?thesis using parse_accepts_minted [of "[]" sample_code] by blast
qed

text \<open>The parser can panic on untrusted text: when the 64th byte from the end of the trimmed body lies inside
  a multi-byte character, \<open>split_at\<close> is called off a character boundary.\<close>

theorem parse_panics_inside_character:
  assumes "trim input = PREFIX @ body" "64 < length body" "cont (of_char (body ! (length body - 64)))"
  shows "trust_code_parse input = Panic"
proof -
  have "\<not> is_char_boundary body (length body - 64)" using assms(2,3) by (simp add: is_char_boundary_def)
  then have "peel CHR ''@'' body = Panic" using assms(2) by (simp add: peel_def split_at_def)
  then show ?thesis using assms(1) by (simp add: trust_code_parse_def PREFIX_def)
qed

text \<open>Thirty-two letters e with acute accent and one plain letter.\<close>

definition accented_text :: string where
  "accented_text = PREFIX @ of_chars (replicate 32 0xe9 @ [97])"

theorem parse_panics_inside_character_witness:
  "is_str accented_text \<and> trust_code_parse accented_text = Panic"
proof
  have b: "is_str (of_chars (replicate 32 0xe9 @ [97]))" "chars (of_chars (replicate 32 0xe9 @ [97])) = replicate 32 0xe9 @ [97]"
    by (simp_all add: scalar_def list_all_iff)
  have p: "chars PREFIX = map of_char PREFIX" "is_str PREFIX" by (rule chars_ascii; simp add: PREFIX_def)+
  show s: "is_str accented_text" unfolding accented_text_def by (intro is_str_append b p)
  have ch: "chars accented_text = map of_char PREFIX @ replicate 32 0xe9 @ [97]"
    unfolding accented_text_def by (simp only: chars_append b p)
  have t: "trim accented_text = accented_text" by (intro trim_id s) (simp_all add: ch white_space_def PREFIX_def)
  have e: "utf8_char 0xe9 = [0xc3, 0xa9]" by (simp add: utf8_char_def)
  have "length (utf8_enc (replicate k 0xe9)) = 2 * k" for k by (induction k) (simp_all add: e)
  then have n: "length (of_chars (replicate 32 0xe9 @ [97])) = 65" by (simp add: length_of_chars utf8_char_def)
  have "of_chars (0xe9 # cs) ! 1 = char_of (0xa9 :: nat)" for cs by (simp add: of_chars_def e)
  moreover have "replicate 32 0xe9 @ [97] = (0xe9 :: nat) # replicate 31 0xe9 @ [97]"
    using replicate_Suc [of 31 "0xe9 :: nat"] by simp
  ultimately have b1: "cont (of_char (of_chars (replicate 32 0xe9 @ [97]) ! 1))" by (simp only: of_char_of cont_def) simp
  show "trust_code_parse accented_text = Panic"
  proof (rule parse_panics_inside_character)
    show "trim accented_text = PREFIX @ of_chars (replicate 32 0xe9 @ [97])" unfolding t by (rule accented_text_def)
  qed (use n b1 in simp_all)
qed

end
