(* ===== verification/Routing.thy ===== *)
theory Routing
  imports Bloom_Filter
begin

text \<open>
  Per-peer routing of \<open>server/src/federation/routing.rs\<close>: the direction mode with its thresholds, the
  forwarding classes with the filter each one consults, the selection of the interested peers from the
  rows of the \<open>peers\<close>/\<open>peer_frontiers\<close> join, and the classification of a direction from the coverage of
  the peer's filter. SipHash and the narrowing of an \<open>f64\<close> to \<open>f32\<close> are parameters; the rows are an input.
\<close>

section \<open>Modes and classes\<close>

text \<open>\<open>Mode::All\<close> is \<open>AllMode\<close>.\<close>

datatype Mode = Filtered | AllMode

definition as_db_str :: "Mode \<Rightarrow> string" where
  "as_db_str md = (case md of Filtered \<Rightarrow> ''filtered'' | AllMode \<Rightarrow> ''all'')"

definition from_db_str :: "string \<Rightarrow> Mode" where
  "from_db_str s = (if s = ''all'' then AllMode else Filtered)"

definition REDUNDANCY_K :: nat where "REDUNDANCY_K = 2"
definition REDUNDANCY_K_MOVE :: nat where "REDUNDANCY_K_MOVE = 5"
definition HIGH_THRESHOLD :: real where "HIGH_THRESHOLD = 80 / 100"
definition LOW_THRESHOLD :: real where "LOW_THRESHOLD = 60 / 100"

datatype ForwardingClass = TrustEdgeFwd | Authored | UserStatusFwd | ThreadStatusFwd | MoveFwd

text \<open>\<open>None\<close> is the \<open>unreachable!\<close> panic.\<close>

definition admits :: "siphash \<Rightarrow> ForwardingClass \<Rightarrow> BloomFilter \<Rightarrow> BloomFilter \<Rightarrow> bytes \<Rightarrow> bool option" where
  "admits sip cls visible expansion key = (case cls of
     TrustEdgeFwd \<Rightarrow> Some (bloom_contains sip expansion key)
   | Authored \<Rightarrow> Some (bloom_contains sip visible key)
   | ThreadStatusFwd \<Rightarrow> Some (bloom_contains sip visible key)
   | UserStatusFwd \<Rightarrow> Some (bloom_contains sip visible key \<or> bloom_contains sip expansion key)
   | MoveFwd \<Rightarrow> None)"

definition bypasses_filters :: "ForwardingClass \<Rightarrow> bool" where
  "bypasses_filters cls \<longleftrightarrow> cls = MoveFwd"

definition redundancy_cap :: "ForwardingClass \<Rightarrow> nat" where
  "redundancy_cap cls = (case cls of MoveFwd \<Rightarrow> REDUNDANCY_K_MOVE | _ \<Rightarrow> REDUNDANCY_K)"

section \<open>Candidate selection\<close>

record PeerRouting =
  instance_pubkey :: bytes
  rt_mode :: Mode

text \<open>One half of a \<open>peer_frontiers\<close> row: the five columns of a filter, each \<open>NULL\<close> when the left join found
  no row. Integer columns are \<open>i64\<close>.\<close>

record filter_cols =
  fc_k :: "int option"
  fc_m :: "int option"
  fc_n_est :: "int option"
  fc_fpr :: "real option"
  fc_bytes :: "bytes option"

record routing_row =
  rr_pubkey :: bytes
  rr_visible :: filter_cols
  rr_expansion :: filter_cols
  rr_outbound_mode :: "string option"

text \<open>\<open>u32::try_from\<close> and \<open>u64::try_from\<close> on an \<open>i64\<close>.\<close>

definition try_uint :: "nat \<Rightarrow> int \<Rightarrow> nat option" where
  "try_uint w x = (if 0 \<le> x \<and> x < 2 ^ w then Some (nat x) else None)"

definition build_filter :: "(real \<Rightarrow> real) \<Rightarrow> filter_cols \<Rightarrow> BloomFilter option" where
  "build_filter as_f32 c =
     Option.bind (fc_k c) (\<lambda>k.
     Option.bind (fc_m c) (\<lambda>m.
     Option.bind (fc_n_est c) (\<lambda>n.
     Option.bind (fc_fpr c) (\<lambda>fpr.
     Option.bind (fc_bytes c) (\<lambda>bs.
     Option.bind (try_uint 32 k) (\<lambda>k_u.
     Option.bind (try_uint 32 m) (\<lambda>m_u.
     Option.bind (try_uint 64 n) (\<lambda>n_u.
     case from_parts k_u m_u n_u (as_f32 fpr) bs of Inr f \<Rightarrow> Some f | Inl _ \<Rightarrow> None))))))))"

definition row_mode :: "routing_row \<Rightarrow> Mode" where
  "row_mode row = (case map_option from_db_str (rr_outbound_mode row) of Some md \<Rightarrow> md | None \<Rightarrow> Filtered)"

text \<open>One round of the loop: the candidate of a row, if any; the outer \<open>None\<close> is the panic of \<open>admits\<close>.\<close>

definition row_candidate ::
  "siphash \<Rightarrow> (real \<Rightarrow> real) \<Rightarrow> ForwardingClass \<Rightarrow> bytes \<Rightarrow> routing_row \<Rightarrow> PeerRouting option option" where
  "row_candidate sip as_f32 cls key row =
     (let cand = \<lparr>instance_pubkey = rr_pubkey row, rt_mode = row_mode row\<rparr> in
      if length (rr_pubkey row) \<noteq> 32 then Some None
      else if bypasses_filters cls then Some (Some cand)
      else case build_filter as_f32 (rr_visible row) of
        None \<Rightarrow> Some None
      | Some visible \<Rightarrow> (case build_filter as_f32 (rr_expansion row) of
          None \<Rightarrow> Some None
        | Some expansion \<Rightarrow>
            map_option (\<lambda>admitted. if admitted then Some cand else None)
              (case row_mode row of AllMode \<Rightarrow> Some True | Filtered \<Rightarrow> admits sip cls visible expansion key)))"

fun candidates_loop ::
  "siphash \<Rightarrow> (real \<Rightarrow> real) \<Rightarrow> ForwardingClass \<Rightarrow> bytes \<Rightarrow> routing_row list \<Rightarrow> PeerRouting list option" where
  "candidates_loop sip as_f32 cls key [] = Some []"
| "candidates_loop sip as_f32 cls key (row # rows) =
     Option.bind (row_candidate sip as_f32 cls key row) (\<lambda>c.
     map_option (\<lambda>out. (case c of Some p \<Rightarrow> p # out | None \<Rightarrow> out))
       (candidates_loop sip as_f32 cls key rows))"

datatype routing_fault = RoutingDb | RoutingPanic

text \<open>\<open>rows\<close> is the answer of the query; \<open>None\<close> is a database error.\<close>

definition peers_interested_in ::
  "siphash \<Rightarrow> (real \<Rightarrow> real) \<Rightarrow> routing_row list option \<Rightarrow> ForwardingClass \<Rightarrow> bytes \<Rightarrow> routing_fault + PeerRouting list" where
  "peers_interested_in sip as_f32 rows cls key =
     andthen (ok_or rows RoutingDb) (\<lambda>rs. ok_or (candidates_loop sip as_f32 cls key rs) RoutingPanic)"

section \<open>Classification\<close>

definition classify_mode :: "siphash \<Rightarrow> Mode \<Rightarrow> BloomFilter \<Rightarrow> bytes list \<Rightarrow> Mode" where
  "classify_mode sip current_mode peer_visible_filter local_user_keys =
     (if local_user_keys = [] then current_mode
      else let cov = coverage sip peer_visible_filter local_user_keys in
        case current_mode of
          Filtered \<Rightarrow> if cov \<ge> HIGH_THRESHOLD then AllMode else current_mode
        | AllMode \<Rightarrow> if cov < LOW_THRESHOLD then Filtered else current_mode)"

section \<open>The selection never panics and is exact\<close>

lemma db_str_roundtrip [simp]: "from_db_str (as_db_str md) = md"
  by (cases md) (simp_all add: from_db_str_def as_db_str_def)

text \<open>What makes a row a candidate.\<close>

definition row_selected :: "siphash \<Rightarrow> (real \<Rightarrow> real) \<Rightarrow> ForwardingClass \<Rightarrow> bytes \<Rightarrow> routing_row \<Rightarrow> bool" where
  "row_selected sip as_f32 cls key row \<longleftrightarrow> length (rr_pubkey row) = 32 \<and>
     (cls = MoveFwd \<or>
      (\<exists>v e. build_filter as_f32 (rr_visible row) = Some v \<and> build_filter as_f32 (rr_expansion row) = Some e \<and>
         (row_mode row = AllMode \<or>
          cls = TrustEdgeFwd \<and> bloom_contains sip e key \<or>
          cls \<in> {Authored, ThreadStatusFwd, UserStatusFwd} \<and> bloom_contains sip v key \<or>
          cls = UserStatusFwd \<and> bloom_contains sip e key)))"

definition row_target :: "routing_row \<Rightarrow> PeerRouting" where
  "row_target row = \<lparr>instance_pubkey = rr_pubkey row, rt_mode = row_mode row\<rparr>"

lemma row_candidate_eq:
  "row_candidate sip as_f32 cls key row = Some (if row_selected sip as_f32 cls key row then Some (row_target row) else None)"
  by (cases cls; cases "row_mode row")
    (auto simp: row_candidate_def row_selected_def row_target_def bypasses_filters_def admits_def Let_def split: option.splits)

lemma candidates_eq:
  "candidates_loop sip as_f32 cls key rows = Some (map row_target (filter (row_selected sip as_f32 cls key) rows))"
  by (induction rows) (simp_all add: row_candidate_eq)

lemma interested_eq:
  "peers_interested_in sip as_f32 (Some rows) cls key =
     Inr (map row_target (filter (row_selected sip as_f32 cls key) rows))"
  by (simp add: peers_interested_in_def candidates_eq)

lemma interested_Inr:
  "peers_interested_in sip as_f32 rows cls key = Inr ps \<longleftrightarrow>
     (\<exists>rs. rows = Some rs \<and> ps = map row_target (filter (row_selected sip as_f32 cls key) rs))"
  by (cases rows) (auto simp: candidates_eq peers_interested_in_def)

text \<open>C1. The candidates are exactly the rows of the query, in its order, that have a 32-byte key and either
  carry a move, or have two valid filters and are in all-mode or have the key in the filter that the
  class consults; the selection never reaches the panic of \<open>admits\<close>, and a database error is passed on.\<close>

theorem candidates_exact:
  "peers_interested_in sip as_f32 rows cls key =
     (case rows of None \<Rightarrow> Inl RoutingDb
      | Some rs \<Rightarrow> Inr (map row_target (filter (row_selected sip as_f32 cls key) rs)))"
  by (cases rows) (simp_all add: candidates_eq peers_interested_in_def)

section \<open>An announced key is never filtered out\<close>

text \<open>The columns that a stored filter occupies.\<close>

definition store_filter :: "BloomFilter \<Rightarrow> filter_cols" where
  "store_filter f = \<lparr>fc_k = Some (int (bf_k f)), fc_m = Some (int (bf_m f)), fc_n_est = Some (int (bf_n_est f)),
     fc_fpr = Some (bf_fpr_target f), fc_bytes = Some (bf_bits f)\<rparr>"

definition storable :: "BloomFilter \<Rightarrow> bool" where
  "storable f \<longleftrightarrow> bloom_wf f \<and> bf_n_est f < 2 ^ 63"

lemma try_uint_int: "n < 2 ^ w \<Longrightarrow> try_uint w (int n) = Some n"
  by (simp add: try_uint_def)

lemma build_stored:
  assumes "storable f"
  shows "build_filter as_f32 (store_filter f) = Some (f\<lparr>bf_fpr_target := as_f32 (bf_fpr_target f)\<rparr>)"
proof -
  have b: "bf_k f < 2 ^ 32" "bf_m f < 2 ^ 32" "bf_n_est f < 2 ^ 64"
    using assms by (auto simp: storable_def bloom_wf_def MAX_K_def MAX_M_BITS_def)
  have "from_parts (bf_k f) (bf_m f) (bf_n_est f) x (bf_bits f) = Inr (f\<lparr>bf_fpr_target := x\<rparr>)" for x
    using assms by (simp add: from_parts_def check_params_def storable_def bloom_wf_def)
  with b show ?thesis by (simp add: build_filter_def store_filter_def try_uint_int)
qed

lemma contains_fpr [simp]: "bloom_contains sip (f\<lparr>bf_fpr_target := x\<rparr>) key = bloom_contains sip f key"
  by (simp add: bloom_contains_def)

lemma insert_all_contains:
  "bloom_wf f \<Longrightarrow> key \<in> set keys \<Longrightarrow> bloom_contains sip (insert_all sip keys f) key"
  using insert_all_spec [of f sip keys] contains_spec [of "insert_all sip keys f" sip key] by auto

lemma insert_all_n_est: "bf_n_est (insert_all sip keys f) = bf_n_est f"
  unfolding insert_all_def by (induction keys arbitrary: f) (simp_all add: bloom_insert_def)

lemma insert_all_storable: "storable f \<Longrightarrow> storable (insert_all sip keys f)"
  using insert_all_spec(2) [of f sip keys] by (simp add: storable_def insert_all_n_est)

text \<open>Which of the two announced key sets makes a peer interested in an object of a class.\<close>

definition wants :: "ForwardingClass \<Rightarrow> bytes list \<Rightarrow> bytes list \<Rightarrow> bytes \<Rightarrow> bool" where
  "wants cls vis expa key = (case cls of
     TrustEdgeFwd \<Rightarrow> key \<in> set expa
   | UserStatusFwd \<Rightarrow> key \<in> set vis \<or> key \<in> set expa
   | MoveFwd \<Rightarrow> True
   | _ \<Rightarrow> key \<in> set vis)"

lemma row_selected_wants:
  assumes "storable v" "storable e" "length (rr_pubkey row) = 32"
    and "rr_visible row = store_filter (insert_all sip vis v)" "rr_expansion row = store_filter (insert_all sip expa e)"
    and "wants cls vis expa key"
  shows "row_selected sip as_f32 cls key row"
proof -
  have "bloom_wf v" "bloom_wf e" using assms(1,2) by (simp_all add: storable_def)
  with assms show ?thesis
    by (cases cls) (auto simp: row_selected_def build_stored insert_all_storable wants_def insert_all_contains)
qed

text \<open>No interested peer is missed: if a peer's stored frontier is the pair of filters it built by
  inserting its two key sets, then every object whose key is in the set that its class consults has that
  peer among its candidates, whatever the mode of the direction and the hash function.\<close>

theorem announced_key_routed:
  assumes "row \<in> set rows" "length (rr_pubkey row) = 32" "storable v" "storable e"
    and "rr_visible row = store_filter (insert_all sip vis v)" "rr_expansion row = store_filter (insert_all sip expa e)"
    and "wants cls vis expa key"
  shows "\<exists>ps. peers_interested_in sip as_f32 (Some rows) cls key = Inr ps \<and> row_target row \<in> set ps"
  using row_selected_wants [of v e row sip vis expa cls key as_f32] assms by (auto simp: interested_eq)

definition demo_row :: routing_row where
  "demo_row = \<lparr>rr_pubkey = replicate 32 7, rr_visible = store_filter (insert_all byte_sum_hash [[1]] small_filter),
     rr_expansion = store_filter (insert_all byte_sum_hash [] small_filter), rr_outbound_mode = None\<rparr>"

lemma small_storable: "storable small_filter"
  by (simp add: storable_def bloom_wf_def small_filter_def MIN_K_def MAX_K_def MIN_M_BITS_def MAX_M_BITS_def)

theorem announced_key_routed_witness:
  "\<exists>ps. peers_interested_in byte_sum_hash (\<lambda>x. x) (Some [demo_row]) Authored [1] = Inr ps \<and> row_target demo_row \<in> set ps"
  by (rule announced_key_routed [OF _ _ small_storable small_storable, of demo_row _ _ "[[1]]" "[]"])
    (simp_all add: demo_row_def wants_def)

section \<open>Hysteresis\<close>

text \<open>A direction classified again at each frontier refresh: the number of mode changes over the measurements
  and the total variation of the measured coverage.\<close>

type_synonym measurement = "BloomFilter \<times> bytes list"

fun mode_changes :: "siphash \<Rightarrow> Mode \<Rightarrow> measurement list \<Rightarrow> nat" where
  "mode_changes sip md [] = 0"
| "mode_changes sip md ((f, keys) # ms) =
     (let md' = classify_mode sip md f keys in (if md' = md then 0 else 1) + mode_changes sip md' ms)"

definition coverages :: "siphash \<Rightarrow> measurement list \<Rightarrow> real list" where
  "coverages sip ms = map (\<lambda>(f, keys). coverage sip f keys) (filter (\<lambda>(f, keys). keys \<noteq> []) ms)"

fun variation :: "real list \<Rightarrow> real" where
  "variation (x # y # ys) = \<bar>y - x\<bar> + variation (y # ys)"
| "variation _ = 0"

text \<open>How far the last coverage has already gone towards the next change.\<close>

definition run_up :: "Mode \<Rightarrow> real \<Rightarrow> real" where
  "run_up md c = (case md of
     Filtered \<Rightarrow> max 0 (min (1/5) (c - LOW_THRESHOLD)) | AllMode \<Rightarrow> max 0 (min (1/5) (HIGH_THRESHOLD - c)))"

lemma run_up_step:
  assumes "classify_mode sip md f keys = md'" "keys \<noteq> []"
  shows "(if md' = md then 0 else 1/5) + run_up md' (coverage sip f keys) \<le> \<bar>coverage sip f keys - c\<bar> + run_up md c"
  using assms by (cases md) (auto simp: classify_mode_def run_up_def HIGH_THRESHOLD_def LOW_THRESHOLD_def Let_def
      abs_if max_def min_def split: if_splits)

lemma changes_variation:
  "real (mode_changes sip md ms) / 5 \<le> variation (c # coverages sip ms) + run_up md c"
proof (induction ms arbitrary: md c)
  case Nil
  show ?case by (cases md) (simp_all add: coverages_def run_up_def)
next
  case (Cons m ms)
  obtain f keys where m: "m = (f, keys)" by (cases m)
  show ?case
  proof (cases "keys = []")
    case True
    then show ?thesis using Cons.IH [of md c] by (simp add: m coverages_def classify_mode_def)
  next
    case False
    define md' where "md' = classify_mode sip md f keys"
    from Cons.IH [of md' "coverage sip f keys"] run_up_step [of sip md f keys md' c] False
    show ?thesis by (simp add: m coverages_def md'_def [symmetric] Let_def add_divide_distrib split: if_splits)
  qed
qed

lemma changes_bound: "real (mode_changes sip md ms) \<le> 1 + 5 * variation (coverages sip ms)"
proof (cases "coverages sip ms")
  case Nil
  with changes_variation [of sip md ms 0] show ?thesis
    by (cases md) (simp_all add: run_up_def HIGH_THRESHOLD_def LOW_THRESHOLD_def)
next
  case (Cons c cs)
  have "run_up md c \<le> 1/5" by (cases md) (auto simp: run_up_def max_def min_def)
  with changes_variation [of sip md ms c] Cons show ?thesis by simp
qed

text \<open>No flapping: over any sequence of refreshes, of whatever filters and user sets, a direction changes
  its mode at most once plus once for every twenty points that the measured coverage moves; refreshes
  without local users are no measurement and do not count.\<close>

theorem mode_changes_bounded: "real (mode_changes sip md ms) \<le> 1 + 5 * variation (coverages sip ms)"
  by (rule changes_bound)

end
