(* ===== verification/Forwarder.thy ===== *)
theory Forwarder
  imports Routing Outbound_Worker
begin

text \<open>
  The gossip forwarder of \<open>server/src/federation/forwarder.rs\<close> with the age-ceiling check of
  \<open>frontier_store.rs\<close> it calls: the bitset of peers an object was sent to, the peer index, the cache of
  forwarding entries, and the fan-out. An entry is shared through an \<open>Arc\<close>, so the entries live in a store
  and the cache holds addresses. The eviction of \<open>quick_cache\<close> is a parameter; a fan-out interleaves with
  others between its lookup, its insertion and its pick.
\<close>

section \<open>Constants and routes\<close>

definition T_PROPAGATE_MAX :: nat where "T_PROPAGATE_MAX = 3600"

definition route_and_body_key :: "ForwardingClass \<Rightarrow> string \<times> string" where
  "route_and_body_key cls = (case cls of
     TrustEdgeFwd \<Rightarrow> (''/federation/v1/edges'', ''edges'')
   | Authored \<Rightarrow> (''/federation/v1/content'', ''objects'')
   | UserStatusFwd \<Rightarrow> (''/federation/v1/user-status'', ''objects'')
   | ThreadStatusFwd \<Rightarrow> (''/federation/v1/thread-status'', ''objects'')
   | MoveFwd \<Rightarrow> (''/federation/v1/moves'', ''moves''))"

section \<open>Bitset\<close>

text \<open>\<open>BitSet\<close> is its vector of chunks.\<close>

type_synonym BitSet = "u64 list"

definition bs_contains :: "BitSet \<Rightarrow> nat \<Rightarrow> bool" where
  "bs_contains chunks b =
     (let i = b div 64; m = b mod 64 in i < length chunks \<and> drop_bit m (chunks ! i) AND 1 = 1)"

definition bs_set :: "nat \<Rightarrow> BitSet \<Rightarrow> BitSet" where
  "bs_set b chunks =
     (let i = b div 64; m = b mod 64;
          cs = (if i \<ge> length chunks then chunks @ replicate (i + 1 - length chunks) 0 else chunks)
      in cs[i := (cs ! i) OR push_bit m 1])"

text \<open>\<open>count_ones\<close>, and the sum of the \<open>u32\<close> counts.\<close>

definition count_ones :: "u64 \<Rightarrow> nat" where
  "count_ones c = length (filter (bit c) [0..<64])"

definition bs_popcount :: "BitSet \<Rightarrow> nat" where
  "bs_popcount chunks = (\<Sum>c\<leftarrow>chunks. count_ones c) mod 2 ^ 32"

section \<open>Peer index\<close>

record PeerIndex =
  by_pubkey :: "bytes \<rightharpoonup> nat"
  next_index :: nat

definition peer_index_default :: PeerIndex where
  "peer_index_default = \<lparr>by_pubkey = Map.empty, next_index = 0\<rparr>"

definition index_for :: "bytes \<Rightarrow> PeerIndex \<Rightarrow> nat \<times> PeerIndex" where
  "index_for pk ix = (case by_pubkey ix pk of
     Some i \<Rightarrow> (i, ix)
   | None \<Rightarrow> (next_index ix, \<lparr>by_pubkey = (by_pubkey ix)(pk \<mapsto> next_index ix), next_index = next_index ix + 1\<rparr>))"

section \<open>The cache of forwarding entries\<close>

record ForwardingEntry =
  forwarded_to :: BitSet
  entry_created_at :: nat

record ForwardingLru =
  lru_cache :: "bytes \<rightharpoonup> nat"
  lru_entries :: "ForwardingEntry list"
  peer_index :: PeerIndex

definition forwarding_lru_new :: ForwardingLru where
  "forwarding_lru_new = \<lparr>lru_cache = Map.empty, lru_entries = [], peer_index = peer_index_default\<rparr>"

text \<open>The two halves of \<open>get_or_init_entry\<close>. Time is in seconds; \<open>evict\<close> is what the cache drops when it inserts.\<close>

definition lookup_entry :: "nat \<Rightarrow> bytes \<Rightarrow> ForwardingLru \<Rightarrow> nat option" where
  "lookup_entry now hash lru = (case lru_cache lru hash of
     Some a \<Rightarrow> if now - entry_created_at (lru_entries lru ! a) < T_PROPAGATE_MAX then Some a else None
   | None \<Rightarrow> None)"

definition insert_entry ::
  "((bytes \<rightharpoonup> nat) \<Rightarrow> (bytes \<rightharpoonup> nat)) \<Rightarrow> nat \<Rightarrow> bytes \<Rightarrow> ForwardingLru \<Rightarrow> nat \<times> ForwardingLru" where
  "insert_entry evict now hash lru =
     (let a = length (lru_entries lru)
      in (a, lru\<lparr>lru_cache := evict ((lru_cache lru)(hash \<mapsto> a)),
                 lru_entries := lru_entries lru @ [\<lparr>forwarded_to = [], entry_created_at = now\<rparr>]\<rparr>))"

definition get_or_init_entry ::
  "((bytes \<rightharpoonup> nat) \<Rightarrow> (bytes \<rightharpoonup> nat)) \<Rightarrow> nat \<Rightarrow> bytes \<Rightarrow> ForwardingLru \<Rightarrow> nat \<times> ForwardingLru" where
  "get_or_init_entry evict now hash lru = (case lookup_entry now hash lru of
     Some a \<Rightarrow> (a, lru) | None \<Rightarrow> insert_entry evict now hash lru)"

section \<open>Fan-out\<close>

definition ceiling_admits :: "int \<Rightarrow> int option \<Rightarrow> bool" where
  "ceiling_admits cutoff source_genesis_at = (case source_genesis_at of
     Some genesis_at \<Rightarrow> genesis_at \<le> cutoff | None \<Rightarrow> True)"

text \<open>The two reads of the store answer \<open>Some\<close> row or fail with \<open>None\<close>.\<close>

definition peer_ceiling_admits_source ::
  "(bytes \<Rightarrow> bytes \<Rightarrow> int option option) \<Rightarrow> (bytes \<Rightarrow> int option option) \<Rightarrow> bytes \<Rightarrow> bytes \<Rightarrow> bytes \<Rightarrow> bool option" where
  "peer_ceiling_admits_source load_peer_age_ceiling load_genesis_at peer rt_key src_key =
     Option.bind (load_peer_age_ceiling peer rt_key) (\<lambda>c. case c of
       None \<Rightarrow> Some True
     | Some cutoff \<Rightarrow> map_option (ceiling_admits cutoff) (load_genesis_at src_key))"

text \<open>Source-side shedding; a failed check forwards.\<close>

definition shed_candidates ::
  "(bytes \<Rightarrow> bytes \<Rightarrow> bytes \<Rightarrow> bool option) \<Rightarrow> (bytes \<times> bytes) option \<Rightarrow> PeerRouting list \<Rightarrow> PeerRouting list" where
  "shed_candidates admits_source ceil cands = (case ceil of
     None \<Rightarrow> cands
   | Some (rt_key, src_key) \<Rightarrow>
       filter (\<lambda>p. case admits_source (instance_pubkey p) rt_key src_key of Some b \<Rightarrow> b | None \<Rightarrow> True) cands)"

text \<open>The loop under the lock of the entry's bitset.\<close>

fun pick_loop :: "nat \<Rightarrow> bytes option \<Rightarrow> PeerRouting list \<Rightarrow> BitSet \<Rightarrow> PeerIndex \<Rightarrow> bytes list \<times> BitSet \<times> PeerIndex" where
  "pick_loop cap arrived_from [] bs ix = ([], bs, ix)"
| "pick_loop cap arrived_from (p # ps) bs ix =
     (if Some (instance_pubkey p) = arrived_from then pick_loop cap arrived_from ps bs ix
      else let (i, ix') = index_for (instance_pubkey p) ix
           in if bs_contains bs i then pick_loop cap arrived_from ps bs ix'
              else if bs_popcount bs \<ge> cap then ([], bs, ix')
              else let (picks, bs', ix'') = pick_loop cap arrived_from ps (bs_set i bs) ix'
                   in (instance_pubkey p # picks, bs', ix''))"

definition pick :: "nat \<Rightarrow> bytes option \<Rightarrow> PeerRouting list \<Rightarrow> nat \<Rightarrow> ForwardingLru \<Rightarrow> bytes list \<times> ForwardingLru" where
  "pick cap arrived_from cands a lru =
     (let e = lru_entries lru ! a;
          (picks, bs, ix) = pick_loop cap arrived_from cands (forwarded_to e) (peer_index lru)
      in (picks, lru\<lparr>lru_entries := (lru_entries lru)[a := e\<lparr>forwarded_to := bs\<rparr>], peer_index := ix\<rparr>))"

record fan_out =
  fo_hash :: bytes
  fo_class :: ForwardingClass
  fo_key :: bytes
  fo_wire :: bytes
  fo_from :: "bytes option"
  fo_ceiling :: "(bytes \<times> bytes) option"

text \<open>The calls of \<open>OutboundQueues::enqueue\<close> that a fan-out makes: peer, path, body key, bytes.\<close>

type_synonym enqueue_call = "bytes \<times> string \<times> string \<times> bytes"

definition enqueue_calls :: "fan_out \<Rightarrow> bytes list \<Rightarrow> enqueue_call list" where
  "enqueue_calls fo to_send =
     (let (path, key) = route_and_body_key (fo_class fo) in map (\<lambda>pk. (pk, path, key, fo_wire fo)) to_send)"

definition forward_inner ::
  "siphash \<Rightarrow> (real \<Rightarrow> real) \<Rightarrow> routing_row list option \<Rightarrow> (bytes \<Rightarrow> bytes \<Rightarrow> bytes \<Rightarrow> bool option)
   \<Rightarrow> ((bytes \<rightharpoonup> nat) \<Rightarrow> (bytes \<rightharpoonup> nat)) \<Rightarrow> nat \<Rightarrow> fan_out \<Rightarrow> ForwardingLru
   \<Rightarrow> routing_fault + enqueue_call list \<times> ForwardingLru" where
  "forward_inner sip as_f32 rows admits_source evict now fo lru =
     andthen (peers_interested_in sip as_f32 rows (fo_class fo) (fo_key fo)) (\<lambda>found.
     let cands = shed_candidates admits_source (fo_ceiling fo) found in
     if cands = [] then Inr ([], lru)
     else let (a, lru1) = get_or_init_entry evict now (fo_hash fo) lru;
              (to_send, lru2) = pick (redundancy_cap (fo_class fo)) (fo_from fo) cands a lru1
          in Inr (enqueue_calls fo to_send, lru2))"

text \<open>The two entry points. A fault is logged and nothing is sent.\<close>

definition forward_signed_object ::
  "siphash \<Rightarrow> (real \<Rightarrow> real) \<Rightarrow> routing_row list option \<Rightarrow> ((bytes \<rightharpoonup> nat) \<Rightarrow> (bytes \<rightharpoonup> nat)) \<Rightarrow> nat
   \<Rightarrow> bytes \<Rightarrow> ForwardingClass \<Rightarrow> bytes \<Rightarrow> bytes \<Rightarrow> bytes option \<Rightarrow> ForwardingLru
   \<Rightarrow> routing_fault + enqueue_call list \<times> ForwardingLru" where
  "forward_signed_object sip as_f32 rows evict now canonical_hash cls routing_key wire arrived_from lru =
     forward_inner sip as_f32 rows (\<lambda>_ _ _. None) evict now
       \<lparr>fo_hash = canonical_hash, fo_class = cls, fo_key = routing_key, fo_wire = wire, fo_from = arrived_from,
        fo_ceiling = None\<rparr> lru"

definition forward_trust_edge ::
  "siphash \<Rightarrow> (real \<Rightarrow> real) \<Rightarrow> routing_row list option \<Rightarrow> (bytes \<Rightarrow> bytes \<Rightarrow> bytes \<Rightarrow> bool option)
   \<Rightarrow> ((bytes \<rightharpoonup> nat) \<Rightarrow> (bytes \<rightharpoonup> nat)) \<Rightarrow> nat \<Rightarrow> bytes \<Rightarrow> bytes \<Rightarrow> bytes \<Rightarrow> bytes \<Rightarrow> bytes option \<Rightarrow> ForwardingLru
   \<Rightarrow> routing_fault + enqueue_call list \<times> ForwardingLru" where
  "forward_trust_edge sip as_f32 rows admits_source evict now canonical_hash from_key to_key wire arrived_from lru =
     forward_inner sip as_f32 rows admits_source evict now
       \<lparr>fo_hash = canonical_hash, fo_class = TrustEdgeFwd, fo_key = to_key, fo_wire = wire, fo_from = arrived_from,
        fo_ceiling = Some (to_key, from_key)\<rparr> lru"

text \<open>The last loop hands every call to the outbound queues; the list collects the peers whose drain worker has to
  be started. \<open>None\<close> is a panic of \<open>enqueue\<close>.\<close>

fun queue_all ::
  "OutboundQueueConfig \<Rightarrow> ((peer_pk \<times> PeerQueue) list \<Rightarrow> (peer_pk \<times> PeerQueue) list) \<Rightarrow> nat \<Rightarrow> enqueue_call list
   \<Rightarrow> OutboundQueuesState \<Rightarrow> (OutboundQueuesState \<times> peer_pk list) option" where
  "queue_all cfg iter now [] qs = Some (qs, [])"
| "queue_all cfg iter now ((pk, path, key, w) # calls) qs = (case enqueue cfg iter now pk path key w qs of
     Enqueued qs' spawn \<Rightarrow> map_option (apsnd (\<lambda>ws. if spawn then pk # ws else ws)) (queue_all cfg iter now calls (notify_one pk qs'))
   | Discarded qs' \<Rightarrow> queue_all cfg iter now calls qs'
   | EnqueuePanic \<Rightarrow> None)"

section \<open>Sets of indices\<close>

text \<open>What the pick relies on: a set of indices with membership, insertion and size.\<close>

locale index_set =
  fixes emp :: 's
    and mem :: "'s \<Rightarrow> nat \<Rightarrow> bool"
    and add :: "nat \<Rightarrow> 's \<Rightarrow> 's"
    and size_of :: "'s \<Rightarrow> nat"
    and wf :: "'s \<Rightarrow> bool"
  assumes emp: "wf emp" "\<not> mem emp b"
    and add: "wf s \<Longrightarrow> mem (add b s) c \<longleftrightarrow> c = b \<or> mem s c"
    and add_wf: "wf s \<Longrightarrow> wf (add b s)"
    and finite_mem: "wf s \<Longrightarrow> finite {b. mem s b}"
    and size_of: "wf s \<Longrightarrow> card {b. mem s b} < 2 ^ 32 \<Longrightarrow> size_of s = card {b. mem s b}"
begin

definition elems :: "'s \<Rightarrow> nat set" where
  "elems s = {b. mem s b}"

lemma elems_emp [simp]: "elems emp = {}"
  using emp by (simp add: elems_def)

lemma elems_add [simp]: "wf s \<Longrightarrow> elems (add b s) = insert b (elems s)"
  by (auto simp: elems_def add)

lemma finite_elems: "wf s \<Longrightarrow> finite (elems s)"
  by (simp add: elems_def finite_mem)

lemma mem_elems: "mem s b \<longleftrightarrow> b \<in> elems s"
  by (simp add: elems_def)

lemma size_elems: "wf s \<Longrightarrow> card (elems s) < 2 ^ 32 \<Longrightarrow> size_of s = card (elems s)"
  by (simp add: elems_def size_of)

text \<open>A bounded set stays bounded under a guarded insertion.\<close>

lemma guarded_add:
  assumes "wf s" "card (elems s) \<le> cap" "cap < 2 ^ 32" "\<not> mem s b"
  shows "size_of s < cap \<longleftrightarrow> card (elems s) < cap"
    and "size_of s < cap \<Longrightarrow> card (elems (add b s)) \<le> cap"
  using assms size_elems [of s] finite_elems [of s] by (auto simp: mem_elems)

end

lemma bs_contains_bit: "bs_contains cs b \<longleftrightarrow> b div 64 < length cs \<and> bit (cs ! (b div 64)) (b mod 64)"
  by (simp add: bs_contains_def Let_def bit_iff_odd_drop_bit and_one_eq odd_iff_mod_2_eq_one)

lemma bs_contains_Cons: "bs_contains (c # cs) b \<longleftrightarrow> (if b < 64 then bit c b else bs_contains cs (b - 64))"
proof (cases "b < 64")
  case False
  then obtain d where "b = d + 64" by (metis le_iff_add not_less add.commute)
  then show ?thesis by (simp add: bs_contains_bit)
qed (simp add: bs_contains_bit)

lemma bs_contains_append_zero [simp]: "bs_contains (cs @ replicate n 0) b = bs_contains cs b"
  by (auto simp: bs_contains_bit nth_append)

lemma bs_contains_update:
  assumes "b div 64 < length cs"
  shows "bs_contains (cs[b div 64 := (cs ! (b div 64)) OR push_bit (b mod 64) 1]) c \<longleftrightarrow> c = b \<or> bs_contains cs c"
proof -
  have "bit (push_bit (b mod 64) (1 :: u64)) (c mod 64) \<longleftrightarrow> c mod 64 = b mod 64"
    by (auto simp: bit_exp_iff)
  moreover have "c div 64 = b div 64 \<and> c mod 64 = b mod 64 \<longleftrightarrow> c = b" by (metis div_mult_mod_eq)
  ultimately show ?thesis
    using assms by (cases "c div 64 = b div 64") (auto simp: bs_contains_bit bit_or_iff)
qed

lemma bs_contains_set: "bs_contains (bs_set b cs) c \<longleftrightarrow> c = b \<or> bs_contains cs c"
proof -
  define cs' where "cs' = (if b div 64 \<ge> length cs then cs @ replicate (b div 64 + 1 - length cs) 0 else cs)"
  have "b div 64 < length cs'" "bs_contains cs' c = bs_contains cs c" by (simp_all add: cs'_def)
  with bs_contains_update [of b cs' c] show ?thesis by (simp add: bs_set_def Let_def cs'_def [symmetric])
qed

lemma count_ones_card: "count_ones c = card {b. b < 64 \<and> bit c b}"
proof -
  have "{i. i < length [0..<64::nat] \<and> bit c ([0..<64] ! i)} = {b. b < 64 \<and> bit c b}" by auto
  then show ?thesis by (simp only: count_ones_def length_filter_conv_card)
qed

lemma bs_finite: "finite {b. bs_contains cs b}"
proof (rule finite_subset)
  show "{b. bs_contains cs b} \<subseteq> {..<64 * length cs}" by (auto simp: bs_contains_bit)
qed simp

lemma bs_card: "card {b. bs_contains cs b} = (\<Sum>c\<leftarrow>cs. count_ones c)"
proof (induction cs)
  case Nil
  show ?case by (simp add: bs_contains_def Let_def)
next
  case (Cons c cs)
  have "{b. bs_contains (c # cs) b} = {b. b < 64 \<and> bit c b} \<union> (\<lambda>b. b + 64) ` {b. bs_contains cs b}"
  proof (intro set_eqI)
    fix b
    show "b \<in> {b. bs_contains (c # cs) b} \<longleftrightarrow> b \<in> {b. b < 64 \<and> bit c b} \<union> (\<lambda>b. b + 64) ` {b. bs_contains cs b}"
      by (cases "b < 64") (auto simp: bs_contains_Cons intro: image_eqI [where x = "b - 64"])
  qed
  moreover have "card ({b. b < 64 \<and> bit c b} \<union> (\<lambda>b. b + 64) ` {b. bs_contains cs b})
    = card {b. b < 64 \<and> bit c b} + card ((\<lambda>b. b + 64) ` {b. bs_contains cs b})"
    by (intro card_Un_disjoint finite_imageI bs_finite) auto
  ultimately show ?case using Cons by (simp add: count_ones_card card_image inj_on_def)
qed

interpretation bitset: index_set "[]" bs_contains bs_set bs_popcount "\<lambda>_. True"
  by unfold_locales (simp_all add: bs_contains_set bs_finite bs_card bs_popcount_def, simp add: bs_contains_def Let_def)

section \<open>The pick refines a pick on sets of peers\<close>

text \<open>The specification: the state is the set of peers that have been sent the object.\<close>

fun pick_spec :: "nat \<Rightarrow> bytes option \<Rightarrow> bytes list \<Rightarrow> bytes set \<Rightarrow> bytes list" where
  "pick_spec cap src [] F = []"
| "pick_spec cap src (p # ps) F =
     (if Some p = src \<or> p \<in> F then pick_spec cap src ps F
      else if card F \<ge> cap then []
      else p # pick_spec cap src ps (insert p F))"

text \<open>The index assigns distinct numbers below its counter.\<close>

definition index_ok :: "PeerIndex \<Rightarrow> bool" where
  "index_ok ix \<longleftrightarrow> inj_on (by_pubkey ix) (dom (by_pubkey ix)) \<and> (\<forall>pk i. by_pubkey ix pk = Some i \<longrightarrow> i < next_index ix)"

text \<open>The peers that a bitset stands for, and that all its bits are assigned.\<close>

definition peers_of :: "PeerIndex \<Rightarrow> BitSet \<Rightarrow> bytes set" where
  "peers_of ix bs = {pk. \<exists>i. by_pubkey ix pk = Some i \<and> bs_contains bs i}"

definition assigned :: "PeerIndex \<Rightarrow> BitSet \<Rightarrow> bool" where
  "assigned ix bs \<longleftrightarrow> (\<forall>i. bs_contains bs i \<longrightarrow> i \<in> ran (by_pubkey ix))"

lemma index_for_grows:
  assumes "index_ok ix" "index_for pk ix = (i, ix')"
  shows "index_ok ix'" "by_pubkey ix' pk = Some i" "by_pubkey ix \<subseteq>\<^sub>m by_pubkey ix'"
proof -
  have "inj_on ((by_pubkey ix)(pk \<mapsto> next_index ix)) (insert pk (dom (by_pubkey ix)))"
    if "by_pubkey ix pk = None"
    using assms(1) that by (auto simp: index_ok_def inj_on_def) (metis less_irrefl)+
  then show "index_ok ix'" "by_pubkey ix' pk = Some i" "by_pubkey ix \<subseteq>\<^sub>m by_pubkey ix'"
    using assms by (auto simp: index_for_def index_ok_def map_le_def less_SucI split: option.splits if_splits)
qed

lemma index_okD: "index_ok ix \<Longrightarrow> by_pubkey ix p = Some i \<Longrightarrow> by_pubkey ix q = Some i \<Longrightarrow> p = q"
  unfolding index_ok_def by (metis domI inj_onD)

text \<open>Growing the index does not change what a bitset stands for.\<close>

lemma peers_of_grow:
  assumes "index_ok ix'" "by_pubkey ix \<subseteq>\<^sub>m by_pubkey ix'" "assigned ix bs"
  shows "peers_of ix' bs = peers_of ix bs" "assigned ix' bs"
proof -
  have le: "by_pubkey ix q = Some i \<Longrightarrow> by_pubkey ix' q = Some i" for q i
    using assms(2) by (metis domI map_le_def)
  show "assigned ix' bs" using assms(3) le by (fastforce simp: assigned_def ran_def)
  show "peers_of ix' bs = peers_of ix bs"
  proof (intro set_eqI iffI)
    fix q
    assume "q \<in> peers_of ix' bs"
    then obtain i where i: "by_pubkey ix' q = Some i" "bs_contains bs i" by (auto simp: peers_of_def)
    then obtain r where "by_pubkey ix r = Some i" using assms(3) by (auto simp: assigned_def ran_def)
    with index_okD [OF assms(1) i(1), of r] le i show "q \<in> peers_of ix bs" by (auto simp: peers_of_def)
  qed (auto simp: peers_of_def dest: le)
qed

lemma peers_of_contains:
  "index_ok ix \<Longrightarrow> by_pubkey ix p = Some i \<Longrightarrow> bs_contains bs i \<longleftrightarrow> p \<in> peers_of ix bs"
  by (auto simp: peers_of_def)

lemma peers_of_set:
  assumes "index_ok ix" "by_pubkey ix p = Some i" "assigned ix bs"
  shows "peers_of ix (bs_set i bs) = insert p (peers_of ix bs)" "assigned ix (bs_set i bs)"
  using assms(2,3) by (auto simp: peers_of_def bs_contains_set assigned_def ran_def dest: index_okD [OF assms(1,2)])

lemma popcount_peers:
  assumes "index_ok ix" "assigned ix bs" "card (peers_of ix bs) < 2 ^ 32"
  shows "bs_popcount bs = card (peers_of ix bs)" "finite (peers_of ix bs)"
proof -
  have img: "{b. bs_contains bs b} = (\<lambda>p. the (by_pubkey ix p)) ` peers_of ix bs"
    using assms(2) by (force simp: peers_of_def assigned_def ran_def)
  have inj: "inj_on (\<lambda>p. the (by_pubkey ix p)) (peers_of ix bs)"
    using index_okD [OF assms(1)] by (auto simp: inj_on_def peers_of_def)
  show "finite (peers_of ix bs)" using bs_finite [of bs] inj by (simp add: img finite_image_iff)
  from img inj have "card {b. bs_contains bs b} = card (peers_of ix bs)" by (simp add: card_image)
  with assms(3) bitset.size_of [of bs] show "bs_popcount bs = card (peers_of ix bs)" by simp
qed

text \<open>A bitset in use: assigned bits, few enough to be counted.\<close>

definition tracked :: "PeerIndex \<Rightarrow> BitSet \<Rightarrow> bool" where
  "tracked ix bs \<longleftrightarrow> assigned ix bs \<and> card (peers_of ix bs) < 2 ^ 32"

lemma tracked_empty: "tracked ix []"
  by (simp add: tracked_def assigned_def peers_of_def bs_contains_def)

lemma tracked_grow:
  "index_ok ix' \<Longrightarrow> by_pubkey ix \<subseteq>\<^sub>m by_pubkey ix' \<Longrightarrow> tracked ix bs \<Longrightarrow> tracked ix' bs \<and> peers_of ix' bs = peers_of ix bs"
  using peers_of_grow [of ix' ix bs] by (simp add: tracked_def)

lemma pick_loop_refines:
  assumes "index_ok ix" "tracked ix bs" "cap < 2 ^ 32" "pick_loop cap src ps bs ix = (picks, bs', ix')"
  shows "picks = pick_spec cap src (map instance_pubkey ps) (peers_of ix bs) \<and> index_ok ix' \<and> tracked ix' bs'
    \<and> peers_of ix' bs' = peers_of ix bs \<union> set picks \<and> by_pubkey ix \<subseteq>\<^sub>m by_pubkey ix'"
  using assms
proof (induction ps arbitrary: bs ix picks)
  case Nil
  then show ?case by simp
next
  case (Cons p ps)
  show ?case
  proof (cases "Some (instance_pubkey p) = src")
    case True
    with Cons show ?thesis by simp
  next
    case other: False
    obtain i ix1 where ix1: "index_for (instance_pubkey p) ix = (i, ix1)" by fastforce
    note g = index_for_grows [OF Cons.prems(1) ix1]
    note t = tracked_grow [OF g(1,3) Cons.prems(2)]
    note c = peers_of_contains [OF g(1,2), of bs]
    have a: "assigned ix1 bs" "card (peers_of ix1 bs) < 2 ^ 32" using conjunct1 [OF t] by (simp_all add: tracked_def)
    note pop = popcount_peers [OF g(1) a, unfolded conjunct2 [OF t]]
    show ?thesis
    proof (cases "bs_contains bs i")
      case True
      with Cons.prems(4) other ix1 have "pick_loop cap src ps bs ix1 = (picks, bs', ix')" by simp
      from Cons.IH [OF g(1) conjunct1 [OF t] Cons.prems(3) this] True other t c map_le_trans [OF g(3)]
      show ?thesis by simp
    next
      case new: False
      show ?thesis
      proof (cases "bs_popcount bs \<ge> cap")
        case True
        with Cons.prems(4) new other ix1 have "picks = []" "bs' = bs" "ix' = ix1" by simp_all
        with True new other t c g pop(1) show ?thesis by simp
      next
        case False
        note s = peers_of_set [OF g(1,2) a(1), unfolded conjunct2 [OF t]]
        have "card (peers_of ix1 (bs_set i bs)) < 2 ^ 32"
          using False Cons.prems(3) pop unfolding s(1) by (simp add: card_insert_if)
        with s have tr: "tracked ix1 (bs_set i bs)" by (simp add: tracked_def)
        obtain rest where rest: "pick_loop cap src ps (bs_set i bs) ix1 = (rest, bs', ix')" "picks = instance_pubkey p # rest"
          using Cons.prems(4) new False other ix1 by (auto split: prod.splits)
        show ?thesis
          using Cons.IH [OF g(1) tr Cons.prems(3) rest(1)] rest(2) new False other t c pop(1) s(1) map_le_trans [OF g(3)]
          by simp
      qed
    qed
  qed
qed

lemma pick_spec_sound:
  assumes "finite F"
  shows "set (pick_spec cap src ps F) \<subseteq> set ps - F \<and> distinct (pick_spec cap src ps F) \<and>
    (\<forall>p \<in> set (pick_spec cap src ps F). Some p \<noteq> src)"
  using assms
proof (induction ps arbitrary: F)
  case (Cons p ps)
  then have "finite (insert p F)" by simp
  from Cons.IH [OF Cons.prems] Cons.IH [OF this] show ?case by auto
qed simp

lemma pick_spec_cap:
  assumes "finite F"
  shows "length (pick_spec cap src ps F) \<le> cap - card F"
  using assms
proof (induction cap src ps F rule: pick_spec.induct)
  case (2 cap src p ps F)
  then show ?case by (auto simp: Suc_diff_Suc not_le)
qed simp

text \<open>A fan-out that stops below the cap has reached every candidate.\<close>

lemma pick_spec_complete:
  assumes "finite F" "length (pick_spec cap src ps F) < cap - card F" "p \<in> set ps" "Some p \<noteq> src"
  shows "p \<in> F \<union> set (pick_spec cap src ps F)"
  using assms
proof (induction cap src ps F rule: pick_spec.induct)
  case (2 cap src q ps F)
  then show ?case by (auto split: if_splits)
qed simp

section \<open>The state of the cache\<close>

definition sent_via :: "ForwardingLru \<Rightarrow> nat \<Rightarrow> bytes set" where
  "sent_via lru a = peers_of (peer_index lru) (forwarded_to (lru_entries lru ! a))"

definition lru_wf :: "ForwardingLru \<Rightarrow> bool" where
  "lru_wf lru \<longleftrightarrow> index_ok (peer_index lru) \<and> ran (lru_cache lru) \<subseteq> {..<length (lru_entries lru)} \<and>
     (\<forall>a < length (lru_entries lru). tracked (peer_index lru) (forwarded_to (lru_entries lru ! a)))"

lemma lru_wf_new: "lru_wf forwarding_lru_new"
  by (simp add: lru_wf_def forwarding_lru_new_def peer_index_default_def index_ok_def)

lemma sent_via_finite: "lru_wf lru \<Longrightarrow> a < length (lru_entries lru) \<Longrightarrow> finite (sent_via lru a)"
  using popcount_peers(2) by (auto simp: lru_wf_def tracked_def sent_via_def)

lemma lookup_entry_valid: "lru_wf lru \<Longrightarrow> lookup_entry now h lru = Some a \<Longrightarrow> a < length (lru_entries lru)"
  by (auto simp: lookup_entry_def lru_wf_def ran_def split: option.splits if_splits)

lemma insert_entry_wf:
  assumes "lru_wf lru" "insert_entry ev now h lru = (a, lru')" "\<And>m. ev m \<subseteq>\<^sub>m m"
  shows "lru_wf lru'" "a = length (lru_entries lru)" "length (lru_entries lru') = Suc a" "sent_via lru' a = {}"
    "\<And>b. b < a \<Longrightarrow> sent_via lru' b = sent_via lru b"
proof -
  have lru': "a = length (lru_entries lru)"
    "lru' = lru\<lparr>lru_cache := ev ((lru_cache lru)(h \<mapsto> a)), lru_entries := lru_entries lru @ [\<lparr>forwarded_to = [], entry_created_at = now\<rparr>]\<rparr>"
    using assms(2) by (auto simp: insert_entry_def Let_def)
  have "b \<le> a" if "ev ((lru_cache lru)(h \<mapsto> a)) k = Some b" for k b
  proof -
    have "((lru_cache lru)(h \<mapsto> a)) k = Some b" using assms(3) [of "(lru_cache lru)(h \<mapsto> a)"] that by (metis domI map_le_def)
    then show ?thesis using assms(1) lru'(1) by (auto simp: lru_wf_def ran_def split: if_splits intro: less_imp_le)
  qed
  then have "ran (lru_cache lru') \<subseteq> {..<length (lru_entries lru')}" using lru' by (auto simp: ran_def less_Suc_eq_le)
  then show "lru_wf lru'"
    using assms(1) lru' by (auto simp: lru_wf_def nth_append less_Suc_eq tracked_empty)
  show "a = length (lru_entries lru)" "length (lru_entries lru') = Suc a" "sent_via lru' a = {}"
    using lru' by (simp_all add: sent_via_def peers_of_def bs_contains_def)
  show "sent_via lru' b = sent_via lru b" if "b < a" for b
    using that lru' by (simp add: sent_via_def nth_append)
qed

lemma pick_spec_of:
  assumes "lru_wf lru" "a < length (lru_entries lru)" "cap < 2 ^ 32" "pick cap src cands a lru = (picks, lru')"
  shows "picks = pick_spec cap src (map instance_pubkey cands) (sent_via lru a)"
    "lru_wf lru'" "sent_via lru' a = sent_via lru a \<union> set picks" "lru_cache lru' = lru_cache lru"
    "length (lru_entries lru') = length (lru_entries lru)"
    "\<And>b. b < length (lru_entries lru) \<Longrightarrow> entry_created_at (lru_entries lru' ! b) = entry_created_at (lru_entries lru ! b)"
    "\<And>b. b < length (lru_entries lru) \<Longrightarrow> b \<noteq> a \<Longrightarrow> sent_via lru' b = sent_via lru b"
proof -
  let ?e = "lru_entries lru ! a"
  obtain bs ix where l: "pick_loop cap src cands (forwarded_to ?e) (peer_index lru) = (picks, bs, ix)"
    and lru': "lru' = lru\<lparr>lru_entries := (lru_entries lru)[a := ?e\<lparr>forwarded_to := bs\<rparr>], peer_index := ix\<rparr>"
    using assms(4) by (auto simp: pick_def Let_def split: prod.splits)
  have wf: "index_ok (peer_index lru)" "tracked (peer_index lru) (forwarded_to ?e)" using assms(1,2) by (simp_all add: lru_wf_def)
  note r = pick_loop_refines [OF wf assms(3) l]
  have other: "tracked ix (forwarded_to (lru_entries lru ! b)) \<and>
      peers_of ix (forwarded_to (lru_entries lru ! b)) = sent_via lru b" if "b < length (lru_entries lru)" for b
  proof -
    have "tracked (peer_index lru) (forwarded_to (lru_entries lru ! b))" using assms(1) that by (simp add: lru_wf_def)
    from tracked_grow [OF _ _ this] r show ?thesis by (simp add: sent_via_def)
  qed
  show "picks = pick_spec cap src (map instance_pubkey cands) (sent_via lru a)" using r by (simp add: sent_via_def)
  show "sent_via lru' a = sent_via lru a \<union> set picks" using r assms(2) by (simp add: sent_via_def lru')
  show "lru_wf lru'" using r assms(1,2) other by (auto simp: lru_wf_def lru' nth_list_update)
  show "lru_cache lru' = lru_cache lru" "length (lru_entries lru') = length (lru_entries lru)" by (simp_all add: lru')
  show "entry_created_at (lru_entries lru' ! b) = entry_created_at (lru_entries lru ! b)" if "b < length (lru_entries lru)" for b
    using that by (cases "a = b") (simp_all add: lru')
  show "sent_via lru' b = sent_via lru b" if "b < length (lru_entries lru)" "b \<noteq> a" for b
    using other [OF that(1)] that by (simp add: sent_via_def lru')
qed

section \<open>Sequences of fan-outs\<close>

text \<open>One fan-out with everything it reads from outside: the rows of the candidate query, the ceiling check, what
  the cache evicts, the time.\<close>

record forward_event =
  ev_rows :: "routing_row list option"
  ev_admits :: "bytes \<Rightarrow> bytes \<Rightarrow> bytes \<Rightarrow> bool option"
  ev_evict :: "(bytes \<rightharpoonup> nat) \<Rightarrow> (bytes \<rightharpoonup> nat)"
  ev_now :: nat
  ev_fan :: fan_out

definition forward_event_run ::
  "siphash \<Rightarrow> (real \<Rightarrow> real) \<Rightarrow> forward_event \<Rightarrow> ForwardingLru \<Rightarrow> routing_fault + enqueue_call list \<times> ForwardingLru" where
  "forward_event_run sip as_f32 e = forward_inner sip as_f32 (ev_rows e) (ev_admits e) (ev_evict e) (ev_now e) (ev_fan e)"

fun forward_run ::
  "siphash \<Rightarrow> (real \<Rightarrow> real) \<Rightarrow> forward_event list \<Rightarrow> ForwardingLru \<Rightarrow> (fan_out \<times> enqueue_call list) list" where
  "forward_run sip as_f32 [] lru = []"
| "forward_run sip as_f32 (e # es) lru = (case forward_event_run sip as_f32 e lru of
     Inl _ \<Rightarrow> (ev_fan e, []) # forward_run sip as_f32 es lru
   | Inr (calls, lru') \<Rightarrow> (ev_fan e, calls) # forward_run sip as_f32 es lru')"

text \<open>The peers that an object was queued for, in order.\<close>

definition sent_to :: "bytes \<Rightarrow> (fan_out \<times> enqueue_call list) list \<Rightarrow> bytes list" where
  "sent_to h lg = concat (map (\<lambda>(fo, calls). if fo_hash fo = h then map fst calls else []) lg)"

lemma sent_to_simps [simp]:
  "sent_to h [] = []"
  "sent_to h ((fo, calls) # lg) = (if fo_hash fo = h then map fst calls else []) @ sent_to h lg"
  by (simp_all add: sent_to_def)

lemma calls_targets [simp]: "map fst (enqueue_calls fo picks) = picks"
  by (simp add: enqueue_calls_def comp_def split: prod.splits)

lemma cap_small: "redundancy_cap cls < 2 ^ 32"
  by (cases cls) (simp_all add: redundancy_cap_def REDUNDANCY_K_def REDUNDANCY_K_MOVE_def)

text \<open>What a fan-out does when it returns: nothing, or it picks through one valid entry.\<close>

definition evicts :: "((bytes \<rightharpoonup> nat) \<Rightarrow> (bytes \<rightharpoonup> nat)) \<Rightarrow> bool" where
  "evicts ev \<longleftrightarrow> (\<forall>m. ev m \<subseteq>\<^sub>m m)"

lemma get_or_init_wf:
  assumes "lru_wf lru" "evicts ev" "get_or_init_entry ev now h lru = (a, lru1)"
  shows "lru_wf lru1" "a < length (lru_entries lru1)" "length (lru_entries lru) \<le> length (lru_entries lru1)"
    "\<And>b. b < length (lru_entries lru) \<Longrightarrow> lru_entries lru1 ! b = lru_entries lru ! b"
    "\<And>b. b < length (lru_entries lru) \<Longrightarrow> sent_via lru1 b = sent_via lru b"
    "lookup_entry now h lru = None \<Longrightarrow> sent_via lru1 a = {} \<and> a = length (lru_entries lru)
       \<and> lru_cache lru1 = ev ((lru_cache lru)(h \<mapsto> a)) \<and> entry_created_at (lru_entries lru1 ! a) = now"
proof -
  have ins: "insert_entry ev now h lru = (a, lru1)" if "lookup_entry now h lru = None"
    using assms(3) that by (simp add: get_or_init_entry_def)
  have hit: "a = b" "lru1 = lru" if "lookup_entry now h lru = Some b" for b
    using assms(3) that by (auto simp: get_or_init_entry_def)
  have ev: "\<And>m. ev m \<subseteq>\<^sub>m m" using assms(2) by (simp add: evicts_def)
  note w = insert_entry_wf [OF assms(1) ins ev]
  show "lru_wf lru1" using w(1) hit assms(1) by (cases "lookup_entry now h lru") auto
  show "a < length (lru_entries lru1)" using w(3) hit lookup_entry_valid [OF assms(1)] by (cases "lookup_entry now h lru") auto
  show "length (lru_entries lru) \<le> length (lru_entries lru1)" using w(2,3) hit by (cases "lookup_entry now h lru") auto
  show "lookup_entry now h lru = None \<Longrightarrow> sent_via lru1 a = {} \<and> a = length (lru_entries lru)
       \<and> lru_cache lru1 = ev ((lru_cache lru)(h \<mapsto> a)) \<and> entry_created_at (lru_entries lru1 ! a) = now"
    using w(2,4) ins by (auto simp: insert_entry_def Let_def)
  fix b
  assume b: "b < length (lru_entries lru)"
  show "lru_entries lru1 ! b = lru_entries lru ! b"
    using b ins hit by (cases "lookup_entry now h lru") (auto simp: insert_entry_def Let_def nth_append)
  show "sent_via lru1 b = sent_via lru b"
    using b w(2,5) hit by (cases "lookup_entry now h lru") auto
qed

lemma forward_event_cases:
  assumes "forward_event_run sip as_f32 e lru = Inr (calls, lru')"
  obtains (none) found where
      "peers_interested_in sip as_f32 (ev_rows e) (fo_class (ev_fan e)) (fo_key (ev_fan e)) = Inr found"
      "shed_candidates (ev_admits e) (fo_ceiling (ev_fan e)) found = []" "calls = []" "lru' = lru"
    | (picked) a lru1 picks cands found where
      "peers_interested_in sip as_f32 (ev_rows e) (fo_class (ev_fan e)) (fo_key (ev_fan e)) = Inr found"
      "cands = shed_candidates (ev_admits e) (fo_ceiling (ev_fan e)) found"
      "get_or_init_entry (ev_evict e) (ev_now e) (fo_hash (ev_fan e)) lru = (a, lru1)"
      "pick (redundancy_cap (fo_class (ev_fan e))) (fo_from (ev_fan e)) cands a lru1 = (picks, lru')"
      "calls = enqueue_calls (ev_fan e) picks"
  using assms by (auto simp: forward_event_run_def forward_inner_def result_simps Let_def split: if_splits prod.splits)

text \<open>The state of one object's entry while the cache keeps it: it belongs to this object alone, was created in
  the window, and its bits stand for the peers queued so far.\<close>

definition owned :: "(bytes \<rightharpoonup> nat) \<Rightarrow> bytes \<Rightarrow> nat \<Rightarrow> bool" where
  "owned m h a \<longleftrightarrow> m h = Some a \<and> (\<forall>k. m k = Some a \<longrightarrow> k = h)"

definition entry_inv :: "bytes \<Rightarrow> nat \<Rightarrow> nat \<Rightarrow> bytes list \<Rightarrow> ForwardingLru \<Rightarrow> bool" where
  "entry_inv h cap t0 S lru \<longleftrightarrow> lru_wf lru \<and> distinct S \<and> length S \<le> cap \<and>
     (case lru_cache lru h of
        None \<Rightarrow> S = []
      | Some a \<Rightarrow> a < length (lru_entries lru) \<and> t0 \<le> entry_created_at (lru_entries lru ! a) \<and>
          sent_via lru a = set S \<and> owned (lru_cache lru) h a)"

definition keeps :: "bytes \<Rightarrow> ((bytes \<rightharpoonup> nat) \<Rightarrow> (bytes \<rightharpoonup> nat)) \<Rightarrow> bool" where
  "keeps h ev \<longleftrightarrow> evicts ev \<and> (\<forall>m. ev m h = m h)"

lemma evicts_Some: "evicts ev \<Longrightarrow> ev m k = Some a \<Longrightarrow> m k = Some a"
  by (metis domI evicts_def map_le_def)

lemma cache_range: "lru_wf lru \<Longrightarrow> lru_cache lru k = Some a \<Longrightarrow> a < length (lru_entries lru)"
  by (auto simp: lru_wf_def ran_def)

lemma lookup_Some_cache: "lookup_entry now k lru = Some a \<Longrightarrow> lru_cache lru k = Some a"
  by (auto simp: lookup_entry_def split: option.splits if_splits)

lemma get_or_init_hit: "lookup_entry now k lru = Some b \<Longrightarrow> get_or_init_entry ev now k lru = (b, lru)"
  by (simp add: get_or_init_entry_def)

lemma entry_inv_SomeD:
  assumes "entry_inv h cap t0 S lru" "lru_cache lru h = Some a"
  shows "lru_wf lru" "distinct S" "length S \<le> cap" "a < length (lru_entries lru)"
    "t0 \<le> entry_created_at (lru_entries lru ! a)" "sent_via lru a = set S" "owned (lru_cache lru) h a"
  using assms by (simp_all add: entry_inv_def)

lemma entry_inv_SomeI:
  assumes "lru_wf lru" "distinct S" "length S \<le> cap" "owned (lru_cache lru) h a"
    and "t0 \<le> entry_created_at (lru_entries lru ! a)" "sent_via lru a = set S"
  shows "entry_inv h cap t0 S lru"
proof -
  have "lru_cache lru h = Some a" using assms(4) by (simp add: owned_def)
  with assms show ?thesis by (simp add: entry_inv_def cache_range)
qed

lemma own_entry:
  assumes "entry_inv h cap t0 S lru" "keeps h ev" "t0 \<le> now" "now < t0 + T_PROPAGATE_MAX"
    and "get_or_init_entry ev now h lru = (a, lru1)"
  shows "entry_inv h cap t0 S lru1 \<and> lru_cache lru1 h = Some a"
proof (cases "lookup_entry now h lru")
  case (Some b)
  with assms(1,5) lookup_Some_cache [OF Some] show ?thesis by (simp add: get_or_init_hit)
next
  case None
  have wf: "lru_wf lru" "evicts ev" using assms(1,2) by (simp_all add: entry_inv_def keeps_def)
  note g = get_or_init_wf [OF wf assms(5)] and n = get_or_init_wf(6) [OF wf assms(5) None]
  have "lru_cache lru h = None" using None assms(1,3,4) by (auto simp: lookup_entry_def entry_inv_def split: option.splits if_splits)
  then have S: "S = []" using assms(1) by (simp add: entry_inv_def)
  have c: "lru_cache lru1 h = Some a" using n assms(2) by (simp add: keeps_def)
  have "k = h" if "lru_cache lru1 k = Some a" for k
  proof -
    have "((lru_cache lru)(h \<mapsto> a)) k = Some a" using evicts_Some [OF wf(2), of "(lru_cache lru)(h \<mapsto> a)" k a] that n by simp
    moreover have "lru_cache lru k \<noteq> Some a" using cache_range [OF wf(1)] n by blast
    ultimately show ?thesis by (simp split: if_splits)
  qed
  with c have "owned (lru_cache lru1) h a" unfolding owned_def by blast
  with g(1) n S assms(3) have "entry_inv h cap t0 S lru1" by (intro entry_inv_SomeI [where a = a]) auto
  with c show ?thesis by blast
qed

lemma other_entry:
  assumes "entry_inv h cap t0 S lru" "keeps h ev" "k \<noteq> h" "get_or_init_entry ev now k lru = (a, lru1)"
  shows "entry_inv h cap t0 S lru1 \<and> lru_cache lru1 h \<noteq> Some a"
proof (cases "lookup_entry now k lru")
  case (Some b)
  have "lru_cache lru h \<noteq> Some b"
    using entry_inv_SomeD(7) [OF assms(1), of b] lookup_Some_cache [OF Some] assms(3) unfolding owned_def by blast
  with Some assms(1,4) show ?thesis by (simp add: get_or_init_hit)
next
  case None
  have wf: "lru_wf lru" "evicts ev" using assms(1,2) by (simp_all add: entry_inv_def keeps_def)
  note g = get_or_init_wf [OF wf assms(4)] and n = get_or_init_wf(6) [OF wf assms(4) None]
  have h: "lru_cache lru1 h = lru_cache lru h" using n assms(2,3) by (simp add: keeps_def)
  show ?thesis
  proof (cases "lru_cache lru h")
    case None
    then show ?thesis using h g(1) assms(1) by (simp add: entry_inv_def)
  next
    case (Some b)
    have b: "b < length (lru_entries lru)" using cache_range [OF wf(1) Some] .
    have "k' = h" if "lru_cache lru1 k' = Some b" for k'
    proof -
      have "((lru_cache lru)(k \<mapsto> a)) k' = Some b" using evicts_Some [OF wf(2), of "(lru_cache lru)(k \<mapsto> a)" k' b] that n by simp
      moreover have "b \<noteq> a" using b n by blast
      ultimately have "lru_cache lru k' = Some b" by (simp split: if_splits)
      with entry_inv_SomeD(7) [OF assms(1) Some] show ?thesis unfolding owned_def by blast
    qed
    moreover have "lru_cache lru1 h = Some b" using h Some by simp
    ultimately have "owned (lru_cache lru1) h b" unfolding owned_def by blast
    with g(1) g(4) [OF b] g(5) [OF b] entry_inv_SomeD [OF assms(1) Some]
    have "entry_inv h cap t0 S lru1" by (intro entry_inv_SomeI [where a = b]) simp_all
    moreover have "b \<noteq> a" using b n by blast
    ultimately show ?thesis using Some h by simp
  qed
qed

lemma pick_own:
  assumes "entry_inv h cap t0 S lru" "lru_cache lru h = Some a" "cap < 2 ^ 32" "pick cap src cands a lru = (picks, lru')"
  shows "entry_inv h cap t0 (S @ picks) lru'"
proof -
  note a = entry_inv_SomeD [OF assms(1,2)]
  note p = pick_spec_of [OF a(1,4) assms(3,4)]
  have "set picks \<subseteq> set (map instance_pubkey cands) - set S" "distinct picks"
    using pick_spec_sound [of "set S" cap src "map instance_pubkey cands"] unfolding p(1) a(6) by simp_all
  moreover have "length picks \<le> cap - length S"
    using pick_spec_cap [of "set S" cap src "map instance_pubkey cands"] unfolding p(1) a(6) by (simp add: distinct_card [OF a(2)])
  ultimately show ?thesis
    using a(2,3,5,6,7) p(2,3) p(6) [OF a(4)] by (intro entry_inv_SomeI [where a = a]) (auto simp: p(4))
qed

lemma pick_other:
  assumes "entry_inv h cap t0 S lru" "lru_cache lru h \<noteq> Some a" "a < length (lru_entries lru)" "cap' < 2 ^ 32"
    and "pick cap' src cands a lru = (picks, lru')"
  shows "entry_inv h cap t0 S lru'"
proof -
  have "lru_wf lru" using assms(1) by (simp add: entry_inv_def)
  note p = pick_spec_of [OF this assms(3,4,5)]
  show ?thesis
  proof (cases "lru_cache lru h")
    case None
    then show ?thesis using assms(1) p(2,4) by (simp add: entry_inv_def)
  next
    case (Some b)
    note b = entry_inv_SomeD [OF assms(1) Some]
    have "b \<noteq> a" using Some assms(2) by blast
    with b p(2) p(6) [OF b(4)] p(7) [OF b(4)] show ?thesis
      by (intro entry_inv_SomeI [where a = b]) (simp_all add: p(4))
  qed
qed

definition in_window :: "bytes \<Rightarrow> ForwardingClass \<Rightarrow> nat \<Rightarrow> forward_event \<Rightarrow> bool" where
  "in_window h cls t0 e \<longleftrightarrow> keeps h (ev_evict e) \<and>
     (fo_hash (ev_fan e) = h \<longrightarrow> fo_class (ev_fan e) = cls \<and> t0 \<le> ev_now e \<and> ev_now e < t0 + T_PROPAGATE_MAX)"

lemma entry_inv_step:
  assumes "entry_inv h (redundancy_cap cls) t0 S lru" "in_window h cls t0 e"
    and "forward_event_run sip as_f32 e lru = Inr (calls, lru')"
  shows "entry_inv h (redundancy_cap cls) t0 (S @ (if fo_hash (ev_fan e) = h then map fst calls else [])) lru'"
  using assms(3)
proof (cases rule: forward_event_cases)
  case none
  with assms(1) show ?thesis by simp
next
  case (picked a lru1 picks cands found)
  have wf: "lru_wf lru" "keeps h (ev_evict e)" "evicts (ev_evict e)"
    using assms(1,2) by (simp_all add: entry_inv_def in_window_def keeps_def)
  show ?thesis
  proof (cases "fo_hash (ev_fan e) = h")
    case True
    with assms(2) have "fo_class (ev_fan e) = cls" "t0 \<le> ev_now e" "ev_now e < t0 + T_PROPAGATE_MAX"
      by (simp_all add: in_window_def)
    with own_entry [OF assms(1) wf(2), of "ev_now e" a lru1] pick_own [of h "redundancy_cap cls" t0 S lru1 a] picked True cap_small
    show ?thesis by simp
  next
    case False
    from other_entry [OF assms(1) wf(2) False picked(3)] get_or_init_wf(2) [OF wf(1,3) picked(3)]
    show ?thesis using pick_other [OF _ _ _ cap_small picked(4)] False by simp
  qed
qed

lemma entry_inv_run:
  assumes "entry_inv h (redundancy_cap cls) t0 S lru" "\<forall>e \<in> set es. in_window h cls t0 e"
  shows "distinct (S @ sent_to h (forward_run sip as_f32 es lru)) \<and>
    length (S @ sent_to h (forward_run sip as_f32 es lru)) \<le> redundancy_cap cls"
  using assms
proof (induction es arbitrary: S lru)
  case Nil
  then show ?case by (simp add: entry_inv_def)
next
  case (Cons e es)
  show ?case
  proof (cases "forward_event_run sip as_f32 e lru")
    case (Inl err)
    then show ?thesis using Cons.IH [OF Cons.prems(1)] Cons.prems(2) by simp
  next
    case (Inr r)
    obtain calls lru' where r: "r = (calls, lru')" by fastforce
    from entry_inv_step [OF Cons.prems(1) _ Inr [unfolded r]] Cons.prems(2)
    have "entry_inv h (redundancy_cap cls) t0 (S @ (if fo_hash (ev_fan e) = h then map fst calls else [])) lru'" by simp
    from Cons.IH [OF this] Cons.prems(2) show ?thesis by (simp add: Inr r)
  qed
qed

lemma entry_inv_new: "entry_inv h cap t0 [] forwarding_lru_new"
  by (simp add: entry_inv_def lru_wf_new) (simp add: forwarding_lru_new_def)

text \<open>C11. Bounded gossip: over any sequence of fan-outs of any objects, an object whose fan-outs all fall within one
  hour, and whose entry the cache does not evict meanwhile, is queued for at most \<open>REDUNDANCY_K\<close> peers
  (\<open>REDUNDANCY_K_MOVE\<close> for a move), never twice for the same peer, however often it arrives and whatever
  the candidate queries return.\<close>

theorem fanout_capped:
  assumes "\<forall>e \<in> set es. in_window h cls t0 e"
  shows "distinct (sent_to h (forward_run sip as_f32 es forwarding_lru_new)) \<and>
    length (sent_to h (forward_run sip as_f32 es forwarding_lru_new)) \<le> redundancy_cap cls"
  using entry_inv_run [OF entry_inv_new assms, of sip as_f32] by simp

definition demo_event :: "nat \<Rightarrow> forward_event" where
  "demo_event t = \<lparr>ev_rows = Some [demo_row], ev_admits = \<lambda>_ _ _. None, ev_evict = \<lambda>m. m, ev_now = t,
     ev_fan = \<lparr>fo_hash = [9], fo_class = Authored, fo_key = [1], fo_wire = [5], fo_from = None, fo_ceiling = None\<rparr>\<rparr>"

theorem fanout_capped_witness:
  "distinct (sent_to [9] (forward_run byte_sum_hash (\<lambda>x. x) [demo_event 0, demo_event 60] forwarding_lru_new)) \<and>
    length (sent_to [9] (forward_run byte_sum_hash (\<lambda>x. x) [demo_event 0, demo_event 60] forwarding_lru_new)) \<le> redundancy_cap Authored"
  by (rule fanout_capped [of _ _ _ 0])
    (simp add: in_window_def keeps_def evicts_def demo_event_def T_PROPAGATE_MAX_def)

section \<open>What one fan-out sends\<close>

text \<open>A candidate that the source-side ceiling check refuses.\<close>

definition shed_by :: "(bytes \<Rightarrow> bytes \<Rightarrow> bytes \<Rightarrow> bool option) \<Rightarrow> fan_out \<Rightarrow> bytes \<Rightarrow> bool" where
  "shed_by adm fo pk \<longleftrightarrow> (\<exists>r s. fo_ceiling fo = Some (r, s) \<and> adm pk r s = Some False)"

lemma shed_eq:
  "shed_candidates adm (fo_ceiling fo) cands = filter (\<lambda>p. \<not> shed_by adm fo (instance_pubkey p)) cands"
  by (cases "fo_ceiling fo") (auto simp: shed_candidates_def shed_by_def intro!: filter_cong split: option.splits)

text \<open>The peers that an object may be queued for.\<close>

definition targets :: "siphash \<Rightarrow> (real \<Rightarrow> real) \<Rightarrow> forward_event \<Rightarrow> bytes set" where
  "targets sip as_f32 e = {rr_pubkey row | row rows. ev_rows e = Some rows \<and> row \<in> set rows \<and>
     row_selected sip as_f32 (fo_class (ev_fan e)) (fo_key (ev_fan e)) row \<and>
     \<not> shed_by (ev_admits e) (ev_fan e) (rr_pubkey row) \<and> Some (rr_pubkey row) \<noteq> fo_from (ev_fan e)}"

lemma candidate_targets:
  assumes "peers_interested_in sip as_f32 (ev_rows e) (fo_class (ev_fan e)) (fo_key (ev_fan e)) = Inr found"
  shows "{pk \<in> instance_pubkey ` set (shed_candidates (ev_admits e) (fo_ceiling (ev_fan e)) found). Some pk \<noteq> fo_from (ev_fan e)}
    = targets sip as_f32 e"
proof -
  obtain rows where rows: "ev_rows e = Some rows"
    "found = map row_target (filter (row_selected sip as_f32 (fo_class (ev_fan e)) (fo_key (ev_fan e))) rows)"
    using assms by (auto simp: interested_Inr)
  have "instance_pubkey (row_target row) = rr_pubkey row" for row by (simp add: row_target_def)
  then show ?thesis unfolding shed_eq targets_def rows by (force simp: image_iff)
qed

text \<open>C12. One fan-out, from any state of the cache: it queues the object's bytes, on the route of its class, for
  distinct peers that are interested, are not shed by their age ceiling and did not send the object, at most
  as many as the class allows; and when it queues for fewer than that although the object has no live entry,
  it has reached all of them.\<close>

theorem forward_contract:
  assumes "lru_wf lru" "evicts (ev_evict e)" "forward_event_run sip as_f32 e lru = Inr (calls, lru')"
  shows "lru_wf lru' \<and> distinct (map fst calls) \<and> length calls \<le> redundancy_cap (fo_class (ev_fan e)) \<and>
    set (map fst calls) \<subseteq> targets sip as_f32 e \<and>
    (\<forall>(pk, path, key, w) \<in> set calls. (path, key) = route_and_body_key (fo_class (ev_fan e)) \<and> w = fo_wire (ev_fan e)) \<and>
    (lookup_entry (ev_now e) (fo_hash (ev_fan e)) lru = None \<and> length calls < redundancy_cap (fo_class (ev_fan e))
       \<longrightarrow> set (map fst calls) = targets sip as_f32 e)"
  using assms(3)
proof (cases rule: forward_event_cases)
  case (none found)
  with assms(1) candidate_targets [OF none(1)] show ?thesis by simp
next
  case (picked a lru1 picks cands found)
  note g = get_or_init_wf [OF assms(1,2) picked(3)]
  note p = pick_spec_of [OF g(1,2) cap_small picked(4)]
  let ?cap = "redundancy_cap (fo_class (ev_fan e))" and ?from = "fo_from (ev_fan e)" and ?ps = "map instance_pubkey cands"
  have fin: "finite (sent_via lru1 a)" using sent_via_finite [OF g(1,2)] .
  note t = candidate_targets [OF picked(1), folded picked(2)]
  note sound = pick_spec_sound [OF fin, of ?cap ?from ?ps, folded p(1)]
  have "set picks \<subseteq> targets sip as_f32 e" using sound unfolding t [symmetric] by auto
  moreover have "length picks \<le> ?cap" using pick_spec_cap [OF fin, of ?cap ?from ?ps, folded p(1)] by linarith
  moreover have "set picks = targets sip as_f32 e" if "lookup_entry (ev_now e) (fo_hash (ev_fan e)) lru = None" "length picks < ?cap"
    using pick_spec_complete [of "{}" ?cap ?from ?ps] g(6) [OF that(1)] that(2) p(1) calculation(1) unfolding t [symmetric] by auto
  moreover have "length calls = length picks" by (simp add: picked(5) enqueue_calls_def split: prod.splits)
  moreover have "\<forall>(pk, path, key, w) \<in> set calls. (path, key) = route_and_body_key (fo_class (ev_fan e)) \<and> w = fo_wire (ev_fan e)"
    by (auto simp: picked(5) enqueue_calls_def split: prod.splits)
  ultimately show ?thesis using p(2) sound calls_targets [of "ev_fan e" picks, folded picked(5)] by simp
qed

lemma forward_event_returns: "ev_rows e = Some rows \<Longrightarrow> \<exists>calls lru'. forward_event_run sip as_f32 e lru = Inr (calls, lru')"
  by (simp add: forward_event_run_def forward_inner_def interested_eq Let_def split: prod.splits)

theorem forward_contract_witness:
  "\<exists>calls lru'. forward_event_run byte_sum_hash (\<lambda>x. x) (demo_event 0) forwarding_lru_new = Inr (calls, lru') \<and>
    distinct (map fst calls) \<and> set (map fst calls) \<subseteq> targets byte_sum_hash (\<lambda>x. x) (demo_event 0)"
proof -
  have "ev_rows (demo_event 0) = Some [demo_row]" by (simp add: demo_event_def)
  from forward_event_returns [OF this] obtain calls lru' where
    r: "forward_event_run byte_sum_hash (\<lambda>x. x) (demo_event 0) forwarding_lru_new = Inr (calls, lru')" by blast
  have "evicts (ev_evict (demo_event 0))" by (simp add: demo_event_def evicts_def)
  from forward_contract [OF lru_wf_new this r] r show ?thesis by blast
qed

text \<open>Handing the calls of a fan-out to the queues never panics and keeps their accounting.\<close>

lemma queue_all_accounted:
  assumes "accounted qs" "iteration_order iter"
  shows "\<exists>qs' ws. queue_all cfg iter now calls qs = Some (qs', ws) \<and> accounted qs' \<and> set ws \<subseteq> set (map fst calls)"
  using assms(1)
proof (induction calls arbitrary: qs)
  case (Cons c calls)
  obtain pk path key w where c: "c = (pk, path, key, w)" by (cases c)
  note ok = enqueue_enqueue_ok [OF Cons.prems assms(2), of cfg now pk path key w]
  show ?case
  proof (cases "enqueue cfg iter now pk path key w qs")
    case (Enqueued qs' spawn)
    with ok have "accounted (notify_one pk qs')" by (simp add: enqueue_ok_def flag_ops_accounted)
    from Cons.IH [OF this] Enqueued show ?thesis by (cases spawn) (auto simp: c)
  next
    case (Discarded qs')
    with ok have "accounted qs'" by (simp add: enqueue_ok_def)
    from Cons.IH [OF this] Discarded show ?thesis by (auto simp: c)
  next
    case EnqueuePanic
    with ok show ?thesis by (simp add: enqueue_ok_def)
  qed
qed simp

section \<open>Interleaved fan-outs\<close>

text \<open>A fan-out holds no lock between its candidate query, the lookup of the entry, the insertion after a miss and
  the pick, so other fan-outs run in between. \<open>fs_sent\<close> records what is queued and through which entry.\<close>

datatype fan_phase = Queried | Missed | Holding nat

record fan_state =
  fs_lru :: ForwardingLru
  fs_tasks :: "nat \<rightharpoonup> fan_out \<times> PeerRouting list \<times> fan_phase"
  fs_sent :: "(nat \<times> fan_out \<times> bytes) list"

definition fan_init :: fan_state where
  "fan_init = \<lparr>fs_lru = forwarding_lru_new, fs_tasks = Map.empty, fs_sent = []\<rparr>"

inductive fan_step :: "siphash \<Rightarrow> (real \<Rightarrow> real) \<Rightarrow> fan_state \<Rightarrow> fan_state \<Rightarrow> bool" for sip as_f32 where
  query: "fs_tasks st t = None \<Longrightarrow> peers_interested_in sip as_f32 rows (fo_class fo) (fo_key fo) = Inr found
    \<Longrightarrow> cands = shed_candidates adm (fo_ceiling fo) found \<Longrightarrow> cands \<noteq> []
    \<Longrightarrow> fan_step sip as_f32 st (st\<lparr>fs_tasks := (fs_tasks st)(t \<mapsto> (fo, cands, Queried))\<rparr>)"
| hit: "fs_tasks st t = Some (fo, cands, Queried) \<Longrightarrow> lookup_entry now (fo_hash fo) (fs_lru st) = Some a
    \<Longrightarrow> fan_step sip as_f32 st (st\<lparr>fs_tasks := (fs_tasks st)(t \<mapsto> (fo, cands, Holding a))\<rparr>)"
| miss: "fs_tasks st t = Some (fo, cands, Queried) \<Longrightarrow> lookup_entry now (fo_hash fo) (fs_lru st) = None
    \<Longrightarrow> fan_step sip as_f32 st (st\<lparr>fs_tasks := (fs_tasks st)(t \<mapsto> (fo, cands, Missed))\<rparr>)"
| create: "fs_tasks st t = Some (fo, cands, Missed) \<Longrightarrow> evicts ev
    \<Longrightarrow> insert_entry ev now (fo_hash fo) (fs_lru st) = (a, lru')
    \<Longrightarrow> fan_step sip as_f32 st (st\<lparr>fs_lru := lru', fs_tasks := (fs_tasks st)(t \<mapsto> (fo, cands, Holding a))\<rparr>)"
| send: "fs_tasks st t = Some (fo, cands, Holding a)
    \<Longrightarrow> pick (redundancy_cap (fo_class fo)) (fo_from fo) cands a (fs_lru st) = (picks, lru')
    \<Longrightarrow> fan_step sip as_f32 st (st\<lparr>fs_lru := lru', fs_tasks := (fs_tasks st)(t := None),
          fs_sent := fs_sent st @ map (\<lambda>pk. (a, fo, pk)) picks\<rparr>)"

definition via :: "nat \<Rightarrow> fan_state \<Rightarrow> (fan_out \<times> bytes) list" where
  "via a st = map snd (filter (\<lambda>s. fst s = a) (fs_sent st))"

text \<open>The sends through one entry are distinct peers, and as many as some fan-out among them allows.\<close>

definition fair_entry :: "(fan_out \<times> bytes) list \<Rightarrow> bool" where
  "fair_entry xs \<longleftrightarrow> distinct (map snd xs) \<and> (\<forall>(fo, pk) \<in> set xs. Some pk \<noteq> fo_from fo) \<and>
     (xs = [] \<or> (\<exists>(fo, pk) \<in> set xs. length xs \<le> redundancy_cap (fo_class fo)))"

definition fan_inv :: "fan_state \<Rightarrow> bool" where
  "fan_inv st \<longleftrightarrow> lru_wf (fs_lru st) \<and>
     (\<forall>t fo cands a. fs_tasks st t = Some (fo, cands, Holding a) \<longrightarrow> a < length (lru_entries (fs_lru st))) \<and>
     (\<forall>a. length (lru_entries (fs_lru st)) \<le> a \<longrightarrow> via a st = []) \<and>
     (\<forall>a < length (lru_entries (fs_lru st)). sent_via (fs_lru st) a = set (map snd (via a st))) \<and>
     (\<forall>a. fair_entry (via a st))"

lemma via_send:
  "via b (s\<lparr>fs_sent := fs_sent st @ map (\<lambda>pk. (a, fo, pk)) picks\<rparr>)
     = via b st @ (if b = a then map (Pair fo) picks else [])"
  by (simp add: via_def filter_map comp_def)

lemma via_other [simp]: "via b (st\<lparr>fs_tasks := ts\<rparr>) = via b st" "via b (st\<lparr>fs_lru := l\<rparr>) = via b st"
  by (simp_all add: via_def)

lemma fair_entry_append:
  assumes "fair_entry xs" "picks = pick_spec (redundancy_cap (fo_class fo)) (fo_from fo) ps (set (map snd xs))"
  shows "fair_entry (xs @ map (Pair fo) picks)"
proof -
  note snd = pick_spec_sound [of "set (map snd xs)" "redundancy_cap (fo_class fo)" "fo_from fo" ps, folded assms(2)]
  have "length picks \<le> redundancy_cap (fo_class fo) - length xs"
    using pick_spec_cap [of "set (map snd xs)" "redundancy_cap (fo_class fo)" "fo_from fo" ps, folded assms(2)] assms(1)
      distinct_card [of "map snd xs"] by (simp add: fair_entry_def)
  then have "picks = [] \<or> length xs + length picks \<le> redundancy_cap (fo_class fo)" by (cases picks) auto
  moreover have "distinct (map snd xs @ picks)" using snd assms(1) by (auto simp: fair_entry_def)
  ultimately show ?thesis
    using assms(1) snd by (cases picks) (auto simp: fair_entry_def comp_def)
qed

lemma fan_step_inv: "fan_step sip as_f32 st st' \<Longrightarrow> fan_inv st \<Longrightarrow> fan_inv st'"
proof (induction rule: fan_step.induct)
  case (query st t rows fo found cands adm)
  then show ?case by (auto simp: fan_inv_def)
next
  case (hit st t fo cands now a)
  with lookup_entry_valid [of "fs_lru st" now "fo_hash fo" a] show ?case by (auto simp: fan_inv_def)
next
  case (miss st t fo cands now)
  then show ?case by (auto simp: fan_inv_def)
next
  case (create st t fo cands ev now a lru')
  have wf: "lru_wf (fs_lru st)" using create by (simp add: fan_inv_def)
  have ev: "\<And>m. ev m \<subseteq>\<^sub>m m" using create by (simp add: evicts_def)
  note w = insert_entry_wf [OF wf create.hyps(3) ev]
  have a: "via a st = []" using create.prems w(2) by (simp add: fan_inv_def)
  have "sent_via lru' b = set (map snd (via b st))" if "b < Suc a" for b
    using that create.prems w(2,4,5) a by (cases "b = a") (auto simp: fan_inv_def)
  with create.prems w(1-3) show ?case by (auto simp: fan_inv_def less_Suc_eq)
next
  case (send st t fo cands a picks lru')
  have a: "lru_wf (fs_lru st)" "a < length (lru_entries (fs_lru st))"
    using send.prems send.hyps(1) by (auto simp: fan_inv_def)
  note p = pick_spec_of [OF a cap_small send.hyps(2)]
  have S: "sent_via (fs_lru st) a = set (map snd (via a st))" "fair_entry (via a st)"
    using send.prems a(2) by (simp_all add: fan_inv_def)
  with p(1) have f: "fair_entry (via a st @ map (Pair fo) picks)" by (intro fair_entry_append) simp_all
  have "sent_via lru' b = set (map snd (via b st @ (if b = a then map (Pair fo) picks else [])))"
    if "b < length (lru_entries lru')" for b
  proof (cases "b = a")
    case True
    then show ?thesis using p(3) S(1) by auto
  next
    case False
    then show ?thesis using that p(5) p(7) [of b] send.prems by (simp add: fan_inv_def)
  qed
  with f send.prems p(2,5) a(2) show ?case by (auto simp: fan_inv_def via_send)
qed

text \<open>C13. Under every interleaving of fan-outs and whatever the cache evicts: the sends made through one entry go to
  distinct peers, none of them to the peer the object came from, and they are at most as many as the class
  of one of those fan-outs allows. Two concurrent first fan-outs of an object may create two entries; each
  of them keeps this bound.\<close>

theorem interleaved_fanouts:
  assumes "(fan_step sip as_f32)\<^sup>*\<^sup>* fan_init st"
  shows "distinct (map snd (via a st)) \<and> (\<forall>(fo, pk) \<in> set (via a st). Some pk \<noteq> fo_from fo) \<and>
    (via a st = [] \<or> (\<exists>(fo, pk) \<in> set (via a st). length (via a st) \<le> redundancy_cap (fo_class fo)))"
proof -
  have "fan_inv fan_init" by (simp add: fan_inv_def fan_init_def lru_wf_new via_def fair_entry_def) (simp add: forwarding_lru_new_def)
  with assms have "fan_inv st" by (induction rule: rtranclp_induct) (auto intro: fan_step_inv)
  then show ?thesis by (simp add: fan_inv_def fair_entry_def)
qed

lemma demo_selected: "row_selected byte_sum_hash (\<lambda>x. x) Authored [1] demo_row"
  by (rule row_selected_wants [OF small_storable small_storable, of _ _ "[[1]]" "[]"]) (simp_all add: demo_row_def wants_def)

text \<open>One task that misses, creates the entry and sends.\<close>

lemma demo_reachable:
  "\<exists>st. (fan_step byte_sum_hash (\<lambda>x. x))\<^sup>*\<^sup>* fan_init st \<and> fs_sent st = [(0, ev_fan (demo_event 0), replicate 32 7)]"
proof -
  let ?R = "fan_step byte_sum_hash (\<lambda>x. x)"
  define fo where "fo = ev_fan (demo_event 0)"
  define cands where "cands = [row_target demo_row]"
  define lru1 where "lru1 = snd (insert_entry (\<lambda>m. m) 0 (fo_hash fo) forwarding_lru_new)"
  obtain picks lru2 where pk: "pick (redundancy_cap (fo_class fo)) (fo_from fo) cands 0 lru1 = (picks, lru2)" by fastforce
  define s1 where "s1 = fan_init\<lparr>fs_tasks := (fs_tasks fan_init)(0 \<mapsto> (fo, cands, Queried))\<rparr>"
  define s2 where "s2 = s1\<lparr>fs_tasks := (fs_tasks s1)(0 \<mapsto> (fo, cands, Missed))\<rparr>"
  define s3 where "s3 = s2\<lparr>fs_lru := lru1, fs_tasks := (fs_tasks s2)(0 \<mapsto> (fo, cands, Holding 0))\<rparr>"
  define s4 where "s4 = s3\<lparr>fs_lru := lru2, fs_tasks := (fs_tasks s3)(0 := None), fs_sent := fs_sent s3 @ map (\<lambda>pk. (0, fo, pk)) picks\<rparr>"
  have fo: "fo_class fo = Authored" "fo_key fo = [1]" "fo_ceiling fo = None" "fo_from fo = None" "fo_hash fo = [9]"
    by (simp_all add: fo_def demo_event_def)
  have cands: "peers_interested_in byte_sum_hash (\<lambda>x. x) (Some [demo_row]) (fo_class fo) (fo_key fo) = Inr cands"
    using demo_selected by (simp add: interested_eq fo cands_def)
  have ins: "insert_entry (\<lambda>m. m) 0 (fo_hash fo) forwarding_lru_new = (0, lru1)"
    by (simp add: lru1_def insert_entry_def forwarding_lru_new_def Let_def)
  have "?R fan_init s1" unfolding s1_def
    by (rule fan_step.query [OF _ cands, of _ _ _ "\<lambda>_ _ _. None"])
      (simp_all add: fan_init_def fo shed_candidates_def cands_def)
  moreover have "?R s1 s2" unfolding s2_def
    by (rule fan_step.miss [of _ _ _ _ 0]) (simp_all add: s1_def fan_init_def lookup_entry_def forwarding_lru_new_def)
  moreover have "?R s2 s3" unfolding s3_def
    by (rule fan_step.create [of _ _ _ _ "\<lambda>m. m" 0]) (use ins in \<open>simp_all add: s2_def s1_def fan_init_def evicts_def\<close>)
  moreover have "?R s3 s4" unfolding s4_def by (rule fan_step.send) (use pk in \<open>simp_all add: s3_def\<close>)
  ultimately have "?R\<^sup>*\<^sup>* fan_init s4" by (meson converse_rtranclp_into_rtranclp rtranclp.rtrancl_refl)
  moreover have "picks = [replicate 32 7]"
  proof -
    have ev: "\<And>m. m \<subseteq>\<^sub>m m" by simp
    note w = insert_entry_wf [OF lru_wf_new ins ev]
    have "picks = pick_spec 2 None [replicate 32 7] {}"
      using pick_spec_of(1) [OF w(1) _ cap_small pk] w(3,4)
      by (simp add: fo redundancy_cap_def REDUNDANCY_K_def cands_def row_target_def demo_row_def)
    then show ?thesis by simp
  qed
  ultimately show ?thesis by (auto simp: s4_def s3_def s2_def s1_def fan_init_def fo_def)
qed

theorem interleaved_fanouts_witness:
  "\<exists>st. (fan_step byte_sum_hash (\<lambda>x. x))\<^sup>*\<^sup>* fan_init st \<and> fs_sent st \<noteq> [] \<and> distinct (map snd (via 0 st))"
proof -
  obtain st where "(fan_step byte_sum_hash (\<lambda>x. x))\<^sup>*\<^sup>* fan_init st" "fs_sent st \<noteq> []" using demo_reachable by auto
  with interleaved_fanouts [OF this(1), of 0] show ?thesis by blast
qed

end
