(* ===== verification/Admission_Cap.thy ===== *)
theory Admission_Cap
  imports Forwarder Signed_Encode
begin

text \<open>
  The cap-at-\<open>N\<close> admission of \<open>server/src/federation/frontier_store.rs\<close>: the ranking of the inbound
  trusters, the bounded set a reader keeps of them, and the age ceiling derived from a saturated set.
  An \<open>f64\<close> score is a real number; on the scores the graph computes (never NaN, never \<open>-0.0\<close>) \<open>total_cmp\<close> is
  the order of the reals. The min-heap (\<open>BinaryHeap\<close> of \<open>Reverse\<close>) is a priority queue, held as its elements in ascending order:
  \<open>peek\<close> sees the least, \<open>pop\<close> removes it.
\<close>

section \<open>Admissions and their order\<close>

definition DEFAULT_FRONTIER_CAP :: nat where "DEFAULT_FRONTIER_CAP = 100000"

datatype Admission = Admission (truster: bytes) (forward_score: real) (genesis_at: "int option")

text \<open>The order of an optional \<open>Reverse\<close>: \<open>None\<close> first, then the later births before the earlier ones.\<close>

fun reversed_cmp :: "int option \<Rightarrow> int option \<Rightarrow> ordering" where
  "reversed_cmp None None = Equal"
| "reversed_cmp None (Some _) = Less"
| "reversed_cmp (Some _) None = Greater"
| "reversed_cmp (Some a) (Some b) = cmp b a"

definition desirability :: "Admission \<Rightarrow> Admission \<Rightarrow> ordering" where
  "desirability a b =
     then_with (cmp (forward_score a) (forward_score b))
       (then_with (reversed_cmp (genesis_at a) (genesis_at b)) (cmp (truster a) (truster b)))"

text \<open>The same order as a lexicographic key.\<close>

definition rank_key :: "Admission \<Rightarrow> real \<times> (nat \<times> int) \<times> bytes" where
  "rank_key a = (forward_score a, (case genesis_at a of None \<Rightarrow> (0, 0) | Some g \<Rightarrow> (1, - g)), truster a)"

lemma rank_key_inject [simp]: "rank_key a = rank_key b \<longleftrightarrow> a = b"
  by (cases a; cases b) (auto simp: rank_key_def split: option.splits)

lemma reversed_cmp_key:
  "reversed_cmp g h = cmp (case g of None \<Rightarrow> (0 :: nat, 0 :: int) | Some x \<Rightarrow> (1, - x)) (case h of None \<Rightarrow> (0, 0) | Some x \<Rightarrow> (1, - x))"
  by (cases "(g, h)" rule: reversed_cmp.cases) (auto simp: cmp_def)

lemma cmp_lexicographic: "then_with (cmp a b) (cmp c d) = cmp (a, c) (b, d)"
  by (auto simp: cmp_def)

lemma desirability_key: "desirability a b = cmp (rank_key a) (rank_key b)"
  by (simp add: desirability_def rank_key_def reversed_cmp_key cmp_lexicographic)

instantiation Admission :: linorder
begin

definition less_eq_Admission :: "Admission \<Rightarrow> Admission \<Rightarrow> bool" where
  "less_eq_Admission a b \<longleftrightarrow> desirability a b \<noteq> Greater"

definition less_Admission :: "Admission \<Rightarrow> Admission \<Rightarrow> bool" where
  "less_Admission a b \<longleftrightarrow> desirability a b = Less"

instance
proof
  fix a b c :: Admission
  show "(a < b) = (a \<le> b \<and> \<not> b \<le> a)"
    by (auto simp: less_Admission_def less_eq_Admission_def desirability_key cmp_def)
  show "a \<le> a" by (simp add: less_eq_Admission_def desirability_key cmp_def)
  show "a \<le> c" if "a \<le> b" "b \<le> c"
    using that by (auto simp: less_eq_Admission_def desirability_key cmp_def not_less dest: order_trans split: if_splits)
  show "a = b" if "a \<le> b" "b \<le> a"
    using that by (auto simp: less_eq_Admission_def desirability_key cmp_def split: if_splits)
  show "a \<le> b \<or> b \<le> a" by (auto simp: less_eq_Admission_def desirability_key cmp_def)
qed

end

lemma Admission_less: "a < b \<longleftrightarrow> rank_key a < rank_key b"
  by (auto simp: less_Admission_def desirability_key cmp_def)

section \<open>The bounded set\<close>

definition heap_peek :: "'a::linorder list \<Rightarrow> 'a option" where
  "heap_peek h = (case h of [] \<Rightarrow> None | x # _ \<Rightarrow> Some x)"

definition heap_push :: "'a::linorder \<Rightarrow> 'a list \<Rightarrow> 'a list" where
  "heap_push x h = insort x h"

definition heap_pop :: "'a::linorder list \<Rightarrow> 'a list" where
  "heap_pop h = tl h"

record AdmissionCap =
  cap :: nat
  heap :: "Admission list"

definition cap_new :: "nat \<Rightarrow> AdmissionCap" where
  "cap_new n = \<lparr>cap = n, heap = []\<rparr>"

definition would_admit :: "AdmissionCap \<Rightarrow> Admission \<Rightarrow> bool" where
  "would_admit c adm =
     (if cap c = 0 then False
      else if length (heap c) < cap c then True
      else case heap_peek (heap c) of Some worst \<Rightarrow> worst < adm | None \<Rightarrow> True)"

definition cap_admit :: "Admission \<Rightarrow> AdmissionCap \<Rightarrow> bool \<times> AdmissionCap" where
  "cap_admit adm c =
     (if cap c = 0 then (False, c)
      else if length (heap c) < cap c then (True, c\<lparr>heap := heap_push adm (heap c)\<rparr>)
      else case heap_peek (heap c) of
        Some worst \<Rightarrow> if worst < adm then (True, c\<lparr>heap := heap_push adm (heap_pop (heap c))\<rparr>) else (False, c)
      | None \<Rightarrow> (False, c))"

definition worst_admitted :: "AdmissionCap \<Rightarrow> Admission option" where
  "worst_admitted c = heap_peek (heap c)"

definition cap_len :: "AdmissionCap \<Rightarrow> nat" where "cap_len c = length (heap c)"

definition cap_is_empty :: "AdmissionCap \<Rightarrow> bool" where "cap_is_empty c \<longleftrightarrow> heap c = []"

definition is_full :: "AdmissionCap \<Rightarrow> bool" where
  "is_full c \<longleftrightarrow> cap c \<noteq> 0 \<and> cap c \<le> length (heap c)"

definition into_admitted :: "AdmissionCap \<Rightarrow> Admission list" where "into_admitted c = heap c"

definition derive_age_ceiling :: "AdmissionCap \<Rightarrow> int option" where
  "derive_age_ceiling c =
     (if \<not> is_full c then None else Option.bind (worst_admitted c) genesis_at)"

section \<open>What a cap holds\<close>

lemma drop_insort:
  "sorted s \<Longrightarrow> k < length s \<Longrightarrow>
    drop (Suc k) (insort a s) = (if s ! k < a then insort a (drop (Suc k) s) else drop k s)"
proof (induction s arbitrary: k)
  case (Cons x s)
  have le: "x \<le> s ! j" if "j < length s" for j using Cons.prems(1) that by simp
  show ?case
  proof (cases "a \<le> x")
    case True
    then have "\<not> (x # s) ! k < a" using le [of "k - 1"] Cons.prems(2) by (cases k) (auto simp: not_less)
    with True show ?thesis by simp
  next
    case False
    then show ?thesis using Cons by (cases k) auto
  qed
qed simp

definition cap_wf :: "AdmissionCap \<Rightarrow> bool" where
  "cap_wf c \<longleftrightarrow> sorted (heap c) \<and> length (heap c) \<le> cap c"

lemma admit_wf: "cap_wf c \<Longrightarrow> cap_wf (snd (cap_admit a c)) \<and> cap (snd (cap_admit a c)) = cap c"
  by (cases "heap c") (auto simp: cap_wf_def cap_admit_def heap_push_def heap_pop_def heap_peek_def sorted_insort set_insort_key)

lemma admit_decides: "cap_wf c \<Longrightarrow> fst (cap_admit a c) = would_admit c a"
  by (cases "heap c") (auto simp: cap_wf_def cap_admit_def would_admit_def heap_peek_def)

lemma insort_differs: "insort a xs \<noteq> xs" "a \<noteq> b \<Longrightarrow> insort a xs \<noteq> b # xs"
proof -
  show "insort a xs \<noteq> xs" by (metis length_insort n_not_Suc_n)
  show "insort a xs \<noteq> b # xs" if "a \<noteq> b"
  proof
    assume "insort a xs = b # xs"
    then have "add_mset a (mset xs) = add_mset b (mset xs)" by (metis mset.simps(2) mset_insort)
    with that show False by simp
  qed
qed

lemma admit_changes: "cap_wf c \<Longrightarrow> fst (cap_admit a c) \<longleftrightarrow> heap (snd (cap_admit a c)) \<noteq> heap c"
  using insort_differs(1) [of a "heap c"] insort_differs(2) [of a "hd (heap c)" "tl (heap c)"]
  by (cases "heap c") (auto simp: cap_admit_def heap_push_def heap_pop_def heap_peek_def)

text \<open>The reference: of everything offered so far, the \<open>n\<close> greatest.\<close>

definition best :: "nat \<Rightarrow> Admission list \<Rightarrow> Admission list" where
  "best n adms = drop (length adms - n) (sort adms)"

lemma admit_best:
  assumes "cap c = n" "heap c = best n adms"
  shows "heap (snd (cap_admit a c)) = best n (adms @ [a])"
proof -
  have s: "sort (adms @ [a]) = insort a (sort adms)"
    by (rule properties_for_sort) (simp_all add: sorted_insort)
  consider "n = 0" | "n > 0" "length adms < n" | k where "length adms = n + k" "n > 0"
    by (metis le_Suc_ex linorder_not_le neq0_conv)
  then show ?thesis
  proof cases
    case 3
    then have h: "heap c = sort adms ! k # drop (Suc k) (sort adms)"
      using assms(2) by (simp add: best_def Cons_nth_drop_Suc)
    have "best n (adms @ [a]) = (if sort adms ! k < a then insort a (tl (heap c)) else heap c)"
      using 3 drop_insort [of "sort adms" k a] assms(2) h by (auto simp: best_def s Suc_diff_le drop_Suc tl_drop)
    with 3 assms(1) h show ?thesis
      by (auto simp: cap_admit_def heap_peek_def heap_push_def heap_pop_def)
  qed (use assms in \<open>auto simp: cap_admit_def best_def s heap_push_def\<close>)
qed

definition offer_all :: "Admission list \<Rightarrow> AdmissionCap \<Rightarrow> AdmissionCap" where
  "offer_all adms c = fold (\<lambda>a c. snd (cap_admit a c)) adms c"

lemma offer_all_best:
  assumes "cap c = n" "heap c = best n seen"
  shows "cap (offer_all adms c) = n \<and> heap (offer_all adms c) = best n (seen @ adms)"
  using assms
proof (induction adms arbitrary: c seen)
  case (Cons a adms)
  have "cap (snd (cap_admit a c)) = n" using Cons.prems(1) by (auto simp: cap_admit_def split: option.splits)
  from Cons.IH [OF this admit_best [OF Cons.prems]] show ?case by (simp add: offer_all_def)
qed (simp add: offer_all_def)

lemma best_wf: "cap c = n \<Longrightarrow> heap c = best n adms \<Longrightarrow> cap_wf c"
  by (auto simp: cap_wf_def best_def sorted_wrt_drop)

lemma best_dominates:
  assumes "x \<in> set (best n adms)" "y \<in># mset adms - mset (best n adms)"
  shows "y \<le> x"
proof -
  let ?k = "length adms - n"
  have "mset adms = mset (take ?k (sort adms)) + mset (best n adms)"
    unfolding best_def by (metis append_take_drop_id mset_append mset_sort)
  with assms(2) have "y \<in> set (take ?k (sort adms))" by simp
  moreover have "sorted (take ?k (sort adms) @ drop ?k (sort adms))" by simp
  ultimately show ?thesis using assms(1) unfolding best_def sorted_append by blast
qed

text \<open>C19. After any trusters have been offered to a new cap, in any order, it holds exactly the \<open>N\<close> most desirable of
  them: the set is the \<open>N\<close> greatest of the offers, nothing left out outranks anything kept, the root of the heap is
  the least kept, and the answer to a further offer says whether that offer is among the \<open>N\<close> best.\<close>

theorem cap_keeps_best:
  "let c = offer_all adms (cap_new n) in
     into_admitted c = best n adms \<and> cap_len c = min n (length adms)
    \<and> (\<forall>x y. x \<in> set (into_admitted c) \<and> y \<in># mset adms - mset (into_admitted c) \<longrightarrow> y \<le> x)
    \<and> worst_admitted c = (if into_admitted c = [] then None else Some (Min (set (into_admitted c))))
    \<and> (\<forall>a. would_admit c a = fst (cap_admit a c) \<and> (fst (cap_admit a c) \<longleftrightarrow> best n (adms @ [a]) \<noteq> best n adms))"
proof -
  define c where "c = offer_all adms (cap_new n)"
  have "heap (cap_new n) = best n []" by (simp add: cap_new_def best_def)
  from offer_all_best [OF _ this, of adms] have h: "cap c = n" "heap c = best n adms"
    by (simp_all add: c_def cap_new_def)
  note wf = best_wf [OF h]
  have w: "worst_admitted c = Some (Min (set (heap c)))" if "heap c \<noteq> []"
    using that wf by (cases "heap c") (auto simp: worst_admitted_def heap_peek_def cap_wf_def intro!: Min_eqI [symmetric])
  have "fst (cap_admit a c) \<longleftrightarrow> best n (adms @ [a]) \<noteq> best n adms" for a
    using admit_changes [OF wf, of a] admit_best [OF h, of a] h(2) by simp
  with h w best_dominates admit_decides [OF wf] show ?thesis
    unfolding c_def [symmetric] Let_def
    by (auto simp: into_admitted_def cap_len_def best_def worst_admitted_def heap_peek_def)
qed

theorem cap_keeps_best_witness:
  "into_admitted (offer_all [Admission [1] (4/10) (Some 100), Admission [2] (9/10) None] (cap_new 1)) = [Admission [2] (9/10) None] \<and>
   would_admit (offer_all [Admission [1] (4/10) (Some 100), Admission [2] (9/10) None] (cap_new 1)) (Admission [3] 1 None) =
     fst (cap_admit (Admission [3] 1 None) (offer_all [Admission [1] (4/10) (Some 100), Admission [2] (9/10) None] (cap_new 1)))"
proof -
  let ?adms = "[Admission [1] (4/10) (Some 100), Admission [2] (9/10) None]"
  have "best 1 ?adms = [Admission [2] (9/10) None]"
    by (simp add: best_def less_eq_Admission_def desirability_def cmp_def)
  then have "into_admitted (offer_all ?adms (cap_new 1)) = [Admission [2] (9/10) None]"
    using cap_keeps_best [of ?adms 1, unfolded Let_def, THEN conjunct1] by (rule trans [rotated])
  moreover have "\<forall>a. would_admit (offer_all ?adms (cap_new 1)) a = fst (cap_admit a (offer_all ?adms (cap_new 1)))"
    using cap_keeps_best [of ?adms 1, unfolded Let_def] by (elim conjE) (rule allI, drule spec, erule conjunct1)
  ultimately show ?thesis by blast
qed

section \<open>The age ceiling\<close>

lemma ceiling_worst:
  assumes "derive_age_ceiling c = Some cutoff"
  obtains w where "worst_admitted c = Some w" "genesis_at w = Some cutoff" "cap c \<noteq> 0" "cap c \<le> length (heap c)"
  using assms by (auto simp: derive_age_ceiling_def is_full_def bind_eq_Some_conv split: if_splits)

text \<open>The ceiling a reader advertises tells its peers to withhold the sources younger than the worst admitted
  truster. A withheld source that the reader trusts no more than that truster is one the cap would have refused; a
  withheld source that the reader trusts more is one the cap would have admitted.\<close>

theorem ceiling_sheds:
  assumes "derive_age_ceiling c = Some cutoff" "\<not> ceiling_admits cutoff (genesis_at a)"
  shows "\<exists>w. worst_admitted c = Some w \<and> genesis_at w = Some cutoff \<and>
    (would_admit c a \<longleftrightarrow> forward_score w < forward_score a)"
proof -
  from assms(1) obtain w where w: "worst_admitted c = Some w" "genesis_at w = Some cutoff" "cap c \<noteq> 0" "cap c \<le> length (heap c)"
    by (rule ceiling_worst)
  obtain g where g: "genesis_at a = Some g" "cutoff < g"
    using assms(2) by (auto simp: ceiling_admits_def split: option.splits)
  have "would_admit c a \<longleftrightarrow> w < a" using w by (simp add: would_admit_def worst_admitted_def)
  also have "\<dots> \<longleftrightarrow> forward_score w < forward_score a"
    using w(2) g by (auto simp: Admission_less rank_key_def)
  finally show ?thesis using w by blast
qed

theorem ceiling_sheds_witness:
  "\<exists>w. worst_admitted \<lparr>cap = 1, heap = [Admission [1] (4/10) (Some 100)]\<rparr> = Some w \<and> genesis_at w = Some 100 \<and>
    (would_admit \<lparr>cap = 1, heap = [Admission [1] (4/10) (Some 100)]\<rparr> (Admission [2] (9/10) (Some 200)) \<longleftrightarrow>
      forward_score w < forward_score (Admission [2] (9/10) (Some 200)))"
proof -
  have "derive_age_ceiling \<lparr>cap = 1, heap = [Admission [1] (4/10) (Some 100)]\<rparr> = Some 100"
    by (simp add: derive_age_ceiling_def is_full_def worst_admitted_def heap_peek_def)
  moreover have "\<not> ceiling_admits 100 (genesis_at (Admission [2] (9/10) (Some 200)))"
    by (simp add: ceiling_admits_def)
  ultimately show ?thesis by (rule ceiling_sheds)
qed

end
