(* ===== verification/Frontier_Store.thy ===== *)
theory Frontier_Store
  imports Admission_Cap Level_Search Node_Index
begin

text \<open>
  The reverse-frontier store of \<open>server/src/federation/frontier_store.rs\<close>: the \<open>frontier_edges\<close> and
  \<open>frontier_users\<close> tables with their generation stamps, the multi-source reverse search that marks the live edges,
  fills the readers' caps and writes the stubs, the generational sweep, and the publication of the age ceilings.
  A table is the list of its rows and a statement the function on it that the SQL denotes; the store is assumed to
  answer (the \<open>sqlx::Error\<close> exits abandon the pass). Generations and timestamps are \<open>i64\<close> columns that only grow
  by one per rebuild, so they are integers here. \<open>Uuid::parse_str\<close> is a parameter.
\<close>

section \<open>Tables\<close>

definition FRONTIER_MAX_DEPTH :: nat where "FRONTIER_MAX_DEPTH = 3"
definition FRONTIER_GC_K :: int where "FRONTIER_GC_K = 3"

text \<open>A row of \<open>frontier_edges\<close>.\<close>

record edge_row =
  er_hash :: bytes
  er_source :: bytes
  er_target :: bytes
  er_prior :: "bytes option"
  er_stance :: string
  er_created :: int
  er_payload :: bytes
  er_signature :: bytes
  er_generation :: int

text \<open>A row of \<open>frontier_users\<close>.\<close>

record stub_row =
  sr_key :: bytes
  sr_home_key :: bytes
  sr_home_domain :: string
  sr_display_name :: "string option"
  sr_generation :: int
  sr_hop :: int

record user_row =
  us_id :: string
  us_public_key :: bytes
  us_home :: "bytes option"
  us_status :: string

record home_row =
  hr_user :: bytes
  hr_home_key :: bytes
  hr_home_domain :: string

text \<open>The columns of the database the store reads and writes: its own four tables, and \<open>users\<close>, \<open>user_homes\<close>,
  \<open>peers\<close> (key and domain) and \<open>user_genesis\<close>, which it only reads.\<close>

record frontier_db =
  db_edges :: "edge_row list"
  db_stubs :: "stub_row list"
  db_generation :: int
  db_ceilings :: "(bytes \<times> int) list"
  db_users :: "user_row list"
  db_homes :: "home_row list"
  db_peers :: "(bytes \<times> string) list"
  db_genesis :: "(bytes \<times> int) list"

record FrontierEdgeRef =
  ref_hash :: bytes
  ref_source :: bytes
  ref_target :: bytes
  ref_prior :: "bytes option"
  ref_stance :: TrustStance
  ref_created :: u64
  ref_generation :: int

definition to_array_32 :: "bytes \<Rightarrow> bytes option" where
  "to_array_32 bs = (if length bs = 32 then Some bs else None)"

definition insert_frontier_edge ::
  "TrustEdge \<Rightarrow> bytes \<Rightarrow> bytes \<Rightarrow> bytes \<Rightarrow> int \<Rightarrow> frontier_db \<Rightarrow> bool \<times> frontier_db" where
  "insert_frontier_edge edge canonical_hash signature payload generation db =
     (if \<exists>r \<in> set (db_edges db). er_hash r = canonical_hash then (False, db)
      else (True, db\<lparr>db_edges := db_edges db @
        [\<lparr>er_hash = canonical_hash, er_source = from_key edge, er_target = to_key edge, er_prior = prior_edge_hash edge,
          er_stance = stance_as_str (stance edge), er_created = min (uint (te_created_at edge)) (2 ^ 63 - 1),
          er_payload = payload, er_signature = signature, er_generation = generation\<rparr>]\<rparr>))"

text \<open>The projection of a row, \<open>None\<close> where the reader skips it.\<close>

definition edge_ref :: "edge_row \<Rightarrow> FrontierEdgeRef option" where
  "edge_ref r =
     Option.bind (to_array_32 (er_hash r)) (\<lambda>canonical_hash.
     Option.bind (to_array_32 (er_source r)) (\<lambda>source_pubkey.
     Option.bind (to_array_32 (er_target r)) (\<lambda>target_pubkey.
     Option.bind (case er_prior r of Some bs \<Rightarrow> map_option Some (to_array_32 bs) | None \<Rightarrow> Some None) (\<lambda>prior.
     Option.bind (stance_parse (er_stance r)) (\<lambda>st.
       if 0 \<le> er_created r \<and> er_created r < 2 ^ 64 then
         Some \<lparr>ref_hash = canonical_hash, ref_source = source_pubkey, ref_target = target_pubkey, ref_prior = prior,
               ref_stance = st, ref_created = word_of_int (er_created r), ref_generation = er_generation r\<rparr>
       else None)))))"

definition frontier_edges_by_target :: "bytes \<Rightarrow> frontier_db \<Rightarrow> FrontierEdgeRef list" where
  "frontier_edges_by_target target db = List.map_filter edge_ref (filter (\<lambda>r. er_target r = target) (db_edges db))"

definition load_frontier_edge_payload :: "bytes \<Rightarrow> frontier_db \<Rightarrow> (bytes \<times> bytes) option" where
  "load_frontier_edge_payload canonical_hash db =
     Option.bind (find (\<lambda>r. er_hash r = canonical_hash) (db_edges db)) (\<lambda>row.
       if length (er_signature row) = 64 then Some (er_payload row, er_signature row) else None)"

definition mark_frontier_edge_live :: "bytes \<Rightarrow> int \<Rightarrow> frontier_db \<Rightarrow> frontier_db" where
  "mark_frontier_edge_live canonical_hash generation db =
     db\<lparr>db_edges := map (\<lambda>r. if er_hash r = canonical_hash then r\<lparr>er_generation := generation\<rparr> else r) (db_edges db)\<rparr>"

section \<open>Generations and the sweep\<close>

definition current_generation :: "frontier_db \<Rightarrow> int" where
  "current_generation db = db_generation db"

record FrontierStubKeys =
  visible_keys :: "bytes list"
  expansion_keys :: "bytes list"

definition load_frontier_stub_keys :: "int \<Rightarrow> frontier_db \<Rightarrow> FrontierStubKeys" where
  "load_frontier_stub_keys generation db =
     (let rows = filter (\<lambda>r. to_array_32 (sr_key r) \<noteq> None) (filter (\<lambda>r. sr_generation r = generation) (db_stubs db))
      in \<lparr>visible_keys = map sr_key rows, expansion_keys = map sr_key (filter (\<lambda>r. sr_hop r \<le> 2) rows)\<rparr>)"

definition is_local_user :: "bytes \<Rightarrow> frontier_db \<Rightarrow> bool" where
  "is_local_user key db \<longleftrightarrow> list_ex (\<lambda>u. us_public_key u = key \<and> us_home u = None) (db_users db)"

definition target_in_expansion_set :: "bytes \<Rightarrow> frontier_db \<Rightarrow> bool" where
  "target_in_expansion_set key db =
     (if is_local_user key db then True
      else list_ex (\<lambda>r. sr_key r = key \<and> sr_generation r = current_generation db \<and> sr_hop r \<le> 2) (db_stubs db))"

definition advance_generation :: "frontier_db \<Rightarrow> int \<times> frontier_db" where
  "advance_generation db = (db_generation db + 1, db\<lparr>db_generation := db_generation db + 1\<rparr>)"

record SweepOutcome =
  edges_swept :: nat
  stubs_swept :: nat

definition sweep_frontier :: "int \<Rightarrow> int \<Rightarrow> frontier_db \<Rightarrow> SweepOutcome \<times> frontier_db" where
  "sweep_frontier current k db =
     (let watermark = current - k;
          edges = length (filter (\<lambda>r. er_generation r < watermark) (db_edges db));
          stubs = length (filter (\<lambda>r. sr_generation r < watermark) (db_stubs db))
      in (\<lparr>edges_swept = edges, stubs_swept = stubs\<rparr>,
          db\<lparr>db_edges := filter (\<lambda>r. \<not> er_generation r < watermark) (db_edges db),
             db_stubs := filter (\<lambda>r. \<not> sr_generation r < watermark) (db_stubs db)\<rparr>))"

section \<open>Reading identities, writing stubs\<close>

definition resolve_user_uuid :: "(string \<Rightarrow> uuid option) \<Rightarrow> bytes \<Rightarrow> frontier_db \<Rightarrow> uuid option" where
  "resolve_user_uuid parse_uuid key db =
     Option.bind (find (\<lambda>u. us_public_key u = key) (db_users db)) (\<lambda>u. parse_uuid (us_id u))"

definition load_genesis_at :: "bytes \<Rightarrow> frontier_db \<Rightarrow> int option" where
  "load_genesis_at key db = map_of (db_genesis db) key"

definition resolve_frontier_home :: "bytes \<Rightarrow> frontier_db \<Rightarrow> (bytes \<times> string) option" where
  "resolve_frontier_home key db =
     (let from_peer = (case List.map_filter (\<lambda>u. if us_public_key u = key
              then Option.bind (us_home u) (\<lambda>h. map_option (Pair h) (map_of (db_peers db) h)) else None) (db_users db) of
            [] \<Rightarrow> None
          | (home, domain) # _ \<Rightarrow> (case to_array_32 home of
              Some home_key \<Rightarrow> if domain \<noteq> [] then Some (home_key, domain) else None
            | None \<Rightarrow> None))
      in case find (\<lambda>r. hr_user r = key) (db_homes db) of
        None \<Rightarrow> from_peer
      | Some row \<Rightarrow> (case to_array_32 (hr_home_key row) of
          Some home_key \<Rightarrow> if hr_home_domain row \<noteq> [] then Some (home_key, hr_home_domain row) else from_peer
        | None \<Rightarrow> from_peer))"

definition upsert_frontier_user_stub :: "bytes \<Rightarrow> bytes \<Rightarrow> string \<Rightarrow> int \<Rightarrow> nat \<Rightarrow> frontier_db \<Rightarrow> frontier_db" where
  "upsert_frontier_user_stub key home_key home_domain generation reverse_hop db =
     (if \<exists>r \<in> set (db_stubs db). sr_key r = key
      then db\<lparr>db_stubs := map (\<lambda>r. if sr_key r = key
             then r\<lparr>sr_home_key := home_key, sr_home_domain := home_domain, sr_generation := generation,
                    sr_hop := int reverse_hop\<rparr> else r) (db_stubs db)\<rparr>
      else db\<lparr>db_stubs := db_stubs db @
             [\<lparr>sr_key = key, sr_home_key = home_key, sr_home_domain = home_domain, sr_display_name = None,
               sr_generation = generation, sr_hop = int reverse_hop\<rparr>]\<rparr>)"

datatype NodeMaterialization = LocalNode | StubNode | DeferredNode

definition materialize_frontier_node ::
  "bytes \<Rightarrow> int \<Rightarrow> nat \<Rightarrow> frontier_db \<Rightarrow> NodeMaterialization \<times> frontier_db" where
  "materialize_frontier_node key generation reverse_hop db =
     (if is_local_user key db then (LocalNode, db)
      else case resolve_frontier_home key db of
        Some (home_key, home_domain) \<Rightarrow>
          (StubNode, upsert_frontier_user_stub key home_key home_domain generation reverse_hop db)
      | None \<Rightarrow> (DeferredNode, db))"

section \<open>The active edge of a pair\<close>

text \<open>\<open>by_source\<close> is the hash map, its insertion order irrelevant after the sort.\<close>

definition edge_rank :: "FrontierEdgeRef \<Rightarrow> u64 \<times> bytes" where
  "edge_rank e = (ref_created e, ref_hash e)"

definition keep_latest :: "FrontierEdgeRef \<Rightarrow> (bytes \<times> FrontierEdgeRef) list \<Rightarrow> (bytes \<times> FrontierEdgeRef) list" where
  "keep_latest edge by_source = (case map_of by_source (ref_source edge) of
     Some existing \<Rightarrow> if edge_rank edge \<le> edge_rank existing then by_source
       else AList.update (ref_source edge) edge by_source
   | None \<Rightarrow> AList.update (ref_source edge) edge by_source)"

definition active_edges_by_source :: "FrontierEdgeRef list \<Rightarrow> FrontierEdgeRef list" where
  "active_edges_by_source edges = sort_key ref_source (map snd (fold keep_latest edges []))"

section \<open>The search\<close>

record FrontierReader =
  rd_key :: bytes
  rd_scores :: "uuid \<rightharpoonup> real"

record ReaderCapOutcome =
  out_key :: bytes
  out_cap :: AdmissionCap

record ReverseFrontier =
  reachable :: "bytes set"
  stubs_materialized :: nat
  stubs_deferred :: nat
  locals_skipped :: nat
  edges_marked :: nat
  nodes_pruned :: nat
  rf_caps :: "ReaderCapOutcome list"

definition frontier_default :: ReverseFrontier where
  "frontier_default = \<lparr>reachable = {}, stubs_materialized = 0, stubs_deferred = 0, locals_skipped = 0,
     edges_marked = 0, nodes_pruned = 0, rf_caps = []\<rparr>"

text \<open>The local variables of the pass.\<close>

record pass =
  ps_frontier :: ReverseFrontier
  ps_visited :: "bytes set"
  ps_queue :: "(bytes \<times> nat) list"
  ps_caps :: "AdmissionCap list"
  ps_db :: frontier_db

definition admission_for :: "(string \<Rightarrow> uuid option) \<Rightarrow> frontier_db \<Rightarrow> FrontierReader \<Rightarrow> bytes \<Rightarrow> Admission" where
  "admission_for parse_uuid db reader source =
     Admission source
       (case Option.bind (resolve_user_uuid parse_uuid source db) (rd_scores reader) of Some s \<Rightarrow> s | None \<Rightarrow> 0)
       (load_genesis_at source db)"

definition offer_to_readers ::
  "(string \<Rightarrow> uuid option) \<Rightarrow> FrontierReader list \<Rightarrow> bytes \<Rightarrow> frontier_db \<Rightarrow> AdmissionCap list \<Rightarrow> bool \<times> AdmissionCap list" where
  "offer_to_readers parse_uuid readers source db caps =
     (let results = map (\<lambda>(reader, c). cap_admit (admission_for parse_uuid db reader source) c) (zip readers caps)
      in (list_ex fst results, map snd results))"

definition count_materialized :: "NodeMaterialization \<Rightarrow> ReverseFrontier \<Rightarrow> ReverseFrontier" where
  "count_materialized nm f = (case nm of
     LocalNode \<Rightarrow> f\<lparr>locals_skipped := locals_skipped f + 1\<rparr>
   | StubNode \<Rightarrow> f\<lparr>stubs_materialized := stubs_materialized f + 1\<rparr>
   | DeferredNode \<Rightarrow> f\<lparr>stubs_deferred := stubs_deferred f + 1\<rparr>)"

definition visit_edge ::
  "(string \<Rightarrow> uuid option) \<Rightarrow> FrontierReader list \<Rightarrow> int \<Rightarrow> nat \<Rightarrow> FrontierEdgeRef \<Rightarrow> pass \<Rightarrow> pass" where
  "visit_edge parse_uuid readers generation depth edge s0 =
     (let f = ps_frontier s0;
          s = s0\<lparr>ps_db := mark_frontier_edge_live (ref_hash edge) generation (ps_db s0),
                 ps_frontier := f\<lparr>edges_marked := edges_marked f + 1\<rparr>\<rparr>;
          source = ref_source edge
      in if ref_stance edge \<noteq> Trust then s
         else if source \<in> ps_visited s then s
         else
           let (admitted_any, caps) = offer_to_readers parse_uuid readers source (ps_db s) (ps_caps s);
               s = s\<lparr>ps_visited := insert source (ps_visited s), ps_caps := caps\<rparr>;
               f = ps_frontier s
           in if \<not> admitted_any then s\<lparr>ps_frontier := f\<lparr>nodes_pruned := nodes_pruned f + 1\<rparr>\<rparr>
              else
                let (nm, db) = materialize_frontier_node source generation (depth + 1) (ps_db s);
                    f = count_materialized nm f
                in s\<lparr>ps_db := db, ps_frontier := f\<lparr>reachable := insert source (reachable f)\<rparr>,
                     ps_queue := ps_queue s @ [(source, depth + 1)]\<rparr>)"

definition pass_step ::
  "(string \<Rightarrow> uuid option) \<Rightarrow> FrontierReader list \<Rightarrow> int \<Rightarrow> nat \<Rightarrow> pass \<Rightarrow> pass" where
  "pass_step parse_uuid readers generation limit s = (case ps_queue s of
     [] \<Rightarrow> s
   | (node, depth) # rest \<Rightarrow>
       let s = s\<lparr>ps_queue := rest\<rparr>
       in if depth \<ge> limit then s
          else fold (visit_edge parse_uuid readers generation depth)
                 (active_edges_by_source (frontier_edges_by_target node (ps_db s))) s)"

definition seed_root :: "FrontierReader \<Rightarrow> pass \<Rightarrow> pass" where
  "seed_root reader s =
     (if rd_key reader \<in> ps_visited s then s
      else s\<lparr>ps_visited := insert (rd_key reader) (ps_visited s), ps_queue := ps_queue s @ [(rd_key reader, 0)]\<rparr>)"

definition pass_start :: "FrontierReader list \<Rightarrow> nat \<Rightarrow> frontier_db \<Rightarrow> pass" where
  "pass_start readers cap_n db = fold seed_root readers
     \<lparr>ps_frontier = frontier_default, ps_visited = {}, ps_queue = [], ps_caps = map (\<lambda>_. cap_new cap_n) readers, ps_db = db\<rparr>"

section \<open>The search ends\<close>

text \<open>What the pass never changes: everything but the generation stamps of the edges, the stubs and the ceilings.\<close>

definition skeleton :: "frontier_db \<Rightarrow> edge_row list" where
  "skeleton db = map (\<lambda>r. r\<lparr>er_generation := 0\<rparr>) (db_edges db)"

definition same_graph :: "frontier_db \<Rightarrow> frontier_db \<Rightarrow> bool" where
  "same_graph db db' \<longleftrightarrow> skeleton db' = skeleton db \<and> db_users db' = db_users db \<and> db_homes db' = db_homes db \<and>
     db_peers db' = db_peers db \<and> db_genesis db' = db_genesis db \<and> db_generation db' = db_generation db \<and>
     db_ceilings db' = db_ceilings db"

lemma same_graph_refl [simp]: "same_graph db db"
  by (simp add: same_graph_def)

lemma same_graph_trans: "same_graph db db' \<Longrightarrow> same_graph db' db'' \<Longrightarrow> same_graph db db''"
  by (simp add: same_graph_def)

lemma same_graph_mark [simp]: "same_graph db (mark_frontier_edge_live h g db)"
  by (simp add: same_graph_def skeleton_def mark_frontier_edge_live_def comp_def)

lemma same_graph_upsert [simp]: "same_graph db (upsert_frontier_user_stub k hk hdm g d db)"
  by (simp add: same_graph_def skeleton_def upsert_frontier_user_stub_def)

lemma same_graph_materialize [simp]: "same_graph db (snd (materialize_frontier_node k g d db))"
  by (simp add: materialize_frontier_node_def split: option.splits)

definition sources :: "frontier_db \<Rightarrow> bytes set" where
  "sources db = er_source ` set (db_edges db)"

lemma sources_skeleton: "sources db = er_source ` set (skeleton db)"
  by (simp add: sources_def skeleton_def image_image)

lemma same_graph_sources: "same_graph db db' \<Longrightarrow> sources db' = sources db"
  by (simp add: sources_skeleton same_graph_def)

lemma same_graph_identity:
  assumes "same_graph db db'"
  shows "is_local_user k db' = is_local_user k db" "resolve_frontier_home k db' = resolve_frontier_home k db"
    "admission_for p db' r k = admission_for p db r k"
proof -
  have e: "db_users db' = db_users db" "db_homes db' = db_homes db" "db_peers db' = db_peers db"
    "db_genesis db' = db_genesis db"
    using assms by (simp_all add: same_graph_def)
  show "is_local_user k db' = is_local_user k db" "resolve_frontier_home k db' = resolve_frontier_home k db"
    "admission_for p db' r k = admission_for p db r k"
    unfolding is_local_user_def resolve_frontier_home_def admission_for_def resolve_user_uuid_def load_genesis_at_def e
    by (rule refl)+
qed

text \<open>The three ways through the body of the loop over the edges.\<close>

abbreviation marked :: "int \<Rightarrow> FrontierEdgeRef \<Rightarrow> pass \<Rightarrow> pass" where
  "marked g e s \<equiv> s\<lparr>ps_db := mark_frontier_edge_live (ref_hash e) g (ps_db s),
     ps_frontier := (ps_frontier s)\<lparr>edges_marked := edges_marked (ps_frontier s) + 1\<rparr>\<rparr>"

lemma visit_edge_skip:
  "ref_stance e \<noteq> Trust \<or> ref_source e \<in> ps_visited s \<Longrightarrow> visit_edge p rs g d e s = marked g e s"
  by (auto simp: visit_edge_def Let_def)

lemma visit_edge_pruned:
  assumes "ref_stance e = Trust" "ref_source e \<notin> ps_visited s"
    and "offer_to_readers p rs (ref_source e) (ps_db (marked g e s)) (ps_caps s) = (False, caps)"
  shows "visit_edge p rs g d e s = (let s' = marked g e s; f = ps_frontier s' in
    s'\<lparr>ps_visited := insert (ref_source e) (ps_visited s), ps_caps := caps, ps_frontier := f\<lparr>nodes_pruned := nodes_pruned f + 1\<rparr>\<rparr>)"
  using assms by (simp add: visit_edge_def Let_def)

lemma visit_edge_expanded:
  assumes "ref_stance e = Trust" "ref_source e \<notin> ps_visited s"
    and "offer_to_readers p rs (ref_source e) (ps_db (marked g e s)) (ps_caps s) = (True, caps)"
    and "materialize_frontier_node (ref_source e) g (d + 1) (ps_db (marked g e s)) = (nm, db)"
  shows "visit_edge p rs g d e s = (let s' = marked g e s; f = count_materialized nm (ps_frontier s') in
    s'\<lparr>ps_visited := insert (ref_source e) (ps_visited s), ps_caps := caps, ps_db := db,
       ps_frontier := f\<lparr>reachable := insert (ref_source e) (reachable f)\<rparr>, ps_queue := ps_queue s @ [(ref_source e, d + 1)]\<rparr>)"
  using assms by (simp add: visit_edge_def Let_def)

lemma visit_edge_cases:
  obtains (skip) "ref_stance e \<noteq> Trust \<or> ref_source e \<in> ps_visited s" "visit_edge p rs g d e s = marked g e s"
  | (pruned) caps where "ref_stance e = Trust" "ref_source e \<notin> ps_visited s"
    "offer_to_readers p rs (ref_source e) (ps_db (marked g e s)) (ps_caps s) = (False, caps)"
    "visit_edge p rs g d e s = (let s' = marked g e s; f = ps_frontier s' in
      s'\<lparr>ps_visited := insert (ref_source e) (ps_visited s), ps_caps := caps, ps_frontier := f\<lparr>nodes_pruned := nodes_pruned f + 1\<rparr>\<rparr>)"
  | (expanded) caps nm db where "ref_stance e = Trust" "ref_source e \<notin> ps_visited s"
    "offer_to_readers p rs (ref_source e) (ps_db (marked g e s)) (ps_caps s) = (True, caps)"
    "materialize_frontier_node (ref_source e) g (d + 1) (ps_db (marked g e s)) = (nm, db)"
    "visit_edge p rs g d e s = (let s' = marked g e s; f = count_materialized nm (ps_frontier s') in
      s'\<lparr>ps_visited := insert (ref_source e) (ps_visited s), ps_caps := caps, ps_db := db,
         ps_frontier := f\<lparr>reachable := insert (ref_source e) (reachable f)\<rparr>, ps_queue := ps_queue s @ [(ref_source e, d + 1)]\<rparr>)"
proof -
  obtain b caps where o: "offer_to_readers p rs (ref_source e) (ps_db (marked g e s)) (ps_caps s) = (b, caps)" by fastforce
  obtain nm db where mt: "materialize_frontier_node (ref_source e) g (d + 1) (ps_db (marked g e s)) = (nm, db)" by fastforce
  show ?thesis
  proof (cases "ref_stance e \<noteq> Trust \<or> ref_source e \<in> ps_visited s")
    case False
    then have e: "ref_stance e = Trust" "ref_source e \<notin> ps_visited s" by simp_all
    show ?thesis
    proof (cases b)
      case True
      with o have "offer_to_readers p rs (ref_source e) (ps_db (marked g e s)) (ps_caps s) = (True, caps)" by simp
      from expanded [OF e this mt visit_edge_expanded [OF e this mt]] show ?thesis .
    next
      case False
      with o have "offer_to_readers p rs (ref_source e) (ps_db (marked g e s)) (ps_caps s) = (False, caps)" by simp
      from pruned [OF e this visit_edge_pruned [OF e this]] show ?thesis .
    qed
  qed (rule skip, blast, rule visit_edge_skip)
qed

lemma visit_edge_graph: "same_graph (ps_db s) (ps_db (visit_edge p rs g d e s))"
proof (cases rule: visit_edge_cases [where e = e and s = s and p = p and rs = rs and g = g and d = d])
  case (expanded caps nm db)
  have "same_graph (ps_db (marked g e s)) db"
    using expanded(4) by (metis same_graph_materialize snd_conv)
  from same_graph_trans [OF same_graph_mark this[simplified]] expanded(5) show ?thesis by (simp add: Let_def)
qed (simp_all add: Let_def)

definition weight :: "pass \<Rightarrow> nat" where
  "weight s = length (ps_queue s) + card (sources (ps_db s) - ps_visited s)"

lemma finite_sources [simp]: "finite (sources db)"
  by (simp add: sources_def)

lemma visit_edge_weight:
  assumes "ref_source e \<in> sources (ps_db s)"
  shows "weight (visit_edge p rs g d e s) \<le> weight s"
proof -
  let ?s' = "visit_edge p rs g d e s"
  note src = same_graph_sources [OF visit_edge_graph [of s p rs g d e]]
  have c: "card (sources (ps_db s) - insert (ref_source e) (ps_visited s)) < card (sources (ps_db s) - ps_visited s)"
    if "ref_source e \<notin> ps_visited s"
    using assms that by (intro psubset_card_mono) auto
  show ?thesis
  proof (cases rule: visit_edge_cases [where e = e and s = s and p = p and rs = rs and g = g and d = d])
    case (skip)
    then show ?thesis using src by (simp add: weight_def)
  next
    case (pruned caps)
    then show ?thesis using src c by (simp add: weight_def Let_def)
  next
    case (expanded caps nm db)
    then show ?thesis using src c by (simp add: weight_def Let_def)
  qed
qed

lemma keep_latest_props:
  fixes es :: "FrontierEdgeRef list"
  defines "M \<equiv> fold keep_latest es []"
  shows "distinct (map fst M)" "(k, e) \<in> set M \<Longrightarrow> k = ref_source e \<and> e \<in> set es \<and>
    (\<forall>e' \<in> set es. ref_source e' = k \<longrightarrow> edge_rank e' \<le> edge_rank e)" "fst ` set M = ref_source ` set es"
proof -
  have "distinct (map fst M) \<and> (\<forall>k e. (k, e) \<in> set M \<longrightarrow> k = ref_source e \<and> e \<in> set es \<and>
    (\<forall>e' \<in> set es. ref_source e' = k \<longrightarrow> edge_rank e' \<le> edge_rank e)) \<and> fst ` set M = ref_source ` set es"
    unfolding M_def
  proof (induction es rule: rev_induct)
    case (snoc x es)
    define N where "N = fold keep_latest es []"
    have N: "distinct (map fst N)" "fst ` set N = ref_source ` set es"
      "(k, e) \<in> set N \<Longrightarrow> k = ref_source e \<and> e \<in> set es \<and> (\<forall>e' \<in> set es. ref_source e' = k \<longrightarrow> edge_rank e' \<le> edge_rank e)" for k e
      using snoc unfolding N_def by blast+
    have up: "(k, e) \<in> set (AList.update (ref_source x) x N) \<longleftrightarrow> (if k = ref_source x then e = x else (k, e) \<in> set N)" for k e
      using N(1) by (metis map_of_eq_Some_iff distinct_update update_conv' fun_upd_other fun_upd_same option.inject)
    have dm: "fst ` set (AList.update (ref_source x) x N) = insert (ref_source x) (fst ` set N)"
      by (simp add: update_conv' flip: dom_map_of_conv_image_fst)
    show ?case
    proof (cases "map_of N (ref_source x)")
      case None
      then have fresh: "ref_source x \<notin> fst ` set N" by (simp add: map_of_eq_None_iff)
      have "keep_latest x N = AList.update (ref_source x) x N" by (simp add: keep_latest_def None)
      moreover have "edge_rank e' \<le> edge_rank x" if "e' \<in> set es" "ref_source e' = ref_source x" for e'
        using fresh N(2) that by (metis imageI)
      ultimately show ?thesis using N(1,2,3) by (auto simp: up dm distinct_update simp flip: N_def)
    next
      case (Some ex)
      then have ex: "(ref_source x, ex) \<in> set N" by (rule map_of_SomeD)
      show ?thesis
      proof (cases "edge_rank x \<le> edge_rank ex")
        case True
        have keep: "keep_latest x N = N" by (simp add: keep_latest_def Some True)
        have le: "edge_rank x \<le> edge_rank e" if "(k, e) \<in> set N" "ref_source x = k" for k e
          using that Some N(1) True by (simp add: map_of_eq_Some_iff)
        have im: "fst ` set N = ref_source ` set (es @ [x])" using ex N(2) by force
        have "k = ref_source e \<and> e \<in> set (es @ [x]) \<and>
            (\<forall>e' \<in> set (es @ [x]). ref_source e' = k \<longrightarrow> edge_rank e' \<le> edge_rank e)" if "(k, e) \<in> set N" for k e
          using N(3) [OF that] le [OF that] by auto
        then show ?thesis using N(1) im by (simp add: keep flip: N_def)
      next
        case False
        then have u: "keep_latest x N = AList.update (ref_source x) x N" by (simp add: keep_latest_def Some)
        have "edge_rank e' \<le> edge_rank x" if "e' \<in> set es" "ref_source e' = ref_source x" for e'
          using N(3) [OF ex] that False by (meson linear order_trans)
        then show ?thesis using N u by (auto simp: up dm distinct_update simp flip: N_def)
      qed
    qed
  qed simp
  then show "distinct (map fst M)" "(k, e) \<in> set M \<Longrightarrow> k = ref_source e \<and> e \<in> set es \<and>
    (\<forall>e' \<in> set es. ref_source e' = k \<longrightarrow> edge_rank e' \<le> edge_rank e)" "fst ` set M = ref_source ` set es" by blast+
qed

lemma active_edges_member:
  assumes "e \<in> set (active_edges_by_source es)"
  shows "e \<in> set es" "e' \<in> set es \<Longrightarrow> ref_source e' = ref_source e \<Longrightarrow> edge_rank e' \<le> edge_rank e"
  using assms keep_latest_props(2) [of _ e es] by (auto simp: active_edges_by_source_def)

lemma by_target_source: "e \<in> set (frontier_edges_by_target t db) \<Longrightarrow> ref_source e \<in> sources db"
  by (auto simp: frontier_edges_by_target_def sources_def map_filter_def edge_ref_def to_array_32_def bind_eq_Some_conv
      split: if_splits option.splits)

lemma visit_edges_weight:
  "\<forall>e \<in> set es. ref_source e \<in> sources (ps_db s) \<Longrightarrow> weight (fold (visit_edge p rs g d) es s) \<le> weight s"
proof (induction es arbitrary: s)
  case (Cons e es)
  have "weight (fold (visit_edge p rs g d) es (visit_edge p rs g d e s)) \<le> weight (visit_edge p rs g d e s)"
    using Cons.prems by (intro Cons.IH) (simp add: same_graph_sources [OF visit_edge_graph])
  also have "\<dots> \<le> weight s" using Cons.prems by (intro visit_edge_weight) simp
  finally show ?case by simp
qed simp

lemma pass_step_decreases:
  assumes "ps_queue s \<noteq> []"
  shows "weight (pass_step p rs g limit s) < weight s"
proof -
  obtain node depth rest where q: "ps_queue s = (node, depth) # rest" using assms by (cases "ps_queue s") auto
  have w: "weight (s\<lparr>ps_queue := rest\<rparr>) < weight s" by (simp add: weight_def q)
  have "weight (fold (visit_edge p rs g depth) (active_edges_by_source (frontier_edges_by_target node (ps_db s)))
      (s\<lparr>ps_queue := rest\<rparr>)) \<le> weight (s\<lparr>ps_queue := rest\<rparr>)"
    by (rule visit_edges_weight) (auto dest!: active_edges_member(1) by_target_source)
  with w show ?thesis by (simp add: pass_step_def q Let_def)
qed

function pass_loop ::
  "(string \<Rightarrow> uuid option) \<Rightarrow> FrontierReader list \<Rightarrow> int \<Rightarrow> nat \<Rightarrow> pass \<Rightarrow> pass" where
  "pass_loop p rs g limit s = (if ps_queue s = [] then s else pass_loop p rs g limit (pass_step p rs g limit s))"
  by pat_completeness auto
termination
  by (relation "measure (\<lambda>(p, rs, g, limit, s). weight s)") (auto simp: pass_step_decreases)

declare pass_loop.simps [simp del]

definition reverse_frontier_bfs ::
  "(string \<Rightarrow> uuid option) \<Rightarrow> FrontierReader list \<Rightarrow> nat \<Rightarrow> int \<Rightarrow> nat \<Rightarrow> frontier_db \<Rightarrow> ReverseFrontier \<times> frontier_db" where
  "reverse_frontier_bfs parse_uuid readers cap_n generation limit db =
     (let s = pass_loop parse_uuid readers generation limit (pass_start readers cap_n db)
      in ((ps_frontier s)\<lparr>rf_caps := map (\<lambda>(reader, c). \<lparr>out_key = rd_key reader, out_cap = c\<rparr>) (zip readers (ps_caps s))\<rparr>,
          ps_db s))"

section \<open>One rebuild\<close>

definition upsert_local_age_ceiling :: "bytes \<Rightarrow> int \<Rightarrow> frontier_db \<Rightarrow> frontier_db" where
  "upsert_local_age_ceiling root_key cutoff db = db\<lparr>db_ceilings := AList.update root_key cutoff (db_ceilings db)\<rparr>"

definition delete_local_age_ceiling :: "bytes \<Rightarrow> frontier_db \<Rightarrow> bool \<times> frontier_db" where
  "delete_local_age_ceiling root_key db =
     (root_key \<in> fst ` set (db_ceilings db), db\<lparr>db_ceilings := filter (\<lambda>e. fst e \<noteq> root_key) (db_ceilings db)\<rparr>)"

record CeilingPublication =
  published :: nat
  cleared :: nat

definition publish_one :: "ReaderCapOutcome \<Rightarrow> CeilingPublication \<times> frontier_db \<Rightarrow> CeilingPublication \<times> frontier_db" where
  "publish_one outcome pd = (case derive_age_ceiling (out_cap outcome) of
     Some cutoff \<Rightarrow> ((fst pd)\<lparr>published := published (fst pd) + 1\<rparr>, upsert_local_age_ceiling (out_key outcome) cutoff (snd pd))
   | None \<Rightarrow> (case delete_local_age_ceiling (out_key outcome) (snd pd) of
       (deleted, db) \<Rightarrow> (if deleted then (fst pd)\<lparr>cleared := cleared (fst pd) + 1\<rparr> else fst pd, db)))"

definition publish_local_age_ceilings :: "ReverseFrontier \<Rightarrow> frontier_db \<Rightarrow> CeilingPublication \<times> frontier_db" where
  "publish_local_age_ceilings frontier db = fold publish_one (rf_caps frontier) (\<lparr>published = 0, cleared = 0\<rparr>, db)"

record RebuildOutcome =
  rb_generation :: int
  rb_frontier :: ReverseFrontier
  rb_sweep :: SweepOutcome
  rb_ceilings :: CeilingPublication

definition rebuild_reverse_frontier ::
  "(string \<Rightarrow> uuid option) \<Rightarrow> FrontierReader list \<Rightarrow> nat \<Rightarrow> nat \<Rightarrow> int \<Rightarrow> frontier_db \<Rightarrow> RebuildOutcome \<times> frontier_db" where
  "rebuild_reverse_frontier parse_uuid readers cap_n limit k db =
     (let (generation, db) = advance_generation db;
          (frontier, db) = reverse_frontier_bfs parse_uuid readers cap_n generation limit db;
          (swept, db) = sweep_frontier generation k db;
          (ceilings, db) = publish_local_age_ceilings frontier db
      in (\<lparr>rb_generation = generation, rb_frontier = frontier, rb_sweep = swept, rb_ceilings = ceilings\<rparr>, db))"

section \<open>The active edge is the latest\<close>

lemma active_sources: "ref_source ` set (active_edges_by_source es) = ref_source ` set es"
proof -
  have "ref_source (snd q) = fst q" if "q \<in> set (fold keep_latest es [])" for q
    using that keep_latest_props(2) [of "fst q" "snd q" es] by simp
  then have "(\<lambda>q. ref_source (snd q)) ` set (fold keep_latest es []) = fst ` set (fold keep_latest es [])"
    by (intro image_cong refl)
  then show ?thesis using keep_latest_props(3) [of es] by (simp add: active_edges_by_source_def image_image)
qed

lemma map_ref_source: "map (\<lambda>p. ref_source (snd p)) (fold keep_latest es []) = map fst (fold keep_latest es [])"
  using keep_latest_props(2) by (intro map_cong refl) (metis prod.collapse)

lemma active_strict: "sorted_wrt (<) (map ref_source (active_edges_by_source es))"
proof -
  let ?M = "map snd (fold keep_latest es [])"
  have "mset (map ref_source (sort_key ref_source ?M)) = mset (map ref_source ?M)" by (metis mset_map mset_sort)
  moreover have "distinct (map ref_source ?M)"
    unfolding map_map comp_def map_ref_source by (rule keep_latest_props(1))
  ultimately have "distinct (map ref_source (sort_key ref_source ?M))" by (metis mset_eq_imp_distinct_iff)
  then show ?thesis by (simp add: active_edges_by_source_def strict_sorted_iff)
qed

lemma active_edges_set:
  assumes "distinct (map ref_hash es)"
  shows "set (active_edges_by_source es) =
    {e \<in> set es. \<forall>e' \<in> set es. ref_source e' = ref_source e \<longrightarrow> edge_rank e' \<le> edge_rank e}" (is "?A = ?B")
proof
  show "?A \<subseteq> ?B" using active_edges_member by blast
  show "?B \<subseteq> ?A"
  proof
    fix e assume e: "e \<in> ?B"
    then obtain a where a: "a \<in> ?A" "ref_source a = ref_source e" using active_sources [of es] by force
    with e active_edges_member [OF a(1)] have "a \<in> set es" "edge_rank a = edge_rank e" by (auto intro: antisym)
    with e assms have "a = e" by (auto simp: edge_rank_def distinct_map dest: inj_onD)
    with a show "e \<in> ?A" by simp
  qed
qed

text \<open>Of the stored edges into a node, the search uses one per truster: the one with the greatest creation time,
  the greatest hash among equal times. They come in the order of the trusters' keys, and the order in which the
  database returned the rows does not matter.\<close>

theorem active_edges_latest:
  assumes "distinct (map ref_hash es)"
  shows "sorted_wrt (<) (map ref_source (active_edges_by_source es))
    \<and> set (active_edges_by_source es) =
        {e \<in> set es. \<forall>e' \<in> set es. ref_source e' = ref_source e \<longrightarrow> edge_rank e' \<le> edge_rank e}
    \<and> (\<forall>es'. mset es' = mset es \<longrightarrow> active_edges_by_source es' = active_edges_by_source es)"
proof (intro conjI allI impI active_strict active_edges_set [OF assms])
  fix es' assume m: "mset es' = mset es"
  then have d: "distinct (map ref_hash es')" using assms by (metis mset_eq_imp_distinct_iff mset_map)
  have "set es' = set es" using m by (rule mset_eq_setD)
  with active_edges_set [OF assms] active_edges_set [OF d]
  have s: "set (active_edges_by_source es') = set (active_edges_by_source es)" by simp
  have inj: "inj_on ref_source (set (active_edges_by_source es))"
    using active_strict [of es] by (simp add: strict_sorted_iff distinct_map)
  have "map ref_source (active_edges_by_source es') = map ref_source (active_edges_by_source es)"
    using active_strict s by (intro strict_sorted_equal) auto
  with inj s show "active_edges_by_source es' = active_edges_by_source es"
    by (intro map_inj_on [of ref_source]) auto
qed

definition demo_ref :: "u8 \<Rightarrow> u8 \<Rightarrow> TrustStance \<Rightarrow> u64 \<Rightarrow> FrontierEdgeRef" where
  "demo_ref h src st t = \<lparr>ref_hash = [h], ref_source = [src], ref_target = [0], ref_prior = None, ref_stance = st,
     ref_created = t, ref_generation = 0\<rparr>"

theorem active_edges_latest_witness:
  defines "es \<equiv> [demo_ref 7 1 Trust 5, demo_ref 8 1 Neutral 5, demo_ref 9 2 Trust 4]"
  shows "sorted_wrt (<) (map ref_source (active_edges_by_source es)) \<and>
    active_edges_by_source (rev es) = active_edges_by_source es \<and>
    active_edges_by_source es = [demo_ref 8 1 Neutral 5, demo_ref 9 2 Trust 4]"
proof -
  have d: "distinct (map ref_hash es)" by (simp add: es_def demo_ref_def)
  have "active_edges_by_source es = [demo_ref 8 1 Neutral 5, demo_ref 9 2 Trust 4]"
    by (simp add: es_def demo_ref_def active_edges_by_source_def keep_latest_def edge_rank_def)
  with active_edges_latest [OF d] show ?thesis by simp
qed

section \<open>The graph the search walks\<close>

text \<open>The stamps play no part in the choice of the active edges.\<close>

abbreviation unstamped :: "FrontierEdgeRef \<Rightarrow> FrontierEdgeRef" where
  "unstamped e \<equiv> e\<lparr>ref_generation := 0\<rparr>"

definition edges_into :: "frontier_db \<Rightarrow> bytes \<Rightarrow> FrontierEdgeRef list" where
  "edges_into db x = map unstamped (active_edges_by_source (frontier_edges_by_target x db))"

definition trusters :: "frontier_db \<Rightarrow> bytes \<Rightarrow> bytes set" where
  "trusters db x = {ref_source e |e. e \<in> set (edges_into db x) \<and> ref_stance e = Trust}"

lemma edge_ref_unstamped: "edge_ref (r\<lparr>er_generation := 0\<rparr>) = map_option unstamped (edge_ref r)"
  by (cases "to_array_32 (er_hash r)"; cases "to_array_32 (er_source r)"; cases "to_array_32 (er_target r)";
      cases "stance_parse (er_stance r)"; cases "er_prior r"; cases "to_array_32 (the (er_prior r))") (simp_all add: edge_ref_def)

lemma by_target_unstamped:
  "map unstamped (frontier_edges_by_target x db) = List.map_filter edge_ref (filter (\<lambda>r. er_target r = x) (skeleton db))"
proof -
  have "map unstamped (List.map_filter edge_ref (filter (\<lambda>r. er_target r = x) rs)) =
    List.map_filter edge_ref (filter (\<lambda>r. er_target r = x) (map (\<lambda>r. r\<lparr>er_generation := 0\<rparr>) rs))" for rs
    by (induction rs) (auto simp: map_filter_simps edge_ref_unstamped split: option.splits)
  then show ?thesis by (simp add: frontier_edges_by_target_def skeleton_def)
qed

lemma insort_key_map: "insort_key f (h x) (map h xs) = map h (insort_key (\<lambda>y. f (h y)) x xs)"
  by (induction xs) auto

lemma sort_key_map: "sort_key f (map h xs) = map h (sort_key (\<lambda>y. f (h y)) xs)"
  by (induction xs) (simp_all add: insort_key_map)

lemma update_apsnd: "AList.update k (h v) (map (apsnd h) al) = map (apsnd h) (AList.update k v al)"
  by (induction al) auto

lemma keep_latest_unstamped:
  "keep_latest (unstamped e) (map (apsnd unstamped) by_source) = map (apsnd unstamped) (keep_latest e by_source)"
proof -
  have "map_of (map (apsnd unstamped) by_source) k = map_option unstamped (map_of by_source k)" for k
    by (induction by_source) auto
  then show ?thesis
    by (simp add: keep_latest_def edge_rank_def update_apsnd split: option.splits)
qed

lemma active_edges_unstamped: "active_edges_by_source (map unstamped es) = map unstamped (active_edges_by_source es)"
proof -
  have "fold keep_latest (map unstamped es) (map (apsnd unstamped) acc) = map (apsnd unstamped) (fold keep_latest es acc)" for acc
    by (induction es arbitrary: acc) (simp_all add: keep_latest_unstamped)
  from this [of "[]"] show ?thesis by (simp add: active_edges_by_source_def sort_key_map comp_def)
qed

lemma edges_into_skeleton:
  "edges_into db x = active_edges_by_source (List.map_filter edge_ref (filter (\<lambda>r. er_target r = x) (skeleton db)))"
  by (simp add: edges_into_def flip: active_edges_unstamped by_target_unstamped)

lemma same_graph_edges_into: "same_graph db db' \<Longrightarrow> edges_into db' x = edges_into db x"
  by (simp add: edges_into_skeleton same_graph_def)

lemma visit_edge_unstamped: "visit_edge p rs g d (unstamped e) = visit_edge p rs g d e"
  by (rule ext) (simp add: visit_edge_def)

lemma pass_step_Cons:
  assumes "ps_queue s = (x, d) # rest"
  shows "pass_step p rs g limit s = (if d \<ge> limit then s\<lparr>ps_queue := rest\<rparr>
    else fold (visit_edge p rs g d) (edges_into (ps_db s) x) (s\<lparr>ps_queue := rest\<rparr>))"
proof -
  have "fold (visit_edge p rs g d) (map unstamped es) = fold (visit_edge p rs g d) es" for es
    by (induction es) (simp_all add: visit_edge_unstamped)
  then show ?thesis by (simp add: pass_step_def assms Let_def edges_into_def)
qed

lemma edges_into_sources: "e \<in> set (edges_into db x) \<Longrightarrow> ref_source e \<in> sources db"
  by (auto simp: edges_into_def dest!: active_edges_member(1) by_target_source)

section \<open>The caps of a pass\<close>

text \<open>The caps after the sources \<open>L\<close> have been offered to every reader.\<close>

definition offered_caps ::
  "(string \<Rightarrow> uuid option) \<Rightarrow> frontier_db \<Rightarrow> FrontierReader list \<Rightarrow> nat \<Rightarrow> bytes list \<Rightarrow> AdmissionCap list" where
  "offered_caps p db rs n L = map (\<lambda>r. \<lparr>cap = n, heap = best n (map (admission_for p db r) L)\<rparr>) rs"

lemma admit_record:
  "snd (cap_admit a \<lparr>cap = n, heap = best n adms\<rparr>) = \<lparr>cap = n, heap = best n (adms @ [a])\<rparr>"
proof -
  let ?c = "\<lparr>cap = n, heap = best n adms\<rparr>"
  have "cap (snd (cap_admit a ?c)) = n" using admit_wf [OF best_wf [of ?c n adms]] by simp
  moreover have "heap (snd (cap_admit a ?c)) = best n (adms @ [a])" by (rule admit_best) simp_all
  ultimately show ?thesis by (intro AdmissionCap.equality) simp_all
qed

lemma admit_roomy: "length adms < n \<Longrightarrow> fst (cap_admit a \<lparr>cap = n, heap = best n adms\<rparr>)"
  by (simp add: cap_admit_def best_def)

lemma zip_map_self: "zip xs (map f xs) = map (\<lambda>x. (x, f x)) xs"
  by (induction xs) simp_all

lemma offer_to_readers_caps:
  assumes "same_graph db db'"
  shows "snd (offer_to_readers p rs x db' (offered_caps p db rs n L)) = offered_caps p db rs n (L @ [x])"
    "fst (offer_to_readers p rs x db' (offered_caps p db rs n L)) \<longleftrightarrow>
       (\<exists>r \<in> set rs. fst (cap_admit (admission_for p db r x) \<lparr>cap = n, heap = best n (map (admission_for p db r) L)\<rparr>))"
  by (simp_all add: offer_to_readers_def offered_caps_def zip_map_self Let_def same_graph_identity(3) [OF assms]
      admit_record list_ex_iff)

text \<open>What holds throughout a pass: the offered sources \<open>L\<close> are the visited nodes that are not roots.\<close>

definition pass_inv ::
  "(string \<Rightarrow> uuid option) \<Rightarrow> FrontierReader list \<Rightarrow> nat \<Rightarrow> frontier_db \<Rightarrow> bytes list \<Rightarrow> pass \<Rightarrow> bool" where
  "pass_inv p rs n db L s \<longleftrightarrow> same_graph db (ps_db s) \<and> ps_caps s = offered_caps p db rs n L \<and> distinct L \<and>
     set L = ps_visited s - rd_key ` set rs \<and> rd_key ` set rs \<subseteq> ps_visited s \<and> set L \<subseteq> sources db"

lemma visit_edge_inv:
  assumes "pass_inv p rs n db L s" "ref_source e \<in> sources db"
  shows "pass_inv p rs n db (if ref_stance e = Trust \<and> ref_source e \<notin> ps_visited s then L @ [ref_source e] else L)
    (visit_edge p rs g d e s)"
proof -
  note I = assms(1) [unfolded pass_inv_def]
  have sd: "same_graph db (ps_db s)" using I by simp
  note sg = same_graph_trans [OF sd visit_edge_graph [of s p rs g d e]]
  have "same_graph db (ps_db (marked g e s))" using same_graph_trans [OF sd same_graph_mark] by simp
  note o = offer_to_readers_caps [OF this, of p rs "ref_source e" n L]
  show ?thesis
  proof (cases rule: visit_edge_cases [where e = e and s = s and p = p and rs = rs and g = g and d = d])
    case (skip)
    then show ?thesis using I sg by (auto simp: pass_inv_def)
  next
    case (pruned caps)
    have "caps = offered_caps p db rs n (L @ [ref_source e])" using o(1) I pruned(3) by simp
    with I sg pruned(1,2,4) assms(2) show ?thesis by (auto simp: pass_inv_def Let_def)
  next
    case (expanded caps nm db')
    have "caps = offered_caps p db rs n (L @ [ref_source e])" using o(1) I expanded(3) by simp
    with I sg expanded(1,2,5) assms(2) show ?thesis by (auto simp: pass_inv_def Let_def)
  qed
qed

end
