(* ===== verification/Frontier_Search.thy ===== *)
theory Frontier_Search
  imports Frontier_Store
begin

text \<open>
  What the reverse search of \<open>frontier_store.rs\<close> finds. In general: every reader's cap holds the best of the
  trusters the pass met, and everything expanded is within the hop limit. With room in the caps: the pass reaches
  exactly the keys within the limit, writes each stub at its distance, and stamps exactly the active edges into the
  keys it expands. And, over a sequence of rebuilds, how long an edge outlives its last stamp.
\<close>

section \<open>One node's worth of edges, with room in the caps\<close>

definition stub_of :: "frontier_db \<Rightarrow> bytes \<Rightarrow> stub_row option" where
  "stub_of db k = find (\<lambda>r. sr_key r = k) (db_stubs db)"

text \<open>The stub of a key after it has been materialized at a hop.\<close>

definition stub_after :: "frontier_db \<Rightarrow> int \<Rightarrow> nat \<Rightarrow> bytes \<Rightarrow> stub_row option \<Rightarrow> stub_row option" where
  "stub_after db g hop k old = (if is_local_user k db then old else case resolve_frontier_home k db of
     None \<Rightarrow> old
   | Some (hk, hdm) \<Rightarrow> Some \<lparr>sr_key = k, sr_home_key = hk, sr_home_domain = hdm,
       sr_display_name = Option.bind old sr_display_name, sr_generation = g, sr_hop = int hop\<rparr>)"

lemma find_map: "find P (map f xs) = map_option f (find (P \<circ> f) xs)"
  by (induction xs) auto

lemma find_append: "find P (xs @ ys) = (case find P xs of None \<Rightarrow> find P ys | Some x \<Rightarrow> Some x)"
  by (induction xs) auto

lemma find_Some_prop: "find P xs = Some x \<Longrightarrow> P x"
  by (metis find_Some_iff)

lemma stub_of_upsert:
  "stub_of (upsert_frontier_user_stub k hk hdm g hop db) k' =
     (if k' = k then Some \<lparr>sr_key = k, sr_home_key = hk, sr_home_domain = hdm,
        sr_display_name = Option.bind (stub_of db k) sr_display_name, sr_generation = g, sr_hop = int hop\<rparr>
      else stub_of db k')"
proof (cases "\<exists>r \<in> set (db_stubs db). sr_key r = k")
  case True
  let ?f = "\<lambda>r. if sr_key r = k then r\<lparr>sr_home_key := hk, sr_home_domain := hdm, sr_generation := g, sr_hop := int hop\<rparr> else r"
  have key: "sr_key (?f r) = sr_key r" for r by simp
  have "stub_of (upsert_frontier_user_stub k hk hdm g hop db) k' = map_option ?f (stub_of db k')"
    using True by (simp add: stub_of_def upsert_frontier_user_stub_def find_map comp_def key)
  moreover obtain r where "stub_of db k = Some r" "sr_key r = k"
    using True by (metis (mono_tags, lifting) find_None_iff find_Some_prop not_None_eq stub_of_def)
  moreover have "map_option ?f (stub_of db k') = stub_of db k'" if "k' \<noteq> k"
    using that by (cases "stub_of db k'") (auto simp: stub_of_def dest: find_Some_prop)
  ultimately show ?thesis by auto
next
  case False
  then have "find (\<lambda>r. sr_key r = k) (db_stubs db) = None" by (simp add: find_None_iff)
  with False show ?thesis
    by (auto simp: stub_of_def upsert_frontier_user_stub_def find_append split: option.splits)
qed

lemma stub_of_materialize:
  assumes "same_graph db0 db"
  shows "stub_of (snd (materialize_frontier_node k g hop db)) k' =
    (if k' = k then stub_after db0 g hop k (stub_of db k) else stub_of db k')"
  using same_graph_identity [OF assms]
  by (simp add: materialize_frontier_node_def stub_after_def stub_of_upsert split: option.splits)

text \<open>The edge rows after the hashes \<open>H\<close> have been stamped.\<close>

definition restamp :: "int \<Rightarrow> bytes set \<Rightarrow> edge_row \<Rightarrow> edge_row" where
  "restamp g H r = (if er_hash r \<in> H then r\<lparr>er_generation := g\<rparr> else r)"

lemma restamp_restamp: "restamp g H2 (restamp g H1 r) = restamp g (H1 \<union> H2) r"
  by (simp add: restamp_def)

lemma restamp_hash [simp]: "er_hash (restamp g H r) = er_hash r" "restamp g {} r = r"
  by (simp_all add: restamp_def)

lemma mark_edges: "db_edges (mark_frontier_edge_live h g db) = map (restamp g {h}) (db_edges db)"
  by (simp add: mark_frontier_edge_live_def restamp_def)

text \<open>The change from one state of the pass to another: the trusters \<open>T\<close> met, the hashes \<open>H\<close> stamped, the keys
  \<open>new\<close> reached, each queued and materialized at \<open>hop\<close>.\<close>

definition grown ::
  "frontier_db \<Rightarrow> int \<Rightarrow> nat \<Rightarrow> bytes set \<Rightarrow> bytes set \<Rightarrow> bytes list \<Rightarrow> pass \<Rightarrow> pass \<Rightarrow> bool" where
  "grown db0 g hop T H new s s' \<longleftrightarrow>
     ps_visited s' = ps_visited s \<union> T \<and> ps_queue s' = ps_queue s @ map (\<lambda>x. (x, hop)) new \<and> distinct new \<and>
     set new = T - ps_visited s \<and> reachable (ps_frontier s') = reachable (ps_frontier s) \<union> set new \<and>
     nodes_pruned (ps_frontier s') = nodes_pruned (ps_frontier s) \<and>
     db_edges (ps_db s') = map (restamp g H) (db_edges (ps_db s)) \<and>
     (\<forall>k. stub_of (ps_db s') k =
        (if k \<in> set new then stub_after db0 g hop k (stub_of (ps_db s) k) else stub_of (ps_db s) k))"

lemma grown_refl: "grown db0 g hop {} {} [] s s"
  by (simp add: grown_def map_idI)

lemma grown_trans:
  assumes "grown db0 g hop T1 H1 n1 s s1" "grown db0 g hop T2 H2 n2 s1 s2"
  shows "grown db0 g hop (T1 \<union> T2) (H1 \<union> H2) (n1 @ n2) s s2"
  using assms unfolding grown_def by (auto simp: restamp_restamp comp_def)

lemma count_materialized_keeps [simp]:
  "reachable (count_materialized nm f) = reachable f" "nodes_pruned (count_materialized nm f) = nodes_pruned f"
  by (cases nm; simp add: count_materialized_def)+

lemma materialize_edges [simp]: "db_edges (snd (materialize_frontier_node k g hop db)) = db_edges db"
  by (simp add: materialize_frontier_node_def upsert_frontier_user_stub_def split: option.splits)

definition roomy :: "FrontierReader list \<Rightarrow> nat \<Rightarrow> frontier_db \<Rightarrow> bool" where
  "roomy rs n db \<longleftrightarrow> rs \<noteq> [] \<and> card (sources db) \<le> n"

lemma offer_roomy:
  assumes "pass_inv p rs n db L s" "roomy rs n db" "x \<in> sources db" "x \<notin> ps_visited s" "same_graph db db'"
  shows "fst (offer_to_readers p rs x db' (ps_caps s))"
proof -
  note I = assms(1) [unfolded pass_inv_def]
  have "x \<notin> set L" using I assms(4) by auto
  moreover have "distinct L" using I by simp
  ultimately have "length L < card (insert x (set L))" by (simp add: distinct_card)
  also have "\<dots> \<le> card (sources db)" using I assms(3) by (intro card_mono) auto
  also have "\<dots> \<le> n" using assms(2) by (simp add: roomy_def)
  finally have "length L < n" .
  then have "fst (cap_admit (admission_for p db (hd rs) x) \<lparr>cap = n, heap = best n (map (admission_for p db (hd rs)) L)\<rparr>)"
    by (intro admit_roomy) simp
  moreover have "hd rs \<in> set rs" using assms(2) by (simp add: roomy_def)
  ultimately show ?thesis using I offer_to_readers_caps(2) [OF assms(5), of p rs x n L] by auto
qed

abbreviation trust_sources :: "FrontierEdgeRef list \<Rightarrow> bytes set" where
  "trust_sources es \<equiv> {ref_source e |e. e \<in> set es \<and> ref_stance e = Trust}"

lemma visit_edge_grown:
  assumes inv: "pass_inv p rs n db L s" and rm: "roomy rs n db" and src: "ref_source e \<in> sources db"
  shows "\<exists>new. grown db g (d + 1) (trust_sources [e]) {ref_hash e} new s (visit_edge p rs g d e s)"
proof -
  have sd: "same_graph db (ps_db s)" using inv by (simp add: pass_inv_def)
  have sm: "same_graph db (ps_db (marked g e s))" using same_graph_trans [OF sd same_graph_mark] by simp
  show ?thesis
  proof (cases rule: visit_edge_cases [where e = e and s = s and p = p and rs = rs and g = g and d = d])
    case (skip)
    then have "grown db g (d + 1) (trust_sources [e]) {ref_hash e} [] s (visit_edge p rs g d e s)"
      by (auto simp: grown_def mark_edges stub_of_def) (simp_all add: mark_frontier_edge_live_def)
    then show ?thesis by blast
  next
    case (pruned caps)
    then show ?thesis using offer_roomy [OF inv rm src _ sm] by simp
  next
    case (expanded caps nm db')
    have st: "stub_of db' k = (if k = ref_source e then stub_after db g (d + 1) k (stub_of (ps_db s) k) else stub_of (ps_db s) k)" for k
      using stub_of_materialize [OF sm, of "ref_source e" g "d + 1" k] expanded(4)
      by (simp add: stub_of_def mark_frontier_edge_live_def)
    have ed: "db_edges db' = map (restamp g {ref_hash e}) (db_edges (ps_db s))"
      using arg_cong [OF expanded(4), of "\<lambda>r. db_edges (snd r)"] by (simp add: mark_edges)
    have "trust_sources [e] = {ref_source e}" using expanded(1) by auto
    then have "grown db g (d + 1) (trust_sources [e]) {ref_hash e} [ref_source e] s (visit_edge p rs g d e s)"
      using expanded(2,5) st ed by (auto simp: grown_def Let_def)
    then show ?thesis by blast
  qed
qed

lemma visit_edges_grown:
  assumes "pass_inv p rs n db L s" "roomy rs n db" "\<forall>e \<in> set es. ref_source e \<in> sources db"
  shows "\<exists>new L'. grown db g (d + 1) (trust_sources es) (ref_hash ` set es) new s (fold (visit_edge p rs g d) es s) \<and>
    pass_inv p rs n db L' (fold (visit_edge p rs g d) es s)"
  using assms
proof (induction es arbitrary: s L)
  case Nil
  then show ?case using grown_refl by (intro exI conjI) (auto simp: image_def)
next
  case (Cons e es)
  have src: "ref_source e \<in> sources db" and rest: "\<forall>e \<in> set es. ref_source e \<in> sources db" using Cons.prems(3) by simp_all
  obtain new where n: "grown db g (d + 1) (trust_sources [e]) {ref_hash e} new s (visit_edge p rs g d e s)"
    using visit_edge_grown [OF Cons.prems(1,2) src] by blast
  from Cons.IH [OF visit_edge_inv [OF Cons.prems(1) src] Cons.prems(2) rest] obtain new' L' where
    n': "grown db g (d + 1) (trust_sources es) (ref_hash ` set es) new' (visit_edge p rs g d e s)
        (fold (visit_edge p rs g d) es (visit_edge p rs g d e s))"
      "pass_inv p rs n db L' (fold (visit_edge p rs g d) es (visit_edge p rs g d e s))"
    by blast
  have "trust_sources (e # es) = trust_sources [e] \<union> trust_sources es" by auto
  with grown_trans [OF n n'(1)] n'(2) show ?case by (intro exI [of _ "new @ new'"] exI [of _ L']) simp
qed

section \<open>The pass is a level search\<close>

abbreviation roots :: "FrontierReader list \<Rightarrow> bytes set" where
  "roots rs \<equiv> rd_key ` set rs"

text \<open>The queue with depths counted from one, as the interface has them.\<close>

definition lqueue :: "pass \<Rightarrow> (bytes \<times> nat) list" where
  "lqueue s = map (\<lambda>(x, d). (x, Suc d)) (ps_queue s)"

lemma fst_lqueue: "map fst (lqueue s) = map fst (ps_queue s)"
  by (simp add: lqueue_def case_prod_beta)

text \<open>The hashes of the active edges into a set of nodes.\<close>

definition live :: "frontier_db \<Rightarrow> bytes set \<Rightarrow> bytes set" where
  "live db V = (\<Union>x \<in> V. ref_hash ` set (edges_into db x))"

definition popped :: "nat \<Rightarrow> (bytes \<Rightarrow> nat) \<Rightarrow> pass \<Rightarrow> bytes set" where
  "popped limit dep s = {x \<in> ps_visited s. x \<notin> fst ` set (ps_queue s) \<and> dep x \<le> limit}"

definition labels ::
  "(string \<Rightarrow> uuid option) \<Rightarrow> FrontierReader list \<Rightarrow> nat \<Rightarrow> int \<Rightarrow> nat \<Rightarrow> frontier_db \<Rightarrow> (bytes \<Rightarrow> nat) \<Rightarrow> pass \<Rightarrow> bool" where
  "labels p rs n g limit db dep s \<longleftrightarrow>
     (\<exists>L. pass_inv p rs n db L s) \<and> roomy rs n db \<and>
     reachable (ps_frontier s) = ps_visited s - roots rs \<and> nodes_pruned (ps_frontier s) = 0 \<and>
     distinct (map fst (ps_queue s)) \<and> fst ` set (ps_queue s) \<subseteq> ps_visited s \<and>
     (\<forall>x. stub_of (ps_db s) x =
        (if x \<in> ps_visited s - roots rs then stub_after db g (dep x - 1) x (stub_of db x) else stub_of db x)) \<and>
     db_edges (ps_db s) = map (restamp g (live db (popped limit dep s))) (db_edges db)"

lemma lqueue_Cons: "lqueue s = (x, d) # rest \<Longrightarrow>
    \<exists>e rest'. d = Suc e \<and> ps_queue s = (x, e) # rest' \<and> rest = map (\<lambda>(x, d). (x, Suc d)) rest'"
  by (cases "ps_queue s") (auto simp: lqueue_def)

lemma pass_step_pop:
  assumes "labels p rs n g limit db dep s" "lqueue s = (x, d) # rest" "Suc limit \<le> d" "dep x = d"
  shows "lqueue (pass_step p rs g limit s) = rest \<and> ps_visited (pass_step p rs g limit s) = ps_visited s
    \<and> labels p rs n g limit db dep (pass_step p rs g limit s)"
proof -
  obtain e rest' where q: "d = Suc e" "ps_queue s = (x, e) # rest'" "rest = map (\<lambda>(x, d). (x, Suc d)) rest'"
    using lqueue_Cons [OF assms(2)] by blast
  have st: "pass_step p rs g limit s = s\<lparr>ps_queue := rest'\<rparr>" using assms(3) q by (simp add: pass_step_Cons [OF q(2)])
  have "popped limit dep (s\<lparr>ps_queue := rest'\<rparr>) = popped limit dep s"
    using assms(3,4) q by (auto simp: popped_def)
  with assms(1) show ?thesis unfolding st by (auto simp: labels_def lqueue_def q pass_inv_def)
qed

lemma pass_step_expand:
  assumes lab: "labels p rs n g limit db dep s" and lq: "lqueue s = (x, d) # rest" and d: "1 \<le> d" "d < Suc limit"
    and x: "x \<in> ps_visited s" "dep x = d"
  shows "\<exists>new. lqueue (pass_step p rs g limit s) = rest @ new \<and> (\<forall>it \<in> set new. snd it = d + 1)
    \<and> ps_visited (pass_step p rs g limit s) = ps_visited s \<union> trusters db x \<and> fst ` set new = trusters db x - ps_visited s
    \<and> labels p rs n g limit db (\<lambda>p. if p \<in> ps_visited s then dep p else d + 1) (pass_step p rs g limit s)"
proof -
  obtain e rest' where q: "d = Suc e" "ps_queue s = (x, e) # rest'" "rest = map (\<lambda>(x, d). (x, Suc d)) rest'"
    using lqueue_Cons [OF lq] by blast
  define s0 where "s0 = s\<lparr>ps_queue := rest'\<rparr>"
  define s' where "s' = pass_step p rs g limit s"
  note lab' = lab [unfolded labels_def]
  obtain L where "pass_inv p rs n db L s" using lab' by blast
  then have inv: "pass_inv p rs n db L s0" by (auto simp: pass_inv_def s0_def)
  have sg: "same_graph db (ps_db s)" using inv by (simp add: pass_inv_def s0_def)
  have st: "s' = fold (visit_edge p rs g e) (edges_into db x) s0"
    using d q by (simp add: s'_def s0_def pass_step_Cons [OF q(2)] same_graph_edges_into [OF sg])
  obtain new L' where gr: "grown db g (Suc e) (trusters db x) (ref_hash ` set (edges_into db x)) new s0 s'"
      and inv': "pass_inv p rs n db L' s'"
    using visit_edges_grown [OF inv, of "edges_into db x" g e] lab' edges_into_sources [of _ db x]
    by (auto simp: st trusters_def)
  note G = gr [unfolded grown_def s0_def, simplified]
  let ?dep = "\<lambda>p. if p \<in> ps_visited s then dep p else d + 1"
  have xr: "x \<notin> fst ` set rest'" "fst ` set rest' \<subseteq> ps_visited s" "distinct (map fst rest')"
    using lab' q(2) by auto
  have pop: "popped limit ?dep s' = insert x (popped limit dep s)"
    using G x d q xr by (auto simp: popped_def image_Un image_image)
  have "db_edges (ps_db s') = map (restamp g (live db (popped limit ?dep s'))) (db_edges db)"
    using G lab' by (auto simp: pop live_def restamp_restamp comp_def Un_commute)
  moreover have "stub_of (ps_db s') k = (if k \<in> ps_visited s' - roots rs then stub_after db g (?dep k - 1) k (stub_of db k)
      else stub_of db k)" for k
    using G lab' q(1) inv [unfolded pass_inv_def s0_def] by auto
  moreover have "reachable (ps_frontier s') = ps_visited s' - roots rs"
    using G lab' inv [unfolded pass_inv_def s0_def] by auto
  moreover have "distinct (map fst (ps_queue s'))" "fst ` set (ps_queue s') \<subseteq> ps_visited s'"
    using G xr by (auto simp: comp_def image_Un image_image)
  ultimately have "labels p rs n g limit db ?dep s'"
    using inv' lab' G by (auto simp: labels_def)
  moreover have "lqueue s' = rest @ map (\<lambda>x. (x, d + 1)) new"
    using G by (simp add: lqueue_def q)
  ultimately show ?thesis using G unfolding s'_def [symmetric]
    by (intro exI [of _ "map (\<lambda>x. (x, d + 1)) new"]) (auto simp: image_image)
qed

interpretation frontier: level_search lqueue ps_visited "pass_step p rs g limit" "trusters db" "Suc limit" "labels p rs n g limit db"
  for p rs n g limit db
  by unfold_locales (rule pass_step_pop, assumption+, rule pass_step_expand, assumption+)

section \<open>What a pass finds\<close>

lemma pass_start_props:
  "ps_frontier (pass_start rs n db) = frontier_default" "ps_visited (pass_start rs n db) = roots rs"
  "ps_caps (pass_start rs n db) = map (\<lambda>_. cap_new n) rs" "ps_db (pass_start rs n db) = db"
  "fst ` set (ps_queue (pass_start rs n db)) = roots rs" "distinct (map fst (ps_queue (pass_start rs n db)))"
  "\<forall>it \<in> set (ps_queue (pass_start rs n db)). snd it = 0"
proof -
  let ?seeded = "\<lambda>rs' s s'. ps_frontier s' = ps_frontier s \<and> ps_visited s' = ps_visited s \<union> roots rs' \<and>
    ps_caps s' = ps_caps s \<and> ps_db s' = ps_db s \<and> fst ` set (ps_queue s') = fst ` set (ps_queue s) \<union> roots rs' \<and>
    distinct (map fst (ps_queue s')) \<and> (\<forall>it \<in> set (ps_queue s'). snd it = 0)"
  have "?seeded rs' s (fold seed_root rs' s)"
    if "fst ` set (ps_queue s) = ps_visited s" "distinct (map fst (ps_queue s))" "\<forall>it \<in> set (ps_queue s). snd it = 0" for rs' s
    using that
  proof (induction rs' arbitrary: s)
    case (Cons r rs')
    have "fst ` set (ps_queue (seed_root r s)) = ps_visited (seed_root r s)" "distinct (map fst (ps_queue (seed_root r s)))"
      "\<forall>it \<in> set (ps_queue (seed_root r s)). snd it = 0"
      using Cons.prems by (auto simp: seed_root_def)
    from Cons.IH [OF this] Cons.prems show ?case by (auto simp: seed_root_def)
  qed simp
  from this [of "\<lparr>ps_frontier = frontier_default, ps_visited = {}, ps_queue = [], ps_caps = map (\<lambda>_. cap_new n) rs, ps_db = db\<rparr>" rs]
  show "ps_frontier (pass_start rs n db) = frontier_default" "ps_visited (pass_start rs n db) = roots rs"
    "ps_caps (pass_start rs n db) = map (\<lambda>_. cap_new n) rs" "ps_db (pass_start rs n db) = db"
    "fst ` set (ps_queue (pass_start rs n db)) = roots rs" "distinct (map fst (ps_queue (pass_start rs n db)))"
    "\<forall>it \<in> set (ps_queue (pass_start rs n db)). snd it = 0"
    by (simp_all add: pass_start_def)
qed

lemma pass_start_inv: "pass_inv p rs n db [] (pass_start rs n db)"
  by (simp add: pass_inv_def pass_start_props offered_caps_def best_def cap_new_def)

lemma pass_loop_invariant:
  assumes "P s" "\<And>s. P s \<Longrightarrow> ps_queue s \<noteq> [] \<Longrightarrow> P (pass_step p rs g limit s)"
  shows "P (pass_loop p rs g limit s) \<and> ps_queue (pass_loop p rs g limit s) = []"
  using assms
proof (induction p rs g limit s rule: pass_loop.induct)
  case (1 p rs g limit s)
  show ?case
    by (cases "ps_queue s = []"; subst (1 2) pass_loop.simps) (use 1 in simp_all)
qed

abbreviation frontier_inv where
  "frontier_inv p rs n g limit db \<equiv>
     level_search.level_inv lqueue ps_visited (trusters db) (Suc limit) (labels p rs n g limit db)"

lemma pass_run:
  assumes "roomy rs n db"
  shows "(\<exists>dep. frontier_inv p rs n g limit db (roots rs) dep (pass_loop p rs g limit (pass_start rs n db))) \<and>
    ps_queue (pass_loop p rs g limit (pass_start rs n db)) = []"
proof (rule pass_loop_invariant)
  let ?s = "pass_start rs n db"
  note start = pass_start_props [of rs n db]
  have "live db (popped limit (\<lambda>_. 1) ?s) = {}" using start by (auto simp: popped_def live_def)
  then have l: "labels p rs n g limit db (\<lambda>_. 1) ?s"
    using assms start pass_start_inv [of p rs n db] by (auto simp: labels_def frontier_default_def map_idI)
  have q: "fst ` set (lqueue ?s) = roots rs" using start(5) fst_lqueue [of ?s] by (metis list.set_map)
  have "\<forall>it \<in> set (lqueue ?s). snd it = 1" using start(7) by (auto simp: lqueue_def)
  from frontier.level_inv_seed [OF q start(2) this l]
  show "\<exists>dep. frontier_inv p rs n g limit db (roots rs) dep ?s" by (rule exI [where x = "\<lambda>_. 1"])
  show "\<exists>dep. frontier_inv p rs n g limit db (roots rs) dep (pass_step p rs g limit s)"
    if "\<exists>dep. frontier_inv p rs n g limit db (roots rs) dep s" "ps_queue s \<noteq> []" for s
    using frontier.level_inv_step [OF that(1)] that(2) by (simp add: lqueue_def)
qed

text \<open>The distance of a key from the nearest local reader, along active trust edges from truster to trustee.\<close>

definition hop :: "frontier_db \<Rightarrow> FrontierReader list \<Rightarrow> nat \<Rightarrow> bytes \<Rightarrow> nat option" where
  "hop db rs limit x = level (trusters db) (roots rs) (Suc limit) x"

lemma hop_root: "x \<in> roots rs \<longleftrightarrow> hop db rs limit x = Some 0"
  by (simp add: hop_def level_Some)

lemma hop_bound: "hop db rs limit x = Some d \<Longrightarrow> d \<le> limit"
  by (simp add: hop_def level_Some)

text \<open>C17. With room in the readers' caps for every known truster, a pass reaches exactly the keys within the hop limit
  of a local reader, each at its shortest distance: the stub of a remote key whose home is known is written with that
  distance and the current generation, every other stub is left alone, nothing is pruned, and the edges stamped with the
  current generation are exactly the active edges into the keys nearer than the limit.\<close>

theorem frontier_exact:
  assumes "roomy rs n db" "reverse_frontier_bfs p rs n g limit db = (f, db')"
  shows "reachable f = {x. \<exists>d. 1 \<le> d \<and> hop db rs limit x = Some d} \<and> nodes_pruned f = 0
    \<and> (\<forall>x. stub_of db' x = (case hop db rs limit x of
          Some (Suc d) \<Rightarrow> stub_after db g (Suc d) x (stub_of db x) | _ \<Rightarrow> stub_of db x))
    \<and> db_edges db' = map (restamp g (live db {x. \<exists>d < limit. hop db rs limit x = Some d})) (db_edges db)"
proof -
  let ?s = "pass_loop p rs g limit (pass_start rs n db)"
  obtain dep where inv: "frontier_inv p rs n g limit db (roots rs) dep ?s" and q: "ps_queue ?s = []"
    using pass_run [OF assms(1)] by blast
  have lq: "lqueue ?s = []" by (simp add: lqueue_def q)
  note fin = frontier.level_inv_final [OF inv lq, folded hop_def, simplified]
  note lab = frontier.level_invD(7) [OF inv, unfolded labels_def]
  have f: "reachable f = ps_visited ?s - roots rs" "nodes_pruned f = 0" "db' = ps_db ?s"
    using assms(2) lab by (auto simp: reverse_frontier_bfs_def Let_def)
  have 1: "x \<in> ps_visited ?s - roots rs \<longleftrightarrow> (\<exists>d. 1 \<le> d \<and> hop db rs limit x = Some d)" for x
    using fin(2) [of x] hop_root [of x rs db limit] by (cases "hop db rs limit x") (auto simp: Suc_le_eq)
  have 2: "dep x - 1 = d" if "hop db rs limit x = Some d" for x d using fin(1) [of x d] that by simp
  have 3: "stub_of db' x = (case hop db rs limit x of
      Some (Suc d) \<Rightarrow> stub_after db g (Suc d) x (stub_of db x) | _ \<Rightarrow> stub_of db x)" for x
    using lab 1 [of x] 2 [of x] by (auto simp: f split: option.splits nat.splits)
  have "popped limit dep ?s = {x. \<exists>d < limit. hop db rs limit x = Some d}"
    using fin by (auto simp: popped_def q Suc_le_eq) (metis less_Suc_eq_le not_less_eq)+
  with lab have "db_edges db' = map (restamp g (live db {x. \<exists>d < limit. hop db rs limit x = Some d})) (db_edges db)"
    by (simp add: f)
  with 1 3 f show ?thesis by blast
qed

definition demo_key :: "u8 \<Rightarrow> bytes" where "demo_key b = replicate 32 b"

text \<open>A reader with key 1, a remote key 2 that trusts it, whose home is on record, and a key 3 that distrusts key 2.\<close>

definition demo_edge :: "u8 \<Rightarrow> u8 \<Rightarrow> u8 \<Rightarrow> TrustStance \<Rightarrow> edge_row" where
  "demo_edge h src trg st = \<lparr>er_hash = demo_key h, er_source = demo_key src, er_target = demo_key trg, er_prior = None,
     er_stance = stance_as_str st, er_created = 5, er_payload = [], er_signature = replicate 64 0, er_generation = 4\<rparr>"

definition demo_frontier :: frontier_db where
  "demo_frontier = \<lparr>db_edges = [demo_edge 10 2 1 Trust, demo_edge 11 3 2 Distrust], db_stubs = [], db_generation = 7,
     db_ceilings = [], db_users = [\<lparr>us_id = ''u'', us_public_key = demo_key 1, us_home = None, us_status = ''active''\<rparr>],
     db_homes = [\<lparr>hr_user = demo_key 2, hr_home_key = demo_key 9, hr_home_domain = ''b.example''\<rparr>],
     db_peers = [], db_genesis = []\<rparr>"

definition demo_reader :: FrontierReader where
  "demo_reader = \<lparr>rd_key = demo_key 1, rd_scores = Map.empty\<rparr>"

lemma demo_roomy: "roomy [demo_reader] 5 demo_frontier"
  by (simp add: roomy_def sources_def demo_frontier_def demo_edge_def demo_key_def card_insert_if)

definition demo_pass :: "nat \<Rightarrow> ReverseFrontier \<times> frontier_db" where
  "demo_pass n = reverse_frontier_bfs (\<lambda>_. None) [demo_reader] n 8 3 demo_frontier"

lemma demo_pass_split: "reverse_frontier_bfs (\<lambda>_. None) [demo_reader] n 8 3 demo_frontier = (fst (demo_pass n), snd (demo_pass n))"
  by (simp add: demo_pass_def)

theorem frontier_exact_witness:
  "reachable (fst (demo_pass 5)) = {x. \<exists>d. 1 \<le> d \<and> hop demo_frontier [demo_reader] 3 x = Some d} \<and> nodes_pruned (fst (demo_pass 5)) = 0"
  using frontier_exact [OF demo_roomy demo_pass_split] by blast

section \<open>What the caps hold, with or without room\<close>

lemma admit_subset: "set (heap (snd (cap_admit a c))) \<subseteq> (if fst (cap_admit a c) then insert a (set (heap c)) else set (heap c))"
  by (cases "heap c") (auto simp: cap_admit_def heap_push_def heap_pop_def heap_peek_def set_insort_key)

text \<open>The trusters in any reader's cap.\<close>

definition kept :: "(string \<Rightarrow> uuid option) \<Rightarrow> FrontierReader list \<Rightarrow> nat \<Rightarrow> frontier_db \<Rightarrow> bytes list \<Rightarrow> bytes set" where
  "kept p rs n db L = (\<Union>r \<in> set rs. truster ` set (best n (map (admission_for p db r) L)))"

lemma kept_append:
  assumes "same_graph db db'" "fst (offer_to_readers p rs x db' (offered_caps p db rs n L)) = b"
  shows "kept p rs n db (L @ [x]) \<subseteq> (if b then insert x (kept p rs n db L) else kept p rs n db L)"
proof
  fix y assume "y \<in> kept p rs n db (L @ [x])"
  then obtain r a where r: "r \<in> set rs" "a \<in> set (best n (map (admission_for p db r) (L @ [x])))" "y = truster a"
    by (auto simp: kept_def)
  let ?c = "\<lparr>cap = n, heap = best n (map (admission_for p db r) L)\<rparr>"
  from r(2) have "a \<in> set (heap (snd (cap_admit (admission_for p db r x) ?c)))" by (simp add: admit_record)
  with admit_subset consider "a \<in> set (heap ?c)" | "fst (cap_admit (admission_for p db r x) ?c)" "a = admission_for p db r x"
    by (fastforce split: if_splits)
  then show "y \<in> (if b then insert x (kept p rs n db L) else kept p rs n db L)"
  proof cases
    case 1
    then show ?thesis using r by (auto simp: kept_def)
  next
    case 2
    then have b using offer_to_readers_caps(2) [OF assms(1), of p rs x n L] assms(2) r(1) by blast
    with 2 r show ?thesis by (simp add: admission_for_def)
  qed
qed

text \<open>Every queued key lies on a walk of its depth, every offered key on one within the limit; what is expanded was
  offered, and what any cap holds was expanded.\<close>

definition reach_inv ::
  "(string \<Rightarrow> uuid option) \<Rightarrow> FrontierReader list \<Rightarrow> nat \<Rightarrow> nat \<Rightarrow> frontier_db \<Rightarrow> bytes list \<Rightarrow> pass \<Rightarrow> bool" where
  "reach_inv p rs n limit db L s \<longleftrightarrow> pass_inv p rs n db L s \<and>
     (\<forall>(x, d) \<in> set (ps_queue s). x \<in> walk (trusters db) (roots rs) d) \<and>
     (\<forall>x \<in> set L. \<exists>d. 1 \<le> d \<and> d \<le> limit \<and> x \<in> walk (trusters db) (roots rs) d) \<and>
     kept p rs n db L \<subseteq> reachable (ps_frontier s) \<and> reachable (ps_frontier s) \<subseteq> set L \<and>
     length L = card (reachable (ps_frontier s)) + nodes_pruned (ps_frontier s)"

lemma visit_edge_reach:
  assumes ri: "reach_inv p rs n limit db L s" and e: "e \<in> set (edges_into db x)"
    and x: "x \<in> walk (trusters db) (roots rs) d" "d < limit"
  shows "\<exists>L'. reach_inv p rs n limit db L' (visit_edge p rs g d e s)"
proof -
  note R = ri [unfolded reach_inv_def]
  have inv: "pass_inv p rs n db L s" using R by blast
  note inv' = visit_edge_inv [OF inv edges_into_sources [OF e], of g d]
  note sm = same_graph_trans [OF _ same_graph_mark [of "ps_db s" "ref_hash e" g]]
  have sg: "same_graph db (ps_db (marked g e s))" using sm inv by (simp add: pass_inv_def)
  have caps: "ps_caps s = offered_caps p db rs n L" and L: "set L = ps_visited s - roots rs" "distinct L" "set L \<subseteq> ps_visited s"
    using inv by (auto simp: pass_inv_def)
  have w: "ref_source e \<in> walk (trusters db) (roots rs) (Suc d)" if "ref_stance e = Trust"
    using e x that by (auto simp: trusters_def)
  have fin: "finite (reachable (ps_frontier s))" using R finite_subset by blast
  show ?thesis
  proof (cases rule: visit_edge_cases [where e = e and s = s and p = p and rs = rs and g = g and d = d])
    case (skip)
    then have "reach_inv p rs n limit db L (visit_edge p rs g d e s)" using R inv' by (auto simp: reach_inv_def)
    then show ?thesis by blast
  next
    case (pruned caps)
    have "kept p rs n db (L @ [ref_source e]) \<subseteq> kept p rs n db L"
      using kept_append [OF sg, of p rs "ref_source e" n L False] pruned(3) by (simp add: caps)
    then have "reach_inv p rs n limit db (L @ [ref_source e]) (visit_edge p rs g d e s)"
      using R inv' pruned(1,2,4) w x(2) by (auto simp: reach_inv_def Let_def intro!: exI [of _ "Suc d"])
    then show ?thesis by blast
  next
    case (expanded caps nm db')
    have "kept p rs n db (L @ [ref_source e]) \<subseteq> insert (ref_source e) (kept p rs n db L)"
      using kept_append [OF sg, of p rs "ref_source e" n L True] expanded(3) by (simp add: caps)
    moreover have "ref_source e \<notin> reachable (ps_frontier s)" using R L(3) expanded(2) by auto
    ultimately have "reach_inv p rs n limit db (L @ [ref_source e]) (visit_edge p rs g d e s)"
      using R inv' expanded(1,2,5) w x(2) fin by (auto simp: reach_inv_def Let_def intro!: exI [of _ "Suc d"])
    then show ?thesis by blast
  qed
qed

lemma visit_edges_reach:
  assumes "reach_inv p rs n limit db L s" "set es \<subseteq> set (edges_into db x)" "x \<in> walk (trusters db) (roots rs) d" "d < limit"
  shows "\<exists>L'. reach_inv p rs n limit db L' (fold (visit_edge p rs g d) es s)"
  using assms(1,2)
proof (induction es arbitrary: L s)
  case (Cons e es)
  obtain L' where "reach_inv p rs n limit db L' (visit_edge p rs g d e s)"
    using visit_edge_reach [OF Cons.prems(1) _ assms(3,4), of e g] Cons.prems(2) by auto
  from Cons.IH [OF this] Cons.prems(2) show ?case by simp
qed auto

lemma pass_step_reach:
  assumes "reach_inv p rs n limit db L s" "ps_queue s \<noteq> []"
  shows "\<exists>L'. reach_inv p rs n limit db L' (pass_step p rs g limit s)"
proof -
  obtain x d rest where q: "ps_queue s = (x, d) # rest" using assms(2) by (cases "ps_queue s") auto
  have r: "reach_inv p rs n limit db L (s\<lparr>ps_queue := rest\<rparr>)"
    using assms(1) by (auto simp: reach_inv_def pass_inv_def q)
  have "x \<in> walk (trusters db) (roots rs) d" using assms(1) by (auto simp: reach_inv_def q)
  from visit_edges_reach [OF r order_refl this, of g] r show ?thesis
    using same_graph_edges_into [of db "ps_db s" x] assms(1)
    by (auto simp: pass_step_Cons [OF q] reach_inv_def pass_inv_def)
qed

lemma pass_run_reach: "\<exists>L. reach_inv p rs n limit db L (pass_loop p rs g limit (pass_start rs n db))"
proof -
  have "reach_inv p rs n limit db [] (pass_start rs n db)"
    using pass_start_inv [of p rs n db] pass_start_props [of rs n db]
    by (force simp: reach_inv_def frontier_default_def kept_def best_def)
  then have "\<exists>L. reach_inv p rs n limit db L (pass_start rs n db)" ..
  from pass_loop_invariant [where P = "\<lambda>s. \<exists>L. reach_inv p rs n limit db L s", OF this] show ?thesis
    using pass_step_reach by blast
qed

text \<open>Whatever the cap, a pass offers each key it meets once to every reader, and at the end each reader's cap holds
  the \<open>N\<close> most desirable of all the keys offered. Every offered key is within the hop limit of a local reader and is
  no local reader itself; each was either expanded or counted as pruned, and every key in some reader's cap was
  expanded.\<close>

theorem caps_hold_best:
  assumes "reverse_frontier_bfs p rs n g limit db = (f, db')"
  shows "\<exists>L. distinct L \<and> set L \<inter> roots rs = {}
    \<and> (\<forall>x. x \<in> set L \<longrightarrow> (\<exists>d. 1 \<le> d \<and> d \<le> limit \<and> x \<in> walk (trusters db) (roots rs) d))
    \<and> map out_key (rf_caps f) = map rd_key rs
    \<and> map (\<lambda>out. into_admitted (out_cap out)) (rf_caps f) = map (\<lambda>r. best n (map (admission_for p db r) L)) rs
    \<and> reachable f \<subseteq> set L \<and> length L = card (reachable f) + nodes_pruned f
    \<and> (\<Union>out \<in> set (rf_caps f). truster ` set (into_admitted (out_cap out))) \<subseteq> reachable f"
proof -
  let ?s = "pass_loop p rs g limit (pass_start rs n db)"
  obtain L where ri: "reach_inv p rs n limit db L ?s" using pass_run_reach by blast
  note R = ri [unfolded reach_inv_def pass_inv_def]
  have f: "reachable f = reachable (ps_frontier ?s)" "nodes_pruned f = nodes_pruned (ps_frontier ?s)"
    "rf_caps f = map (\<lambda>r. \<lparr>out_key = rd_key r, out_cap = \<lparr>cap = n, heap = best n (map (admission_for p db r) L)\<rparr>\<rparr>) rs"
    using assms R by (auto simp: reverse_frontier_bfs_def Let_def offered_caps_def zip_map_self)
  show ?thesis
    by (rule exI [of _ L]) (use R in \<open>auto simp: f into_admitted_def kept_def comp_def\<close>)
qed

theorem caps_hold_best_witness:
  "\<exists>L. distinct L \<and> length L = card (reachable (fst (demo_pass 1))) + nodes_pruned (fst (demo_pass 1)) \<and>
    map (\<lambda>out. into_admitted (out_cap out)) (rf_caps (fst (demo_pass 1))) =
      [best 1 (map (admission_for (\<lambda>_. None) demo_frontier demo_reader) L)]"
proof -
  from caps_hold_best [OF demo_pass_split [of 1]]
  obtain L where "distinct L" "length L = card (reachable (fst (demo_pass 1))) + nodes_pruned (fst (demo_pass 1))"
    "map (\<lambda>out. into_admitted (out_cap out)) (rf_caps (fst (demo_pass 1))) =
      map (\<lambda>r. best 1 (map (admission_for (\<lambda>_. None) demo_frontier r) L)) [demo_reader]"
    by (elim exE conjE)
  then show ?thesis by (intro exI [of _ L] conjI) (simp_all only: list.map)
qed

section \<open>Rebuilds and the lifetime of an edge\<close>

text \<open>A pass only moves stamps to its generation.\<close>

definition stamps_to :: "int \<Rightarrow> frontier_db \<Rightarrow> frontier_db \<Rightarrow> bool" where
  "stamps_to g db db' \<longleftrightarrow> (\<exists>H. db_edges db' = map (restamp g H) (db_edges db))"

lemma stamps_to_trans: "stamps_to g db db' \<Longrightarrow> stamps_to g db' db'' \<Longrightarrow> stamps_to g db db''"
  by (auto simp: stamps_to_def restamp_restamp comp_def)

lemma stamps_to_refl [simp]: "stamps_to g db db"
  unfolding stamps_to_def by (intro exI [of _ "{}"]) (simp add: map_idI)

lemma stamps_to_mark [simp]: "stamps_to g db (mark_frontier_edge_live h g db)"
  unfolding stamps_to_def mark_edges by blast

lemma visit_edge_stamps: "stamps_to g (ps_db s) (ps_db (visit_edge p rs g d e s))"
proof (cases rule: visit_edge_cases [where e = e and s = s and p = p and rs = rs and g = g and d = d])
  case (expanded caps nm db)
  have "db_edges db = db_edges (mark_frontier_edge_live (ref_hash e) g (ps_db s))"
    using arg_cong [OF expanded(4), of "\<lambda>r. db_edges (snd r)"] by simp
  with expanded(5) show ?thesis unfolding stamps_to_def by (auto simp: Let_def mark_edges)
qed (simp_all add: Let_def)

lemma visit_edges_stamps: "stamps_to g (ps_db s) (ps_db (fold (visit_edge p rs g d) es s))"
  by (induction es arbitrary: s) (auto intro: stamps_to_trans visit_edge_stamps)

lemma pass_step_stamps: "ps_queue s \<noteq> [] \<Longrightarrow> stamps_to g (ps_db s) (ps_db (pass_step p rs g limit s))"
  using visit_edges_stamps [of g "s\<lparr>ps_queue := tl (ps_queue s)\<rparr>" p rs "snd (hd (ps_queue s))"]
  by (cases "ps_queue s"; cases "hd (ps_queue s)") (simp_all add: pass_step_Cons)

lemma bfs_stamps: "stamps_to g db (snd (reverse_frontier_bfs p rs n g limit db))"
proof -
  have "stamps_to g db (ps_db (pass_start rs n db))" by (simp add: pass_start_props)
  from pass_loop_invariant [where P = "\<lambda>s. stamps_to g db (ps_db s)", OF this] show ?thesis
    unfolding reverse_frontier_bfs_def Let_def snd_conv using pass_step_stamps stamps_to_trans by meson
qed

lemma bfs_generation: "db_generation (snd (reverse_frontier_bfs p rs n g limit db)) = db_generation db"
  using pass_run_reach [of p rs n limit db g] by (auto simp: reverse_frontier_bfs_def Let_def reach_inv_def pass_inv_def same_graph_def)

lemma publish_keeps:
  "db_edges (snd (publish_local_age_ceilings f db)) = db_edges db"
  "db_generation (snd (publish_local_age_ceilings f db)) = db_generation db"
  "db_stubs (snd (publish_local_age_ceilings f db)) = db_stubs db"
proof -
  have "db_edges (snd (fold publish_one outs pd)) = db_edges (snd pd) \<and> db_generation (snd (fold publish_one outs pd)) = db_generation (snd pd)
    \<and> db_stubs (snd (fold publish_one outs pd)) = db_stubs (snd pd)" for outs pd
    by (induction outs arbitrary: pd)
      (auto simp: publish_one_def upsert_local_age_ceiling_def delete_local_age_ceiling_def split: option.splits)
  from this [of "rf_caps f" "(\<lparr>published = 0, cleared = 0\<rparr>, db)"]
  show "db_edges (snd (publish_local_age_ceilings f db)) = db_edges db"
    "db_generation (snd (publish_local_age_ceilings f db)) = db_generation db"
    "db_stubs (snd (publish_local_age_ceilings f db)) = db_stubs db"
    by (simp_all add: publish_local_age_ceilings_def)
qed

text \<open>The generations at which the database stamps an edge, rebuild by rebuild, and the database after them.\<close>

type_synonym rebuild_input = "FrontierReader list \<times> nat \<times> nat"

definition rebuild :: "(string \<Rightarrow> uuid option) \<Rightarrow> int \<Rightarrow> rebuild_input \<Rightarrow> frontier_db \<Rightarrow> frontier_db" where
  "rebuild p k i db = snd (rebuild_reverse_frontier p (fst i) (fst (snd i)) (snd (snd i)) k db)"

definition marks :: "(string \<Rightarrow> uuid option) \<Rightarrow> rebuild_input \<Rightarrow> frontier_db \<Rightarrow> bytes set" where
  "marks p i db = er_hash ` {r \<in> set (db_edges (snd (reverse_frontier_bfs p (fst i) (fst (snd i)) (db_generation db + 1) (snd (snd i))
     (db\<lparr>db_generation := db_generation db + 1\<rparr>)))). er_generation r = db_generation db + 1}"

lemma rebuild_edges:
  obtains H where "db_edges (rebuild p k i db) = filter (\<lambda>r. db_generation db + 1 - k \<le> er_generation r)
      (map (restamp (db_generation db + 1) H) (db_edges db))"
    "db_generation (rebuild p k i db) = db_generation db + 1"
    "db_edges (snd (reverse_frontier_bfs p (fst i) (fst (snd i)) (db_generation db + 1) (snd (snd i))
       (db\<lparr>db_generation := db_generation db + 1\<rparr>))) = map (restamp (db_generation db + 1) H) (db_edges db)"
proof -
  let ?g = "db_generation db + 1"
  let ?b = "reverse_frontier_bfs p (fst i) (fst (snd i)) ?g (snd (snd i)) (db\<lparr>db_generation := ?g\<rparr>)"
  obtain H where H: "db_edges (snd ?b) = map (restamp ?g H) (db_edges db)"
    using bfs_stamps [of ?g "db\<lparr>db_generation := ?g\<rparr>" p "fst i" "fst (snd i)" "snd (snd i)"] by (auto simp: stamps_to_def)
  have "db_edges (rebuild p k i db) = filter (\<lambda>r. ?g - k \<le> er_generation r) (db_edges (snd ?b))"
    "db_generation (rebuild p k i db) = ?g"
    using bfs_generation [of p "fst i" "fst (snd i)" ?g "snd (snd i)" "db\<lparr>db_generation := ?g\<rparr>"]
    by (simp_all add: rebuild_def rebuild_reverse_frontier_def advance_generation_def sweep_frontier_def Let_def
        case_prod_beta publish_keeps not_less)
  with that [of H] H show thesis by simp
qed

fun rebuilds :: "(string \<Rightarrow> uuid option) \<Rightarrow> int \<Rightarrow> rebuild_input list \<Rightarrow> frontier_db \<Rightarrow> frontier_db" where
  "rebuilds p k [] db = db"
| "rebuilds p k (i # is) db = rebuilds p k is (rebuild p k i db)"

fun unmarked :: "(string \<Rightarrow> uuid option) \<Rightarrow> int \<Rightarrow> bytes \<Rightarrow> rebuild_input list \<Rightarrow> frontier_db \<Rightarrow> bool" where
  "unmarked p k h [] db = True"
| "unmarked p k h (i # is) db = (h \<notin> marks p i db \<and> unmarked p k h is (rebuild p k i db))"

abbreviation rows_of :: "bytes \<Rightarrow> frontier_db \<Rightarrow> edge_row set" where
  "rows_of h db \<equiv> {r \<in> set (db_edges db). er_hash r = h}"

lemma rebuild_unmarked:
  assumes "rows_of h db = {r}" "er_generation r \<le> db_generation db" "h \<notin> marks p i db"
  shows "rows_of h (rebuild p k i db) = (if db_generation db + 1 - k \<le> er_generation r then {r} else {})"
proof -
  obtain H where H: "db_edges (rebuild p k i db) = filter (\<lambda>r. db_generation db + 1 - k \<le> er_generation r)
      (map (restamp (db_generation db + 1) H) (db_edges db))"
    "db_edges (snd (reverse_frontier_bfs p (fst i) (fst (snd i)) (db_generation db + 1) (snd (snd i))
       (db\<lparr>db_generation := db_generation db + 1\<rparr>))) = map (restamp (db_generation db + 1) H) (db_edges db)"
    by (rule rebuild_edges)
  have "r \<in> set (db_edges db)" "er_hash r = h" using assms(1) by auto
  then have "restamp (db_generation db + 1) H r \<in> set (map (restamp (db_generation db + 1) H) (db_edges db))"
    and "h \<in> H \<Longrightarrow> er_generation (restamp (db_generation db + 1) H r) = db_generation db + 1"
    and "er_hash (restamp (db_generation db + 1) H r) = h" by (simp_all add: restamp_def)
  then have "h \<notin> H" using assms(3) unfolding marks_def H(2) by blast
  then have "restamp (db_generation db + 1) H r' = r'" if "er_hash r' = h" for r' using that by (simp add: restamp_def)
  then have "rows_of h (rebuild p k i db) = {r \<in> rows_of h db. db_generation db + 1 - k \<le> er_generation r}"
    by (auto simp: H(1)) (metis image_eqI restamp_hash(1))+
  then show ?thesis by (auto simp: assms(1))
qed

lemma rebuild_absent: "rows_of h db = {} \<Longrightarrow> rows_of h (rebuild p k i db) = {}"
  by (rule rebuild_edges [of p k i db]) auto

lemma rebuilds_absent: "rows_of h db = {} \<Longrightarrow> rows_of h (rebuilds p k is db) = {}"
proof (induction "is" arbitrary: db)
  case (Cons i "is")
  from Cons.IH [OF rebuild_absent [OF Cons.prems]] show ?case by simp
qed simp

lemma rebuild_generation: "db_generation (rebuild p k i db) = db_generation db + 1"
  by (rule rebuild_edges [of p k i db])

lemma rebuild_marked:
  assumes "rows_of h db = {r}" "0 \<le> k" "h \<in> marks p i db"
  shows "\<exists>r'. rows_of h (rebuild p k i db) = {r'} \<and> er_generation r' = db_generation (rebuild p k i db)"
proof -
  obtain H where H: "db_edges (rebuild p k i db) = filter (\<lambda>r. db_generation db + 1 - k \<le> er_generation r)
      (map (restamp (db_generation db + 1) H) (db_edges db))"
    "db_edges (snd (reverse_frontier_bfs p (fst i) (fst (snd i)) (db_generation db + 1) (snd (snd i))
       (db\<lparr>db_generation := db_generation db + 1\<rparr>))) = map (restamp (db_generation db + 1) H) (db_edges db)"
    by (rule rebuild_edges)
  let ?f = "restamp (db_generation db + 1) H"
  have "\<exists>r0. r0 \<in> rows_of h db \<and> er_generation (?f r0) = db_generation db + 1" using assms(3) by (auto simp: marks_def H(2))
  then have g: "er_generation (?f r) = db_generation db + 1" using assms(1) by auto
  have "rows_of h (rebuild p k i db) = {r' \<in> ?f ` rows_of h db. db_generation db + 1 - k \<le> er_generation r'}"
    by (auto simp: H(1))
  also have "\<dots> = {?f r}" using assms(1,2) g by auto
  finally show ?thesis using g by (auto simp: rebuild_generation)
qed

lemma rebuilds_unmarked:
  assumes "rows_of h db = {r}" "er_generation r \<le> db_generation db" "unmarked p k h is db"
  shows "rows_of h (rebuilds p k is db) =
    (if is = [] \<or> db_generation db + int (length is) \<le> er_generation r + k then {r} else {})"
  using assms
proof (induction "is" arbitrary: db)
  case (Cons i "is")
  note step = rebuild_unmarked [OF Cons.prems(1,2), of p i k]
  show ?case
  proof (cases "db_generation db + 1 - k \<le> er_generation r")
    case True
    with step Cons.prems(3) Cons.IH [of "rebuild p k i db"] Cons.prems(2) show ?thesis
      by (cases "is") (auto simp: rebuild_generation)
  next
    case False
    with step Cons.prems(3) have "rows_of h (rebuild p k i db) = {}" by simp
    from rebuilds_absent [OF this] False show ?thesis by simp
  qed
qed simp

text \<open>C18. The life of an edge. It is stored under the hash \<open>h\<close> alone (the primary key). After any sequence of rebuilds
  of which none stamps it, it is still stored, unchanged, exactly if its stamp is at most \<open>K\<close> generations behind the
  current one. A rebuild that stamps it keeps it, at the new generation.\<close>

theorem edge_lifetime:
  assumes "rows_of h db = {r}" "er_generation r \<le> db_generation db"
  shows "(unmarked p k h is db \<longrightarrow> rows_of h (rebuilds p k is db) =
      (if is = [] \<or> db_generation db + int (length is) \<le> er_generation r + k then {r} else {})) \<and>
    (0 \<le> k \<and> h \<in> marks p i db \<longrightarrow>
      (\<exists>r'. rows_of h (rebuild p k i db) = {r'} \<and> er_generation r' = db_generation (rebuild p k i db)))"
  using rebuilds_unmarked [OF assms] rebuild_marked [OF assms(1)] by blast

text \<open>A rebuild without readers stamps nothing.\<close>

lemma bfs_no_readers: "snd (reverse_frontier_bfs p [] n g limit db) = db"
  by (simp add: reverse_frontier_bfs_def pass_start_def pass_loop.simps)

lemma marks_no_readers: "\<forall>r \<in> set (db_edges db). er_generation r \<le> db_generation db \<Longrightarrow> marks p ([], n, limit) db = {}"
  by (auto simp: marks_def bfs_no_readers)

lemma stamps_bounded:
  assumes "\<forall>r \<in> set (db_edges db). er_generation r \<le> db_generation db"
  shows "\<forall>r \<in> set (db_edges (rebuild p k i db)). er_generation r \<le> db_generation (rebuild p k i db)"
  by (rule rebuild_edges [of p k i db]) (use assms in \<open>auto simp: rebuild_generation restamp_def\<close>)

lemma unmarked_no_readers:
  "\<forall>r \<in> set (db_edges db). er_generation r \<le> db_generation db \<Longrightarrow> unmarked p k h (replicate m ([], n, limit)) db"
proof (induction m arbitrary: db)
  case (Suc m)
  from Suc.IH [OF stamps_bounded [OF Suc.prems]] marks_no_readers [OF Suc.prems] show ?case by simp
qed simp

theorem edge_lifetime_witness:
  "rows_of (demo_key 11) (rebuilds (\<lambda>_. None) 5 (replicate 2 ([], 0, 3)) demo_frontier) = {demo_edge 11 3 2 Distrust} \<and>
   rows_of (demo_key 11) (rebuilds (\<lambda>_. None) 5 (replicate 3 ([], 0, 3)) demo_frontier) = {}"
proof -
  have r: "rows_of (demo_key 11) demo_frontier = {demo_edge 11 3 2 Distrust}"
    by (auto simp: demo_frontier_def demo_edge_def demo_key_def)
  have g: "er_generation (demo_edge 11 3 2 Distrust) \<le> db_generation demo_frontier"
    by (simp add: demo_frontier_def demo_edge_def)
  have "\<forall>r \<in> set (db_edges demo_frontier). er_generation r \<le> db_generation demo_frontier"
    by (simp add: demo_frontier_def demo_edge_def)
  note u = unmarked_no_readers [OF this, of "\<lambda>_. None" 5 "demo_key 11" _ 0 3]
  have n: "db_generation demo_frontier = 7" "er_generation (demo_edge 11 3 2 Distrust) = 4"
    by (simp_all add: demo_frontier_def demo_edge_def)
  note l = edge_lifetime [OF r g, THEN conjunct1, THEN mp, OF u, unfolded n]
  show ?thesis using l [of 2] l [of 3] by simp
qed

section \<open>The published ceilings\<close>

lemma publish_one_ceilings:
  "map_of (db_ceilings (snd (publish_one out pd))) =
     (map_of (db_ceilings (snd pd)))(out_key out := derive_age_ceiling (out_cap out))"
proof -
  have "map_of (filter (\<lambda>e. fst e \<noteq> k) al) = (map_of al)(k := None)" for k and al :: "(bytes \<times> int) list"
    by (induction al) (auto simp: fun_eq_iff)
  then show ?thesis
    by (auto simp: publish_one_def upsert_local_age_ceiling_def delete_local_age_ceiling_def update_conv' split: option.splits)
qed

text \<open>After a rebuild the ceiling on record for a reader is the one its cap derives, and no other ceiling changed.\<close>

theorem ceilings_published:
  assumes "distinct (map out_key (rf_caps f))"
  shows "map_of (db_ceilings (snd (publish_local_age_ceilings f db))) k =
    (case find (\<lambda>out. out_key out = k) (rf_caps f) of
       Some out \<Rightarrow> derive_age_ceiling (out_cap out) | None \<Rightarrow> map_of (db_ceilings db) k)"
proof -
  have "map_of (db_ceilings (snd (fold publish_one outs pd))) k =
    (case find (\<lambda>out. out_key out = k) outs of
       Some out \<Rightarrow> derive_age_ceiling (out_cap out) | None \<Rightarrow> map_of (db_ceilings (snd pd)) k)"
    if "distinct (map out_key outs)" for outs pd
    using that
  proof (induction outs arbitrary: pd)
    case (Cons out outs)
    have "find (\<lambda>o'. out_key o' = k) outs = None" if "out_key out = k"
      using that Cons.prems by (auto simp: find_None_iff) (metis image_eqI)
    with Cons show ?case by (auto simp: publish_one_ceilings split: option.splits)
  qed simp
  from this [OF assms, of "(\<lparr>published = 0, cleared = 0\<rparr>, db)"] show ?thesis
    by (simp only: publish_local_age_ceilings_def snd_conv)
qed

end
