(* ===== verification/Wire_Bodies.thy ===== *)
theory Wire_Bodies
  imports Signed_Verify
begin

text \<open>
  The CBOR map bodies of the handshake (\<open>PeerRequestBody\<close>, \<open>PeerResponseBody\<close>, \<open>PeerRelationshipDeleteBody\<close> of
  \<open>server/src/federation/peering.rs\<close>) and the identity card of \<open>identity.rs\<close>. All four have the same shape: a
  list of entries is written, and a loop reads the entries back by key, skips what it does not know, stops at
  a known key with a value of the wrong type, and finally asks for the required fields. The locale
  \<open>map_body\<close> states what makes a round trip of such a pair.
\<close>

section \<open>Reading values\<close>

definition text_required :: "cbor_value \<Rightarrow> string option" where
  "text_required v = (case v of VText s \<Rightarrow> Some s | _ \<Rightarrow> None)"

definition fixed_bytes :: "nat \<Rightarrow> cbor_value \<Rightarrow> bytes option" where
  "fixed_bytes n v = (case v of VBytes b \<Rightarrow> if length b = n then Some b else None | _ \<Rightarrow> None)"

definition uint_required :: "cbor_value \<Rightarrow> u64 option" where
  "uint_required v = (case v of VInteger i \<Rightarrow> if 0 \<le> i \<and> i < 2 ^ 64 then Some (word_of_int i) else None | _ \<Rightarrow> None)"

text \<open>The loop over the items of an array.\<close>

fun all_items :: "(cbor_value \<Rightarrow> 'a option) \<Rightarrow> cbor_value list \<Rightarrow> 'a list option" where
  "all_items f [] = Some []"
| "all_items f (v # vs) = Option.bind (f v) (\<lambda>x. map_option ((#) x) (all_items f vs))"

definition text_array :: "cbor_value \<Rightarrow> string list option" where
  "text_array v = (case v of VArray items \<Rightarrow> all_items text_required items | _ \<Rightarrow> None)"

definition uint_array :: "cbor_value \<Rightarrow> u64 list option" where
  "uint_array v = (case v of VArray items \<Rightarrow> all_items uint_required items | _ \<Rightarrow> None)"

definition encode_text_array :: "(cbor_value \<Rightarrow> bytes option) \<Rightarrow> string list \<Rightarrow> bytes option" where
  "encode_text_array ser xs = ser (VArray (map VText xs))"

definition decode_text_array :: "(bytes \<Rightarrow> cbor_value option) \<Rightarrow> bytes \<Rightarrow> string list option" where
  "decode_text_array de b = Option.bind (de b) text_array"

text \<open>The loop over the entries of a map: \<open>field\<close> handles one text key.\<close>

fun fields_loop :: "(string \<Rightarrow> cbor_value \<Rightarrow> 'a \<Rightarrow> 'a option) \<Rightarrow> (cbor_value \<times> cbor_value) list \<Rightarrow> 'a \<Rightarrow> 'a option" where
  "fields_loop field [] acc = Some acc"
| "fields_loop field ((VText k, v) # es) acc = Option.bind (field k v acc) (fields_loop field es)"
| "fields_loop field (e # es) acc = fields_loop field es acc"

definition decode_body ::
  "(string \<Rightarrow> cbor_value \<Rightarrow> 'a \<Rightarrow> 'a option) \<Rightarrow> 'a \<Rightarrow> ('a \<Rightarrow> 'b option) \<Rightarrow> (bytes \<Rightarrow> cbor_value option) \<Rightarrow> bytes \<Rightarrow> 'b option" where
  "decode_body field start finish de b = (case de b of
     Some (VMap es) \<Rightarrow> Option.bind (fields_loop field es start) finish | _ \<Rightarrow> None)"

definition text_entries :: "(string \<times> cbor_value) list \<Rightarrow> (cbor_value \<times> cbor_value) list" where
  "text_entries es = map (\<lambda>(k, v). (VText k, v)) es"

definition encode_body :: "(cbor_value \<Rightarrow> bytes option) \<Rightarrow> (string \<times> cbor_value) list \<Rightarrow> bytes option" where
  "encode_body ser es = ser (VMap (text_entries es))"

definition opt_entry :: "string \<Rightarrow> ('a \<Rightarrow> cbor_value) \<Rightarrow> 'a option \<Rightarrow> (string \<times> cbor_value) list" where
  "opt_entry k f x = (case x of Some y \<Rightarrow> [(k, f y)] | None \<Rightarrow> [])"

definition VUint :: "u64 \<Rightarrow> cbor_value" where
  "VUint n = VInteger (uint n)"

section \<open>Peer request\<close>

record PeerRequestBody =
  prq_domain :: string
  prq_pubkey :: bytes
  prq_caps :: "string list"
  prq_intro :: "string option"
  prq_id :: bytes
  prq_created :: u64

definition request_entries :: "PeerRequestBody \<Rightarrow> (string \<times> cbor_value) list" where
  "request_entries b =
     [(''initiator_domain'', VText (prq_domain b)),
      (''initiator_instance_pubkey'', VBytes (prq_pubkey b)),
      (''proposed_capabilities'', VArray (map VText (prq_caps b))),
      (''request_id'', VBytes (prq_id b)),
      (''created_at'', VUint (prq_created b))]
     @ opt_entry ''introduction'' VText (prq_intro b)"

definition request_encode :: "(cbor_value \<Rightarrow> bytes option) \<Rightarrow> PeerRequestBody \<Rightarrow> bytes option" where
  "request_encode ser b = encode_body ser (request_entries b)"

record request_acc =
  rqa_domain :: "string option"
  rqa_pubkey :: "bytes option"
  rqa_caps :: "string list option"
  rqa_intro :: "string option"
  rqa_id :: "bytes option"
  rqa_created :: "u64 option"

definition request_start :: request_acc where
  "request_start = \<lparr>rqa_domain = None, rqa_pubkey = None, rqa_caps = None, rqa_intro = None, rqa_id = None, rqa_created = None\<rparr>"

definition request_field :: "string \<Rightarrow> cbor_value \<Rightarrow> request_acc \<Rightarrow> request_acc option" where
  "request_field k v acc =
     (if k = ''initiator_domain'' then map_option (\<lambda>x. acc\<lparr>rqa_domain := Some x\<rparr>) (text_required v)
      else if k = ''initiator_instance_pubkey'' then map_option (\<lambda>x. acc\<lparr>rqa_pubkey := Some x\<rparr>) (fixed_bytes 32 v)
      else if k = ''proposed_capabilities'' then map_option (\<lambda>x. acc\<lparr>rqa_caps := Some x\<rparr>) (text_array v)
      else if k = ''introduction'' then map_option (\<lambda>x. acc\<lparr>rqa_intro := Some x\<rparr>) (text_required v)
      else if k = ''request_id'' then map_option (\<lambda>x. acc\<lparr>rqa_id := Some x\<rparr>) (fixed_bytes 16 v)
      else if k = ''created_at'' then map_option (\<lambda>x. acc\<lparr>rqa_created := Some x\<rparr>) (uint_required v)
      else Some acc)"

definition request_finish :: "request_acc \<Rightarrow> PeerRequestBody option" where
  "request_finish acc =
     Option.bind (rqa_domain acc) (\<lambda>d. Option.bind (rqa_pubkey acc) (\<lambda>pk. Option.bind (rqa_caps acc) (\<lambda>c.
     Option.bind (rqa_id acc) (\<lambda>i. Option.bind (rqa_created acc) (\<lambda>t.
       Some \<lparr>prq_domain = d, prq_pubkey = pk, prq_caps = c, prq_intro = rqa_intro acc, prq_id = i, prq_created = t\<rparr>)))))"

definition request_decode :: "(bytes \<Rightarrow> cbor_value option) \<Rightarrow> bytes \<Rightarrow> PeerRequestBody option" where
  "request_decode = decode_body request_field request_start request_finish"

section \<open>Peer response\<close>

datatype PeerDecision = AcceptPeer | RejectPeer

definition decision_as_str :: "PeerDecision \<Rightarrow> string" where
  "decision_as_str d = (case d of AcceptPeer \<Rightarrow> ''accept'' | RejectPeer \<Rightarrow> ''reject'')"

definition decision_parse :: "string \<Rightarrow> PeerDecision option" where
  "decision_parse s = (if s = ''accept'' then Some AcceptPeer else if s = ''reject'' then Some RejectPeer else None)"

record PeerResponseBody =
  prs_id :: bytes
  prs_domain :: string
  prs_pubkey :: bytes
  prs_decision :: PeerDecision
  prs_agreed :: "string list option"
  prs_message :: "string option"
  prs_created :: u64

definition response_entries :: "PeerResponseBody \<Rightarrow> (string \<times> cbor_value) list" where
  "response_entries b =
     [(''request_id'', VBytes (prs_id b)),
      (''responder_domain'', VText (prs_domain b)),
      (''responder_instance_pubkey'', VBytes (prs_pubkey b)),
      (''decision'', VText (decision_as_str (prs_decision b))),
      (''created_at'', VUint (prs_created b))]
     @ opt_entry ''agreed_capabilities'' (\<lambda>c. VArray (map VText c)) (prs_agreed b)
     @ opt_entry ''decision_message'' VText (prs_message b)"

definition response_encode :: "(cbor_value \<Rightarrow> bytes option) \<Rightarrow> PeerResponseBody \<Rightarrow> bytes option" where
  "response_encode ser b = encode_body ser (response_entries b)"

record response_acc =
  rsa_id :: "bytes option"
  rsa_domain :: "string option"
  rsa_pubkey :: "bytes option"
  rsa_decision :: "PeerDecision option"
  rsa_agreed :: "string list option"
  rsa_message :: "string option"
  rsa_created :: "u64 option"

definition response_start :: response_acc where
  "response_start = \<lparr>rsa_id = None, rsa_domain = None, rsa_pubkey = None, rsa_decision = None, rsa_agreed = None,
     rsa_message = None, rsa_created = None\<rparr>"

definition response_field :: "string \<Rightarrow> cbor_value \<Rightarrow> response_acc \<Rightarrow> response_acc option" where
  "response_field k v acc =
     (if k = ''request_id'' then map_option (\<lambda>x. acc\<lparr>rsa_id := Some x\<rparr>) (fixed_bytes 16 v)
      else if k = ''responder_domain'' then map_option (\<lambda>x. acc\<lparr>rsa_domain := Some x\<rparr>) (text_required v)
      else if k = ''responder_instance_pubkey'' then map_option (\<lambda>x. acc\<lparr>rsa_pubkey := Some x\<rparr>) (fixed_bytes 32 v)
      else if k = ''decision'' then
        map_option (\<lambda>x. acc\<lparr>rsa_decision := Some x\<rparr>) (Option.bind (text_required v) decision_parse)
      else if k = ''agreed_capabilities'' then map_option (\<lambda>x. acc\<lparr>rsa_agreed := Some x\<rparr>) (text_array v)
      else if k = ''decision_message'' then map_option (\<lambda>x. acc\<lparr>rsa_message := Some x\<rparr>) (text_required v)
      else if k = ''created_at'' then map_option (\<lambda>x. acc\<lparr>rsa_created := Some x\<rparr>) (uint_required v)
      else Some acc)"

definition response_finish :: "response_acc \<Rightarrow> PeerResponseBody option" where
  "response_finish acc =
     Option.bind (rsa_id acc) (\<lambda>i. Option.bind (rsa_domain acc) (\<lambda>d. Option.bind (rsa_pubkey acc) (\<lambda>pk.
     Option.bind (rsa_decision acc) (\<lambda>dec. Option.bind (rsa_created acc) (\<lambda>t.
       Some \<lparr>prs_id = i, prs_domain = d, prs_pubkey = pk, prs_decision = dec, prs_agreed = rsa_agreed acc,
         prs_message = rsa_message acc, prs_created = t\<rparr>)))))"

definition response_decode :: "(bytes \<Rightarrow> cbor_value option) \<Rightarrow> bytes \<Rightarrow> PeerResponseBody option" where
  "response_decode = decode_body response_field response_start response_finish"

section \<open>Termination\<close>

datatype TerminationReason = OperatorInitiated | CompromiseResponse | PolicyViolation

definition reason_as_str :: "TerminationReason \<Rightarrow> string" where
  "reason_as_str r = (case r of
     OperatorInitiated \<Rightarrow> ''operator_initiated'' | CompromiseResponse \<Rightarrow> ''compromise_response''
   | PolicyViolation \<Rightarrow> ''policy_violation'')"

definition reason_parse :: "string \<Rightarrow> TerminationReason option" where
  "reason_parse s =
     (if s = ''operator_initiated'' then Some OperatorInitiated
      else if s = ''compromise_response'' then Some CompromiseResponse
      else if s = ''policy_violation'' then Some PolicyViolation else None)"

record PeerRelationshipDeleteBody =
  prd_domain :: string
  prd_reason :: TerminationReason
  prd_message :: "string option"
  prd_created :: u64

definition delete_entries :: "PeerRelationshipDeleteBody \<Rightarrow> (string \<times> cbor_value) list" where
  "delete_entries b =
     [(''terminator_domain'', VText (prd_domain b)),
      (''reason'', VText (reason_as_str (prd_reason b))),
      (''created_at'', VUint (prd_created b))]
     @ opt_entry ''message'' VText (prd_message b)"

definition delete_encode :: "(cbor_value \<Rightarrow> bytes option) \<Rightarrow> PeerRelationshipDeleteBody \<Rightarrow> bytes option" where
  "delete_encode ser b = encode_body ser (delete_entries b)"

record delete_acc =
  dla_domain :: "string option"
  dla_reason :: "TerminationReason option"
  dla_message :: "string option"
  dla_created :: "u64 option"

definition delete_start :: delete_acc where
  "delete_start = \<lparr>dla_domain = None, dla_reason = None, dla_message = None, dla_created = None\<rparr>"

definition delete_field :: "string \<Rightarrow> cbor_value \<Rightarrow> delete_acc \<Rightarrow> delete_acc option" where
  "delete_field k v acc =
     (if k = ''terminator_domain'' then map_option (\<lambda>x. acc\<lparr>dla_domain := Some x\<rparr>) (text_required v)
      else if k = ''reason'' then
        map_option (\<lambda>x. acc\<lparr>dla_reason := Some x\<rparr>) (Option.bind (text_required v) reason_parse)
      else if k = ''message'' then map_option (\<lambda>x. acc\<lparr>dla_message := Some x\<rparr>) (text_required v)
      else if k = ''created_at'' then map_option (\<lambda>x. acc\<lparr>dla_created := Some x\<rparr>) (uint_required v)
      else Some acc)"

definition delete_finish :: "delete_acc \<Rightarrow> PeerRelationshipDeleteBody option" where
  "delete_finish acc =
     Option.bind (dla_domain acc) (\<lambda>d. Option.bind (dla_reason acc) (\<lambda>r. Option.bind (dla_created acc) (\<lambda>t.
       Some \<lparr>prd_domain = d, prd_reason = r, prd_message = dla_message acc, prd_created = t\<rparr>)))"

definition delete_decode :: "(bytes \<Rightarrow> cbor_value option) \<Rightarrow> bytes \<Rightarrow> PeerRelationshipDeleteBody option" where
  "delete_decode = decode_body delete_field delete_start delete_finish"

section \<open>Identity card\<close>

definition PROTOCOL_VERSIONS :: "u64 list" where
  "PROTOCOL_VERSIONS = [1]"

definition CAPABILITIES :: "string list" where
  "CAPABILITIES = [''frontier-sync'', ''edge-sync'', ''content-sync'', ''pull-backfill'', ''profile-sync'',
     ''user-status'', ''thread-status'', ''attachment-fetch'', ''reports'']"

record IdentityCard =
  idc_domain :: string
  idc_pubkey :: bytes
  idc_versions :: "u64 list"
  idc_caps :: "string list"
  idc_announce :: "string option"
  idc_age_days :: "u64 option"
  idc_bucket :: "string option"

definition card_standard :: "string \<Rightarrow> bytes \<Rightarrow> IdentityCard" where
  "card_standard d pk = \<lparr>idc_domain = d, idc_pubkey = pk, idc_versions = PROTOCOL_VERSIONS, idc_caps = CAPABILITIES,
     idc_announce = None, idc_age_days = None, idc_bucket = None\<rparr>"

definition card_entries :: "IdentityCard \<Rightarrow> (string \<times> cbor_value) list" where
  "card_entries b =
     [(''instance_domain'', VText (idc_domain b)),
      (''instance_pubkey'', VBytes (idc_pubkey b)),
      (''protocol_versions'', VArray (map VUint (idc_versions b))),
      (''capabilities'', VArray (map VText (idc_caps b)))]
     @ opt_entry ''announce'' VText (idc_announce b)
     @ opt_entry ''instance_age_days'' VUint (idc_age_days b)
     @ opt_entry ''user_count_bucket'' VText (idc_bucket b)"

definition card_encode :: "(cbor_value \<Rightarrow> bytes option) \<Rightarrow> IdentityCard \<Rightarrow> bytes option" where
  "card_encode ser b = encode_body ser (card_entries b)"

record card_acc =
  ica_domain :: "string option"
  ica_pubkey :: "bytes option"
  ica_versions :: "u64 list option"
  ica_caps :: "string list option"
  ica_announce :: "string option"
  ica_age_days :: "u64 option"
  ica_bucket :: "string option"

definition card_start :: card_acc where
  "card_start = \<lparr>ica_domain = None, ica_pubkey = None, ica_versions = None, ica_caps = None, ica_announce = None,
     ica_age_days = None, ica_bucket = None\<rparr>"

definition card_field :: "string \<Rightarrow> cbor_value \<Rightarrow> card_acc \<Rightarrow> card_acc option" where
  "card_field k v acc =
     (if k = ''instance_domain'' then map_option (\<lambda>x. acc\<lparr>ica_domain := Some x\<rparr>) (text_required v)
      else if k = ''instance_pubkey'' then map_option (\<lambda>x. acc\<lparr>ica_pubkey := Some x\<rparr>) (fixed_bytes 32 v)
      else if k = ''protocol_versions'' then map_option (\<lambda>x. acc\<lparr>ica_versions := Some x\<rparr>) (uint_array v)
      else if k = ''capabilities'' then map_option (\<lambda>x. acc\<lparr>ica_caps := Some x\<rparr>) (text_array v)
      else if k = ''announce'' then map_option (\<lambda>x. acc\<lparr>ica_announce := Some x\<rparr>) (text_required v)
      else if k = ''instance_age_days'' then map_option (\<lambda>x. acc\<lparr>ica_age_days := Some x\<rparr>) (uint_required v)
      else if k = ''user_count_bucket'' then map_option (\<lambda>x. acc\<lparr>ica_bucket := Some x\<rparr>) (text_required v)
      else Some acc)"

definition card_finish :: "card_acc \<Rightarrow> IdentityCard option" where
  "card_finish acc =
     Option.bind (ica_domain acc) (\<lambda>d. Option.bind (ica_pubkey acc) (\<lambda>pk. Option.bind (ica_versions acc) (\<lambda>vs.
     Option.bind (ica_caps acc) (\<lambda>c.
       Some \<lparr>idc_domain = d, idc_pubkey = pk, idc_versions = vs, idc_caps = c, idc_announce = ica_announce acc,
         idc_age_days = ica_age_days acc, idc_bucket = ica_bucket acc\<rparr>))))"

definition card_decode :: "(bytes \<Rightarrow> cbor_value option) \<Rightarrow> bytes \<Rightarrow> IdentityCard option" where
  "card_decode = decode_body card_field card_start card_finish"

section \<open>Round trips\<close>

text \<open>What a body has to satisfy: its entries are values that the codec carries, and the loop over them rebuilds the
  body.\<close>

locale map_body =
  fixes ents :: "'b \<Rightarrow> (string \<times> cbor_value) list"
    and field :: "string \<Rightarrow> cbor_value \<Rightarrow> 'a \<Rightarrow> 'a option"
    and start :: 'a
    and finish :: "'a \<Rightarrow> 'b option"
    and ok :: "'b \<Rightarrow> bool"
    and known :: "string set"
  assumes typed: "ok b \<Longrightarrow> typed_entries 15 (ents b)"
    and rebuild: "ok b \<Longrightarrow> Option.bind (fields_loop field (text_entries (ents b)) start) finish = Some b"
    and unknown: "k \<notin> known \<Longrightarrow> field k v acc = Some acc"
begin

lemma encodes:
  assumes "cbor_codec ser de" "ok b"
  shows "\<exists>w. encode_body ser (ents b) = Some w \<and> de w = Some (VMap (text_entries (ents b)))"
proof -
  have d: "max_depth = Suc 15" by (simp add: max_depth_def)
  have "payload_value max_depth (VMap (text_entries (ents b)))"
    unfolding d payload_value.simps using typed [OF assms(2)]
    by (auto simp: typed_entries_def text_entries_def list_all_iff rust_string_def)
  then show ?thesis unfolding encode_body_def using cbor_codec.round_trip [OF assms(1)] by blast
qed

lemma round_trip:
  assumes "cbor_codec ser de" "ok b"
  shows "\<exists>w. encode_body ser (ents b) = Some w \<and> decode_body field start finish de w = Some b"
  using encodes [OF assms] rebuild [OF assms(2)] by (auto simp: decode_body_def)

text \<open>Entries of later protocol versions, and entries without a text key, change nothing.\<close>

lemma loop_skips:
  "fields_loop field es acc = fields_loop field (filter (\<lambda>(k, v). \<exists>t \<in> known. k = VText t) es) acc"
proof (induction es arbitrary: acc)
  case (Cons e es)
  obtain k v where e: "e = (k, v)" by (cases e)
  show ?case
  proof (cases k)
    case (VText t)
    then show ?thesis using Cons unknown [of t v acc] by (cases "t \<in> known"; cases "field t v acc") (auto simp: e)
  qed (use Cons in \<open>simp_all add: e\<close>)
qed simp

end

lemma all_items_map [simp]: "(\<And>x. x \<in> set xs \<Longrightarrow> f (g x) = Some x) \<Longrightarrow> all_items f (map g xs) = Some xs"
  by (induction xs) simp_all

lemma read_simps [simp]:
  "text_required (VText s) = Some s"
  "length b = n \<Longrightarrow> fixed_bytes n (VBytes b) = Some b"
  "uint_required (VUint w) = Some w"
  "text_array (VArray (map VText xs)) = Some xs"
  "uint_array (VArray (map VUint ws)) = Some ws"
proof -
  show u: "uint_required (VUint w) = Some w" for w
    using uint_lt2p [of w] by (simp add: uint_required_def VUint_def)
  show "uint_array (VArray (map VUint ws)) = Some ws" using u by (simp add: uint_array_def)
qed (simp_all add: text_required_def fixed_bytes_def text_array_def)

lemma str_round_trips [simp]: "decision_parse (decision_as_str d) = Some d" "reason_parse (reason_as_str r) = Some r"
  by (cases d; simp add: decision_parse_def decision_as_str_def) (cases r; simp add: reason_parse_def reason_as_str_def)

lemma opt_entry_loop [simp]:
  "fields_loop field (text_entries (opt_entry k f None) @ es) acc = fields_loop field es acc"
  "fields_loop field (text_entries (opt_entry k f (Some x)) @ es) acc = Option.bind (field k (f x) acc) (fields_loop field es)"
  by (simp_all add: opt_entry_def text_entries_def)

lemma entries_of_texts_simps [simp]:
  "text_entries [] = []" "text_entries ((k, v) # es) = (VText k, v) # text_entries es"
  "text_entries (xs @ ys) = text_entries xs @ text_entries ys"
  by (simp_all add: text_entries_def)

definition request_ok :: "PeerRequestBody \<Rightarrow> bool" where
  "request_ok b \<longleftrightarrow> rust_string (prq_domain b) \<and> length (prq_pubkey b) = 32 \<and> length (prq_id b) = 16 \<and>
     length (prq_caps b) < 2 ^ 64 \<and> list_all rust_string (prq_caps b) \<and> pred_option rust_string (prq_intro b)"

definition response_ok :: "PeerResponseBody \<Rightarrow> bool" where
  "response_ok b \<longleftrightarrow> rust_string (prs_domain b) \<and> length (prs_pubkey b) = 32 \<and> length (prs_id b) = 16 \<and>
     pred_option (\<lambda>c. length c < 2 ^ 64 \<and> list_all rust_string c) (prs_agreed b) \<and> pred_option rust_string (prs_message b)"

definition delete_ok :: "PeerRelationshipDeleteBody \<Rightarrow> bool" where
  "delete_ok b \<longleftrightarrow> rust_string (prd_domain b) \<and> pred_option rust_string (prd_message b)"

definition card_ok :: "IdentityCard \<Rightarrow> bool" where
  "card_ok b \<longleftrightarrow> rust_string (idc_domain b) \<and> length (idc_pubkey b) = 32 \<and> length (idc_versions b) < 2 ^ 64 \<and>
     length (idc_caps b) < 2 ^ 64 \<and> list_all rust_string (idc_caps b) \<and>
     pred_option rust_string (idc_announce b) \<and> pred_option rust_string (idc_bucket b)"

text \<open>Short ASCII keys are Rust strings; the values are carried by the codec.\<close>

lemma key_rust: "list_all (\<lambda>c. of_char c < (0x80 :: nat)) k \<and> length k < 64 \<Longrightarrow> rust_string k"
  by (intro ascii_rust_string) auto

lemma carried [simp]:
  "payload_value d (VUint w)"
  "list_all rust_string xs \<Longrightarrow> length xs < 2 ^ 64 \<Longrightarrow> payload_value 15 (VArray (map VText xs))"
  "length ws < 2 ^ 64 \<Longrightarrow> payload_value 15 (VArray (map VUint ws))"
  "rust_string (decision_as_str dc)" "rust_string (reason_as_str rs)"
proof -
  have d: "15 = Suc 14" by simp
  show u: "payload_value d (VUint w)" for w d using uint_lt2p [of w] by (simp add: VUint_def)
  show "length ws < 2 ^ 64 \<Longrightarrow> payload_value 15 (VArray (map VUint ws))" unfolding d payload_value.simps using u by (simp add: list_all_iff)
  show "list_all rust_string xs \<Longrightarrow> length xs < 2 ^ 64 \<Longrightarrow> payload_value 15 (VArray (map VText xs))"
    unfolding d payload_value.simps by (simp add: list_all_iff)
  show "rust_string (decision_as_str dc)" by (rule key_rust; cases dc; simp add: decision_as_str_def)
  show "rust_string (reason_as_str rs)" by (rule key_rust; cases rs; simp add: reason_as_str_def)
qed

lemma typed_entries_simps [simp]:
  "typed_entries d [] = True"
  "length es < 60 \<Longrightarrow> typed_entries d ((k, v) # es) \<longleftrightarrow> rust_string k \<and> payload_value d v \<and> typed_entries d es"
  by (auto simp: typed_entries_def)

interpretation request: map_body request_entries request_field request_start request_finish request_ok
  "{''initiator_domain'', ''initiator_instance_pubkey'', ''proposed_capabilities'', ''introduction'', ''request_id'', ''created_at''}"
proof
  fix b
  assume ok: "request_ok b"
  show "typed_entries 15 (request_entries b)"
    using ok by (cases "prq_intro b") (simp_all add: request_entries_def opt_entry_def request_ok_def key_rust)
  show "Option.bind (fields_loop request_field (text_entries (request_entries b)) request_start) request_finish = Some b"
    using ok by (cases "prq_intro b")
      (simp_all add: request_entries_def opt_entry_def request_ok_def request_field_def request_start_def request_finish_def)
qed (auto simp: request_field_def)

interpretation response: map_body response_entries response_field response_start response_finish response_ok
  "{''request_id'', ''responder_domain'', ''responder_instance_pubkey'', ''decision'', ''agreed_capabilities'', ''decision_message'', ''created_at''}"
proof
  fix b
  assume ok: "response_ok b"
  show "typed_entries 15 (response_entries b)"
    using ok by (cases "prs_agreed b"; cases "prs_message b") (simp_all add: response_entries_def opt_entry_def response_ok_def key_rust)
  show "Option.bind (fields_loop response_field (text_entries (response_entries b)) response_start) response_finish = Some b"
    using ok by (cases "prs_agreed b"; cases "prs_message b")
      (simp_all add: response_entries_def opt_entry_def response_ok_def response_field_def response_start_def response_finish_def)
qed (auto simp: response_field_def)

interpretation delete: map_body delete_entries delete_field delete_start delete_finish delete_ok
  "{''terminator_domain'', ''reason'', ''message'', ''created_at''}"
proof
  fix b
  assume ok: "delete_ok b"
  show "typed_entries 15 (delete_entries b)"
    using ok by (cases "prd_message b") (simp_all add: delete_entries_def opt_entry_def delete_ok_def key_rust)
  show "Option.bind (fields_loop delete_field (text_entries (delete_entries b)) delete_start) delete_finish = Some b"
    using ok by (cases "prd_message b")
      (simp_all add: delete_entries_def opt_entry_def delete_ok_def delete_field_def delete_start_def delete_finish_def)
qed (auto simp: delete_field_def)

interpretation card: map_body card_entries card_field card_start card_finish card_ok
  "{''instance_domain'', ''instance_pubkey'', ''protocol_versions'', ''capabilities'', ''announce'', ''instance_age_days'', ''user_count_bucket''}"
proof
  fix b
  assume ok: "card_ok b"
  show "typed_entries 15 (card_entries b)"
    using ok by (cases "idc_announce b"; cases "idc_age_days b"; cases "idc_bucket b") (simp_all add: card_entries_def opt_entry_def card_ok_def key_rust)
  show "Option.bind (fields_loop card_field (text_entries (card_entries b)) card_start) card_finish = Some b"
    using ok by (cases "idc_announce b"; cases "idc_age_days b"; cases "idc_bucket b")
      (simp_all add: card_entries_def opt_entry_def card_ok_def card_field_def card_start_def card_finish_def)
qed (auto simp: card_field_def)

lemma text_array_round_trip:
  assumes "cbor_codec ser de" "length xs < 2 ^ 64" "list_all rust_string xs"
  shows "\<exists>b. encode_text_array ser xs = Some b \<and> decode_text_array de b = Some xs"
proof -
  have d: "max_depth = Suc 15" by (simp add: max_depth_def)
  have "payload_value max_depth (VArray (map VText xs))"
    unfolding d payload_value.simps using assms(2,3) by (simp add: list_all_iff)
  then obtain b where "ser (VArray (map VText xs)) = Some b" "de b = Some (VArray (map VText xs))"
    using cbor_codec.round_trip [OF assms(1)] by blast
  then show ?thesis by (simp add: encode_text_array_def decode_text_array_def)
qed

lemma caps_rust: "list_all rust_string CAPABILITIES" "length CAPABILITIES < 2 ^ 64"
  by (simp_all add: CAPABILITIES_def key_rust)

text \<open>Every handshake body and identity card survives the wire: with any CBOR codec that carries the values it is
  given, a well-typed request, response, termination or card encodes, and decoding gives it back, with its
  optional fields present or absent.\<close>

theorem bodies_round_trip:
  assumes "cbor_codec ser de" "request_ok rq" "response_ok rs" "delete_ok dl" "card_ok crd"
  shows "(\<exists>w. request_encode ser rq = Some w \<and> request_decode de w = Some rq) \<and>
    (\<exists>w. response_encode ser rs = Some w \<and> response_decode de w = Some rs) \<and>
    (\<exists>w. delete_encode ser dl = Some w \<and> delete_decode de w = Some dl) \<and>
    (\<exists>w. card_encode ser crd = Some w \<and> card_decode de w = Some crd)"
  unfolding request_encode_def request_decode_def response_encode_def response_decode_def
    delete_encode_def delete_decode_def card_encode_def card_decode_def
  using request.round_trip [OF assms(1,2)] response.round_trip [OF assms(1,3)]
    delete.round_trip [OF assms(1,4)] card.round_trip [OF assms(1,5)] by blast

definition demo_request :: PeerRequestBody where
  "demo_request = \<lparr>prq_domain = ''a.example'', prq_pubkey = replicate 32 1, prq_caps = [''edge-sync''], prq_intro = Some ''hi'',
     prq_id = replicate 16 9, prq_created = 7\<rparr>"

definition demo_response :: PeerResponseBody where
  "demo_response = \<lparr>prs_id = replicate 16 9, prs_domain = ''b.example'', prs_pubkey = replicate 32 2, prs_decision = RejectPeer,
     prs_agreed = None, prs_message = Some ''no'', prs_created = 8\<rparr>"

definition demo_delete :: PeerRelationshipDeleteBody where
  "demo_delete = \<lparr>prd_domain = ''a.example'', prd_reason = PolicyViolation, prd_message = None, prd_created = 9\<rparr>"

theorem bodies_round_trip_witness:
  "(\<exists>w. request_encode rfc_ser demo_request = Some w \<and> request_decode rfc_de w = Some demo_request) \<and>
   (\<exists>w. card_encode rfc_ser (card_standard ''a.example'' (replicate 32 1)) = Some w \<and>
        card_decode rfc_de w = Some (card_standard ''a.example'' (replicate 32 1)))"
proof -
  have "request_ok demo_request" "response_ok demo_response" "delete_ok demo_delete"
    "card_ok (card_standard ''a.example'' (replicate 32 1))"
    using caps_rust by (simp_all add: demo_request_def request_ok_def demo_response_def response_ok_def demo_delete_def
      delete_ok_def card_standard_def card_ok_def key_rust PROTOCOL_VERSIONS_def)
  from bodies_round_trip [OF rfc.cbor_codec_axioms this] show ?thesis by blast
qed

end
