(* ===== verification/Frontier_Wire.thy ===== *)
theory Frontier_Wire
  imports Wire_Bodies Routing
begin

text \<open>
  The bodies of the frontier routes, from the first half of \<open>server/src/federation/frontier.rs\<close>: the age-ceiling
  map, \<open>FilterSpec\<close>, and the announce, delta and snapshot messages with their CBOR encoders and decoders.
  Unsigned fields are natural numbers; the decoder checks their width. A \<open>BTreeMap\<close> is its association list in key
  order. An \<open>f32\<close> is a real number; \<open>to_bits\<close> is \<open>as f64\<close> followed by the bits of the result, \<open>of_bits\<close> is
  \<open>as f32\<close> of the float with those bits, and a real stands for an \<open>f32\<close> value when the two undo each other.
\<close>

section \<open>Age ceilings\<close>

type_synonym age_ceilings = "(bytes \<times> nat) list"

fun btree_insert :: "'k::linorder \<Rightarrow> 'v \<Rightarrow> ('k \<times> 'v) list \<Rightarrow> ('k \<times> 'v) list" where
  "btree_insert k v [] = [(k, v)]"
| "btree_insert k v ((k', v') # es) =
     (if k < k' then (k, v) # (k', v') # es else if k = k' then (k, v) # es else (k', v') # btree_insert k v es)"

definition uint_field :: "nat \<Rightarrow> cbor_value \<Rightarrow> nat option" where
  "uint_field w v = (case v of VInteger i \<Rightarrow> try_uint w i | _ \<Rightarrow> None)"

abbreviation VNat :: "nat \<Rightarrow> cbor_value" where "VNat n \<equiv> VInteger (int n)"

definition age_ceilings_to_cbor_value :: "age_ceilings \<Rightarrow> cbor_value" where
  "age_ceilings_to_cbor_value ceilings = VMap (map (\<lambda>(rt, cutoff). (VBytes rt, VNat cutoff)) ceilings)"

fun ceilings_loop :: "(cbor_value \<times> cbor_value) list \<Rightarrow> age_ceilings \<Rightarrow> age_ceilings option" where
  "ceilings_loop [] out = Some out"
| "ceilings_loop ((k, v) # es) out =
     Option.bind (fixed_bytes 32 k) (\<lambda>rt. Option.bind (uint_field 64 v) (\<lambda>cutoff. ceilings_loop es (btree_insert rt cutoff out)))"

definition age_ceilings_from_cbor_value :: "cbor_value \<Rightarrow> age_ceilings option" where
  "age_ceilings_from_cbor_value v = (case v of VMap es \<Rightarrow> ceilings_loop es [] | _ \<Rightarrow> None)"

text \<open>An empty map is left out of the message.\<close>

definition ceilings_entry :: "age_ceilings \<Rightarrow> (string \<times> cbor_value) list" where
  "ceilings_entry ac = (if ac \<noteq> [] then [(''age_ceilings'', age_ceilings_to_cbor_value ac)] else [])"

section \<open>Filters\<close>

definition FAMILY :: string where "FAMILY = ''prismoire-bloom-v1''"
definition NO_TRIMMING :: nat where "NO_TRIMMING = 0"

record FilterSpec =
  fsp_family :: string
  fsp_k :: nat
  fsp_m :: nat
  fsp_n_est :: nat
  fsp_fpr :: real
  fsp_bytes :: bytes

definition from_bloom :: "BloomFilter \<Rightarrow> FilterSpec" where
  "from_bloom f = \<lparr>fsp_family = FAMILY, fsp_k = bf_k f, fsp_m = bf_m f, fsp_n_est = bf_n_est f,
     fsp_fpr = bf_fpr_target f, fsp_bytes = bf_bits f\<rparr>"

definition into_bloom :: "FilterSpec \<Rightarrow> string + BloomFilter" where
  "into_bloom s =
     (if fsp_family s \<noteq> FAMILY then Inl ''unsupported_family''
      else if \<not> (MIN_K \<le> fsp_k s \<and> fsp_k s \<le> MAX_K) then Inl ''filter_param_out_of_range''
      else if fsp_m s < MIN_M_BITS \<or> fsp_m s \<ge> MAX_M_BITS \<or> \<not> 64 dvd fsp_m s then Inl ''filter_param_out_of_range''
      else if length (fsp_bytes s) \<noteq> fsp_m s div 8 then Inl ''bytes_length_mismatch''
      else case from_parts (fsp_k s) (fsp_m s) (fsp_n_est s) (fsp_fpr s) (fsp_bytes s) of
        Inr f \<Rightarrow> Inr f | Inl _ \<Rightarrow> Inl ''filter_param_out_of_range'')"

definition filter_entries :: "(real \<Rightarrow> u64) \<Rightarrow> FilterSpec \<Rightarrow> (string \<times> cbor_value) list" where
  "filter_entries to_bits s =
     [(''family'', VText (fsp_family s)), (''k'', VNat (fsp_k s)), (''m'', VNat (fsp_m s)), (''n_est'', VNat (fsp_n_est s)),
      (''fpr_target'', VFloat (to_bits (fsp_fpr s))), (''bytes'', VBytes (fsp_bytes s))]"

definition filter_to_cbor :: "(real \<Rightarrow> u64) \<Rightarrow> FilterSpec \<Rightarrow> cbor_value" where
  "filter_to_cbor to_bits s = VMap (text_entries (filter_entries to_bits s))"

record filter_acc =
  fla_family :: "string option"
  fla_k :: "nat option"
  fla_m :: "nat option"
  fla_n_est :: "nat option"
  fla_fpr :: "real option"
  fla_bytes :: "bytes option"

definition filter_start :: filter_acc where
  "filter_start = \<lparr>fla_family = None, fla_k = None, fla_m = None, fla_n_est = None, fla_fpr = None, fla_bytes = None\<rparr>"

definition bytes_required :: "cbor_value \<Rightarrow> bytes option" where
  "bytes_required v = (case v of VBytes b \<Rightarrow> Some b | _ \<Rightarrow> None)"

definition filter_field :: "(u64 \<Rightarrow> real) \<Rightarrow> string \<Rightarrow> cbor_value \<Rightarrow> filter_acc \<Rightarrow> filter_acc option" where
  "filter_field of_bits k v acc =
     (if k = ''family'' then map_option (\<lambda>x. acc\<lparr>fla_family := Some x\<rparr>) (text_required v)
      else if k = ''k'' then map_option (\<lambda>x. acc\<lparr>fla_k := Some x\<rparr>) (uint_field 32 v)
      else if k = ''m'' then map_option (\<lambda>x. acc\<lparr>fla_m := Some x\<rparr>) (uint_field 32 v)
      else if k = ''n_est'' then map_option (\<lambda>x. acc\<lparr>fla_n_est := Some x\<rparr>) (uint_field 64 v)
      else if k = ''fpr_target'' then (case v of VFloat f \<Rightarrow> Some (acc\<lparr>fla_fpr := Some (of_bits f)\<rparr>) | _ \<Rightarrow> None)
      else if k = ''bytes'' then map_option (\<lambda>x. acc\<lparr>fla_bytes := Some x\<rparr>) (bytes_required v)
      else Some acc)"

definition filter_finish :: "filter_acc \<Rightarrow> FilterSpec option" where
  "filter_finish acc =
     Option.bind (fla_family acc) (\<lambda>f. Option.bind (fla_k acc) (\<lambda>k. Option.bind (fla_m acc) (\<lambda>m.
     Option.bind (fla_n_est acc) (\<lambda>n. Option.bind (fla_fpr acc) (\<lambda>p. Option.bind (fla_bytes acc) (\<lambda>b.
       Some \<lparr>fsp_family = f, fsp_k = k, fsp_m = m, fsp_n_est = n, fsp_fpr = p, fsp_bytes = b\<rparr>))))))"

definition filter_from_cbor :: "(u64 \<Rightarrow> real) \<Rightarrow> cbor_value \<Rightarrow> FilterSpec option" where
  "filter_from_cbor of_bits v = (case v of
     VMap es \<Rightarrow> Option.bind (fields_loop (filter_field of_bits) es filter_start) filter_finish | _ \<Rightarrow> None)"

section \<open>Announce\<close>

record FrontierAnnounce =
  fan_version :: nat
  fan_epoch :: nat
  fan_horizon :: nat
  fan_visible :: FilterSpec
  fan_expansion :: FilterSpec
  fan_mode :: Mode
  fan_ceilings :: age_ceilings

definition announce_entries :: "(real \<Rightarrow> u64) \<Rightarrow> FrontierAnnounce \<Rightarrow> (string \<times> cbor_value) list" where
  "announce_entries to_bits b =
     [(''version'', VNat (fan_version b)), (''epoch_start'', VNat (fan_epoch b)),
      (''active_horizon_days'', VNat (fan_horizon b)),
      (''visible_filter'', filter_to_cbor to_bits (fan_visible b)),
      (''expansion_filter'', filter_to_cbor to_bits (fan_expansion b)),
      (''mode'', VText (as_db_str (fan_mode b)))]
     @ ceilings_entry (fan_ceilings b)"

definition announce_encode :: "(cbor_value \<Rightarrow> bytes option) \<Rightarrow> (real \<Rightarrow> u64) \<Rightarrow> FrontierAnnounce \<Rightarrow> bytes option" where
  "announce_encode ser to_bits b = encode_body ser (announce_entries to_bits b)"

record announce_acc =
  ana_version :: "nat option"
  ana_epoch :: "nat option"
  ana_horizon :: "nat option"
  ana_visible :: "FilterSpec option"
  ana_expansion :: "FilterSpec option"
  ana_mode :: Mode
  ana_ceilings :: age_ceilings

definition announce_start :: announce_acc where
  "announce_start = \<lparr>ana_version = None, ana_epoch = None, ana_horizon = None, ana_visible = None, ana_expansion = None,
     ana_mode = Filtered, ana_ceilings = []\<rparr>"

definition announce_field :: "(u64 \<Rightarrow> real) \<Rightarrow> string \<Rightarrow> cbor_value \<Rightarrow> announce_acc \<Rightarrow> announce_acc option" where
  "announce_field of_bits k v acc =
     (if k = ''version'' then map_option (\<lambda>x. acc\<lparr>ana_version := Some x\<rparr>) (uint_field 64 v)
      else if k = ''epoch_start'' then map_option (\<lambda>x. acc\<lparr>ana_epoch := Some x\<rparr>) (uint_field 64 v)
      else if k = ''active_horizon_days'' then map_option (\<lambda>x. acc\<lparr>ana_horizon := Some x\<rparr>) (uint_field 32 v)
      else if k = ''visible_filter'' then map_option (\<lambda>x. acc\<lparr>ana_visible := Some x\<rparr>) (filter_from_cbor of_bits v)
      else if k = ''expansion_filter'' then map_option (\<lambda>x. acc\<lparr>ana_expansion := Some x\<rparr>) (filter_from_cbor of_bits v)
      else if k = ''mode'' then map_option (\<lambda>x. acc\<lparr>ana_mode := from_db_str x\<rparr>) (text_required v)
      else if k = ''age_ceilings'' then map_option (\<lambda>x. acc\<lparr>ana_ceilings := x\<rparr>) (age_ceilings_from_cbor_value v)
      else Some acc)"

definition announce_finish :: "announce_acc \<Rightarrow> FrontierAnnounce option" where
  "announce_finish acc =
     Option.bind (ana_version acc) (\<lambda>v. Option.bind (ana_epoch acc) (\<lambda>e. Option.bind (ana_horizon acc) (\<lambda>h.
     Option.bind (ana_visible acc) (\<lambda>vf. Option.bind (ana_expansion acc) (\<lambda>ef.
       Some \<lparr>fan_version = v, fan_epoch = e, fan_horizon = h, fan_visible = vf, fan_expansion = ef,
             fan_mode = ana_mode acc, fan_ceilings = ana_ceilings acc\<rparr>)))))"

definition announce_decode :: "(bytes \<Rightarrow> cbor_value option) \<Rightarrow> (u64 \<Rightarrow> real) \<Rightarrow> bytes \<Rightarrow> FrontierAnnounce option" where
  "announce_decode de of_bits = decode_body (announce_field of_bits) announce_start announce_finish de"

section \<open>Delta\<close>

record FrontierDelta =
  fdl_prev :: nat
  fdl_new :: nat
  fdl_visible_mask :: "bytes option"
  fdl_expansion_mask :: "bytes option"
  fdl_mode :: Mode
  fdl_ceilings :: age_ceilings

definition delta_entries :: "FrontierDelta \<Rightarrow> (string \<times> cbor_value) list" where
  "delta_entries b =
     [(''prev_version'', VNat (fdl_prev b)), (''new_version'', VNat (fdl_new b)),
      (''masks'', VMap (text_entries (opt_entry ''visible_filter'' VBytes (fdl_visible_mask b)
                                   @ opt_entry ''expansion_filter'' VBytes (fdl_expansion_mask b)))),
      (''mode'', VText (as_db_str (fdl_mode b)))]
     @ ceilings_entry (fdl_ceilings b)"

definition delta_encode :: "(cbor_value \<Rightarrow> bytes option) \<Rightarrow> FrontierDelta \<Rightarrow> bytes option" where
  "delta_encode ser b = encode_body ser (delta_entries b)"

record delta_acc =
  dla_prev :: "nat option"
  dla_new :: "nat option"
  dla_visible :: "bytes option"
  dla_expansion :: "bytes option"
  dla_mode :: Mode
  dla_ceilings :: age_ceilings

definition delta_start :: delta_acc where
  "delta_start = \<lparr>dla_prev = None, dla_new = None, dla_visible = None, dla_expansion = None, dla_mode = Filtered, dla_ceilings = []\<rparr>"

definition mask_field :: "string \<Rightarrow> cbor_value \<Rightarrow> delta_acc \<Rightarrow> delta_acc option" where
  "mask_field k v acc = map_option (\<lambda>b.
     if k = ''visible_filter'' then acc\<lparr>dla_visible := Some b\<rparr>
     else if k = ''expansion_filter'' then acc\<lparr>dla_expansion := Some b\<rparr> else acc) (bytes_required v)"

definition delta_field :: "string \<Rightarrow> cbor_value \<Rightarrow> delta_acc \<Rightarrow> delta_acc option" where
  "delta_field k v acc =
     (if k = ''prev_version'' then map_option (\<lambda>x. acc\<lparr>dla_prev := Some x\<rparr>) (uint_field 64 v)
      else if k = ''new_version'' then map_option (\<lambda>x. acc\<lparr>dla_new := Some x\<rparr>) (uint_field 64 v)
      else if k = ''masks'' then (case v of VMap es \<Rightarrow> fields_loop mask_field es acc | _ \<Rightarrow> None)
      else if k = ''mode'' then map_option (\<lambda>x. acc\<lparr>dla_mode := from_db_str x\<rparr>) (text_required v)
      else if k = ''age_ceilings'' then map_option (\<lambda>x. acc\<lparr>dla_ceilings := x\<rparr>) (age_ceilings_from_cbor_value v)
      else Some acc)"

definition delta_finish :: "delta_acc \<Rightarrow> FrontierDelta option" where
  "delta_finish acc =
     Option.bind (dla_prev acc) (\<lambda>p. Option.bind (dla_new acc) (\<lambda>n.
       Some \<lparr>fdl_prev = p, fdl_new = n, fdl_visible_mask = dla_visible acc, fdl_expansion_mask = dla_expansion acc,
             fdl_mode = dla_mode acc, fdl_ceilings = dla_ceilings acc\<rparr>))"

definition delta_decode :: "(bytes \<Rightarrow> cbor_value option) \<Rightarrow> bytes \<Rightarrow> FrontierDelta option" where
  "delta_decode = decode_body delta_field delta_start delta_finish"

section \<open>Snapshot\<close>

record FrontierSnapshot =
  fss_version :: nat
  fss_epoch :: nat
  fss_horizon :: nat
  fss_visible :: FilterSpec
  fss_expansion :: FilterSpec
  fss_cursor :: bytes
  fss_ceilings :: age_ceilings

definition snapshot_entries :: "(real \<Rightarrow> u64) \<Rightarrow> FrontierSnapshot \<Rightarrow> (string \<times> cbor_value) list" where
  "snapshot_entries to_bits b =
     [(''version'', VNat (fss_version b)), (''epoch_start'', VNat (fss_epoch b)),
      (''active_horizon_days'', VNat (fss_horizon b)),
      (''visible_filter'', filter_to_cbor to_bits (fss_visible b)),
      (''expansion_filter'', filter_to_cbor to_bits (fss_expansion b)),
      (''cursor'', VBytes (fss_cursor b))]
     @ ceilings_entry (fss_ceilings b)"

definition snapshot_encode :: "(cbor_value \<Rightarrow> bytes option) \<Rightarrow> (real \<Rightarrow> u64) \<Rightarrow> FrontierSnapshot \<Rightarrow> bytes option" where
  "snapshot_encode ser to_bits b = encode_body ser (snapshot_entries to_bits b)"

record snapshot_acc =
  sna_version :: "nat option"
  sna_epoch :: "nat option"
  sna_horizon :: "nat option"
  sna_visible :: "FilterSpec option"
  sna_expansion :: "FilterSpec option"
  sna_cursor :: "bytes option"
  sna_ceilings :: age_ceilings

definition snapshot_start :: snapshot_acc where
  "snapshot_start = \<lparr>sna_version = None, sna_epoch = None, sna_horizon = None, sna_visible = None, sna_expansion = None,
     sna_cursor = None, sna_ceilings = []\<rparr>"

definition snapshot_field :: "(u64 \<Rightarrow> real) \<Rightarrow> string \<Rightarrow> cbor_value \<Rightarrow> snapshot_acc \<Rightarrow> snapshot_acc option" where
  "snapshot_field of_bits k v acc =
     (if k = ''version'' then map_option (\<lambda>x. acc\<lparr>sna_version := Some x\<rparr>) (uint_field 64 v)
      else if k = ''epoch_start'' then map_option (\<lambda>x. acc\<lparr>sna_epoch := Some x\<rparr>) (uint_field 64 v)
      else if k = ''active_horizon_days'' then map_option (\<lambda>x. acc\<lparr>sna_horizon := Some x\<rparr>) (uint_field 32 v)
      else if k = ''visible_filter'' then map_option (\<lambda>x. acc\<lparr>sna_visible := Some x\<rparr>) (filter_from_cbor of_bits v)
      else if k = ''expansion_filter'' then map_option (\<lambda>x. acc\<lparr>sna_expansion := Some x\<rparr>) (filter_from_cbor of_bits v)
      else if k = ''cursor'' then map_option (\<lambda>x. acc\<lparr>sna_cursor := Some x\<rparr>) (bytes_required v)
      else if k = ''age_ceilings'' then map_option (\<lambda>x. acc\<lparr>sna_ceilings := x\<rparr>) (age_ceilings_from_cbor_value v)
      else Some acc)"

definition snapshot_finish :: "snapshot_acc \<Rightarrow> FrontierSnapshot option" where
  "snapshot_finish acc =
     Option.bind (sna_version acc) (\<lambda>v. Option.bind (sna_epoch acc) (\<lambda>e. Option.bind (sna_horizon acc) (\<lambda>h.
     Option.bind (sna_visible acc) (\<lambda>vf. Option.bind (sna_expansion acc) (\<lambda>ef. Option.bind (sna_cursor acc) (\<lambda>c.
       Some \<lparr>fss_version = v, fss_epoch = e, fss_horizon = h, fss_visible = vf, fss_expansion = ef,
             fss_cursor = c, fss_ceilings = sna_ceilings acc\<rparr>))))))"

definition snapshot_decode :: "(bytes \<Rightarrow> cbor_value option) \<Rightarrow> (u64 \<Rightarrow> real) \<Rightarrow> bytes \<Rightarrow> FrontierSnapshot option" where
  "snapshot_decode de of_bits = decode_body (snapshot_field of_bits) snapshot_start snapshot_finish de"

section \<open>Round trips\<close>

definition ceilings_ok :: "age_ceilings \<Rightarrow> bool" where
  "ceilings_ok ac \<longleftrightarrow> sorted_wrt (<) (map fst ac) \<and> length ac < 2 ^ 64 \<and>
     list_all (\<lambda>(rt, cutoff). length rt = 32 \<and> cutoff < 2 ^ 64) ac"

text \<open>A real that stands for an \<open>f32\<close>.\<close>

definition f32_value :: "(real \<Rightarrow> u64) \<Rightarrow> (u64 \<Rightarrow> real) \<Rightarrow> real \<Rightarrow> bool" where
  "f32_value to_bits of_bits x \<longleftrightarrow> of_bits (to_bits x) = x"

definition filter_ok :: "(real \<Rightarrow> u64) \<Rightarrow> (u64 \<Rightarrow> real) \<Rightarrow> FilterSpec \<Rightarrow> bool" where
  "filter_ok tb ob s \<longleftrightarrow> rust_string (fsp_family s) \<and> fsp_k s < 2 ^ 32 \<and> fsp_m s < 2 ^ 32 \<and> fsp_n_est s < 2 ^ 64 \<and>
     f32_value tb ob (fsp_fpr s) \<and> length (fsp_bytes s) < 2 ^ 64"

definition announce_ok :: "(real \<Rightarrow> u64) \<Rightarrow> (u64 \<Rightarrow> real) \<Rightarrow> FrontierAnnounce \<Rightarrow> bool" where
  "announce_ok tb ob b \<longleftrightarrow> fan_version b < 2 ^ 64 \<and> fan_epoch b < 2 ^ 64 \<and> fan_horizon b < 2 ^ 32 \<and>
     filter_ok tb ob (fan_visible b) \<and> filter_ok tb ob (fan_expansion b) \<and> ceilings_ok (fan_ceilings b)"

definition delta_ok :: "FrontierDelta \<Rightarrow> bool" where
  "delta_ok b \<longleftrightarrow> fdl_prev b < 2 ^ 64 \<and> fdl_new b < 2 ^ 64 \<and> pred_option (\<lambda>m. length m < 2 ^ 64) (fdl_visible_mask b) \<and>
     pred_option (\<lambda>m. length m < 2 ^ 64) (fdl_expansion_mask b) \<and> ceilings_ok (fdl_ceilings b)"

definition snapshot_ok :: "(real \<Rightarrow> u64) \<Rightarrow> (u64 \<Rightarrow> real) \<Rightarrow> FrontierSnapshot \<Rightarrow> bool" where
  "snapshot_ok tb ob b \<longleftrightarrow> fss_version b < 2 ^ 64 \<and> fss_epoch b < 2 ^ 64 \<and> fss_horizon b < 2 ^ 32 \<and>
     filter_ok tb ob (fss_visible b) \<and> filter_ok tb ob (fss_expansion b) \<and> length (fss_cursor b) < 2 ^ 64 \<and>
     ceilings_ok (fss_ceilings b)"

lemma nat_field [simp]:
  "n < 2 ^ w \<Longrightarrow> uint_field w (VNat n) = Some n"
  "bytes_required (VBytes b) = Some b"
  by (simp_all add: uint_field_def try_uint_def bytes_required_def)

lemma nat_carried [simp]: "n < 2 ^ 64 \<Longrightarrow> payload_value d (VNat n)"
  by simp

lemma small_nat: "n < 2 ^ 32 \<Longrightarrow> n < (2 ^ 64 :: nat)"
  by simp

lemma mode_rust [simp]: "rust_string (as_db_str md)"
  by (rule key_rust; cases md; simp add: as_db_str_def)

text \<open>A sorted map rebuilds itself from its entries in order.\<close>

lemma btree_insert_last: "\<forall>e \<in> set m. fst e < k \<Longrightarrow> btree_insert k v m = m @ [(k, v)]"
  by (induction m) (auto simp: order_less_not_sym)

lemma ceilings_loop_sorted:
  "sorted_wrt (<) (map fst (acc @ ac)) \<Longrightarrow> list_all (\<lambda>(rt, cutoff). length rt = 32 \<and> cutoff < 2 ^ 64) ac \<Longrightarrow>
    ceilings_loop (map (\<lambda>(rt, cutoff). (VBytes rt, VNat cutoff)) ac) acc = Some (acc @ ac)"
proof (induction ac arbitrary: acc)
  case (Cons e ac)
  obtain rt cutoff where e: "e = (rt, cutoff)" by (cases e)
  have "\<forall>x \<in> set acc. fst x < rt" using Cons.prems(1) by (auto simp: e sorted_wrt_append)
  then have "btree_insert rt cutoff acc = acc @ [e]" by (simp add: btree_insert_last e)
  moreover have "length rt = 32" "cutoff < 2 ^ 64" using Cons.prems(2) by (simp_all add: e)
  ultimately show ?case
    using Cons.IH [of "acc @ [e]"] Cons.prems by (simp add: e fixed_bytes_def uint_field_def try_uint_def)
qed simp

lemma ceilings_round [simp]:
  "ceilings_ok ac \<Longrightarrow> age_ceilings_from_cbor_value (age_ceilings_to_cbor_value ac) = Some ac"
  using ceilings_loop_sorted [of "[]" ac] by (simp add: ceilings_ok_def age_ceilings_from_cbor_value_def age_ceilings_to_cbor_value_def)

lemma ceilings_carried [simp]: "ceilings_ok ac \<Longrightarrow> payload_value 15 (age_ceilings_to_cbor_value ac)"
proof -
  have d: "15 = Suc 14" by simp
  assume "ceilings_ok ac"
  then show ?thesis unfolding d age_ceilings_to_cbor_value_def payload_value.simps
    by (auto simp: ceilings_ok_def list_all_iff)
qed

interpretation filter: map_body "filter_entries tb" "filter_field ob" filter_start filter_finish "filter_ok tb ob"
  "{''family'', ''k'', ''m'', ''n_est'', ''fpr_target'', ''bytes''}"
  for tb ob
proof
  fix s
  assume ok: "filter_ok tb ob s"
  then have n: "fsp_k s < 2 ^ 64" "fsp_m s < 2 ^ 64" using small_nat by (simp_all add: filter_ok_def)
  show "typed_entries 15 (filter_entries tb s)"
    using ok n by (simp add: filter_entries_def filter_ok_def key_rust)
  show "Option.bind (fields_loop (filter_field ob) (text_entries (filter_entries tb s)) filter_start) filter_finish = Some s"
    using ok by (simp add: filter_entries_def filter_ok_def filter_field_def filter_start_def filter_finish_def f32_value_def)
qed (auto simp: filter_field_def)

lemma filter_round [simp]: "filter_ok tb ob s \<Longrightarrow> filter_from_cbor ob (filter_to_cbor tb s) = Some s"
  using filter.rebuild by (simp add: filter_from_cbor_def filter_to_cbor_def)

lemma filter_carried [simp]: "filter_ok tb ob s \<Longrightarrow> payload_value 15 (filter_to_cbor tb s)"
proof -
  assume ok: "filter_ok tb ob s"
  have d: "15 = Suc 14" by simp
  show ?thesis unfolding d filter_to_cbor_def payload_value.simps
    using ok small_nat [of "fsp_k s"] small_nat [of "fsp_m s"]
    by (simp add: filter_ok_def filter_entries_def rust_string_def) (simp add: key_rust [unfolded rust_string_def])
qed

interpretation announce: map_body "announce_entries tb" "announce_field ob" announce_start announce_finish "announce_ok tb ob"
  "{''version'', ''epoch_start'', ''active_horizon_days'', ''visible_filter'', ''expansion_filter'', ''mode'', ''age_ceilings''}"
  for tb ob
proof
  fix b
  assume ok: "announce_ok tb ob b"
  then have n: "fan_horizon b < 2 ^ 64" using small_nat by (simp add: announce_ok_def)
  have f: "payload_value 15 (filter_to_cbor tb (fan_visible b))" "payload_value 15 (filter_to_cbor tb (fan_expansion b))"
    using ok by (auto simp: announce_ok_def)
  show "typed_entries 15 (announce_entries tb b)"
    using ok n f by (auto simp: announce_entries_def ceilings_entry_def announce_ok_def key_rust)
  show "Option.bind (fields_loop (announce_field ob) (text_entries (announce_entries tb b)) announce_start) announce_finish = Some b"
    using ok by (auto simp: announce_entries_def ceilings_entry_def announce_ok_def announce_field_def announce_start_def announce_finish_def)
qed (auto simp: announce_field_def)

interpretation snapshot: map_body "snapshot_entries tb" "snapshot_field ob" snapshot_start snapshot_finish "snapshot_ok tb ob"
  "{''version'', ''epoch_start'', ''active_horizon_days'', ''visible_filter'', ''expansion_filter'', ''cursor'', ''age_ceilings''}"
  for tb ob
proof
  fix b
  assume ok: "snapshot_ok tb ob b"
  then have n: "fss_horizon b < 2 ^ 64" using small_nat by (simp add: snapshot_ok_def)
  have f: "payload_value 15 (filter_to_cbor tb (fss_visible b))" "payload_value 15 (filter_to_cbor tb (fss_expansion b))"
    using ok by (auto simp: snapshot_ok_def)
  show "typed_entries 15 (snapshot_entries tb b)"
    using ok n f by (auto simp: snapshot_entries_def ceilings_entry_def snapshot_ok_def key_rust)
  show "Option.bind (fields_loop (snapshot_field ob) (text_entries (snapshot_entries tb b)) snapshot_start) snapshot_finish = Some b"
    using ok by (auto simp: snapshot_entries_def ceilings_entry_def snapshot_ok_def snapshot_field_def snapshot_start_def snapshot_finish_def)
qed (auto simp: snapshot_field_def)

lemma masks_carried:
  assumes "pred_option (\<lambda>m. length m < 2 ^ 64) vm" "pred_option (\<lambda>m. length m < 2 ^ 64) em"
  shows "payload_value 15 (VMap (text_entries (opt_entry ''visible_filter'' VBytes vm @ opt_entry ''expansion_filter'' VBytes em)))"
proof -
  have d: "15 = Suc 14" by simp
  show ?thesis unfolding d payload_value.simps using assms
    by (cases vm; cases em) (simp_all add: opt_entry_def key_rust)
qed

interpretation delta: map_body delta_entries delta_field delta_start delta_finish delta_ok
  "{''prev_version'', ''new_version'', ''masks'', ''mode'', ''age_ceilings''}"
proof
  fix b
  assume ok: "delta_ok b"
  show "typed_entries 15 (delta_entries b)"
    using ok masks_carried by (auto simp: delta_entries_def ceilings_entry_def delta_ok_def key_rust)
  have "fields_loop mask_field (text_entries (opt_entry ''visible_filter'' VBytes vm @ opt_entry ''expansion_filter'' VBytes em)) acc
      = Some (acc\<lparr>dla_visible := (case vm of None \<Rightarrow> dla_visible acc | m \<Rightarrow> m), dla_expansion := (case em of None \<Rightarrow> dla_expansion acc | m \<Rightarrow> m)\<rparr>)"
    for vm em acc
    by (cases vm; cases em) (simp_all add: opt_entry_def mask_field_def)
  then show "Option.bind (fields_loop delta_field (text_entries (delta_entries b)) delta_start) delta_finish = Some b"
    using ok by (auto simp: delta_entries_def ceilings_entry_def delta_ok_def delta_field_def delta_start_def delta_finish_def
        simp del: opt_entry_loop split: option.splits)
qed (auto simp: delta_field_def)

text \<open>C22. Every frontier message survives the wire: with any CBOR codec that carries the values it is given, an
  announce, a delta with any combination of masks, and a snapshot encode, and decoding gives each back, filters,
  false-positive target and age ceilings included; an empty ceiling map is left out and read back as empty.\<close>

theorem frontier_round_trip:
  assumes "cbor_codec ser de" "announce_ok tb ob a" "delta_ok d" "snapshot_ok tb ob s"
  shows "(\<exists>w. announce_encode ser tb a = Some w \<and> announce_decode de ob w = Some a) \<and>
    (\<exists>w. delta_encode ser d = Some w \<and> delta_decode de w = Some d) \<and>
    (\<exists>w. snapshot_encode ser tb s = Some w \<and> snapshot_decode de ob w = Some s)"
  unfolding announce_encode_def announce_decode_def delta_encode_def delta_decode_def snapshot_encode_def snapshot_decode_def
  using announce.round_trip [OF assms(1,2)] delta.round_trip [OF assms(1,3)] snapshot.round_trip [OF assms(1,4)] by blast

text \<open>The bits of \<open>0.01f32\<close> as \<open>f64\<close>, and the way back.\<close>

definition demo_to_bits :: "real \<Rightarrow> u64" where "demo_to_bits x = (if x = 1/100 then 0x3F847AE140000000 else 0)"
definition demo_of_bits :: "u64 \<Rightarrow> real" where "demo_of_bits w = (if w = 0x3F847AE140000000 then 1/100 else 0)"

definition demo_filter :: FilterSpec where
  "demo_filter = \<lparr>fsp_family = FAMILY, fsp_k = 7, fsp_m = 64, fsp_n_est = 3, fsp_fpr = 1/100, fsp_bytes = replicate 8 5\<rparr>"

definition demo_announce :: FrontierAnnounce where
  "demo_announce = \<lparr>fan_version = 4, fan_epoch = 1700000000000, fan_horizon = 0, fan_visible = demo_filter,
     fan_expansion = demo_filter, fan_mode = AllMode, fan_ceilings = [(replicate 32 1, 9), (replicate 32 2, 8)]\<rparr>"

definition demo_delta :: FrontierDelta where
  "demo_delta = \<lparr>fdl_prev = 4, fdl_new = 5, fdl_visible_mask = Some (replicate 8 2), fdl_expansion_mask = None,
     fdl_mode = Filtered, fdl_ceilings = []\<rparr>"

definition demo_snapshot :: FrontierSnapshot where
  "demo_snapshot = \<lparr>fss_version = 4, fss_epoch = 1700000000000, fss_horizon = 0, fss_visible = demo_filter,
     fss_expansion = demo_filter, fss_cursor = replicate 16 0, fss_ceilings = []\<rparr>"

lemma demo_frontier_ok:
  "announce_ok demo_to_bits demo_of_bits demo_announce" "delta_ok demo_delta" "snapshot_ok demo_to_bits demo_of_bits demo_snapshot"
proof -
  have f: "filter_ok demo_to_bits demo_of_bits demo_filter"
    by (simp add: filter_ok_def demo_filter_def f32_value_def demo_to_bits_def demo_of_bits_def FAMILY_def key_rust)
  have "replicate 32 (1 :: u8) < replicate 32 2" by (simp add: numeral_eq_Suc)
  then show "announce_ok demo_to_bits demo_of_bits demo_announce"
    using f by (simp add: announce_ok_def demo_announce_def ceilings_ok_def)
  show "delta_ok demo_delta" by (simp add: delta_ok_def demo_delta_def ceilings_ok_def)
  show "snapshot_ok demo_to_bits demo_of_bits demo_snapshot"
    using f by (simp add: snapshot_ok_def demo_snapshot_def ceilings_ok_def)
qed

theorem frontier_round_trip_witness:
  "(\<exists>w. announce_encode rfc_ser demo_to_bits demo_announce = Some w \<and> announce_decode rfc_de demo_of_bits w = Some demo_announce) \<and>
   (\<exists>w. delta_encode rfc_ser demo_delta = Some w \<and> delta_decode rfc_de w = Some demo_delta)"
  using frontier_round_trip [OF rfc.cbor_codec_axioms demo_frontier_ok] by blast

section \<open>Filters on the wire\<close>

text \<open>A filter that satisfies the constructor's checks is accepted by the receiver as the same filter, and a spec is
  accepted exactly if it names the family and satisfies the parameter ranges and the length.\<close>

lemma into_bloom_iff:
  "into_bloom s = Inr f \<longleftrightarrow> fsp_family s = FAMILY \<and> bloom_wf f \<and> f = \<lparr>bf_k = fsp_k s, bf_m = fsp_m s, bf_n_est = fsp_n_est s,
     bf_fpr_target = fsp_fpr s, bf_bits = fsp_bytes s\<rparr>"
  by (auto simp: into_bloom_def from_parts_def check_params_def bloom_wf_def)

lemma into_from_bloom: "bloom_wf f \<Longrightarrow> into_bloom (from_bloom f) = Inr f"
  by (simp add: into_bloom_iff from_bloom_def)

end
