(* ===== verification/Frontier_Sync.thy ===== *)
theory Frontier_Sync
  imports Frontier_Search Frontier_Wire
begin

text \<open>
  The second half of \<open>server/src/federation/frontier.rs\<close>: the local frontier and its refresh, the handlers of the
  announce, delta and snapshot routes, the announcing and the pulling side, and one pass of the fan-out worker.
  \<open>u64\<close> values are natural numbers, the \<open>i64\<close> columns integers with the casts written out. Inputs are the clock, the
  answers of the transport, the URL-safe base64 decoder, the forward scores of the trust graph, the rows of the replay
  query, and \<open>fails\<close>, which says which of the numbered database statements of a handler fail.
\<close>

section \<open>The local frontier\<close>

text \<open>\<open>0.01\<close> as an \<open>f32\<close>.\<close>

definition DEFAULT_FPR_TARGET :: real where "DEFAULT_FPR_TARGET = 10737418 / 2 ^ 30"
definition DEFAULT_K :: nat where "DEFAULT_K = 7"

record LocalFrontier =
  lf_version :: nat
  lf_epoch :: nat
  lf_visible :: BloomFilter
  lf_expansion :: BloomFilter
  lf_cursor :: bytes
  lf_keys :: "bytes set"
  lf_ceilings :: age_ceilings

definition encode_cursor :: "nat \<Rightarrow> nat \<Rightarrow> bytes" where
  "encode_cursor version epoch_start = be_bytes 8 version @ be_bytes 8 epoch_start"

text \<open>\<open>None\<close> is the panic of an \<open>expect\<close>.\<close>

definition local_frontier_empty :: "nat \<Rightarrow> LocalFrontier option" where
  "local_frontier_empty now = (case new_empty DEFAULT_K MIN_M_BITS 0 DEFAULT_FPR_TARGET of
     Inl _ \<Rightarrow> None
   | Inr f \<Rightarrow> Some \<lparr>lf_version = 0, lf_epoch = now, lf_visible = f, lf_expansion = f, lf_cursor = encode_cursor 0 now,
                    lf_keys = {}, lf_ceilings = []\<rparr>)"

definition build_bloom_from_keys :: "siphash \<Rightarrow> bytes list \<Rightarrow> BloomFilter option" where
  "build_bloom_from_keys sip keys =
     (let n = length keys; m = recommend_m n DEFAULT_FPR_TARGET; k = recommend_k m n
      in case new_empty k m n DEFAULT_FPR_TARGET of Inl _ \<Rightarrow> None | Inr f \<Rightarrow> Some (insert_all sip keys f))"

text \<open>The keys of the local active users; the query of \<open>compute_local_frontier\<close> and \<open>fetch_local_user_pubkeys\<close>.\<close>

definition fetch_local_user_pubkeys :: "frontier_db \<Rightarrow> bytes list" where
  "fetch_local_user_pubkeys db = map us_public_key
     (filter (\<lambda>u. us_home u = None \<and> us_status u = ''active'' \<and> length (us_public_key u) = 32) (db_users db))"

definition load_local_age_ceilings :: "frontier_db \<Rightarrow> age_ceilings" where
  "load_local_age_ceilings db = fold (\<lambda>(rt, cutoff) out.
     if length rt = 32 \<and> 0 \<le> cutoff then btree_insert rt (nat cutoff) out else out) (db_ceilings db) []"

text \<open>The hash sets are lists without repetition; their order does not reach the filter bits.\<close>

definition compute_local_frontier :: "siphash \<Rightarrow> nat \<Rightarrow> frontier_db \<Rightarrow> LocalFrontier option" where
  "compute_local_frontier sip now db =
     (let root_keys = fetch_local_user_pubkeys db;
          stubs = load_frontier_stub_keys (current_generation db) db;
          visible = remdups (root_keys @ visible_keys stubs);
          edge = remdups (root_keys @ expansion_keys stubs)
      in Option.bind (build_bloom_from_keys sip visible) (\<lambda>vf.
         Option.bind (build_bloom_from_keys sip edge) (\<lambda>ef.
           Some \<lparr>lf_version = 0, lf_epoch = now, lf_visible = vf, lf_expansion = ef, lf_cursor = encode_cursor 0 now,
                 lf_keys = set visible, lf_ceilings = load_local_age_ceilings db\<rparr>)))"

definition filter_bytes_differ :: "BloomFilter \<Rightarrow> BloomFilter \<Rightarrow> bool" where
  "filter_bytes_differ a b \<longleftrightarrow> bf_k a \<noteq> bf_k b \<or> bf_m a \<noteq> bf_m b \<or> bf_bits a \<noteq> bf_bits b"

record FrontierRefresh =
  fr_frontier :: LocalFrontier
  fr_changed :: bool
  fr_added :: "bytes set"

text \<open>The refresh and the snapshot it leaves behind the lock.\<close>

definition refresh_local_frontier_detailed ::
  "siphash \<Rightarrow> nat \<Rightarrow> frontier_db \<Rightarrow> LocalFrontier \<Rightarrow> (FrontierRefresh \<times> LocalFrontier) option" where
  "refresh_local_frontier_detailed sip now db prev =
     map_option (\<lambda>next.
       if filter_bytes_differ (lf_visible prev) (lf_visible next) \<or> filter_bytes_differ (lf_expansion prev) (lf_expansion next)
       then let v = sat_add64 (lf_version prev) 1;
                new = next\<lparr>lf_version := v, lf_cursor := encode_cursor v (lf_epoch next)\<rparr>
            in (\<lparr>fr_frontier = new, fr_changed = True, fr_added = lf_keys next - lf_keys prev\<rparr>, new)
       else (\<lparr>fr_frontier = prev, fr_changed = False, fr_added = {}\<rparr>, prev))
     (compute_local_frontier sip now db)"

section \<open>The stored frontiers of the peers\<close>

text \<open>The casts \<open>as i64\<close> and \<open>as u64\<close>.\<close>

definition to_i64 :: "nat \<Rightarrow> int" where "to_i64 n = (if n < 2 ^ 63 then int n else int n - 2 ^ 64)"
definition from_i64 :: "int \<Rightarrow> nat" where "from_i64 i = nat (i mod 2 ^ 64)"

record filter_row =
  fw_family :: string
  fw_k :: int
  fw_m :: int
  fw_n :: int
  fw_fpr :: real
  fw_bytes :: bytes

record frontier_row =
  pf_version :: int
  pf_epoch :: int
  pf_horizon :: int
  pf_visible :: filter_row
  pf_expansion :: filter_row
  pf_cursor :: bytes
  pf_inbound :: string
  pf_outbound :: string

text \<open>An instance, as far as frontiers go: \<open>in_rows\<close> is the table \<open>peer_frontiers\<close>, \<open>in_ceil\<close> the table
  \<open>peer_frontier_age_ceilings\<close>, \<open>in_known\<close> the keys in \<open>peers\<close> that the foreign key refers to, \<open>in_local\<close> the
  snapshot behind the lock.\<close>

record inst =
  in_db :: frontier_db
  in_rows :: "bytes \<rightharpoonup> frontier_row"
  in_ceil :: "bytes \<Rightarrow> (bytes \<rightharpoonup> int)"
  in_known :: "bytes set"
  in_local :: LocalFrontier

definition filter_row_of :: "FilterSpec \<Rightarrow> BloomFilter \<Rightarrow> filter_row" where
  "filter_row_of spec f = \<lparr>fw_family = fsp_family spec, fw_k = int (bf_k f), fw_m = int (bf_m f),
     fw_n = to_i64 (fsp_n_est spec), fw_fpr = fsp_fpr spec, fw_bytes = bf_bits f\<rparr>"

text \<open>The \<open>CHECK\<close> constraints that a validated message can still violate.\<close>

definition row_checks :: "frontier_row \<Rightarrow> bool" where
  "row_checks r \<longleftrightarrow> 0 \<le> pf_version r \<and> 0 \<le> pf_epoch r \<and> 0 \<le> fw_n (pf_visible r) \<and> 0 \<le> fw_n (pf_expansion r)"

text \<open>The guarded upsert: \<open>None\<close> is a constraint error, otherwise whether a row was written.\<close>

definition upsert_frontier :: "bytes \<Rightarrow> frontier_row \<Rightarrow> inst \<Rightarrow> (bool \<times> inst) option" where
  "upsert_frontier sndr row st =
     (if \<not> row_checks row then None
      else case in_rows st sndr of
        Some old \<Rightarrow> if pf_version row > pf_version old then Some (True, st\<lparr>in_rows := (in_rows st)(sndr \<mapsto> row)\<rparr>)
                    else Some (False, st)
      | None \<Rightarrow> if sndr \<in> in_known st then Some (True, st\<lparr>in_rows := (in_rows st)(sndr \<mapsto> row)\<rparr>) else None)"

definition replace_peer_age_ceilings :: "bytes \<Rightarrow> age_ceilings \<Rightarrow> inst \<Rightarrow> inst" where
  "replace_peer_age_ceilings peer ceilings st =
     st\<lparr>in_ceil := (in_ceil st)(peer := map_of (map (\<lambda>(rt, cutoff). (rt, to_i64 cutoff)) ceilings))\<rparr>"

definition merge_peer_age_ceilings :: "bytes \<Rightarrow> age_ceilings \<Rightarrow> inst \<Rightarrow> inst" where
  "merge_peer_age_ceilings peer ceilings st =
     (if ceilings = [] then st
      else st\<lparr>in_ceil := (in_ceil st)(peer := in_ceil st peer ++ map_of (map (\<lambda>(rt, cutoff). (rt, to_i64 cutoff)) ceilings))\<rparr>)"

text \<open>One row of the replay query: the keys, the hash and the signed object.\<close>

record replay_row =
  rp_source :: bytes
  rp_target :: bytes
  rp_hash :: bytes
  rp_payload :: bytes
  rp_signature :: bytes

text \<open>The calls of \<open>forward_trust_edge\<close> that the replay makes; a failed query makes none.\<close>

definition replay_local_edges_to_peer ::
  "siphash \<Rightarrow> replay_row list option \<Rightarrow> BloomFilter \<Rightarrow> replay_row list" where
  "replay_local_edges_to_peer sip rows expansion = (case rows of None \<Rightarrow> []
   | Some rs \<Rightarrow> filter (\<lambda>r. bloom_contains sip expansion (rp_target r) \<and> length (rp_source r) = 32 \<and>
       length (rp_target r) = 32 \<and> length (rp_hash r) = 32) rs)"

section \<open>Applying an inbound frontier\<close>

record inbound =
  ib_version :: nat
  ib_epoch :: nat
  ib_horizon :: nat
  ib_visible :: FilterSpec
  ib_expansion :: FilterSpec
  ib_mode :: Mode
  ib_ceilings :: age_ceilings

datatype InboundFrontierError = BadFilter string | InboundDb

text \<open>The validated filters and the row to write.\<close>

definition inbound_row ::
  "siphash \<Rightarrow> bytes list \<Rightarrow> Mode \<Rightarrow> inbound \<Rightarrow> InboundFrontierError + (BloomFilter \<times> frontier_row)" where
  "inbound_row sip local_keys prior ib = (case into_bloom (ib_visible ib) of
     Inl code \<Rightarrow> Inl (BadFilter code)
   | Inr visible \<Rightarrow> (case into_bloom (ib_expansion ib) of
       Inl code \<Rightarrow> Inl (BadFilter code)
     | Inr expansion \<Rightarrow> Inr (expansion,
         \<lparr>pf_version = to_i64 (ib_version ib), pf_epoch = to_i64 (ib_epoch ib), pf_horizon = int (ib_horizon ib),
          pf_visible = filter_row_of (ib_visible ib) visible, pf_expansion = filter_row_of (ib_expansion ib) expansion,
          pf_cursor = encode_cursor (ib_version ib) (ib_epoch ib), pf_inbound = as_db_str (ib_mode ib),
          pf_outbound = as_db_str (classify_mode sip prior visible local_keys)\<rparr>)))"

text \<open>Statements: 1 reads the local users, 2 is the upsert, 3 the replacement of the ceilings. The result is the
  outcome (whether the guard was won, and the cursor), the calls of the replay, and the state.\<close>

definition apply_inbound_frontier ::
  "siphash \<Rightarrow> (nat \<Rightarrow> bool) \<Rightarrow> replay_row list option \<Rightarrow> bytes \<Rightarrow> Mode \<Rightarrow> inbound \<Rightarrow> inst
   \<Rightarrow> (InboundFrontierError + (bool \<times> bytes)) \<times> replay_row list \<times> inst" where
  "apply_inbound_frontier sip fails rows sndr prior ib st =
     (case inbound_row sip (fetch_local_user_pubkeys (in_db st)) prior ib of
       Inl e \<Rightarrow> (Inl e, [], st)
     | Inr (expansion, row) \<Rightarrow>
         if fails 1 \<or> fails 2 then (Inl InboundDb, [], st)
         else case upsert_frontier sndr row st of
           None \<Rightarrow> (Inl InboundDb, [], st)
         | Some (won, st1) \<Rightarrow>
             if \<not> won then (Inr (False, pf_cursor row), [], st1)
             else if fails 3 then (Inl InboundDb, [], st1)
             else (Inr (True, pf_cursor row), replay_local_edges_to_peer sip rows expansion,
                   replace_peer_age_ceilings sndr (ib_ceilings ib) st1))"

section \<open>Announce\<close>

datatype frontier_reply = Applied nat bytes | VersionConflict nat | NotModified | SnapshotBody bytes | FrontierErr nat string

definition announce_response :: "nat \<Rightarrow> bytes \<Rightarrow> frontier_reply" where
  "announce_response applied_version cursor = Applied applied_version cursor"

definition delta_version_conflict :: "nat \<Rightarrow> frontier_reply" where
  "delta_version_conflict current = VersionConflict current"

fun frontier_status :: "frontier_reply \<Rightarrow> nat" where
  "frontier_status (Applied _ _) = 200"
| "frontier_status (VersionConflict _) = 409"
| "frontier_status NotModified = 304"
| "frontier_status (SnapshotBody _) = 200"
| "frontier_status (FrontierErr s _) = s"

definition inbound_of_announce :: "FrontierAnnounce \<Rightarrow> inbound" where
  "inbound_of_announce a = \<lparr>ib_version = fan_version a, ib_epoch = fan_epoch a, ib_horizon = fan_horizon a,
     ib_visible = fan_visible a, ib_expansion = fan_expansion a, ib_mode = fan_mode a, ib_ceilings = fan_ceilings a\<rparr>"

text \<open>The monotonicity check on the row that was read: an early answer, or the prior mode.\<close>

definition announce_check :: "nat \<Rightarrow> frontier_row option \<Rightarrow> frontier_reply + Mode" where
  "announce_check version existing = (case existing of
     None \<Rightarrow> Inr Filtered
   | Some row \<Rightarrow>
       let applied = from_i64 (pf_version row)
       in if version < applied then Inl (FrontierErr 400 ''version_not_monotonic'')
          else if version = applied then Inl (announce_response applied (pf_cursor row))
          else Inr (from_db_str (pf_outbound row)))"

text \<open>Statement 0 reads the row, 4 re-reads it after a lost guard.\<close>

definition handle_frontier_announce ::
  "siphash \<Rightarrow> (bytes \<Rightarrow> cbor_value option) \<Rightarrow> (u64 \<Rightarrow> real) \<Rightarrow> (nat \<Rightarrow> bool) \<Rightarrow> replay_row list option \<Rightarrow> bytes \<Rightarrow> bytes \<Rightarrow> inst
   \<Rightarrow> frontier_reply \<times> replay_row list \<times> inst" where
  "handle_frontier_announce sip de of_bits fails rows sndr msg st = (case announce_decode de of_bits msg of
     None \<Rightarrow> (FrontierErr 400 ''malformed'', [], st)
   | Some parsed \<Rightarrow>
       if fails 0 then (FrontierErr 500 ''internal'', [], st)
       else case announce_check (fan_version parsed) (in_rows st sndr) of
         Inl reply \<Rightarrow> (reply, [], st)
       | Inr prior \<Rightarrow> (case apply_inbound_frontier sip fails rows sndr prior (inbound_of_announce parsed) st of
           (Inl (BadFilter code), calls, st1) \<Rightarrow> (FrontierErr 400 code, calls, st1)
         | (Inl InboundDb, calls, st1) \<Rightarrow> (FrontierErr 500 ''internal'', calls, st1)
         | (Inr (won, cursor), calls, st1) \<Rightarrow>
             if \<not> won then
               if fails 4 then (FrontierErr 500 ''internal'', calls, st1)
               else case in_rows st1 sndr of
                 Some row \<Rightarrow> (announce_response (from_i64 (pf_version row)) (pf_cursor row), calls, st1)
               | None \<Rightarrow> (announce_response (fan_version parsed) cursor, calls, st1)
             else (announce_response (fan_version parsed) cursor, calls, st1)))"

section \<open>Delta\<close>

definition merge_mask :: "bytes option \<Rightarrow> bytes \<Rightarrow> bytes option" where
  "merge_mask msk bs = (case msk of None \<Rightarrow> Some bs
   | Some m \<Rightarrow> if length m \<noteq> length bs then None else Some (map2 (OR) bs m))"

text \<open>The row after a delta has been merged into the row that was read, or the answer that refuses it.\<close>

definition delta_row ::
  "siphash \<Rightarrow> (real \<Rightarrow> real) \<Rightarrow> (nat \<Rightarrow> bool) \<Rightarrow> bytes list \<Rightarrow> FrontierDelta \<Rightarrow> frontier_row \<Rightarrow> frontier_reply + frontier_row" where
  "delta_row sip as_f32 fails local_keys parsed row =
     (if fdl_prev parsed \<noteq> from_i64 (pf_version row) then Inl (delta_version_conflict (from_i64 (pf_version row)))
      else case merge_mask (fdl_visible_mask parsed) (fw_bytes (pf_visible row)) of
        None \<Rightarrow> Inl (FrontierErr 400 ''or_mask_length_mismatch'')
      | Some vb \<Rightarrow> (case merge_mask (fdl_expansion_mask parsed) (fw_bytes (pf_expansion row)) of
          None \<Rightarrow> Inl (FrontierErr 400 ''or_mask_length_mismatch'')
        | Some eb \<Rightarrow>
            let prior = from_db_str (pf_outbound row); vis = pf_visible row
            in case (try_uint 32 (fw_k vis), try_uint 32 (fw_m vis), try_uint 64 (fw_n vis)) of
              (Some k, Some m, Some n) \<Rightarrow>
                (case from_parts k m n (as_f32 (fw_fpr vis)) vb of
                  Inr visible \<Rightarrow> if fails 1 then Inl (FrontierErr 500 ''internal'')
                    else Inr (row\<lparr>pf_version := to_i64 (fdl_new parsed), pf_visible := vis\<lparr>fw_bytes := vb\<rparr>,
                      pf_expansion := (pf_expansion row)\<lparr>fw_bytes := eb\<rparr>,
                      pf_cursor := encode_cursor (fdl_new parsed) (from_i64 (pf_epoch row)),
                      pf_inbound := as_db_str (fdl_mode parsed),
                      pf_outbound := as_db_str (classify_mode sip prior visible local_keys)\<rparr>)
                | Inl _ \<Rightarrow> Inr (row\<lparr>pf_version := to_i64 (fdl_new parsed), pf_visible := vis\<lparr>fw_bytes := vb\<rparr>,
                      pf_expansion := (pf_expansion row)\<lparr>fw_bytes := eb\<rparr>,
                      pf_cursor := encode_cursor (fdl_new parsed) (from_i64 (pf_epoch row)),
                      pf_inbound := as_db_str (fdl_mode parsed), pf_outbound := as_db_str prior\<rparr>))
            | _ \<Rightarrow> Inl (FrontierErr 500 ''internal'')))"

text \<open>The \<open>UPDATE\<close>: of the columns read, it sets the six that a delta changes, on whatever row is there now.\<close>

definition update_frontier :: "bytes \<Rightarrow> frontier_row \<Rightarrow> inst \<Rightarrow> inst option" where
  "update_frontier sndr new st = (case in_rows st sndr of
     None \<Rightarrow> Some st
   | Some cur \<Rightarrow>
       let row = cur\<lparr>pf_version := pf_version new, pf_visible := (pf_visible cur)\<lparr>fw_bytes := fw_bytes (pf_visible new)\<rparr>,
             pf_expansion := (pf_expansion cur)\<lparr>fw_bytes := fw_bytes (pf_expansion new)\<rparr>, pf_cursor := pf_cursor new,
             pf_inbound := pf_inbound new, pf_outbound := pf_outbound new\<rparr>
       in if pf_version row < 0 \<or> int (length (fw_bytes (pf_visible row))) \<noteq> fw_m (pf_visible row) div 8
             \<or> int (length (fw_bytes (pf_expansion row))) \<noteq> fw_m (pf_expansion row) div 8 then None
          else Some (st\<lparr>in_rows := (in_rows st)(sndr \<mapsto> row)\<rparr>))"

definition handle_frontier_delta ::
  "siphash \<Rightarrow> (real \<Rightarrow> real) \<Rightarrow> (bytes \<Rightarrow> cbor_value option) \<Rightarrow> (nat \<Rightarrow> bool) \<Rightarrow> bytes \<Rightarrow> bytes \<Rightarrow> inst \<Rightarrow> frontier_reply \<times> inst" where
  "handle_frontier_delta sip as_f32 de fails sndr msg st = (case delta_decode de msg of
     None \<Rightarrow> (FrontierErr 400 ''malformed'', st)
   | Some parsed \<Rightarrow>
       if fdl_new parsed \<le> fdl_prev parsed then (FrontierErr 400 ''version_not_monotonic'', st)
       else if fdl_visible_mask parsed = None \<and> fdl_expansion_mask parsed = None \<and> fdl_ceilings parsed = []
       then (FrontierErr 400 ''empty_delta'', st)
       else if fails 0 then (FrontierErr 500 ''internal'', st)
       else case in_rows st sndr of
         None \<Rightarrow> (delta_version_conflict 0, st)
       | Some row \<Rightarrow> (case delta_row sip as_f32 fails (fetch_local_user_pubkeys (in_db st)) parsed row of
           Inl reply \<Rightarrow> (reply, st)
         | Inr new \<Rightarrow>
             if fails 2 then (FrontierErr 500 ''internal'', st)
             else case update_frontier sndr new st of
               None \<Rightarrow> (FrontierErr 500 ''internal'', st)
             | Some st1 \<Rightarrow>
                 if fails 3 then (FrontierErr 500 ''internal'', st1)
                 else (announce_response (fdl_new parsed) (pf_cursor new),
                       merge_peer_age_ceilings sndr (fdl_ceilings parsed) st1)))"

section \<open>Snapshot, announcing and pulling\<close>

text \<open>\<open>b64\<close> is the URL-safe decoder without padding. The outer \<open>None\<close> is the panic of the encoder's \<open>expect\<close>.\<close>

definition snapshot_of :: "LocalFrontier \<Rightarrow> FrontierSnapshot" where
  "snapshot_of lf = \<lparr>fss_version = lf_version lf, fss_epoch = lf_epoch lf, fss_horizon = NO_TRIMMING,
     fss_visible = from_bloom (lf_visible lf), fss_expansion = from_bloom (lf_expansion lf), fss_cursor = lf_cursor lf,
     fss_ceilings = lf_ceilings lf\<rparr>"

definition handle_frontier_get ::
  "(cbor_value \<Rightarrow> bytes option) \<Rightarrow> (real \<Rightarrow> u64) \<Rightarrow> (string \<Rightarrow> bytes option) \<Rightarrow> string option \<Rightarrow> inst \<Rightarrow> frontier_reply option" where
  "handle_frontier_get ser to_bits b64 since st =
     (case since of
       Some s \<Rightarrow> if s \<noteq> [] \<and> b64 s = Some (lf_cursor (in_local st)) then Some NotModified
                 else map_option SnapshotBody (snapshot_encode ser to_bits (snapshot_of (in_local st)))
     | None \<Rightarrow> map_option SnapshotBody (snapshot_encode ser to_bits (snapshot_of (in_local st))))"

datatype AnnounceError = AnnTransport | AnnStatus nat | AnnCompute

definition announce_of :: "Mode \<Rightarrow> LocalFrontier \<Rightarrow> FrontierAnnounce" where
  "announce_of md lf = \<lparr>fan_version = lf_version lf, fan_epoch = lf_epoch lf, fan_horizon = NO_TRIMMING,
     fan_visible = from_bloom (lf_visible lf), fan_expansion = from_bloom (lf_expansion lf), fan_mode = md,
     fan_ceilings = lf_ceilings lf\<rparr>"

text \<open>Statement 0 reads the mode; a failure of it means \<open>Filtered\<close>. \<open>None\<close> is a failed refresh or a panic.\<close>

definition stored_mode :: "(nat \<Rightarrow> bool) \<Rightarrow> bytes \<Rightarrow> inst \<Rightarrow> Mode" where
  "stored_mode fails peer st = (if fails 0 then Filtered
     else case in_rows st peer of Some r \<Rightarrow> from_db_str (pf_outbound r) | None \<Rightarrow> Filtered)"

text \<open>The sending half: the refreshed state and the message.\<close>

definition announce_send ::
  "siphash \<Rightarrow> (cbor_value \<Rightarrow> bytes option) \<Rightarrow> (real \<Rightarrow> u64) \<Rightarrow> nat \<Rightarrow> (nat \<Rightarrow> bool) \<Rightarrow> bytes \<Rightarrow> inst \<Rightarrow> (bytes \<times> inst) option" where
  "announce_send sip ser to_bits now fails peer st =
     Option.bind (refresh_local_frontier_detailed sip now (in_db st) (in_local st)) (\<lambda>(r, lf).
     map_option (\<lambda>msg. (msg, st\<lparr>in_local := lf\<rparr>))
       (announce_encode ser to_bits (announce_of (stored_mode fails peer st) (fr_frontier r))))"

text \<open>\<open>answer\<close> is the status that comes back, \<open>None\<close> a transport error.\<close>

definition operator_announce_frontier ::
  "siphash \<Rightarrow> (cbor_value \<Rightarrow> bytes option) \<Rightarrow> (real \<Rightarrow> u64) \<Rightarrow> nat \<Rightarrow> (nat \<Rightarrow> bool) \<Rightarrow> bytes \<Rightarrow> (bytes \<Rightarrow> nat option) \<Rightarrow> inst
   \<Rightarrow> (AnnounceError + nat) \<times> inst" where
  "operator_announce_frontier sip ser to_bits now fails peer answer st =
     (case announce_send sip ser to_bits now fails peer st of
       None \<Rightarrow> (Inl AnnCompute, st)
     | Some (msg, st1) \<Rightarrow> (case answer msg of
         None \<Rightarrow> (Inl AnnTransport, st1)
       | Some status \<Rightarrow> if status \<noteq> 200 then (Inl (AnnStatus status), st1) else (Inr (lf_version (in_local st1)), st1)))"

definition inbound_of_snapshot :: "FrontierSnapshot \<Rightarrow> inbound" where
  "inbound_of_snapshot s = \<lparr>ib_version = fss_version s, ib_epoch = fss_epoch s, ib_horizon = fss_horizon s,
     ib_visible = fss_visible s, ib_expansion = fss_expansion s, ib_mode = Filtered, ib_ceilings = fss_ceilings s\<rparr>"

text \<open>\<open>answer\<close> is the status and the body; statement 5 reads the version on a 304.\<close>

definition bootstrap_frontier_pull ::
  "siphash \<Rightarrow> (bytes \<Rightarrow> cbor_value option) \<Rightarrow> (u64 \<Rightarrow> real) \<Rightarrow> (nat \<Rightarrow> bool) \<Rightarrow> replay_row list option \<Rightarrow> bytes \<Rightarrow> (nat \<times> bytes) option \<Rightarrow> inst
   \<Rightarrow> (AnnounceError + nat) \<times> replay_row list \<times> inst" where
  "bootstrap_frontier_pull sip de of_bits fails rows peer answer st = (case answer of
     None \<Rightarrow> (Inl AnnTransport, [], st)
   | Some (status, msg) \<Rightarrow>
       if status = 304 then
         (if fails 5 then (Inl AnnCompute, [], st)
          else (Inr (case in_rows st peer of Some r \<Rightarrow> from_i64 (pf_version r) | None \<Rightarrow> 0), [], st))
       else if status \<noteq> 200 then (Inl (AnnStatus status), [], st)
       else case snapshot_decode de of_bits msg of
         None \<Rightarrow> (Inl (AnnStatus 200), [], st)
       | Some s \<Rightarrow> (case apply_inbound_frontier sip fails rows peer (stored_mode fails peer st) (inbound_of_snapshot s) st of
           (Inr _, calls, st1) \<Rightarrow> (Inr (fss_version s), calls, st1)
         | (Inl (BadFilter _), calls, st1) \<Rightarrow> (Inl (AnnStatus 200), calls, st1)
         | (Inl InboundDb, calls, st1) \<Rightarrow> (Inl AnnCompute, calls, st1)))"

section \<open>One pass of the fan-out\<close>

definition build_frontier_readers ::
  "(string \<Rightarrow> uuid option) \<Rightarrow> (uuid \<Rightarrow> (uuid \<rightharpoonup> real)) \<Rightarrow> frontier_db \<Rightarrow> FrontierReader list" where
  "build_frontier_readers parse_uuid forward_scores db = List.map_filter (\<lambda>u.
     map_option (\<lambda>uuid. \<lparr>rd_key = us_public_key u, rd_scores = forward_scores uuid\<rparr>) (parse_uuid (us_id u)))
     (filter (\<lambda>u. us_home u = None \<and> us_status u = ''active'' \<and> length (us_public_key u) = 32) (db_users db))"

definition filter_remote_authors :: "frontier_db \<Rightarrow> bytes set \<Rightarrow> bytes set" where
  "filter_remote_authors db keys = {k \<in> keys. \<exists>u \<in> set (db_users db). us_public_key u = k \<and> us_home u \<noteq> None}"

record fanout =
  fo_changed :: bool
  fo_announce :: "bytes list"
  fo_backfill :: "bytes set"

text \<open>\<open>active\<close> is the answer of the active-peer query. Statement 0 stands for the two of the reverse rebuild, which the
  pass survives, 1 for those of the refresh, 2 for the peer query, 3 for the author query.\<close>

definition frontier_fanout_once ::
  "siphash \<Rightarrow> (string \<Rightarrow> uuid option) \<Rightarrow> (uuid \<Rightarrow> (uuid \<rightharpoonup> real)) \<Rightarrow> nat \<Rightarrow> (nat \<Rightarrow> bool) \<Rightarrow> bytes list \<Rightarrow> bool \<Rightarrow> inst
   \<Rightarrow> (fanout \<times> inst) option" where
  "frontier_fanout_once sip parse_uuid forward_scores now fails active suppress st =
     (let st1 = (if fails 0 then st else st\<lparr>in_db := snd (rebuild_reverse_frontier parse_uuid
              (build_frontier_readers parse_uuid forward_scores (in_db st)) DEFAULT_FRONTIER_CAP FRONTIER_MAX_DEPTH
              FRONTIER_GC_K (in_db st))\<rparr>);
          quiet = \<lparr>fo_changed = False, fo_announce = [], fo_backfill = {}\<rparr>
      in if fails 1 then Some (quiet, st1)
         else map_option (\<lambda>(r, lf).
           if \<not> fr_changed r then (quiet, st1\<lparr>in_local := lf\<rparr>)
           else (\<lparr>fo_changed = True, fo_announce = (if fails 2 then [] else active),
                  fo_backfill = (if suppress \<or> fails 3 then {} else filter_remote_authors (in_db st1) (fr_added r))\<rparr>,
                 st1\<lparr>in_local := lf\<rparr>))
         (refresh_local_frontier_detailed sip now (in_db st1) (in_local st1)))"

section \<open>Versions only grow\<close>

text \<open>A change of the stored rows that is allowed: no row disappears, and a row that changes gets a greater version.\<close>

definition advances :: "(bytes \<rightharpoonup> frontier_row) \<Rightarrow> (bytes \<rightharpoonup> frontier_row) \<Rightarrow> bool" where
  "advances R R' \<longleftrightarrow> (\<forall>s r. R s = Some r \<longrightarrow> (\<exists>r'. R' s = Some r' \<and> (r' = r \<or> pf_version r < pf_version r')))"

lemma advances_refl [simp]: "advances R R"
  by (simp add: advances_def)

lemma advances_trans: "advances R R' \<Longrightarrow> advances R' R'' \<Longrightarrow> advances R R''"
proof -
  assume a: "advances R R'" and b: "advances R' R''"
  have "\<exists>r''. R'' s = Some r'' \<and> (r'' = r \<or> pf_version r < pf_version r'')" if r: "R s = Some r" for s r
  proof -
    obtain r' where r': "R' s = Some r'" "r' = r \<or> pf_version r < pf_version r'"
      using a r by (auto simp: advances_def)
    obtain r'' where "R'' s = Some r''" "r'' = r' \<or> pf_version r' < pf_version r''"
      using b r'(1) by (auto simp: advances_def)
    then show ?thesis using r'(2) by auto
  qed
  then show ?thesis by (simp add: advances_def)
qed

lemma upsert_advances: "upsert_frontier s row st = Some (won, st') \<Longrightarrow> advances (in_rows st) (in_rows st')"
  by (auto simp: upsert_frontier_def advances_def split: if_splits option.splits)

lemma ceilings_rows [simp]:
  "in_rows (replace_peer_age_ceilings s ac st) = in_rows st" "in_rows (merge_peer_age_ceilings s ac st) = in_rows st"
  by (simp_all add: replace_peer_age_ceilings_def merge_peer_age_ceilings_def)

lemma cast_back: "n < 2 ^ 64 \<Longrightarrow> from_i64 (to_i64 n) = n"
  by (auto simp: from_i64_def to_i64_def)

lemma cast_small: "n < 2 ^ 63 \<Longrightarrow> to_i64 n = int n" "0 \<le> i \<Longrightarrow> i < 2 ^ 63 \<Longrightarrow> int (from_i64 i) = i"
  by (simp_all add: to_i64_def from_i64_def)

lemma cast_nonneg: "0 \<le> to_i64 n \<Longrightarrow> n < 2 ^ 64 \<Longrightarrow> n < 2 ^ 63"
  by (simp add: to_i64_def split: if_splits)

text \<open>The stored versions satisfy the column's check.\<close>

definition rows_ok :: "(bytes \<rightharpoonup> frontier_row) \<Rightarrow> bool" where
  "rows_ok R \<longleftrightarrow> (\<forall>s r. R s = Some r \<longrightarrow> 0 \<le> pf_version r \<and> pf_version r < 2 ^ 63)"

lemma update_advances:
  assumes "rows_ok (in_rows st)" "in_rows st s = Some row" "delta_row sip f fails lk d row = Inr new"
    and "fdl_prev d < fdl_new d" "fdl_new d < 2 ^ 64" "update_frontier s new st = Some st'"
  shows "advances (in_rows st) (in_rows st')" "rows_ok (in_rows st')"
proof -
  have v: "pf_version new = to_i64 (fdl_new d)" "fdl_prev d = from_i64 (pf_version row)"
    using assms(3) by (auto simp: delta_row_def Let_def split: if_splits option.splits prod.splits sum.splits)
  have n: "0 \<le> to_i64 (fdl_new d)" and st': "\<exists>r'. in_rows st' = (in_rows st)(s \<mapsto> r') \<and> pf_version r' = pf_version new"
    using assms(2,6) v(1) by (auto simp: update_frontier_def Let_def split: if_splits)
  have r: "0 \<le> pf_version row" "pf_version row < 2 ^ 63" using assms(1,2) by (auto simp: rows_ok_def)
  have m: "fdl_new d < 2 ^ 63" using n assms(5) by (rule cast_nonneg)
  have "pf_version row = int (from_i64 (pf_version row))" using cast_small(2) [OF r] by simp
  also have "\<dots> < int (fdl_new d)" using v(2) assms(4) by simp
  also have "\<dots> = to_i64 (fdl_new d)" using cast_small(1) [OF m] by simp
  finally have lt: "pf_version row < pf_version new" using v(1) by simp
  then show "advances (in_rows st) (in_rows st')" using st' assms(2) by (auto simp: advances_def)
  have "pf_version new < 2 ^ 63" using v(1) cast_small(1) [OF m] m by simp
  then have w: "0 \<le> pf_version new \<and> pf_version new < 2 ^ 63" using n v(1) by simp
  from st' obtain r' where "in_rows st' = (in_rows st)(s \<mapsto> r')" "pf_version r' = pf_version new" by blast
  then show "rows_ok (in_rows st')" using w assms(1) by (auto simp: rows_ok_def split: if_splits)
qed

lemma upsert_ok:
  assumes "rows_ok (in_rows st)" "upsert_frontier s row st = Some (won, st')" "pf_version row < 2 ^ 63"
  shows "rows_ok (in_rows st')"
  using assms by (auto simp: upsert_frontier_def rows_ok_def row_checks_def split: if_splits option.splits)

section \<open>Requests in flight\<close>

text \<open>A handler is a sequence of statements, and other requests run between them. \<open>AnnChecked\<close> has passed the version
  check, \<open>AnnWon\<close> has written the row and not yet the ceilings, \<open>DeltaMerged\<close> has computed its update from the row
  it read, \<open>DeltaWritten\<close> has written it.\<close>

datatype in_flight =
    AnnChecked bytes Mode inbound
  | AnnWon bytes age_ceilings
  | DeltaMerged bytes frontier_row age_ceilings
  | DeltaWritten bytes age_ceilings

type_synonym fsys = "inst \<times> (nat \<rightharpoonup> in_flight)"

inductive ann_step :: "siphash \<Rightarrow> fsys \<Rightarrow> fsys \<Rightarrow> bool" for sip where
  ann_begin: "fl r = None \<Longrightarrow> ib_version ib < 2 ^ 64 \<Longrightarrow> announce_check (ib_version ib) (in_rows st s) = Inr prior \<Longrightarrow>
    ann_step sip (st, fl) (st, fl(r \<mapsto> AnnChecked s prior ib))"
| ann_write: "fl r = Some (AnnChecked s prior ib) \<Longrightarrow>
    inbound_row sip (fetch_local_user_pubkeys (in_db st)) prior ib = Inr (e, row) \<Longrightarrow>
    upsert_frontier s row st = Some (won, st') \<Longrightarrow>
    ann_step sip (st, fl) (st', fl(r := (if won then Some (AnnWon s (ib_ceilings ib)) else None)))"
| ann_ceilings: "fl r = Some (AnnWon s ac) \<Longrightarrow> ann_step sip (st, fl) (replace_peer_age_ceilings s ac st, fl(r := None))"

inductive delta_step :: "siphash \<Rightarrow> (real \<Rightarrow> real) \<Rightarrow> fsys \<Rightarrow> fsys \<Rightarrow> bool" for sip as_f32 where
  delta_begin: "fl r = None \<Longrightarrow> in_rows st s = Some row \<Longrightarrow> fdl_prev d < fdl_new d \<Longrightarrow> fdl_new d < 2 ^ 64 \<Longrightarrow>
    delta_row sip as_f32 (\<lambda>_. False) (fetch_local_user_pubkeys (in_db st)) d row = Inr new \<Longrightarrow>
    delta_step sip as_f32 (st, fl) (st, fl(r \<mapsto> DeltaMerged s new (fdl_ceilings d)))"
| delta_write: "fl r = Some (DeltaMerged s new ac) \<Longrightarrow> update_frontier s new st = Some st' \<Longrightarrow>
    delta_step sip as_f32 (st, fl) (st', fl(r \<mapsto> DeltaWritten s ac))"
| delta_ceilings: "fl r = Some (DeltaWritten s ac) \<Longrightarrow>
    delta_step sip as_f32 (st, fl) (merge_peer_age_ceilings s ac st, fl(r := None))"

text \<open>Announces in any interleaving, and deltas that run undisturbed.\<close>

inductive calm_step :: "siphash \<Rightarrow> (real \<Rightarrow> real) \<Rightarrow> fsys \<Rightarrow> fsys \<Rightarrow> bool" for sip as_f32 where
  calm_announce: "ann_step sip x y \<Longrightarrow> calm_step sip as_f32 x y"
| calm_delta: "in_rows st s = Some row \<Longrightarrow> fdl_prev d < fdl_new d \<Longrightarrow> fdl_new d < 2 ^ 64 \<Longrightarrow>
    delta_row sip as_f32 (\<lambda>_. False) (fetch_local_user_pubkeys (in_db st)) d row = Inr new \<Longrightarrow>
    update_frontier s new st = Some st' \<Longrightarrow>
    calm_step sip as_f32 (st, fl) (merge_peer_age_ceilings s (fdl_ceilings d) st', fl)"

text \<open>The rows waiting to be written have versions in range.\<close>

definition flights_ok :: "(nat \<rightharpoonup> in_flight) \<Rightarrow> bool" where
  "flights_ok fl \<longleftrightarrow> (\<forall>r s m ib. fl r = Some (AnnChecked s m ib) \<longrightarrow> ib_version ib < 2 ^ 64)"

lemma inbound_version: "inbound_row sip lk prior ib = Inr (e, row) \<Longrightarrow> pf_version row = to_i64 (ib_version ib)"
  by (auto simp: inbound_row_def split: sum.splits)

lemma ann_step_advances:
  assumes "ann_step sip (st, fl) (st', fl')" "rows_ok (in_rows st)" "flights_ok fl"
  shows "advances (in_rows st) (in_rows st') \<and> rows_ok (in_rows st') \<and> flights_ok fl'"
  using assms
proof cases
  case (ann_write r s prior ib e row won)
  have "ib_version ib < 2 ^ 64" using assms(3) ann_write(2) by (auto simp: flights_ok_def)
  moreover have "0 \<le> pf_version row" using ann_write(4) by (auto simp: upsert_frontier_def row_checks_def split: if_splits)
  ultimately have "pf_version row < 2 ^ 63"
    using inbound_version [OF ann_write(3)] cast_nonneg [of "ib_version ib"] cast_small(1) [of "ib_version ib"] by simp
  with upsert_advances [OF ann_write(4)] upsert_ok [OF assms(2) ann_write(4)] assms(3) ann_write(1) show ?thesis
    by (auto simp: flights_ok_def)
qed (auto simp: flights_ok_def)

lemma calm_step_advances:
  assumes "calm_step sip as_f32 (st, fl) (st', fl')" "rows_ok (in_rows st)" "flights_ok fl"
  shows "advances (in_rows st) (in_rows st') \<and> rows_ok (in_rows st') \<and> flights_ok fl'"
  using assms(1)
proof cases
  case calm_announce
  then show ?thesis using ann_step_advances assms(2,3) by blast
next
  case (calm_delta s row d new st1)
  from update_advances [OF assms(2) calm_delta(3,6,4,5,7)] show ?thesis using calm_delta(1,2) assms(3) by simp
qed

end
