(* ===== verification/Frontier_Races.thy ===== *)
theory Frontier_Races
  imports Frontier_Sync
begin

text \<open>
  The frontier exchange of \<open>server/src/federation/frontier.rs\<close> as a system of requests in flight: the stored version
  grows under concurrent announces; a delta in flight can set it back, and ceilings can be written in the wrong order.
  Then two sequential behaviours: a restarted instance announces in vain, and a change of the ceilings alone never
  reaches the wire.
\<close>

section \<open>Interleaved requests\<close>

text \<open>Every interleaving of announces and deltas.\<close>

inductive frontier_step :: "siphash \<Rightarrow> (real \<Rightarrow> real) \<Rightarrow> fsys \<Rightarrow> fsys \<Rightarrow> bool" for sip as_f32 where
  step_announce: "ann_step sip x y \<Longrightarrow> frontier_step sip as_f32 x y"
| step_delta: "delta_step sip as_f32 x y \<Longrightarrow> frontier_step sip as_f32 x y"

lemmas frontier_steps =
  ann_begin [THEN step_announce] ann_write [THEN step_announce] ann_ceilings [THEN step_announce]
  delta_begin [THEN step_delta] delta_write [THEN step_delta] delta_ceilings [THEN step_delta]

lemma step_then: "frontier_step sip f x y \<Longrightarrow> (frontier_step sip f)\<^sup>*\<^sup>* y z \<Longrightarrow> (frontier_step sip f)\<^sup>*\<^sup>* x z"
  by (rule converse_rtranclp_into_rtranclp)

lemma upsert_wins:
  assumes "row_checks row" "in_rows st s = Some old" "pf_version old < pf_version row"
  shows "upsert_frontier s row st = Some (True, st\<lparr>in_rows := (in_rows st)(s \<mapsto> row)\<rparr>)"
  using assms by (simp add: upsert_frontier_def)

lemma upsert_first:
  assumes "row_checks row" "in_rows st s = None" "s \<in> in_known st"
  shows "upsert_frontier s row st = Some (True, st\<lparr>in_rows := (in_rows st)(s \<mapsto> row)\<rparr>)"
  using assms by (simp add: upsert_frontier_def)

lemma announce_newer:
  assumes "0 \<le> pf_version row" "pf_version row < int v" "pf_version row < 2 ^ 63"
  shows "announce_check v (Some row) = Inr (from_db_str (pf_outbound row))"
  using assms cast_small(2) [of "pf_version row"] by (simp add: announce_check_def Let_def)

lemma merge_length: "merge_mask m bs = Some bs' \<Longrightarrow> length bs' = length bs"
  by (auto simp: merge_mask_def split: option.splits if_splits)

lemma delta_row_facts:
  assumes "delta_row sip as_f32 fails lk d row = Inr new"
  shows "pf_version new = to_i64 (fdl_new d)" "fdl_prev d = from_i64 (pf_version row)"
    "length (fw_bytes (pf_visible new)) = length (fw_bytes (pf_visible row))"
    "length (fw_bytes (pf_expansion new)) = length (fw_bytes (pf_expansion row))"
    "merge_mask (fdl_visible_mask d) (fw_bytes (pf_visible row)) = Some (fw_bytes (pf_visible new))"
  using assms
  by (auto simp: delta_row_def Let_def merge_length split: if_splits option.splits prod.splits sum.splits)

text \<open>The stored filter bytes fit the stored size.\<close>

definition sized :: "frontier_row \<Rightarrow> bool" where
  "sized r \<longleftrightarrow> int (length (fw_bytes (pf_visible r))) = fw_m (pf_visible r) div 8 \<and>
     int (length (fw_bytes (pf_expansion r))) = fw_m (pf_expansion r) div 8"

text \<open>C21. The frontier stored for a peer never goes back: however the statements of concurrent announces interleave, and
  with any deltas that are not interrupted in between, a stored row stays or is replaced by one of a strictly greater
  version, and every stored version stays in the range of its column.\<close>

theorem stored_frontier_advances:
  assumes "(calm_step sip as_f32)\<^sup>*\<^sup>* (st, fl) (st', fl')" "rows_ok (in_rows st)" "flights_ok fl"
  shows "advances (in_rows st) (in_rows st') \<and> rows_ok (in_rows st')"
proof -
  have "advances (in_rows st) (in_rows (fst y)) \<and> rows_ok (in_rows (fst y)) \<and> flights_ok (snd y)"
    if "(calm_step sip as_f32)\<^sup>*\<^sup>* (st, fl) y" for y
    using that
  proof (induction rule: rtranclp_induct)
    case base
    then show ?case using assms(2,3) by simp
  next
    case (step y z)
    then show ?case using calm_step_advances [of sip as_f32 "fst y" "snd y" "fst z" "snd z"] advances_trans by auto
  qed
  from this [OF assms(1)] show ?thesis by simp
qed

text \<open>A delta can undo a newer announce. Its \<open>UPDATE\<close> has no condition on the version: if an announce with a greater
  version and filters of the same size is stored after the delta has read the row, the write of the delta sets the
  version back and replaces the announced filter by the older one with the mask merged in.\<close>

theorem delta_sets_version_back:
  assumes row: "in_rows st s = Some row" "rows_ok (in_rows st)" "sized row"
    and d: "delta_row sip as_f32 (\<lambda>_. False) (fetch_local_user_pubkeys (in_db st)) d row = Inr new" "fdl_prev d < fdl_new d"
    and ib: "fdl_new d < ib_version ib" "ib_version ib < 2 ^ 63" "row_checks row'" "fw_m (pf_visible row') = fw_m (pf_visible row)"
      "fw_m (pf_expansion row') = fw_m (pf_expansion row)"
      "inbound_row sip (fetch_local_user_pubkeys (in_db st)) (from_db_str (pf_outbound row)) ib = Inr (e, row')"
  shows "\<exists>st1 fl1 st2 fl2 row2. (frontier_step sip as_f32)\<^sup>*\<^sup>* (st, Map.empty) (st1, fl1) \<and> in_rows st1 s = Some row' \<and>
    frontier_step sip as_f32 (st1, fl1) (st2, fl2) \<and> in_rows st2 s = Some row2 \<and> pf_version row2 < pf_version row' \<and>
    merge_mask (fdl_visible_mask d) (fw_bytes (pf_visible row)) = Some (fw_bytes (pf_visible row2))"
proof -
  let ?fl = "Map.empty(0 \<mapsto> DeltaMerged s new (fdl_ceilings d))"
  let ?fl1 = "?fl(1 := Some (AnnWon s (ib_ceilings ib)))"
  let ?st1 = "st\<lparr>in_rows := (in_rows st)(s \<mapsto> row')\<rparr>"
  note f = delta_row_facts [OF d(1)]
  have r: "0 \<le> pf_version row" "pf_version row < 2 ^ 63" using row(1,2) by (auto simp: rows_ok_def)
  have v': "pf_version row' = int (ib_version ib)" using inbound_version [OF ib(6)] cast_small(1) [OF ib(2)] by simp
  have vn: "pf_version new = int (fdl_new d)" using f(1) ib(1,2) cast_small(1) [of "fdl_new d"] by simp
  have lt: "pf_version row < int (ib_version ib)" using cast_small(2) [OF r] f(2) d(2) ib(1) by linarith
  have 1: "frontier_step sip as_f32 (st, Map.empty) (st, ?fl)"
    using ib(1,2) row(1) d by (intro frontier_steps(4)) auto
  have 2: "frontier_step sip as_f32 (st, ?fl) (st, ?fl(1 \<mapsto> AnnChecked s (from_db_str (pf_outbound row)) ib))"
    using ib(2) row(1) announce_newer [OF r(1) lt r(2)] by (intro frontier_steps(1)) auto
  have up: "upsert_frontier s row' st = Some (True, ?st1)" using ib(3) row(1) lt v' by (intro upsert_wins) auto
  have 3: "frontier_step sip as_f32 (st, ?fl(1 \<mapsto> AnnChecked s (from_db_str (pf_outbound row)) ib)) (?st1, ?fl1)"
    using frontier_steps(2) [OF _ ib(6) up, of "?fl(1 \<mapsto> AnnChecked s (from_db_str (pf_outbound row)) ib)" 1] by simp
  have "\<exists>st2 row2. update_frontier s new ?st1 = Some st2 \<and> in_rows st2 s = Some row2 \<and> pf_version row2 = pf_version new \<and>
      fw_bytes (pf_visible row2) = fw_bytes (pf_visible new)"
    using f(3,4) row(3) ib(4,5) vn by (simp add: update_frontier_def Let_def sized_def)
  then obtain st2 row2 where u: "update_frontier s new ?st1 = Some st2" "in_rows st2 s = Some row2"
    "pf_version row2 = pf_version new" "fw_bytes (pf_visible row2) = fw_bytes (pf_visible new)" by blast
  have 4: "frontier_step sip as_f32 (?st1, ?fl1) (st2, ?fl1(0 \<mapsto> DeltaWritten s (fdl_ceilings d)))"
    using u(1) by (intro frontier_steps(5)) auto
  have 5: "(frontier_step sip as_f32)\<^sup>*\<^sup>* (st, Map.empty) (?st1, ?fl1)" 
    by (intro step_then [OF 1] step_then [OF 2] step_then [OF 3]) simp
  have "pf_version row2 < pf_version row'" using u(3) vn v' ib(1) by simp
  moreover have "merge_mask (fdl_visible_mask d) (fw_bytes (pf_visible row)) = Some (fw_bytes (pf_visible row2))"
    using f(5) u(4) by simp
  moreover have "in_rows ?st1 s = Some row'" by simp
  ultimately show ?thesis using 4 5 u(2) by blast
qed

definition demo_spec :: "u8 \<Rightarrow> FilterSpec" where
  "demo_spec b = \<lparr>fsp_family = FAMILY, fsp_k = 7, fsp_m = 64, fsp_n_est = 3, fsp_fpr = 1/100, fsp_bytes = replicate 8 b\<rparr>"

definition demo_inbound :: "nat \<Rightarrow> u8 \<Rightarrow> nat \<Rightarrow> inbound" where
  "demo_inbound v b c = \<lparr>ib_version = v, ib_epoch = 9, ib_horizon = 0, ib_visible = demo_spec b, ib_expansion = demo_spec b,
     ib_mode = Filtered, ib_ceilings = [(demo_key 7, c)]\<rparr>"

definition demo_cols :: "u8 \<Rightarrow> filter_row" where
  "demo_cols b = \<lparr>fw_family = FAMILY, fw_k = 7, fw_m = 64, fw_n = 3, fw_fpr = 1/100, fw_bytes = replicate 8 b\<rparr>"

definition demo_stored :: "nat \<Rightarrow> u8 \<Rightarrow> frontier_row" where
  "demo_stored v b = \<lparr>pf_version = int v, pf_epoch = 9, pf_horizon = 0, pf_visible = demo_cols b, pf_expansion = demo_cols b,
     pf_cursor = encode_cursor v 9, pf_inbound = ''filtered'', pf_outbound = ''filtered''\<rparr>"

definition demo_inst :: "(bytes \<rightharpoonup> frontier_row) \<Rightarrow> inst" where
  "demo_inst rows = \<lparr>in_db = demo_frontier\<lparr>db_users := []\<rparr>, in_rows = rows, in_ceil = (\<lambda>_. Map.empty), in_known = {demo_key 9},
     in_local = \<lparr>lf_version = 0, lf_epoch = 0, lf_visible = small_filter, lf_expansion = small_filter, lf_cursor = [],
       lf_keys = {}, lf_ceilings = []\<rparr>\<rparr>"

lemma demo_no_users [simp]: "fetch_local_user_pubkeys (in_db (demo_inst R)) = []"
  by (simp add: fetch_local_user_pubkeys_def demo_inst_def)

lemma demo_inbound_row:
  assumes "v < 2 ^ 63"
  shows "inbound_row sip [] Filtered (demo_inbound v b c) = Inr
    (\<lparr>bf_k = 7, bf_m = 64, bf_n_est = 3, bf_fpr_target = 1/100, bf_bits = replicate 8 b\<rparr>, demo_stored v b)"
  using assms by (simp add: inbound_row_def demo_inbound_def demo_spec_def into_bloom_def from_parts_def check_params_def
      andthen_def MIN_K_def MAX_K_def MIN_M_BITS_def MAX_M_BITS_def filter_row_of_def to_i64_def demo_stored_def demo_cols_def
      classify_mode_def coverage_def HIGH_THRESHOLD_def LOW_THRESHOLD_def as_db_str_def)

lemma demo_stored_ok: "v < 2 ^ 63 \<Longrightarrow> rows_ok [demo_key 9 \<mapsto> demo_stored v b] \<and> sized (demo_stored v b) \<and> row_checks (demo_stored v b)"
  by (simp add: rows_ok_def sized_def row_checks_def demo_stored_def demo_cols_def)

definition demo_mask :: FrontierDelta where
  "demo_mask = \<lparr>fdl_prev = 4, fdl_new = 5, fdl_visible_mask = Some (replicate 8 2), fdl_expansion_mask = None,
     fdl_mode = Filtered, fdl_ceilings = []\<rparr>"

lemma demo_mask_row:
  "\<exists>new. delta_row sip (\<lambda>x. x) (\<lambda>_. False) [] demo_mask (demo_stored 4 1) = Inr new"
  by (simp add: delta_row_def demo_mask_def demo_stored_def demo_cols_def merge_mask_def from_i64_def try_uint_def from_parts_def
      check_params_def andthen_def MIN_K_def MAX_K_def MIN_M_BITS_def MAX_M_BITS_def)

theorem stored_frontier_advances_witness:
  "advances Map.empty [demo_key 9 \<mapsto> demo_stored 4 1] \<and> rows_ok [demo_key 9 \<mapsto> demo_stored 4 1]"
proof -
  let ?st = "demo_inst Map.empty" and ?f = "Map.empty(0 := Some (AnnChecked (demo_key 9) Filtered (demo_inbound 4 1 33)))"
  have u: "upsert_frontier (demo_key 9) (demo_stored 4 1) ?st = Some (True, demo_inst [demo_key 9 \<mapsto> demo_stored 4 1])"
    using demo_stored_ok [of 4 1] by (simp add: upsert_frontier_def demo_inst_def)
  have "calm_step byte_sum_hash (\<lambda>x. x) (?st, Map.empty) (?st, ?f)"
    by (intro calm_announce ann_begin) (simp_all add: demo_inbound_def demo_inst_def announce_check_def)
  moreover have "calm_step byte_sum_hash (\<lambda>x. x) (?st, ?f)
      (demo_inst [demo_key 9 \<mapsto> demo_stored 4 1], ?f(0 := Some (AnnWon (demo_key 9) [(demo_key 7, 33)])))"
    using calm_announce [OF ann_write [OF _ _ u, of ?f 0 Filtered "demo_inbound 4 1 33"]] demo_inbound_row [of 4 byte_sum_hash 1 33]
    by (simp add: demo_inbound_def)
  ultimately have "(calm_step byte_sum_hash (\<lambda>x. x))\<^sup>*\<^sup>* (?st, Map.empty)
      (demo_inst [demo_key 9 \<mapsto> demo_stored 4 1], ?f(0 := Some (AnnWon (demo_key 9) [(demo_key 7, 33)])))"
    by (meson rtranclp.rtrancl_refl rtranclp.rtrancl_into_rtrancl)
  from stored_frontier_advances [OF this] show ?thesis by (simp add: demo_inst_def rows_ok_def flights_ok_def)
qed

theorem delta_sets_version_back_witness:
  "\<exists>st1 fl1 st2 fl2 row2. (frontier_step byte_sum_hash (\<lambda>x. x))\<^sup>*\<^sup>* (demo_inst [demo_key 9 \<mapsto> demo_stored 4 1], Map.empty) (st1, fl1) \<and>
    in_rows st1 (demo_key 9) = Some (demo_stored 6 8) \<and> frontier_step byte_sum_hash (\<lambda>x. x) (st1, fl1) (st2, fl2) \<and>
    in_rows st2 (demo_key 9) = Some row2 \<and> pf_version row2 < 6 \<and> fw_bytes (pf_visible row2) = replicate 8 3"
proof -
  let ?st = "demo_inst [demo_key 9 \<mapsto> demo_stored 4 1]"
  obtain new where new: "delta_row byte_sum_hash (\<lambda>x. x) (\<lambda>_. False) (fetch_local_user_pubkeys (in_db ?st)) demo_mask (demo_stored 4 1) = Inr new"
    using demo_mask_row by auto
  have a: "in_rows ?st (demo_key 9) = Some (demo_stored 4 1)" "rows_ok (in_rows ?st)" "sized (demo_stored 4 1)"
    using demo_stored_ok [of 4 1] by (simp_all add: demo_inst_def)
  have i: "inbound_row byte_sum_hash (fetch_local_user_pubkeys (in_db ?st)) (from_db_str (pf_outbound (demo_stored 4 1))) (demo_inbound 6 8 0) =
      Inr (\<lparr>bf_k = 7, bf_m = 64, bf_n_est = 3, bf_fpr_target = 1/100, bf_bits = replicate 8 8\<rparr>, demo_stored 6 8)"
    using demo_inbound_row [of 6 byte_sum_hash 8 0] by (simp add: demo_stored_def from_db_str_def)
  have b: "fdl_prev demo_mask < fdl_new demo_mask" "fdl_new demo_mask < ib_version (demo_inbound 6 8 0)"
    "ib_version (demo_inbound 6 8 0) < 2 ^ 63" "row_checks (demo_stored 6 8)"
    "fw_m (pf_visible (demo_stored 6 8)) = fw_m (pf_visible (demo_stored 4 1))"
    "fw_m (pf_expansion (demo_stored 6 8)) = fw_m (pf_expansion (demo_stored 4 1))"
    using demo_stored_ok [of 6 8] by (simp_all add: demo_mask_def demo_inbound_def demo_stored_def demo_cols_def)
  have m: "merge_mask (fdl_visible_mask demo_mask) (fw_bytes (pf_visible (demo_stored 4 1))) = Some (replicate 8 3)"
    and v: "pf_version (demo_stored 6 8) = 6"
    by (simp_all add: merge_mask_def demo_mask_def demo_stored_def demo_cols_def numeral_eq_Suc)
  from delta_sets_version_back [OF a new b i] show ?thesis unfolding m v option.inject by (metis (no_types))
qed

text \<open>The ceilings of an older announce can survive a newer one. Two announces of a peer without a stored frontier pass
  the version check, both win the guarded write in the order of their versions, and then replace the ceilings in the other
  order: the stored row is that of the newer announce, the stored ceilings are those of the older one.\<close>

theorem older_ceilings_survive:
  assumes st: "in_rows st s = None" "s \<in> in_known st"
    and ib: "ib_version ib1 < ib_version ib2" "ib_version ib2 < 2 ^ 63" "row_checks row1" "row_checks row2"
      "inbound_row sip (fetch_local_user_pubkeys (in_db st)) Filtered ib1 = Inr (e1, row1)"
      "inbound_row sip (fetch_local_user_pubkeys (in_db st)) Filtered ib2 = Inr (e2, row2)"
  shows "\<exists>st'. (frontier_step sip as_f32)\<^sup>*\<^sup>* (st, Map.empty) (st', Map.empty) \<and> in_rows st' s = Some row2 \<and>
    in_ceil st' s = map_of (map (\<lambda>(rt, cutoff). (rt, to_i64 cutoff)) (ib_ceilings ib1))"
proof -
  let ?c1 = "AnnChecked s Filtered ib1" and ?c2 = "AnnChecked s Filtered ib2"
  let ?w1 = "AnnWon s (ib_ceilings ib1)" and ?w2 = "AnnWon s (ib_ceilings ib2)"
  let ?f1 = "Map.empty(1 \<mapsto> ?c1)" and ?f2 = "Map.empty(1 \<mapsto> ?c1, 2 \<mapsto> ?c2)" and ?f3 = "Map.empty(1 \<mapsto> ?w1, 2 \<mapsto> ?c2)"
  let ?f4 = "Map.empty(1 \<mapsto> ?w1, 2 \<mapsto> ?w2)"
  let ?st1 = "st\<lparr>in_rows := (in_rows st)(s \<mapsto> row1)\<rparr>" and ?st2 = "st\<lparr>in_rows := (in_rows st)(s \<mapsto> row2)\<rparr>"
  let ?st3 = "replace_peer_age_ceilings s (ib_ceilings ib2) ?st2"
  let ?st4 = "replace_peer_age_ceilings s (ib_ceilings ib1) ?st3"
  have none: "announce_check v None = Inr Filtered" for v by (simp add: announce_check_def)
  have v: "pf_version row1 < pf_version row2"
    using inbound_version [OF ib(5)] inbound_version [OF ib(6)] ib(1,2) cast_small(1) [of "ib_version ib1"]
      cast_small(1) [of "ib_version ib2"] by simp
  have u1: "upsert_frontier s row1 st = Some (True, ?st1)" using ib(3) st by (rule upsert_first)
  have u2: "upsert_frontier s row2 ?st1 = Some (True, ?st2)" using upsert_wins [OF ib(4), of ?st1 s row1] v by simp
  have 1: "frontier_step sip as_f32 (st, Map.empty) (st, ?f1)"
    using ib(1,2) st none by (intro frontier_steps(1)) auto
  have 2: "frontier_step sip as_f32 (st, ?f1) (st, ?f2)"
    using frontier_steps(1) [of ?f1 2 ib2 st s Filtered] ib(2) st none by simp
  have 3: "frontier_step sip as_f32 (st, ?f2) (?st1, ?f3)"
    using frontier_steps(2) [OF _ ib(5) u1, of ?f2 1] by (simp add: fun_upd_twist)
  have 4: "frontier_step sip as_f32 (?st1, ?f3) (?st2, ?f4)"
    using frontier_steps(2) [of ?f3 2 s Filtered ib2 sip ?st1 e2 row2 True ?st2] ib(6) u2 by (simp add: fun_upd_twist)
  have 5: "frontier_step sip as_f32 (?st2, ?f4) (?st3, Map.empty(1 \<mapsto> ?w1))"
    using frontier_steps(3) [of ?f4 2 s "ib_ceilings ib2" sip as_f32 ?st2] by simp
  have 6: "frontier_step sip as_f32 (?st3, Map.empty(1 \<mapsto> ?w1)) (?st4, Map.empty)"
    using frontier_steps(3) [of "Map.empty(1 \<mapsto> ?w1)" 1 s "ib_ceilings ib1" sip as_f32 ?st3] by simp
  have "(frontier_step sip as_f32)\<^sup>*\<^sup>* (st, Map.empty) (?st4, Map.empty)"
    by (intro step_then [OF 1] step_then [OF 2] step_then [OF 3] step_then [OF 4] step_then [OF 5] step_then [OF 6]) simp
  moreover have "in_rows ?st4 s = Some row2" by simp
  moreover have "in_ceil ?st4 s = map_of (map (\<lambda>(rt, cutoff). (rt, to_i64 cutoff)) (ib_ceilings ib1))"
    by (simp add: replace_peer_age_ceilings_def)
  ultimately show ?thesis by blast
qed

theorem older_ceilings_survive_witness:
  "\<exists>st'. (frontier_step byte_sum_hash (\<lambda>x. x))\<^sup>*\<^sup>* (demo_inst Map.empty, Map.empty) (st', Map.empty) \<and>
    in_rows st' (demo_key 9) = Some (demo_stored 5 8) \<and> in_ceil st' (demo_key 9) (demo_key 7) = Some 33"
proof -
  let ?st = "demo_inst Map.empty"
  have a: "in_rows ?st (demo_key 9) = None" "demo_key 9 \<in> in_known ?st" by (simp_all add: demo_inst_def)
  have b: "ib_version (demo_inbound 4 1 33) < ib_version (demo_inbound 5 8 44)" "ib_version (demo_inbound 5 8 44) < 2 ^ 63"
    "row_checks (demo_stored 4 1)" "row_checks (demo_stored 5 8)"
    using demo_stored_ok [of 4 1] demo_stored_ok [of 5 8] by (simp_all add: demo_inbound_def)
  have c: "ib_ceilings (demo_inbound 4 1 33) = [(demo_key 7, 33)]" by (simp add: demo_inbound_def)
  from older_ceilings_survive [OF a b, unfolded demo_no_users, OF demo_inbound_row demo_inbound_row, of byte_sum_hash "\<lambda>x. x"]
  show ?thesis unfolding c by (auto simp: to_i64_def)
qed

section \<open>Restarts\<close>

text \<open>The snapshot behind the lock after a sequence of refreshes, each at its time and on the database of that time.\<close>

fun refresh_run :: "siphash \<Rightarrow> (nat \<times> frontier_db) list \<Rightarrow> LocalFrontier \<Rightarrow> LocalFrontier option" where
  "refresh_run sip [] lf = Some lf"
| "refresh_run sip ((now, db) # ps) lf = Option.bind (refresh_local_frontier_detailed sip now db lf) (\<lambda>(_, lf'). refresh_run sip ps lf')"

lemma refresh_version:
  "refresh_local_frontier_detailed sip now db lf = Some (r, lf') \<Longrightarrow> lf_version lf' \<le> lf_version lf + 1 \<and> fr_frontier r = lf'"
  by (auto simp: refresh_local_frontier_detailed_def Let_def sat_add64_def split: if_splits)

lemma run_version: "refresh_run sip ps lf = Some lf' \<Longrightarrow> lf_version lf' \<le> lf_version lf + length ps"
proof (induction ps arbitrary: lf)
  case (Cons p ps)
  obtain r lf1 where l: "refresh_local_frontier_detailed sip (fst p) (snd p) lf = Some (r, lf1)" "refresh_run sip ps lf1 = Some lf'"
    using Cons.prems by (cases p) (auto simp: bind_eq_Some_conv)
  then show ?case using refresh_version [OF l(1)] Cons.IH [OF l(2)] by simp
qed simp

lemma announce_old:
  assumes "v \<le> from_i64 (pf_version row)"
  shows "announce_check v (Some row) = Inl (if v = from_i64 (pf_version row) then announce_response v (pf_cursor row)
    else FrontierErr 400 ''version_not_monotonic'')"
  using assms by (simp add: announce_check_def Let_def)

text \<open>A restarted instance is not heard. Its snapshot starts again at version 0, which is not stored anywhere, and each
  refresh adds at most one: as long as it has refreshed no more often than the version a peer has stored for it, the peer
  takes none of its announces. It answers 400, or 200 without looking at the filters, and its state stays as it was.\<close>

theorem restarted_announce_ignored:
  assumes "cbor_codec ser de" "local_frontier_empty boot = Some lf0" "refresh_run sip passes lf0 = Some lf"
    and "in_rows st s = Some row" "length passes \<le> from_i64 (pf_version row)" "\<not> fails 0"
    and "announce_ok tb ob (announce_of md lf)" "announce_encode ser tb (announce_of md lf) = Some msg"
  shows "handle_frontier_announce sip' de ob fails rows s msg st =
    (if lf_version lf = from_i64 (pf_version row) then Applied (lf_version lf) (pf_cursor row)
     else FrontierErr 400 ''version_not_monotonic'', [], st)"
proof -
  have "lf_version lf0 = 0" using assms(2) by (auto simp: local_frontier_empty_def split: sum.splits)
  then have v: "lf_version lf \<le> from_i64 (pf_version row)" using run_version [OF assms(3)] assms(5) by simp
  have d: "announce_decode de ob msg = Some (announce_of md lf)"
    using announce.round_trip [OF assms(1,7)] assms(8) unfolding announce_encode_def announce_decode_def by auto
  have "fan_version (announce_of md lf) = lf_version lf" by (simp add: announce_of_def)
  then show ?thesis using d assms(4,6) announce_old [OF v] by (simp add: handle_frontier_announce_def announce_response_def)
qed

definition demo_bits :: "real \<Rightarrow> u64" where "demo_bits x = (if x = DEFAULT_FPR_TARGET then 0x3F847AE140000000 else 0)"
definition demo_unbits :: "u64 \<Rightarrow> real" where "demo_unbits w = (if w = 0x3F847AE140000000 then DEFAULT_FPR_TARGET else 0)"

lemma demo_boot: "\<exists>lf. local_frontier_empty boot = Some lf \<and> lf_version lf = 0 \<and> (boot < 2 ^ 64 \<longrightarrow>
   announce_ok demo_bits demo_unbits (announce_of md lf))"
  by (simp add: local_frontier_empty_def new_empty_def check_params_def andthen_def DEFAULT_K_def MIN_K_def MAX_K_def MIN_M_BITS_def
      MAX_M_BITS_def announce_ok_def announce_of_def filter_ok_def from_bloom_def ceilings_ok_def NO_TRIMMING_def FAMILY_def
      key_rust f32_value_def demo_bits_def demo_unbits_def)

theorem restarted_announce_ignored_witness:
  "\<exists>lf msg. local_frontier_empty 8 = Some lf \<and> announce_encode rfc_ser demo_bits (announce_of Filtered lf) = Some msg \<and>
    handle_frontier_announce byte_sum_hash rfc_de demo_unbits (\<lambda>_. False) None (demo_key 9) msg (demo_inst [demo_key 9 \<mapsto> demo_stored 4 1]) =
      (FrontierErr 400 ''version_not_monotonic'', [], demo_inst [demo_key 9 \<mapsto> demo_stored 4 1])"
proof -
  obtain lf where lf: "local_frontier_empty 8 = Some lf" "lf_version lf = 0" "announce_ok demo_bits demo_unbits (announce_of Filtered lf)"
    using demo_boot [of 8 Filtered] by auto
  obtain msg where m: "announce_encode rfc_ser demo_bits (announce_of Filtered lf) = Some msg"
    using announce.round_trip [OF rfc.cbor_codec_axioms lf(3)] unfolding announce_encode_def by auto
  have "in_rows (demo_inst [demo_key 9 \<mapsto> demo_stored 4 1]) (demo_key 9) = Some (demo_stored 4 1)"
    and v: "from_i64 (pf_version (demo_stored 4 1)) = 4" by (simp_all add: demo_inst_def demo_stored_def from_i64_def)
  from restarted_announce_ignored [OF rfc.cbor_codec_axioms lf(1) refresh_run.simps(1) this(1) _ _ lf(3) m, of "\<lambda>_. False" byte_sum_hash None]
  show ?thesis using v lf m by auto
qed

section \<open>Ceilings\<close>

lemma compute_ceilings:
  "compute_local_frontier sip now' (db\<lparr>db_ceilings := c\<rparr>) = map_option (\<lambda>lf. lf\<lparr>lf_epoch := now', lf_cursor := encode_cursor 0 now',
     lf_ceilings := load_local_age_ceilings (db\<lparr>db_ceilings := c\<rparr>)\<rparr>) (compute_local_frontier sip now db)"
  by (simp add: compute_local_frontier_def Let_def fetch_local_user_pubkeys_def load_frontier_stub_keys_def current_generation_def
      map_option_bind comp_def)

text \<open>A change of the age ceilings alone is never announced. After a refresh, whatever ceilings are stored next, the
  following refresh compares the filters only, finds them equal and keeps the version and the ceilings of the snapshot,
  so that every announce and every snapshot goes on carrying the old ceilings.\<close>

theorem ceiling_change_unannounced:
  assumes "refresh_local_frontier_detailed sip now db prev = Some (r, lf)"
  shows "refresh_local_frontier_detailed sip now' (db\<lparr>db_ceilings := c\<rparr>) lf = Some (\<lparr>fr_frontier = lf, fr_changed = False, fr_added = {}\<rparr>, lf)"
proof -
  obtain z where z: "compute_local_frontier sip now db = Some z" using assms by (auto simp: refresh_local_frontier_detailed_def)
  have same: "\<not> filter_bytes_differ (lf_visible lf) (lf_visible z)" "\<not> filter_bytes_differ (lf_expansion lf) (lf_expansion z)"
    using assms z by (auto simp: refresh_local_frontier_detailed_def filter_bytes_differ_def Let_def split: if_splits)
  show ?thesis using same by (simp add: refresh_local_frontier_detailed_def compute_ceilings [where now = now and db = db] z)
qed

theorem ceiling_change_unannounced_witness:
  "\<exists>lf. refresh_local_frontier_detailed byte_sum_hash 9 (in_db (demo_inst Map.empty)) (in_local (demo_inst Map.empty)) =
      Some (\<lparr>fr_frontier = lf, fr_changed = True, fr_added = {}\<rparr>, lf) \<and>
    refresh_local_frontier_detailed byte_sum_hash 9 ((in_db (demo_inst Map.empty))\<lparr>db_ceilings := [(demo_key 1, 5)]\<rparr>) lf =
      Some (\<lparr>fr_frontier = lf, fr_changed = False, fr_added = {}\<rparr>, lf) \<and>
    lf_ceilings lf = [] \<and> load_local_age_ceilings ((in_db (demo_inst Map.empty))\<lparr>db_ceilings := [(demo_key 1, 5)]\<rparr>) = [(demo_key 1, 5)]"
proof -
  have "\<exists>lf. refresh_local_frontier_detailed byte_sum_hash 9 (in_db (demo_inst Map.empty)) (in_local (demo_inst Map.empty)) =
      Some (\<lparr>fr_frontier = lf, fr_changed = True, fr_added = {}\<rparr>, lf) \<and> lf_ceilings lf = []"
    by (simp add: refresh_local_frontier_detailed_def compute_local_frontier_def Let_def load_frontier_stub_keys_def demo_inst_def
        demo_frontier_def fetch_local_user_pubkeys_def build_bloom_from_keys_def recommend_m_def recommend_k_def new_empty_def
        check_params_def andthen_def MIN_K_def MAX_K_def MIN_M_BITS_def MAX_M_BITS_def insert_all_def load_local_age_ceilings_def
        filter_bytes_differ_def small_filter_def)
  moreover have "load_local_age_ceilings ((in_db (demo_inst Map.empty))\<lparr>db_ceilings := [(demo_key 1, 5)]\<rparr>) = [(demo_key 1, 5)]"
    by (simp add: load_local_age_ceilings_def demo_key_def)
  ultimately show ?thesis using ceiling_change_unannounced by blast
qed

end
