(* ===== verification/Frontier_Route.thy ===== *)
theory Frontier_Route
  imports Frontier_Races
begin

text \<open>
  The frontier from end to end: what an instance announces (\<open>frontier.rs\<close>), its peer stores and then consults when it
  routes an object (\<open>routing.rs\<close>). Nothing that the announcing instance can see is filtered out.
\<close>

section \<open>The keys behind the filters\<close>

definition announced_visible :: "frontier_db \<Rightarrow> bytes list" where
  "announced_visible db = remdups (fetch_local_user_pubkeys db @ visible_keys (load_frontier_stub_keys (current_generation db) db))"

definition announced_expansion :: "frontier_db \<Rightarrow> bytes list" where
  "announced_expansion db = remdups (fetch_local_user_pubkeys db @ expansion_keys (load_frontier_stub_keys (current_generation db) db))"

lemma compute_announced:
  "compute_local_frontier sip now db =
     Option.bind (build_bloom_from_keys sip (announced_visible db)) (\<lambda>vf.
     Option.bind (build_bloom_from_keys sip (announced_expansion db)) (\<lambda>ef.
       Some \<lparr>lf_version = 0, lf_epoch = now, lf_visible = vf, lf_expansion = ef, lf_cursor = encode_cursor 0 now,
             lf_keys = set (announced_visible db), lf_ceilings = load_local_age_ceilings db\<rparr>))"
  by (simp add: compute_local_frontier_def announced_visible_def announced_expansion_def Let_def)

lemma default_size:
  assumes "n \<le> 2 ^ 59"
  shows "real_of_int \<lceil>- (real n * ln DEFAULT_FPR_TARGET) / (ln 2 * ln 2)\<rceil> \<le> 2 ^ 64 - 64"
proof -
  have l2: "1 / 2 \<le> (ln 2 :: real)" using ln_le_minus_one [of "1 / 2"] by (simp add: ln_div)
  have "- ln DEFAULT_FPR_TARGET = ln (2 ^ 30 / 10737418)" by (simp add: DEFAULT_FPR_TARGET_def ln_div)
  also have "\<dots> \<le> ln (2 ^ 7)" by (subst ln_le_cancel_iff) simp_all
  also have "\<dots> = 7 * ln 2" by (subst ln_realpow) simp_all
  finally have "real n * - ln DEFAULT_FPR_TARGET \<le> real n * (7 * ln 2)" by (intro mult_left_mono) simp_all
  then have "- (real n * ln DEFAULT_FPR_TARGET) / (ln 2 * ln 2) \<le> real n * (7 * ln 2) / (ln 2 * ln 2)"
    by (intro divide_right_mono) simp_all
  also have "\<dots> = 7 * real n / ln 2" by simp
  also have "\<dots> \<le> 7 * real n / (1 / 2)" using l2 by (intro divide_left_mono) simp_all
  also have "\<dots> \<le> 2 ^ 63"
  proof -
    have "real n \<le> real (2 ^ 59)" using assms by (simp only: of_nat_le_iff)
    then show ?thesis by simp
  qed
  finally have "\<lceil>- (real n * ln DEFAULT_FPR_TARGET) / (ln 2 * ln 2)\<rceil> \<le> 2 ^ 63" by (simp add: ceiling_le_iff)
  then have "real_of_int \<lceil>- (real n * ln DEFAULT_FPR_TARGET) / (ln 2 * ln 2)\<rceil> \<le> real_of_int (2 ^ 63)" by (simp only: of_int_le_iff)
  then show ?thesis by simp
qed

lemma insert_all_fpr: "bf_fpr_target (insert_all sip keys f) = bf_fpr_target f"
  unfolding insert_all_def by (induction keys arbitrary: f) (simp_all add: bloom_insert_def)

text \<open>A filter as the announcing side builds it, with all of the keys in it.\<close>

definition built :: "siphash \<Rightarrow> bytes list \<Rightarrow> BloomFilter \<Rightarrow> bool" where
  "built sip keys f \<longleftrightarrow> storable f \<and> bf_fpr_target f = DEFAULT_FPR_TARGET \<and> list_all (bloom_contains sip f) keys"

lemma build_built:
  assumes "length keys \<le> 2 ^ 59"
  shows "\<exists>f. build_bloom_from_keys sip keys = Some f \<and> built sip keys f"
proof -
  let ?m = "recommend_m (length keys) DEFAULT_FPR_TARGET"
  obtain f where f: "new_empty (recommend_k ?m (length keys)) ?m (length keys) DEFAULT_FPR_TARGET = Inr f"
    using recommended_params_accepted [OF default_size [OF assms]] by blast
  then have s: "storable f" "bf_fpr_target f = DEFAULT_FPR_TARGET"
    using assms by (auto simp: new_empty_def check_params_def andthen_def storable_def bloom_wf_def split: if_splits)
  then have "built sip keys (insert_all sip keys f)"
    using insert_all_storable [OF s(1), of sip keys] insert_all_contains [of f _ keys sip]
    by (simp add: built_def insert_all_fpr list_all_iff storable_def)
  with f show ?thesis by (simp add: build_bloom_from_keys_def Let_def)
qed

lemma built_same:
  assumes "built sip keys f" "\<not> filter_bytes_differ g f" "storable g" "bf_fpr_target g = DEFAULT_FPR_TARGET"
  shows "built sip keys g"
proof -
  have "bloom_contains sip g = bloom_contains sip f" using assms(2) by (intro ext) (simp add: filter_bytes_differ_def bloom_contains_def)
  then show ?thesis using assms by (simp add: built_def)
qed

lemma btree_insert_keys: "set (map fst (btree_insert k v m)) = insert k (set (map fst m))"
  by (induction k v m rule: btree_insert.induct) auto

lemma btree_insert_ok:
  assumes "sorted_wrt (<) (map fst m)" "list_all (\<lambda>(rt, cutoff). length rt = 32 \<and> cutoff < 2 ^ 64) m" "length k = 32" "v < 2 ^ 64"
  shows "sorted_wrt (<) (map fst (btree_insert (k :: bytes) v m)) \<and>
    list_all (\<lambda>(rt, cutoff). length rt = 32 \<and> cutoff < 2 ^ 64) (btree_insert k v m) \<and> length (btree_insert k v m) \<le> Suc (length m)"
  using assms
proof (induction k v m rule: btree_insert.induct)
  case (2 k v k' v' es)
  then show ?case using btree_insert_keys [of k v es] by (auto simp: image_iff)
qed simp

text \<open>The tables are of a size that fits the wire: fewer than \<open>2 ^ 59\<close> keys, ceilings in the range of their column.\<close>

definition db_fits :: "frontier_db \<Rightarrow> bool" where
  "db_fits db \<longleftrightarrow> length (announced_visible db) \<le> 2 ^ 59 \<and> length (announced_expansion db) \<le> 2 ^ 59 \<and>
     length (db_ceilings db) < 2 ^ 63 \<and> list_all (\<lambda>(_, cutoff). cutoff < 2 ^ 63) (db_ceilings db)"

lemma load_ceilings_ok:
  assumes "db_fits db"
  shows "ceilings_ok (load_local_age_ceilings db)"
proof -
  have "sorted_wrt (<) (map fst out) \<and> list_all (\<lambda>(rt, cutoff). length rt = 32 \<and> cutoff < 2 ^ 64) out \<and> length out \<le> length acc + length cs"
    if "sorted_wrt (<) (map fst acc)" "list_all (\<lambda>(rt, cutoff). length rt = 32 \<and> cutoff < 2 ^ 64) acc" "list_all (\<lambda>(_, cutoff). cutoff < 2 ^ 63) cs"
      "out = fold (\<lambda>(rt, cutoff) out. if length rt = 32 \<and> 0 \<le> cutoff then btree_insert rt (nat cutoff) out else out) cs acc"
    for out acc :: age_ceilings and cs :: "(bytes \<times> int) list"
    using that
  proof (induction cs arbitrary: acc)
    case (Cons c cs)
    show ?case
    proof (cases "length (fst c) = 32 \<and> 0 \<le> snd c")
      case True
      have "snd c < 2 ^ 63" using Cons.prems(3) by (cases c) simp
      then have n: "nat (snd c) < 2 ^ 64" by (cases "0 \<le> snd c") (simp_all add: nat_less_iff)
      have i: "sorted_wrt (<) (map fst (btree_insert (fst c) (nat (snd c)) acc))"
        "list_all (\<lambda>(rt, cutoff). length rt = 32 \<and> cutoff < 2 ^ 64) (btree_insert (fst c) (nat (snd c)) acc)"
        "length (btree_insert (fst c) (nat (snd c)) acc) \<le> Suc (length acc)"
        using btree_insert_ok [OF Cons.prems(1,2) _ n, of "fst c"] True by auto
      show ?thesis using Cons.IH [OF i(1,2)] Cons.prems(3,4) i(3) True by (cases c) fastforce
    next
      case False
      then show ?thesis using Cons.IH [OF Cons.prems(1,2)] Cons.prems(3,4) by (cases c) fastforce
    qed
  qed simp
  from this [of "[]" "db_ceilings db"] show ?thesis using assms by (simp add: db_fits_def ceilings_ok_def load_local_age_ceilings_def)
qed

section \<open>The sender\<close>

text \<open>The snapshot fits the wire and the columns of the peer.\<close>

definition lf_fits :: "LocalFrontier \<Rightarrow> bool" where
  "lf_fits lf \<longleftrightarrow> storable (lf_visible lf) \<and> storable (lf_expansion lf) \<and> bf_fpr_target (lf_visible lf) = DEFAULT_FPR_TARGET \<and>
     bf_fpr_target (lf_expansion lf) = DEFAULT_FPR_TARGET \<and> lf_version lf < 2 ^ 63 \<and> lf_epoch lf < 2 ^ 63 \<and> ceilings_ok (lf_ceilings lf)"

lemma empty_fits: "now < 2 ^ 63 \<Longrightarrow> \<exists>lf. local_frontier_empty now = Some lf \<and> lf_fits lf \<and> lf_version lf = 0"
  by (simp add: local_frontier_empty_def new_empty_def check_params_def andthen_def DEFAULT_K_def MIN_K_def MAX_K_def MIN_M_BITS_def
      MAX_M_BITS_def lf_fits_def storable_def bloom_wf_def ceilings_ok_def)

lemma refresh_fits:
  assumes "db_fits db" "lf_fits prev" "now < 2 ^ 63" "lf_version prev < 2 ^ 63 - 1"
  shows "\<exists>r lf. refresh_local_frontier_detailed sip now db prev = Some (r, lf) \<and> fr_frontier r = lf \<and> lf_fits lf \<and>
    built sip (announced_visible db) (lf_visible lf) \<and> built sip (announced_expansion db) (lf_expansion lf)"
proof -
  obtain vf ef where b: "build_bloom_from_keys sip (announced_visible db) = Some vf" "built sip (announced_visible db) vf"
    "build_bloom_from_keys sip (announced_expansion db) = Some ef" "built sip (announced_expansion db) ef"
    using assms(1) build_built by (metis db_fits_def)
  show ?thesis
  proof (cases "filter_bytes_differ (lf_visible prev) vf \<or> filter_bytes_differ (lf_expansion prev) ef")
    case True
    then show ?thesis using b load_ceilings_ok [OF assms(1)] assms(3,4)
      by (simp add: refresh_local_frontier_detailed_def compute_announced Let_def lf_fits_def built_def sat_add64_def u64_max_def)
  next
    case False
    then have "built sip (announced_visible db) (lf_visible prev)" "built sip (announced_expansion db) (lf_expansion prev)"
      using assms(2) b built_same by (auto simp: lf_fits_def)
    then show ?thesis using b False assms(2) by (simp add: refresh_local_frontier_detailed_def compute_announced)
  qed
qed

lemma fits_announce:
  assumes "lf_fits lf" "f32_value tb ob DEFAULT_FPR_TARGET"
  shows "announce_ok tb ob (announce_of md lf)"
proof -
  have "filter_ok tb ob (from_bloom f)" if "storable f" "bf_fpr_target f = DEFAULT_FPR_TARGET" for f
    using that assms(2) by (auto simp: filter_ok_def from_bloom_def FAMILY_def key_rust storable_def bloom_wf_def MAX_K_def MAX_M_BITS_def)
  then show ?thesis using assms(1) by (simp add: lf_fits_def announce_ok_def announce_of_def NO_TRIMMING_def)
qed

section \<open>The receiver\<close>

text \<open>The row of the routing query for a peer with a stored frontier.\<close>

definition cols_of :: "filter_row \<Rightarrow> filter_cols" where
  "cols_of f = \<lparr>fc_k = Some (fw_k f), fc_m = Some (fw_m f), fc_n_est = Some (fw_n f), fc_fpr = Some (fw_fpr f), fc_bytes = Some (fw_bytes f)\<rparr>"

definition routing_row_of :: "bytes \<Rightarrow> frontier_row \<Rightarrow> routing_row" where
  "routing_row_of s r = \<lparr>rr_pubkey = s, rr_visible = cols_of (pf_visible r), rr_expansion = cols_of (pf_expansion r),
     rr_outbound_mode = Some (pf_outbound r)\<rparr>"

lemma cols_stored: "storable f \<Longrightarrow> cols_of (filter_row_of (from_bloom f) f) = store_filter f"
  by (simp add: cols_of_def filter_row_of_def from_bloom_def store_filter_def storable_def cast_small)

lemma built_selected:
  assumes "built sip vis v" "built sip expa e" "length s = 32" "wants cls vis expa key"
    and "cols_of (pf_visible r) = store_filter v" "cols_of (pf_expansion r) = store_filter e"
  shows "row_selected sip as_f32 cls key (routing_row_of s r)"
  using assms build_stored [of v as_f32] build_stored [of e as_f32]
  by (cases cls) (auto simp: row_selected_def routing_row_of_def built_def wants_def list_all_iff)

lemma apply_fresh:
  assumes "lf_fits lf" "s \<in> in_known st" "rows_ok (in_rows st)"
    and "pred_option (\<lambda>row. pf_version row < int (lf_version lf)) (in_rows st s)"
  shows "\<exists>row calls st'. apply_inbound_frontier sip (\<lambda>_. False) rows s prior (inbound_of_announce (announce_of md lf)) st =
      (Inr (True, pf_cursor row), calls, st') \<and> in_rows st' s = Some row \<and>
      cols_of (pf_visible row) = store_filter (lf_visible lf) \<and> cols_of (pf_expansion row) = store_filter (lf_expansion lf)"
proof -
  have w: "bloom_wf (lf_visible lf)" "bloom_wf (lf_expansion lf)" "storable (lf_visible lf)" "storable (lf_expansion lf)"
    using assms(1) by (simp_all add: lf_fits_def storable_def)
  let ?ib = "inbound_of_announce (announce_of md lf)" and ?lk = "fetch_local_user_pubkeys (in_db st)"
  have fs: "ib_visible ?ib = from_bloom (lf_visible lf)" "ib_expansion ?ib = from_bloom (lf_expansion lf)"
    "ib_version ?ib = lf_version lf" "ib_epoch ?ib = lf_epoch lf"
    by (simp_all add: inbound_of_announce_def announce_of_def)
  obtain row where row: "inbound_row sip ?lk prior ?ib = Inr (lf_expansion lf, row)"
    "pf_version row = to_i64 (lf_version lf)" "pf_epoch row = to_i64 (lf_epoch lf)"
    "pf_visible row = filter_row_of (from_bloom (lf_visible lf)) (lf_visible lf)"
    "pf_expansion row = filter_row_of (from_bloom (lf_expansion lf)) (lf_expansion lf)"
    by (simp add: inbound_row_def fs into_from_bloom [OF w(1)] into_from_bloom [OF w(2)])
  have v: "pf_version row = int (lf_version lf)" using row(2) assms(1) by (simp add: lf_fits_def cast_small)
  have "row_checks row" using row(3-5) v w(3,4) assms(1)
    by (simp add: row_checks_def lf_fits_def cast_small filter_row_of_def from_bloom_def storable_def)
  then have "upsert_frontier s row st = Some (True, st\<lparr>in_rows := (in_rows st)(s \<mapsto> row)\<rparr>)"
    using assms(2,4) v by (cases "in_rows st s") (auto intro: upsert_first upsert_wins)
  then have "apply_inbound_frontier sip (\<lambda>_. False) rows s prior ?ib st = (Inr (True, pf_cursor row),
      replay_local_edges_to_peer sip rows (lf_expansion lf),
      replace_peer_age_ceilings s (ib_ceilings ?ib) (st\<lparr>in_rows := (in_rows st)(s \<mapsto> row)\<rparr>))"
    by (simp add: apply_inbound_frontier_def row(1))
  then show ?thesis using row(4,5) cols_stored w(3,4) by simp
qed


definition demo_sender :: inst where
  "demo_sender = (demo_inst Map.empty)\<lparr>in_db := demo_frontier, in_local := the (local_frontier_empty 8)\<rparr>"


end
