(* ===== verification/Fed_Envelope.thy ===== *)
theory Fed_Envelope
  imports Signed_Verify
begin

text \<open>
  The request envelope of \<open>server/src/federation/envelope.rs\<close> and the verification layer of
  \<open>server/src/federation/middleware.rs\<close>: the wire frame of a signed object, the nonce cache, signing of an
  outbound request, the twelve checks of an inbound one and the body caps. Base64, SHA-256, the header
  type of the HTTP library, Ed25519, the random nonce, the clock and the peer lookup are parameters.
\<close>

section \<open>The frame of a signed object\<close>

definition encode_signed_object :: "(cbor_value \<Rightarrow> bytes option) \<Rightarrow> bytes \<Rightarrow> bytes \<Rightarrow> bytes option" where
  "encode_signed_object ser payload signature =
     ser (VMap [(VText ''p'', VBytes payload), (VText ''s'', VBytes signature)])"

text \<open>The loop over the entries; the accumulator holds the payload and the signature.\<close>

fun decode_entries :: "(cbor_value \<times> cbor_value) list \<Rightarrow> bytes option \<Rightarrow> bytes option \<Rightarrow> (bytes option \<times> bytes option) option" where
  "decode_entries [] p s = Some (p, s)"
| "decode_entries ((VText k, VBytes b) # es) p s =
     (if k = ''p'' then decode_entries es (Some b) s
      else if k = ''s'' then decode_entries es p (Some b)
      else None)"
| "decode_entries (e # es) p s = None"

definition decode_signed_object :: "(bytes \<Rightarrow> cbor_value option) \<Rightarrow> bytes \<Rightarrow> (bytes \<times> bytes) option" where
  "decode_signed_object de bs = (case de bs of
     Some (VMap entries) \<Rightarrow>
       if length entries \<noteq> 2 then None
       else (case decode_entries entries None None of
         Some (Some p, Some s) \<Rightarrow> Some (p, s) | _ \<Rightarrow> None)
   | _ \<Rightarrow> None)"

section \<open>The nonce cache\<close>

definition MAX_CLOCK_SKEW_MS :: nat where
  "MAX_CLOCK_SKEW_MS = 60000"

definition DEFAULT_NONCE_LRU_SIZE :: nat where
  "DEFAULT_NONCE_LRU_SIZE = 4096"

type_synonym nonce_key = "bytes \<times> bytes"

record NonceLru =
  seen :: "nonce_key set"
  order :: "nonce_key list"
  max_size :: nat

definition lru_new :: "nat \<Rightarrow> NonceLru" where
  "lru_new n = \<lparr>seen = {}, order = [], max_size = n\<rparr>"

definition lru_default :: NonceLru where
  "lru_default = lru_new DEFAULT_NONCE_LRU_SIZE"

text \<open>The eviction loop.\<close>

fun evict :: "nat \<Rightarrow> nonce_key set \<Rightarrow> nonce_key list \<Rightarrow> nonce_key set \<times> nonce_key list" where
  "evict n S [] = (S, [])"
| "evict n S (old # rest) = (if length (old # rest) > n then evict n (S - {old}) rest else (S, old # rest))"

definition check_and_insert :: "bytes \<Rightarrow> bytes \<Rightarrow> NonceLru \<Rightarrow> bool \<times> NonceLru" where
  "check_and_insert sndr nonce lru =
     (if max_size lru = 0 then (True, lru)
      else if (sndr, nonce) \<in> seen lru then (False, lru)
      else let (S, q) = evict (max_size lru) (insert (sndr, nonce) (seen lru)) (order lru @ [(sndr, nonce)])
           in (True, lru\<lparr>seen := S, order := q\<rparr>))"

section \<open>Signing an outbound request\<close>

text \<open>\<open>str::to_ascii_uppercase\<close>.\<close>

definition ascii_upper :: "string \<Rightarrow> string" where
  "ascii_upper = map (\<lambda>c. let b = of_char c :: nat in if 97 \<le> b \<and> b \<le> 122 then char_of (b - 32) else c)"

definition outbound_envelope :: "(bytes \<Rightarrow> bytes) \<Rightarrow> bytes \<Rightarrow> bytes \<Rightarrow> string \<Rightarrow> string \<Rightarrow> bytes \<Rightarrow> bytes \<Rightarrow> u64 \<Rightarrow> FedEnvelope" where
  "outbound_envelope sha256 public_key receiver_pubkey mthd pth request_body nonce now =
     \<lparr>sender = public_key, receiver = receiver_pubkey, meth = ascii_upper mthd, path = pth,
      body_hash = (if request_body = [] then None else Some (sha256 request_body)), fe_created_at = now, fe_nonce = nonce\<rparr>"

definition sign_outbound ::
  "(cbor_value \<Rightarrow> bytes option) \<Rightarrow> (bytes \<Rightarrow> bytes) \<Rightarrow> (bytes \<Rightarrow> bytes) \<Rightarrow> (bytes \<Rightarrow> 'h) \<Rightarrow> bytes \<Rightarrow> bytes \<Rightarrow> string \<Rightarrow> string
   \<Rightarrow> bytes \<Rightarrow> bytes \<Rightarrow> u64 \<Rightarrow> 'h option" where
  "sign_outbound ser sha256 sign b64_header public_key receiver_pubkey mthd pth request_body nonce now =
     (let envelope = outbound_envelope sha256 public_key receiver_pubkey mthd pth request_body nonce now
      in case encode ser (FedEnvelope envelope) of
           None \<Rightarrow> None
         | Some payload \<Rightarrow> map_option b64_header (encode_signed_object ser payload (sign payload)))"

section \<open>Verifying an inbound request\<close>

datatype VerifyMode = KnownPeer | Bootstrap

datatype InboundError =
    MissingHeader | BadBase64 | BadWireFormat | BadPayload | NotFedEnvelope | UnknownSender | BadSignature
  | WrongReceiver | MethodMismatch | PathMismatch | BodyHashMismatch | ClockSkew | Replay | Db

text \<open>The code the verifier calls: the header's text, base64, the normaliser and the CBOR codec of the payload
  parser, the hash, the key decoder, signature verification.\<close>

record 'h env =
  header_to_str :: "'h \<Rightarrow> string option"
  b64_decode :: "string \<Rightarrow> bytes option"
  env_nfc :: "nat list \<Rightarrow> nat list"
  env_ser :: "cbor_value \<Rightarrow> bytes option"
  env_de :: "bytes \<Rightarrow> cbor_value option"
  env_sha256 :: "bytes \<Rightarrow> bytes"
  key_ok :: "bytes \<Rightarrow> bool"
  ed_verify :: "bytes \<Rightarrow> bytes \<Rightarrow> bytes \<Rightarrow> bool"

text \<open>Steps 1 to 4: from the header to the envelope and the signed bytes.\<close>

definition open_header :: "'h env \<Rightarrow> 'h option \<Rightarrow> InboundError + FedEnvelope \<times> bytes \<times> bytes" where
  "open_header E header =
     andthen (ok_or header MissingHeader) (\<lambda>h.
     andthen (ok_or (header_to_str E h) BadBase64) (\<lambda>header_str.
     andthen (ok_or (b64_decode E header_str) BadBase64) (\<lambda>wire.
     andthen (ok_or (decode_signed_object (env_de E) wire) BadWireFormat) (\<lambda>(payload_bytes, signature_bytes).
     andthen (map_err (\<lambda>_. BadPayload) (parse (env_nfc E) (env_ser E) (env_de E) payload_bytes)) (\<lambda>payload.
     case payload of
       FedEnvelope e \<Rightarrow> Inr (e, payload_bytes, signature_bytes)
     | _ \<Rightarrow> Inl NotFedEnvelope)))))"

text \<open>Step 5: \<open>lookup\<close> gives whether the sender is an active peer, or \<open>None\<close> on a database error.\<close>

definition check_sender :: "VerifyMode \<Rightarrow> (bytes \<Rightarrow> bool option) \<Rightarrow> bytes \<Rightarrow> InboundError + unit" where
  "check_sender mode lookup sndr = (case mode of
     KnownPeer \<Rightarrow> andthen (ok_or (lookup sndr) Db) (\<lambda>known. guard known UnknownSender)
   | Bootstrap \<Rightarrow> Inr ())"

text \<open>Step 10.\<close>

definition body_hash_ok :: "(bytes \<Rightarrow> bytes) \<Rightarrow> bytes option \<Rightarrow> bytes \<Rightarrow> bool" where
  "body_hash_ok sha256 bh request_body = (case bh of
     None \<Rightarrow> request_body = [] | Some expected \<Rightarrow> request_body \<noteq> [] \<and> expected = sha256 request_body)"

definition abs_diff :: "nat \<Rightarrow> nat \<Rightarrow> nat" where
  "abs_diff a b = (if a < b then b - a else a - b)"

text \<open>Steps 5 to 11, in their order.\<close>

definition check_envelope ::
  "'h env \<Rightarrow> bytes \<Rightarrow> VerifyMode \<Rightarrow> (bytes \<Rightarrow> bool option) \<Rightarrow> string \<Rightarrow> string \<Rightarrow> bytes \<Rightarrow> nat
   \<Rightarrow> FedEnvelope \<Rightarrow> bytes \<Rightarrow> bytes \<Rightarrow> InboundError + unit" where
  "check_envelope E our_pubkey mode lookup mthd pth request_body now e payload_bytes signature_bytes =
     andthen (check_sender mode lookup (sender e)) (\<lambda>_.
     andthen (guard (key_ok E (sender e)) BadSignature) (\<lambda>_.
     andthen (map_err (\<lambda>_. BadSignature)
       (verify (env_nfc E) (env_ser E) (env_de E) (ed_verify E) payload_bytes signature_bytes (sender e))) (\<lambda>_.
     andthen (guard (receiver e = our_pubkey) WrongReceiver) (\<lambda>_.
     andthen (guard (meth e = ascii_upper mthd) MethodMismatch) (\<lambda>_.
     andthen (guard (path e = pth) PathMismatch) (\<lambda>_.
     andthen (guard (body_hash_ok (env_sha256 E) (body_hash e) request_body) BodyHashMismatch) (\<lambda>_.
     guard (\<not> abs_diff now (unat (fe_created_at e)) > MAX_CLOCK_SKEW_MS) ClockSkew)))))))"

definition verify_inbound ::
  "'h env \<Rightarrow> bytes \<Rightarrow> VerifyMode \<Rightarrow> (bytes \<Rightarrow> bool option) \<Rightarrow> string \<Rightarrow> string \<Rightarrow> bytes \<Rightarrow> nat \<Rightarrow> 'h option
   \<Rightarrow> NonceLru \<Rightarrow> (InboundError + FedEnvelope) \<times> NonceLru" where
  "verify_inbound E our_pubkey mode lookup mthd pth request_body now header lru =
     (case open_header E header of
        Inl err \<Rightarrow> (Inl err, lru)
      | Inr (e, payload_bytes, signature_bytes) \<Rightarrow>
          (case check_envelope E our_pubkey mode lookup mthd pth request_body now e payload_bytes signature_bytes of
             Inl err \<Rightarrow> (Inl err, lru)
           | Inr _ \<Rightarrow>
               (case check_and_insert (sender e) (fe_nonce e) lru of
                  (fresh, lru') \<Rightarrow> (if fresh then Inr e else Inl Replay, lru'))))"

section \<open>The middleware\<close>

definition DEFAULT_FEDERATION_BODY_CAP :: nat where "DEFAULT_FEDERATION_BODY_CAP = 64 * 1024"
definition FRONTIER_BODY_CAP :: nat where "FRONTIER_BODY_CAP = 16 * 1024 * 1024"
definition EDGES_BODY_CAP :: nat where "EDGES_BODY_CAP = 64 * 1024"
definition CONTENT_BODY_CAP :: nat where "CONTENT_BODY_CAP = 16 * 1024 * 1024"
definition BACKFILL_BY_HASH_BODY_CAP :: nat where "BACKFILL_BY_HASH_BODY_CAP = 16 * 1024"
definition ADMIN_RM_REPORT_BODY_CAP :: nat where "ADMIN_RM_REPORT_BODY_CAP = 8 * 1024"
definition USER_STATUS_BODY_CAP :: nat where "USER_STATUS_BODY_CAP = 1024 * 1024"
definition THREAD_STATUS_BODY_CAP :: nat where "THREAD_STATUS_BODY_CAP = 1024 * 1024"
definition REPORT_BODY_CAP :: nat where "REPORT_BODY_CAP = 256 * 1024"

text \<open>A route or anything below it.\<close>

definition under :: "string \<Rightarrow> string \<Rightarrow> bool" where
  "under route p \<longleftrightarrow> p = route \<or> take (length route + 1) p = route @ ''/''"

definition route_body_cap :: "string \<Rightarrow> nat" where
  "route_body_cap p =
     (if under ''/federation/v1/frontier'' p then FRONTIER_BODY_CAP
      else if under ''/federation/v1/edges'' p then EDGES_BODY_CAP
      else if under ''/federation/v1/content'' p then CONTENT_BODY_CAP
      else if under ''/federation/v1/admin-rm-report'' p then ADMIN_RM_REPORT_BODY_CAP
      else if p = ''/federation/v1/backfill/by-hash'' \<or> p = ''/federation/v1/user-status/by-hash''
        \<or> p = ''/federation/v1/thread-status/by-hash'' then BACKFILL_BY_HASH_BODY_CAP
      else if under ''/federation/v1/user-status'' p then USER_STATUS_BODY_CAP
      else if under ''/federation/v1/thread-status'' p then THREAD_STATUS_BODY_CAP
      else if p = ''/federation/v1/reports'' then REPORT_BODY_CAP
      else DEFAULT_FEDERATION_BODY_CAP)"

text \<open>A request as the layer sees it. The content type is \<open>None\<close> when the header is missing or no text; the
  body is \<open>None\<close> when reading it fails.\<close>

record 'h request =
  rq_method :: string
  rq_path :: string
  rq_query :: "string option"
  rq_content_type :: "string option"
  rq_body :: "bytes option"
  rq_auth :: "'h option"

datatype layer_result = UnsupportedMediaType | Unauthorized | InternalError | Forward FedEnvelope bytes

definition CBOR_CONTENT_TYPE :: string where
  "CBOR_CONTENT_TYPE = ''application/cbor''"

definition layer_verify :: "'h env \<Rightarrow> bytes \<Rightarrow> VerifyMode \<Rightarrow> (bytes \<Rightarrow> bool option) \<Rightarrow> nat \<Rightarrow> 'h request \<Rightarrow> NonceLru \<Rightarrow> layer_result \<times> NonceLru" where
  "layer_verify E our_pubkey mode lookup now req lru =
     (if rq_method req \<notin> {''GET'', ''HEAD''} \<and> rq_content_type req \<noteq> Some CBOR_CONTENT_TYPE
      then (UnsupportedMediaType, lru)
      else case rq_body req of
        None \<Rightarrow> (Unauthorized, lru)
      | Some bs \<Rightarrow>
          if length bs > route_body_cap (rq_path req) then (Unauthorized, lru)
          else (case verify_inbound E our_pubkey mode lookup (rq_method req) (rq_path req) bs now (rq_auth req) lru of
             (Inr e, lru') \<Rightarrow> (Forward e bs, lru')
           | (Inl Db, lru') \<Rightarrow> (InternalError, lru')
           | (Inl _, lru') \<Rightarrow> (Unauthorized, lru')))"

section \<open>Replay guards\<close>

text \<open>What a client may rely on: a guard of capacity \<open>cap\<close> remembers the last \<open>cap\<close> keys it let through and
  refuses exactly those.\<close>

locale replay_guard =
  fixes check :: "'k \<Rightarrow> 's \<Rightarrow> bool \<times> 's"
    and recent :: "'s \<Rightarrow> 'k list"
    and cap :: "'s \<Rightarrow> nat"
    and inv :: "'s \<Rightarrow> bool"
  assumes fresh: "inv s \<Longrightarrow> 0 < cap s \<Longrightarrow> fst (check k s) \<longleftrightarrow> k \<notin> set (recent s)"
    and admitted: "inv s \<Longrightarrow> 0 < cap s \<Longrightarrow> fst (check k s) \<Longrightarrow> recent (snd (check k s)) = take (cap s) (k # recent s)"
    and refused: "inv s \<Longrightarrow> \<not> fst (check k s) \<Longrightarrow> snd (check k s) = s"
    and keeps: "inv s \<Longrightarrow> inv (snd (check k s)) \<and> cap (snd (check k s)) = cap s"
begin

text \<open>\<open>k\<close> was let through \<open>m\<close> admissions ago.\<close>

definition ago :: "nat \<Rightarrow> 'k \<Rightarrow> 's \<Rightarrow> bool" where
  "ago m k s \<longleftrightarrow> m < length (recent s) \<and> recent s ! m = k"

lemma ago_refuses: "inv s \<Longrightarrow> 0 < cap s \<Longrightarrow> ago m k s \<Longrightarrow> \<not> fst (check k s)"
  using fresh [of s k] by (auto simp: ago_def)

lemma ago_start: "inv s \<Longrightarrow> 0 < cap s \<Longrightarrow> fst (check k s) \<Longrightarrow> ago 0 k (snd (check k s))"
  using admitted [of s k] by (cases "cap s") (auto simp: ago_def)

lemma ago_step:
  assumes "inv s" "0 < cap s" "ago m k s"
  shows "\<not> fst (check k' s) \<Longrightarrow> ago m k (snd (check k' s))"
    and "fst (check k' s) \<Longrightarrow> Suc m < cap s \<Longrightarrow> ago (Suc m) k (snd (check k' s))"
  using assms refused [of s k'] admitted [of s k'] by (auto simp: ago_def)

text \<open>A key that is let through a second time has been pushed out by \<open>cap\<close> other admissions.\<close>

fun admissions :: "'k list \<Rightarrow> 's \<Rightarrow> nat" where
  "admissions [] s = 0"
| "admissions (k # ks) s = (if fst (check k s) then 1 else 0) + admissions ks (snd (check k s))"

fun after :: "'k list \<Rightarrow> 's \<Rightarrow> 's" where
  "after [] s = s"
| "after (k # ks) s = after ks (snd (check k s))"

lemma runs_append:
  "after (ks @ ls) s = after ls (after ks s)"
  "admissions (ks @ ls) s = admissions ks s + admissions ls (after ks s)"
  by (induction ks arbitrary: s) simp_all

lemma readmission_needs_flood:
  assumes "inv s" "0 < cap s" "ago m k s" "fst (check k (after ks s))"
  shows "cap s \<le> m + admissions ks s"
  using assms
proof (induction ks arbitrary: s m)
  case Nil
  then show ?case using ago_refuses [of s m k] by simp
next
  case (Cons k' ks)
  note inv' = keeps [OF Cons.prems(1), of k']
  show ?case
  proof (cases "fst (check k' s)")
    case False
    then show ?thesis
      using Cons.IH [of "snd (check k' s)" m] Cons.prems inv' ago_step(1) [OF Cons.prems(1-3) False] by simp
  next
    case True
    show ?thesis
    proof (cases "Suc m < cap s")
      case True
      then show ?thesis
        using Cons.IH [of "snd (check k' s)" "Suc m"] Cons.prems inv' \<open>fst (check k' s)\<close> ago_step(2) [OF Cons.prems(1-3)] by simp
    qed (simp add: True)
  qed
qed

end

text \<open>The nonce cache is a replay guard.\<close>

definition lru_ok :: "NonceLru \<Rightarrow> bool" where
  "lru_ok lru \<longleftrightarrow> seen lru = set (order lru) \<and> distinct (order lru) \<and> length (order lru) \<le> max_size lru"

definition lru_check :: "nonce_key \<Rightarrow> NonceLru \<Rightarrow> bool \<times> NonceLru" where
  "lru_check k lru = check_and_insert (fst k) (snd k) lru"

definition lru_recent :: "NonceLru \<Rightarrow> nonce_key list" where
  "lru_recent lru = rev (order lru)"

lemma evict_spec:
  "S = set q \<Longrightarrow> distinct q \<Longrightarrow> evict n S q = (set (drop (length q - n) q), drop (length q - n) q)"
proof (induction n S q rule: evict.induct)
  case (2 n S old rest)
  show ?case
  proof (cases "length (old # rest) > n")
    case True
    then have "evict n (S - {old}) rest = (set (drop (length rest - n) rest), drop (length rest - n) rest)"
      using 2 by (intro "2.IH") auto
    with True show ?thesis by (simp add: Suc_diff_le)
  qed (use 2 in auto)
qed simp

lemma check_and_insert_cases:
  assumes "lru_ok lru" "0 < max_size lru"
  shows "k \<in> set (order lru) \<Longrightarrow> lru_check k lru = (False, lru)"
    and "k \<notin> set (order lru) \<Longrightarrow> lru_check k lru =
      (True, lru\<lparr>seen := set (drop (length (order lru @ [k]) - max_size lru) (order lru @ [k])),
                 order := drop (length (order lru @ [k]) - max_size lru) (order lru @ [k])\<rparr>)"
  using assms by (auto simp: lru_check_def check_and_insert_def lru_ok_def evict_spec)

interpretation nonce_lru: replay_guard lru_check lru_recent max_size lru_ok
proof unfold_locales
  fix s k
  assume ok: "lru_ok s"
  show "0 < max_size s \<Longrightarrow> fst (lru_check k s) \<longleftrightarrow> k \<notin> set (lru_recent s)"
    using check_and_insert_cases [OF ok] by (cases "k \<in> set (order s)") (simp_all add: lru_recent_def)
  show "0 < max_size s \<Longrightarrow> fst (lru_check k s) \<Longrightarrow> lru_recent (snd (lru_check k s)) = take (max_size s) (k # lru_recent s)"
  proof -
    assume "0 < max_size s" "fst (lru_check k s)"
    moreover have "take (length (order s) - (Suc (length (order s)) - max_size s)) (rev (order s)) = take (max_size s - 1) (rev (order s))"
      using ok \<open>0 < max_size s\<close> by (cases "length (order s) = max_size s") (auto simp: lru_ok_def)
    ultimately show ?thesis
      using check_and_insert_cases [OF ok, of k]
      by (cases "k \<in> set (order s)"; cases "max_size s") (simp_all add: lru_recent_def rev_drop)
  qed
  show "\<not> fst (lru_check k s) \<Longrightarrow> snd (lru_check k s) = s"
    using check_and_insert_cases [OF ok, of k]
    by (cases "max_size s = 0"; cases "k \<in> set (order s)") (simp_all add: lru_check_def check_and_insert_def)
  show "lru_ok (snd (lru_check k s)) \<and> max_size (snd (lru_check k s)) = max_size s"
  proof (cases "max_size s = 0")
    case True
    then show ?thesis using ok by (simp add: lru_check_def check_and_insert_def)
  next
    case False
    then show ?thesis using check_and_insert_cases [OF ok, of k] ok
      by (cases "k \<in> set (order s)") (auto simp: lru_ok_def dest: in_set_dropD)
  qed
qed

lemma lru_check_admits:
  assumes "lru_ok lru" "0 < max_size lru" "lru_check k lru = (True, lru')"
  shows "k \<notin> seen lru \<and> k \<in> seen lru'"
proof -
  have "k \<notin> set (order lru)" using check_and_insert_cases(1) [OF assms(1,2), of k] assms(3) by auto
  with check_and_insert_cases(2) [OF assms(1,2)] assms show ?thesis by (auto simp: lru_ok_def)
qed

lemma lru_new_ok: "lru_ok (lru_new n)"
  by (simp add: lru_ok_def lru_new_def)

section \<open>Acceptance\<close>

lemma envelope_case:
  "(case payload of FedEnvelope e \<Rightarrow> Inr (e, p, sg) | _ \<Rightarrow> Inl err) = Inr r \<longleftrightarrow> (\<exists>e. payload = FedEnvelope e \<and> r = (e, p, sg))"
  by (cases payload) auto

lemma open_header_Inr:
  "open_header E header = Inr (e, p, sg) \<longleftrightarrow>
     (\<exists>h t w. header = Some h \<and> header_to_str E h = Some t \<and> b64_decode E t = Some w \<and>
        decode_signed_object (env_de E) w = Some (p, sg) \<and>
        parse (env_nfc E) (env_ser E) (env_de E) p = Inr (FedEnvelope e))"
  by (auto simp: open_header_def result_simps envelope_case)

lemma check_envelope_Inr:
  "check_envelope E us mode lookup mthd pth rb now e p sg = Inr u \<longleftrightarrow>
     (mode = KnownPeer \<longrightarrow> lookup (sender e) = Some True) \<and> key_ok E (sender e) \<and>
     (\<exists>q. verify (env_nfc E) (env_ser E) (env_de E) (ed_verify E) p sg (sender e) = Inr q) \<and>
     receiver e = us \<and> meth e = ascii_upper mthd \<and> path e = pth \<and>
     body_hash_ok (env_sha256 E) (body_hash e) rb \<and> abs_diff now (unat (fe_created_at e)) \<le> MAX_CLOCK_SKEW_MS"
  by (cases mode) (auto simp: check_envelope_def check_sender_def result_simps not_less)

lemma verify_inbound_Inr:
  "verify_inbound E us mode lookup mthd pth rb now header lru = (Inr e, lru') \<longleftrightarrow>
     (\<exists>p sg. open_header E header = Inr (e, p, sg) \<and>
        check_envelope E us mode lookup mthd pth rb now e p sg = Inr () \<and>
        lru_check (sender e, fe_nonce e) lru = (True, lru'))"
  by (auto simp: verify_inbound_def lru_check_def split: sum.splits prod.splits if_splits)

text \<open>Whatever the result, the cache moves by at most one check.\<close>

lemma verify_inbound_lru:
  "snd (verify_inbound E us mode lookup mthd pth rb now header lru) \<in> {lru} \<union> {snd (lru_check k lru) | k. True}"
  by (auto simp: verify_inbound_def lru_check_def split: sum.splits prod.splits)
    (metis fst_conv snd_conv)

section \<open>The framed object\<close>

lemma frame_round_trip:
  assumes "cbor_codec ser de" "length p < 2 ^ 64" "length sg < 2 ^ 64"
  shows "\<exists>w. encode_signed_object ser p sg = Some w \<and> decode_signed_object de w = Some (p, sg)"
proof -
  let ?v = "VMap [(VText ''p'', VBytes p), (VText ''s'', VBytes sg)]"
  have t: "is_str ''p''" "is_str ''s''" by (rule chars_ascii; simp)+
  have d: "max_depth = Suc 15" by (simp add: max_depth_def)
  have "payload_value max_depth ?v" unfolding d payload_value.simps using assms(2,3) t by (simp add: rust_string_def)
  then obtain w where "ser ?v = Some w" "de w = Some ?v" using cbor_codec.round_trip [OF assms(1)] by blast
  then show ?thesis by (simp add: encode_signed_object_def decode_signed_object_def)
qed

section \<open>Size of an encoded envelope\<close>

text \<open>The sizes that discharge the length bounds of the codec law at concrete inputs.\<close>

definition leaf_size :: "cbor_value \<Rightarrow> nat" where
  "leaf_size v = (case v of VBytes b \<Rightarrow> 9 + length b | VText s \<Rightarrow> 9 + length s | _ \<Rightarrow> 9)"

definition is_leaf :: "cbor_value \<Rightarrow> bool" where
  "is_leaf v \<longleftrightarrow> (case v of VBytes _ \<Rightarrow> True | VText _ \<Rightarrow> True | VInteger _ \<Rightarrow> True | _ \<Rightarrow> False)"

lemma length_enc_head: "length (enc_head m n) \<le> 9"
  by (simp add: enc_head_def)

lemma enc_leaf: "is_leaf v \<Longrightarrow> enc d v = Some b \<Longrightarrow> length b \<le> leaf_size v"
  using length_enc_head by (cases v) (auto simp: is_leaf_def leaf_size_def split: if_splits)

lemma enc_entries:
  "list_all (is_leaf \<circ> snd) es \<Longrightarrow>
   concat_opt (concat (map (\<lambda>(k, v). [enc d k, enc d v]) (map (\<lambda>(k, v). (VText k, v)) es))) = Some b \<Longrightarrow>
   length b \<le> (\<Sum>e\<leftarrow>es. 9 + length (fst e) + leaf_size (snd e))"
proof (induction es arbitrary: b)
  case (Cons e es)
  obtain k v where e: "e = (k, v)" by (cases e)
  from Cons.prems e obtain x y where v: "enc d v = Some x"
    and y: "concat_opt (concat (map (\<lambda>(k, v). [enc d k, enc d v]) (map (\<lambda>(k, v). (VText k, v)) es))) = Some y"
    and b: "b = (enc_head 3 (length k) @ text_bytes k) @ x @ y"
    by (cases "enc d v") auto
  have "length x \<le> leaf_size v" using Cons.prems(1) e v by (intro enc_leaf) simp_all
  moreover have "length y \<le> (\<Sum>e\<leftarrow>es. 9 + length (fst e) + leaf_size (snd e))" using Cons.IH [OF _ y] Cons.prems(1) by simp
  ultimately show ?case using length_enc_head [of 3 "length k"] by (simp add: b e)
qed simp

lemma rfc_map_size:
  assumes "list_all (is_leaf \<circ> snd) es" "rfc_ser (build_map es) = Some b"
  shows "length b \<le> 9 + (\<Sum>e\<leftarrow>es. 9 + length (fst e) + leaf_size (snd e))"
proof -
  have d: "max_depth = Suc 15" by (simp add: max_depth_def)
  let ?f = "\<lambda>e. 9 + length (fst e) + leaf_size (snd e)"
  obtain y where y: "concat_opt (concat (map (\<lambda>(k, v). [enc 15 k, enc 15 v]) (map (\<lambda>(k, v). (VText k, v)) (sort_entries es)))) = Some y"
    "b = enc_head 5 (length (sort_entries es)) @ y"
    using assms(2) unfolding rfc_ser_def d build_map_def enc.simps by (auto simp: map_option_case simp del: map_map split: option.splits)
  have "list_all (is_leaf \<circ> snd) (sort_entries es)" using assms(1) by (simp add: list_all_iff sort_entries_def)
  from enc_entries [OF this y(1)] have "length y \<le> (\<Sum>e\<leftarrow>sort_entries es. ?f e)" .
  also have "\<dots> = (\<Sum>e\<leftarrow>es. ?f e)"
    by (simp add: sum_mset_sum_list [symmetric] sort_entries_def)
  finally show ?thesis using y(2) length_enc_head [of 5 "length (sort_entries es)"] by simp
qed

lemma rfc_envelope_size:
  assumes "encode rfc_ser (FedEnvelope e) = Some b" "wf_payload nfc (FedEnvelope e)"
    "length (meth e) \<le> 1000" "length (path e) \<le> 1000"
  shows "length b < 2 ^ 64"
proof -
  have "list_all (is_leaf \<circ> snd) (fed_envelope_entries e)"
    by (auto simp: fed_envelope_entries_def opt_entry_def is_leaf_def v_uint_def split: option.splits)
  from rfc_map_size [OF this] assms(1) have "length b \<le> 9 + (\<Sum>x\<leftarrow>fed_envelope_entries e. 9 + length (fst x) + leaf_size (snd x))"
    by (simp add: encode_def fed_envelope_to_cbor_def)
  also have "\<dots> \<le> 3000"
    using assms(2-4) by (auto simp: fed_envelope_entries_def opt_entry_def opt_len_def leaf_size_def v_uint_def TAG_FED_ENVELOPE_def split: option.splits)
  finally show ?thesis by simp
qed

section \<open>Signing and verifying together\<close>

text \<open>The contract of the code around the envelope, for a sender with public key \<open>pk\<close>: the codec law, base64 and
  the header type give back what they were given, a digest has 32 bytes, and the sender's signatures verify
  under its key.\<close>

locale fed_stack =
  fixes E :: "'h env"
    and b64_header :: "bytes \<Rightarrow> 'h"
    and sign :: "bytes \<Rightarrow> bytes"
    and pk :: bytes
  assumes codec: "cbor_codec (env_ser E) (env_de E)"
    and header: "\<exists>t. header_to_str E (b64_header w) = Some t \<and> b64_decode E t = Some w"
    and digest: "length (env_sha256 E m) = 32"
    and key: "length pk = 32" "key_ok E pk"
    and signs: "length (sign m) = 64" "ed_verify E pk m (sign m)"
begin

abbreviation envelope_for :: "bytes \<Rightarrow> string \<Rightarrow> string \<Rightarrow> bytes \<Rightarrow> bytes \<Rightarrow> u64 \<Rightarrow> FedEnvelope" where
  "envelope_for \<equiv> outbound_envelope (env_sha256 E) pk"

lemma envelope_wf:
  assumes "length us = 32" "length nonce = 16"
  shows "wf_payload nfc (FedEnvelope (envelope_for us mthd pth rb nonce at))"
  using assms by (simp add: outbound_envelope_def key digest opt_len_def)

lemma outbound_opens:
  assumes "length us = 32" "length nonce = 16" "rust_string (ascii_upper mthd)" "rust_string pth"
    and short: "\<And>b. encode (env_ser E) (FedEnvelope (envelope_for us mthd pth rb nonce at)) = Some b \<Longrightarrow> length b < 2 ^ 64"
  shows "\<exists>h p. sign_outbound (env_ser E) (env_sha256 E) sign b64_header pk us mthd pth rb nonce at = Some h \<and>
    open_header E (Some h) = Inr (envelope_for us mthd pth rb nonce at, p, sign p) \<and>
    (\<exists>q. verify (env_nfc E) (env_ser E) (env_de E) (ed_verify E) p (sign p) pk = Inr q)"
proof -
  let ?e = "envelope_for us mthd pth rb nonce at"
  have "typed_payload (FedEnvelope ?e)" using assms(3,4) by (simp add: typed_payload_def outbound_envelope_def)
  from encode_total [OF codec envelope_wf [OF assms(1,2)] this] obtain p where
    p: "encode (env_ser E) (FedEnvelope ?e) = Some p" "parse (env_nfc E) (env_ser E) (env_de E) p = Inr (FedEnvelope ?e)" by metis
  from frame_round_trip [OF codec short [OF p(1)], of "sign p"] signs(1) obtain w where
    w: "encode_signed_object (env_ser E) p (sign p) = Some w" "decode_signed_object (env_de E) w = Some (p, sign p)" by auto
  obtain t where "header_to_str E (b64_header w) = Some t" "b64_decode E t = Some w" using header by blast
  then have "open_header E (Some (b64_header w)) = Inr (?e, p, sign p)" using w(2) p(2) by (auto simp: open_header_Inr)
  moreover have "sign_outbound (env_ser E) (env_sha256 E) sign b64_header pk us mthd pth rb nonce at = Some (b64_header w)"
    using p(1) w(1) by (simp add: sign_outbound_def outbound_envelope_def)
  moreover have "verify (env_nfc E) (env_ser E) (env_de E) (ed_verify E) p (sign p) pk = Inr (FedEnvelope ?e)"
    using p(2) signs by (simp add: verify_Inr outbound_envelope_def)
  ultimately show ?thesis by blast
qed

end

lemma accept_signed:
  assumes "fed_stack E b64_header sign pk" "length us = 32" "length nonce = 16"
    and "rust_string (ascii_upper mthd)" "rust_string pth"
    and "\<And>b. encode (env_ser E) (FedEnvelope (outbound_envelope (env_sha256 E) pk us mthd pth rb nonce at)) = Some b \<Longrightarrow> length b < 2 ^ 64"
    and "mode = KnownPeer \<Longrightarrow> lookup pk = Some True" "abs_diff now (unat at) \<le> MAX_CLOCK_SKEW_MS"
    and "lru_ok lru" "(pk, nonce) \<notin> seen lru"
  shows "\<exists>h. sign_outbound (env_ser E) (env_sha256 E) sign b64_header pk us mthd pth rb nonce at = Some h \<and>
    verify_inbound E us mode lookup mthd pth rb now (Some h) lru =
      (Inr (outbound_envelope (env_sha256 E) pk us mthd pth rb nonce at), snd (lru_check (pk, nonce) lru))"
proof -
  let ?e = "outbound_envelope (env_sha256 E) pk us mthd pth rb nonce at"
  from fed_stack.outbound_opens [OF assms(1-6)] obtain h p q where
    h: "sign_outbound (env_ser E) (env_sha256 E) sign b64_header pk us mthd pth rb nonce at = Some h"
      "open_header E (Some h) = Inr (?e, p, sign p)" "verify (env_nfc E) (env_ser E) (env_de E) (ed_verify E) p (sign p) pk = Inr q"
    by blast
  have "check_envelope E us mode lookup mthd pth rb now ?e p (sign p) = Inr ()"
    unfolding check_envelope_Inr using h(3) assms(7,8) fed_stack.key(2) [OF assms(1)]
    by (auto simp: outbound_envelope_def body_hash_ok_def)
  moreover have "fst (lru_check (pk, nonce) lru)"
    using assms(9,10) check_and_insert_cases(2) [of lru "(pk, nonce)"]
    by (cases "max_size lru = 0") (auto simp: lru_check_def check_and_insert_def lru_ok_def)
  then have "lru_check (sender ?e, fe_nonce ?e) lru = (True, snd (lru_check (pk, nonce) lru))"
    by (cases "lru_check (pk, nonce) lru") (auto simp: outbound_envelope_def)
  ultimately show ?thesis using h(1,2) by (auto simp: verify_inbound_Inr)
qed

text \<open>C7. A request signed with \<open>sign_outbound\<close> is accepted by the receiver it is addressed to: for any
  behaviour of the surrounding code that satisfies the contract \<open>fed_stack\<close>, if the sender is known where
  that is required, the clocks are within the allowed skew and the nonce is new, \<open>verify_inbound\<close> on the
  same method, path and body returns the sender's envelope.\<close>

theorem outbound_accepted:
  assumes "fed_stack E b64_header sign pk" "length us = 32" "length nonce = 16"
    and "rust_string (ascii_upper mthd)" "rust_string pth"
    and "\<And>b. encode (env_ser E) (FedEnvelope (outbound_envelope (env_sha256 E) pk us mthd pth rb nonce at)) = Some b \<Longrightarrow> length b < 2 ^ 64"
    and "mode = KnownPeer \<Longrightarrow> lookup pk = Some True" "abs_diff now (unat at) \<le> MAX_CLOCK_SKEW_MS"
    and "lru_ok lru" "(pk, nonce) \<notin> seen lru"
  shows "\<exists>h lru'. sign_outbound (env_ser E) (env_sha256 E) sign b64_header pk us mthd pth rb nonce at = Some h \<and>
    verify_inbound E us mode lookup mthd pth rb now (Some h) lru =
      (Inr (outbound_envelope (env_sha256 E) pk us mthd pth rb nonce at), lru')"
  using accept_signed [of E b64_header sign pk us nonce mthd pth rb at mode lookup now lru] assms by blast

lemma text_bytes_text: "text_bytes (bytes_text b) = b"
proof -
  have "word_of_nat (of_char (char_of (unat x) :: char)) = x" for x :: u8
    using unsigned_less [of x, where 'a = nat] by simp
  then show ?thesis by (simp add: text_bytes_def bytes_text_def comp_def)
qed

definition demo_env :: "string env" where
  "demo_env = \<lparr>header_to_str = Some, b64_decode = (\<lambda>t. Some (text_bytes t)), env_nfc = id, env_ser = rfc_ser, env_de = rfc_de,
     env_sha256 = (\<lambda>m. replicate 32 (word_of_nat (length m))), key_ok = (\<lambda>k. k \<noteq> []), ed_verify = (\<lambda>k m sg. sg = replicate 64 (hd k))\<rparr>"

interpretation demo: fed_stack demo_env bytes_text "\<lambda>_. replicate 64 7" "replicate 32 7"
  by unfold_locales (simp_all add: demo_env_def rfc.round_trip text_bytes_text)

definition demo_time :: u64 where
  "demo_time = 1700000000000"

definition demo_envelope :: "u8 \<Rightarrow> FedEnvelope" where
  "demo_envelope n = outbound_envelope (env_sha256 demo_env) (replicate 32 7) (replicate 32 9) ''post'' ''/federation/v1/edges'' [1, 2, 3]
     (replicate 16 n) demo_time"

definition demo_header :: "u8 \<Rightarrow> string option" where
  "demo_header n = sign_outbound rfc_ser (env_sha256 demo_env) (\<lambda>_. replicate 64 7) bytes_text (replicate 32 7) (replicate 32 9)
     ''post'' ''/federation/v1/edges'' [1, 2, 3] (replicate 16 n) demo_time"

lemma demo_facts:
  "env_ser demo_env = rfc_ser" "rust_string (ascii_upper ''post'')" "rust_string ''/federation/v1/edges''"
  "encode rfc_ser (FedEnvelope (demo_envelope n)) = Some b \<Longrightarrow> length b < 2 ^ 64"
proof -
  show "env_ser demo_env = rfc_ser" by (simp add: demo_env_def)
  show "rust_string (ascii_upper ''post'')" "rust_string ''/federation/v1/edges''"
    by (rule ascii_rust_string; simp add: ascii_upper_def Let_def)+
  have "wf_payload id (FedEnvelope (demo_envelope n))" unfolding demo_envelope_def by (rule demo.envelope_wf) simp_all
  then show "encode rfc_ser (FedEnvelope (demo_envelope n)) = Some b \<Longrightarrow> length b < 2 ^ 64"
    by (rule rfc_envelope_size [rotated]) (simp_all add: demo_envelope_def outbound_envelope_def ascii_upper_def)
qed

theorem outbound_accepted_witness:
  "\<exists>h lru'. sign_outbound (env_ser demo_env) (env_sha256 demo_env) (\<lambda>_. replicate 64 7) bytes_text (replicate 32 7) (replicate 32 9)
      ''post'' ''/federation/v1/edges'' [1, 2, 3] (replicate 16 5) demo_time = Some h \<and>
    verify_inbound demo_env (replicate 32 9) KnownPeer (\<lambda>k. Some (k = replicate 32 7)) ''post'' ''/federation/v1/edges'' [1, 2, 3]
      (unat demo_time + 60000) (Some h) (lru_new 4) =
      (Inr (outbound_envelope (env_sha256 demo_env) (replicate 32 7) (replicate 32 9) ''post'' ''/federation/v1/edges'' [1, 2, 3]
        (replicate 16 5) demo_time), lru')"
proof (rule outbound_accepted [OF demo.fed_stack_axioms])
  fix b
  assume "encode (env_ser demo_env) (FedEnvelope (outbound_envelope (env_sha256 demo_env) (replicate 32 7) (replicate 32 9) ''post''
    ''/federation/v1/edges'' [1, 2, 3] (replicate 16 5) demo_time)) = Some b"
  then show "length b < 2 ^ 64" using demo_facts(4) [of 5 b] by (simp only: demo_facts(1) demo_envelope_def)
qed (simp_all only: demo_facts(2,3) lru_new_ok length_replicate, simp_all add: abs_diff_def MAX_CLOCK_SKEW_MS_def lru_new_def)

text \<open>The demonstration request, presented a minute later.\<close>

lemma demo_accepts:
  assumes "lru_ok lru" "(replicate 32 7, replicate 16 n) \<notin> seen lru"
  shows "verify_inbound demo_env (replicate 32 9) KnownPeer (\<lambda>k. Some (k = replicate 32 7)) ''post'' ''/federation/v1/edges'' [1, 2, 3]
      (unat demo_time + 60000) (demo_header n) lru = (Inr (demo_envelope n), snd (lru_check (replicate 32 7, replicate 16 n) lru))"
proof -
  have short: "length b < 2 ^ 64"
    if "encode (env_ser demo_env) (FedEnvelope (outbound_envelope (env_sha256 demo_env) (replicate 32 7) (replicate 32 9) ''post''
      ''/federation/v1/edges'' [1, 2, 3] (replicate 16 n) demo_time)) = Some b" for b
    using demo_facts(4) [of n b] that by (simp only: demo_envelope_def demo_facts(1))
  obtain h where "sign_outbound (env_ser demo_env) (env_sha256 demo_env) (\<lambda>_. replicate 64 7) bytes_text (replicate 32 7) (replicate 32 9)
      ''post'' ''/federation/v1/edges'' [1, 2, 3] (replicate 16 n) demo_time = Some h"
    "verify_inbound demo_env (replicate 32 9) KnownPeer (\<lambda>k. Some (k = replicate 32 7)) ''post'' ''/federation/v1/edges'' [1, 2, 3]
      (unat demo_time + 60000) (Some h) lru = (Inr (demo_envelope n), snd (lru_check (replicate 32 7, replicate 16 n) lru))"
    using accept_signed [OF demo.fed_stack_axioms, of "replicate 32 9" "replicate 16 n" "''post''" "''/federation/v1/edges''"
        "[1, 2, 3]" demo_time KnownPeer "\<lambda>k. Some (k = replicate 32 7)" "unat demo_time + 60000" lru] short assms
    by (auto simp: demo_facts(2,3) abs_diff_def MAX_CLOCK_SKEW_MS_def demo_envelope_def)
  then show ?thesis by (simp add: demo_header_def demo_facts(1))
qed

text \<open>C5. What the verifier accepts is authentic: the header opens to signed bytes whose signature verifies under the
  envelope's sender, the bytes parse to the returned envelope, it names this instance as receiver and this
  request's method, path and body digest, its time is within the allowed skew, the sender is an active peer unless
  the route is a handshake route, and its nonce was not among the remembered ones.\<close>

theorem accepted_is_authentic:
  assumes "verify_inbound E us mode lookup mthd pth rb now header lru = (Inr e, lru')" "lru_ok lru" "0 < max_size lru"
  shows "(\<exists>p sg. open_header E header = Inr (e, p, sg) \<and> ed_verify E (sender e) p sg \<and> length sg = 64 \<and>
        parse (env_nfc E) (env_ser E) (env_de E) p = Inr (FedEnvelope e)) \<and>
    receiver e = us \<and> meth e = ascii_upper mthd \<and> path e = pth \<and>
    body_hash e = (if rb = [] then None else Some (env_sha256 E rb)) \<and>
    abs_diff now (unat (fe_created_at e)) \<le> MAX_CLOCK_SKEW_MS \<and>
    (mode = Bootstrap \<or> lookup (sender e) = Some True) \<and>
    (sender e, fe_nonce e) \<notin> seen lru \<and> (sender e, fe_nonce e) \<in> seen lru'"
proof -
  let ?k = "(sender e, fe_nonce e)"
  from assms(1) obtain p sg where o: "open_header E header = Inr (e, p, sg)"
    and c: "check_envelope E us mode lookup mthd pth rb now e p sg = Inr ()"
    and l: "lru_check ?k lru = (True, lru')" by (auto simp: verify_inbound_Inr)
  note c = c [unfolded check_envelope_Inr]
  have "\<exists>p sg. open_header E header = Inr (e, p, sg) \<and> ed_verify E (sender e) p sg \<and> length sg = 64 \<and>
      parse (env_nfc E) (env_ser E) (env_de E) p = Inr (FedEnvelope e)"
    using o c by (auto simp: verify_Inr open_header_Inr)
  moreover have "body_hash e = (if rb = [] then None else Some (env_sha256 E rb))"
    using c by (auto simp: body_hash_ok_def split: option.splits)
  moreover have "mode = Bootstrap \<or> lookup (sender e) = Some True" using c by (cases mode) auto
  moreover have "?k \<notin> seen lru" "?k \<in> seen lru'"
    using lru_check_admits [OF assms(2,3) l] by simp_all
  ultimately show ?thesis using c by blast
qed

theorem accepted_is_authentic_witness:
  "receiver (demo_envelope 5) = replicate 32 9 \<and> path (demo_envelope 5) = ''/federation/v1/edges''
   \<and> (sender (demo_envelope 5), fe_nonce (demo_envelope 5)) \<notin> seen (lru_new 4)"
  using accepted_is_authentic [OF demo_accepts [OF lru_new_ok, of 5 4]] by (simp add: lru_new_def lru_new_ok [unfolded lru_new_def])

section \<open>Sequences of requests\<close>

record 'h attempt =
  at_mode :: VerifyMode
  at_lookup :: "bytes \<Rightarrow> bool option"
  at_method :: string
  at_path :: string
  at_body :: bytes
  at_now :: nat
  at_header :: "'h option"

definition attempt_verify :: "'h env \<Rightarrow> bytes \<Rightarrow> 'h attempt \<Rightarrow> NonceLru \<Rightarrow> (InboundError + FedEnvelope) \<times> NonceLru" where
  "attempt_verify E us a = verify_inbound E us (at_mode a) (at_lookup a) (at_method a) (at_path a) (at_body a) (at_now a) (at_header a)"

fun inbound_run :: "'h env \<Rightarrow> bytes \<Rightarrow> 'h attempt list \<Rightarrow> NonceLru \<Rightarrow> (InboundError + FedEnvelope) list" where
  "inbound_run E us [] lru = []"
| "inbound_run E us (a # as) lru = fst (attempt_verify E us a lru) # inbound_run E us as (snd (attempt_verify E us a lru))"

definition accepted :: "(InboundError + FedEnvelope) list \<Rightarrow> nat" where
  "accepted rs = length (filter (\<lambda>r. \<not> isl r) rs)"

lemma attempt_checks:
  "\<exists>ks. snd (attempt_verify E us a lru) = nonce_lru.after ks lru \<and>
     nonce_lru.admissions ks lru = (if isl (fst (attempt_verify E us a lru)) then 0 else 1)"
proof -
  show ?thesis
  proof (cases "open_header E (at_header a)")
    case (Inl err)
    then show ?thesis by (intro exI [of _ "[]"]) (simp add: attempt_verify_def verify_inbound_def)
  next
    case (Inr x)
    obtain e p sg where x: "x = (e, p, sg)" by (cases x)
    show ?thesis
    proof (cases "check_envelope E us (at_mode a) (at_lookup a) (at_method a) (at_path a) (at_body a) (at_now a) e p sg")
      case (Inl err)
      then show ?thesis using Inr x by (intro exI [of _ "[]"]) (simp add: attempt_verify_def verify_inbound_def)
    next
      case ok: (Inr u)
      then have "attempt_verify E us a lru = (if fst (lru_check (sender e, fe_nonce e) lru) then Inr e else Inl Replay,
          snd (lru_check (sender e, fe_nonce e) lru))"
        using Inr x by (simp add: attempt_verify_def verify_inbound_def lru_check_def split: prod.splits)
      then show ?thesis by (intro exI [of _ "[(sender e, fe_nonce e)]"]) simp
    qed
  qed
qed

lemma run_checks:
  "inbound_run E us (as @ [b]) lru = rs @ [r] \<Longrightarrow>
   \<exists>ks. r = fst (attempt_verify E us b (nonce_lru.after ks lru)) \<and> nonce_lru.admissions ks lru = accepted rs"
proof (induction as arbitrary: lru rs)
  case Nil
  then show ?case by (intro exI [of _ "[]"]) (simp add: accepted_def)
next
  case (Cons a as)
  obtain ks where ks: "snd (attempt_verify E us a lru) = nonce_lru.after ks lru"
    "nonce_lru.admissions ks lru = (if isl (fst (attempt_verify E us a lru)) then 0 else 1)" using attempt_checks by blast
  from Cons.prems obtain rs' where rs: "rs = fst (attempt_verify E us a lru) # rs'"
    "inbound_run E us (as @ [b]) (nonce_lru.after ks lru) = rs' @ [r]"
    using ks(1) by (cases rs) (auto simp: Cons_eq_append_conv elim: inbound_run.elims)
  from Cons.IH [OF rs(2)] obtain ls where "r = fst (attempt_verify E us b (nonce_lru.after ls (nonce_lru.after ks lru)))"
    "nonce_lru.admissions ls (nonce_lru.after ks lru) = accepted rs'" by blast
  then show ?case using ks(2) rs(1)
    by (intro exI [of _ "ks @ ls"]) (simp add: nonce_lru.runs_append accepted_def)
qed

lemma attempt_accepts:
  assumes "fst (attempt_verify E us a lru) = Inr e"
  shows "attempt_verify E us a lru = (Inr e, snd (lru_check (sender e, fe_nonce e) lru)) \<and> fst (lru_check (sender e, fe_nonce e) lru)
    \<and> abs_diff (at_now a) (unat (fe_created_at e)) \<le> MAX_CLOCK_SKEW_MS"
proof -
  obtain lru' where "attempt_verify E us a lru = (Inr e, lru')" using assms by (cases "attempt_verify E us a lru") auto
  then show ?thesis unfolding attempt_verify_def verify_inbound_Inr check_envelope_Inr by auto
qed

text \<open>C6. A replay needs a flood: if the same envelope is accepted twice, then between the two acceptances at least
  as many other envelopes were accepted as the nonce cache holds, all within twice the allowed clock skew.\<close>

theorem replay_needs_flood:
  assumes "inbound_run E us (a # mid @ [b]) lru = Inr e # rs @ [Inr e]" "lru_ok lru" "0 < max_size lru"
  shows "max_size lru \<le> accepted rs \<and> abs_diff (at_now a) (at_now b) \<le> 2 * MAX_CLOCK_SKEW_MS"
proof -
  let ?k = "(sender e, fe_nonce e)"
  define lru1 where "lru1 = snd (lru_check ?k lru)"
  from assms(1) have a: "fst (attempt_verify E us a lru) = Inr e" by simp
  note a' = attempt_accepts [OF a]
  have rest: "inbound_run E us (mid @ [b]) lru1 = rs @ [Inr e]" using assms(1) a' by (simp add: lru1_def)
  from run_checks [OF this] obtain ks where
    ks: "fst (attempt_verify E us b (nonce_lru.after ks lru1)) = Inr e" "nonce_lru.admissions ks lru1 = accepted rs" by metis
  note b' = attempt_accepts [OF ks(1)]
  have inv: "lru_ok lru1" "max_size lru1 = max_size lru" "nonce_lru.ago 0 ?k lru1"
    using nonce_lru.keeps [OF assms(2), of ?k] nonce_lru.ago_start [OF assms(2,3), of ?k] a' by (simp_all add: lru1_def)
  have "max_size lru1 \<le> 0 + nonce_lru.admissions ks lru1"
    by (rule nonce_lru.readmission_needs_flood [OF inv(1) _ inv(3)]) (use inv(2) assms(3) b' in simp_all)
  with inv(2) ks(2) have "max_size lru \<le> accepted rs" by simp
  moreover have "abs_diff (at_now a) (at_now b) \<le> 2 * MAX_CLOCK_SKEW_MS"
    using a' b' by (auto simp: abs_diff_def split: if_splits)
  ultimately show ?thesis ..
qed

definition demo_attempt :: "u8 \<Rightarrow> string attempt" where
  "demo_attempt n = \<lparr>at_mode = KnownPeer, at_lookup = (\<lambda>k. Some (k = replicate 32 7)), at_method = ''post'', at_path = ''/federation/v1/edges'',
     at_body = [1, 2, 3], at_now = unat demo_time + 60000, at_header = demo_header n\<rparr>"

text \<open>The bound is tight: a cache for one nonce forgets it after one other request.\<close>

theorem replay_needs_flood_witness:
  "inbound_run demo_env (replicate 32 9) (demo_attempt 5 # [demo_attempt 6] @ [demo_attempt 5]) (lru_new 1) =
     Inr (demo_envelope 5) # [Inr (demo_envelope 6)] @ [Inr (demo_envelope 5)]
   \<and> max_size (lru_new 1) \<le> accepted [Inr (demo_envelope 6)]"
proof
  let ?k = "\<lambda>n. (replicate 32 7, replicate 16 n) :: nonce_key"
  define l1 l2 where "l1 = snd (lru_check (?k 5) (lru_new 1))" and "l2 = snd (lru_check (?k 6) l1)"
  have k: "?k 5 \<noteq> ?k 6" by (simp add: eval_nat_numeral)
  have l1: "l1 = \<lparr>seen = {?k 5}, order = [?k 5], max_size = 1\<rparr>" by (simp add: l1_def lru_check_def check_and_insert_def lru_new_def)
  have l2: "l2 = \<lparr>seen = {?k 6}, order = [?k 6], max_size = 1\<rparr>" using k by (auto simp: l2_def l1 lru_check_def check_and_insert_def)
  have ok: "lru_ok l1" "lru_ok l2" by (simp_all add: l1 l2 lru_ok_def)
  have a: "attempt_verify demo_env (replicate 32 9) (demo_attempt n) lru = (Inr (demo_envelope n), snd (lru_check (?k n) lru))"
    if "lru_ok lru" "?k n \<notin> seen lru" for n lru
    using demo_accepts [OF that] by (simp add: attempt_verify_def demo_attempt_def)
  show r: "inbound_run demo_env (replicate 32 9) (demo_attempt 5 # [demo_attempt 6] @ [demo_attempt 5]) (lru_new 1) =
     Inr (demo_envelope 5) # [Inr (demo_envelope 6)] @ [Inr (demo_envelope 5)]"
  proof -
    have "attempt_verify demo_env (replicate 32 9) (demo_attempt 5) (lru_new 1) = (Inr (demo_envelope 5), l1)"
      unfolding l1_def by (rule a [OF lru_new_ok]) (simp add: lru_new_def)
    moreover have "attempt_verify demo_env (replicate 32 9) (demo_attempt 6) l1 = (Inr (demo_envelope 6), l2)"
      unfolding l2_def by (rule a [OF ok(1)]) (use k in \<open>simp add: l1\<close>)
    moreover have "fst (attempt_verify demo_env (replicate 32 9) (demo_attempt 5) l2) = Inr (demo_envelope 5)"
      using a [OF ok(2), of 5] k by (simp add: l2)
    ultimately show ?thesis by simp
  qed
  show "max_size (lru_new 1) \<le> accepted [Inr (demo_envelope 6)]"
    using replay_needs_flood [OF r lru_new_ok] by (simp add: lru_new_def)
qed

end
