(* ===== verification/Peering.thy ===== *)
theory Peering
  imports Wire_Bodies Instance_Domain Fed_Envelope
begin

text \<open>
  The peer lifecycle of \<open>server/src/federation/peering.rs\<close>: the \<open>peers\<close> table with its constraints, the two
  handshake handlers, the termination handler, the peer list and the three operator actions. The table is the
  list of its rows in the order queries return them. \<open>fails n\<close> says that the \<open>n\<close>-th statement of an
  operation fails in the database; the answer of the transport, the random request id, the clock and the CBOR
  codec are inputs. A panic of an infallible encoding is the reply \<open>Panicked\<close>.
\<close>

section \<open>The peers table\<close>

datatype peer_status =
  PeerPendingOutbound | PeerPendingInbound | PeerActive | PeerKeyRotating | PeerRejected | PeerTerminated | PeerClosed

datatype peer_direction = OutboundDir | InboundDir

record peer_row =
  pr_pubkey :: bytes
  pr_domain :: string
  pr_status :: peer_status
  pr_direction :: peer_direction
  pr_request_id :: bytes
  pr_caps :: "bytes option"
  pr_agreed :: "bytes option"
  pr_termination :: "string option"
  pr_message :: "string option"
  pr_first_seen :: string
  pr_last_handshake :: "string option"

type_synonym peers_table = "peer_row list"

text \<open>The primary key and the two unique indexes.\<close>

definition unique_ok :: "peers_table \<Rightarrow> bool" where
  "unique_ok tbl \<longleftrightarrow> distinct (map pr_pubkey tbl) \<and> distinct (map pr_domain tbl) \<and> distinct (map pr_request_id tbl)"

definition update_where :: "(peer_row \<Rightarrow> bool) \<Rightarrow> (peer_row \<Rightarrow> peer_row) \<Rightarrow> peers_table \<Rightarrow> peers_table" where
  "update_where P f tbl = map (\<lambda>r. if P r then f r else r) tbl"

text \<open>\<open>INSERT ... ON CONFLICT(instance_pubkey) DO UPDATE\<close>; a violated constraint aborts the statement.\<close>

definition upsert :: "peer_row \<Rightarrow> (peer_row \<Rightarrow> peer_row) \<Rightarrow> peers_table \<Rightarrow> peers_table option" where
  "upsert row upd tbl =
     (let tbl' = (if list_ex (\<lambda>r. pr_pubkey r = pr_pubkey row) tbl
                  then update_where (\<lambda>r. pr_pubkey r = pr_pubkey row) upd tbl
                  else tbl @ [row])
      in if unique_ok tbl' then Some tbl' else None)"

definition domain_taken :: "string \<Rightarrow> bytes \<Rightarrow> peers_table \<Rightarrow> bool" where
  "domain_taken dmn pk tbl = list_ex (\<lambda>r. pr_domain r = dmn \<and> pr_pubkey r \<noteq> pk) tbl"

section \<open>Operator actions\<close>

datatype InitiateError =
    InitTransport TransportError | UnexpectedStatus nat | InitDb | SelfPeering | DomainConflict | InvalidTargetDomain | InitPanic

definition intersect_caps :: "string list \<Rightarrow> string list \<Rightarrow> string list" where
  "intersect_caps ours proposed = filter (\<lambda>c. list_ex (\<lambda>p. p = c) proposed) ours"

definition pending_outbound_row :: "bytes \<Rightarrow> string \<Rightarrow> bytes \<Rightarrow> bytes \<Rightarrow> string \<Rightarrow> peer_row" where
  "pending_outbound_row pk dmn rid caps now = \<lparr>pr_pubkey = pk, pr_domain = dmn, pr_status = PeerPendingOutbound,
     pr_direction = OutboundDir, pr_request_id = rid, pr_caps = Some caps, pr_agreed = None, pr_termination = None,
     pr_message = None, pr_first_seen = now, pr_last_handshake = Some now\<rparr>"

text \<open>An operator action returns its result, the body it sent, and the table. The row is written before the request
  is sent, so the answer of the transport decides only the result.\<close>

definition operator_initiate_peer_request ::
  "(cbor_value \<Rightarrow> bytes option) \<Rightarrow> (nat \<Rightarrow> bool) \<Rightarrow> bytes \<Rightarrow> string \<Rightarrow> bytes \<Rightarrow> string \<Rightarrow> string list \<Rightarrow> string option
   \<Rightarrow> bytes \<Rightarrow> u64 \<Rightarrow> string \<Rightarrow> TransportError + nat \<Rightarrow> peers_table \<Rightarrow> (InitiateError + bytes) \<times> bytes option \<times> peers_table" where
  "operator_initiate_peer_request ser fails own_pk own_domain target_pk target_domain caps intro rid now_ms now answer tbl =
     (if target_pk = own_pk then (Inl SelfPeering, None, tbl)
      else if isl (parse_instance_domain target_domain) then (Inl InvalidTargetDomain, None, tbl)
      else if fails 0 then (Inl InitDb, None, tbl)
      else if domain_taken target_domain target_pk tbl then (Inl DomainConflict, None, tbl)
      else case (request_encode ser \<lparr>prq_domain = own_domain, prq_pubkey = own_pk, prq_caps = caps, prq_intro = intro,
                    prq_id = rid, prq_created = now_ms\<rparr>, encode_text_array ser caps) of
        (Some req_body, Some caps_cbor) \<Rightarrow>
          (if fails 1 then (Inl InitDb, None, tbl)
           else case upsert (pending_outbound_row target_pk target_domain rid caps_cbor now)
               (\<lambda>r. r\<lparr>pr_status := PeerPendingOutbound, pr_direction := OutboundDir, pr_request_id := rid,
                      pr_caps := Some caps_cbor, pr_last_handshake := Some now\<rparr>) tbl of
             None \<Rightarrow> (Inl InitDb, None, tbl)
           | Some tbl' \<Rightarrow> (case answer of
               Inl e \<Rightarrow> (Inl (InitTransport e), Some req_body, tbl')
             | Inr status \<Rightarrow>
                 (if status \<noteq> 202 \<and> status \<noteq> 200 then (Inl (UnexpectedStatus status), Some req_body, tbl')
                  else (Inr rid, Some req_body, tbl'))))
      | _ \<Rightarrow> (Inl InitPanic, None, tbl))"

definition accept_body :: "bytes \<Rightarrow> string \<Rightarrow> bytes \<Rightarrow> string list \<Rightarrow> u64 \<Rightarrow> PeerResponseBody" where
  "accept_body rid own_domain own_pk agreed now_ms = \<lparr>prs_id = rid, prs_domain = own_domain, prs_pubkey = own_pk,
     prs_decision = AcceptPeer, prs_agreed = Some agreed, prs_message = None, prs_created = now_ms\<rparr>"

text \<open>The last statement can still fail after the callback was delivered.\<close>

definition operator_accept_peer_request ::
  "(cbor_value \<Rightarrow> bytes option) \<Rightarrow> (bytes \<Rightarrow> cbor_value option) \<Rightarrow> (nat \<Rightarrow> bool) \<Rightarrow> bytes \<Rightarrow> string \<Rightarrow> bytes \<Rightarrow> u64 \<Rightarrow> string
   \<Rightarrow> TransportError + nat \<Rightarrow> peers_table \<Rightarrow> (InitiateError + unit) \<times> bytes option \<times> peers_table" where
  "operator_accept_peer_request ser de fails own_pk own_domain rid now_ms now answer tbl =
     (if fails 0 then (Inl InitDb, None, tbl)
      else case find (\<lambda>r. pr_request_id r = rid \<and> pr_status r = PeerPendingInbound) tbl of
        None \<Rightarrow> (Inl InitDb, None, tbl)
      | Some row \<Rightarrow>
          if length (pr_pubkey row) \<noteq> 32 then (Inl InitDb, None, tbl)
          else let proposed = (case Option.bind (pr_caps row) (decode_text_array de) of Some c \<Rightarrow> c | None \<Rightarrow> []);
                   agreed = intersect_caps CAPABILITIES proposed
               in case (encode_text_array ser agreed, response_encode ser (accept_body rid own_domain own_pk agreed now_ms)) of
                 (Some agreed_cbor, Some resp_body) \<Rightarrow> (case answer of
                   Inl e \<Rightarrow> (Inl (InitTransport e), Some resp_body, tbl)
                 | Inr status \<Rightarrow>
                     if status \<noteq> 200 then (Inl (UnexpectedStatus status), Some resp_body, tbl)
                     else if fails 1 then (Inl InitDb, Some resp_body, tbl)
                     else (Inr (), Some resp_body,
                       update_where (\<lambda>r. pr_request_id r = rid \<and> pr_status r \<in> {PeerPendingInbound, PeerActive})
                         (\<lambda>r. r\<lparr>pr_status := PeerActive, pr_agreed := Some agreed_cbor, pr_last_handshake := Some now\<rparr>) tbl))
               | _ \<Rightarrow> (Inl InitPanic, None, tbl))"

definition operator_terminate_peer_relationship ::
  "(cbor_value \<Rightarrow> bytes option) \<Rightarrow> (nat \<Rightarrow> bool) \<Rightarrow> string \<Rightarrow> bytes \<Rightarrow> TerminationReason \<Rightarrow> string option \<Rightarrow> u64 \<Rightarrow> string
   \<Rightarrow> TransportError + nat \<Rightarrow> peers_table \<Rightarrow> (InitiateError + unit) \<times> bytes option \<times> peers_table" where
  "operator_terminate_peer_relationship ser fails own_domain peer_pk why msg now_ms now answer tbl =
     (case delete_encode ser \<lparr>prd_domain = own_domain, prd_reason = why, prd_message = msg, prd_created = now_ms\<rparr> of
        None \<Rightarrow> (Inl InitPanic, None, tbl)
      | Some del_body \<Rightarrow> (case answer of
          Inl e \<Rightarrow> (Inl (InitTransport e), Some del_body, tbl)
        | Inr status \<Rightarrow>
            if status \<noteq> 200 then (Inl (UnexpectedStatus status), Some del_body, tbl)
            else if fails 0 then (Inl InitDb, Some del_body, tbl)
            else (Inr (), Some del_body,
              update_where (\<lambda>r. pr_pubkey r = peer_pk \<and> pr_status r = PeerActive)
                (\<lambda>r. r\<lparr>pr_status := PeerTerminated, pr_termination := Some (reason_as_str why), pr_last_handshake := Some now\<rparr>) tbl)))"

section \<open>HTTP handlers\<close>

definition MAX_DOMAIN_LEN :: nat where "MAX_DOMAIN_LEN = 255"
definition MAX_MESSAGE_LEN :: nat where "MAX_MESSAGE_LEN = 4096"

datatype peer_reply = Accepted202 bytes | Ok200 | ErrReply nat string | Panicked

definition reply_status :: "peer_reply \<Rightarrow> nat" where
  "reply_status r = (case r of Accepted202 _ \<Rightarrow> 202 | Ok200 \<Rightarrow> 200 | ErrReply s _ \<Rightarrow> s | Panicked \<Rightarrow> 500)"

definition bad_request :: "string \<Rightarrow> peer_reply" where "bad_request code = ErrReply 400 code"
definition unauthorized :: peer_reply where "unauthorized = ErrReply 401 ''unauthorized''"
definition not_found :: "string \<Rightarrow> peer_reply" where "not_found code = ErrReply 404 code"
definition conflict :: "string \<Rightarrow> peer_reply" where "conflict code = ErrReply 409 code"
definition internal_error :: peer_reply where "internal_error = ErrReply 500 ''internal''"

definition pending_inbound_row :: "bytes \<Rightarrow> string \<Rightarrow> bytes \<Rightarrow> bytes \<Rightarrow> string \<Rightarrow> peer_row" where
  "pending_inbound_row pk dmn rid caps now = \<lparr>pr_pubkey = pk, pr_domain = dmn, pr_status = PeerPendingInbound,
     pr_direction = InboundDir, pr_request_id = rid, pr_caps = Some caps, pr_agreed = None, pr_termination = None,
     pr_message = None, pr_first_seen = now, pr_last_handshake = Some now\<rparr>"

definition handle_peer_request ::
  "(cbor_value \<Rightarrow> bytes option) \<Rightarrow> (bytes \<Rightarrow> cbor_value option) \<Rightarrow> (nat \<Rightarrow> bool) \<Rightarrow> bytes \<Rightarrow> bytes \<Rightarrow> string
   \<Rightarrow> peers_table \<Rightarrow> peer_reply \<times> peers_table" where
  "handle_peer_request ser de fails sndr req_body now tbl = (case request_decode de req_body of
     None \<Rightarrow> (bad_request ''invalid_body'', tbl)
   | Some parsed \<Rightarrow>
       if prq_pubkey parsed \<noteq> sndr then (unauthorized, tbl)
       else if isl (parse_instance_domain (prq_domain parsed)) then (bad_request ''invalid_initiator_domain'', tbl)
       else if fails 0 then (internal_error, tbl)
       else if domain_taken (prq_domain parsed) (prq_pubkey parsed) tbl then (conflict ''domain_taken'', tbl)
       else case encode_text_array ser (prq_caps parsed) of
         None \<Rightarrow> (Panicked, tbl)
       | Some caps_cbor \<Rightarrow>
           if fails 1 then (internal_error, tbl)
           else case upsert (pending_inbound_row (prq_pubkey parsed) (prq_domain parsed) (prq_id parsed) caps_cbor now)
               (\<lambda>r. r\<lparr>pr_status := PeerPendingInbound, pr_direction := InboundDir, pr_domain := prq_domain parsed,
                      pr_request_id := prq_id parsed, pr_caps := Some caps_cbor, pr_last_handshake := Some now\<rparr>) tbl of
             None \<Rightarrow> (internal_error, tbl)
           | Some tbl' \<Rightarrow> (Accepted202 (prq_id parsed), tbl'))"

definition handle_peer_response ::
  "(cbor_value \<Rightarrow> bytes option) \<Rightarrow> (bytes \<Rightarrow> cbor_value option) \<Rightarrow> (nat \<Rightarrow> bool) \<Rightarrow> bytes \<Rightarrow> bytes \<Rightarrow> string
   \<Rightarrow> peers_table \<Rightarrow> peer_reply \<times> peers_table" where
  "handle_peer_response ser de fails sndr resp_body now tbl = (case response_decode de resp_body of
     None \<Rightarrow> (bad_request ''invalid_body'', tbl)
   | Some parsed \<Rightarrow>
       if prs_pubkey parsed \<noteq> sndr then (unauthorized, tbl)
       else if fails 0 then (internal_error, tbl)
       else case find (\<lambda>r. pr_request_id r = prs_id parsed \<and> pr_status r \<in> {PeerPendingOutbound, PeerActive}) tbl of
         None \<Rightarrow> (not_found ''unknown_request'', tbl)
       | Some row \<Rightarrow>
           if length (pr_pubkey row) \<noteq> 32 then (internal_error, tbl)
           else if pr_pubkey row \<noteq> prs_pubkey parsed then (unauthorized, tbl)
           else (case prs_decision parsed of
             AcceptPeer \<Rightarrow> (case encode_text_array ser (case prs_agreed parsed of Some c \<Rightarrow> c | None \<Rightarrow> []) of
               None \<Rightarrow> (Panicked, tbl)
             | Some agreed_cbor \<Rightarrow>
                 if fails 1 then (internal_error, tbl)
                 else (Ok200, update_where
                   (\<lambda>r. pr_request_id r = prs_id parsed \<and> pr_status r \<in> {PeerPendingOutbound, PeerActive})
                   (\<lambda>r. r\<lparr>pr_status := PeerActive, pr_agreed := Some agreed_cbor, pr_message := prs_message parsed,
                          pr_last_handshake := Some now\<rparr>) tbl))
           | RejectPeer \<Rightarrow>
               if fails 1 then (internal_error, tbl)
               else (Ok200, update_where (\<lambda>r. pr_request_id r = prs_id parsed \<and> pr_status r = PeerPendingOutbound)
                 (\<lambda>r. r\<lparr>pr_status := PeerRejected, pr_message := prs_message parsed, pr_last_handshake := Some now\<rparr>) tbl)))"

definition handle_peer_relationship_delete ::
  "(bytes \<Rightarrow> cbor_value option) \<Rightarrow> (nat \<Rightarrow> bool) \<Rightarrow> bytes \<Rightarrow> bytes \<Rightarrow> string \<Rightarrow> peers_table \<Rightarrow> peer_reply \<times> peers_table" where
  "handle_peer_relationship_delete de fails sndr del_body now tbl = (case delete_decode de del_body of
     None \<Rightarrow> (bad_request ''invalid_body'', tbl)
   | Some parsed \<Rightarrow>
       if length (prd_domain parsed) > MAX_DOMAIN_LEN \<or> (case prd_message parsed of Some msg \<Rightarrow> length msg > MAX_MESSAGE_LEN | None \<Rightarrow> False)
       then (bad_request ''invalid_body'', tbl)
       else if fails 0 then (internal_error, tbl)
       else case find (\<lambda>r. pr_pubkey r = sndr \<and> pr_status r = PeerActive) tbl of
         None \<Rightarrow> (unauthorized, tbl)
       | Some row \<Rightarrow>
           if prd_domain parsed \<noteq> pr_domain row then (bad_request ''invalid_body'', tbl)
           else if fails 1 then (internal_error, tbl)
           else (Ok200, update_where (\<lambda>r. pr_pubkey r = sndr \<and> pr_status r = PeerActive)
             (\<lambda>r. r\<lparr>pr_status := PeerTerminated, pr_termination := Some (reason_as_str (prd_reason parsed)),
                    pr_message := prd_message parsed, pr_last_handshake := Some now\<rparr>) tbl))"

text \<open>\<open>since_ms\<close> reads the stored date (\<open>iso8601_to_unix_ms\<close>, which calls \<open>chrono\<close>); an unreadable one is reported as 0.\<close>

definition peers_list_entry ::
  "(string \<Rightarrow> u64 option) \<Rightarrow> (bytes \<Rightarrow> cbor_value option) \<Rightarrow> peer_row \<Rightarrow> cbor_value" where
  "peers_list_entry since_ms de r =
     (let caps = (case Option.bind (case pr_agreed r of Some c \<Rightarrow> Some c | None \<Rightarrow> pr_caps r) (decode_text_array de) of
                    Some c \<Rightarrow> c | None \<Rightarrow> [])
      in VMap (text_entries
        [(''domain'', VText (pr_domain r)), (''instance_pubkey'', VBytes (pr_pubkey r)),
         (''since'', VUint (case since_ms (pr_first_seen r) of Some t \<Rightarrow> t | None \<Rightarrow> 0)),
         (''capabilities'', VArray (map VText caps))]))"

definition handle_peers_list ::
  "(string \<Rightarrow> u64 option) \<Rightarrow> (cbor_value \<Rightarrow> bytes option) \<Rightarrow> (bytes \<Rightarrow> cbor_value option) \<Rightarrow> (nat \<Rightarrow> bool) \<Rightarrow> peers_table
   \<Rightarrow> peer_reply + bytes" where
  "handle_peers_list since_ms ser de fails tbl =
     (if fails 0 then Inl internal_error
      else case encode_body ser [(''peers'', VArray (map (peers_list_entry since_ms de)
             (filter (\<lambda>r. pr_status r = PeerActive) tbl)))] of
        None \<Rightarrow> Inl Panicked | Some b \<Rightarrow> Inr b)"

text \<open>The lookup of the verification layer, and the termination route behind it.\<close>

definition known_peer :: "peers_table \<Rightarrow> bytes \<Rightarrow> bool option" where
  "known_peer tbl pk = Some (list_ex (\<lambda>r. pr_pubkey r = pk \<and> pr_status r = PeerActive) tbl)"

definition route_peer_relationship ::
  "(bytes \<Rightarrow> cbor_value option) \<Rightarrow> (nat \<Rightarrow> bool) \<Rightarrow> bytes \<Rightarrow> bytes \<Rightarrow> string \<Rightarrow> peers_table \<Rightarrow> peer_reply \<times> peers_table" where
  "route_peer_relationship de fails sndr del_body now tbl = (case check_sender KnownPeer (known_peer tbl) sndr of
     Inl Db \<Rightarrow> (internal_error, tbl)
   | Inl _ \<Rightarrow> (unauthorized, tbl)
   | Inr _ \<Rightarrow> handle_peer_relationship_delete de fails sndr del_body now tbl)"

section \<open>The table under updates\<close>

definition table_wf :: "peers_table \<Rightarrow> bool" where
  "table_wf tbl \<longleftrightarrow> unique_ok tbl \<and> (\<forall>r \<in> set tbl. length (pr_pubkey r) = 32 \<and> length (pr_request_id r) = 16)"

text \<open>An update of the status columns.\<close>

definition keeps_keys :: "(peer_row \<Rightarrow> peer_row) \<Rightarrow> bool" where
  "keeps_keys f \<longleftrightarrow> (\<forall>r. pr_pubkey (f r) = pr_pubkey r \<and> pr_domain (f r) = pr_domain r \<and> pr_request_id (f r) = pr_request_id r)"

lemma set_update_where: "set (update_where P f tbl) = f ` {r \<in> set tbl. P r} \<union> {r \<in> set tbl. \<not> P r}"
  by (auto simp: update_where_def)

lemma updated_row: "r \<in> set tbl \<Longrightarrow> P r \<Longrightarrow> f r \<in> set (update_where P f tbl)"
  by (simp add: set_update_where)

lemma update_where_keys:
  assumes "keeps_keys f"
  shows "map pr_pubkey (update_where P f tbl) = map pr_pubkey tbl" "map pr_domain (update_where P f tbl) = map pr_domain tbl"
    "map pr_request_id (update_where P f tbl) = map pr_request_id tbl"
  using assms by (simp_all add: update_where_def keeps_keys_def)

lemma update_where_wf: "keeps_keys f \<Longrightarrow> table_wf tbl \<Longrightarrow> table_wf (update_where P f tbl)"
proof -
  assume f: "keeps_keys f" and wf: "table_wf tbl"
  have "unique_ok (update_where P f tbl)" using wf unfolding table_wf_def unique_ok_def update_where_keys [OF f] by simp
  then show ?thesis using f wf by (auto simp: table_wf_def set_update_where keeps_keys_def)
qed

lemma distinct_mapD: "distinct (map f xs) \<Longrightarrow> x \<in> set xs \<Longrightarrow> y \<in> set xs \<Longrightarrow> f x = f y \<Longrightarrow> x = y"
  by (auto simp: distinct_map inj_on_def)

lemma row_unique:
  assumes "unique_ok tbl" "r \<in> set tbl" "r' \<in> set tbl"
  shows "pr_pubkey r = pr_pubkey r' \<Longrightarrow> r = r'" "pr_domain r = pr_domain r' \<Longrightarrow> r = r'"
    "pr_request_id r = pr_request_id r' \<Longrightarrow> r = r'"
proof -
  have d: "distinct (map pr_pubkey tbl)" "distinct (map pr_domain tbl)" "distinct (map pr_request_id tbl)"
    using assms(1) by (simp_all add: unique_ok_def)
  show "pr_pubkey r = pr_pubkey r' \<Longrightarrow> r = r'" by (rule distinct_mapD [OF d(1) assms(2,3)])
  show "pr_domain r = pr_domain r' \<Longrightarrow> r = r'" by (rule distinct_mapD [OF d(2) assms(2,3)])
  show "pr_request_id r = pr_request_id r' \<Longrightarrow> r = r'" by (rule distinct_mapD [OF d(3) assms(2,3)])
qed

lemma find_SomeD: "find P xs = Some x \<Longrightarrow> x \<in> set xs \<and> P x"
  by (auto simp: find_Some_iff)

lemma find_only:
  assumes "x \<in> set xs" "P x" "\<And>y. y \<in> set xs \<Longrightarrow> P y \<Longrightarrow> y = x"
  shows "find P xs = Some x"
proof (cases "find P xs")
  case None
  then show ?thesis using assms(1,2) by (simp add: find_None_iff)
next
  case (Some y)
  from find_SomeD [OF this] assms(3) have "y = x" by blast
  with Some show ?thesis by simp
qed

text \<open>A column stays distinct when one row gets a value that no other row has.\<close>

lemma distinct_update_one:
  assumes "distinct (map c xs)" "\<And>x y. x \<in> set xs \<Longrightarrow> y \<in> set xs \<Longrightarrow> P x \<Longrightarrow> P y \<Longrightarrow> x = y"
    and "\<And>x y. x \<in> set xs \<Longrightarrow> y \<in> set xs \<Longrightarrow> P x \<Longrightarrow> \<not> P y \<Longrightarrow> c (g x) \<noteq> c y"
  shows "distinct (map c (map (\<lambda>r. if P r then g r else r) xs))"
proof -
  have xs: "distinct xs" "inj_on c (set xs)" using assms(1) by (simp_all add: distinct_map)
  have "inj_on (\<lambda>r. c (if P r then g r else r)) (set xs)"
  proof (rule inj_onI)
    fix x y
    assume m: "x \<in> set xs" "y \<in> set xs" and eq: "c (if P x then g x else x) = c (if P y then g y else y)"
    show "x = y"
    proof (cases "P x"; cases "P y")
      assume "P x" "P y" then show ?thesis using assms(2) m by blast
    next
      assume "P x" "\<not> P y" then show ?thesis using assms(3) m eq by auto
    next
      assume "\<not> P x" "P y" then show ?thesis using assms(3) [of y x] m eq by auto
    next
      assume "\<not> P x" "\<not> P y" then show ?thesis using inj_onD [OF xs(2)] m eq by auto
    qed
  qed
  then show ?thesis using xs(1) by (simp add: distinct_map comp_def)
qed

text \<open>An upsert that respects the two unique indexes goes through and writes one row.\<close>

lemma upsert_Some:
  assumes wf: "unique_ok tbl" and pk: "pr_pubkey row = pk" "pr_request_id row = rid"
    and upd: "\<And>r. pr_pubkey (upd r) = pr_pubkey r" "\<And>r. pr_request_id (upd r) = rid"
      "\<And>r. pr_domain (upd r) = pr_domain r \<or> pr_domain (upd r) = pr_domain row"
    and free: "\<And>r. r \<in> set tbl \<Longrightarrow> pr_pubkey r \<noteq> pk \<Longrightarrow> pr_request_id r \<noteq> rid \<and> pr_domain r \<noteq> pr_domain row"
  shows "\<exists>tbl'. upsert row upd tbl = Some tbl' \<and> unique_ok tbl'"
proof (cases "list_ex (\<lambda>r. pr_pubkey r = pk) tbl")
  case True
  let ?P = "\<lambda>r. pr_pubkey r = pk"
  have one: "x = y" if "x \<in> set tbl" "y \<in> set tbl" "?P x" "?P y" for x y
    using row_unique(1) [OF wf that(1,2)] that(3,4) by simp
  have d: "distinct (map pr_pubkey tbl)" "distinct (map pr_domain tbl)" "distinct (map pr_request_id tbl)"
    using wf by (simp_all add: unique_ok_def)
  have dm: "pr_domain (upd x) \<noteq> pr_domain y" if "x \<in> set tbl" "y \<in> set tbl" "?P x" "\<not> ?P y" for x y
  proof -
    have "pr_domain x \<noteq> pr_domain y" using row_unique(2) [OF wf that(1,2)] that(3,4) by blast
    then show ?thesis using upd(3) [of x] free [OF that(2,4)] by metis
  qed
  have "distinct (map pr_pubkey (update_where ?P upd tbl))" unfolding update_where_def
    by (rule distinct_update_one [OF d(1)], erule (3) one) (simp add: upd(1))
  moreover have "distinct (map pr_domain (update_where ?P upd tbl))" unfolding update_where_def
    by (rule distinct_update_one [OF d(2)], erule (3) one, erule (3) dm)
  moreover have "distinct (map pr_request_id (update_where ?P upd tbl))" unfolding update_where_def
    by (rule distinct_update_one [OF d(3)], erule (3) one) (use free upd(2) in metis)
  ultimately have "unique_ok (update_where ?P upd tbl)" by (simp add: unique_ok_def)
  with True pk show ?thesis by (simp add: upsert_def)
next
  case False
  then have "\<forall>r \<in> set tbl. pr_pubkey r \<noteq> pk" by (auto simp: list_ex_iff)
  with free have "\<forall>r \<in> set tbl. pr_pubkey r \<noteq> pk \<and> pr_request_id r \<noteq> rid \<and> pr_domain r \<noteq> pr_domain row" by blast
  then have "pr_pubkey row \<notin> pr_pubkey ` set tbl" "pr_domain row \<notin> pr_domain ` set tbl" "pr_request_id row \<notin> pr_request_id ` set tbl"
    using pk by (metis imageE)+
  with wf have "unique_ok (tbl @ [row])" by (simp add: unique_ok_def)
  with False pk show ?thesis by (simp add: upsert_def)
qed

lemma upsert_rows:
  assumes "upsert row upd tbl = Some tbl'"
  shows "unique_ok tbl'"
    and "r' \<in> set tbl' \<Longrightarrow> r' = row \<or> (\<exists>r \<in> set tbl. if pr_pubkey r = pr_pubkey row then r' = upd r else r' = r)"
    and "\<exists>r' \<in> set tbl'. r' = row \<or> (\<exists>r \<in> set tbl. pr_pubkey r = pr_pubkey row \<and> r' = upd r)"
  using assms by (auto simp: upsert_def Let_def update_where_def list_ex_iff split: if_splits)

section \<open>What decoding guarantees\<close>

lemma fields_loop_inv:
  assumes "fields_loop field es acc = Some acc'" "I acc" "\<And>k v a a'. field k v a = Some a' \<Longrightarrow> I a \<Longrightarrow> I a'"
  shows "I acc'"
  using assms(1,2)
proof (induction es arbitrary: acc)
  case (Cons e es)
  obtain k v where e: "e = (k, v)" by (cases e)
  show ?case
  proof (cases k)
    case (VText t)
    with Cons.prems(1) obtain y where "field t v acc = Some y" "fields_loop field es y = Some acc'"
      by (auto simp: e bind_eq_Some_conv)
    with Cons.IH assms(3) Cons.prems(2) show ?thesis by blast
  qed (use Cons in \<open>simp_all add: e\<close>)
qed simp

lemma fixed_bytes_length: "fixed_bytes n v = Some b \<Longrightarrow> length b = n"
  by (auto simp: fixed_bytes_def split: cbor_value.splits if_splits)

lemma request_decode_lengths:
  assumes "request_decode de b = Some p"
  shows "length (prq_pubkey p) = 32" "length (prq_id p) = 16"
proof -
  let ?I = "\<lambda>a. pred_option (\<lambda>x. length x = 32) (rqa_pubkey a) \<and> pred_option (\<lambda>x. length x = 16) (rqa_id a)"
  from assms obtain es acc where l: "fields_loop request_field es request_start = Some acc" "request_finish acc = Some p"
    by (auto simp: request_decode_def decode_body_def bind_eq_Some_conv split: option.splits cbor_value.splits)
  have "?I acc"
    using l(1)
  proof (rule fields_loop_inv)
    show "?I request_start" by (simp add: request_start_def)
    fix k v a a'
    assume "request_field k v a = Some a'" "?I a"
    then show "?I a'" by (auto simp: request_field_def dest: fixed_bytes_length split: if_splits)
  qed
  with l(2) show "length (prq_pubkey p) = 32" "length (prq_id p) = 16"
    by (auto simp: request_finish_def bind_eq_Some_conv)
qed

section \<open>What each operation does to the table\<close>

definition outbound_upd :: "bytes \<Rightarrow> bytes \<Rightarrow> string \<Rightarrow> peer_row \<Rightarrow> peer_row" where
  "outbound_upd rid caps now r = r\<lparr>pr_status := PeerPendingOutbound, pr_direction := OutboundDir, pr_request_id := rid,
     pr_caps := Some caps, pr_last_handshake := Some now\<rparr>"

definition inbound_upd :: "string \<Rightarrow> bytes \<Rightarrow> bytes \<Rightarrow> string \<Rightarrow> peer_row \<Rightarrow> peer_row" where
  "inbound_upd d rid caps now r = r\<lparr>pr_status := PeerPendingInbound, pr_direction := InboundDir, pr_domain := d,
     pr_request_id := rid, pr_caps := Some caps, pr_last_handshake := Some now\<rparr>"

lemma initiate_table:
  assumes "operator_initiate_peer_request ser fails own_pk own_domain pk d caps intro rid now_ms now answer tbl = (res, sent, tbl')"
  shows "tbl' = tbl \<or> (\<exists>c. upsert (pending_outbound_row pk d rid c now) (outbound_upd rid c now) tbl = Some tbl')"
  using assms unfolding operator_initiate_peer_request_def outbound_upd_def [abs_def]
  by (auto split: if_splits option.splits sum.splits prod.splits)

lemma request_table:
  assumes "handle_peer_request ser de fails sndr b now tbl = (rep, tbl')"
  shows "tbl' = tbl \<or> (\<exists>p c. request_decode de b = Some p \<and> prq_pubkey p = sndr \<and>
    upsert (pending_inbound_row sndr (prq_domain p) (prq_id p) c now) (inbound_upd (prq_domain p) (prq_id p) c now) tbl = Some tbl')"
  using assms unfolding handle_peer_request_def inbound_upd_def [abs_def]
  by (auto split: if_splits option.splits)

definition set_status :: "peer_status \<Rightarrow> (peer_row \<Rightarrow> peer_row) \<Rightarrow> bool" where
  "set_status st f \<longleftrightarrow> keeps_keys f \<and> (\<forall>r. pr_status (f r) = st)"

lemma accept_table:
  assumes "operator_accept_peer_request ser de fails own_pk own_domain rid now_ms now answer tbl = (res, sent, tbl')"
  shows "tbl' = tbl \<or> (\<exists>row f. row \<in> set tbl \<and> pr_request_id row = rid \<and> pr_status row = PeerPendingInbound \<and> set_status PeerActive f \<and>
    tbl' = update_where (\<lambda>r. pr_request_id r = rid \<and> pr_status r \<in> {PeerPendingInbound, PeerActive}) f tbl)"
proof (cases "find (\<lambda>r. pr_request_id r = rid \<and> pr_status r = PeerPendingInbound) tbl")
  case None
  with assms show ?thesis by (auto simp: operator_accept_peer_request_def split: if_splits)
next
  case (Some row)
  have f: "set_status PeerActive (\<lambda>r. r\<lparr>pr_status := PeerActive, pr_agreed := a, pr_last_handshake := t\<rparr>)" for a t
    by (simp add: set_status_def keeps_keys_def)
  from find_SomeD [OF Some] Some assms f show ?thesis
    by (auto simp: operator_accept_peer_request_def Let_def split: if_splits option.splits sum.splits prod.splits)
qed

lemma terminate_table:
  assumes "operator_terminate_peer_relationship ser fails own_domain pk why msg now_ms now answer tbl = (res, sent, tbl')"
  shows "\<exists>P f. set_status PeerTerminated f \<and> tbl' = update_where P f tbl"
proof -
  have f: "set_status PeerTerminated (\<lambda>r. r\<lparr>pr_status := PeerTerminated, pr_termination := a, pr_last_handshake := t\<rparr>)" for a t
    by (simp add: set_status_def keeps_keys_def)
  have n: "update_where (\<lambda>_. False) g tbl = tbl" for g by (simp add: update_where_def)
  from assms f n show ?thesis
    unfolding operator_terminate_peer_relationship_def by (auto split: if_splits option.splits sum.splits) metis+
qed

lemma response_table:
  assumes "handle_peer_response ser de fails sndr b now tbl = (rep, tbl')"
  shows "tbl' = tbl \<or> (\<exists>row rid f. row \<in> set tbl \<and> pr_pubkey row = sndr \<and> pr_request_id row = rid \<and>
      pr_status row \<in> {PeerPendingOutbound, PeerActive} \<and>
      (set_status PeerActive f \<and> tbl' = update_where (\<lambda>r. pr_request_id r = rid \<and> pr_status r \<in> {PeerPendingOutbound, PeerActive}) f tbl \<or>
       set_status PeerRejected f \<and> tbl' = update_where (\<lambda>r. pr_request_id r = rid \<and> pr_status r = PeerPendingOutbound) f tbl))"
proof (cases "response_decode de b")
  case None
  with assms show ?thesis by (simp add: handle_peer_response_def)
next
  case (Some p)
  have f: "set_status PeerActive (\<lambda>r. r\<lparr>pr_status := PeerActive, pr_agreed := a, pr_message := m, pr_last_handshake := t\<rparr>)"
    "set_status PeerRejected (\<lambda>r. r\<lparr>pr_status := PeerRejected, pr_message := m, pr_last_handshake := t\<rparr>)" for a m t
    by (simp_all add: set_status_def keeps_keys_def)
  show ?thesis
  proof (cases "find (\<lambda>r. pr_request_id r = prs_id p \<and> pr_status r \<in> {PeerPendingOutbound, PeerActive}) tbl")
    case None
    with assms Some show ?thesis by (auto simp: handle_peer_response_def split: if_splits)
  next
    case row: (Some row)
    show ?thesis
    proof (cases "tbl' = tbl")
      case False
      then have "pr_pubkey row = sndr" using assms Some row by (auto simp: handle_peer_response_def split: if_splits)
      moreover have "row \<in> set tbl" "pr_request_id row = prs_id p" "pr_status row \<in> {PeerPendingOutbound, PeerActive}"
        using find_SomeD [OF row] by auto
      moreover have "\<exists>f. set_status PeerActive f \<and>
          tbl' = update_where (\<lambda>r. pr_request_id r = prs_id p \<and> pr_status r \<in> {PeerPendingOutbound, PeerActive}) f tbl \<or>
        set_status PeerRejected f \<and> tbl' = update_where (\<lambda>r. pr_request_id r = prs_id p \<and> pr_status r = PeerPendingOutbound) f tbl"
      proof (cases "prs_decision p")
        case AcceptPeer
        with False assms Some row obtain a where "tbl' = update_where
            (\<lambda>r. pr_request_id r = prs_id p \<and> pr_status r \<in> {PeerPendingOutbound, PeerActive})
            (\<lambda>r. r\<lparr>pr_status := PeerActive, pr_agreed := Some a, pr_message := prs_message p, pr_last_handshake := Some now\<rparr>) tbl"
          by (auto simp: handle_peer_response_def split: if_splits option.splits)
        with f(1) show ?thesis by blast
      next
        case RejectPeer
        with False assms Some row have "tbl' = update_where (\<lambda>r. pr_request_id r = prs_id p \<and> pr_status r = PeerPendingOutbound)
            (\<lambda>r. r\<lparr>pr_status := PeerRejected, pr_message := prs_message p, pr_last_handshake := Some now\<rparr>) tbl"
          by (auto simp: handle_peer_response_def split: if_splits option.splits)
        with f(2) show ?thesis by blast
      qed
      ultimately show ?thesis by blast
    qed simp
  qed
qed

lemma route_delete_eq:
  "route_peer_relationship de fails sndr b now tbl =
     (if list_ex (\<lambda>r. pr_pubkey r = sndr \<and> pr_status r = PeerActive) tbl
      then handle_peer_relationship_delete de fails sndr b now tbl else (unauthorized, tbl))"
  by (simp add: route_peer_relationship_def check_sender_def known_peer_def guard_def)

lemma delete_table:
  assumes "route_peer_relationship de fails sndr b now tbl = (rep, tbl')"
  shows "\<exists>P f. set_status PeerTerminated f \<and> tbl' = update_where P f tbl"
proof -
  have f: "set_status PeerTerminated (\<lambda>r. r\<lparr>pr_status := PeerTerminated, pr_termination := a, pr_message := m, pr_last_handshake := t\<rparr>)" for a m t
    by (simp add: set_status_def keeps_keys_def)
  have n: "tbl = update_where (\<lambda>_. False) g tbl" for g by (simp add: update_where_def)
  have "tbl' = tbl \<or> (\<exists>a m t P. tbl' = update_where P (\<lambda>r. r\<lparr>pr_status := PeerTerminated, pr_termination := a, pr_message := m, pr_last_handshake := t\<rparr>) tbl)"
    using assms unfolding route_delete_eq handle_peer_relationship_delete_def
    by (auto split: if_splits option.splits)
  with f n show ?thesis by metis
qed

section \<open>Histories\<close>

text \<open>An operation with its originator: a local operator (\<open>EvInitiate\<close> of a peer, \<open>EvAccept\<close> of a request id,
  \<open>EvTerminate\<close> of a peer) or the peer that signed the request.\<close>

datatype peer_event = EvInitiate bytes | EvAccept bytes | EvTerminate bytes | EvRequest bytes | EvResponse bytes | EvDelete bytes

inductive peer_step ::
  "(cbor_value \<Rightarrow> bytes option) \<Rightarrow> (bytes \<Rightarrow> cbor_value option) \<Rightarrow> peer_event \<Rightarrow> peers_table \<Rightarrow> peers_table \<Rightarrow> bool"
  for ser de where
  initiate: "length pk = 32 \<Longrightarrow> length rid = 16 \<Longrightarrow>
    operator_initiate_peer_request ser fails own_pk own_domain pk d caps intro rid now_ms now answer tbl = (res, sent, tbl')
    \<Longrightarrow> peer_step ser de (EvInitiate pk) tbl tbl'"
| accept: "operator_accept_peer_request ser de fails own_pk own_domain rid now_ms now answer tbl = (res, sent, tbl')
    \<Longrightarrow> peer_step ser de (EvAccept rid) tbl tbl'"
| terminate: "operator_terminate_peer_relationship ser fails own_domain pk why msg now_ms now answer tbl = (res, sent, tbl')
    \<Longrightarrow> peer_step ser de (EvTerminate pk) tbl tbl'"
| request: "handle_peer_request ser de fails sndr b now tbl = (rep, tbl') \<Longrightarrow> peer_step ser de (EvRequest sndr) tbl tbl'"
| response: "handle_peer_response ser de fails sndr b now tbl = (rep, tbl') \<Longrightarrow> peer_step ser de (EvResponse sndr) tbl tbl'"
| delete: "route_peer_relationship de fails sndr b now tbl = (rep, tbl') \<Longrightarrow> peer_step ser de (EvDelete sndr) tbl tbl'"

inductive peer_history ::
  "(cbor_value \<Rightarrow> bytes option) \<Rightarrow> (bytes \<Rightarrow> cbor_value option) \<Rightarrow> peer_event list \<Rightarrow> peers_table \<Rightarrow> bool" for ser de where
  start: "peer_history ser de [] []"
| extend: "peer_history ser de evs tbl \<Longrightarrow> peer_step ser de ev tbl tbl' \<Longrightarrow> peer_history ser de (evs @ [ev]) tbl'"

text \<open>What the history owes a row.\<close>

definition consented :: "peer_event list \<Rightarrow> peer_row \<Rightarrow> bool" where
  "consented evs r \<longleftrightarrow>
     (pr_status r = PeerPendingOutbound \<longrightarrow> EvInitiate (pr_pubkey r) \<in> set evs) \<and>
     (pr_status r = PeerPendingInbound \<longrightarrow> EvRequest (pr_pubkey r) \<in> set evs) \<and>
     (pr_status r = PeerActive \<longrightarrow>
        EvInitiate (pr_pubkey r) \<in> set evs \<and> EvResponse (pr_pubkey r) \<in> set evs \<or>
        EvRequest (pr_pubkey r) \<in> set evs \<and> EvAccept (pr_request_id r) \<in> set evs)"

lemma consented_mono: "consented evs r \<Longrightarrow> set evs \<subseteq> set evs2 \<Longrightarrow> consented evs2 r"
  by (auto simp: consented_def)

lemma consented_more: "consented evs r \<Longrightarrow> consented (evs @ evs2) r"
  by (erule consented_mono) simp

lemma consented_status:
  assumes "set_status st f" "st \<notin> {PeerPendingOutbound, PeerPendingInbound, PeerActive}" "\<forall>r \<in> set tbl. consented evs r"
  shows "\<forall>r \<in> set (update_where P f tbl). consented (evs @ evs2) r"
  using assms consented_more by (auto simp: set_update_where set_status_def consented_def)

lemma upsert_table_wf:
  assumes "table_wf tbl" "upsert row upd tbl = Some tbl'" "length (pr_pubkey row) = 32" "length (pr_request_id row) = 16"
    and "\<And>r. pr_pubkey (upd r) = pr_pubkey r" "\<And>r. pr_request_id (upd r) = pr_request_id row"
  shows "table_wf tbl'"
proof -
  have "length (pr_pubkey r) = 32 \<and> length (pr_request_id r) = 16" if "r \<in> set tbl'" for r
    using upsert_rows(2) [OF assms(2) that] assms by (auto simp: table_wf_def split: if_splits)
  with upsert_rows(1) [OF assms(2)] show ?thesis by (simp add: table_wf_def)
qed

lemma upsert_consented:
  assumes "upsert row upd tbl = Some tbl'" "\<forall>r \<in> set tbl. consented evs r" "consented evs' row"
    and "\<And>r. r \<in> set tbl \<Longrightarrow> pr_pubkey r = pr_pubkey row \<Longrightarrow> consented evs' (upd r)" "set evs \<subseteq> set evs'"
  shows "\<forall>r \<in> set tbl'. consented evs' r"
proof
  fix r'
  assume "r' \<in> set tbl'"
  from upsert_rows(2) [OF assms(1) this] show "consented evs' r'"
  proof
    assume "\<exists>r \<in> set tbl. if pr_pubkey r = pr_pubkey row then r' = upd r else r' = r"
    then obtain r where r: "r \<in> set tbl" "if pr_pubkey r = pr_pubkey row then r' = upd r else r' = r" ..
    show ?thesis
    proof (cases "pr_pubkey r = pr_pubkey row")
      case True
      with r assms(4) show ?thesis by simp
    next
      case False
      with r assms(2) show ?thesis using consented_mono [OF _ assms(5)] by simp
    qed
  qed (use assms(3) in simp)
qed

lemma peer_step_inv:
  assumes "peer_step ser de ev tbl tbl'" "table_wf tbl" "\<forall>r \<in> set tbl. consented evs r"
  shows "table_wf tbl' \<and> (\<forall>r \<in> set tbl'. consented (evs @ [ev]) r)"
  using assms
proof (induction rule: peer_step.induct)
  case (initiate pk rid fails own_pk own_domain d caps intro now_ms now answer tbl res sent tbl')
  from initiate_table [OF initiate(3)] show ?case
  proof
    assume "\<exists>c. upsert (pending_outbound_row pk d rid c now) (outbound_upd rid c now) tbl = Some tbl'"
    then obtain c where u: "upsert (pending_outbound_row pk d rid c now) (outbound_upd rid c now) tbl = Some tbl'" ..
    have "table_wf tbl'"
      by (rule upsert_table_wf [OF initiate.prems(1) u]) (use initiate.hyps in \<open>simp_all add: pending_outbound_row_def outbound_upd_def\<close>)
    moreover have "\<forall>r \<in> set tbl'. consented (evs @ [EvInitiate pk]) r"
      by (rule upsert_consented [OF u initiate.prems(2)]) (auto simp: pending_outbound_row_def outbound_upd_def consented_def)
    ultimately show ?thesis by blast
  qed (use initiate.prems consented_more in blast)
next
  case (request fails sndr b now tbl rep tbl')
  from request_table [OF request(1)] show ?case
  proof
    assume "\<exists>p c. request_decode de b = Some p \<and> prq_pubkey p = sndr \<and>
      upsert (pending_inbound_row sndr (prq_domain p) (prq_id p) c now) (inbound_upd (prq_domain p) (prq_id p) c now) tbl = Some tbl'"
    then obtain p c where p: "request_decode de b = Some p" "prq_pubkey p = sndr"
      and u: "upsert (pending_inbound_row sndr (prq_domain p) (prq_id p) c now) (inbound_upd (prq_domain p) (prq_id p) c now) tbl = Some tbl'"
      by blast
    have "table_wf tbl'"
      by (rule upsert_table_wf [OF request.prems(1) u])
        (use request_decode_lengths [OF p(1)] p(2) in \<open>simp_all add: pending_inbound_row_def inbound_upd_def\<close>)
    moreover have "\<forall>r \<in> set tbl'. consented (evs @ [EvRequest sndr]) r"
      by (rule upsert_consented [OF u request.prems(2)]) (auto simp: pending_inbound_row_def inbound_upd_def consented_def)
    ultimately show ?thesis by blast
  qed (use request.prems consented_more in blast)
next
  case (accept fails own_pk own_domain rid now_ms now answer tbl res sent tbl')
  from accept_table [OF accept(1)] show ?case
  proof
    assume "\<exists>row f. row \<in> set tbl \<and> pr_request_id row = rid \<and> pr_status row = PeerPendingInbound \<and> set_status PeerActive f \<and>
      tbl' = update_where (\<lambda>r. pr_request_id r = rid \<and> pr_status r \<in> {PeerPendingInbound, PeerActive}) f tbl"
    then obtain row f where row: "row \<in> set tbl" "pr_request_id row = rid" "pr_status row = PeerPendingInbound" and f: "set_status PeerActive f"
      and t: "tbl' = update_where (\<lambda>r. pr_request_id r = rid \<and> pr_status r \<in> {PeerPendingInbound, PeerActive}) f tbl" by blast
    have only: "r = row" if "r \<in> set tbl" "pr_request_id r = rid" for r
      using row_unique(3) [of tbl r row] accept.prems(1) row that by (simp add: table_wf_def)
    have "consented evs row" using accept.prems(2) row(1) by blast
    then have "consented (evs @ [EvAccept rid]) (f row)" using f row by (auto simp: consented_def set_status_def keeps_keys_def)
    then have "\<forall>r \<in> set tbl'. consented (evs @ [EvAccept rid]) r"
      unfolding t set_update_where using only accept.prems(2) consented_more by blast
    moreover have "table_wf tbl'" unfolding t using update_where_wf f accept.prems(1) by (simp add: set_status_def)
    ultimately show ?thesis by blast
  qed (use accept.prems consented_more in blast)
next
  case (response fails sndr b now tbl rep tbl')
  from response_table [OF response(1)] show ?case
  proof
    assume "\<exists>row rid f. row \<in> set tbl \<and> pr_pubkey row = sndr \<and> pr_request_id row = rid \<and>
      pr_status row \<in> {PeerPendingOutbound, PeerActive} \<and>
      (set_status PeerActive f \<and> tbl' = update_where (\<lambda>r. pr_request_id r = rid \<and> pr_status r \<in> {PeerPendingOutbound, PeerActive}) f tbl \<or>
       set_status PeerRejected f \<and> tbl' = update_where (\<lambda>r. pr_request_id r = rid \<and> pr_status r = PeerPendingOutbound) f tbl)"
    then obtain row rid f where row: "row \<in> set tbl" "pr_pubkey row = sndr" "pr_request_id row = rid"
        "pr_status row \<in> {PeerPendingOutbound, PeerActive}"
      and f: "set_status PeerActive f \<and> tbl' = update_where (\<lambda>r. pr_request_id r = rid \<and> pr_status r \<in> {PeerPendingOutbound, PeerActive}) f tbl \<or>
        set_status PeerRejected f \<and> tbl' = update_where (\<lambda>r. pr_request_id r = rid \<and> pr_status r = PeerPendingOutbound) f tbl" by blast
    have only: "r = row" if "r \<in> set tbl" "pr_request_id r = rid" for r
      using row_unique(3) [of tbl r row] response.prems(1) row that by (simp add: table_wf_def)
    have c: "consented evs row" using response.prems(2) row(1) by blast
    from f show ?thesis
    proof
      assume a: "set_status PeerActive f \<and> tbl' = update_where (\<lambda>r. pr_request_id r = rid \<and> pr_status r \<in> {PeerPendingOutbound, PeerActive}) f tbl"
      have "consented (evs @ [EvResponse sndr]) (f row)" using a c row by (auto simp: consented_def set_status_def keeps_keys_def)
      then have "\<forall>r \<in> set tbl'. consented (evs @ [EvResponse sndr]) r"
        using a only response.prems(2) consented_more by (auto simp: set_update_where)
      moreover have "table_wf tbl'" using a update_where_wf response.prems(1) by (simp add: set_status_def)
      ultimately show ?thesis by blast
    next
      assume a: "set_status PeerRejected f \<and> tbl' = update_where (\<lambda>r. pr_request_id r = rid \<and> pr_status r = PeerPendingOutbound) f tbl"
      then show ?thesis using consented_status [of PeerRejected f tbl evs] update_where_wf response.prems by (simp add: set_status_def)
    qed
  qed (use response.prems consented_more in blast)
next
  case (terminate fails own_domain pk why msg now_ms now answer tbl res sent tbl')
  from terminate_table [OF terminate(1)] obtain P f where "set_status PeerTerminated f" "tbl' = update_where P f tbl" by blast
  then show ?case using consented_status [of PeerTerminated f tbl evs] update_where_wf terminate.prems by (simp add: set_status_def)
next
  case (delete fails sndr b now tbl rep tbl')
  from delete_table [OF delete(1)] obtain P f where "set_status PeerTerminated f" "tbl' = update_where P f tbl" by blast
  then show ?case using consented_status [of PeerTerminated f tbl evs] update_where_wf delete.prems by (simp add: set_status_def)
qed

lemma history_inv: "peer_history ser de evs tbl \<Longrightarrow> table_wf tbl \<and> (\<forall>r \<in> set tbl. consented evs r)"
proof (induction rule: peer_history.induct)
  case start
  show ?case by (simp add: table_wf_def unique_ok_def)
next
  case (extend evs tbl ev tbl')
  then show ?case using peer_step_inv by blast
qed



section \<open>The handshake completes\<close>

lemma upd_lambdas:
  "(\<lambda>r. r\<lparr>pr_status := PeerPendingOutbound, pr_direction := OutboundDir, pr_request_id := rid,
     pr_caps := Some c, pr_last_handshake := Some now\<rparr>) = outbound_upd rid c now"
  "(\<lambda>r. r\<lparr>pr_status := PeerPendingInbound, pr_direction := InboundDir, pr_domain := d, pr_request_id := rid,
     pr_caps := Some c, pr_last_handshake := Some now\<rparr>) = inbound_upd d rid c now"
  by (simp_all add: outbound_upd_def inbound_upd_def fun_eq_iff)

text \<open>A table in which a peer may be recorded under a request id and a domain.\<close>

definition recordable :: "peers_table \<Rightarrow> bytes \<Rightarrow> string \<Rightarrow> bytes \<Rightarrow> bool" where
  "recordable tbl pk d rid \<longleftrightarrow> unique_ok tbl \<and>
     (\<forall>r \<in> set tbl. pr_pubkey r \<noteq> pk \<longrightarrow> pr_request_id r \<noteq> rid \<and> pr_domain r \<noteq> d)"

lemma recordable_free: "recordable tbl pk d rid \<Longrightarrow> \<not> domain_taken d pk tbl"
  by (auto simp: recordable_def domain_taken_def list_ex_iff)

lemma upsert_outbound:
  assumes "recordable tbl pk d rid"
  obtains tbl' r where "upsert (pending_outbound_row pk d rid c now) (outbound_upd rid c now) tbl = Some tbl'" "unique_ok tbl'"
    "r \<in> set tbl'" "pr_pubkey r = pk" "pr_request_id r = rid" "pr_status r = PeerPendingOutbound"
proof -
  have "\<exists>tbl'. upsert (pending_outbound_row pk d rid c now) (outbound_upd rid c now) tbl = Some tbl' \<and> unique_ok tbl'"
    by (rule upsert_Some) (use assms in \<open>auto simp: recordable_def pending_outbound_row_def outbound_upd_def\<close>)
  then obtain tbl' where t: "upsert (pending_outbound_row pk d rid c now) (outbound_upd rid c now) tbl = Some tbl'" "unique_ok tbl'" by blast
  from upsert_rows(3) [OF t(1)] show thesis using that [OF t] by (auto simp: pending_outbound_row_def outbound_upd_def)
qed

lemma upsert_inbound:
  assumes "recordable tbl pk d rid"
  obtains tbl' r where "upsert (pending_inbound_row pk d rid c now) (inbound_upd d rid c now) tbl = Some tbl'" "unique_ok tbl'"
    "r \<in> set tbl'" "pr_pubkey r = pk" "pr_request_id r = rid" "pr_status r = PeerPendingInbound" "pr_caps r = Some c" "pr_domain r = d"
proof -
  have "\<exists>tbl'. upsert (pending_inbound_row pk d rid c now) (inbound_upd d rid c now) tbl = Some tbl' \<and> unique_ok tbl'"
    by (rule upsert_Some) (use assms in \<open>auto simp: recordable_def pending_inbound_row_def inbound_upd_def\<close>)
  then obtain tbl' where t: "upsert (pending_inbound_row pk d rid c now) (inbound_upd d rid c now) tbl = Some tbl'" "unique_ok tbl'" by blast
  from upsert_rows(3) [OF t(1)] show thesis using that [OF t] by (auto simp: pending_inbound_row_def inbound_upd_def)
qed

lemma find_request:
  assumes "unique_ok tbl" "r \<in> set tbl" "pr_request_id r = rid" "Q r"
  shows "find (\<lambda>x. pr_request_id x = rid \<and> Q x) tbl = Some r"
proof (rule find_only [OF assms(2)])
  fix y
  assume "y \<in> set tbl" "pr_request_id y = rid \<and> Q y"
  then show "y = r" by (intro row_unique(3) [OF assms(1) _ assms(2)]) (simp_all add: assms(3))
qed (simp add: assms(3,4))

text \<open>An instance and what its configuration must satisfy.\<close>

definition instance_ok :: "bytes \<Rightarrow> string \<Rightarrow> bool" where
  "instance_ok pk d \<longleftrightarrow> length pk = 32 \<and> rust_string d \<and> \<not> isl (parse_instance_domain d)"

lemma initiate_sends:
  assumes "cbor_codec ser de" "instance_ok pkA dA" "instance_ok pkB dB" "pkA \<noteq> pkB" "length rid = 16"
    and "length caps < 2 ^ 64" "list_all rust_string caps" "pred_option rust_string intro" "recordable tA pkB dB rid"
  obtains req tA1 r where
    "operator_initiate_peer_request ser (\<lambda>_. False) pkA dA pkB dB caps intro rid m1 n1 answer tA =
       ((case answer of Inl e \<Rightarrow> Inl (InitTransport e) | Inr st \<Rightarrow> if st \<noteq> 202 \<and> st \<noteq> 200 then Inl (UnexpectedStatus st) else Inr rid),
        Some req, tA1)"
    "request_decode de req = Some \<lparr>prq_domain = dA, prq_pubkey = pkA, prq_caps = caps, prq_intro = intro, prq_id = rid, prq_created = m1\<rparr>"
    "unique_ok tA1" "r \<in> set tA1" "pr_pubkey r = pkB" "pr_request_id r = rid" "pr_status r = PeerPendingOutbound"
proof -
  let ?b = "\<lparr>prq_domain = dA, prq_pubkey = pkA, prq_caps = caps, prq_intro = intro, prq_id = rid, prq_created = m1\<rparr>"
  have "request_ok ?b" using assms by (simp add: request_ok_def instance_ok_def)
  from request.round_trip [OF assms(1) this] obtain req where req: "request_encode ser ?b = Some req" "request_decode de req = Some ?b"
    by (auto simp: request_encode_def request_decode_def)
  from text_array_round_trip [OF assms(1,6,7)] obtain c where c: "encode_text_array ser caps = Some c" by blast
  from assms(9) obtain tA1 r where u: "upsert (pending_outbound_row pkB dB rid c n1) (outbound_upd rid c n1) tA = Some tA1" "unique_ok tA1"
    "r \<in> set tA1" "pr_pubkey r = pkB" "pr_request_id r = rid" "pr_status r = PeerPendingOutbound" by (rule upsert_outbound)
  show thesis
  proof (rule that [OF _ req(2) u(2-)])
    show "operator_initiate_peer_request ser (\<lambda>_. False) pkA dA pkB dB caps intro rid m1 n1 answer tA =
       ((case answer of Inl e \<Rightarrow> Inl (InitTransport e) | Inr st \<Rightarrow> if st \<noteq> 202 \<and> st \<noteq> 200 then Inl (UnexpectedStatus st) else Inr rid),
        Some req, tA1)"
      using assms(3,4) recordable_free [OF assms(9)] req(1) c u(1)
      by (auto simp: operator_initiate_peer_request_def upd_lambdas instance_ok_def split: sum.splits)
  qed
qed

lemma request_recorded:
  assumes "cbor_codec ser de" "instance_ok pkA dA" "length caps < 2 ^ 64" "list_all rust_string caps" "recordable tB pkA dA rid"
    and "request_decode de req = Some \<lparr>prq_domain = dA, prq_pubkey = pkA, prq_caps = caps, prq_intro = intro, prq_id = rid, prq_created = m1\<rparr>"
  obtains tB1 r c where "handle_peer_request ser de (\<lambda>_. False) pkA req n2 tB = (Accepted202 rid, tB1)"
    "unique_ok tB1" "r \<in> set tB1" "pr_pubkey r = pkA" "pr_request_id r = rid" "pr_status r = PeerPendingInbound"
    "pr_caps r = Some c" "decode_text_array de c = Some caps" "pr_domain r = dA"
proof -
  from text_array_round_trip [OF assms(1,3,4)] obtain c where c: "encode_text_array ser caps = Some c" "decode_text_array de c = Some caps" by blast
  from assms(5) obtain tB1 r where u: "upsert (pending_inbound_row pkA dA rid c n2) (inbound_upd dA rid c n2) tB = Some tB1" "unique_ok tB1"
    "r \<in> set tB1" "pr_pubkey r = pkA" "pr_request_id r = rid" "pr_status r = PeerPendingInbound" "pr_caps r = Some c" "pr_domain r = dA"
    by (rule upsert_inbound)
  have "handle_peer_request ser de (\<lambda>_. False) pkA req n2 tB = (Accepted202 rid, tB1)"
    using assms(2,6) recordable_free [OF assms(5)] c(1) u(1) by (simp add: handle_peer_request_def upd_lambdas instance_ok_def)
  then show thesis by (rule that [OF _ u(2-7) c(2) u(8)])
qed

lemma accept_sends:
  assumes "cbor_codec ser de" "instance_ok pkB dB" "length rid = 16" "unique_ok tB1" "r \<in> set tB1" "length (pr_pubkey r) = 32"
    "pr_request_id r = rid" "pr_status r = PeerPendingInbound" "pr_caps r = Some c" "decode_text_array de c = Some caps"
  obtains resp agreed where
    "encode_text_array ser (intersect_caps CAPABILITIES caps) = Some agreed"
    "response_decode de resp = Some (accept_body rid dB pkB (intersect_caps CAPABILITIES caps) m2)"
    "operator_accept_peer_request ser de (\<lambda>_. False) pkB dB rid m2 n3 (Inr 200) tB1 =
      (Inr (), Some resp, update_where (\<lambda>x. pr_request_id x = rid \<and> pr_status x \<in> {PeerPendingInbound, PeerActive})
         (\<lambda>x. x\<lparr>pr_status := PeerActive, pr_agreed := Some agreed, pr_last_handshake := Some n3\<rparr>) tB1)"
    "\<And>st. st \<noteq> 200 \<Longrightarrow> operator_accept_peer_request ser de (\<lambda>_. False) pkB dB rid m2 n3 (Inr st) tB1 =
      (Inl (UnexpectedStatus st), Some resp, tB1)"
proof -
  let ?a = "intersect_caps CAPABILITIES caps"
  have a: "length ?a < 2 ^ 64" "list_all rust_string ?a"
    unfolding intersect_caps_def using le_less_trans [OF length_filter_le caps_rust(2)] caps_rust(1)
    by (auto simp: list_all_iff)
  from text_array_round_trip [OF assms(1) a] obtain agreed where g: "encode_text_array ser ?a = Some agreed" by blast
  have "response_ok (accept_body rid dB pkB ?a m2)" using a assms(2,3) by (simp add: response_ok_def accept_body_def instance_ok_def)
  from response.round_trip [OF assms(1) this] obtain resp where resp:
    "response_encode ser (accept_body rid dB pkB ?a m2) = Some resp" "response_decode de resp = Some (accept_body rid dB pkB ?a m2)"
    by (auto simp: response_encode_def response_decode_def)
  have f: "find (\<lambda>x. pr_request_id x = rid \<and> pr_status x = PeerPendingInbound) tB1 = Some r"
    using find_request [OF assms(4,5,7)] assms(8) by simp
  show thesis
    by (rule that [OF g resp(2)]) (use f g resp(1) assms(6,9,10) in \<open>simp_all add: operator_accept_peer_request_def Let_def\<close>)
qed

lemma handshake_runs:
  assumes "cbor_codec ser de" "instance_ok pkA dA" "instance_ok pkB dB" "pkA \<noteq> pkB" "length rid = 16"
    and "length caps < 2 ^ 64" "list_all rust_string caps" "pred_option rust_string intro"
    and "recordable tA pkB dB rid" "recordable tB pkA dA rid"
  shows "\<exists>req resp tA1 tA2 tB1 tB2 agreed.
    operator_initiate_peer_request ser (\<lambda>_. False) pkA dA pkB dB caps intro rid m1 n1 (Inr 202) tA = (Inr rid, Some req, tA1) \<and>
    handle_peer_request ser de (\<lambda>_. False) pkA req n2 tB = (Accepted202 rid, tB1) \<and>
    operator_accept_peer_request ser de (\<lambda>_. False) pkB dB rid m2 n3 (Inr 200) tB1 = (Inr (), Some resp, tB2) \<and>
    handle_peer_response ser de (\<lambda>_. False) pkB resp n4 tA1 = (Ok200, tA2) \<and>
    encode_text_array ser (intersect_caps CAPABILITIES caps) = Some agreed \<and>
    (\<exists>r \<in> set tA2. pr_pubkey r = pkB \<and> pr_status r = PeerActive \<and> pr_agreed r = Some agreed) \<and>
    (\<exists>r \<in> set tB2. pr_pubkey r = pkA \<and> pr_status r = PeerActive \<and> pr_agreed r = Some agreed)"
proof -
  from initiate_sends [OF assms(1-9), of m1 n1 "Inr 202"] obtain req tA1 rA where
    A: "operator_initiate_peer_request ser (\<lambda>_. False) pkA dA pkB dB caps intro rid m1 n1 (Inr 202) tA = (Inr rid, Some req, tA1)"
    "request_decode de req = Some \<lparr>prq_domain = dA, prq_pubkey = pkA, prq_caps = caps, prq_intro = intro, prq_id = rid, prq_created = m1\<rparr>"
    "unique_ok tA1" "rA \<in> set tA1" "pr_pubkey rA = pkB" "pr_request_id rA = rid" "pr_status rA = PeerPendingOutbound" by auto
  from request_recorded [OF assms(1,2,6,7,10) A(2), of n2] obtain tB1 rB c where
    B: "handle_peer_request ser de (\<lambda>_. False) pkA req n2 tB = (Accepted202 rid, tB1)"
    "unique_ok tB1" "rB \<in> set tB1" "pr_pubkey rB = pkA" "pr_request_id rB = rid" "pr_status rB = PeerPendingInbound"
    "pr_caps rB = Some c" "decode_text_array de c = Some caps" .
  have lens: "length (pr_pubkey rB) = 32" "length pkB = 32" using B(4) assms(2,3) by (simp_all add: instance_ok_def)
  from accept_sends [OF assms(1,3,5) B(2,3) lens(1) B(5-8), of m2 n3] obtain resp agreed where
    C: "encode_text_array ser (intersect_caps CAPABILITIES caps) = Some agreed"
    "response_decode de resp = Some (accept_body rid dB pkB (intersect_caps CAPABILITIES caps) m2)"
    "operator_accept_peer_request ser de (\<lambda>_. False) pkB dB rid m2 n3 (Inr 200) tB1 =
      (Inr (), Some resp, update_where (\<lambda>x. pr_request_id x = rid \<and> pr_status x \<in> {PeerPendingInbound, PeerActive})
         (\<lambda>x. x\<lparr>pr_status := PeerActive, pr_agreed := Some agreed, pr_last_handshake := Some n3\<rparr>) tB1)" .
  let ?tB2 = "update_where (\<lambda>x. pr_request_id x = rid \<and> pr_status x \<in> {PeerPendingInbound, PeerActive})
         (\<lambda>x. x\<lparr>pr_status := PeerActive, pr_agreed := Some agreed, pr_last_handshake := Some n3\<rparr>) tB1"
  let ?tA2 = "update_where (\<lambda>x. pr_request_id x = rid \<and> pr_status x \<in> {PeerPendingOutbound, PeerActive})
         (\<lambda>x. x\<lparr>pr_status := PeerActive, pr_agreed := Some agreed, pr_message := None, pr_last_handshake := Some n4\<rparr>) tA1"
  have "find (\<lambda>x. pr_request_id x = rid \<and> pr_status x \<in> {PeerPendingOutbound, PeerActive}) tA1 = Some rA"
    using find_request [OF A(3,4,6)] A(7) by simp
  then have D: "handle_peer_response ser de (\<lambda>_. False) pkB resp n4 tA1 = (Ok200, ?tA2)"
    using C(1,2) A(5) lens(2) by (simp add: handle_peer_response_def accept_body_def)
  have "\<exists>r \<in> set ?tA2. pr_pubkey r = pkB \<and> pr_status r = PeerActive \<and> pr_agreed r = Some agreed"
    using A(5-7) by (intro bexI [OF _ updated_row [OF A(4)]]) simp_all
  moreover have "\<exists>r \<in> set ?tB2. pr_pubkey r = pkA \<and> pr_status r = PeerActive \<and> pr_agreed r = Some agreed"
    using B(4-6) by (intro bexI [OF _ updated_row [OF B(3)]]) simp_all
  ultimately show ?thesis using A(1) B(1) C(1,3) D by blast
qed

text \<open>C15. A peering that both operators want comes into being: from any two tables that can record the other side
  under a fresh request id, when nothing fails, initiating, receiving, accepting and receiving the callback
  all succeed with the statuses the senders wait for, and end with both rows active and the same agreed
  capabilities, the ones both sides support.\<close>

theorem handshake_completes:
  assumes "cbor_codec ser de" "instance_ok pkA dA" "instance_ok pkB dB" "pkA \<noteq> pkB" "length rid = 16"
    and "length caps < 2 ^ 64" "list_all rust_string caps" "pred_option rust_string intro"
    and "recordable tA pkB dB rid" "recordable tB pkA dA rid"
  shows "\<exists>req resp tA1 tA2 tB1 tB2 agreed.
    operator_initiate_peer_request ser (\<lambda>_. False) pkA dA pkB dB caps intro rid m1 n1 (Inr 202) tA = (Inr rid, Some req, tA1) \<and>
    handle_peer_request ser de (\<lambda>_. False) pkA req n2 tB = (Accepted202 rid, tB1) \<and>
    operator_accept_peer_request ser de (\<lambda>_. False) pkB dB rid m2 n3 (Inr 200) tB1 = (Inr (), Some resp, tB2) \<and>
    handle_peer_response ser de (\<lambda>_. False) pkB resp n4 tA1 = (Ok200, tA2) \<and>
    encode_text_array ser (intersect_caps CAPABILITIES caps) = Some agreed \<and>
    (\<exists>r \<in> set tA2. pr_pubkey r = pkB \<and> pr_status r = PeerActive \<and> pr_agreed r = Some agreed) \<and>
    (\<exists>r \<in> set tB2. pr_pubkey r = pkA \<and> pr_status r = PeerActive \<and> pr_agreed r = Some agreed)"
  using assms by (rule handshake_runs)

text \<open>Two fresh instances.\<close>

definition demo_pk :: "u8 \<Rightarrow> bytes" where
  "demo_pk n = replicate 32 n"

definition demo_domain :: "u8 \<Rightarrow> string" where
  "demo_domain n = (if n = 1 then ''a.example'' else ''b.example'')"

lemma demo_instance_ok: "instance_ok (demo_pk 1) (demo_domain 1)" "instance_ok (demo_pk 2) (demo_domain 2)"
  unfolding instance_ok_def demo_pk_def demo_domain_def by (simp_all add: key_rust, code_simp+)

lemma demo_recordable: "recordable [] pk d rid"
  by (simp add: recordable_def unique_ok_def)

theorem handshake_completes_witness:
  "\<exists>req resp tA1 tA2 tB1 tB2 agreed.
    operator_initiate_peer_request rfc_ser (\<lambda>_. False) (demo_pk 1) (demo_domain 1) (demo_pk 2) (demo_domain 2) [''edge-sync''] None
      (replicate 16 9) 5 ''t1'' (Inr 202) [] = (Inr (replicate 16 9), Some req, tA1) \<and>
    handle_peer_request rfc_ser rfc_de (\<lambda>_. False) (demo_pk 1) req ''t2'' [] = (Accepted202 (replicate 16 9), tB1) \<and>
    operator_accept_peer_request rfc_ser rfc_de (\<lambda>_. False) (demo_pk 2) (demo_domain 2) (replicate 16 9) 6 ''t3'' (Inr 200) tB1 =
      (Inr (), Some resp, tB2) \<and>
    handle_peer_response rfc_ser rfc_de (\<lambda>_. False) (demo_pk 2) resp ''t4'' tA1 = (Ok200, tA2) \<and>
    encode_text_array rfc_ser (intersect_caps CAPABILITIES [''edge-sync'']) = Some agreed \<and>
    (\<exists>r \<in> set tA2. pr_pubkey r = demo_pk 2 \<and> pr_status r = PeerActive \<and> pr_agreed r = Some agreed) \<and>
    (\<exists>r \<in> set tB2. pr_pubkey r = demo_pk 1 \<and> pr_status r = PeerActive \<and> pr_agreed r = Some agreed)"
  by (rule handshake_completes [OF rfc.cbor_codec_axioms demo_instance_ok _ _ _ _ _ demo_recordable demo_recordable])
    (simp_all add: demo_pk_def key_rust)

lemma demo_history:
  "\<exists>tbl. peer_history rfc_ser rfc_de [EvInitiate (demo_pk 2), EvResponse (demo_pk 2)] tbl \<and> (\<exists>r \<in> set tbl. pr_status r = PeerActive)"
proof -
  have l: "length (demo_pk 2) = 32" "length (replicate 16 (9 :: u8)) = 16" by (simp_all add: demo_pk_def)
  have "\<exists>req resp tA1 tA2 tB1 tB2 agreed.
    operator_initiate_peer_request rfc_ser (\<lambda>_. False) (demo_pk 1) (demo_domain 1) (demo_pk 2) (demo_domain 2) [''edge-sync''] None
      (replicate 16 9) 5 ''t1'' (Inr 202) [] = (Inr (replicate 16 9), Some req, tA1) \<and>
    handle_peer_request rfc_ser rfc_de (\<lambda>_. False) (demo_pk 1) req ''t2'' [] = (Accepted202 (replicate 16 9), tB1) \<and>
    operator_accept_peer_request rfc_ser rfc_de (\<lambda>_. False) (demo_pk 2) (demo_domain 2) (replicate 16 9) 6 ''t3'' (Inr 200) tB1 =
      (Inr (), Some resp, tB2) \<and>
    handle_peer_response rfc_ser rfc_de (\<lambda>_. False) (demo_pk 2) resp ''t4'' tA1 = (Ok200, tA2) \<and>
    encode_text_array rfc_ser (intersect_caps CAPABILITIES [''edge-sync'']) = Some agreed \<and>
    (\<exists>r \<in> set tA2. pr_pubkey r = demo_pk 2 \<and> pr_status r = PeerActive \<and> pr_agreed r = Some agreed) \<and>
    (\<exists>r \<in> set tB2. pr_pubkey r = demo_pk 1 \<and> pr_status r = PeerActive \<and> pr_agreed r = Some agreed)"
    by (rule handshake_runs [OF rfc.cbor_codec_axioms demo_instance_ok _ _ _ _ _ demo_recordable demo_recordable])
      (simp_all add: demo_pk_def key_rust)
  then obtain req resp tA1 tA2 where
    i: "operator_initiate_peer_request rfc_ser (\<lambda>_. False) (demo_pk 1) (demo_domain 1) (demo_pk 2) (demo_domain 2) [''edge-sync''] None
      (replicate 16 9) 5 ''t1'' (Inr 202) [] = (Inr (replicate 16 9), Some req, tA1)"
    and r: "handle_peer_response rfc_ser rfc_de (\<lambda>_. False) (demo_pk 2) resp ''t4'' tA1 = (Ok200, tA2)"
      "\<exists>r \<in> set tA2. pr_status r = PeerActive" by blast
  from peer_history.extend [OF peer_history.extend [OF peer_history.start peer_step.initiate [OF l i]] peer_step.response [OF r(1)]] r(2)
  show ?thesis by auto
qed



section \<open>A lost answer to a termination\<close>

text \<open>The terminating side can get stuck: when the peer has carried out the termination but its answer is lost,
  the local row stays active; every retry is answered 401 by the verification layer of the peer, whatever
  the body, and leaves the local row active. The documentation of both functions calls the retry idempotent.\<close>

theorem lost_termination_answer:
  assumes "cbor_codec ser de" "rust_string dA" "length dA \<le> MAX_DOMAIN_LEN" "pred_option rust_string msg"
    and "\<forall>x. msg = Some x \<longrightarrow> length x \<le> MAX_MESSAGE_LEN"
    and "table_wf tB" "rB \<in> set tB" "pr_status rB = PeerActive" "pr_domain rB = dA"
  shows "\<exists>del tB'. operator_terminate_peer_relationship ser (\<lambda>_. False) dA pkB why msg m n (Inl err) tA = (Inl (InitTransport err), Some del, tA) \<and>
    route_peer_relationship de (\<lambda>_. False) (pr_pubkey rB) del n' tB = (Ok200, tB') \<and>
    (\<forall>fails2 del2 n2. route_peer_relationship de fails2 (pr_pubkey rB) del2 n2 tB' = (unauthorized, tB')) \<and>
    (\<forall>fails2 why2 msg2 m2 n2. snd (snd (operator_terminate_peer_relationship ser fails2 dA pkB why2 msg2 m2 n2
      (Inr (reply_status unauthorized)) tA)) = tA)"
proof -
  let ?b = "\<lparr>prd_domain = dA, prd_reason = why, prd_message = msg, prd_created = m\<rparr>"
  let ?P = "\<lambda>r. pr_pubkey r = pr_pubkey rB \<and> pr_status r = PeerActive"
  let ?f = "\<lambda>r. r\<lparr>pr_status := PeerTerminated, pr_termination := Some (reason_as_str why), pr_message := msg, pr_last_handshake := Some n'\<rparr>"
  have "delete_ok ?b" using assms(2,4) by (simp add: delete_ok_def)
  from delete.round_trip [OF assms(1) this] obtain del where del: "delete_encode ser ?b = Some del" "delete_decode de del = Some ?b"
    by (auto simp: delete_encode_def delete_decode_def)
  have u: "unique_ok tB" using assms(6) by (simp add: table_wf_def)
  have "find ?P tB = Some rB"
    by (rule find_only [OF assms(7)]) (use assms(8) row_unique(1) [OF u _ assms(7)] in blast)+
  moreover have "\<not> (case msg of Some x \<Rightarrow> length x > MAX_MESSAGE_LEN | None \<Rightarrow> False)" using assms(5) by (cases msg) auto
  moreover have "list_ex ?P tB" using assms(7,8) by (auto simp: list_ex_iff)
  ultimately have ok: "route_peer_relationship de (\<lambda>_. False) (pr_pubkey rB) del n' tB = (Ok200, update_where ?P ?f tB)"
    using del(2) assms(3,9) by (simp add: route_delete_eq handle_peer_relationship_delete_def)
  have "\<not> list_ex ?P (update_where ?P ?f tB)" by (auto simp: list_ex_iff set_update_where)
  then have "\<forall>fails2 del2 n2. route_peer_relationship de fails2 (pr_pubkey rB) del2 n2 (update_where ?P ?f tB) = (unauthorized, update_where ?P ?f tB)"
    by (simp add: route_delete_eq)
  moreover have "operator_terminate_peer_relationship ser (\<lambda>_. False) dA pkB why msg m n (Inl err) tA = (Inl (InitTransport err), Some del, tA)"
    using del(1) by (simp add: operator_terminate_peer_relationship_def)
  moreover have "snd (snd (operator_terminate_peer_relationship ser fails2 dA pkB why2 msg2 m2 n2 (Inr (reply_status unauthorized)) tA)) = tA"
    for fails2 why2 msg2 m2 n2
    by (auto simp: operator_terminate_peer_relationship_def unauthorized_def reply_status_def split: option.splits)
  ultimately show ?thesis using ok by blast
qed

definition active_row :: peer_row where
  "active_row = \<lparr>pr_pubkey = demo_pk 1, pr_domain = ''a.example'', pr_status = PeerActive, pr_direction = InboundDir,
     pr_request_id = replicate 16 9, pr_caps = None, pr_agreed = None, pr_termination = None, pr_message = None,
     pr_first_seen = ''t'', pr_last_handshake = None\<rparr>"

theorem lost_termination_answer_witness:
  "\<exists>del tB'. operator_terminate_peer_relationship rfc_ser (\<lambda>_. False) ''a.example'' (demo_pk 2) PolicyViolation None 5 ''t'' (Inl (Dispatch [])) [] =
      (Inl (InitTransport (Dispatch [])), Some del, []) \<and>
    route_peer_relationship rfc_de (\<lambda>_. False) (pr_pubkey active_row) del ''t2'' [active_row] = (Ok200, tB') \<and>
    (\<forall>fails2 del2 n2. route_peer_relationship rfc_de fails2 (pr_pubkey active_row) del2 n2 tB' = (unauthorized, tB'))"
proof -
  have "table_wf [active_row]" "pr_status active_row = PeerActive" "pr_domain active_row = ''a.example''"
    by (simp_all add: table_wf_def unique_ok_def active_row_def demo_pk_def)
  with lost_termination_answer [OF rfc.cbor_codec_axioms, of "''a.example''" None "[active_row]" active_row "demo_pk 2" PolicyViolation 5 "''t''" "Dispatch []" "[]" "''t2''"]
  show ?thesis by (simp add: key_rust MAX_DOMAIN_LEN_def) blast
qed

section \<open>Crossing requests\<close>

text \<open>A table that only knows one peer.\<close>

definition only_peer :: "bytes \<Rightarrow> peers_table \<Rightarrow> bool" where
  "only_peer pk tbl \<longleftrightarrow> (\<forall>r \<in> set tbl. pr_pubkey r = pk)"

lemma only_peer_recordable: "only_peer pk tbl \<Longrightarrow> unique_ok tbl \<Longrightarrow> recordable tbl pk d rid"
  by (simp add: only_peer_def recordable_def)

lemma upsert_only_peer:
  assumes "upsert row upd tbl = Some tbl'" "only_peer pk tbl" "pr_pubkey row = pk" "\<And>r. pr_pubkey (upd r) = pr_pubkey r"
  shows "only_peer pk tbl'"
  unfolding only_peer_def
proof
  fix r'
  assume "r' \<in> set tbl'"
  from upsert_rows(2) [OF assms(1) this] assms(2-4) show "pr_pubkey r' = pk" by (auto simp: only_peer_def split: if_splits)
qed

lemma initiate_only_peer:
  assumes "operator_initiate_peer_request ser fails own_pk own_domain pk d caps intro rid now_ms now answer tbl = (res, sent, tbl')" "only_peer pk tbl"
  shows "only_peer pk tbl'"
  using initiate_table [OF assms(1)] assms(2)
  by (auto intro: upsert_only_peer simp: pending_outbound_row_def outbound_upd_def)

lemma request_only_peer:
  assumes "handle_peer_request ser de fails pk b now tbl = (rep, tbl')" "only_peer pk tbl"
  shows "only_peer pk tbl'"
  using request_table [OF assms(1)] assms(2)
  by (auto intro: upsert_only_peer simp: pending_inbound_row_def inbound_upd_def)

text \<open>One side of the crossing: \<open>A\<close> has initiated \<open>rid1\<close> and then receives the request \<open>rid2\<close> of \<open>B\<close>. The callback
  for \<open>rid1\<close> finds no row.\<close>

lemma crossed_side:
  assumes "cbor_codec ser de" "instance_ok pkB dB" "only_peer pkB tA1" "unique_ok tA1" "rid1 \<noteq> rid2"
    and "length caps < 2 ^ 64" "list_all rust_string caps"
    and "request_decode de req2 = Some \<lparr>prq_domain = dB, prq_pubkey = pkB, prq_caps = caps, prq_intro = intro, prq_id = rid2, prq_created = m2\<rparr>"
  obtains tA2 r c where "handle_peer_request ser de (\<lambda>_. False) pkB req2 n tA1 = (Accepted202 rid2, tA2)"
    "unique_ok tA2" "r \<in> set tA2" "pr_pubkey r = pkB" "pr_request_id r = rid2" "pr_status r = PeerPendingInbound"
    "pr_caps r = Some c" "decode_text_array de c = Some caps"
    "\<And>resp a m n'. response_decode de resp = Some (accept_body rid1 dB pkB a m) \<Longrightarrow>
       handle_peer_response ser de (\<lambda>_. False) pkB resp n' tA2 = (not_found ''unknown_request'', tA2)"
proof -
  from request_recorded [OF assms(1,2,6,7) only_peer_recordable [OF assms(3,4)] assms(8), of n] obtain tA2 r c where
    r: "handle_peer_request ser de (\<lambda>_. False) pkB req2 n tA1 = (Accepted202 rid2, tA2)" "unique_ok tA2" "r \<in> set tA2"
      "pr_pubkey r = pkB" "pr_request_id r = rid2" "pr_status r = PeerPendingInbound" "pr_caps r = Some c" "decode_text_array de c = Some caps" .
  have "x = r" if "x \<in> set tA2" for x
    using row_unique(1) [OF r(2) that r(3)] request_only_peer [OF r(1) assms(3)] that r(4) by (simp add: only_peer_def)
  then have "find (\<lambda>x. pr_request_id x = rid1 \<and> pr_status x \<in> {PeerPendingOutbound, PeerActive}) tA2 = None"
    unfolding find_None_iff using r(5) assms(5) by blast
  then have "handle_peer_response ser de (\<lambda>_. False) pkB resp n' tA2 = (not_found ''unknown_request'', tA2)"
    if "response_decode de resp = Some (accept_body rid1 dB pkB a m)" for resp a m n'
    using that by (simp add: handle_peer_response_def accept_body_def)
  with r show thesis by (rule that)
qed

lemma accept_refused:
  assumes "cbor_codec ser de" "instance_ok pkB dB" "length rid = 16" "unique_ok tB1" "r \<in> set tB1" "length (pr_pubkey r) = 32"
    "pr_request_id r = rid" "pr_status r = PeerPendingInbound" "pr_caps r = Some c" "decode_text_array de c = Some caps"
  shows "\<exists>resp. response_decode de resp = Some (accept_body rid dB pkB (intersect_caps CAPABILITIES caps) m2) \<and>
    operator_accept_peer_request ser de (\<lambda>_. False) pkB dB rid m2 n3 (Inr 404) tB1 = (Inl (UnexpectedStatus 404), Some resp, tB1)"
proof -
  have "(404 :: nat) \<noteq> 200" by simp
  then show ?thesis by - (rule accept_sends [OF assms, of m2 n3], blast)
qed

lemma crossed_run:
  assumes "cbor_codec ser de" "instance_ok pkA dA" "instance_ok pkB dB" "pkA \<noteq> pkB" "length rid1 = 16" "length rid2 = 16" "rid1 \<noteq> rid2"
    and "length caps < 2 ^ 64" "list_all rust_string caps"
  shows "\<exists>req1 req2 resp1 resp2 tA1 tA2 tB1 tB2.
    operator_initiate_peer_request ser (\<lambda>_. False) pkA dA pkB dB caps None rid1 m n (Inr 202) [] = (Inr rid1, Some req1, tA1) \<and>
    operator_initiate_peer_request ser (\<lambda>_. False) pkB dB pkA dA caps None rid2 m n (Inr 202) [] = (Inr rid2, Some req2, tB1) \<and>
    handle_peer_request ser de (\<lambda>_. False) pkA req1 n tB1 = (Accepted202 rid1, tB2) \<and>
    handle_peer_request ser de (\<lambda>_. False) pkB req2 n tA1 = (Accepted202 rid2, tA2) \<and>
    handle_peer_response ser de (\<lambda>_. False) pkB resp1 n tA2 = (not_found ''unknown_request'', tA2) \<and>
    operator_accept_peer_request ser de (\<lambda>_. False) pkB dB rid1 m n (Inr 404) tB2 = (Inl (UnexpectedStatus 404), Some resp1, tB2) \<and>
    handle_peer_response ser de (\<lambda>_. False) pkA resp2 n tB2 = (not_found ''unknown_request'', tB2) \<and>
    operator_accept_peer_request ser de (\<lambda>_. False) pkA dA rid2 m n (Inr 404) tA2 = (Inl (UnexpectedStatus 404), Some resp2, tA2)"
proof -
  have e: "only_peer pk []" "recordable [] pk d rid" "pred_option rust_string None" for pk d rid
    by (simp_all add: only_peer_def demo_recordable)
  have ne: "pkB \<noteq> pkA" "rid2 \<noteq> rid1" using assms(4,7) by auto
  from initiate_sends [OF assms(1-5,8,9) e(3) e(2), of m n "Inr 202"] obtain req1 tA1 r1 where
    A: "operator_initiate_peer_request ser (\<lambda>_. False) pkA dA pkB dB caps None rid1 m n (Inr 202) [] = (Inr rid1, Some req1, tA1)"
    "request_decode de req1 = Some \<lparr>prq_domain = dA, prq_pubkey = pkA, prq_caps = caps, prq_intro = None, prq_id = rid1, prq_created = m\<rparr>"
    "unique_ok tA1" "r1 \<in> set tA1" "pr_pubkey r1 = pkB" "pr_request_id r1 = rid1" "pr_status r1 = PeerPendingOutbound" by auto
  from initiate_sends [OF assms(1,3,2) ne(1) assms(6,8,9) e(3) e(2), of m n "Inr 202"] obtain req2 tB1 r2 where
    B: "operator_initiate_peer_request ser (\<lambda>_. False) pkB dB pkA dA caps None rid2 m n (Inr 202) [] = (Inr rid2, Some req2, tB1)"
    "request_decode de req2 = Some \<lparr>prq_domain = dB, prq_pubkey = pkB, prq_caps = caps, prq_intro = None, prq_id = rid2, prq_created = m\<rparr>"
    "unique_ok tB1" "r2 \<in> set tB1" "pr_pubkey r2 = pkA" "pr_request_id r2 = rid2" "pr_status r2 = PeerPendingOutbound" by auto
  from crossed_side [OF assms(1,3) initiate_only_peer [OF A(1) e(1)] A(3) assms(7-9) B(2), of n] obtain tA2 rA cA where
    A2: "handle_peer_request ser de (\<lambda>_. False) pkB req2 n tA1 = (Accepted202 rid2, tA2)"
    "unique_ok tA2" "rA \<in> set tA2" "pr_pubkey rA = pkB" "pr_request_id rA = rid2" "pr_status rA = PeerPendingInbound"
    "pr_caps rA = Some cA" "decode_text_array de cA = Some caps"
    "\<And>resp a m n'. response_decode de resp = Some (accept_body rid1 dB pkB a m) \<Longrightarrow>
       handle_peer_response ser de (\<lambda>_. False) pkB resp n' tA2 = (not_found ''unknown_request'', tA2)" by blast
  from crossed_side [OF assms(1,2) initiate_only_peer [OF B(1) e(1)] B(3) ne(2) assms(8,9) A(2), of n] obtain tB2 rB cB where
    B2: "handle_peer_request ser de (\<lambda>_. False) pkA req1 n tB1 = (Accepted202 rid1, tB2)"
    "unique_ok tB2" "rB \<in> set tB2" "pr_pubkey rB = pkA" "pr_request_id rB = rid1" "pr_status rB = PeerPendingInbound"
    "pr_caps rB = Some cB" "decode_text_array de cB = Some caps"
    "\<And>resp a m n'. response_decode de resp = Some (accept_body rid2 dA pkA a m) \<Longrightarrow>
       handle_peer_response ser de (\<lambda>_. False) pkA resp n' tB2 = (not_found ''unknown_request'', tB2)" by blast
  have l: "length (pr_pubkey rA) = 32" "length (pr_pubkey rB) = 32" using assms(2,3) A2(4) B2(4) by (simp_all add: instance_ok_def)
  from accept_refused [OF assms(1,3,5) B2(2,3) l(2) B2(5-8), of m n] obtain resp1 where
    C1: "response_decode de resp1 = Some (accept_body rid1 dB pkB (intersect_caps CAPABILITIES caps) m)"
    "operator_accept_peer_request ser de (\<lambda>_. False) pkB dB rid1 m n (Inr 404) tB2 = (Inl (UnexpectedStatus 404), Some resp1, tB2)" by auto
  from accept_refused [OF assms(1,2,6) A2(2,3) l(1) A2(5-8), of m n] obtain resp2 where
    C2: "response_decode de resp2 = Some (accept_body rid2 dA pkA (intersect_caps CAPABILITIES caps) m)"
    "operator_accept_peer_request ser de (\<lambda>_. False) pkA dA rid2 m n (Inr 404) tA2 = (Inl (UnexpectedStatus 404), Some resp2, tA2)" by auto
  from A(1) B(1) A2(1) B2(1) A2(9) [OF C1(1)] C1(2) B2(9) [OF C2(1)] C2(2) show ?thesis by blast
qed

text \<open>Two requests that cross block each other: when two fresh instances initiate a peering with one another and
  both requests arrive before either is accepted, each side has overwritten its own pending request with the
  other's. Either operator may then accept, but the callback is answered 404, and both rows stay pending.\<close>

theorem crossed_requests_block:
  assumes "cbor_codec ser de" "instance_ok pkA dA" "instance_ok pkB dB" "pkA \<noteq> pkB" "length rid1 = 16" "length rid2 = 16" "rid1 \<noteq> rid2"
    and "length caps < 2 ^ 64" "list_all rust_string caps"
  shows "\<exists>req1 req2 resp1 resp2 tA1 tA2 tB1 tB2.
    operator_initiate_peer_request ser (\<lambda>_. False) pkA dA pkB dB caps None rid1 m n (Inr 202) [] = (Inr rid1, Some req1, tA1) \<and>
    operator_initiate_peer_request ser (\<lambda>_. False) pkB dB pkA dA caps None rid2 m n (Inr 202) [] = (Inr rid2, Some req2, tB1) \<and>
    handle_peer_request ser de (\<lambda>_. False) pkA req1 n tB1 = (Accepted202 rid1, tB2) \<and>
    handle_peer_request ser de (\<lambda>_. False) pkB req2 n tA1 = (Accepted202 rid2, tA2) \<and>
    handle_peer_response ser de (\<lambda>_. False) pkB resp1 n tA2 = (not_found ''unknown_request'', tA2) \<and>
    operator_accept_peer_request ser de (\<lambda>_. False) pkB dB rid1 m n (Inr 404) tB2 = (Inl (UnexpectedStatus 404), Some resp1, tB2) \<and>
    handle_peer_response ser de (\<lambda>_. False) pkA resp2 n tB2 = (not_found ''unknown_request'', tB2) \<and>
    operator_accept_peer_request ser de (\<lambda>_. False) pkA dA rid2 m n (Inr 404) tA2 = (Inl (UnexpectedStatus 404), Some resp2, tA2)"
  using assms by (rule crossed_run)

theorem crossed_requests_block_witness:
  "\<exists>req1 req2 tA1 tA2 tB1 tB2.
    operator_initiate_peer_request rfc_ser (\<lambda>_. False) (demo_pk 1) (demo_domain 1) (demo_pk 2) (demo_domain 2) [] None (replicate 16 1) 5 ''t'' (Inr 202) []
      = (Inr (replicate 16 1), Some req1, tA1) \<and>
    operator_initiate_peer_request rfc_ser (\<lambda>_. False) (demo_pk 2) (demo_domain 2) (demo_pk 1) (demo_domain 1) [] None (replicate 16 2) 5 ''t'' (Inr 202) []
      = (Inr (replicate 16 2), Some req2, tB1) \<and>
    handle_peer_request rfc_ser rfc_de (\<lambda>_. False) (demo_pk 1) req1 ''t'' tB1 = (Accepted202 (replicate 16 1), tB2) \<and>
    handle_peer_request rfc_ser rfc_de (\<lambda>_. False) (demo_pk 2) req2 ''t'' tA1 = (Accepted202 (replicate 16 2), tA2)"
proof -
  have "demo_pk 1 \<noteq> demo_pk 2" "length (replicate 16 (1 :: u8)) = 16" "length (replicate 16 (2 :: u8)) = 16"
    "replicate 16 (1 :: u8) \<noteq> replicate 16 2" "length ([] :: string list) < 2 ^ 64" "list_all rust_string []"
    by (simp_all add: demo_pk_def)
  from crossed_requests_block [OF rfc.cbor_codec_axioms demo_instance_ok this, of 5 "''t''"] show ?thesis by blast
qed

end
