(* ===== verification/Object_Store.thy ===== *)
theory Object_Store
  imports Fed_Envelope Rate_Limit Routing Signed_Verify
begin

text \<open>
  What the push handlers of the federation share (\<open>user_status.rs\<close>, \<open>thread_status.rs\<close>, \<open>moves.rs\<close> under
  \<open>server/src/federation\<close>): the tables they read and write, \<open>store_signed_object\<close> of \<open>signing.rs\<close>, the home of a user at a
  time (\<open>remote_users.rs\<close>), the bodies of the routes, and the contract of a register that the latest object wins. The
  third-party functions are the fields of \<open>fed_lib\<close>; a table is a map from its key, and a transaction that fails leaves
  the tables as they were.
\<close>

section \<open>Tables\<close>

text \<open>\<open>lb_key_ok\<close> is \<open>VerifyingKey::from_bytes\<close> succeeding, \<open>lb_sign\<close> signs with the key of the instance.\<close>

record fed_lib =
  lb_nfc :: "nat list \<Rightarrow> nat list"
  lb_ser :: "cbor_value \<Rightarrow> bytes option"
  lb_de :: "bytes \<Rightarrow> cbor_value option"
  lb_ed :: "bytes \<Rightarrow> bytes \<Rightarrow> bytes \<Rightarrow> bool"
  lb_key_ok :: "bytes \<Rightarrow> bool"
  lb_sha :: "bytes \<Rightarrow> bytes"
  lb_sign :: "bytes \<Rightarrow> bytes"

record object_row =
  ob_class :: string
  ob_payload :: "bytes option"
  ob_signature :: bytes

record move_row =
  mr_user :: bytes
  mr_hash :: bytes
  mr_created :: int

text \<open>\<open>thread_statuses\<close> has the five columns besides its key, \<open>user_statuses\<close> one more.\<close>

record status_row =
  sw_status :: string
  sw_signing_instance :: string
  sw_reason :: "string option"
  sw_created_at :: int
  sw_hash :: bytes

record user_status_row = status_row +
  sw_suspended_until :: "int option"

record home_pointer =
  hp_key :: bytes
  hp_domain :: string
  hp_move_hash :: "bytes option"
  hp_created_at :: "int option"

record genesis_row =
  gr_genesis_at :: int
  gr_birth_key :: bytes
  gr_sig :: bytes

text \<open>A user row: home (\<open>None\<close> is this instance), the method of signing up, and whether the instance still holds a signing
  key, sessions and credentials for it.\<close>

record user_entry =
  ue_home :: "bytes option"
  ue_signup :: string
  ue_signing_key :: bool
  ue_sessions :: nat
  ue_credentials :: nat

record thread_entry =
  te_home :: "bytes option"
  te_author :: bytes
  te_locked :: bool

text \<open>Users are keyed by public key, threads by the 16 bytes of their id.\<close>

record fed_store =
  fs_objects :: "bytes \<rightharpoonup> object_row"
  fs_users :: "bytes \<rightharpoonup> user_entry"
  fs_moves :: "move_row list"
  fs_homes :: "bytes \<rightharpoonup> home_pointer"
  fs_genesis :: "bytes \<rightharpoonup> genesis_row"
  fs_peers :: "bytes \<rightharpoonup> string"
  fs_threads :: "bytes \<rightharpoonup> thread_entry"
  fs_user_statuses :: "bytes \<rightharpoonup> user_status_row"
  fs_thread_statuses :: "bytes \<rightharpoonup> status_row"
  fs_key :: bytes
  fs_domain :: string
  fs_user_limit :: "bytes PushRateLimiter"
  fs_thread_limit :: "bytes PushRateLimiter"
  fs_status_limit :: "bytes ContentRateLimiter"
  fs_move_limit :: "bytes ContentRateLimiter"

text \<open>\<open>INSERT OR IGNORE\<close>.\<close>

definition store_signed_object :: "string \<Rightarrow> bytes \<Rightarrow> bytes \<Rightarrow> bytes \<Rightarrow> fed_store \<Rightarrow> fed_store" where
  "store_signed_object inner_class payload signature hash st = (case fs_objects st hash of
     Some _ \<Rightarrow> st
   | None \<Rightarrow> st\<lparr>fs_objects := (fs_objects st)(hash \<mapsto> \<lparr>ob_class = inner_class, ob_payload = Some payload, ob_signature = signature\<rparr>)\<rparr>)"

text \<open>The chain-grounding query: a stored object of a class with its payload.\<close>

definition object_present :: "string \<Rightarrow> bytes \<Rightarrow> fed_store \<Rightarrow> bool" where
  "object_present inner_class hash st = (case fs_objects st hash of
     Some row \<Rightarrow> ob_class row = inner_class \<and> ob_payload row \<noteq> None | None \<Rightarrow> False)"

text \<open>Payloads that parse, and signatures that verify.\<close>

lemma parse_of:
  assumes "de b = Some (to_cbor_value p)" "ser (to_cbor_value p) = Some b" "wf_payload nfc p"
  shows "parse nfc ser de b = Inr p"
proof -
  have "agree (schema_keys p) (map_of (sort_entries (payload_entries p))) (payload_entries p)"
    by (simp add: agree_def list_all_iff map_of_sort_entries [OF schema_keys_nodup])
  then have "parse_value nfc (to_cbor_value p) = Inr p"
    using assms(3) strict_sort_entries [OF schema_keys_nodup]
    by (simp only: to_cbor_value_entries build_map_text_entries parse_value_complete)
  with assms(1,2) show ?thesis by (simp add: parse_Inr)
qed

lemma to_cbor_inj:
  assumes "wf_payload nfc p" "wf_payload nfc q" "to_cbor_value p = to_cbor_value q"
  shows "p = q"
proof -
  have "parse nfc (\<lambda>_. Some []) (\<lambda>_. Some (to_cbor_value x)) [] = Inr x" if "wf_payload nfc x" for x by (rule parse_of [OF _ _ that]) (rule refl)+
  from trans [OF sym [OF this [OF assms(1)], unfolded assms(3)] this [OF assms(2)]] show ?thesis by (rule sum.inject(2) [THEN iffD1])
qed

lemma verify_signature: "verify nfc ser de ed p sg key = Inr x \<Longrightarrow> ed key p sg \<and> length sg = 64"
  by (auto simp: verify_def result_simps split: option.splits)

section \<open>The home of a user at a time\<close>

definition fetch_move :: "fed_lib \<Rightarrow> bytes \<Rightarrow> fed_store \<Rightarrow> Move option" where
  "fetch_move L hash st = (case fs_objects st hash of
     Some row \<Rightarrow> if ob_class row \<noteq> ''move'' then None
       else (case ob_payload row of
         None \<Rightarrow> None
       | Some payload \<Rightarrow> (case parse (lb_nfc L) (lb_ser L) (lb_de L) payload of
           Inr (Move mv) \<Rightarrow> if lb_sha L payload \<noteq> hash then None else Some mv
         | _ \<Rightarrow> None))
   | None \<Rightarrow> None)"

definition load_move_to_key :: "fed_lib \<Rightarrow> bytes \<Rightarrow> fed_store \<Rightarrow> bytes option" where
  "load_move_to_key L hash st = map_option to_instance_key (fetch_move L hash st)"

definition load_move_from_key :: "fed_lib \<Rightarrow> bytes \<Rightarrow> fed_store \<Rightarrow> bytes option" where
  "load_move_from_key L hash st = Option.bind (fetch_move L hash st) from_instance_key"

definition first_row :: "'a list \<Rightarrow> 'a option" where
  "first_row rs = (case rs of [] \<Rightarrow> None | r # _ \<Rightarrow> Some r)"

text \<open>The two ordered queries; \<open>i64::try_from(t).unwrap_or(i64::MAX)\<close> caps the time.\<close>

definition resolve_home_at_t :: "fed_lib \<Rightarrow> bytes \<Rightarrow> u64 \<Rightarrow> bytes \<Rightarrow> fed_store \<Rightarrow> bytes" where
  "resolve_home_at_t L ukey t arrived_from st =
     (let t_db = min (int (unat t)) (2 ^ 63 - 1);
          mine = filter (\<lambda>r. mr_user r = ukey) (fs_moves st);
          latest_before = first_row (sort_key (\<lambda>r. (- mr_created r, mr_hash r)) (filter (\<lambda>r. mr_created r \<le> t_db) mine))
      in case latest_before of
        Some row \<Rightarrow> (case load_move_to_key L (mr_hash row) st of Some home \<Rightarrow> home | None \<Rightarrow> arrived_from)
      | None \<Rightarrow> (case first_row (sort_key (\<lambda>r. (mr_created r, mr_hash r)) mine) of
          Some row \<Rightarrow> (case load_move_from_key L (mr_hash row) st of Some home \<Rightarrow> home | None \<Rightarrow> arrived_from)
        | None \<Rightarrow> arrived_from))"

definition resolve_subject_home_at_t :: "fed_lib \<Rightarrow> bytes \<Rightarrow> u64 \<Rightarrow> fed_store \<Rightarrow> bytes option" where
  "resolve_subject_home_at_t L sbj t st =
     (if list_ex (\<lambda>r. mr_user r = sbj) (fs_moves st) then
        let sentinel = replicate 32 0; home = resolve_home_at_t L sbj t sentinel st
        in if home = sentinel then None else Some home
      else case fs_users st sbj of
        None \<Rightarrow> None
      | Some row \<Rightarrow> (case ue_home row of
          None \<Rightarrow> Some (fs_key st)
        | Some h \<Rightarrow> if length h = 32 then Some h else None))"

definition resolve_domain_for_key :: "bytes \<Rightarrow> fed_store \<Rightarrow> string option" where
  "resolve_domain_for_key key st = (if key = fs_key st then Some (fs_domain st) else fs_peers st key)"

section \<open>Bodies\<close>

text \<open>A map with exactly one entry, named \<open>field\<close> and an array, whose items \<open>item\<close> decodes. The loop of the decoders
  stops at the first entry that is not that one or repeats it.\<close>

fun one_array :: "string \<Rightarrow> (cbor_value \<times> cbor_value) list \<Rightarrow> cbor_value list option \<Rightarrow> cbor_value list option" where
  "one_array field [] found = found"
| "one_array field ((VText k, v) # es) found =
     (if k = field then (if found \<noteq> None then None else case v of VArray a \<Rightarrow> one_array field es (Some a) | _ \<Rightarrow> None) else None)"
| "one_array field (e # es) found = None"

fun decode_items :: "(cbor_value \<Rightarrow> bytes option) \<Rightarrow> cbor_value list \<Rightarrow> bytes list option" where
  "decode_items item [] = Some []"
| "decode_items item (v # vs) = Option.bind (item v) (\<lambda>b. map_option ((#) b) (decode_items item vs))"

definition bytes_item :: "cbor_value \<Rightarrow> bytes option" where
  "bytes_item v = (case v of VBytes b \<Rightarrow> Some b | _ \<Rightarrow> None)"

definition hash_item :: "cbor_value \<Rightarrow> bytes option" where
  "hash_item v = (case v of VBytes b \<Rightarrow> if length b = 32 then Some b else None | _ \<Rightarrow> None)"

definition array_body :: "string \<Rightarrow> (cbor_value \<Rightarrow> bytes option) \<Rightarrow> (bytes \<Rightarrow> cbor_value option) \<Rightarrow> bytes \<Rightarrow> bytes list option" where
  "array_body field item de bs = (case de bs of
     Some (VMap es) \<Rightarrow> Option.bind (one_array field es None) (decode_items item)
   | _ \<Rightarrow> None)"

text \<open>The vocabulary of a result, with the reasons of the route.\<close>

datatype 'r push_result = StApplied | StDuplicate | StDeferred | StSuperseded | StRejected 'r

fun status_tag :: "'r push_result \<Rightarrow> string" where
  "status_tag StApplied = ''applied''"
| "status_tag StDuplicate = ''duplicate''"
| "status_tag StDeferred = ''deferred''"
| "status_tag StSuperseded = ''superseded''"
| "status_tag (StRejected _) = ''rejected''"

definition reason_tag :: "('r \<Rightarrow> string) \<Rightarrow> 'r push_result \<Rightarrow> string option" where
  "reason_tag as_str r = (case r of StRejected x \<Rightarrow> Some (as_str x) | _ \<Rightarrow> None)"

definition encode_results :: "('r \<Rightarrow> string) \<Rightarrow> (cbor_value \<Rightarrow> bytes option) \<Rightarrow> (bytes \<times> 'r push_result) list \<Rightarrow> bytes option" where
  "encode_results as_str ser results = ser (VMap [(VText ''results'', VArray (map (\<lambda>(hash, r).
     VMap ([(VText ''canonical_hash'', VBytes hash), (VText ''status'', VText (status_tag r))] @
       (case reason_tag as_str r of Some s \<Rightarrow> [(VText ''reason'', VText s)] | None \<Rightarrow> []))) results))])"

text \<open>The answers; the body of \<open>PushOk\<close> is \<open>None\<close> where the encoder's \<open>expect\<close> would panic.\<close>

datatype push_reply = PushOk "bytes option" | PushErr nat string

datatype db_error = DbError

text \<open>A call of \<open>forward_signed_object\<close>, with the wire bytes or the panic of encoding them.\<close>

record forward_call =
  fwd_hash :: bytes
  fwd_class :: ForwardingClass
  fwd_key :: bytes
  fwd_wire :: "bytes option"
  fwd_from :: "bytes option"

text \<open>The loop of the push handlers over a batch: a database error ends it, and what was applied before stays. \<open>fails i\<close>
  says which statements of the \<open>i\<close>-th object fail.\<close>

fun push_loop ::
  "((nat \<Rightarrow> bool) \<Rightarrow> bytes \<Rightarrow> fed_store \<Rightarrow> (db_error + bytes \<times> 'r push_result) \<times> forward_call list \<times> fed_store)
   \<Rightarrow> (nat \<Rightarrow> nat \<Rightarrow> bool) \<Rightarrow> nat \<Rightarrow> bytes list \<Rightarrow> fed_store \<Rightarrow> (bytes \<times> 'r push_result) list option \<times> forward_call list \<times> fed_store" where
  "push_loop one fails i [] st = (Some [], [], st)"
| "push_loop one fails i (w # ws) st = (case one (fails i) w st of
     (Inl DbError, calls, st1) \<Rightarrow> (None, calls, st1)
   | (Inr r, calls, st1) \<Rightarrow> (case push_loop one fails (Suc i) ws st1 of
       (rs, calls', st2) \<Rightarrow> (map_option ((#) r) rs, calls @ calls', st2)))"

text \<open>The loop of the by-hash responders: the stored objects of the class and the hashes not held.\<close>

fun serve_hashes ::
  "(cbor_value \<Rightarrow> bytes option) \<Rightarrow> string \<Rightarrow> bytes list \<Rightarrow> fed_store \<Rightarrow> (bytes list \<times> bytes list) option" where
  "serve_hashes ser inner_class [] st = Some ([], [])"
| "serve_hashes ser inner_class (h # hs) st =
     Option.bind (case fs_objects st h of
         Some row \<Rightarrow> if ob_class row = inner_class then (case ob_payload row of
             Some payload \<Rightarrow> map_option (\<lambda>w. ([w], [])) (encode_signed_object ser payload (ob_signature row))
           | None \<Rightarrow> Some ([], [h])) else Some ([], [h])
       | None \<Rightarrow> Some ([], [h])) (\<lambda>(w, m).
     map_option (\<lambda>(ws, ms). (w @ ws, m @ ms)) (serve_hashes ser inner_class hs st))"

definition handle_by_hash :: "fed_lib \<Rightarrow> string \<Rightarrow> nat \<Rightarrow> bool \<Rightarrow> bytes \<Rightarrow> fed_store \<Rightarrow> push_reply" where
  "handle_by_hash L inner_class cap fails msg st = (case array_body ''hashes'' hash_item (lb_de L) msg of
     None \<Rightarrow> PushErr 400 ''malformed''
   | Some hs \<Rightarrow>
       if hs = [] then PushErr 400 ''empty_batch''
       else if length hs > cap then PushErr 400 ''too_many_hashes''
       else if fails then PushErr 500 ''internal''
       else PushOk (Option.bind (serve_hashes (lb_ser L) inner_class hs st) (\<lambda>(ws, ms).
         lb_ser L (VMap [(VText ''objects'', VArray (map VBytes ws)), (VText ''missing'', VArray (map VBytes ms))]))))"

text \<open>What holds after every object holds after the batch.\<close>

lemma push_loop_invariant:
  assumes "\<And>fl w st. P st \<Longrightarrow> P (snd (snd (one fl w st)))" "P st"
  shows "P (snd (snd (push_loop one fails i ws st)))"
  using assms(2)
proof (induction ws arbitrary: i st)
  case (Cons w ws)
  have "P (snd (snd (one (fails i) w st)))" using assms(1) Cons.prems by blast
  then show ?case using Cons.IH [of "snd (snd (one (fails i) w st))" "Suc i"]
    by (auto split: prod.splits sum.splits db_error.splits)
qed simp

section \<open>The latest object wins\<close>

text \<open>Later time first, the smaller hash on a tie.\<close>

definition newer :: "nat \<times> bytes \<Rightarrow> nat \<times> bytes \<Rightarrow> bool" where
  "newer a b \<longleftrightarrow> fst b < fst a \<or> fst a = fst b \<and> snd a < snd b"

lemma newer_irrefl [simp]: "\<not> newer a a"
  by (simp add: newer_def)

lemma newer_trans: "newer a b \<Longrightarrow> newer b c \<Longrightarrow> newer a c"
  by (auto simp: newer_def)

lemma newer_total: "newer a b \<or> a = b \<or> newer b a"
  by (cases a; cases b) (auto simp: newer_def)

text \<open>A register of rows: \<open>put\<close> writes the row of an object exactly if the object is newer than the row that is there.\<close>

locale latest_wins =
  fixes put :: "'o \<Rightarrow> 'row option \<Rightarrow> 'row option"
    and row_of :: "'o \<Rightarrow> 'row"
    and rank :: "'o \<Rightarrow> nat \<times> bytes"
    and beats :: "'o \<Rightarrow> 'row \<Rightarrow> bool"
    and ok :: "'o \<Rightarrow> bool"
  assumes put: "put x old = (case old of None \<Rightarrow> Some (row_of x) | Some r \<Rightarrow> if beats x r then Some (row_of x) else old)"
    and beats: "ok y \<Longrightarrow> beats x (row_of y) \<longleftrightarrow> newer (rank x) (rank y)"
begin

lemma put_all:
  assumes "list_all ok xs" "xs \<noteq> []"
  shows "\<exists>x \<in> set xs. fold put xs None = Some (row_of x) \<and> (\<forall>y \<in> set xs. \<not> newer (rank y) (rank x))"
  using assms
proof (induction xs rule: rev_induct)
  case (snoc z xs)
  show ?case
  proof (cases "xs = []")
    case True
    then show ?thesis by (simp add: put)
  next
    case False
    then obtain x where x: "x \<in> set xs" "fold put xs None = Some (row_of x)" "\<forall>y \<in> set xs. \<not> newer (rank y) (rank x)"
      using snoc by auto
    have st: "beats z (row_of x) \<longleftrightarrow> newer (rank z) (rank x)" using snoc.prems(1) x(1) beats by (auto simp: list_all_iff)
    show ?thesis
    proof (cases "newer (rank z) (rank x)")
      case True
      then have "fold put (xs @ [z]) None = Some (row_of z)" using x(2) st by (simp add: put)
      moreover have "\<forall>y \<in> set (xs @ [z]). \<not> newer (rank y) (rank z)" 
        using x(3) by (auto dest: newer_trans [OF _ True])
      ultimately show ?thesis by (intro bexI [of _ z]) auto
    next
      case False
      then have "fold put (xs @ [z]) None = Some (row_of x)" using x(2) st by (simp add: put)
      then show ?thesis using x(1,3) False by (intro bexI [of _ x]) auto
    qed
  qed
qed simp

text \<open>The register depends on the set of objects only.\<close>

lemma put_set:
  assumes "list_all ok xs" "set xs = set ys" "inj_on rank (set xs)"
  shows "fold put xs None = fold put ys None"
proof (cases "xs = []")
  case False
  have ys: "list_all ok ys" "ys \<noteq> []" using assms(1,2) False by (auto simp: list_all_iff)
  obtain x y where "x \<in> set xs" "fold put xs None = Some (row_of x)" "\<forall>z \<in> set xs. \<not> newer (rank z) (rank x)"
    "y \<in> set ys" "fold put ys None = Some (row_of y)" "\<forall>z \<in> set ys. \<not> newer (rank z) (rank y)"
    using put_all [OF assms(1) False] put_all [OF ys] by blast
  then show ?thesis using assms(2,3) newer_total [of "rank x" "rank y"] by (auto dest: inj_onD)
qed (use assms in auto)

end

text \<open>The objects that a sequence of events accepts, in order, and the state it leads to.\<close>

fun log_run :: "('ev \<Rightarrow> 'st \<Rightarrow> 'o option \<times> 'st) \<Rightarrow> 'ev list \<Rightarrow> 'st \<Rightarrow> 'o list \<times> 'st" where
  "log_run step [] st = ([], st)"
| "log_run step (ev # evs) st = (case step ev st of (x, st1) \<Rightarrow> (case log_run step evs st1 of (xs, st2) \<Rightarrow>
     (case_option xs (\<lambda>y. y # xs) x, st2)))"

text \<open>A store that steps through events. An event yields the object it accepted, if any; the register under the key of that
  object takes it, and every other register stays.\<close>

locale register_log = latest_wins put row_of rank beats ok
  for put :: "'o \<Rightarrow> 'row option \<Rightarrow> 'row option" and row_of rank beats ok +
  fixes step :: "'ev \<Rightarrow> 'st \<Rightarrow> 'o option \<times> 'st"
    and proj :: "'st \<Rightarrow> 'k \<Rightarrow> 'row option"
    and key :: "'o \<Rightarrow> 'k"
  assumes skip: "step ev st = (None, st') \<Longrightarrow> proj st' = proj st"
    and take: "step ev st = (Some x, st') \<Longrightarrow> proj st' = (proj st)(key x := put x (proj st (key x)))"
begin

lemma run_fold: "log_run step evs st = (xs, st') \<Longrightarrow> proj st' k = fold put (filter (\<lambda>x. key x = k) xs) (proj st k)"
proof (induction evs arbitrary: st xs)
  case (Cons ev evs)
  obtain x st1 ys where s: "step ev st = (x, st1)" "log_run step evs st1 = (ys, st')" "xs = case_option ys (\<lambda>y. y # ys) x"
    using Cons.prems by (auto split: prod.splits)
  show ?case using Cons.IH [OF s(2)] s(1,3) skip [of ev st st1] take [of ev st _ st1] by (cases x) auto
qed simp

lemma converge:
  assumes "log_run step evs A = (xs, A')" "log_run step evs' B = (ys, B')" "proj A k = None" "proj B k = None"
    and "set (filter (\<lambda>x. key x = k) xs) = set (filter (\<lambda>x. key x = k) ys)" "list_all ok xs" "inj_on rank (set xs)"
  shows "proj A' k = proj B' k"
proof -
  have "list_all ok (filter (\<lambda>x. key x = k) xs)" "inj_on rank (set (filter (\<lambda>x. key x = k) xs))"
    using assms(6,7) by (auto simp: list_all_iff intro: inj_on_subset)
  from put_set [OF this(1) assms(5) this(2)] show ?thesis
    using run_fold [OF assms(1), of k] run_fold [OF assms(2), of k] assms(3,4) by simp
qed

lemma newest:
  assumes "log_run step evs A = (xs, A')" "proj A k = None" "list_all ok xs" "y \<in> set xs" "key y = k"
  shows "\<exists>x \<in> set xs. key x = k \<and> proj A' k = Some (row_of x) \<and> \<not> newer (rank y) (rank x)"
proof -
  let ?f = "filter (\<lambda>x. key x = k) xs"
  have "list_all ok ?f" "?f \<noteq> []" using assms(3-5) by (auto simp: list_all_iff filter_empty_conv)
  from put_all [OF this] obtain x where "x \<in> set ?f" "fold put ?f None = Some (row_of x)" "\<forall>z \<in> set ?f. \<not> newer (rank z) (rank x)"
    by blast
  then show ?thesis using run_fold [OF assms(1), of k] assms(2,4,5) by auto
qed

end

end
