(* ===== verification/User_Status.thy ===== *)
theory User_Status
  imports Object_Store
begin

text \<open>
  \<open>server/src/federation/user_status.rs\<close>: the push of signed user statuses with its per-object state machine, the local
  producer, and the by-hash responder. Shown: what is accepted was signed by the instance that was the home of its subject at
  the time it names; instances that accepted the same statuses agree on the current one, in whatever order they arrived; the
  stored chains are closed under predecessors; and the producer can issue a status that its own peers discard.
\<close>

section \<open>Operations\<close>

definition MAX_USER_STATUS_BATCH :: nat where "MAX_USER_STATUS_BATCH = 256"
definition MAX_USER_STATUS_HASHES :: nat where "MAX_USER_STATUS_HASHES = 50"

datatype UserStatusRejectReason =
  UsInvalidSignature | UsSchemaInvalid | UsUnauthorizedSigner | UsUnknownSubjectHome | UsUnknownClass

fun us_reason_as_str :: "UserStatusRejectReason \<Rightarrow> string" where
  "us_reason_as_str UsInvalidSignature = ''invalid_signature''"
| "us_reason_as_str UsSchemaInvalid = ''schema_invalid''"
| "us_reason_as_str UsUnauthorizedSigner = ''unauthorized_signer''"
| "us_reason_as_str UsUnknownSubjectHome = ''unknown_subject_home''"
| "us_reason_as_str UsUnknownClass = ''unknown_class''"

type_synonym UserStatusResultKind = "UserStatusRejectReason push_result"
type_synonym us_outcome = "(db_error + bytes \<times> UserStatusResultKind) \<times> forward_call list \<times> fed_store"

definition us_reject :: "bytes \<Rightarrow> UserStatusRejectReason \<Rightarrow> fed_store \<Rightarrow> us_outcome" where
  "us_reject hash reason st = (Inr (hash, StRejected reason), [], st)"

definition user_row :: "UserStatus \<Rightarrow> bytes \<Rightarrow> user_status_row" where
  "user_row s hash = \<lparr>sw_status = user_status_as_str (us_status s), sw_signing_instance = us_signing_instance s,
     sw_reason = us_reason s, sw_created_at = sint (us_created_at s), sw_hash = hash,
     sw_suspended_until = map_option sint (suspended_until s)\<rparr>"

text \<open>The comparison with the stored row; a negative column reads as 0.\<close>

definition us_new_wins :: "UserStatus \<Rightarrow> bytes \<Rightarrow> user_status_row option \<Rightarrow> bool" where
  "us_new_wins s hash existing = (case existing of
     None \<Rightarrow> True
   | Some row \<Rightarrow>
       let prior_ts = (if 0 \<le> sw_created_at row then nat (sw_created_at row) else 0); ts = unat (us_created_at s)
       in if ts > prior_ts then True else if ts < prior_ts then False else hash < sw_hash row)"

text \<open>The end of the transaction and the forward; statements 5 to 8.\<close>

definition us_commit ::
  "fed_lib \<Rightarrow> (nat \<Rightarrow> bool) \<Rightarrow> nat \<Rightarrow> bytes \<Rightarrow> bytes \<Rightarrow> bytes \<Rightarrow> UserStatus \<Rightarrow> bytes \<Rightarrow> bytes \<Rightarrow> fed_store \<Rightarrow> us_outcome" where
  "us_commit L fails now payload sg hash s home arrived st =
     (let new_wins = us_new_wins s hash (fs_user_statuses st (subject s));
          st1 = store_signed_object ''user-status'' payload sg hash st;
          st2 = (if new_wins then st1\<lparr>fs_user_statuses := (fs_user_statuses st1)(subject s \<mapsto> user_row s hash)\<rparr> else st1)
      in if fails 5 \<or> fails 6 \<or> new_wins \<and> fails 7 \<or> fails 8 then (Inl DbError, [], st)
         else case check_and_count_at (fs_status_limit st2) home 1 now of (ok, lmt) \<Rightarrow>
           (Inr (hash, if new_wins then StApplied else StSuperseded),
            if ok then [\<lparr>fwd_hash = hash, fwd_class = UserStatusFwd, fwd_key = subject s,
              fwd_wire = encode_signed_object (lb_ser L) payload sg, fwd_from = Some arrived\<rparr>] else [],
            st2\<lparr>fs_status_limit := lmt\<rparr>))"

text \<open>The transaction. Statements: 1 begin, 2 the reads of the home, 3 the peer's domain, 4 the predecessor, 5 the current
  row, 6 the insert, 7 the upsert, 8 commit.\<close>

definition us_transaction ::
  "fed_lib \<Rightarrow> (nat \<Rightarrow> bool) \<Rightarrow> nat \<Rightarrow> bytes \<Rightarrow> bytes \<Rightarrow> bytes \<Rightarrow> UserStatus \<Rightarrow> bytes \<Rightarrow> fed_store \<Rightarrow> us_outcome" where
  "us_transaction L fails now payload sg hash s arrived st =
     (if fails 1 \<or> fails 2 then (Inl DbError, [], st)
      else case resolve_subject_home_at_t L (subject s) (us_created_at s) st of
        None \<Rightarrow> us_reject hash UsUnknownSubjectHome st
      | Some home \<Rightarrow>
          if \<not> lb_key_ok L home then us_reject hash UsInvalidSignature st
          else case verify (lb_nfc L) (lb_ser L) (lb_de L) (lb_ed L) payload sg home of
            Inl _ \<Rightarrow> us_reject hash UsInvalidSignature st
          | Inr _ \<Rightarrow>
              if home \<noteq> fs_key st \<and> fails 3 then (Inl DbError, [], st)
              else if (case resolve_domain_for_key home st of Some d \<Rightarrow> us_signing_instance s \<noteq> d | None \<Rightarrow> False)
              then us_reject hash UsUnauthorizedSigner st
              else if us_prior_status_hash s \<noteq> None \<and> fails 4 then (Inl DbError, [], st)
              else if (case us_prior_status_hash s of Some p \<Rightarrow> \<not> object_present ''user-status'' p st | None \<Rightarrow> False)
              then (Inr (hash, StDeferred), [], st)
              else us_commit L fails now payload sg hash s home arrived st)"

text \<open>Statement 0 is the dedup query, outside of the transaction.\<close>

definition apply_one_user_status ::
  "fed_lib \<Rightarrow> nat \<Rightarrow> bytes \<Rightarrow> (nat \<Rightarrow> bool) \<Rightarrow> bytes \<Rightarrow> fed_store \<Rightarrow> us_outcome" where
  "apply_one_user_status L now arrived fails wire st = (case decode_signed_object (lb_de L) wire of
     None \<Rightarrow> us_reject (lb_sha L wire) UsSchemaInvalid st
   | Some (payload, sg) \<Rightarrow>
       let hash = lb_sha L payload
       in if fails 0 then (Inl DbError, [], st)
          else case fs_objects st hash of
            Some row \<Rightarrow> if ob_payload row = None then us_reject hash UsSchemaInvalid st else (Inr (hash, StDuplicate), [], st)
          | None \<Rightarrow> (case parse (lb_nfc L) (lb_ser L) (lb_de L) payload of
              Inr (UserStatus s) \<Rightarrow> us_transaction L fails now payload sg hash s arrived st
            | Inr _ \<Rightarrow> us_reject hash UsSchemaInvalid st
            | Inl (UnknownClass _) \<Rightarrow> us_reject hash UsUnknownClass st
            | Inl _ \<Rightarrow> us_reject hash UsSchemaInvalid st))"

definition handle_user_status_push ::
  "fed_lib \<Rightarrow> nat \<Rightarrow> (nat \<Rightarrow> nat \<Rightarrow> bool) \<Rightarrow> bytes \<Rightarrow> bytes \<Rightarrow> fed_store \<Rightarrow> push_reply \<times> forward_call list \<times> fed_store" where
  "handle_user_status_push L now fails sndr msg st = (case push_try_admit_at (fs_user_limit st) sndr now of (ok, lmt) \<Rightarrow>
     let st0 = st\<lparr>fs_user_limit := lmt\<rparr>
     in if \<not> ok then (PushErr 429 '''', [], st0)
        else case array_body ''objects'' bytes_item (lb_de L) msg of
          None \<Rightarrow> (PushErr 400 ''malformed'', [], st0)
        | Some objects \<Rightarrow>
            if objects = [] then (PushErr 400 ''empty_batch'', [], st0)
            else if length objects > MAX_USER_STATUS_BATCH then (PushErr 400 ''batch_too_large'', [], st0)
            else case push_loop (apply_one_user_status L now sndr) fails 0 objects st0 of
              (None, calls, st1) \<Rightarrow> (PushErr 500 ''internal'', calls, st1)
            | (Some results, calls, st1) \<Rightarrow> (PushOk (encode_results us_reason_as_str (lb_ser L) results), calls, st1))"

definition sign_user_status_with_key ::
  "fed_lib \<Rightarrow> bytes \<Rightarrow> UserStatusKind \<Rightarrow> u64 option \<Rightarrow> string \<Rightarrow> string option \<Rightarrow> u64 \<Rightarrow> bytes option \<Rightarrow> (UserStatus \<times> bytes) option" where
  "sign_user_status_with_key L sbj status until signing_instance reason created prior =
     (let s = \<lparr>subject = sbj, us_status = status, suspended_until = until, us_signing_instance = signing_instance,
            us_reason = reason, us_created_at = created, us_prior_status_hash = prior\<rparr>
      in map_option (\<lambda>payload. (s, payload)) (encode (lb_ser L) (UserStatus s)))"

text \<open>Statements: 0 begin, 1 the chain head, 2 the insert, 3 the upsert, 4 commit. \<open>None\<close> is the panic of the encoder.\<close>

definition dispatch_local_user_status ::
  "fed_lib \<Rightarrow> (nat \<Rightarrow> bool) \<Rightarrow> u64 \<Rightarrow> bytes \<Rightarrow> UserStatusKind \<Rightarrow> u64 option \<Rightarrow> string option \<Rightarrow> fed_store
   \<Rightarrow> ((db_error + unit) \<times> forward_call list \<times> fed_store) option" where
  "dispatch_local_user_status L fails now_ms sbj status until reason st =
     (if fails 0 \<or> fails 1 then Some (Inl DbError, [], st)
      else
        let prior = Option.bind (fs_user_statuses st sbj) (\<lambda>r. if length (sw_hash r) = 32 then Some (sw_hash r) else None)
        in Option.bind (sign_user_status_with_key L sbj status until (fs_domain st) reason now_ms prior) (\<lambda>(s, payload).
          let sg = lb_sign L payload; hash = lb_sha L payload
          in if fails 2 \<or> fails 3 \<or> fails 4 then Some (Inl DbError, [], st)
             else
               let st1 = store_signed_object ''user-status'' payload sg hash st;
                   st2 = st1\<lparr>fs_user_statuses := (fs_user_statuses st1)(sbj \<mapsto> user_row s hash)\<rparr>
               in Some (Inr (), [\<lparr>fwd_hash = hash, fwd_class = UserStatusFwd, fwd_key = sbj,
                    fwd_wire = encode_signed_object (lb_ser L) payload sg, fwd_from = None\<rparr>], st2)))"

definition handle_user_status_by_hash :: "fed_lib \<Rightarrow> bool \<Rightarrow> bytes \<Rightarrow> fed_store \<Rightarrow> push_reply" where
  "handle_user_status_by_hash L fails msg st = handle_by_hash L ''user-status'' MAX_USER_STATUS_HASHES fails msg st"

section \<open>What is accepted\<close>

text \<open>The result of an object that was stored.\<close>

definition accepted :: "'r push_result \<Rightarrow> bool" where
  "accepted r \<longleftrightarrow> r = StApplied \<or> r = StSuperseded"

definition us_put :: "UserStatus \<times> bytes \<Rightarrow> user_status_row option \<Rightarrow> user_status_row option" where
  "us_put x old = (if us_new_wins (fst x) (snd x) old then Some (user_row (fst x) (snd x)) else old)"

text \<open>What an accepted object has been checked for, and what it does to the tables.\<close>

definition us_effect :: "fed_lib \<Rightarrow> fed_store \<Rightarrow> bytes \<Rightarrow> bytes \<Rightarrow> UserStatus \<Rightarrow> fed_store \<Rightarrow> bool" where
  "us_effect L st payload sg s st' \<longleftrightarrow>
     fs_objects st' = (fs_objects st)(lb_sha L payload \<mapsto> \<lparr>ob_class = ''user-status'', ob_payload = Some payload, ob_signature = sg\<rparr>) \<and>
     fs_user_statuses st' = (fs_user_statuses st)(subject s := us_put (s, lb_sha L payload) (fs_user_statuses st (subject s)))"

lemma store_fresh:
  "fs_objects st h = None \<Longrightarrow> fs_objects (store_signed_object c p sg h st) =
     (fs_objects st)(h \<mapsto> \<lparr>ob_class = c, ob_payload = Some p, ob_signature = sg\<rparr>)"
  "fs_user_statuses (store_signed_object c p sg h st) = fs_user_statuses st"
  "fs_thread_statuses (store_signed_object c p sg h st) = fs_thread_statuses st"
  by (simp_all add: store_signed_object_def split: option.splits)

lemma us_commit_cases:
  assumes "us_commit L fails now payload sg hash s home arrived st = (res, calls, st')" "fs_objects st hash = None" "hash = lb_sha L payload"
  shows "res = Inl DbError \<and> st' = st \<and> calls = [] \<or>
    res = Inr (hash, if us_new_wins s hash (fs_user_statuses st (subject s)) then StApplied else StSuperseded) \<and>
    us_effect L st payload sg s st' \<and> length calls \<le> 1 \<and> (\<forall>c \<in> set calls. fwd_from c = Some arrived \<and> fwd_key c = subject s)"
  using assms store_fresh [where st = st and h = hash]
  by (auto simp: us_commit_def us_effect_def us_put_def Let_def fun_upd_idem_iff split: if_splits prod.splits)

text \<open>The checks before the commit.\<close>

definition us_checked :: "fed_lib \<Rightarrow> fed_store \<Rightarrow> bytes \<Rightarrow> bytes \<Rightarrow> UserStatus \<Rightarrow> bytes \<Rightarrow> bool" where
  "us_checked L st payload sg s home \<longleftrightarrow> resolve_subject_home_at_t L (subject s) (us_created_at s) st = Some home \<and> lb_key_ok L home \<and>
     (\<exists>p. verify (lb_nfc L) (lb_ser L) (lb_de L) (lb_ed L) payload sg home = Inr p) \<and>
     (\<forall>d. resolve_domain_for_key home st = Some d \<longrightarrow> us_signing_instance s = d) \<and>
     (\<forall>p. us_prior_status_hash s = Some p \<longrightarrow> object_present ''user-status'' p st)"

lemma us_transaction_cases:
  "(\<exists>res. us_transaction L fails now payload sg hash s arrived st = (res, [], st) \<and> (\<forall>h r. res = Inr (h, r) \<longrightarrow> \<not> accepted r)) \<or>
   (\<exists>home. us_checked L st payload sg s home \<and>
      us_transaction L fails now payload sg hash s arrived st = us_commit L fails now payload sg hash s home arrived st)"
proof (cases "resolve_subject_home_at_t L (subject s) (us_created_at s) st")
  case (Some home)
  then show ?thesis
    by (cases "verify (lb_nfc L) (lb_ser L) (lb_de L) (lb_ed L) payload sg home"; cases "us_prior_status_hash s"; cases "resolve_domain_for_key home st")
      (auto simp: us_transaction_def us_reject_def us_checked_def accepted_def)
qed (simp add: us_transaction_def us_reject_def accepted_def)

lemma apply_us_cases:
  assumes "apply_one_user_status L now arrived fails wire st = (res, calls, st')"
  shows "st' = st \<and> (\<forall>h r. res = Inr (h, r) \<longrightarrow> \<not> accepted r) \<or>
    (\<exists>payload sg s r home. decode_signed_object (lb_de L) wire = Some (payload, sg) \<and> fs_objects st (lb_sha L payload) = None \<and>
       parse (lb_nfc L) (lb_ser L) (lb_de L) payload = Inr (UserStatus s) \<and> res = Inr (lb_sha L payload, r) \<and> accepted r \<and>
       us_checked L st payload sg s home \<and> us_effect L st payload sg s st' \<and>
       length calls \<le> 1 \<and> (\<forall>c \<in> set calls. fwd_from c = Some arrived \<and> fwd_key c = subject s))"
proof (cases "\<exists>payload sg s. decode_signed_object (lb_de L) wire = Some (payload, sg) \<and> fs_objects st (lb_sha L payload) = None \<and>
    \<not> fails 0 \<and> parse (lb_nfc L) (lb_ser L) (lb_de L) payload = Inr (UserStatus s)")
  case True
  then obtain payload sg s where d: "decode_signed_object (lb_de L) wire = Some (payload, sg)" "fs_objects st (lb_sha L payload) = None"
    "\<not> fails 0" "parse (lb_nfc L) (lb_ser L) (lb_de L) payload = Inr (UserStatus s)" by blast
  then have t: "us_transaction L fails now payload sg (lb_sha L payload) s arrived st = (res, calls, st')"
    using assms by (simp add: apply_one_user_status_def)
  from us_transaction_cases [of L fails now payload sg "lb_sha L payload" s arrived st] show ?thesis
  proof (elim disjE exE conjE)
    fix home
    assume c: "us_checked L st payload sg s home"
      and u: "us_transaction L fails now payload sg (lb_sha L payload) s arrived st = us_commit L fails now payload sg (lb_sha L payload) s home arrived st"
    from us_commit_cases [OF t [unfolded u] d(2) refl] show ?thesis
      using d(1,2,4) c by (auto simp: accepted_def split: if_splits)
  qed (use t in auto)
next
  case False
  then show ?thesis using assms
    by (auto simp: apply_one_user_status_def us_reject_def accepted_def Let_def
        split: option.splits prod.splits if_splits sum.splits SignedPayload.splits ParseError.splits)
qed

text \<open>C23. Only the home can change a user's status. If a pushed object is accepted, its signature verifies under the key of
  the instance that was the subject's home at the time the object names, whoever delivered it; the domain it declares is that
  instance's where the domain is known; its predecessor is stored; the object is stored under its hash, the status of no
  other subject changes, and it is forwarded at most once, not back to where it came from.\<close>

theorem accepted_status_from_home:
  assumes "apply_one_user_status L now arrived fails wire st = (Inr (h, r), calls, st')" "accepted r"
  shows "\<exists>payload sg s home. decode_signed_object (lb_de L) wire = Some (payload, sg) \<and> h = lb_sha L payload \<and>
    parse (lb_nfc L) (lb_ser L) (lb_de L) payload = Inr (UserStatus s) \<and>
    resolve_subject_home_at_t L (subject s) (us_created_at s) st = Some home \<and> lb_ed L home payload sg \<and> length sg = 64 \<and>
    (\<forall>d. resolve_domain_for_key home st = Some d \<longrightarrow> us_signing_instance s = d) \<and>
    (\<forall>p. us_prior_status_hash s = Some p \<longrightarrow> object_present ''user-status'' p st) \<and>
    object_present ''user-status'' h st' \<and> (\<forall>k. k \<noteq> subject s \<longrightarrow> fs_user_statuses st' k = fs_user_statuses st k) \<and>
    length calls \<le> 1 \<and> (\<forall>c \<in> set calls. fwd_from c = Some arrived \<and> fwd_key c = subject s)"
proof -
  from apply_us_cases [OF assms(1)] assms(2) obtain payload sg s home where
    d: "decode_signed_object (lb_de L) wire = Some (payload, sg)" "parse (lb_nfc L) (lb_ser L) (lb_de L) payload = Inr (UserStatus s)"
      "h = lb_sha L payload" "length calls \<le> 1" "\<forall>c \<in> set calls. fwd_from c = Some arrived \<and> fwd_key c = subject s"
    and c: "us_checked L st payload sg s home" and e: "us_effect L st payload sg s st'" by auto
  from c obtain p where "verify (lb_nfc L) (lb_ser L) (lb_de L) (lb_ed L) payload sg home = Inr p" by (auto simp: us_checked_def)
  from verify_signature [OF this] have "lb_ed L home payload sg" "length sg = 64" by simp_all
  moreover have "object_present ''user-status'' h st'" "\<forall>k. k \<noteq> subject s \<longrightarrow> fs_user_statuses st' k = fs_user_statuses st k"
    using e d(3) by (simp_all add: us_effect_def object_present_def)
  ultimately show ?thesis using d c unfolding us_checked_def by blast
qed

section \<open>Convergence\<close>

text \<open>An object pushed by a peer, with whatever other routes did to the other tables before it.\<close>

record push_event =
  pe_env :: "fed_store \<Rightarrow> fed_store"
  pe_fails :: "nat \<Rightarrow> bool"
  pe_now :: nat
  pe_from :: bytes
  pe_wire :: bytes

definition us_step :: "fed_lib \<Rightarrow> push_event \<Rightarrow> fed_store \<Rightarrow> (UserStatus \<times> bytes) option \<times> fed_store" where
  "us_step L ev st =
     (case apply_one_user_status L (pe_now ev) (pe_from ev) (pe_fails ev) (pe_wire ev) ((pe_env ev st)\<lparr>fs_user_statuses := fs_user_statuses st\<rparr>) of
       (Inr (h, r), _, st') \<Rightarrow> (if accepted r then (case decode_signed_object (lb_de L) (pe_wire ev) of
           Some (payload, _) \<Rightarrow> (case parse (lb_nfc L) (lb_ser L) (lb_de L) payload of Inr (UserStatus s) \<Rightarrow> Some (s, h) | _ \<Rightarrow> None)
         | None \<Rightarrow> None) else None, st')
     | (Inl _, _, st') \<Rightarrow> (None, st'))"

lemma us_step_cases:
  assumes "us_step L ev st = (x, st')"
  shows "case x of None \<Rightarrow> fs_user_statuses st' = fs_user_statuses st
    | Some y \<Rightarrow> fs_user_statuses st' = (fs_user_statuses st)(subject (fst y) := us_put y (fs_user_statuses st (subject (fst y))))"
proof -
  obtain res calls st1 where a: "apply_one_user_status L (pe_now ev) (pe_from ev) (pe_fails ev) (pe_wire ev)
      ((pe_env ev st)\<lparr>fs_user_statuses := fs_user_statuses st\<rparr>) = (res, calls, st1)" by (metis prod_cases3)
  then have s: "st' = st1" using assms by (auto simp: us_step_def split: sum.splits prod.splits)
  from apply_us_cases [OF a] show ?thesis
  proof (elim disjE conjE exE)
    assume "st1 = (pe_env ev st)\<lparr>fs_user_statuses := fs_user_statuses st\<rparr>" "\<forall>h r. res = Inr (h, r) \<longrightarrow> \<not> accepted r"
    then show ?thesis using assms a by (auto simp: us_step_def split: sum.splits prod.splits)
  next
    fix payload sg q r home
    assume "decode_signed_object (lb_de L) (pe_wire ev) = Some (payload, sg)" "parse (lb_nfc L) (lb_ser L) (lb_de L) payload = Inr (UserStatus q)"
      "res = Inr (lb_sha L payload, r)" "accepted r" and e: "us_effect L ((pe_env ev st)\<lparr>fs_user_statuses := fs_user_statuses st\<rparr>) payload sg q st1"
    then have "x = Some (q, lb_sha L payload)" using assms a by (auto simp: us_step_def)
    then show ?thesis using e s by (simp add: us_effect_def)
  qed
qed

abbreviation us_rank :: "UserStatus \<times> bytes \<Rightarrow> nat \<times> bytes" where
  "us_rank x \<equiv> (unat (us_created_at (fst x)), snd x)"

lemma sint_small: "unat (w :: u64) < 2 ^ 63 \<Longrightarrow> sint w = int (unat w)"
proof -
  assume "unat w < 2 ^ 63"
  then have "int (unat w) < int (2 ^ 63)" by (simp only: of_nat_less_iff)
  then have "uint w < 2 ^ 63" by simp
  moreover have "- (2 ^ 63) \<le> uint w" by (rule order_trans [OF _ uint_ge_0]) simp
  ultimately have "signed_take_bit 63 (uint w) = uint w" by (intro signed_take_bit_int_eq_self) simp_all
  then show ?thesis by (simp add: sint_uint)
qed

interpretation us_log: register_log us_put "\<lambda>x. user_row (fst x) (snd x)" us_rank
  "\<lambda>x r. us_new_wins (fst x) (snd x) (Some r)" "\<lambda>x. unat (us_created_at (fst x)) < 2 ^ 63"
  "us_step L" fs_user_statuses "\<lambda>x. subject (fst x)" for L
proof
  show "us_put x old = (case old of None \<Rightarrow> Some (user_row (fst x) (snd x))
    | Some r \<Rightarrow> if us_new_wins (fst x) (snd x) (Some r) then Some (user_row (fst x) (snd x)) else old)" for x old
    by (cases old) (simp_all add: us_put_def us_new_wins_def)
qed (use us_step_cases in \<open>force simp: user_row_def sint_small newer_def us_new_wins_def Let_def\<close>)+


section \<open>Chains\<close>

text \<open>Every stored status has its predecessor stored, and every current row the object it came from.\<close>

definition chain_closed :: "fed_lib \<Rightarrow> fed_store \<Rightarrow> bool" where
  "chain_closed L st \<longleftrightarrow>
     (\<forall>h row p s q. fs_objects st h = Some row \<longrightarrow> ob_class row = ''user-status'' \<longrightarrow> ob_payload row = Some p \<longrightarrow>
        parse (lb_nfc L) (lb_ser L) (lb_de L) p = Inr (UserStatus s) \<longrightarrow> us_prior_status_hash s = Some q \<longrightarrow>
        object_present ''user-status'' q st) \<and>
     (\<forall>k r. fs_user_statuses st k = Some r \<longrightarrow> object_present ''user-status'' (sw_hash r) st)"

lemma effect_keeps:
  "us_effect L st p sg s st' \<Longrightarrow> fs_objects st (lb_sha L p) = None \<Longrightarrow> object_present c q st \<Longrightarrow> object_present c q st'"
  by (auto simp: us_effect_def object_present_def split: option.splits if_splits)

lemma apply_us_closed:
  assumes "chain_closed L st"
  shows "chain_closed L (snd (snd (apply_one_user_status L now arrived fails wire st)))"
proof -
  obtain res calls st' where a: "apply_one_user_status L now arrived fails wire st = (res, calls, st')" by (metis prod_cases3)
  from apply_us_cases [OF a] have "chain_closed L st'"
  proof (elim disjE conjE exE)
    fix payload sg s r home
    assume n: "fs_objects st (lb_sha L payload) = None" and p: "parse (lb_nfc L) (lb_ser L) (lb_de L) payload = Inr (UserStatus s)"
      and c: "us_checked L st payload sg s home" and e: "us_effect L st payload sg s st'"
    have prior: "object_present ''user-status'' q st" if "us_prior_status_hash s = Some q" for q
      using c that by (simp add: us_checked_def)
    have self: "object_present ''user-status'' (lb_sha L payload) st'" using e by (simp add: us_effect_def object_present_def)
    show ?thesis unfolding chain_closed_def
    proof (intro conjI allI impI)
      fix h row q z w
      assume x: "fs_objects st' h = Some row" "ob_class row = ''user-status''" "ob_payload row = Some q"
        "parse (lb_nfc L) (lb_ser L) (lb_de L) q = Inr (UserStatus z)" "us_prior_status_hash z = Some w"
      have "object_present ''user-status'' w st"
      proof (cases "h = lb_sha L payload")
        case True
        then have "z = s" using x(1,3,4) e p by (auto simp: us_effect_def)
        then show ?thesis using prior x(5) by blast
      next
        case False
        then have "fs_objects st h = Some row" using x(1) e by (simp add: us_effect_def)
        then show ?thesis using assms x(2-5) unfolding chain_closed_def by blast
      qed
      then show "object_present ''user-status'' w st'" by (rule effect_keeps [OF e n])
    next
      fix k row
      assume "fs_user_statuses st' k = Some row"
      then have "sw_hash row = lb_sha L payload \<or> fs_user_statuses st k = Some row"
        using e by (auto simp: us_effect_def us_put_def user_row_def split: if_splits)
      then show "object_present ''user-status'' (sw_hash row) st'"
        using self effect_keeps [OF e n] assms by (auto simp: chain_closed_def)
    qed
  qed (use assms in simp)
  then show ?thesis by (simp add: a)
qed

lemma closed_limit [simp]: "chain_closed L (st\<lparr>fs_user_limit := x\<rparr>) = chain_closed L st"
  by (simp add: chain_closed_def object_present_def)

text \<open>The stored chains have no gaps: a push, whatever its objects and failures, keeps that every stored status has its
  predecessor stored and every current status the object it came from, so that a peer that asks for predecessors by hash
  reaches the first status of the chain.\<close>

theorem push_keeps_chains_closed:
  assumes "chain_closed L st"
  shows "chain_closed L (snd (snd (handle_user_status_push L now fails sndr msg st)))"
proof -
  have "chain_closed L (snd (snd (push_loop (apply_one_user_status L now sndr) fails 0 ws (st\<lparr>fs_user_limit := l\<rparr>))))" for ws l
    by (rule push_loop_invariant [where P = "chain_closed L", OF apply_us_closed]) (use assms in simp_all)
  then have "chain_closed L st'" if "push_loop (apply_one_user_status L now sndr) fails 0 ws (st\<lparr>fs_user_limit := l\<rparr>) = (rs, calls, st')"
    for ws l rs calls st' using that by (metis snd_conv)
  then show ?thesis using assms by (simp add: handle_user_status_push_def Let_def split: prod.split option.split)
qed

section \<open>The producer's clock\<close>

lemma us_accepts:
  assumes "decode_signed_object (lb_de L) wire = Some (payload, sg)" "fs_objects st (lb_sha L payload) = None"
    and "parse (lb_nfc L) (lb_ser L) (lb_de L) payload = Inr (UserStatus s)" "us_checked L st payload sg s home"
  shows "\<exists>calls st'. apply_one_user_status L now arrived (\<lambda>_. False) wire st =
      (Inr (lb_sha L payload, if us_new_wins s (lb_sha L payload) (fs_user_statuses st (subject s)) then StApplied else StSuperseded), calls, st') \<and>
    us_effect L st payload sg s st'"
proof -
  have t: "us_transaction L (\<lambda>_. False) now payload sg (lb_sha L payload) s arrived st =
      us_commit L (\<lambda>_. False) now payload sg (lb_sha L payload) s home arrived st"
    using assms(4) by (cases "us_prior_status_hash s"; cases "resolve_domain_for_key home st") (auto simp: us_transaction_def us_checked_def)
  obtain res calls st' where c: "us_commit L (\<lambda>_. False) now payload sg (lb_sha L payload) s home arrived st = (res, calls, st')"
    by (metis prod_cases3)
  have "res \<noteq> Inl DbError" using c by (auto simp: us_commit_def Let_def split: prod.splits)
  with us_commit_cases [OF c assms(2) refl] show ?thesis using assms(1-3) t c by (simp add: apply_one_user_status_def)
qed

lemma verify_status:
  assumes "parse nfc ser de p = Inr (UserStatus s)" "length sg = 64" "ed key p sg"
  shows "verify nfc ser de ed p sg key = Inr (UserStatus s)"
  using assms by (simp add: verify_def guard_def andthen_def map_err_def)

text \<open>C25. A home whose clock steps back cannot moderate its user. The producer writes its own row whatever the time of the
  current status is, while its peers compare: if the clock reads less than the time of the current status, the new status is
  issued and stored at home, and every peer that holds the current one stores the new object as superseded and keeps the
  old status.\<close>

theorem late_clock_status_discarded:
  assumes L: "cbor_codec (lb_ser L) (lb_de L)" "lb_key_ok L (fs_key A)"
    and s: "s = \<lparr>subject = k, us_status = status, suspended_until = until, us_signing_instance = fs_domain A, us_reason = reason,
        us_created_at = now_ms, us_prior_status_hash = Some (sw_hash r)\<rparr>"
      "wf_payload (lb_nfc L) (UserStatus s)" "typed_payload (UserStatus s)"
    and p: "\<And>p. encode (lb_ser L) (UserStatus s) = Some p \<Longrightarrow> length p < 2 ^ 64 \<and> length (lb_sign L p) = 64 \<and>
        lb_ed L (fs_key A) p (lb_sign L p) \<and> fs_objects B (lb_sha L p) = None"
    and A: "fs_user_statuses A k = Some r" "int (unat now_ms) < sw_created_at r"
    and B: "fs_user_statuses B k = Some r" "resolve_subject_home_at_t L k now_ms B = Some (fs_key A)"
        "resolve_domain_for_key (fs_key A) B \<in> {None, Some (fs_domain A)}" "object_present ''user-status'' (sw_hash r) B"
  shows "\<exists>c w h A' calls B'. dispatch_local_user_status L (\<lambda>_. False) now_ms k status until reason A = Some (Inr (), [c], A') \<and>
    fwd_wire c = Some w \<and> fs_user_statuses A' k = Some (user_row s h) \<and>
    apply_one_user_status L now arrived (\<lambda>_. False) w B = (Inr (h, StSuperseded), calls, B') \<and> fs_user_statuses B' k = Some r \<and>
    user_row s h \<noteq> r"
proof -
  have len: "length (sw_hash r) = 32" using s(1,2) by (simp add: opt_len_def)
  obtain b where b: "encode (lb_ser L) (UserStatus s) = Some b" "parse (lb_nfc L) (lb_ser L) (lb_de L) b = Inr (UserStatus s)"
    using encode_total [OF L(1) s(2,3)] by blast
  note pb = p [OF b(1)]
  obtain w where w: "encode_signed_object (lb_ser L) b (lb_sign L b) = Some w" "decode_signed_object (lb_de L) w = Some (b, lb_sign L b)"
    using frame_round_trip [OF L(1), of b "lb_sign L b"] pb by auto
  let ?h = "lb_sha L b" and ?A = "store_signed_object ''user-status'' b (lb_sign L b) (lb_sha L b) A"
  have d: "dispatch_local_user_status L (\<lambda>_. False) now_ms k status until reason A =
      Some (Inr (), [\<lparr>fwd_hash = ?h, fwd_class = UserStatusFwd, fwd_key = k, fwd_wire = Some w, fwd_from = None\<rparr>],
        ?A\<lparr>fs_user_statuses := (fs_user_statuses ?A)(k \<mapsto> user_row s ?h)\<rparr>)"
    using A(1) b(1) w(1) len by (simp add: dispatch_local_user_status_def sign_user_status_with_key_def s(1) Let_def)
  have "verify (lb_nfc L) (lb_ser L) (lb_de L) (lb_ed L) b (lb_sign L b) (fs_key A) = Inr (UserStatus s)"
    using verify_status [OF b(2)] pb by blast
  then have c: "us_checked L B b (lb_sign L b) s (fs_key A)" using L(2) B(2-4) s(1) by (auto simp: us_checked_def)
  have o: "\<not> us_new_wins s ?h (fs_user_statuses B (subject s))"
  proof -
    have "unat now_ms < nat (sw_created_at r)" "0 \<le> sw_created_at r" using A(2) by linarith+
    then show ?thesis using B(1) s(1) by (simp add: us_new_wins_def Let_def)
  qed
  obtain calls B' where a: "apply_one_user_status L now arrived (\<lambda>_. False) w B = (Inr (?h, StSuperseded), calls, B')" "us_effect L B b (lb_sign L b) s B'"
    using us_accepts [OF w(2) _ b(2) c, of now arrived] pb o by auto
  have "fs_user_statuses B' k = Some r" using a(2) o B(1) s(1) by (simp add: us_effect_def us_put_def)
  moreover have "user_row s ?h \<noteq> r"
  proof
    assume "user_row s ?h = r"
    then have "sw_created_at r = sint now_ms" using s(1) by (auto simp: user_row_def)
    moreover have "sint now_ms < 2 ^ 63" using sint_less [of now_ms] by simp
    ultimately have "int (unat now_ms) < int (2 ^ 63)" using A(2) by simp
    then have "sint now_ms = int (unat now_ms)" by (intro sint_small) (simp only: of_nat_less_iff)
    with \<open>sw_created_at r = sint now_ms\<close> show False using A(2) by simp
  qed
  ultimately show ?thesis using d a(1)
    by (intro exI [of _ "\<lparr>fwd_hash = ?h, fwd_class = UserStatusFwd, fwd_key = k, fwd_wire = Some w, fwd_from = None\<rparr>"] exI [of _ w] exI [of _ ?h]
        exI [of _ "?A\<lparr>fs_user_statuses := (fs_user_statuses ?A)(k \<mapsto> user_row s ?h)\<rparr>"] exI [of _ calls] exI [of _ B']) simp
qed

section \<open>Examples\<close>

text \<open>A library whose digest is taken from the time of the status, and whose signatures repeat the first byte of the key.\<close>

definition demo_lib :: fed_lib where
  "demo_lib = \<lparr>lb_nfc = id, lb_ser = rfc_ser, lb_de = rfc_de, lb_ed = (\<lambda>k p sg. sg = replicate 64 (hd k)), lb_key_ok = (\<lambda>_. True),
     lb_sha = (\<lambda>p. case parse id rfc_ser rfc_de p of Inr (UserStatus s) \<Rightarrow> replicate 32 (ucast (us_created_at s)) | _ \<Rightarrow> replicate 32 0),
     lb_sign = (\<lambda>_. replicate 64 9)\<rparr>"

definition demo_status :: "u64 \<Rightarrow> bytes option \<Rightarrow> UserStatus" where
  "demo_status t pr = \<lparr>subject = replicate 32 7, us_status = Banned, suspended_until = None, us_signing_instance = ''b'', us_reason = None,
     us_created_at = t, us_prior_status_hash = pr\<rparr>"

definition demo_payload :: "u64 \<Rightarrow> bytes option \<Rightarrow> bytes" where
  "demo_payload t pr = the (encode rfc_ser (UserStatus (demo_status t pr)))"

definition demo_wire :: "u64 \<Rightarrow> bytes option \<Rightarrow> bytes" where
  "demo_wire t pr = the (encode_signed_object rfc_ser (demo_payload t pr) (replicate 64 9))"

lemma demo_status_ok:
  assumes "opt_len 32 pr"
  shows "wf_payload nfc (UserStatus (demo_status t pr))" "typed_payload (UserStatus (demo_status t pr))"
proof -
  have "rust_string ''b''" by (rule ascii_rust_string) simp_all
  with assms show "wf_payload nfc (UserStatus (demo_status t pr))" "typed_payload (UserStatus (demo_status t pr))"
    by (simp_all add: demo_status_def typed_payload_def opt_list_def)
qed

lemma status_size:
  assumes "encode rfc_ser (UserStatus s) = Some b" "wf_payload nfc (UserStatus s)" "length (us_signing_instance s) \<le> 1000" "us_reason s = None"
  shows "length b < 2 ^ 64"
proof -
  have "list_all (is_leaf \<circ> snd) (user_status_entries s)"
    by (auto simp: user_status_entries_def opt_entry_def is_leaf_def v_uint_def split: option.splits)
  from rfc_map_size [OF this] assms(1) have "length b \<le> 9 + (\<Sum>x\<leftarrow>user_status_entries s. 9 + length (fst x) + leaf_size (snd x))"
    by (simp add: encode_def user_status_to_cbor_def)
  also have "\<dots> \<le> 3000"
    using assms(2-4) by (cases "us_status s") (auto simp: user_status_entries_def opt_entry_def opt_len_def leaf_size_def v_uint_def
        TAG_USER_STATUS_def split: option.splits)
  finally show ?thesis by simp
qed

lemma demo_wire:
  assumes "opt_len 32 pr"
  shows "encode rfc_ser (UserStatus (demo_status t pr)) = Some (demo_payload t pr)"
    "parse id rfc_ser rfc_de (demo_payload t pr) = Inr (UserStatus (demo_status t pr))" "length (demo_payload t pr) < 2 ^ 64"
    "encode_signed_object rfc_ser (demo_payload t pr) (replicate 64 9) = Some (demo_wire t pr)"
    "decode_signed_object rfc_de (demo_wire t pr) = Some (demo_payload t pr, replicate 64 9)"
    "lb_sha demo_lib (demo_payload t pr) = replicate 32 (ucast t)"
proof -
  obtain b where b: "encode rfc_ser (UserStatus (demo_status t pr)) = Some b" "parse id rfc_ser rfc_de b = Inr (UserStatus (demo_status t pr))"
    using encode_total [OF rfc.cbor_codec_axioms demo_status_ok [OF assms]] by metis
  then show e: "encode rfc_ser (UserStatus (demo_status t pr)) = Some (demo_payload t pr)"
    and p: "parse id rfc_ser rfc_de (demo_payload t pr) = Inr (UserStatus (demo_status t pr))" by (simp_all add: demo_payload_def)
  show n: "length (demo_payload t pr) < 2 ^ 64" using status_size [OF e demo_status_ok(1) [OF assms]] by (simp add: demo_status_def)
  obtain w where "encode_signed_object rfc_ser (demo_payload t pr) (replicate 64 9) = Some w"
    "decode_signed_object rfc_de w = Some (demo_payload t pr, replicate 64 9)"
    using frame_round_trip [OF rfc.cbor_codec_axioms n, of "replicate 64 9"] by auto
  then show "encode_signed_object rfc_ser (demo_payload t pr) (replicate 64 9) = Some (demo_wire t pr)"
    "decode_signed_object rfc_de (demo_wire t pr) = Some (demo_payload t pr, replicate 64 9)" by (simp_all add: demo_wire_def)
  show "lb_sha demo_lib (demo_payload t pr) = replicate 32 (ucast t)" using p by (simp add: demo_lib_def demo_status_def)
qed

text \<open>A store of the instance \<open>key\<close> that knows the subject as a user of the instance with key \<open>9\<close>.\<close>

definition demo_store :: "bytes \<Rightarrow> (bytes \<rightharpoonup> object_row) \<Rightarrow> (bytes \<rightharpoonup> user_status_row) \<Rightarrow> fed_store" where
  "demo_store key obs rows = \<lparr>fs_objects = obs, fs_users = [replicate 32 7 \<mapsto> \<lparr>ue_home = Some (replicate 32 9), ue_signup = ''federated'',
       ue_signing_key = False, ue_sessions = 0, ue_credentials = 0\<rparr>],
     fs_moves = [], fs_homes = Map.empty, fs_genesis = Map.empty, fs_peers = Map.empty, fs_threads = Map.empty, fs_user_statuses = rows,
     fs_thread_statuses = Map.empty, fs_key = key, fs_domain = ''b'', fs_user_limit = for_user_status, fs_thread_limit = for_thread_status,
     fs_status_limit = content_default, fs_move_limit = content_default\<rparr>"

lemma demo_checked:
  assumes "opt_len 32 pr" "\<forall>q. pr = Some q \<longrightarrow> object_present ''user-status'' q st" "fs_moves st = []"
    "fs_users st (replicate 32 7) = fs_users (demo_store (replicate 32 1) obs rows) (replicate 32 7)" "fs_key st = replicate 32 1" "fs_peers st = Map.empty"
  shows "us_checked demo_lib st (demo_payload t pr) (replicate 64 9) (demo_status t pr) (replicate 32 9)"
proof -
  have "verify id rfc_ser rfc_de (lb_ed demo_lib) (demo_payload t pr) (replicate 64 9) (replicate 32 9) = Inr (UserStatus (demo_status t pr))"
    by (rule verify_status [OF demo_wire(2) [OF assms(1)]]) (simp_all add: demo_lib_def)
  moreover have "replicate 32 (9 :: u8) \<noteq> replicate 32 1" by (simp add: replicate_eq_replicate)
  ultimately show ?thesis using assms(2-6)
    by (auto simp: us_checked_def demo_lib_def demo_status_def resolve_subject_home_at_t_def resolve_domain_for_key_def demo_store_def)
qed

theorem accepted_status_from_home_witness:
  "\<exists>r calls st' payload sg s. apply_one_user_status demo_lib 0 (replicate 32 5) (\<lambda>_. False) (demo_wire 4 None) (demo_store (replicate 32 1) Map.empty Map.empty) =
      (Inr (replicate 32 4, r), calls, st') \<and> decode_signed_object rfc_de (demo_wire 4 None) = Some (payload, sg) \<and>
    resolve_subject_home_at_t demo_lib (subject (s :: UserStatus)) (us_created_at s) (demo_store (replicate 32 1) Map.empty Map.empty) = Some (replicate 32 9) \<and>
    lb_ed demo_lib (replicate 32 9) payload sg \<and> object_present ''user-status'' (replicate 32 4) st'"
proof -
  let ?st = "demo_store (replicate 32 1) Map.empty Map.empty"
  have c: "us_checked demo_lib ?st (demo_payload 4 None) (replicate 64 9) (demo_status 4 None) (replicate 32 9)"
    by (rule demo_checked) (simp_all add: demo_store_def opt_len_def)
  note w = demo_wire [of None 4, simplified opt_len_def option.simps, OF TrueI]
  from us_accepts [where L = demo_lib and st = ?st, OF _ _ _ c, of "demo_wire 4 None" 0 "replicate 32 5"] w obtain r calls st' where
    a: "apply_one_user_status demo_lib 0 (replicate 32 5) (\<lambda>_. False) (demo_wire 4 None) ?st = (Inr (replicate 32 4, r), calls, st')" "accepted r"
    by (auto simp: demo_lib_def demo_store_def accepted_def)
  from accepted_status_from_home [OF a] w(2,5) obtain payload sg s home where x: "decode_signed_object rfc_de (demo_wire 4 None) = Some (payload, sg)"
    "resolve_subject_home_at_t demo_lib (subject s) (us_created_at s) ?st = Some home" "lb_ed demo_lib home payload sg"
    "object_present ''user-status'' (replicate 32 4) st'" "s = demo_status 4 None"
    by (auto simp: demo_lib_def)
  have "home = replicate 32 9" using x(2,5) c by (simp add: us_checked_def)
  with a(1) x show ?thesis by blast
qed

lemma demo_closed: "chain_closed L (demo_store key Map.empty Map.empty)"
  by (simp add: chain_closed_def demo_store_def)

theorem push_keeps_chains_closed_witness:
  "chain_closed demo_lib (snd (snd (handle_user_status_push demo_lib 0 (\<lambda>_ _. False) (replicate 32 5) [] (demo_store (replicate 32 1) Map.empty Map.empty))))"
  by (rule push_keeps_chains_closed [OF demo_closed])

text \<open>Two instances get two statuses in opposite orders.\<close>

definition demo_event :: "u64 \<Rightarrow> push_event" where
  "demo_event t = \<lparr>pe_env = id, pe_fails = (\<lambda>_. False), pe_now = 0, pe_from = replicate 32 5, pe_wire = demo_wire t None\<rparr>"

lemma demo_step:
  assumes "fs_objects st (replicate 32 (ucast t)) = None" "fs_moves st = []" "fs_peers st = Map.empty"
    "fs_users st = fs_users (demo_store (replicate 32 1) Map.empty Map.empty)" "fs_key st = replicate 32 1"
  shows "\<exists>st'. us_step demo_lib (demo_event t) st = (Some (demo_status t None, replicate 32 (ucast t)), st') \<and>
    fs_objects st' = (fs_objects st)(replicate 32 (ucast t) \<mapsto> \<lparr>ob_class = ''user-status'', ob_payload = Some (demo_payload t None), ob_signature = replicate 64 9\<rparr>) \<and>
    fs_moves st' = fs_moves st \<and> fs_peers st' = fs_peers st \<and> fs_users st' = fs_users st \<and> fs_key st' = fs_key st"
proof -
  have n: "opt_len 32 None" by (simp add: opt_len_def)
  have c: "us_checked demo_lib st (demo_payload t None) (replicate 64 9) (demo_status t None) (replicate 32 9)"
    using assms by (intro demo_checked) (auto simp: n)
  have d: "decode_signed_object (lb_de demo_lib) (demo_wire t None) = Some (demo_payload t None, replicate 64 9)"
    "parse (lb_nfc demo_lib) (lb_ser demo_lib) (lb_de demo_lib) (demo_payload t None) = Inr (UserStatus (demo_status t None))"
    using demo_wire(2,5) [OF n] by (simp_all add: demo_lib_def)
  note sha = demo_wire(6) [OF n, of t]
  obtain calls st' where a: "apply_one_user_status demo_lib 0 (replicate 32 5) (\<lambda>_. False) (demo_wire t None) st =
      (Inr (replicate 32 (ucast t), if us_new_wins (demo_status t None) (replicate 32 (ucast t)) (fs_user_statuses st (subject (demo_status t None)))
         then StApplied else StSuperseded), calls, st')"
    "us_effect demo_lib st (demo_payload t None) (replicate 64 9) (demo_status t None) st'"
    using us_accepts [OF d(1) _ d(2) c, of 0 "replicate 32 5"] assms(1) sha by auto
  have k: "fs_moves st' = fs_moves st \<and> fs_peers st' = fs_peers st \<and> fs_users st' = fs_users st \<and> fs_key st' = fs_key st"
    using a(1) d assms(1) sha
    by (auto simp: apply_one_user_status_def us_transaction_def us_reject_def us_commit_def store_signed_object_def Let_def
        split: if_splits option.splits sum.splits prod.splits)
  have "us_step demo_lib (demo_event t) st = (Some (demo_status t None, replicate 32 (ucast t)), st')"
    using a(1) d by (simp add: us_step_def demo_event_def accepted_def)
  with k a(2) sha show ?thesis by (simp add: us_effect_def)
qed


theorem late_clock_status_discarded_witness:
  "\<exists>c w h A' calls B'. dispatch_local_user_status demo_lib (\<lambda>_. False) 5 (replicate 32 7) Banned None None
      (demo_store (replicate 32 9) Map.empty [replicate 32 7 \<mapsto> user_row (demo_status 6 None) (replicate 32 6)]) = Some (Inr (), [c], A') \<and>
    fwd_wire c = Some w \<and>
    apply_one_user_status demo_lib 0 (replicate 32 9) (\<lambda>_. False) w
      (demo_store (replicate 32 1) [replicate 32 6 \<mapsto> \<lparr>ob_class = ''user-status'', ob_payload = Some [], ob_signature = []\<rparr>]
        [replicate 32 7 \<mapsto> user_row (demo_status 6 None) (replicate 32 6)]) = (Inr (h, StSuperseded), calls, B') \<and>
    fs_user_statuses A' (replicate 32 7) \<noteq> fs_user_statuses B' (replicate 32 7)"
proof -
  let ?r = "user_row (demo_status 6 None) (replicate 32 6)"
  let ?A = "demo_store (replicate 32 9) Map.empty [replicate 32 7 \<mapsto> ?r]"
  let ?B = "demo_store (replicate 32 1) [replicate 32 6 \<mapsto> \<lparr>ob_class = ''user-status'', ob_payload = Some [], ob_signature = []\<rparr>] [replicate 32 7 \<mapsto> ?r]"
  let ?s = "demo_status 5 (Some (replicate 32 6))"
  have n: "opt_len 32 (Some (replicate 32 (6 :: u8)))" by (simp add: opt_len_def)
  have ne: "replicate 32 (5 :: u8) \<noteq> replicate 32 6" "replicate 32 (9 :: u8) \<noteq> replicate 32 1" by (simp_all add: replicate_eq_replicate)
  have r: "sw_hash ?r = replicate 32 6" "sw_created_at ?r = 6" by (simp_all add: user_row_def demo_status_def sint_small)
  have "\<exists>c w h A' calls B'. dispatch_local_user_status demo_lib (\<lambda>_. False) 5 (replicate 32 7) Banned None None ?A = Some (Inr (), [c], A') \<and>
    fwd_wire c = Some w \<and> fs_user_statuses A' (replicate 32 7) = Some (user_row ?s h) \<and>
    apply_one_user_status demo_lib 0 (replicate 32 9) (\<lambda>_. False) w ?B = (Inr (h, StSuperseded), calls, B') \<and>
    fs_user_statuses B' (replicate 32 7) = Some ?r \<and> user_row ?s h \<noteq> ?r"
  proof (rule late_clock_status_discarded [where k = "replicate 32 7" and r = ?r])
    show "cbor_codec (lb_ser demo_lib) (lb_de demo_lib)" using rfc.cbor_codec_axioms by (simp add: demo_lib_def)
    show "?s = \<lparr>subject = replicate 32 7, us_status = Banned, suspended_until = None, us_signing_instance = fs_domain ?A, us_reason = None,
        us_created_at = 5, us_prior_status_hash = Some (sw_hash ?r)\<rparr>"
      unfolding r by (simp add: demo_status_def demo_store_def)
    show "length p < 2 ^ 64 \<and> length (lb_sign demo_lib p) = 64 \<and> lb_ed demo_lib (fs_key ?A) p (lb_sign demo_lib p) \<and>
        fs_objects ?B (lb_sha demo_lib p) = None" if "encode (lb_ser demo_lib) (UserStatus ?s) = Some p" for p
    proof -
      have p: "p = demo_payload 5 (Some (replicate 32 6))" using that demo_wire(1) [OF n, of 5] by (simp add: demo_lib_def)
      show ?thesis using demo_wire(3,6) [OF n, of 5] ne unfolding p by (simp add: demo_store_def) (simp add: demo_lib_def)
    qed
    show "int (unat (5 :: u64)) < sw_created_at ?r" by (simp add: r)
    show "resolve_subject_home_at_t demo_lib (replicate 32 7) 5 ?B = Some (fs_key ?A)"
      by (simp add: resolve_subject_home_at_t_def demo_store_def)
    show "resolve_domain_for_key (fs_key ?A) ?B \<in> {None, Some (fs_domain ?A)}" using ne by (simp add: resolve_domain_for_key_def demo_store_def)
    show "object_present ''user-status'' (sw_hash ?r) ?B" by (simp add: object_present_def demo_store_def r)
  qed (use demo_status_ok [OF n] in \<open>simp_all add: demo_lib_def demo_store_def\<close>)
  then obtain c w h A' calls B' where x: "dispatch_local_user_status demo_lib (\<lambda>_. False) 5 (replicate 32 7) Banned None None ?A = Some (Inr (), [c], A')"
    "fwd_wire c = Some w" "apply_one_user_status demo_lib 0 (replicate 32 9) (\<lambda>_. False) w ?B = (Inr (h, StSuperseded), calls, B')"
    and y: "fs_user_statuses A' (replicate 32 7) = Some (user_row ?s h)" "fs_user_statuses B' (replicate 32 7) = Some ?r" "user_row ?s h \<noteq> ?r"
    by blast
  from y have "fs_user_statuses A' (replicate 32 7) \<noteq> fs_user_statuses B' (replicate 32 7)" by simp
  with x show ?thesis by blast
qed

end
