(* ===== verification/Thread_Status.thy ===== *)
theory Thread_Status
  imports User_Status
begin

text \<open>
  \<open>server/src/federation/thread_status.rs\<close>: the push of signed thread statuses, the local producer and the by-hash responder.
  The home of a thread is fixed when it is created, and an accepted status also sets the flag that the reply handlers test.
  Shown: what is accepted was signed by the home of the thread; the flag agrees with the current status after every push; and
  instances converge on the status of a thread.
\<close>

section \<open>Operations\<close>

definition MAX_THREAD_STATUS_BATCH :: nat where "MAX_THREAD_STATUS_BATCH = 256"
definition MAX_THREAD_STATUS_HASHES :: nat where "MAX_THREAD_STATUS_HASHES = 50"

datatype ThreadStatusRejectReason =
  TsInvalidSignature | TsSchemaInvalid | TsUnauthorizedSigner | TsUnknownClass

fun ts_reason_as_str :: "ThreadStatusRejectReason \<Rightarrow> string" where
  "ts_reason_as_str TsInvalidSignature = ''invalid_signature''"
| "ts_reason_as_str TsSchemaInvalid = ''schema_invalid''"
| "ts_reason_as_str TsUnauthorizedSigner = ''unauthorized_signer''"
| "ts_reason_as_str TsUnknownClass = ''unknown_class''"

type_synonym ThreadStatusResultKind = "ThreadStatusRejectReason push_result"
type_synonym ts_outcome = "(db_error + bytes \<times> ThreadStatusResultKind) \<times> forward_call list \<times> fed_store"

definition ts_reject :: "bytes \<Rightarrow> ThreadStatusRejectReason \<Rightarrow> fed_store \<Rightarrow> ts_outcome" where
  "ts_reject hash reason st = (Inr (hash, StRejected reason), [], st)"

definition thread_row :: "ThreadStatus \<Rightarrow> bytes \<Rightarrow> status_row" where
  "thread_row s hash = \<lparr>sw_status = thread_status_as_str (ts_status s), sw_signing_instance = ts_signing_instance s,
     sw_reason = ts_reason s, sw_created_at = sint (ts_created_at s), sw_hash = hash\<rparr>"

text \<open>The comparison with the stored row; a negative column reads as 0.\<close>

definition ts_new_wins :: "ThreadStatus \<Rightarrow> bytes \<Rightarrow> status_row option \<Rightarrow> bool" where
  "ts_new_wins s hash existing = (case existing of
     None \<Rightarrow> True
   | Some row \<Rightarrow>
       let prior_ts = (if 0 \<le> sw_created_at row then nat (sw_created_at row) else 0); ts = unat (ts_created_at s)
       in if ts > prior_ts then True else if ts < prior_ts then False else hash < sw_hash row)"

text \<open>\<open>UPDATE threads SET locked\<close>.\<close>

definition set_locked :: "bytes \<Rightarrow> bool \<Rightarrow> fed_store \<Rightarrow> fed_store" where
  "set_locked tid b st = st\<lparr>fs_threads := (fs_threads st)(tid := map_option (\<lambda>te. te\<lparr>te_locked := b\<rparr>) (fs_threads st tid))\<rparr>"

text \<open>The end of the transaction and the forward. Statements: 4 the current row, 5 the insert, 6 the upsert, 7 the flag, 8 commit.\<close>

definition ts_commit ::
  "fed_lib \<Rightarrow> (nat \<Rightarrow> bool) \<Rightarrow> nat \<Rightarrow> bytes \<Rightarrow> bytes \<Rightarrow> bytes \<Rightarrow> ThreadStatus \<Rightarrow> bytes \<Rightarrow> bytes \<Rightarrow> bytes \<Rightarrow> fed_store \<Rightarrow> ts_outcome" where
  "ts_commit L fails now payload sg hash s home author arrived st =
     (let new_wins = ts_new_wins s hash (fs_thread_statuses st (ts_thread_id s));
          st1 = store_signed_object ''thread-status'' payload sg hash st;
          st2 = (if new_wins then set_locked (ts_thread_id s) (ts_status s = Locked)
              (st1\<lparr>fs_thread_statuses := (fs_thread_statuses st1)(ts_thread_id s \<mapsto> thread_row s hash)\<rparr>) else st1)
      in if fails 4 \<or> fails 5 \<or> new_wins \<and> (fails 6 \<or> fails 7) \<or> fails 8 then (Inl DbError, [], st)
         else case check_and_count_at (fs_status_limit st2) home 1 now of (ok, lmt) \<Rightarrow>
           (Inr (hash, if new_wins then StApplied else StSuperseded),
            if ok then [\<lparr>fwd_hash = hash, fwd_class = ThreadStatusFwd, fwd_key = author,
              fwd_wire = encode_signed_object (lb_ser L) payload sg, fwd_from = Some arrived\<rparr>] else [],
            st2\<lparr>fs_status_limit := lmt\<rparr>))"

text \<open>The transaction. Statements: 1 begin and the row of the thread, 2 the peer's domain, 3 the predecessor.\<close>

definition ts_transaction ::
  "fed_lib \<Rightarrow> (nat \<Rightarrow> bool) \<Rightarrow> nat \<Rightarrow> bytes \<Rightarrow> bytes \<Rightarrow> bytes \<Rightarrow> ThreadStatus \<Rightarrow> bytes \<Rightarrow> fed_store \<Rightarrow> ts_outcome" where
  "ts_transaction L fails now payload sg hash s arrived st =
     (if fails 1 then (Inl DbError, [], st)
      else case fs_threads st (ts_thread_id s) of
        None \<Rightarrow> (Inr (hash, StDeferred), [], st)
      | Some te \<Rightarrow>
          let home = (case te_home te of None \<Rightarrow> fs_key st | Some h \<Rightarrow> h)
          in if te_home te \<noteq> None \<and> length home \<noteq> 32 then ts_reject hash TsUnauthorizedSigner st
             else if \<not> lb_key_ok L home then ts_reject hash TsInvalidSignature st
             else case verify (lb_nfc L) (lb_ser L) (lb_de L) (lb_ed L) payload sg home of
               Inl _ \<Rightarrow> ts_reject hash TsInvalidSignature st
             | Inr _ \<Rightarrow>
                 if home \<noteq> fs_key st \<and> fails 2 then (Inl DbError, [], st)
                 else if (case resolve_domain_for_key home st of Some d \<Rightarrow> ts_signing_instance s \<noteq> d | None \<Rightarrow> False)
                 then ts_reject hash TsUnauthorizedSigner st
                 else if ts_prior_status_hash s \<noteq> None \<and> fails 3 then (Inl DbError, [], st)
                 else if (case ts_prior_status_hash s of Some p \<Rightarrow> \<not> object_present ''thread-status'' p st | None \<Rightarrow> False)
                 then (Inr (hash, StDeferred), [], st)
                 else ts_commit L fails now payload sg hash s home (te_author te) arrived st)"

text \<open>Statement 0 is the dedup query, outside of the transaction.\<close>

definition apply_one_thread_status ::
  "fed_lib \<Rightarrow> nat \<Rightarrow> bytes \<Rightarrow> (nat \<Rightarrow> bool) \<Rightarrow> bytes \<Rightarrow> fed_store \<Rightarrow> ts_outcome" where
  "apply_one_thread_status L now arrived fails wire st = (case decode_signed_object (lb_de L) wire of
     None \<Rightarrow> ts_reject (lb_sha L wire) TsSchemaInvalid st
   | Some (payload, sg) \<Rightarrow>
       let hash = lb_sha L payload
       in if fails 0 then (Inl DbError, [], st)
          else case fs_objects st hash of
            Some row \<Rightarrow> if ob_payload row = None then ts_reject hash TsSchemaInvalid st else (Inr (hash, StDuplicate), [], st)
          | None \<Rightarrow> (case parse (lb_nfc L) (lb_ser L) (lb_de L) payload of
              Inr (ThreadStatus s) \<Rightarrow> ts_transaction L fails now payload sg hash s arrived st
            | Inr _ \<Rightarrow> ts_reject hash TsSchemaInvalid st
            | Inl (UnknownClass _) \<Rightarrow> ts_reject hash TsUnknownClass st
            | Inl _ \<Rightarrow> ts_reject hash TsSchemaInvalid st))"

definition handle_thread_status_push ::
  "fed_lib \<Rightarrow> nat \<Rightarrow> (nat \<Rightarrow> nat \<Rightarrow> bool) \<Rightarrow> bytes \<Rightarrow> bytes \<Rightarrow> fed_store \<Rightarrow> push_reply \<times> forward_call list \<times> fed_store" where
  "handle_thread_status_push L now fails sndr msg st = (case push_try_admit_at (fs_thread_limit st) sndr now of (ok, lmt) \<Rightarrow>
     let st0 = st\<lparr>fs_thread_limit := lmt\<rparr>
     in if \<not> ok then (PushErr 429 '''', [], st0)
        else case array_body ''objects'' bytes_item (lb_de L) msg of
          None \<Rightarrow> (PushErr 400 ''malformed'', [], st0)
        | Some objects \<Rightarrow>
            if objects = [] then (PushErr 400 ''empty_batch'', [], st0)
            else if length objects > MAX_THREAD_STATUS_BATCH then (PushErr 400 ''batch_too_large'', [], st0)
            else case push_loop (apply_one_thread_status L now sndr) fails 0 objects st0 of
              (None, calls, st1) \<Rightarrow> (PushErr 500 ''internal'', calls, st1)
            | (Some results, calls, st1) \<Rightarrow> (PushOk (encode_results ts_reason_as_str (lb_ser L) results), calls, st1))"

definition sign_thread_status_with_key ::
  "fed_lib \<Rightarrow> bytes \<Rightarrow> ThreadStatusKind \<Rightarrow> string \<Rightarrow> string option \<Rightarrow> u64 \<Rightarrow> bytes option \<Rightarrow> (ThreadStatus \<times> bytes) option" where
  "sign_thread_status_with_key L tid status signing_instance reason created prior =
     (let s = \<lparr>ts_thread_id = tid, ts_status = status, ts_signing_instance = signing_instance, ts_reason = reason,
            ts_created_at = created, ts_prior_status_hash = prior\<rparr>
      in map_option (\<lambda>payload. (s, payload)) (encode (lb_ser L) (ThreadStatus s)))"

text \<open>Statements: 0 begin, 1 the row of the thread, 2 the chain head, 3 the insert, 4 the upsert, 5 commit. \<open>None\<close> is the panic of
  the encoder.\<close>

definition dispatch_local_thread_status ::
  "fed_lib \<Rightarrow> (nat \<Rightarrow> bool) \<Rightarrow> u64 \<Rightarrow> bytes \<Rightarrow> ThreadStatusKind \<Rightarrow> string option \<Rightarrow> fed_store
   \<Rightarrow> ((db_error + unit) \<times> forward_call list \<times> fed_store) option" where
  "dispatch_local_thread_status L fails now_ms tid status reason st =
     (if fails 0 \<or> fails 1 then Some (Inl DbError, [], st)
      else case fs_threads st tid of
        None \<Rightarrow> Some (Inr (), [], st)
      | Some te \<Rightarrow>
          if te_home te \<noteq> None then Some (Inr (), [], st)
          else if fails 2 then Some (Inl DbError, [], st)
          else
            let prior = Option.bind (fs_thread_statuses st tid) (\<lambda>r. if length (sw_hash r) = 32 then Some (sw_hash r) else None)
            in Option.bind (sign_thread_status_with_key L tid status (fs_domain st) reason now_ms prior) (\<lambda>(s, payload).
              let sg = lb_sign L payload; hash = lb_sha L payload
              in if fails 3 \<or> fails 4 \<or> fails 5 then Some (Inl DbError, [], st)
                 else
                   let st1 = store_signed_object ''thread-status'' payload sg hash st;
                       st2 = st1\<lparr>fs_thread_statuses := (fs_thread_statuses st1)(tid \<mapsto> thread_row s hash)\<rparr>
                   in Some (Inr (), [\<lparr>fwd_hash = hash, fwd_class = ThreadStatusFwd, fwd_key = te_author te,
                        fwd_wire = encode_signed_object (lb_ser L) payload sg, fwd_from = None\<rparr>], st2)))"

definition handle_thread_status_by_hash :: "fed_lib \<Rightarrow> bool \<Rightarrow> bytes \<Rightarrow> fed_store \<Rightarrow> push_reply" where
  "handle_thread_status_by_hash L fails msg st = handle_by_hash L ''thread-status'' MAX_THREAD_STATUS_HASHES fails msg st"

section \<open>What is accepted\<close>

definition ts_put :: "ThreadStatus \<times> bytes \<Rightarrow> status_row option \<Rightarrow> status_row option" where
  "ts_put x old = (if ts_new_wins (fst x) (snd x) old then Some (thread_row (fst x) (snd x)) else old)"

definition thread_home :: "fed_store \<Rightarrow> bytes \<Rightarrow> bytes option" where
  "thread_home st tid = map_option (\<lambda>te. case te_home te of None \<Rightarrow> fs_key st | Some h \<Rightarrow> h) (fs_threads st tid)"

definition ts_checked :: "fed_lib \<Rightarrow> fed_store \<Rightarrow> bytes \<Rightarrow> bytes \<Rightarrow> ThreadStatus \<Rightarrow> bytes \<Rightarrow> bool" where
  "ts_checked L st payload sg s home \<longleftrightarrow> thread_home st (ts_thread_id s) = Some home \<and> lb_key_ok L home \<and>
     (\<exists>p. verify (lb_nfc L) (lb_ser L) (lb_de L) (lb_ed L) payload sg home = Inr p) \<and>
     (\<forall>d. resolve_domain_for_key home st = Some d \<longrightarrow> ts_signing_instance s = d) \<and>
     (\<forall>p. ts_prior_status_hash s = Some p \<longrightarrow> object_present ''thread-status'' p st)"

definition ts_effect :: "fed_lib \<Rightarrow> fed_store \<Rightarrow> bytes \<Rightarrow> bytes \<Rightarrow> ThreadStatus \<Rightarrow> fed_store \<Rightarrow> bool" where
  "ts_effect L st payload sg s st' \<longleftrightarrow>
     fs_objects st' = (fs_objects st)(lb_sha L payload \<mapsto> \<lparr>ob_class = ''thread-status'', ob_payload = Some payload, ob_signature = sg\<rparr>) \<and>
     fs_thread_statuses st' = (fs_thread_statuses st)(ts_thread_id s := ts_put (s, lb_sha L payload) (fs_thread_statuses st (ts_thread_id s))) \<and>
     fs_threads st' = (if ts_new_wins s (lb_sha L payload) (fs_thread_statuses st (ts_thread_id s))
       then (fs_threads st)(ts_thread_id s := map_option (\<lambda>te. te\<lparr>te_locked := (ts_status s = Locked)\<rparr>) (fs_threads st (ts_thread_id s)))
       else fs_threads st)"

lemma store_threads [simp]: "fs_threads (store_signed_object c p sg h st) = fs_threads st"
  by (simp add: store_signed_object_def split: option.splits)

lemma ts_commit_cases:
  assumes "ts_commit L fails now payload sg hash s home author arrived st = (res, calls, st')" "fs_objects st hash = None" "hash = lb_sha L payload"
  shows "res = Inl DbError \<and> st' = st \<or>
    res = Inr (hash, if ts_new_wins s hash (fs_thread_statuses st (ts_thread_id s)) then StApplied else StSuperseded) \<and> ts_effect L st payload sg s st'"
  using assms store_fresh [where st = st and h = hash]
  by (auto simp: ts_commit_def ts_effect_def ts_put_def set_locked_def Let_def fun_upd_idem_iff split: if_splits prod.splits)

lemma ts_transaction_cases:
  "(\<exists>res. ts_transaction L fails now payload sg hash s arrived st = (res, [], st) \<and> (\<forall>h r. res = Inr (h, r) \<longrightarrow> \<not> accepted r)) \<or>
   (\<exists>home author. ts_checked L st payload sg s home \<and>
      ts_transaction L fails now payload sg hash s arrived st = ts_commit L fails now payload sg hash s home author arrived st)"
proof (cases "fs_threads st (ts_thread_id s)")
  case (Some te)
  let ?home = "case te_home te of None \<Rightarrow> fs_key st | Some h \<Rightarrow> h"
  show ?thesis
    by (cases "verify (lb_nfc L) (lb_ser L) (lb_de L) (lb_ed L) payload sg ?home"; cases "ts_prior_status_hash s"; cases "resolve_domain_for_key ?home st")
      (use Some in \<open>auto simp: ts_transaction_def ts_reject_def ts_checked_def accepted_def thread_home_def Let_def\<close>)
qed (simp add: ts_transaction_def accepted_def)

lemma apply_ts_cases:
  assumes "apply_one_thread_status L now arrived fails wire st = (res, calls, st')"
  shows "st' = st \<and> (\<forall>h r. res = Inr (h, r) \<longrightarrow> \<not> accepted r) \<or>
    (\<exists>payload sg s r home. decode_signed_object (lb_de L) wire = Some (payload, sg) \<and> fs_objects st (lb_sha L payload) = None \<and>
       parse (lb_nfc L) (lb_ser L) (lb_de L) payload = Inr (ThreadStatus s) \<and> res = Inr (lb_sha L payload, r) \<and> accepted r \<and>
       ts_checked L st payload sg s home \<and> ts_effect L st payload sg s st')"
proof (cases "\<exists>payload sg s. decode_signed_object (lb_de L) wire = Some (payload, sg) \<and> fs_objects st (lb_sha L payload) = None \<and>
    \<not> fails 0 \<and> parse (lb_nfc L) (lb_ser L) (lb_de L) payload = Inr (ThreadStatus s)")
  case True
  then obtain payload sg s where d: "decode_signed_object (lb_de L) wire = Some (payload, sg)" "fs_objects st (lb_sha L payload) = None"
    "\<not> fails 0" "parse (lb_nfc L) (lb_ser L) (lb_de L) payload = Inr (ThreadStatus s)" by blast
  then have t: "ts_transaction L fails now payload sg (lb_sha L payload) s arrived st = (res, calls, st')"
    using assms by (simp add: apply_one_thread_status_def)
  from ts_transaction_cases [of L fails now payload sg "lb_sha L payload" s arrived st] show ?thesis
  proof (elim disjE exE conjE)
    fix home author
    assume c: "ts_checked L st payload sg s home"
      and u: "ts_transaction L fails now payload sg (lb_sha L payload) s arrived st = ts_commit L fails now payload sg (lb_sha L payload) s home author arrived st"
    from ts_commit_cases [OF t [unfolded u] d(2) refl] show ?thesis
      using d(1,2,4) c by (auto simp: accepted_def split: if_splits)
  qed (use t in auto)
next
  case False
  then show ?thesis using assms
    by (auto simp: apply_one_thread_status_def ts_reject_def accepted_def Let_def
        split: option.splits prod.splits if_splits sum.splits SignedPayload.splits ParseError.splits)
qed

text \<open>Only the home of a thread can lock or open it, and it can do so only for its own threads.\<close>

theorem accepted_lock_from_home:
  assumes "apply_one_thread_status L now arrived fails wire st = (Inr (h, r), calls, st')" "accepted r"
  shows "\<exists>payload sg s home. decode_signed_object (lb_de L) wire = Some (payload, sg) \<and> h = lb_sha L payload \<and>
    parse (lb_nfc L) (lb_ser L) (lb_de L) payload = Inr (ThreadStatus s) \<and> thread_home st (ts_thread_id s) = Some home \<and> lb_ed L home payload sg \<and>
    (\<forall>tid. tid \<noteq> ts_thread_id s \<longrightarrow> fs_thread_statuses st' tid = fs_thread_statuses st tid \<and> fs_threads st' tid = fs_threads st tid)"
proof -
  from apply_ts_cases [OF assms(1)] assms(2) obtain payload sg s home where
    d: "decode_signed_object (lb_de L) wire = Some (payload, sg)" "parse (lb_nfc L) (lb_ser L) (lb_de L) payload = Inr (ThreadStatus s)" "h = lb_sha L payload"
    and c: "ts_checked L st payload sg s home" and e: "ts_effect L st payload sg s st'" by auto
  from c obtain p where "verify (lb_nfc L) (lb_ser L) (lb_de L) (lb_ed L) payload sg home = Inr p" by (auto simp: ts_checked_def)
  from verify_signature [OF this] have "lb_ed L home payload sg" by simp
  moreover have "\<forall>tid. tid \<noteq> ts_thread_id s \<longrightarrow> fs_thread_statuses st' tid = fs_thread_statuses st tid \<and> fs_threads st' tid = fs_threads st tid"
    using e by (simp add: ts_effect_def)
  ultimately show ?thesis using d c unfolding ts_checked_def by blast
qed

section \<open>The lock flag\<close>

text \<open>Where a thread has a current status, its flag says what the status says.\<close>

definition mirrored :: "fed_store \<Rightarrow> bool" where
  "mirrored st \<longleftrightarrow> (\<forall>tid row te. fs_thread_statuses st tid = Some row \<longrightarrow> fs_threads st tid = Some te \<longrightarrow>
     (te_locked te \<longleftrightarrow> sw_status row = ''locked''))"

lemma effect_mirrored:
  assumes "mirrored st" "ts_effect L st payload sg s st'"
  shows "mirrored st'"
  unfolding mirrored_def
proof (intro allI impI)
  fix tid row te
  assume x: "fs_thread_statuses st' tid = Some row" "fs_threads st' tid = Some te"
  have k: "thread_status_as_str (ts_status s) = ''locked'' \<longleftrightarrow> ts_status s = Locked" by (cases "ts_status s") simp_all
  show "te_locked te \<longleftrightarrow> sw_status row = ''locked''"
  proof (cases "tid = ts_thread_id s \<and> ts_new_wins s (lb_sha L payload) (fs_thread_statuses st (ts_thread_id s))")
    case True
    then show ?thesis using x assms(2) k by (auto simp: ts_effect_def ts_put_def thread_row_def)
  next
    case False
    then have "fs_thread_statuses st tid = Some row" "fs_threads st tid = Some te"
      using x assms(2) by (auto simp: ts_effect_def ts_put_def split: if_splits)
    then show ?thesis using assms(1) by (simp add: mirrored_def)
  qed
qed

lemma apply_ts_mirrored: "mirrored st \<Longrightarrow> mirrored (snd (snd (apply_one_thread_status L now arrived fails wire st)))"
  by (cases "apply_one_thread_status L now arrived fails wire st") (auto dest: apply_ts_cases effect_mirrored)

text \<open>A federated lock takes effect where replies are tested: after any push of thread statuses, whatever its objects and
  failures, the flag of every thread that has a current status says whether that status is \<open>locked\<close>, if it did before.\<close>

theorem lock_flag_mirrors_status:
  assumes "mirrored st"
  shows "mirrored (snd (snd (handle_thread_status_push L now fails sndr msg st)))"
proof -
  have l: "mirrored (st\<lparr>fs_thread_limit := l\<rparr>)" for l using assms by (simp add: mirrored_def)
  have "mirrored (snd (snd (push_loop (apply_one_thread_status L now sndr) fails 0 ws (st\<lparr>fs_thread_limit := l\<rparr>))))" for ws l
    by (rule push_loop_invariant [where P = mirrored, OF apply_ts_mirrored]) (simp_all add: l)
  then have "mirrored st'" if "push_loop (apply_one_thread_status L now sndr) fails 0 ws (st\<lparr>fs_thread_limit := l\<rparr>) = (rs, calls, st')"
    for ws l rs calls st' using that by (metis snd_conv)
  then show ?thesis using l by (simp add: handle_thread_status_push_def Let_def split: prod.split option.split)
qed

theorem lock_flag_mirrors_status_witness:
  "mirrored (snd (snd (handle_thread_status_push demo_lib 0 (\<lambda>_ _. False) (replicate 32 5) [] (demo_store (replicate 32 1) Map.empty Map.empty))))"
  by (rule lock_flag_mirrors_status) (simp add: mirrored_def demo_store_def)

section \<open>Convergence\<close>

definition ts_step :: "fed_lib \<Rightarrow> push_event \<Rightarrow> fed_store \<Rightarrow> (ThreadStatus \<times> bytes) option \<times> fed_store" where
  "ts_step L ev st =
     (case apply_one_thread_status L (pe_now ev) (pe_from ev) (pe_fails ev) (pe_wire ev) ((pe_env ev st)\<lparr>fs_thread_statuses := fs_thread_statuses st\<rparr>) of
       (Inr (h, r), _, st') \<Rightarrow> (if accepted r then (case decode_signed_object (lb_de L) (pe_wire ev) of
           Some (payload, _) \<Rightarrow> (case parse (lb_nfc L) (lb_ser L) (lb_de L) payload of Inr (ThreadStatus s) \<Rightarrow> Some (s, h) | _ \<Rightarrow> None)
         | None \<Rightarrow> None) else None, st')
     | (Inl _, _, st') \<Rightarrow> (None, st'))"

lemma ts_step_cases:
  assumes "ts_step L ev st = (x, st')"
  shows "case x of None \<Rightarrow> fs_thread_statuses st' = fs_thread_statuses st
    | Some y \<Rightarrow> fs_thread_statuses st' = (fs_thread_statuses st)(ts_thread_id (fst y) := ts_put y (fs_thread_statuses st (ts_thread_id (fst y))))"
proof -
  obtain res calls st1 where a: "apply_one_thread_status L (pe_now ev) (pe_from ev) (pe_fails ev) (pe_wire ev)
      ((pe_env ev st)\<lparr>fs_thread_statuses := fs_thread_statuses st\<rparr>) = (res, calls, st1)" by (metis prod_cases3)
  then have s: "st' = st1" using assms by (auto simp: ts_step_def split: sum.splits prod.splits)
  from apply_ts_cases [OF a] show ?thesis
  proof (elim disjE conjE exE)
    assume "st1 = (pe_env ev st)\<lparr>fs_thread_statuses := fs_thread_statuses st\<rparr>" "\<forall>h r. res = Inr (h, r) \<longrightarrow> \<not> accepted r"
    then show ?thesis using assms a by (auto simp: ts_step_def split: sum.splits prod.splits)
  next
    fix payload sg q r home
    assume "decode_signed_object (lb_de L) (pe_wire ev) = Some (payload, sg)" "parse (lb_nfc L) (lb_ser L) (lb_de L) payload = Inr (ThreadStatus q)"
      "res = Inr (lb_sha L payload, r)" "accepted r" and e: "ts_effect L ((pe_env ev st)\<lparr>fs_thread_statuses := fs_thread_statuses st\<rparr>) payload sg q st1"
    then have "x = Some (q, lb_sha L payload)" using assms a by (auto simp: ts_step_def)
    then show ?thesis using e s by (simp add: ts_effect_def)
  qed
qed

abbreviation ts_rank :: "ThreadStatus \<times> bytes \<Rightarrow> nat \<times> bytes" where
  "ts_rank x \<equiv> (unat (ts_created_at (fst x)), snd x)"

interpretation ts_log: register_log ts_put "\<lambda>x. thread_row (fst x) (snd x)" ts_rank
  "\<lambda>x r. ts_new_wins (fst x) (snd x) (Some r)" "\<lambda>x. unat (ts_created_at (fst x)) < 2 ^ 63"
  "ts_step L" fs_thread_statuses "\<lambda>x. ts_thread_id (fst x)" for L
proof
  show "ts_put x old = (case old of None \<Rightarrow> Some (thread_row (fst x) (snd x))
    | Some r \<Rightarrow> if ts_new_wins (fst x) (snd x) (Some r) then Some (thread_row (fst x) (snd x)) else old)" for x old
    by (cases old) (simp_all add: ts_put_def ts_new_wins_def)
qed (use ts_step_cases in \<open>force simp: thread_row_def sint_small newer_def ts_new_wins_def Let_def\<close>)+

text \<open>Instances that accepted the same statuses of a thread agree on whether it is locked.\<close>

theorem thread_status_converges:
  assumes "log_run (ts_step L) evs A = (xs, A')" "log_run (ts_step L) evs' B = (ys, B')"
    and "fs_thread_statuses A k = None" "fs_thread_statuses B k = None"
    and "set (filter (\<lambda>x. ts_thread_id (fst x) = k) xs) = set (filter (\<lambda>x. ts_thread_id (fst x) = k) ys)"
    and "list_all (\<lambda>x. unat (ts_created_at (fst x)) < 2 ^ 63) xs" "inj_on snd (set xs)"
  shows "fs_thread_statuses A' k = fs_thread_statuses B' k"
proof -
  have "inj_on ts_rank (set xs)" using assms(7) by (auto simp: inj_on_def)
  from ts_log.converge [OF assms(1-6) this] show ?thesis .
qed

end
