(* ===== verification/User_Moves.thy ===== *)
theory User_Moves
  imports User_Status
begin

text \<open>
  \<open>server/src/federation/moves.rs\<close>: the push of signed moves, by which a user changes the instance that is its home, with
  the birth attestation, the disposal of local authority, and the genesis declaration of a new local user. Shown: instances
  converge on the home of every user; the birth time of a key never changes and every accepted move agrees with it; and an
  instance that a user leaves keeps no authority to act as that user.
\<close>

section \<open>Operations\<close>

definition MAX_MOVE_OBJECTS_PER_HOUR :: nat where "MAX_MOVE_OBJECTS_PER_HOUR = 1000"
definition MAX_MOVE_BATCH :: nat where "MAX_MOVE_BATCH = 64"
definition MOVE_CLOCK_SKEW_MS :: nat where "MOVE_CLOCK_SKEW_MS = 300000"

datatype MoveRejectReason = MvInvalidSignature | MvSchemaInvalid | MvSkewExceeded | MvUnknownClass | MvWrongClass

fun mv_reason_as_str :: "MoveRejectReason \<Rightarrow> string" where
  "mv_reason_as_str MvInvalidSignature = ''invalid_signature''"
| "mv_reason_as_str MvSchemaInvalid = ''schema_invalid''"
| "mv_reason_as_str MvSkewExceeded = ''skew_exceeded''"
| "mv_reason_as_str MvUnknownClass = ''unknown_class''"
| "mv_reason_as_str MvWrongClass = ''wrong_class''"

type_synonym MoveStatus = "MoveRejectReason push_result"
type_synonym mv_outcome = "(db_error + bytes \<times> MoveStatus) \<times> forward_call list \<times> fed_store"

definition mv_reject :: "bytes \<Rightarrow> MoveRejectReason \<Rightarrow> fed_store \<Rightarrow> mv_outcome" where
  "mv_reject hash reason st = (Inr (hash, StRejected reason), [], st)"

definition move_routing_key_from_bytes :: "fed_lib \<Rightarrow> bytes \<Rightarrow> bytes option" where
  "move_routing_key_from_bytes L payload = (case parse (lb_nfc L) (lb_ser L) (lb_de L) payload of Inr (Move m) \<Rightarrow> Some (mv_key m) | _ \<Rightarrow> None)"

text \<open>The birth attestation: the key is a key, and its signature covers the triple. The inner \<open>None\<close> is the panic of the
  encoder, which counts as a failure here.\<close>

definition attestation_verifies :: "fed_lib \<Rightarrow> GenesisAttestation \<Rightarrow> bool" where
  "attestation_verifies L att \<longleftrightarrow> lb_key_ok L (birth_instance_key att) \<and>
     (case genesis_attestation_signing_bytes (lb_ser L) (ga_key att) (ga_genesis_at att) (birth_instance_key att) of
       Some bs \<Rightarrow> lb_ed L (birth_instance_key att) bs (ga_sig att) | None \<Rightarrow> False)"

text \<open>The comparison with the stored pointer; a pointer that was seeded without a move has neither time nor hash.\<close>

definition mv_new_wins :: "Move \<Rightarrow> bytes \<Rightarrow> home_pointer option \<Rightarrow> bool" where
  "mv_new_wins mv hash existing = (case existing of
     None \<Rightarrow> True
   | Some row \<Rightarrow>
       let prior_ts = (case hp_created_at row of Some v \<Rightarrow> if 0 \<le> v then nat v else 0 | None \<Rightarrow> 0); new_ts = unat (mv_created_at mv)
       in if new_ts > prior_ts then True else if new_ts < prior_ts then False
          else (case hp_move_hash row of Some prior_hash \<Rightarrow> hash < prior_hash | None \<Rightarrow> True))"

definition home_row :: "Move \<Rightarrow> bytes \<Rightarrow> home_pointer" where
  "home_row mv hash = \<lparr>hp_key = to_instance_key mv, hp_domain = to_instance mv, hp_move_hash = Some hash,
     hp_created_at = Some (sint (mv_created_at mv))\<rparr>"

definition insert_genesis :: "bytes \<Rightarrow> genesis_row \<Rightarrow> fed_store \<Rightarrow> fed_store" where
  "insert_genesis k g st = (case fs_genesis st k of Some _ \<Rightarrow> st | None \<Rightarrow> st\<lparr>fs_genesis := (fs_genesis st)(k \<mapsto> g)\<rparr>)"

definition insert_move :: "bytes \<Rightarrow> bytes \<Rightarrow> int \<Rightarrow> fed_store \<Rightarrow> fed_store" where
  "insert_move k hash created st =
     (if list_ex (\<lambda>r. mr_user r = k \<and> mr_hash r = hash) (fs_moves st) then st
      else st\<lparr>fs_moves := fs_moves st @ [\<lparr>mr_user = k, mr_hash = hash, mr_created = created\<rparr>]\<rparr>)"

definition upsert_home :: "Move \<Rightarrow> bytes \<Rightarrow> fed_store \<Rightarrow> fed_store" where
  "upsert_home mv hash st = st\<lparr>fs_homes := (fs_homes st)(mv_key mv \<mapsto> home_row mv hash),
     fs_users := (fs_users st)(mv_key mv := map_option (\<lambda>u. u\<lparr>ue_home :=
       (if to_instance_key mv = fs_key st then None else Some (to_instance_key mv))\<rparr>) (fs_users st (mv_key mv)))\<rparr>"

definition dispose_local_user_authority :: "bytes \<Rightarrow> fed_store \<Rightarrow> fed_store" where
  "dispose_local_user_authority k st = (case fs_users st k of
     Some u \<Rightarrow> if ue_signup u = ''federated'' then st
       else st\<lparr>fs_users := (fs_users st)(k \<mapsto> u\<lparr>ue_signing_key := False, ue_sessions := 0, ue_credentials := 0, ue_signup := ''federated''\<rparr>)\<rparr>
   | None \<Rightarrow> st)"

definition outbound_from_self :: "Move \<Rightarrow> fed_store \<Rightarrow> bool" where
  "outbound_from_self mv st \<longleftrightarrow> from_instance_key mv = Some (fs_key st) \<and> to_instance_key mv \<noteq> fs_key st"

text \<open>The transaction and the forward. Statements: 2 begin, 3 the current pointer, 4 the birth time, 5 to 7 the inserts, 8 the
  upsert, 9 the user row, 10 the disposal, 11 commit.\<close>

definition mv_commit ::
  "fed_lib \<Rightarrow> (nat \<Rightarrow> bool) \<Rightarrow> bytes \<Rightarrow> bytes \<Rightarrow> bytes \<Rightarrow> bytes \<Rightarrow> Move \<Rightarrow> bytes \<Rightarrow> fed_store \<Rightarrow> mv_outcome" where
  "mv_commit L fails wire payload sg hash mv arrived st =
     (if fails 2 \<or> fails 3 \<or> fails 4 then (Inl DbError, [], st)
      else if (case fs_genesis st (mv_key mv) of Some g \<Rightarrow> gr_genesis_at g mod 2 ^ 64 \<noteq> uint (genesis_at mv) | None \<Rightarrow> False)
      then mv_reject hash MvSchemaInvalid st
      else
        let new_wins = mv_new_wins mv hash (fs_homes st (mv_key mv));
            att = genesis_attestation mv;
            st1 = store_signed_object ''move'' payload sg hash st;
            st2 = insert_genesis (mv_key mv) \<lparr>gr_genesis_at = sint (genesis_at mv), gr_birth_key = birth_instance_key att, gr_sig = ga_sig att\<rparr> st1;
            st3 = insert_move (mv_key mv) hash (sint (mv_created_at mv)) st2;
            st4 = (if new_wins then upsert_home mv hash st3 else st3);
            st5 = (if outbound_from_self mv st then dispose_local_user_authority (mv_key mv) st4 else st4)
        in if fails 5 \<or> fails 6 \<or> fails 7 \<or> new_wins \<and> (fails 8 \<or> fails 9) \<or> outbound_from_self mv st \<and> fails 10 \<or> fails 11
           then (Inl DbError, [], st)
           else (Inr (hash, if new_wins then StApplied else StSuperseded),
             [\<lparr>fwd_hash = hash, fwd_class = MoveFwd, fwd_key = mv_key mv, fwd_wire = Some wire, fwd_from = Some arrived\<rparr>], st5))"

text \<open>The checks before it; statement 1 reads the predecessor.\<close>

definition mv_checks ::
  "fed_lib \<Rightarrow> (nat \<Rightarrow> bool) \<Rightarrow> nat \<Rightarrow> bytes \<Rightarrow> bytes \<Rightarrow> bytes \<Rightarrow> bytes \<Rightarrow> Move \<Rightarrow> bytes \<Rightarrow> fed_store \<Rightarrow> mv_outcome" where
  "mv_checks L fails now_ms wire payload sg hash mv arrived st =
     (if \<not> lb_key_ok L (mv_key mv) then mv_reject hash MvInvalidSignature st
      else case verify (lb_nfc L) (lb_ser L) (lb_de L) (lb_ed L) payload sg (mv_key mv) of
        Inl _ \<Rightarrow> mv_reject hash MvInvalidSignature st
      | Inr _ \<Rightarrow>
          if \<not> attestation_verifies L (genesis_attestation mv) then mv_reject hash MvSchemaInvalid st
          else if abs_diff now_ms (unat (mv_created_at mv)) > MOVE_CLOCK_SKEW_MS then mv_reject hash MvSkewExceeded st
          else if prior_move_hash mv \<noteq> None \<and> fails 1 then (Inl DbError, [], st)
          else if (case prior_move_hash mv of Some p \<Rightarrow> \<not> object_present ''move'' p st | None \<Rightarrow> False)
          then (Inr (hash, StDeferred), [], st)
          else mv_commit L fails wire payload sg hash mv arrived st)"

definition apply_one_move ::
  "fed_lib \<Rightarrow> nat \<Rightarrow> bytes \<Rightarrow> (nat \<Rightarrow> bool) \<Rightarrow> bytes \<Rightarrow> fed_store \<Rightarrow> mv_outcome" where
  "apply_one_move L now_ms arrived fails wire st = (case decode_signed_object (lb_de L) wire of
     None \<Rightarrow> mv_reject (lb_sha L wire) MvSchemaInvalid st
   | Some (payload, sg) \<Rightarrow>
       let hash = lb_sha L payload
       in if fails 0 then (Inl DbError, [], st)
          else case fs_objects st hash of
            Some row \<Rightarrow>
              if ob_payload row = None then mv_reject hash MvSchemaInvalid st
              else (Inr (hash, StDuplicate), (case move_routing_key_from_bytes L payload of
                 Some k \<Rightarrow> [\<lparr>fwd_hash = hash, fwd_class = MoveFwd, fwd_key = k, fwd_wire = Some wire, fwd_from = Some arrived\<rparr>]
               | None \<Rightarrow> []), st)
          | None \<Rightarrow> (case parse (lb_nfc L) (lb_ser L) (lb_de L) payload of
              Inl _ \<Rightarrow> mv_reject hash MvSchemaInvalid st
            | Inr (Move mv) \<Rightarrow> mv_checks L fails now_ms wire payload sg hash mv arrived st
            | Inr (FedEnvelope _) \<Rightarrow> mv_reject hash MvUnknownClass st
            | Inr (RegistrationChallenge _) \<Rightarrow> mv_reject hash MvUnknownClass st
            | Inr (PriorHomeChallenge _) \<Rightarrow> mv_reject hash MvUnknownClass st
            | Inr (PriorHomeResponse _) \<Rightarrow> mv_reject hash MvUnknownClass st
            | Inr _ \<Rightarrow> mv_reject hash MvWrongClass st))"

text \<open>The cap is charged for the whole batch, in seconds; the objects are compared with the clock in milliseconds.\<close>

definition handle_moves_push ::
  "fed_lib \<Rightarrow> nat \<Rightarrow> nat \<Rightarrow> (nat \<Rightarrow> nat \<Rightarrow> bool) \<Rightarrow> bytes \<Rightarrow> bytes \<Rightarrow> fed_store \<Rightarrow> push_reply \<times> forward_call list \<times> fed_store" where
  "handle_moves_push L now now_ms fails sndr msg st = (case array_body ''moves'' bytes_item (lb_de L) msg of
     None \<Rightarrow> (PushErr 400 ''malformed'', [], st)
   | Some moves \<Rightarrow>
       if moves = [] then (PushErr 400 ''empty_batch'', [], st)
       else if length moves > MAX_MOVE_BATCH then (PushErr 400 ''batch_too_large'', [], st)
       else case check_and_count_at (fs_move_limit st) sndr (length moves) now of (ok, lmt) \<Rightarrow>
         let st0 = st\<lparr>fs_move_limit := lmt\<rparr>
         in if \<not> ok then (PushErr 400 ''rate_limited'', [], st0)
            else case push_loop (apply_one_move L now_ms sndr) fails 0 moves st0 of
              (None, calls, st1) \<Rightarrow> (PushErr 500 ''internal'', calls, st1)
            | (Some results, calls, st1) \<Rightarrow> (PushOk (encode_results mv_reason_as_str (lb_ser L) results), calls, st1))"

section \<open>Genesis of a local user\<close>

definition load_genesis_attestation :: "bytes \<Rightarrow> fed_store \<Rightarrow> db_error + GenesisAttestation option" where
  "load_genesis_attestation k st = (case fs_genesis st k of
     None \<Rightarrow> Inr None
   | Some g \<Rightarrow>
       if length (gr_birth_key g) \<noteq> 32 \<or> length (gr_sig g) \<noteq> 64 then Inl DbError
       else Inr (Some \<lparr>ga_key = k, ga_genesis_at = word_of_int (gr_genesis_at g), birth_instance_key = gr_birth_key g, ga_sig = gr_sig g\<rparr>))"

definition build_genesis_attestation :: "fed_lib \<Rightarrow> bytes \<Rightarrow> bytes \<Rightarrow> u64 \<Rightarrow> GenesisAttestation option" where
  "build_genesis_attestation L self_key k genesis_ms =
     map_option (\<lambda>bs. \<lparr>ga_key = k, ga_genesis_at = genesis_ms, birth_instance_key = self_key, ga_sig = lb_sign L bs\<rparr>)
       (genesis_attestation_signing_bytes (lb_ser L) k genesis_ms self_key)"

text \<open>\<open>user_sign\<close> signs with the key of the new user. The result is the hash, the wire bytes and the tables.\<close>

definition mint_local_user_genesis ::
  "fed_lib \<Rightarrow> (bytes \<Rightarrow> bytes) \<Rightarrow> bytes \<Rightarrow> u64 \<Rightarrow> fed_store \<Rightarrow> (bytes \<times> bytes \<times> fed_store) option" where
  "mint_local_user_genesis L user_sign k created st =
     Option.bind (build_genesis_attestation L (fs_key st) k created) (\<lambda>att.
     let mv = \<lparr>mv_key = k, from_instance_key = None, from_instance = None, to_instance_key = fs_key st, to_instance = fs_domain st,
           mv_created_at = created, genesis_at = created, genesis_attestation = att, prior_move_hash = None\<rparr>
     in Option.bind (encode (lb_ser L) (Move mv)) (\<lambda>payload.
       let sg = user_sign payload; hash = lb_sha L payload;
           st1 = store_signed_object ''move'' payload sg hash st;
           st2 = insert_move k hash (sint created) st1;
           st3 = st2\<lparr>fs_homes := (fs_homes st2)(k \<mapsto> home_row mv hash)\<rparr>;
           st4 = insert_genesis k \<lparr>gr_genesis_at = sint created, gr_birth_key = birth_instance_key att, gr_sig = ga_sig att\<rparr> st3
       in map_option (\<lambda>w. (hash, w, st4)) (encode_signed_object (lb_ser L) payload sg)))"

section \<open>What is accepted\<close>

definition mv_put :: "Move \<times> bytes \<Rightarrow> home_pointer option \<Rightarrow> home_pointer option" where
  "mv_put x old = (if mv_new_wins (fst x) (snd x) old then Some (home_row (fst x) (snd x)) else old)"

definition mv_checked :: "fed_lib \<Rightarrow> nat \<Rightarrow> fed_store \<Rightarrow> bytes \<Rightarrow> bytes \<Rightarrow> Move \<Rightarrow> bool" where
  "mv_checked L now_ms st payload sg mv \<longleftrightarrow>
     (\<exists>p. verify (lb_nfc L) (lb_ser L) (lb_de L) (lb_ed L) payload sg (mv_key mv) = Inr p) \<and> attestation_verifies L (genesis_attestation mv) \<and>
     abs_diff now_ms (unat (mv_created_at mv)) \<le> MOVE_CLOCK_SKEW_MS \<and> (\<forall>p. prior_move_hash mv = Some p \<longrightarrow> object_present ''move'' p st) \<and>
     (\<forall>g. fs_genesis st (mv_key mv) = Some g \<longrightarrow> gr_genesis_at g mod 2 ^ 64 = uint (genesis_at mv))"

text \<open>The user row after a move.\<close>

definition user_after :: "bytes \<Rightarrow> Move \<Rightarrow> bool \<Rightarrow> user_entry \<Rightarrow> user_entry" where
  "user_after self mv wins u =
     (let u1 = (if wins then u\<lparr>ue_home := (if to_instance_key mv = self then None else Some (to_instance_key mv))\<rparr> else u)
      in if from_instance_key mv = Some self \<and> to_instance_key mv \<noteq> self \<and> ue_signup u \<noteq> ''federated''
         then u1\<lparr>ue_signing_key := False, ue_sessions := 0, ue_credentials := 0, ue_signup := ''federated''\<rparr> else u1)"

definition mv_effect :: "fed_lib \<Rightarrow> fed_store \<Rightarrow> bytes \<Rightarrow> bytes \<Rightarrow> Move \<Rightarrow> fed_store \<Rightarrow> bool" where
  "mv_effect L st payload sg mv st' \<longleftrightarrow>
     fs_objects st' = (fs_objects st)(lb_sha L payload \<mapsto> \<lparr>ob_class = ''move'', ob_payload = Some payload, ob_signature = sg\<rparr>) \<and>
     fs_homes st' = (fs_homes st)(mv_key mv := mv_put (mv, lb_sha L payload) (fs_homes st (mv_key mv))) \<and>
     fs_genesis st' = (fs_genesis st)(mv_key mv := Some (case fs_genesis st (mv_key mv) of Some g \<Rightarrow> g
       | None \<Rightarrow> \<lparr>gr_genesis_at = sint (genesis_at mv), gr_birth_key = birth_instance_key (genesis_attestation mv), gr_sig = ga_sig (genesis_attestation mv)\<rparr>)) \<and>
     fs_users st' = (fs_users st)(mv_key mv := map_option (user_after (fs_key st) mv (mv_new_wins mv (lb_sha L payload) (fs_homes st (mv_key mv)))) (fs_users st (mv_key mv))) \<and>
     fs_key st' = fs_key st"

lemma sint_mod: "sint (w :: u64) mod 2 ^ 64 = uint w"
  using uint_sint [of w] by (simp add: take_bit_eq_mod)

lemma move_tables [simp]:
  "fs_objects (insert_genesis k g st) = fs_objects st" "fs_homes (insert_genesis k g st) = fs_homes st" "fs_users (insert_genesis k g st) = fs_users st"
  "fs_key (insert_genesis k g st) = fs_key st"
  "fs_objects (insert_move k h c st) = fs_objects st" "fs_homes (insert_move k h c st) = fs_homes st" "fs_users (insert_move k h c st) = fs_users st"
  "fs_genesis (insert_move k h c st) = fs_genesis st" "fs_key (insert_move k h c st) = fs_key st"
  "fs_objects (dispose_local_user_authority k st) = fs_objects st" "fs_homes (dispose_local_user_authority k st) = fs_homes st"
  "fs_genesis (dispose_local_user_authority k st) = fs_genesis st" "fs_key (dispose_local_user_authority k st) = fs_key st"
  "fs_homes (store_signed_object cl p sg h st) = fs_homes st" "fs_users (store_signed_object cl p sg h st) = fs_users st"
  "fs_genesis (store_signed_object cl p sg h st) = fs_genesis st" "fs_key (store_signed_object cl p sg h st) = fs_key st"
  by (simp_all add: insert_genesis_def insert_move_def dispose_local_user_authority_def store_signed_object_def split: option.splits)

lemma dispose_users:
  "fs_users (dispose_local_user_authority k st) = (fs_users st)(k := map_option (\<lambda>u. if ue_signup u = ''federated'' then u
     else u\<lparr>ue_signing_key := False, ue_sessions := 0, ue_credentials := 0, ue_signup := ''federated''\<rparr>) (fs_users st k))"
  by (cases "fs_users st k") (auto simp: dispose_local_user_authority_def fun_upd_idem_iff)

lemma genesis_kept: "fs_genesis (insert_genesis k g st) = (fs_genesis st)(k := Some (case fs_genesis st k of Some g' \<Rightarrow> g' | None \<Rightarrow> g))"
  by (cases "fs_genesis st k") (auto simp: insert_genesis_def)

lemma mv_commit_effect:
  assumes "fs_objects st (lb_sha L payload) = None"
  shows "mv_effect L st payload sg mv
    (let st3 = insert_move (mv_key mv) (lb_sha L payload) c (insert_genesis (mv_key mv) \<lparr>gr_genesis_at = sint (genesis_at mv),
           gr_birth_key = birth_instance_key (genesis_attestation mv), gr_sig = ga_sig (genesis_attestation mv)\<rparr>
           (store_signed_object ''move'' payload sg (lb_sha L payload) st));
         st4 = (if mv_new_wins mv (lb_sha L payload) (fs_homes st (mv_key mv)) then upsert_home mv (lb_sha L payload) st3 else st3)
     in if outbound_from_self mv st then dispose_local_user_authority (mv_key mv) st4 else st4)"
  unfolding mv_effect_def using assms
  by (cases "fs_users st (mv_key mv)"; simp add: Let_def store_fresh(1) mv_put_def upsert_home_def genesis_kept dispose_users user_after_def outbound_from_self_def fun_upd_idem; blast)

lemma mv_commit_cases:
  assumes "mv_commit L fails wire payload sg hash mv arrived st = (res, calls, st')" "fs_objects st hash = None" "hash = lb_sha L payload"
  shows "st' = st \<and> (\<forall>h r. res = Inr (h, r) \<longrightarrow> \<not> accepted r) \<or>
    (\<forall>g. fs_genesis st (mv_key mv) = Some g \<longrightarrow> gr_genesis_at g mod 2 ^ 64 = uint (genesis_at mv)) \<and>
    res = Inr (hash, if mv_new_wins mv hash (fs_homes st (mv_key mv)) then StApplied else StSuperseded) \<and> mv_effect L st payload sg mv st'"
proof (cases "fails 2 \<or> fails 3 \<or> fails 4")
  case False
  note e = mv_commit_effect [OF assms(2) [unfolded assms(3)], of sg mv "sint (mv_created_at mv)", unfolded Let_def]
  show ?thesis
  proof (cases "fs_genesis st (mv_key mv)")
    case None
    show ?thesis using assms(1) False e unfolding mv_commit_def Let_def assms(3) by (simp add: None split: if_split_asm) blast+
  next
    case (Some g)
    show ?thesis using assms(1) False e unfolding mv_commit_def Let_def assms(3)
      by (simp add: Some mv_reject_def accepted_def split: if_split_asm) blast+
  qed
qed (use assms(1) in \<open>auto simp: mv_commit_def\<close>)

lemma mv_checks_cases:
  "(\<exists>res. mv_checks L fails now_ms wire payload sg hash mv arrived st = (res, [], st) \<and> (\<forall>h r. res = Inr (h, r) \<longrightarrow> \<not> accepted r)) \<or>
   (\<exists>p. verify (lb_nfc L) (lb_ser L) (lb_de L) (lb_ed L) payload sg (mv_key mv) = Inr p) \<and> attestation_verifies L (genesis_attestation mv) \<and>
     abs_diff now_ms (unat (mv_created_at mv)) \<le> MOVE_CLOCK_SKEW_MS \<and> (\<forall>p. prior_move_hash mv = Some p \<longrightarrow> object_present ''move'' p st) \<and>
     mv_checks L fails now_ms wire payload sg hash mv arrived st = mv_commit L fails wire payload sg hash mv arrived st"
  by (cases "verify (lb_nfc L) (lb_ser L) (lb_de L) (lb_ed L) payload sg (mv_key mv)"; cases "prior_move_hash mv")
    (auto simp: mv_checks_def mv_reject_def accepted_def)

lemma apply_mv_cases:
  assumes "apply_one_move L now_ms arrived fails wire st = (res, calls, st')"
  shows "st' = st \<and> (\<forall>h r. res = Inr (h, r) \<longrightarrow> \<not> accepted r) \<or>
    (\<exists>payload sg mv r. decode_signed_object (lb_de L) wire = Some (payload, sg) \<and> fs_objects st (lb_sha L payload) = None \<and>
       parse (lb_nfc L) (lb_ser L) (lb_de L) payload = Inr (Move mv) \<and> res = Inr (lb_sha L payload, r) \<and> accepted r \<and>
       mv_checked L now_ms st payload sg mv \<and> mv_effect L st payload sg mv st')"
proof (cases "\<exists>payload sg mv. decode_signed_object (lb_de L) wire = Some (payload, sg) \<and> fs_objects st (lb_sha L payload) = None \<and>
    \<not> fails 0 \<and> parse (lb_nfc L) (lb_ser L) (lb_de L) payload = Inr (Move mv)")
  case True
  then obtain payload sg mv where d: "decode_signed_object (lb_de L) wire = Some (payload, sg)" "fs_objects st (lb_sha L payload) = None"
    "\<not> fails 0" "parse (lb_nfc L) (lb_ser L) (lb_de L) payload = Inr (Move mv)" by blast
  then have t: "mv_checks L fails now_ms wire payload sg (lb_sha L payload) mv arrived st = (res, calls, st')"
    using assms by (simp add: apply_one_move_def)
  from mv_checks_cases [of L fails now_ms wire payload sg "lb_sha L payload" mv arrived st] show ?thesis
  proof (elim disjE exE conjE)
    fix p
    assume c: "verify (lb_nfc L) (lb_ser L) (lb_de L) (lb_ed L) payload sg (mv_key mv) = Inr p" "attestation_verifies L (genesis_attestation mv)"
      "abs_diff now_ms (unat (mv_created_at mv)) \<le> MOVE_CLOCK_SKEW_MS" "\<forall>p. prior_move_hash mv = Some p \<longrightarrow> object_present ''move'' p st"
      and u: "mv_checks L fails now_ms wire payload sg (lb_sha L payload) mv arrived st = mv_commit L fails wire payload sg (lb_sha L payload) mv arrived st"
    from mv_commit_cases [OF t [unfolded u] d(2) refl] show ?thesis
    proof (elim disjE)
      assume m: "(\<forall>g. fs_genesis st (mv_key mv) = Some g \<longrightarrow> gr_genesis_at g mod 2 ^ 64 = uint (genesis_at mv)) \<and>
        res = Inr (lb_sha L payload, if mv_new_wins mv (lb_sha L payload) (fs_homes st (mv_key mv)) then StApplied else StSuperseded) \<and>
        mv_effect L st payload sg mv st'"
      then have "mv_checked L now_ms st payload sg mv" using c by (simp add: mv_checked_def)
      moreover have "accepted (if mv_new_wins mv (lb_sha L payload) (fs_homes st (mv_key mv)) then StApplied else StSuperseded)" by (simp add: accepted_def)
      ultimately show ?thesis using m d(1,2,4) by blast
    qed blast
  qed (use t in auto)
next
  case False
  then show ?thesis using assms
    by (auto simp: apply_one_move_def mv_reject_def accepted_def Let_def split: option.splits prod.splits if_splits sum.splits SignedPayload.splits)
qed

text \<open>Whatever an accepted object does is its effect; a rejected one leaves the tables.\<close>

lemma apply_mv_effect:
  assumes "P st" "\<And>payload sg mv st'. \<lbrakk>P st; parse (lb_nfc L) (lb_ser L) (lb_de L) payload = Inr (Move mv);
    fs_objects st (lb_sha L payload) = None; mv_checked L now_ms st payload sg mv; mv_effect L st payload sg mv st'\<rbrakk> \<Longrightarrow> P st'"
  shows "P (snd (snd (apply_one_move L now_ms arrived fails wire st)))"
proof -
  obtain res calls st' where a: "apply_one_move L now_ms arrived fails wire st = (res, calls, st')" by (metis prod_cases3)
  from apply_mv_cases [OF a] assms show ?thesis unfolding a by auto
qed

lemma handle_moves_invariant:
  assumes "\<And>st lmt. P st \<Longrightarrow> P (st\<lparr>fs_move_limit := lmt\<rparr>)" "P st"
    and "\<And>st payload sg mv st'. \<lbrakk>P st; parse (lb_nfc L) (lb_ser L) (lb_de L) payload = Inr (Move mv);
      fs_objects st (lb_sha L payload) = None; mv_checked L now_ms st payload sg mv; mv_effect L st payload sg mv st'\<rbrakk> \<Longrightarrow> P st'"
  shows "P (snd (snd (handle_moves_push L now now_ms fails sndr msg st)))"
proof -
  have l: "P (snd (snd (push_loop (apply_one_move L now_ms sndr) fails 0 ws (st\<lparr>fs_move_limit := lmt\<rparr>))))" for ws lmt
  proof (rule push_loop_invariant)
    show "P (snd (snd (apply_one_move L now_ms sndr fl w s)))" if "P s" for fl w s using that by (rule apply_mv_effect [where P = P]) (rule assms(3))
  qed (rule assms(1) [OF assms(2)])
  show ?thesis
  proof (cases "array_body ''moves'' bytes_item (lb_de L) msg")
    case (Some ms)
    obtain ok lmt where k: "check_and_count_at (fs_move_limit st) sndr (length ms) now = (ok, lmt)" by fastforce
    show ?thesis using Some k l [of ms lmt] assms(1,2) by (auto simp: handle_moves_push_def Let_def split: prod.splits option.splits)
  qed (simp add: handle_moves_push_def assms(2))
qed

lemma effect_birth:
  assumes "mv_checked L now_ms st payload sg mv" "mv_effect L st payload sg mv st'"
  shows "\<exists>g. fs_genesis st' (mv_key mv) = Some g \<and> gr_genesis_at g mod 2 ^ 64 = uint (genesis_at mv)"
  using assms sint_mod [of "genesis_at mv"] by (cases "fs_genesis st (mv_key mv)") (simp_all add: mv_effect_def mv_checked_def)

text \<open>C26. A user moves only by its own hand. If a pushed move is accepted, its signature verifies under the key of the user who
  moves, the birth attestation verifies under the instance that it names, the time is within five minutes of the receiver's
  clock, the predecessor is stored, the declared birth time is the one recorded for the key, and no other user is touched:
  neither home, birth record nor user row.\<close>

theorem accepted_move_by_user:
  assumes "apply_one_move L now_ms arrived fails wire st = (Inr (h, r), calls, st')" "accepted r"
  shows "\<exists>payload sg mv. decode_signed_object (lb_de L) wire = Some (payload, sg) \<and> h = lb_sha L payload \<and>
    parse (lb_nfc L) (lb_ser L) (lb_de L) payload = Inr (Move mv) \<and> lb_ed L (mv_key mv) payload sg \<and>
    attestation_verifies L (genesis_attestation mv) \<and> abs_diff now_ms (unat (mv_created_at mv)) \<le> 5 * 60 * 1000 \<and>
    (\<forall>p. prior_move_hash mv = Some p \<longrightarrow> object_present ''move'' p st) \<and>
    (\<exists>g. fs_genesis st' (mv_key mv) = Some g \<and> gr_genesis_at g mod 2 ^ 64 = uint (genesis_at mv)) \<and>
    (\<forall>k. k \<noteq> mv_key mv \<longrightarrow> fs_homes st' k = fs_homes st k \<and> fs_genesis st' k = fs_genesis st k \<and> fs_users st' k = fs_users st k)"
proof -
  from apply_mv_cases [OF assms(1)] assms(2) obtain payload sg mv where
    d: "decode_signed_object (lb_de L) wire = Some (payload, sg)" "h = lb_sha L payload" "parse (lb_nfc L) (lb_ser L) (lb_de L) payload = Inr (Move mv)"
    and c: "mv_checked L now_ms st payload sg mv" and e: "mv_effect L st payload sg mv st'" by auto
  from c obtain p where "verify (lb_nfc L) (lb_ser L) (lb_de L) (lb_ed L) payload sg (mv_key mv) = Inr p" by (auto simp: mv_checked_def)
  then have "lb_ed L (mv_key mv) payload sg" by (simp add: verify_signature)
  moreover have "abs_diff now_ms (unat (mv_created_at mv)) \<le> 5 * 60 * 1000" using c by (simp add: mv_checked_def MOVE_CLOCK_SKEW_MS_def)
  moreover note effect_birth [OF c e]
  moreover have "\<forall>k. k \<noteq> mv_key mv \<longrightarrow> fs_homes st' k = fs_homes st k \<and> fs_genesis st' k = fs_genesis st k \<and> fs_users st' k = fs_users st k"
    using e by (simp add: mv_effect_def)
  ultimately show ?thesis using d c unfolding mv_checked_def by blast
qed

section \<open>Birth times\<close>

text \<open>Every stored move declares the birth time recorded for its key.\<close>

definition births_agree :: "fed_lib \<Rightarrow> fed_store \<Rightarrow> bool" where
  "births_agree L st \<longleftrightarrow> (\<forall>h row p mv. fs_objects st h = Some row \<longrightarrow> ob_class row = ''move'' \<longrightarrow> ob_payload row = Some p \<longrightarrow>
     parse (lb_nfc L) (lb_ser L) (lb_de L) p = Inr (Move mv) \<longrightarrow>
     (\<exists>g. fs_genesis st (mv_key mv) = Some g \<and> gr_genesis_at g mod 2 ^ 64 = uint (genesis_at mv)))"

lemma effect_births:
  assumes "births_agree L st" "parse (lb_nfc L) (lb_ser L) (lb_de L) payload = Inr (Move mv)"
    "mv_checked L now_ms st payload sg mv" "mv_effect L st payload sg mv st'"
  shows "births_agree L st'"
proof -
  have kept: "fs_genesis st k = Some g \<Longrightarrow> fs_genesis st' k = Some g" for k g using assms(4) by (auto simp: mv_effect_def)
  show ?thesis unfolding births_agree_def
  proof (intro allI impI)
    fix h row p m
    assume x: "fs_objects st' h = Some row" "ob_class row = ''move''" "ob_payload row = Some p" "parse (lb_nfc L) (lb_ser L) (lb_de L) p = Inr (Move m)"
    show "\<exists>g. fs_genesis st' (mv_key m) = Some g \<and> gr_genesis_at g mod 2 ^ 64 = uint (genesis_at m)"
    proof (cases "h = lb_sha L payload")
      case True
      then have "m = mv" using x(1,3,4) assms(2,4) by (auto simp: mv_effect_def)
      then show ?thesis using effect_birth [OF assms(3,4)] by blast
    next
      case False
      then have "fs_objects st h = Some row" using x(1) assms(4) by (simp add: mv_effect_def)
      then show ?thesis using assms(1) x(2-4) kept unfolding births_agree_def by blast
    qed
  qed
qed

text \<open>C27. The age of an identity is fixed. A push, whatever its moves and failures, keeps every recorded birth (time,
  instance and attestation), and keeps that all stored moves of a key declare its recorded birth time.\<close>

theorem birth_is_immutable:
  assumes "births_agree L st"
  shows "births_agree L (snd (snd (handle_moves_push L now now_ms fails sndr msg st))) \<and>
    (\<forall>k g. fs_genesis st k = Some g \<longrightarrow> fs_genesis (snd (snd (handle_moves_push L now now_ms fails sndr msg st))) k = Some g)"
proof (rule handle_moves_invariant [where P = "\<lambda>s. births_agree L s \<and> (\<forall>k g. fs_genesis st k = Some g \<longrightarrow> fs_genesis s k = Some g)"])
  fix s payload sg mv s'
  assume "births_agree L s \<and> (\<forall>k g. fs_genesis st k = Some g \<longrightarrow> fs_genesis s k = Some g)"
    "parse (lb_nfc L) (lb_ser L) (lb_de L) payload = Inr (Move mv)" "mv_checked L now_ms s payload sg mv" "mv_effect L s payload sg mv s'"
  then show "births_agree L s' \<and> (\<forall>k g. fs_genesis st k = Some g \<longrightarrow> fs_genesis s' k = Some g)"
    using effect_births by (auto simp: mv_effect_def)
qed (use assms in \<open>simp_all add: births_agree_def\<close>)

section \<open>Local authority\<close>

text \<open>A row of a user who is not local carries no authority: no signing key, no sessions, no credentials.\<close>

definition no_stray_authority :: "fed_store \<Rightarrow> bool" where
  "no_stray_authority st \<longleftrightarrow> (\<forall>k u. fs_users st k = Some u \<longrightarrow> ue_signup u = ''federated'' \<longrightarrow>
     \<not> ue_signing_key u \<and> ue_sessions u = 0 \<and> ue_credentials u = 0)"

lemma effect_authority: "no_stray_authority st \<Longrightarrow> mv_effect L st payload sg mv st' \<Longrightarrow> no_stray_authority st'"
  by (auto simp: no_stray_authority_def mv_effect_def user_after_def Let_def split: if_splits)

text \<open>C28. An instance that a user leaves cannot act as that user. Once an accepted move names this instance as its source and
  another as its target, the user's row holds no signing key, no session and no credential, whether the move won or lost
  against the current home.\<close>

theorem departure_disposes_authority:
  assumes "no_stray_authority st" "apply_one_move L now_ms arrived fails wire st = (Inr (h, r), calls, st')" "accepted r"
    and "decode_signed_object (lb_de L) wire = Some (payload, sg)" "parse (lb_nfc L) (lb_ser L) (lb_de L) payload = Inr (Move mv)"
    and "from_instance_key mv = Some (fs_key st)" "to_instance_key mv \<noteq> fs_key st" "fs_users st' (mv_key mv) = Some u"
  shows "\<not> ue_signing_key u \<and> ue_sessions u = 0 \<and> ue_credentials u = 0 \<and> ue_signup u = ''federated'' \<and> no_stray_authority st'"
proof -
  from apply_mv_cases [OF assms(2)] assms(3-5) have e: "mv_effect L st payload sg mv st'" by auto
  from effect_authority [OF assms(1) e] have n: "no_stray_authority st'" .
  obtain v where "u = user_after (fs_key st) mv (mv_new_wins mv (lb_sha L payload) (fs_homes st (mv_key mv))) v"
    using e assms(8) by (auto simp: mv_effect_def)
  then have "ue_signup u = ''federated''" using assms(6,7) by (simp add: user_after_def Let_def)
  then show ?thesis using n assms(8) by (simp add: no_stray_authority_def)
qed

text \<open>C29. A move that names another source re-homes the user and leaves the authority in place: the source that a move
  declares is not compared with the home it leaves, so a local user whose winning move to elsewhere does not name this
  instance as its source keeps its signing key, sessions and credentials here.\<close>

theorem foreign_source_keeps_authority:
  assumes "apply_one_move L now_ms arrived fails wire st = (Inr (h, StApplied), calls, st')"
    and "decode_signed_object (lb_de L) wire = Some (payload, sg)" "parse (lb_nfc L) (lb_ser L) (lb_de L) payload = Inr (Move mv)"
    and "from_instance_key mv \<noteq> Some (fs_key st)" "to_instance_key mv \<noteq> fs_key st" "fs_users st (mv_key mv) = Some u"
  shows "fs_users st' (mv_key mv) = Some (u\<lparr>ue_home := Some (to_instance_key mv)\<rparr>) \<and> fs_homes st' (mv_key mv) = Some (home_row mv h)"
proof -
  from apply_mv_cases [OF assms(1)] assms(2,3) have e: "mv_effect L st payload sg mv st'" and h: "h = lb_sha L payload" by (auto simp: accepted_def)
  have "mv_new_wins mv h (fs_homes st (mv_key mv))"
    using assms(1-3) by (auto simp: apply_one_move_def mv_checks_def mv_commit_def mv_reject_def Let_def split: if_splits option.splits sum.splits)
  then show ?thesis using e h assms(4-6) by (simp add: mv_effect_def mv_put_def user_after_def)
qed

section \<open>Convergence\<close>

definition mv_step :: "fed_lib \<Rightarrow> push_event \<Rightarrow> fed_store \<Rightarrow> (Move \<times> bytes) option \<times> fed_store" where
  "mv_step L ev st =
     (case apply_one_move L (pe_now ev) (pe_from ev) (pe_fails ev) (pe_wire ev) ((pe_env ev st)\<lparr>fs_homes := fs_homes st\<rparr>) of
       (Inr (h, r), _, st') \<Rightarrow> (if accepted r then (case decode_signed_object (lb_de L) (pe_wire ev) of
           Some (payload, _) \<Rightarrow> (case parse (lb_nfc L) (lb_ser L) (lb_de L) payload of Inr (Move mv) \<Rightarrow> Some (mv, h) | _ \<Rightarrow> None)
         | None \<Rightarrow> None) else None, st')
     | (Inl _, _, st') \<Rightarrow> (None, st'))"

lemma mv_step_cases:
  assumes "mv_step L ev st = (x, st')"
  shows "case x of None \<Rightarrow> fs_homes st' = fs_homes st
    | Some y \<Rightarrow> fs_homes st' = (fs_homes st)(mv_key (fst y) := mv_put y (fs_homes st (mv_key (fst y))))"
proof -
  obtain res calls st1 where a: "apply_one_move L (pe_now ev) (pe_from ev) (pe_fails ev) (pe_wire ev)
      ((pe_env ev st)\<lparr>fs_homes := fs_homes st\<rparr>) = (res, calls, st1)" by (metis prod_cases3)
  then have s: "st' = st1" using assms by (auto simp: mv_step_def split: sum.splits prod.splits)
  from apply_mv_cases [OF a] show ?thesis
  proof (elim disjE conjE exE)
    assume "st1 = (pe_env ev st)\<lparr>fs_homes := fs_homes st\<rparr>" "\<forall>h r. res = Inr (h, r) \<longrightarrow> \<not> accepted r"
    then show ?thesis using assms a by (auto simp: mv_step_def split: sum.splits prod.splits)
  next
    fix payload sg q r
    assume "decode_signed_object (lb_de L) (pe_wire ev) = Some (payload, sg)" "parse (lb_nfc L) (lb_ser L) (lb_de L) payload = Inr (Move q)"
      "res = Inr (lb_sha L payload, r)" "accepted r" and e: "mv_effect L ((pe_env ev st)\<lparr>fs_homes := fs_homes st\<rparr>) payload sg q st1"
    then have "x = Some (q, lb_sha L payload)" using assms a by (auto simp: mv_step_def)
    then show ?thesis using e s by (simp add: mv_effect_def)
  qed
qed

abbreviation mv_rank :: "Move \<times> bytes \<Rightarrow> nat \<times> bytes" where
  "mv_rank x \<equiv> (unat (mv_created_at (fst x)), snd x)"

interpretation mv_log: register_log mv_put "\<lambda>x. home_row (fst x) (snd x)" mv_rank
  "\<lambda>x r. mv_new_wins (fst x) (snd x) (Some r)" "\<lambda>x. unat (mv_created_at (fst x)) < 2 ^ 63"
  "mv_step L" fs_homes "\<lambda>x. mv_key (fst x)" for L
proof
  show "mv_put x old = (case old of None \<Rightarrow> Some (home_row (fst x) (snd x))
    | Some r \<Rightarrow> if mv_new_wins (fst x) (snd x) (Some r) then Some (home_row (fst x) (snd x)) else old)" for x old
    by (cases old) (simp_all add: mv_put_def mv_new_wins_def)
qed (use mv_step_cases in \<open>force simp: home_row_def sint_small newer_def mv_new_wins_def Let_def\<close>)+

text \<open>Instances converge on the home of every user. If two histories of pushes, in whatever order and with whatever
  failures and duplicates, accepted the same moves of a user, the two instances hold the same home pointer, that of the move
  with the latest time, the smaller hash deciding ties.\<close>

theorem homes_converge:
  assumes "log_run (mv_step L) evs A = (xs, A')" "log_run (mv_step L) evs' B = (ys, B')"
    and "fs_homes A k = None" "fs_homes B k = None"
    and "set (filter (\<lambda>x. mv_key (fst x) = k) xs) = set (filter (\<lambda>x. mv_key (fst x) = k) ys)"
    and "list_all (\<lambda>x. unat (mv_created_at (fst x)) < 2 ^ 63) xs" "inj_on snd (set xs)"
  shows "fs_homes A' k = fs_homes B' k \<and>
    (\<forall>y \<in> set xs. mv_key (fst y) = k \<longrightarrow> (\<exists>x \<in> set xs. mv_key (fst x) = k \<and> fs_homes A' k = Some (home_row (fst x) (snd x)) \<and>
       \<not> newer (mv_rank y) (mv_rank x)))"
proof
  have "inj_on mv_rank (set xs)" using assms(7) by (auto simp: inj_on_def)
  from mv_log.converge [OF assms(1-6) this] show "fs_homes A' k = fs_homes B' k" .
  show "\<forall>y \<in> set xs. mv_key (fst y) = k \<longrightarrow> (\<exists>x \<in> set xs. mv_key (fst x) = k \<and> fs_homes A' k = Some (home_row (fst x) (snd x)) \<and>
       \<not> newer (mv_rank y) (mv_rank x))"
    using mv_log.newest [OF assms(1,3,6)] by blast
qed

section \<open>Concrete inputs\<close>

lemma mv_accepts:
  assumes "decode_signed_object (lb_de L) wire = Some (payload, sg)" "fs_objects st (lb_sha L payload) = None" "lb_key_ok L (mv_key mv)"
    and "parse (lb_nfc L) (lb_ser L) (lb_de L) payload = Inr (Move mv)" "mv_checked L now_ms st payload sg mv"
  shows "\<exists>calls st'. apply_one_move L now_ms arrived (\<lambda>_. False) wire st =
      (Inr (lb_sha L payload, if mv_new_wins mv (lb_sha L payload) (fs_homes st (mv_key mv)) then StApplied else StSuperseded), calls, st') \<and>
    mv_effect L st payload sg mv st'"
proof -
  have t: "apply_one_move L now_ms arrived (\<lambda>_. False) wire st = mv_commit L (\<lambda>_. False) wire payload sg (lb_sha L payload) mv arrived st"
    using assms by (cases "prior_move_hash mv") (auto simp: apply_one_move_def mv_checks_def mv_checked_def)
  obtain res calls st' where c: "mv_commit L (\<lambda>_. False) wire payload sg (lb_sha L payload) mv arrived st = (res, calls, st')"
    by (metis prod_cases3)
  have "\<exists>h r. res = Inr (h, r) \<and> accepted r"
    using c assms(5) by (cases "fs_genesis st (mv_key mv)") (auto simp: mv_commit_def mv_checked_def accepted_def Let_def)
  with mv_commit_cases [OF c assms(2) refl] show ?thesis using t c by auto
qed

text \<open>A user moves from the instance with key \<open>1\<close> to the one with key \<open>2\<close>, at the time \<open>t\<close>. The library knows the two wires
  \<open>[1]\<close> and \<open>[3]\<close>, of the moves at the times 4 and 6.\<close>

definition demo_move :: "u64 \<Rightarrow> Move" where
  "demo_move t = \<lparr>mv_key = replicate 32 7, from_instance_key = Some (replicate 32 1), from_instance = Some ''a'', to_instance_key = replicate 32 2,
     to_instance = ''c'', mv_created_at = t, genesis_at = 3,
     genesis_attestation = \<lparr>ga_key = replicate 32 7, ga_genesis_at = 3, birth_instance_key = replicate 32 8, ga_sig = replicate 64 8\<rparr>,
     prior_move_hash = None\<rparr>"

definition move_lib :: fed_lib where
  "move_lib = \<lparr>lb_nfc = id, lb_ser = (\<lambda>v. Some (if v = to_cbor_value (Move (demo_move 6)) then [4] else [2])),
     lb_de = (\<lambda>b. if b = [2] then Some (to_cbor_value (Move (demo_move 4))) else if b = [4] then Some (to_cbor_value (Move (demo_move 6)))
        else Some (VMap [(VText ''p'', VBytes [hd b + 1]), (VText ''s'', VBytes (replicate 64 7))])),
     lb_ed = (\<lambda>k p sg. sg = replicate 64 (hd k)), lb_key_ok = (\<lambda>_. True), lb_sha = (\<lambda>p. replicate 32 (hd p)), lb_sign = (\<lambda>_. replicate 64 9)\<rparr>"

lemma demo_move_wf: "wf_payload id (Move (demo_move t))"
  by (simp add: demo_move_def opt_len_def wf_genesis_attestation_def)

lemma demo_moves_differ: "to_cbor_value (Move (demo_move 4)) \<noteq> to_cbor_value (Move (demo_move 6))"
proof
  assume "to_cbor_value (Move (demo_move 4)) = to_cbor_value (Move (demo_move 6))"
  from to_cbor_inj [OF demo_move_wf demo_move_wf this] show False by (simp add: demo_move_def)
qed

lemma demo_frame:
  assumes "b \<in> {1, 3}"
  shows "decode_signed_object (lb_de move_lib) [b] = Some ([b + 1], replicate 64 7)"
    "parse (lb_nfc move_lib) (lb_ser move_lib) (lb_de move_lib) [b + 1] = Inr (Move (demo_move (if b = 1 then 4 else 6)))"
proof -
  show "decode_signed_object (lb_de move_lib) [b] = Some ([b + 1], replicate 64 7)"
    using assms by (auto simp: move_lib_def decode_signed_object_def)
  show "parse (lb_nfc move_lib) (lb_ser move_lib) (lb_de move_lib) [b + 1] = Inr (Move (demo_move (if b = 1 then 4 else 6)))"
    using assms demo_moves_differ demo_move_wf by (intro parse_of) (auto simp: move_lib_def)
qed

text \<open>A store of the instance \<open>key\<close>, where the user is local and has a signing key, two sessions and a credential.\<close>

definition move_store :: "bytes \<Rightarrow> fed_store" where
  "move_store key = (demo_store key Map.empty Map.empty)\<lparr>fs_users := [replicate 32 7 \<mapsto> \<lparr>ue_home = None, ue_signup = ''steam'',
       ue_signing_key = True, ue_sessions = 2, ue_credentials = 1\<rparr>]\<rparr>"

lemma demo_move_checked:
  assumes "fs_genesis st (replicate 32 7) = None \<or> (\<exists>g. fs_genesis st (replicate 32 7) = Some g \<and> gr_genesis_at g = 3)" "b \<in> {1, 3}"
  shows "mv_checked move_lib 5 st [b + 1] (replicate 64 7) (demo_move (if b = 1 then 4 else 6))"
proof -
  let ?m = "demo_move (if b = 1 then 4 else 6)"
  have k: "mv_key ?m = replicate 32 7" "genesis_attestation ?m = genesis_attestation (demo_move 4)" "prior_move_hash ?m = None" "genesis_at ?m = 3"
    by (simp_all add: demo_move_def)
  have e: "lb_ed move_lib (replicate 32 7) [b + 1] (replicate 64 7)" by (simp add: move_lib_def)
  have "verify (lb_nfc move_lib) (lb_ser move_lib) (lb_de move_lib) (lb_ed move_lib) [b + 1] (replicate 64 7) (replicate 32 7) = Inr (Move ?m)"
    using demo_frame(2) [OF assms(2)] e by (simp add: verify_def guard_def andthen_def map_err_def demo_move_def)
  moreover have "attestation_verifies move_lib (genesis_attestation (demo_move 4))"
    by (simp add: attestation_verifies_def move_lib_def demo_move_def genesis_attestation_signing_bytes_def)
  moreover have "abs_diff 5 (unat (mv_created_at ?m)) \<le> MOVE_CLOCK_SKEW_MS" by (simp add: demo_move_def abs_diff_def MOVE_CLOCK_SKEW_MS_def)
  ultimately show ?thesis using assms(1) unfolding mv_checked_def k by auto
qed

lemma demo_move_step:
  assumes "fs_genesis st (replicate 32 7) = None \<or> (\<exists>g. fs_genesis st (replicate 32 7) = Some g \<and> gr_genesis_at g = 3)" "b \<in> {1, 3}"
    "fs_objects st (replicate 32 (b + 1)) = None"
  obtains calls st' where "apply_one_move move_lib 5 (replicate 32 5) (\<lambda>_. False) [b] st =
      (Inr (replicate 32 (b + 1), if mv_new_wins (demo_move (if b = 1 then 4 else 6)) (replicate 32 (b + 1)) (fs_homes st (replicate 32 7))
         then StApplied else StSuperseded), calls, st')"
    "mv_effect move_lib st [b + 1] (replicate 64 7) (demo_move (if b = 1 then 4 else 6)) st'"
proof -
  have k: "mv_key (demo_move (if b = 1 then 4 else 6)) = replicate 32 7" by (simp add: demo_move_def)
  have h: "lb_sha move_lib [b + 1] = replicate 32 (b + 1)" "lb_key_ok move_lib x" for x by (simp_all add: move_lib_def)
  from mv_accepts [OF demo_frame(1) [OF assms(2)] _ h(2) demo_frame(2) [OF assms(2)] demo_move_checked [OF assms(1,2)], of "replicate 32 5"]
  show thesis using that assms(3) unfolding h k by blast
qed

theorem accepted_move_by_user_witness:
  "\<exists>calls st' payload sg mv. apply_one_move move_lib 5 (replicate 32 5) (\<lambda>_. False) [1] (move_store (replicate 32 1)) =
      (Inr (replicate 32 2, StApplied), calls, st') \<and> decode_signed_object (lb_de move_lib) [1] = Some (payload, sg) \<and>
    lb_ed move_lib (mv_key (mv :: Move)) payload sg \<and> (\<exists>g. fs_genesis st' (mv_key mv) = Some g)"
proof -
  obtain calls st' where a: "apply_one_move move_lib 5 (replicate 32 5) (\<lambda>_. False) [1] (move_store (replicate 32 1)) =
      (Inr (replicate 32 2, StApplied), calls, st')"
    by (rule demo_move_step [of "move_store (replicate 32 1)" 1]) (simp_all add: move_store_def demo_store_def mv_new_wins_def)
  have "accepted (StApplied :: MoveStatus)" by (simp add: accepted_def)
  from accepted_move_by_user [OF a this] a show ?thesis by blast
qed

theorem birth_is_immutable_witness:
  "births_agree move_lib (snd (snd (handle_moves_push move_lib 0 5 (\<lambda>_ _. False) (replicate 32 5) [1] (move_store (replicate 32 1)))))"
proof -
  have "births_agree move_lib (move_store (replicate 32 1))" by (simp add: births_agree_def move_store_def demo_store_def)
  from birth_is_immutable [OF this] show ?thesis by blast
qed

theorem departure_disposes_authority_witness:
  "\<exists>calls st' u. apply_one_move move_lib 5 (replicate 32 5) (\<lambda>_. False) [1] (move_store (replicate 32 1)) =
      (Inr (replicate 32 2, StApplied), calls, st') \<and> fs_users st' (replicate 32 7) = Some u \<and> \<not> ue_signing_key u \<and> ue_sessions u = 0"
proof -
  let ?st = "move_store (replicate 32 1)"
  obtain calls st' where a: "apply_one_move move_lib 5 (replicate 32 5) (\<lambda>_. False) [1] ?st = (Inr (replicate 32 2, StApplied), calls, st')"
    and e: "mv_effect move_lib ?st [2] (replicate 64 7) (demo_move 4) st'"
    by (rule demo_move_step [of ?st 1]) (simp_all add: move_store_def demo_store_def mv_new_wins_def)
  have k: "mv_key (demo_move 4) = replicate 32 7" "fs_key ?st = replicate 32 1" "from_instance_key (demo_move 4) = Some (replicate 32 1)"
    "to_instance_key (demo_move 4) \<noteq> replicate 32 1" by (simp_all add: demo_move_def move_store_def demo_store_def replicate_eq_replicate)
  obtain u where u: "fs_users st' (mv_key (demo_move 4)) = Some u" using e unfolding k by (auto simp: mv_effect_def k move_store_def)
  have n: "no_stray_authority ?st" by (simp add: no_stray_authority_def move_store_def)
  have "accepted (StApplied :: MoveStatus)" by (simp add: accepted_def)
  from departure_disposes_authority [OF n a this _ _ _ _ u] demo_frame [of 1] k have "\<not> ue_signing_key u" "ue_sessions u = 0" by auto
  with a u k(1) show ?thesis by auto
qed

theorem foreign_source_keeps_authority_witness:
  "\<exists>calls st' u. apply_one_move move_lib 5 (replicate 32 5) (\<lambda>_. False) [1] (move_store (replicate 32 9)) =
      (Inr (replicate 32 2, StApplied), calls, st') \<and> fs_users st' (replicate 32 7) = Some u \<and>
    ue_home u = Some (replicate 32 2) \<and> ue_signing_key u \<and> ue_sessions u = 2"
proof -
  let ?st = "move_store (replicate 32 9)"
  obtain calls st' where a: "apply_one_move move_lib 5 (replicate 32 5) (\<lambda>_. False) [1] ?st = (Inr (replicate 32 2, StApplied), calls, st')"
    by (rule demo_move_step [of ?st 1]) (simp_all add: move_store_def demo_store_def mv_new_wins_def)
  have k: "mv_key (demo_move 4) = replicate 32 7" "fs_key ?st = replicate 32 9" "from_instance_key (demo_move 4) \<noteq> Some (replicate 32 9)"
    "to_instance_key (demo_move 4) \<noteq> replicate 32 9" "to_instance_key (demo_move 4) = replicate 32 2"
    by (simp_all add: demo_move_def move_store_def demo_store_def replicate_eq_replicate)
  obtain u where u: "fs_users ?st (mv_key (demo_move 4)) = Some u" "ue_signing_key u" "ue_sessions u = 2"
    unfolding k by (simp add: move_store_def)
  have d: "decode_signed_object (lb_de move_lib) [1] = Some ([2], replicate 64 7)"
    "parse (lb_nfc move_lib) (lb_ser move_lib) (lb_de move_lib) [2] = Inr (Move (demo_move 4))" using demo_frame [of 1] by simp_all
  from foreign_source_keeps_authority [OF a d _ _ u(1)] k u(2,3) a show ?thesis by auto
qed

definition move_event :: "u8 \<Rightarrow> push_event" where
  "move_event b = \<lparr>pe_env = id, pe_fails = (\<lambda>_. False), pe_now = 5, pe_from = replicate 32 5, pe_wire = [b]\<rparr>"

lemma demo_mv_step:
  assumes "fs_genesis st (replicate 32 7) = None \<or> (\<exists>g. fs_genesis st (replicate 32 7) = Some g \<and> gr_genesis_at g = 3)" "b \<in> {1, 3}"
    "fs_objects st (replicate 32 (b + 1)) = None"
  obtains st' where "mv_step move_lib (move_event b) st = (Some (demo_move (if b = 1 then 4 else 6), replicate 32 (b + 1)), st')"
    "\<exists>g. fs_genesis st' (replicate 32 7) = Some g \<and> gr_genesis_at g = 3" "fs_objects st' = (fs_objects st)(replicate 32 (b + 1) \<mapsto>
      \<lparr>ob_class = ''move'', ob_payload = Some [b + 1], ob_signature = replicate 64 7\<rparr>)"
proof -
  obtain calls st' where a: "apply_one_move move_lib 5 (replicate 32 5) (\<lambda>_. False) [b] st =
      (Inr (replicate 32 (b + 1), if mv_new_wins (demo_move (if b = 1 then 4 else 6)) (replicate 32 (b + 1)) (fs_homes st (replicate 32 7))
         then StApplied else StSuperseded), calls, st')"
    and e: "mv_effect move_lib st [b + 1] (replicate 64 7) (demo_move (if b = 1 then 4 else 6)) st'" using demo_move_step [OF assms] .
  have k: "mv_key (demo_move t) = replicate 32 7" "genesis_at (demo_move t) = 3" for t by (simp_all add: demo_move_def)
  have "mv_step move_lib (move_event b) st = (Some (demo_move (if b = 1 then 4 else 6), replicate 32 (b + 1)), st')"
    using a demo_frame [OF assms(2)] by (simp add: mv_step_def move_event_def accepted_def)
  moreover have "\<exists>g. fs_genesis st' (replicate 32 7) = Some g \<and> gr_genesis_at g = 3" using e assms(1) by (auto simp: mv_effect_def k)
  moreover have "fs_objects st' = (fs_objects st)(replicate 32 (b + 1) \<mapsto> \<lparr>ob_class = ''move'', ob_payload = Some [b + 1], ob_signature = replicate 64 7\<rparr>)"
    using e by (simp add: mv_effect_def move_lib_def)
  ultimately show thesis using that by blast
qed

theorem homes_converge_witness:
  "\<exists>xs A' ys B'. log_run (mv_step move_lib) [move_event 1, move_event 3] (move_store (replicate 32 9)) = (xs, A') \<and>
    log_run (mv_step move_lib) [move_event 3, move_event 1] (move_store (replicate 32 9)) = (ys, B') \<and>
    xs \<noteq> ys \<and> fs_homes A' (replicate 32 7) = fs_homes B' (replicate 32 7)"
proof -
  let ?st = "move_store (replicate 32 9)" and ?x = "(demo_move 4, replicate 32 (2 :: u8))" and ?y = "(demo_move 6, replicate 32 (4 :: u8))"
  have ne: "replicate 32 (2 :: u8) \<noteq> replicate 32 4" by (simp add: replicate_eq_replicate)
  have f: "fs_genesis ?st = Map.empty" "fs_objects ?st = Map.empty" "fs_homes ?st = Map.empty" by (simp_all add: move_store_def demo_store_def)
  obtain A where A: "mv_step move_lib (move_event 1) ?st = (Some ?x, A)" "\<exists>g. fs_genesis A (replicate 32 7) = Some g \<and> gr_genesis_at g = 3"
    "fs_objects A (replicate 32 4) = None" by (rule demo_mv_step [of ?st 1]) (use f ne in auto)
  obtain A' where A': "mv_step move_lib (move_event 3) A = (Some ?y, A')" by (rule demo_mv_step [of A 3]) (use A(2,3) in auto)
  obtain B where B: "mv_step move_lib (move_event 3) ?st = (Some ?y, B)" "\<exists>g. fs_genesis B (replicate 32 7) = Some g \<and> gr_genesis_at g = 3"
    "fs_objects B (replicate 32 2) = None" by (rule demo_mv_step [of ?st 3]) (use f ne in auto)
  obtain B' where B': "mv_step move_lib (move_event 1) B = (Some ?x, B')" by (rule demo_mv_step [of B 1]) (use B(2,3) in auto)
  have r: "log_run (mv_step move_lib) [move_event 1, move_event 3] ?st = ([?x, ?y], A')"
    "log_run (mv_step move_lib) [move_event 3, move_event 1] ?st = ([?y, ?x], B')" using A(1) A' B(1) B' by simp_all
  have "set (filter (\<lambda>x. mv_key (fst x) = replicate 32 7) [?x, ?y]) = set (filter (\<lambda>x. mv_key (fst x) = replicate 32 7) [?y, ?x])" by auto
  moreover have "list_all (\<lambda>x. unat (mv_created_at (fst x)) < 2 ^ 63) [?x, ?y]" "inj_on snd (set [?x, ?y])" using ne by (simp_all add: demo_move_def)
  moreover have "fs_homes ?st (replicate 32 7) = None" using f by simp
  ultimately have "fs_homes A' (replicate 32 7) = fs_homes B' (replicate 32 7)" using homes_converge [OF r] by blast
  moreover have "[?x, ?y] \<noteq> [?y, ?x]" using ne by simp
  ultimately show ?thesis using r by blast
qed

end
