(* ===== verification/Edge_Chain.thy ===== *)
theory Edge_Chain
  imports Object_Store Frontier_Store
begin

text \<open>
  How received trust edges become rows of the trust graph (\<open>server/src/federation/remote_users.rs\<close> and
  \<open>erase_trust_edge_chain\<close> of \<open>signing.rs\<close>): the projection with its checks for forks and gaps of the chain of a pair, the buffer
  of orphans with its draining and eviction, and the sweep that runs when a user becomes known. Shown: the projected edges of a
  pair form one chain, whatever is projected was signed by its source, draining ends, and the sweep leaves nothing that could
  still be projected.
\<close>

section \<open>Tables\<close>

text \<open>A row of \<open>trust_edges\<close>; the columns for the random id, the reason and the format version are not read here.\<close>

record trust_row =
  tr_source :: string
  tr_target :: string
  tr_type :: string
  tr_created :: string
  tr_sig :: "bytes option"
  tr_prior :: "bytes option"
  tr_hash :: "bytes option"

record pending_row =
  pt_source :: bytes
  pt_target :: bytes
  pt_prior :: bytes
  pt_hash :: bytes
  pt_payload :: bytes
  pt_sig :: bytes
  pt_received :: int

text \<open>\<open>es_fed\<close> holds \<open>signed_objects\<close> and \<open>user_homes\<close>, \<open>es_frontier\<close> holds \<open>users\<close> and the reverse-frontier tables;
  \<open>es_erased_by\<close> is the column of that name, set together with \<open>erased_at\<close>.\<close>

record edge_store =
  es_fed :: fed_store
  es_erased_by :: "bytes \<rightharpoonup> bytes"
  es_edges :: "trust_row list"
  es_pending :: "pending_row list"
  es_frontier :: frontier_db

text \<open>The clock, in milliseconds and as text, and the conversion of chrono with its format, \<open>None\<close> out of range.\<close>

record edge_clock =
  ec_now_ms :: int
  ec_now_iso :: string
  ec_iso :: "int \<Rightarrow> string option"

datatype TrustEdgeProjection = Projected | EndpointMissing | ChainFork | Deferred

definition user_id :: "bytes \<Rightarrow> edge_store \<Rightarrow> string option" where
  "user_id key st = map_option us_id (find (\<lambda>u. us_public_key u = key) (db_users (es_frontier st)))"

definition has_edge :: "bytes \<Rightarrow> edge_store \<Rightarrow> bool" where
  "has_edge h st = list_ex (\<lambda>r. tr_hash r = Some h) (es_edges st)"

section \<open>Projection\<close>

definition sibling :: "string \<Rightarrow> string \<Rightarrow> bytes option \<Rightarrow> bytes \<Rightarrow> trust_row \<Rightarrow> bool" where
  "sibling source target prior hash r \<longleftrightarrow>
     tr_source r = source \<and> tr_target r = target \<and> tr_prior r = prior \<and> tr_hash r \<noteq> None \<and> tr_hash r \<noteq> Some hash"

definition created_at_iso :: "edge_clock \<Rightarrow> u64 \<Rightarrow> string" where
  "created_at_iso C t = (if unat t < 2 ^ 63 then (case ec_iso C (uint t) of Some s \<Rightarrow> s | None \<Rightarrow> ec_now_iso C) else ec_now_iso C)"

text \<open>Payloads of the pair's other projected edges are cleared; the first authority of an erasure stays recorded.\<close>

definition erase_trust_edge_chain :: "string \<Rightarrow> string \<Rightarrow> bytes \<Rightarrow> edge_store \<Rightarrow> edge_store" where
  "erase_trust_edge_chain source target except st =
     (let hit = (\<lambda>h. h \<noteq> except \<and> list_ex (\<lambda>r. tr_source r = source \<and> tr_target r = target \<and> tr_hash r = Some h) (es_edges st) \<and>
            (case fs_objects (es_fed st) h of Some row \<Rightarrow> ob_payload row \<noteq> None | None \<Rightarrow> False))
      in st\<lparr>es_fed := (es_fed st)\<lparr>fs_objects := (\<lambda>h. if hit h then map_option (\<lambda>row. row\<lparr>ob_payload := None\<rparr>) (fs_objects (es_fed st) h)
              else fs_objects (es_fed st) h)\<rparr>,
            es_erased_by := (\<lambda>h. if hit h \<and> es_erased_by st h = None then Some except else es_erased_by st h)\<rparr>)"

definition add_frontier_edge :: "TrustEdge \<Rightarrow> bytes \<Rightarrow> bytes \<Rightarrow> bytes \<Rightarrow> edge_store \<Rightarrow> edge_store" where
  "add_frontier_edge edge hash sg payload st =
     (if length sg = 64 then st\<lparr>es_frontier := snd (insert_frontier_edge edge hash sg payload (current_generation (es_frontier st)) (es_frontier st))\<rparr>
      else st)"

definition try_project_trust_edge ::
  "edge_clock \<Rightarrow> TrustEdge \<Rightarrow> bytes \<Rightarrow> bytes \<Rightarrow> bytes \<Rightarrow> edge_store \<Rightarrow> TrustEdgeProjection \<times> edge_store" where
  "try_project_trust_edge C edge hash sg payload st = (case (user_id (from_key edge) st, user_id (to_key edge) st) of
     (Some source, Some target) \<Rightarrow>
       if has_edge hash st then (Projected, st)
       else if list_ex (sibling source target (prior_edge_hash edge) hash) (es_edges st) then (ChainFork, st)
       else if (case prior_edge_hash edge of None \<Rightarrow> False | Some p \<Rightarrow>
           \<not> list_ex (\<lambda>r. tr_source r = source \<and> tr_target r = target \<and> tr_hash r = Some p) (es_edges st)) then (Deferred, st)
       else
         let row = \<lparr>tr_source = source, tr_target = target, tr_type = stance_as_str (stance edge),
               tr_created = created_at_iso C (te_created_at edge), tr_sig = Some sg, tr_prior = prior_edge_hash edge, tr_hash = Some hash\<rparr>;
             st1 = add_frontier_edge edge hash sg payload (st\<lparr>es_edges := es_edges st @ [row]\<rparr>)
         in (Projected, if stance edge = Neutral then erase_trust_edge_chain source target hash st1 else st1)
   | _ \<Rightarrow> (EndpointMissing, st))"

section \<open>The buffer of orphans\<close>

definition enqueue_pending_trust_edge ::
  "TrustEdge \<Rightarrow> bytes \<Rightarrow> bytes \<Rightarrow> bytes \<Rightarrow> int \<Rightarrow> edge_store \<Rightarrow> bool \<times> edge_store" where
  "enqueue_pending_trust_edge edge hash payload sg now_ms st = (case prior_edge_hash edge of
     None \<Rightarrow> (False, st)
   | Some prior \<Rightarrow>
       if list_ex (\<lambda>r. pt_source r = from_key edge \<and> pt_prior r = prior) (es_pending st) then (False, st)
       else (True, st\<lparr>es_pending := es_pending st @ [\<lparr>pt_source = from_key edge, pt_target = to_key edge, pt_prior = prior, pt_hash = hash,
               pt_payload = payload, pt_sig = sg, pt_received = now_ms\<rparr>]\<rparr>))"

definition delete_pending_orphan :: "bytes \<Rightarrow> bytes \<Rightarrow> edge_store \<Rightarrow> edge_store" where
  "delete_pending_orphan source prior st = st\<lparr>es_pending := filter (\<lambda>r. \<not> (pt_source r = source \<and> pt_prior r = prior)) (es_pending st)\<rparr>"

definition store_edge :: "bytes \<Rightarrow> bytes \<Rightarrow> bytes \<Rightarrow> edge_store \<Rightarrow> edge_store" where
  "store_edge payload sg hash st = st\<lparr>es_fed := store_signed_object ''trust-edge'' payload sg hash (es_fed st)\<rparr>"

text \<open>One row of a round of the drain, on the worklist (its end is the head here) and the store.\<close>

definition drain_row :: "fed_lib \<Rightarrow> edge_clock \<Rightarrow> pending_row \<Rightarrow> bytes list \<times> edge_store \<Rightarrow> bytes list \<times> edge_store" where
  "drain_row L C row s = (case s of (worklist, st) \<Rightarrow>
     let gone = delete_pending_orphan (pt_source row) (pt_prior row)
     in case parse (lb_nfc L) (lb_ser L) (lb_de L) (pt_payload row) of
       Inr (TrustEdge edge) \<Rightarrow>
         if length (pt_hash row) \<noteq> 32 then (worklist, gone st)
         else (case try_project_trust_edge C edge (pt_hash row) (pt_sig row) (pt_payload row) st of
             (Projected, st1) \<Rightarrow> (pt_hash row # worklist, gone (store_edge (pt_payload row) (pt_sig row) (pt_hash row) st1))
           | (ChainFork, st1) \<Rightarrow> (worklist, gone (store_edge (pt_payload row) (pt_sig row) (pt_hash row) st1))
           | (EndpointMissing, st1) \<Rightarrow> (worklist, gone (store_edge (pt_payload row) (pt_sig row) (pt_hash row) st1))
           | (Deferred, st1) \<Rightarrow> (worklist, st1))
     | _ \<Rightarrow> (worklist, gone st))"

text \<open>The loop, with fuel for its rounds.\<close>

fun drain :: "fed_lib \<Rightarrow> edge_clock \<Rightarrow> nat \<Rightarrow> bytes list \<Rightarrow> edge_store \<Rightarrow> edge_store option" where
  "drain L C n [] st = Some st"
| "drain L C 0 (current # worklist) st = None"
| "drain L C (Suc n) (current # worklist) st =
     (case fold (drain_row L C) (filter (\<lambda>r. pt_prior r = current) (es_pending st)) (worklist, st) of
       (worklist', st') \<Rightarrow> drain L C n worklist' st')"

text \<open>One round for the start and one for every buffered row are enough (\<open>drain_total\<close>), so that the default is never taken
  where the primary key of the buffer is unique.\<close>

definition drain_pending_orphans_after :: "fed_lib \<Rightarrow> edge_clock \<Rightarrow> bytes \<Rightarrow> edge_store \<Rightarrow> edge_store" where
  "drain_pending_orphans_after L C start st = (case drain L C (Suc (length (es_pending st))) [start] st of Some st' \<Rightarrow> st' | None \<Rightarrow> st)"

definition evict_expired_pending_trust_edges :: "int \<Rightarrow> int \<Rightarrow> edge_store \<Rightarrow> nat \<times> edge_store" where
  "evict_expired_pending_trust_edges now_ms ttl_ms st =
     (let cutoff = max (- (2 ^ 63)) (min (2 ^ 63 - 1) (now_ms - ttl_ms));
          kept = filter (\<lambda>r. \<not> pt_received r < cutoff) (es_pending st)
      in (length (es_pending st) - length kept, st\<lparr>es_pending := kept\<rparr>))"

section \<open>The sweep\<close>

type_synonym SweepCandidate = "TrustEdge \<times> bytes \<times> bytes \<times> bytes"

text \<open>\<open>rows\<close> lists the hashes of \<open>signed_objects\<close> in the order of the query.\<close>

definition sweep_candidate :: "fed_lib \<Rightarrow> bytes \<Rightarrow> edge_store \<Rightarrow> bytes \<Rightarrow> SweepCandidate option" where
  "sweep_candidate L key st h = (case fs_objects (es_fed st) h of
     None \<Rightarrow> None
   | Some row \<Rightarrow> if ob_class row \<noteq> ''trust-edge'' \<or> has_edge h st then None
       else (case ob_payload row of
         None \<Rightarrow> None
       | Some payload \<Rightarrow> (case parse (lb_nfc L) (lb_ser L) (lb_de L) payload of
           Inr (TrustEdge edge) \<Rightarrow> if from_key edge \<noteq> key \<and> to_key edge \<noteq> key then None
             else if length h \<noteq> 32 then None else Some (edge, h, ob_signature row, payload)
         | _ \<Rightarrow> None)))"

text \<open>A pass of the loop: whether it made progress, what stays deferred, and the store.\<close>

fun sweep_pass ::
  "fed_lib \<Rightarrow> edge_clock \<Rightarrow> SweepCandidate list \<Rightarrow> edge_store \<Rightarrow> bool \<times> SweepCandidate list \<times> edge_store" where
  "sweep_pass L C [] st = (False, [], st)"
| "sweep_pass L C ((edge, hash, sg, payload) # cs) st = (case try_project_trust_edge C edge hash sg payload st of
     (Projected, st1) \<Rightarrow> (case sweep_pass L C cs (drain_pending_orphans_after L C hash st1) of (_, ds, st2) \<Rightarrow> (True, ds, st2))
   | (Deferred, st1) \<Rightarrow> (case sweep_pass L C cs st1 of (p, ds, st2) \<Rightarrow> (p, (edge, hash, sg, payload) # ds, st2))
   | (_, st1) \<Rightarrow> sweep_pass L C cs st1)"

lemma sweep_pass_length: "sweep_pass L C cs st = (p, ds, st') \<Longrightarrow> length ds \<le> length cs \<and> (p \<longrightarrow> length ds < length cs)"
  by (induction L C cs st arbitrary: p ds st' rule: sweep_pass.induct)
    (fastforce split: prod.splits TrustEdgeProjection.splits)+

function sweep_loop :: "fed_lib \<Rightarrow> edge_clock \<Rightarrow> SweepCandidate list \<Rightarrow> edge_store \<Rightarrow> bool \<times> edge_store" where
  "sweep_loop L C cs st = (case sweep_pass L C cs st of (progressed, ds, st1) \<Rightarrow>
     if progressed then (case sweep_loop L C ds st1 of (_, st2) \<Rightarrow> (True, st2)) else (False, st1))"
  by pat_completeness auto
termination
  by (relation "measure (\<lambda>(_, _, cs, _). length cs)") (auto dest: sweep_pass_length [OF sym])

declare sweep_loop.simps [simp del]

definition sweep_pending_projections :: "fed_lib \<Rightarrow> edge_clock \<Rightarrow> bytes list \<Rightarrow> bytes \<Rightarrow> edge_store \<Rightarrow> bool \<times> edge_store" where
  "sweep_pending_projections L C rows key st = sweep_loop L C (List.map_filter (sweep_candidate L key st) rows) st"

section \<open>Invariants of the store\<close>

text \<open>What an invariant has to bring for every path to keep it: it is kept by the five writes, for arguments that are good, and
  what the buffer and \<open>signed_objects\<close> hold is good.\<close>

locale edge_invariant =
  fixes L :: fed_lib and C :: edge_clock
    and I :: "edge_store \<Rightarrow> bool"
    and good :: "TrustEdge \<Rightarrow> bytes \<Rightarrow> bytes \<Rightarrow> bytes \<Rightarrow> bool"
  assumes project: "I st \<Longrightarrow> good e h sg p \<Longrightarrow> I (snd (try_project_trust_edge C e h sg p st))"
    and store: "I st \<Longrightarrow> good e h sg p \<Longrightarrow> I (store_edge p sg h st)"
    and forget: "I st \<Longrightarrow> I (delete_pending_orphan a b st)"
    and queue: "I st \<Longrightarrow> good e h sg p \<Longrightarrow> I (snd (enqueue_pending_trust_edge e h p sg t st))"
    and frontier: "I st \<Longrightarrow> good e h sg p \<Longrightarrow> I (add_frontier_edge e h sg p st)"
    and buffered: "I st \<Longrightarrow> row \<in> set (es_pending st) \<Longrightarrow> parse (lb_nfc L) (lb_ser L) (lb_de L) (pt_payload row) = Inr (TrustEdge e) \<Longrightarrow>
      good e (pt_hash row) (pt_sig row) (pt_payload row)"
    and stored: "I st \<Longrightarrow> fs_objects (es_fed st) h = Some ob \<Longrightarrow> ob_payload ob = Some p \<Longrightarrow>
      parse (lb_nfc L) (lb_ser L) (lb_de L) p = Inr (TrustEdge e) \<Longrightarrow> good e h (ob_signature ob) p"
begin

definition row_good :: "pending_row \<Rightarrow> bool" where
  "row_good row \<longleftrightarrow> (\<forall>e. parse (lb_nfc L) (lb_ser L) (lb_de L) (pt_payload row) = Inr (TrustEdge e) \<longrightarrow>
     good e (pt_hash row) (pt_sig row) (pt_payload row))"

lemma drain_row_keeps:
  assumes "I (snd s)" "row_good row"
  shows "I (snd (drain_row L C row s))"
proof (cases s)
  case (Pair wl st)
  show ?thesis
  proof (cases "\<exists>e. parse (lb_nfc L) (lb_ser L) (lb_de L) (pt_payload row) = Inr (TrustEdge e)")
    case True
    then obtain e where e: "parse (lb_nfc L) (lb_ser L) (lb_de L) (pt_payload row) = Inr (TrustEdge e)" by blast
    then have g: "good e (pt_hash row) (pt_sig row) (pt_payload row)" using assms(2) by (simp add: row_good_def)
    obtain q st1 where t: "try_project_trust_edge C e (pt_hash row) (pt_sig row) (pt_payload row) st = (q, st1)" by fastforce
    have "I st1" using project [OF _ g, of st] assms(1) t Pair by simp
    then show ?thesis using e t Pair assms(1) store [OF _ g] forget
      by (cases q) (simp_all add: drain_row_def Let_def)
  next
    case False
    then have "snd (drain_row L C row s) = delete_pending_orphan (pt_source row) (pt_prior row) st"
      using Pair by (auto simp: drain_row_def Let_def split: sum.splits SignedPayload.splits)
    then show ?thesis using Pair assms(1) forget by simp
  qed
qed

lemma drain_rows_keep: "I (snd s) \<Longrightarrow> list_all row_good rows \<Longrightarrow> I (snd (fold (drain_row L C) rows s))"
  by (induction rows arbitrary: s) (simp_all add: drain_row_keeps)

lemma drain_keeps: "I st \<Longrightarrow> drain L C n wl st = Some st' \<Longrightarrow> I st'"
proof (induction n arbitrary: wl st)
  case 0
  then show ?case by (cases wl) simp_all
next
  case (Suc n)
  show ?case
  proof (cases wl)
    case (Cons c cs)
    obtain wl1 st1 where f: "fold (drain_row L C) (filter (\<lambda>r. pt_prior r = c) (es_pending st)) (cs, st) = (wl1, st1)" by fastforce
    have "list_all row_good (filter (\<lambda>r. pt_prior r = c) (es_pending st))"
      using Suc.prems(1) buffered by (auto simp: list_all_iff row_good_def)
    from drain_rows_keep [of "(cs, st)", OF _ this] have "I st1" using Suc.prems(1) f by simp
    then show ?thesis using Suc.IH [of st1 wl1] Suc.prems(2) f Cons by simp
  qed (use Suc.prems in simp)
qed

lemma drain_after_keeps: "I st \<Longrightarrow> I (drain_pending_orphans_after L C h st)"
  using drain_keeps unfolding drain_pending_orphans_after_def by (auto simp del: drain.simps split: option.split)

definition candidate_good :: "SweepCandidate \<Rightarrow> bool" where
  "candidate_good c \<longleftrightarrow> (case c of (e, h, sg, p) \<Rightarrow> good e h sg p)"

lemma sweep_pass_keeps:
  "sweep_pass L C cs st = (q, ds, st') \<Longrightarrow> I st \<Longrightarrow> list_all candidate_good cs \<Longrightarrow> I st' \<and> set ds \<subseteq> set cs"
proof (induction cs arbitrary: st q ds st')
  case (Cons c cs)
  obtain e h sg p where c: "c = (e, h, sg, p)" by (metis prod_cases4)
  obtain r st1 where t: "try_project_trust_edge C e h sg p st = (r, st1)" by fastforce
  have "good e h sg p" using Cons.prems(3) c by (simp add: candidate_good_def)
  from project [OF Cons.prems(2) this] have i: "I st1" using t by simp
  let ?st2 = "if r = Projected then drain_pending_orphans_after L C h st1 else st1"
  obtain q2 ds2 st2 where s: "sweep_pass L C cs ?st2 = (q2, ds2, st2)" by (metis prod_cases3)
  have "I ?st2" using i drain_after_keeps by simp
  from Cons.IH [OF s this] have "I st2 \<and> set ds2 \<subseteq> set cs" using Cons.prems(3) by simp
  moreover have "st' = st2 \<and> set ds \<subseteq> insert c (set ds2)" using Cons.prems(1) c t s by (cases r) auto
  ultimately show ?case by auto
qed simp

lemma sweep_loop_keeps: "I st \<Longrightarrow> list_all candidate_good cs \<Longrightarrow> I (snd (sweep_loop L C cs st))"
proof (induction "length cs" arbitrary: cs st rule: less_induct)
  case less
  obtain q ds st1 where s: "sweep_pass L C cs st = (q, ds, st1)" by (metis prod_cases3)
  from sweep_pass_keeps [OF s less.prems] have k: "I st1" "list_all candidate_good ds" using less.prems(2) by (auto simp: list_all_iff)
  show ?case
  proof (cases q)
    case True
    then have "I (snd (sweep_loop L C ds st1))" using less.hyps [OF _ k] sweep_pass_length [OF s] by simp
    then show ?thesis using s True by (cases "sweep_loop L C ds st1") (simp add: sweep_loop.simps [of L C cs])
  qed (use s k in \<open>simp add: sweep_loop.simps [of L C cs]\<close>)
qed

lemma sweep_keeps:
  assumes "I st"
  shows "I (snd (sweep_pending_projections L C rows key st))"
proof -
  have "list_all candidate_good (List.map_filter (sweep_candidate L key st) rows)"
    using stored [where st = st] assms by (auto simp: list_all_iff map_filter_def sweep_candidate_def candidate_good_def
        split: option.splits if_splits sum.splits SignedPayload.splits)
  from sweep_loop_keeps [OF assms this] show ?thesis by (simp add: sweep_pending_projections_def)
qed

end

section \<open>One chain for every pair\<close>

text \<open>Of two signed edges of a pair with one predecessor only one is projected, and the predecessor of a projected edge is.\<close>

definition chains_wf :: "edge_store \<Rightarrow> bool" where
  "chains_wf st \<longleftrightarrow>
     (\<forall>r \<in> set (es_edges st). \<forall>r' \<in> set (es_edges st). tr_source r = tr_source r' \<longrightarrow> tr_target r = tr_target r' \<longrightarrow> tr_prior r = tr_prior r' \<longrightarrow>
        tr_hash r \<noteq> None \<longrightarrow> tr_hash r' \<noteq> None \<longrightarrow> tr_hash r = tr_hash r') \<and>
     (\<forall>r \<in> set (es_edges st). \<forall>p. tr_hash r \<noteq> None \<longrightarrow> tr_prior r = Some p \<longrightarrow>
        (\<exists>r' \<in> set (es_edges st). tr_source r' = tr_source r \<and> tr_target r' = tr_target r \<and> tr_hash r' = Some p))"

lemma edges_kept [simp]:
  "es_edges (store_edge p sg h st) = es_edges st" "es_edges (delete_pending_orphan a b st) = es_edges st"
  "es_edges (snd (enqueue_pending_trust_edge e h p sg t st)) = es_edges st" "es_edges (add_frontier_edge e h sg p st) = es_edges st"
  "es_edges (erase_trust_edge_chain x y h st) = es_edges st"
  "es_pending (store_edge p sg h st) = es_pending st" "es_pending (add_frontier_edge e h sg p st) = es_pending st"
  "es_pending (erase_trust_edge_chain x y h st) = es_pending st"
  by (simp_all add: store_edge_def delete_pending_orphan_def enqueue_pending_trust_edge_def add_frontier_edge_def erase_trust_edge_chain_def Let_def
      split: option.split)

lemma users_kept [simp]:
  "db_users (es_frontier (store_edge p sg h st)) = db_users (es_frontier st)" "db_users (es_frontier (delete_pending_orphan a b st)) = db_users (es_frontier st)"
  "db_users (es_frontier (snd (enqueue_pending_trust_edge e h p sg t st))) = db_users (es_frontier st)"
  "db_users (es_frontier (add_frontier_edge e h sg p st)) = db_users (es_frontier st)"
  "db_users (es_frontier (erase_trust_edge_chain x y h st)) = db_users (es_frontier st)"
  by (simp_all add: store_edge_def delete_pending_orphan_def enqueue_pending_trust_edge_def add_frontier_edge_def erase_trust_edge_chain_def Let_def
      insert_frontier_edge_def split: option.split)

definition projected_row :: "edge_clock \<Rightarrow> TrustEdge \<Rightarrow> bytes \<Rightarrow> bytes \<Rightarrow> string \<Rightarrow> string \<Rightarrow> trust_row" where
  "projected_row C edge hash sg source target = \<lparr>tr_source = source, tr_target = target, tr_type = stance_as_str (stance edge),
     tr_created = created_at_iso C (te_created_at edge), tr_sig = Some sg, tr_prior = prior_edge_hash edge, tr_hash = Some hash\<rparr>"

text \<open>What a projection does: nothing, or one new row that has no sibling and whose predecessor is there.\<close>

lemma project_cases:
  assumes "try_project_trust_edge C e h sg p st = (q, st')"
  shows "st' = st \<and> (q = Projected \<longrightarrow> has_edge h st) \<or>
    q = Projected \<and> \<not> has_edge h st \<and> (\<exists>a b. user_id (from_key e) st = Some a \<and> user_id (to_key e) st = Some b \<and>
      es_edges st' = es_edges st @ [projected_row C e h sg a b] \<and> \<not> list_ex (sibling a b (prior_edge_hash e) h) (es_edges st) \<and>
      (\<forall>pr. prior_edge_hash e = Some pr \<longrightarrow> (\<exists>r \<in> set (es_edges st). tr_source r = a \<and> tr_target r = b \<and> tr_hash r = Some pr)) \<and>
      es_pending st' = es_pending st \<and> db_users (es_frontier st') = db_users (es_frontier st))"
  using assms by (auto simp: try_project_trust_edge_def projected_row_def Let_def list_ex_iff split: option.splits if_splits prod.splits)

lemma project_chains:
  assumes "chains_wf st"
  shows "chains_wf (snd (try_project_trust_edge C e h sg p st))"
proof -
  obtain q st' where t: "try_project_trust_edge C e h sg p st = (q, st')" by fastforce
  from project_cases [OF t] show ?thesis
  proof (elim disjE exE conjE)
    fix a b
    let ?r = "projected_row C e h sg a b"
    assume x: "es_edges st' = es_edges st @ [?r]" "\<not> list_ex (sibling a b (prior_edge_hash e) h) (es_edges st)"
      "\<forall>pr. prior_edge_hash e = Some pr \<longrightarrow> (\<exists>r \<in> set (es_edges st). tr_source r = a \<and> tr_target r = b \<and> tr_hash r = Some pr)"
    have "tr_hash r = tr_hash ?r" if "r \<in> set (es_edges st)" "tr_source r = a" "tr_target r = b" "tr_prior r = prior_edge_hash e" "tr_hash r \<noteq> None" for r
      using x(2) that by (auto simp: list_ex_iff sibling_def projected_row_def)
    then have "chains_wf st'" using assms x(1,3) unfolding chains_wf_def by (auto simp: projected_row_def)
    then show ?thesis by (simp add: t)
  qed (use assms t in simp)
qed

interpretation chains: edge_invariant L C chains_wf "\<lambda>_ _ _ _. True" for L C
  by unfold_locales (simp_all add: project_chains, simp_all add: chains_wf_def)

section \<open>The primary key of the buffer, and the end of the drain\<close>

abbreviation pending_key :: "pending_row \<Rightarrow> bytes \<times> bytes" where
  "pending_key r \<equiv> (pt_source r, pt_prior r)"

definition keys_unique :: "edge_store \<Rightarrow> bool" where
  "keys_unique st \<longleftrightarrow> distinct (map pending_key (es_pending st))"

lemma project_pending: "es_pending (snd (try_project_trust_edge C e h sg p st)) = es_pending st"
  using project_cases [of C e h sg p st] by (cases "try_project_trust_edge C e h sg p st") auto

lemma forget_pending: "es_pending (delete_pending_orphan a b st) = filter (\<lambda>r. pending_key r \<noteq> (a, b)) (es_pending st)"
  by (simp add: delete_pending_orphan_def)

interpretation keys: edge_invariant L C keys_unique "\<lambda>_ _ _ _. True" for L C
proof
  show "keys_unique (delete_pending_orphan a b st)" if "keys_unique st" for a b st
    using that by (simp add: keys_unique_def forget_pending distinct_map_filter)
  show "keys_unique (snd (enqueue_pending_trust_edge e h p sg t st))" if "keys_unique st" for e h p sg t st
    using that by (auto simp: keys_unique_def enqueue_pending_trust_edge_def list_ex_iff split: option.split)
qed (simp_all add: keys_unique_def project_pending)

lemma drain_row_cases:
  assumes "drain_row L C row (wl, st) = (wl', st')"
  shows "wl' = wl \<and> st' = delete_pending_orphan (pt_source row) (pt_prior row) st \<or>
    (\<exists>e q st1. parse (lb_nfc L) (lb_ser L) (lb_de L) (pt_payload row) = Inr (TrustEdge e) \<and>
       try_project_trust_edge C e (pt_hash row) (pt_sig row) (pt_payload row) st = (q, st1) \<and> q \<noteq> Deferred \<and>
       wl' = (if q = Projected then pt_hash row # wl else wl) \<and>
       st' = delete_pending_orphan (pt_source row) (pt_prior row) (store_edge (pt_payload row) (pt_sig row) (pt_hash row) st1)) \<or>
    (\<exists>e. try_project_trust_edge C e (pt_hash row) (pt_sig row) (pt_payload row) st = (Deferred, st') \<and> wl' = wl)"
  using assms by (auto simp: drain_row_def Let_def split: sum.splits SignedPayload.splits if_splits prod.splits TrustEdgeProjection.splits)

lemma drain_row_size:
  assumes "drain_row L C row (wl, st) = (wl', st')" "row \<in> set (es_pending st)"
  shows "length wl' + length (es_pending st') \<le> length wl + length (es_pending st) \<and>
    (\<forall>r \<in> set (es_pending st). pending_key r \<noteq> pending_key row \<longrightarrow> r \<in> set (es_pending st'))"
proof -
  have f: "length (filter (\<lambda>r. pending_key r \<noteq> pending_key row) (es_pending st)) < length (es_pending st)"
    using assms(2) by (intro length_filter_less) auto
  from drain_row_cases [OF assms(1)] show ?thesis
  proof (elim disjE exE conjE)
    fix e q st1
    assume t: "try_project_trust_edge C e (pt_hash row) (pt_sig row) (pt_payload row) st = (q, st1)"
      and s: "st' = delete_pending_orphan (pt_source row) (pt_prior row) (store_edge (pt_payload row) (pt_sig row) (pt_hash row) st1)"
        "wl' = (if q = Projected then pt_hash row # wl else wl)"
    have "es_pending st1 = es_pending st" using project_pending [of C e "pt_hash row" "pt_sig row" "pt_payload row" st] t by simp
    then show ?thesis using f s by (auto simp: forget_pending)
  next
    fix e
    assume "try_project_trust_edge C e (pt_hash row) (pt_sig row) (pt_payload row) st = (Deferred, st')" "wl' = wl"
    then show ?thesis using project_pending [of C e "pt_hash row" "pt_sig row" "pt_payload row" st] by simp
  qed (use f in \<open>auto simp: forget_pending\<close>)
qed

lemma drain_rows_size:
  assumes "fold (drain_row L C) rows (wl, st) = (wl', st')" "set rows \<subseteq> set (es_pending st)" "distinct (map pending_key rows)"
  shows "length wl' + length (es_pending st') \<le> length wl + length (es_pending st)"
  using assms
proof (induction rows arbitrary: wl st)
  case (Cons row rows)
  obtain wl1 st1 where d: "drain_row L C row (wl, st) = (wl1, st1)" by fastforce
  from drain_row_size [OF d] Cons.prems(2) have s: "length wl1 + length (es_pending st1) \<le> length wl + length (es_pending st)"
    "\<forall>r \<in> set (es_pending st). pending_key r \<noteq> pending_key row \<longrightarrow> r \<in> set (es_pending st1)" by auto
  have "set rows \<subseteq> set (es_pending st1)"
  proof
    fix r
    assume r: "r \<in> set rows"
    then have "pending_key r \<noteq> pending_key row" using Cons.prems(3) by (metis (no_types, lifting) distinct.simps(2) image_eqI list.set_map list.simps(9))
    then show "r \<in> set (es_pending st1)" using r s(2) Cons.prems(2) by auto
  qed
  from Cons.IH [OF _ this] Cons.prems(1,3) d have "length wl' + length (es_pending st') \<le> length wl1 + length (es_pending st1)" by simp
  with s(1) show ?case by simp
qed simp

text \<open>Draining ends, within as many rounds as there are entries of the worklist and buffered rows.\<close>

lemma drain_total:
  "keys_unique st \<Longrightarrow> length wl + length (es_pending st) \<le> n \<Longrightarrow> \<exists>st'. drain L C n wl st = Some st'"
proof (induction n arbitrary: wl st)
  case (Suc n)
  show ?case
  proof (cases wl)
    case (Cons c cs)
    let ?rows = "filter (\<lambda>r. pt_prior r = c) (es_pending st)"
    obtain wl1 st1 where f: "fold (drain_row L C) ?rows (cs, st) = (wl1, st1)" by fastforce
    have "distinct (map pending_key ?rows)" using Suc.prems(1) by (simp add: keys_unique_def distinct_map_filter)
    from drain_rows_size [OF f _ this] have "length wl1 + length (es_pending st1) \<le> n" using Suc.prems(2) Cons by simp
    moreover have "keys_unique st1"
      using keys.drain_rows_keep [of "(cs, st)" L ?rows C] Suc.prems(1) f by (simp add: keys.row_good_def list_all_iff)
    ultimately show ?thesis using Suc.IH [of st1 wl1] f Cons by simp
  qed simp
qed (cases wl; simp)

section \<open>Authenticity\<close>

definition signed_edge :: "fed_lib \<Rightarrow> TrustEdge \<Rightarrow> bytes \<Rightarrow> bytes \<Rightarrow> bytes \<Rightarrow> bool" where
  "signed_edge L e h sg p \<longleftrightarrow> parse (lb_nfc L) (lb_ser L) (lb_de L) p = Inr (TrustEdge e) \<and> lb_sha L p = h \<and> length sg = 64 \<and> lb_ed L (from_key e) p sg"

text \<open>A row of the graph comes from an edge that the user of its source column signed, with the stance and the predecessor of
  the row; the buffer and \<open>signed_objects\<close> hold signed edges only.\<close>

definition edges_authentic :: "fed_lib \<Rightarrow> edge_store \<Rightarrow> bool" where
  "edges_authentic L st \<longleftrightarrow>
     (\<forall>r \<in> set (es_edges st). \<forall>h. tr_hash r = Some h \<longrightarrow> (\<exists>e sg p. signed_edge L e h sg p \<and> tr_sig r = Some sg \<and> tr_prior r = prior_edge_hash e \<and>
        tr_type r = stance_as_str (stance e) \<and> user_id (from_key e) st = Some (tr_source r) \<and> user_id (to_key e) st = Some (tr_target r))) \<and>
     (\<forall>row \<in> set (es_pending st). \<exists>e. signed_edge L e (pt_hash row) (pt_sig row) (pt_payload row)) \<and>
     (\<forall>h ob p e. fs_objects (es_fed st) h = Some ob \<longrightarrow> ob_payload ob = Some p \<longrightarrow>
        parse (lb_nfc L) (lb_ser L) (lb_de L) p = Inr (TrustEdge e) \<longrightarrow> signed_edge L e h (ob_signature ob) p)"

lemma user_id_kept [simp]:
  "user_id k (store_edge p sg h st) = user_id k st" "user_id k (delete_pending_orphan a b st) = user_id k st"
  "user_id k (snd (enqueue_pending_trust_edge e h p sg t st)) = user_id k st" "user_id k (add_frontier_edge e h sg p st) = user_id k st"
  "user_id k (erase_trust_edge_chain x y h st) = user_id k st" "user_id k (st\<lparr>es_edges := rs\<rparr>) = user_id k st"
  by (simp_all add: user_id_def)

lemma objects_kept [simp]:
  "fs_objects (es_fed (delete_pending_orphan a b st)) = fs_objects (es_fed st)"
  "fs_objects (es_fed (snd (enqueue_pending_trust_edge e h p sg t st))) = fs_objects (es_fed st)"
  "fs_objects (es_fed (add_frontier_edge e h sg p st)) = fs_objects (es_fed st)"
  by (simp_all add: delete_pending_orphan_def enqueue_pending_trust_edge_def add_frontier_edge_def split: option.split)

lemma erase_objects:
  "fs_objects (es_fed (erase_trust_edge_chain x y h st)) k = Some ob \<Longrightarrow> ob_payload ob = Some p \<Longrightarrow> fs_objects (es_fed st) k = Some ob"
  by (auto simp: erase_trust_edge_chain_def Let_def split: if_splits)

lemma project_objects:
  "fs_objects (es_fed (snd (try_project_trust_edge C e h sg p st))) k = Some ob \<Longrightarrow> ob_payload ob = Some q \<Longrightarrow> fs_objects (es_fed st) k = Some ob"
  by (auto simp: try_project_trust_edge_def Let_def dest: erase_objects split: option.splits if_splits)

lemma project_authentic:
  assumes "edges_authentic L st" "signed_edge L e h sg p"
  shows "edges_authentic L (snd (try_project_trust_edge C e h sg p st))"
proof -
  obtain q st' where t: "try_project_trust_edge C e h sg p st = (q, st')" by fastforce
  from project_cases [OF t] show ?thesis
  proof (elim disjE exE conjE)
    fix a b
    let ?r = "projected_row C e h sg a b"
    assume x: "es_edges st' = es_edges st @ [?r]" "user_id (from_key e) st = Some a" "user_id (to_key e) st = Some b"
      "es_pending st' = es_pending st" "db_users (es_frontier st') = db_users (es_frontier st)"
    have u: "user_id k st' = user_id k st" for k using x(5) by (simp add: user_id_def)
    have o: "fs_objects (es_fed st) k = Some ob" if "fs_objects (es_fed st') k = Some ob" "ob_payload ob = Some y" for k ob y
      using project_objects [of C e h sg p st k ob y] t that by simp
    have "edges_authentic L st'" unfolding edges_authentic_def u x(4)
    proof (intro conjI ballI allI impI)
      fix r k
      assume r: "r \<in> set (es_edges st')" "tr_hash r = Some k"
      show "\<exists>e sg p. signed_edge L e k sg p \<and> tr_sig r = Some sg \<and> tr_prior r = prior_edge_hash e \<and>
        tr_type r = stance_as_str (stance e) \<and> user_id (from_key e) st = Some (tr_source r) \<and> user_id (to_key e) st = Some (tr_target r)"
      proof (cases "r = ?r")
        case True
        then show ?thesis using assms(2) x(2,3) r(2) by (intro exI [of _ e] exI [of _ sg] exI [of _ p]) (simp add: projected_row_def)
      next
        case False
        then have "r \<in> set (es_edges st)" using r(1) x(1) by simp
        then show ?thesis using assms(1) r(2) unfolding edges_authentic_def by blast
      qed
    qed (use assms(1) o in \<open>unfold edges_authentic_def, blast+\<close>)
    then show ?thesis by (simp add: t)
  qed (use assms(1) t in simp)
qed

lemma store_authentic: "edges_authentic L st \<Longrightarrow> signed_edge L e h sg p \<Longrightarrow> edges_authentic L (store_edge p sg h st)"
  unfolding edges_authentic_def user_id_kept edges_kept
  by (auto simp: store_edge_def store_signed_object_def signed_edge_def split: option.splits if_splits)

interpretation authentic: edge_invariant L C "edges_authentic L" "signed_edge L" for L C
proof
  show "signed_edge L e (pt_hash row) (pt_sig row) (pt_payload row)"
    if "edges_authentic L st" "row \<in> set (es_pending st)" "parse (lb_nfc L) (lb_ser L) (lb_de L) (pt_payload row) = Inr (TrustEdge e)" for st row e
    using that unfolding edges_authentic_def by (fastforce simp: signed_edge_def)
  show "signed_edge L e h (ob_signature ob) p"
    if "edges_authentic L st" "fs_objects (es_fed st) h = Some ob" "ob_payload ob = Some p"
      "parse (lb_nfc L) (lb_ser L) (lb_de L) p = Inr (TrustEdge e)" for st h ob p e
    using that unfolding edges_authentic_def by blast
  show "edges_authentic L (delete_pending_orphan a b st)" if "edges_authentic L st" for st a b
    using that by (simp add: edges_authentic_def forget_pending)
  show "edges_authentic L (snd (enqueue_pending_trust_edge e h p sg t st))" if "edges_authentic L st" "signed_edge L e h sg p" for e h p sg t st
    using that by (auto simp: edges_authentic_def enqueue_pending_trust_edge_def user_id_def split: option.split)
  show "edges_authentic L (add_frontier_edge e h sg p st)" if "edges_authentic L st" for e h sg p st
    using that by (simp add: edges_authentic_def)
qed (simp_all add: project_authentic store_authentic)

section \<open>The graph only grows\<close>

definition grown :: "edge_store \<Rightarrow> edge_store \<Rightarrow> bool" where
  "grown st0 st \<longleftrightarrow> set (es_edges st0) \<subseteq> set (es_edges st) \<and> db_users (es_frontier st) = db_users (es_frontier st0)"

lemma project_grown: "grown st0 st \<Longrightarrow> grown st0 (snd (try_project_trust_edge C e h sg p st))"
  using project_cases [of C e h sg p st] by (cases "try_project_trust_edge C e h sg p st") (auto simp: grown_def)

interpretation growth: edge_invariant L C "grown st0" "\<lambda>_ _ _ _. True" for L C st0
  by unfold_locales (simp_all add: project_grown, simp_all add: grown_def)

lemma store_grown_refl [simp]: "grown st st"
  by (simp add: grown_def)

lemma store_grown_trans: "grown a b \<Longrightarrow> grown b c \<Longrightarrow> grown a c"
  by (auto simp: grown_def)

text \<open>A candidate that is projected, or that has an unknown endpoint or a projected sibling, stays so.\<close>

definition settled :: "edge_clock \<Rightarrow> SweepCandidate \<Rightarrow> edge_store \<Rightarrow> bool" where
  "settled C c st \<longleftrightarrow> (case c of (e, h, sg, p) \<Rightarrow> has_edge h st \<or> fst (try_project_trust_edge C e h sg p st) \<in> {EndpointMissing, ChainFork})"

lemma settled_grows:
  assumes "settled C c st" "grown st st'"
  shows "settled C c st'"
proof -
  obtain e h sg p where c: "c = (e, h, sg, p)" by (metis prod_cases4)
  have u: "user_id k st' = user_id k st" for k using assms(2) by (simp add: user_id_def grown_def)
  have e: "list_ex P (es_edges st) \<Longrightarrow> list_ex P (es_edges st')" for P using assms(2) by (auto simp: list_ex_iff grown_def)
  show ?thesis using assms(1) c e [of "\<lambda>r. tr_hash r = Some h"] e [of "sibling _ _ (prior_edge_hash e) h"]
    by (auto simp: settled_def try_project_trust_edge_def u has_edge_def Let_def split: option.splits if_splits)
qed

lemma sweep_pass_settles:
  "sweep_pass L C cs st = (q, ds, st') \<Longrightarrow> grown st st' \<and> (\<forall>c \<in> set cs. c \<in> set ds \<or> settled C c st') \<and>
     (\<not> q \<longrightarrow> st' = st \<and> (\<forall>(e, h, sg, p) \<in> set ds. fst (try_project_trust_edge C e h sg p st) = Deferred))"
proof (induction cs arbitrary: st q ds st')
  case (Cons c cs)
  obtain e h sg p where c: "c = (e, h, sg, p)" by (metis prod_cases4)
  obtain r st1 where t: "try_project_trust_edge C e h sg p st = (r, st1)" by fastforce
  let ?st2 = "if r = Projected then drain_pending_orphans_after L C h st1 else st1"
  obtain q2 ds2 st2 where s: "sweep_pass L C cs ?st2 = (q2, ds2, st2)" by (metis prod_cases3)
  note IH = Cons.IH [OF s]
  have g: "grown st st1" using project_grown [of st st C e h sg p] t by simp
  then have g2: "grown st ?st2" using growth.drain_after_keeps [of st st1 L C h] by simp
  have k: "st' = st2" "q = (r = Projected \<or> q2)" "ds = (if r = Deferred then c # ds2 else ds2)" using Cons.prems c t s by (cases r; auto)+
  have settled: "settled C c st2" if "r \<noteq> Deferred"
  proof -
    have "settled C c ?st2"
    proof (cases "r = Projected")
      case True
      then have "has_edge h st1" using project_cases [OF t] by (auto simp: has_edge_def projected_row_def)
      then have "settled C c st1" by (simp add: settled_def c)
      then show ?thesis using settled_grows [of C c st1] growth.drain_after_keeps [of st1 st1 L C h] True by simp
    next
      case False
      then have "st1 = st" "r \<in> {EndpointMissing, ChainFork}" using that project_cases [OF t] by (cases r; auto)+
      then show ?thesis using t c False by (simp add: settled_def)
    qed
    then show ?thesis using settled_grows IH by blast
  qed
  have same: "st1 = st" if "r \<noteq> Projected" using project_cases [OF t] that by auto
  show ?case using IH k settled store_grown_trans [OF g2] same t c by auto
qed simp

lemma sweep_loop_complete: "sweep_loop L C cs st = (q, st') \<Longrightarrow> (e, h, sg, p) \<in> set cs \<Longrightarrow>
   grown st st' \<and> (has_edge h st' \<or> fst (try_project_trust_edge C e h sg p st') \<noteq> Projected)"
proof (induction "length cs" arbitrary: cs st q st' rule: less_induct)
  case less
  obtain r ds st1 where s: "sweep_pass L C cs st = (r, ds, st1)" by (metis prod_cases3)
  note S = sweep_pass_settles [OF s]
  show ?case
  proof (cases r)
    case True
    obtain q2 where l: "sweep_loop L C ds st1 = (q2, st')"
      using less.prems(1) s True by (cases "sweep_loop L C ds st1") (simp add: sweep_loop.simps [of L C cs])
    have g: "grown st1 st'" using growth.sweep_loop_keeps [of st1 st1 ds L C] l by (simp add: growth.candidate_good_def list_all_iff)
    show ?thesis
    proof (cases "(e, h, sg, p) \<in> set ds")
      case True
      from less.hyps [OF _ l this] sweep_pass_length [OF s] \<open>r\<close>
      have "has_edge h st' \<or> fst (try_project_trust_edge C e h sg p st') \<noteq> Projected" by simp
      then show ?thesis using S g store_grown_trans by blast
    next
      case False
      then have "settled C (e, h, sg, p) st'" using S less.prems(2) settled_grows [OF _ g] by blast
      moreover have "grown st st'" using S g store_grown_trans by blast
      ultimately show ?thesis by (auto simp: settled_def)
    qed
  next
    case False
    then have "st' = st" using less.prems(1) s S by (simp add: sweep_loop.simps [of L C cs])
    moreover have "(e, h, sg, p) \<in> set ds \<or> settled C (e, h, sg, p) st" using S less.prems(2) False by auto
    moreover have "fst (try_project_trust_edge C e h sg p st) = Deferred" if "(e, h, sg, p) \<in> set ds" using S False that by auto
    ultimately show ?thesis by (auto simp: settled_def)
  qed
qed

text \<open>The sweep is complete: of the stored edges that touch the user, none is left that could be projected.\<close>

theorem sweep_complete:
  assumes "sweep_pending_projections L C rows key st = (q, st')" "h \<in> set rows" "sweep_candidate L key st h = Some (e, h, sg, p)"
  shows "grown st st' \<and> (has_edge h st' \<or> fst (try_project_trust_edge C e h sg p st') \<noteq> Projected)"
proof (rule sweep_loop_complete)
  show "sweep_loop L C (List.map_filter (sweep_candidate L key st) rows) st = (q, st')"
    using assms(1) by (simp add: sweep_pending_projections_def)
  show "(e, h, sg, p) \<in> set (List.map_filter (sweep_candidate L key st) rows)"
    using assms(2,3) by (force simp: map_filter_def image_iff)
qed

end
