(* ===== verification/Edge_Push.thy ===== *)
theory Edge_Push
  imports Edge_Chain Trust_Code
begin

text \<open>
  \<open>server/src/federation/edges.rs\<close> and \<open>edge_backfill.rs\<close>: the push route of trust edges with its per-edge state machine, the
  second attempt for a stored edge that was not projected, and the pull of missing predecessors. Shown: over every history of
  pushes, pulls, sweeps and evictions the trust graph holds signed edges only, one chain per pair; a chain that is delivered in
  any order, with repetitions, is projected completely; of two siblings the one that arrives first stays; and a projection by
  redelivery does not wake the rebuild loop.
\<close>

section \<open>The per-edge state machine\<close>

definition MAX_EDGE_BATCH :: nat where "MAX_EDGE_BATCH = 256"
definition DEFERRED_ORPHAN_TTL_MS :: int where "DEFERRED_ORPHAN_TTL_MS = 3600 * 1000"

datatype RejectReason = EdSchemaInvalid | EdUnknownClass | EdInvalidSignature | EdErased | EdChainFork

fun ed_reason_as_str :: "RejectReason \<Rightarrow> string" where
  "ed_reason_as_str EdSchemaInvalid = ''schema_invalid''"
| "ed_reason_as_str EdUnknownClass = ''unknown_class''"
| "ed_reason_as_str EdInvalidSignature = ''invalid_signature''"
| "ed_reason_as_str EdErased = ''erased''"
| "ed_reason_as_str EdChainFork = ''chain_fork''"

text \<open>The route never answers \<open>StSuperseded\<close>.\<close>

type_synonym EdgeStatus = "RejectReason push_result"

datatype EdgeRecovery =
    PredecessorGap (er_gap_source: bytes) (er_gap_target: bytes) (er_gap_prior: bytes)
  | UnknownSource (er_unknown: bytes) (er_arrived: bytes)

text \<open>What leaves the handler: forwards (hash, source, target, wire, the peer it came from), spawned recoveries, and the wake-up of
  the rebuild loop.\<close>

datatype edge_action = ForwardEdge bytes bytes bytes bytes bytes | SpawnRecovery EdgeRecovery | NotifyGraph

type_synonym ed_outcome = "(db_error + (bytes \<times> EdgeStatus) \<times> EdgeRecovery option) \<times> edge_action list \<times> edge_store"

definition ed_reject :: "bytes \<Rightarrow> RejectReason \<Rightarrow> edge_store \<Rightarrow> ed_outcome" where
  "ed_reject hash reason st = (Inr ((hash, StRejected reason), None), [], st)"

text \<open>What an edge with an unknown endpoint leads to, on the first receipt and on every later one.\<close>

definition endpoint_missing :: "TrustEdge \<Rightarrow> bytes \<Rightarrow> bytes \<Rightarrow> bytes \<Rightarrow> bytes \<Rightarrow> edge_store \<Rightarrow> EdgeRecovery option \<times> edge_store" where
  "endpoint_missing edge hash sg payload arrived st =
     (let target_in_expansion = target_in_expansion_set (to_key edge) (es_frontier st); source_known = (user_id (from_key edge) st \<noteq> None)
      in (if target_in_expansion \<and> \<not> source_known then Some (UnknownSource (from_key edge) arrived) else None,
          if target_in_expansion then add_frontier_edge edge hash sg payload st else st))"

text \<open>Statements: 2 the read of the stored object, 3 those of the transaction.\<close>

definition reattempt_unprojected_edge ::
  "fed_lib \<Rightarrow> edge_clock \<Rightarrow> (nat \<Rightarrow> bool) \<Rightarrow> bytes \<Rightarrow> bytes \<Rightarrow> edge_store \<Rightarrow> (db_error + EdgeRecovery option) \<times> edge_store" where
  "reattempt_unprojected_edge L C fails hash arrived st =
     (if fails 2 then (Inl DbError, st)
      else case fs_objects (es_fed st) hash of
        None \<Rightarrow> (Inr None, st)
      | Some row \<Rightarrow> (case ob_payload row of
          None \<Rightarrow> (Inr None, st)
        | Some payload \<Rightarrow> (case parse (lb_nfc L) (lb_ser L) (lb_de L) payload of
            Inr (TrustEdge edge) \<Rightarrow>
              if fails 3 then (Inl DbError, st)
              else (case try_project_trust_edge C edge hash (ob_signature row) payload st of
                  (Projected, st1) \<Rightarrow> (Inr None, drain_pending_orphans_after L C hash st1)
                | (EndpointMissing, st1) \<Rightarrow> (case endpoint_missing edge hash (ob_signature row) payload arrived st1 of (r, st2) \<Rightarrow> (Inr r, st2))
                | (_, st1) \<Rightarrow> (Inr None, st1))
          | _ \<Rightarrow> (Inr None, st))))"

text \<open>The transaction of a verified edge and the forward after it.\<close>

definition receive_edge ::
  "fed_lib \<Rightarrow> edge_clock \<Rightarrow> bytes \<Rightarrow> bytes \<Rightarrow> bytes \<Rightarrow> bytes \<Rightarrow> TrustEdge \<Rightarrow> bytes \<Rightarrow> edge_store \<Rightarrow> ed_outcome" where
  "receive_edge L C wire payload sg hash edge arrived st =
     (let forward = [ForwardEdge hash (from_key edge) (to_key edge) wire arrived]
      in case try_project_trust_edge C edge hash sg payload st of
        (Projected, st1) \<Rightarrow> (Inr ((hash, StApplied), None), forward, drain_pending_orphans_after L C hash (store_edge payload sg hash st1))
      | (EndpointMissing, st1) \<Rightarrow> (case endpoint_missing edge hash sg payload arrived (store_edge payload sg hash st1) of
          (r, st2) \<Rightarrow> (Inr ((hash, StApplied), r), forward, st2))
      | (ChainFork, st1) \<Rightarrow> (Inr ((hash, StRejected EdChainFork), None), [], store_edge payload sg hash st1)
      | (Deferred, st1) \<Rightarrow> (case prior_edge_hash edge of
          None \<Rightarrow> ed_reject hash EdSchemaInvalid st
        | Some prior \<Rightarrow> (case enqueue_pending_trust_edge edge hash payload sg (ec_now_ms C) st1 of
            (first_for_gap, st2) \<Rightarrow> (Inr ((hash, StDeferred), if first_for_gap then Some (PredecessorGap (from_key edge) (to_key edge) prior) else None),
              [], st2))))"

text \<open>Statements: 0 the dedup query, 1 the query of \<open>trust_edges\<close>, 2 and 3 as above, 4 those of the transaction. An erased object has
  no payload; the column \<open>erased_at\<close> is set with it.\<close>

definition apply_one_edge_inner ::
  "fed_lib \<Rightarrow> edge_clock \<Rightarrow> (nat \<Rightarrow> bool) \<Rightarrow> bytes \<Rightarrow> bytes \<Rightarrow> edge_store \<Rightarrow> ed_outcome" where
  "apply_one_edge_inner L C fails wire arrived st = (case decode_signed_object (lb_de L) wire of
     None \<Rightarrow> ed_reject (lb_sha L wire) EdSchemaInvalid st
   | Some (payload, sg) \<Rightarrow>
       let hash = lb_sha L payload
       in if fails 0 then (Inl DbError, [], st)
          else case fs_objects (es_fed st) hash of
            Some row \<Rightarrow>
              if es_erased_by st hash \<noteq> None \<or> ob_payload row = None then ed_reject hash EdErased st
              else if fails 1 then (Inl DbError, [], st)
              else if has_edge hash st then (Inr ((hash, StDuplicate), None), [], st)
              else (case reattempt_unprojected_edge L C fails hash arrived st of
                  (Inl err, st1) \<Rightarrow> (Inl err, [], st1)
                | (Inr r, st1) \<Rightarrow> (Inr ((hash, StDuplicate), r), [], st1))
          | None \<Rightarrow> (case parse (lb_nfc L) (lb_ser L) (lb_de L) payload of
              Inl _ \<Rightarrow> ed_reject hash EdSchemaInvalid st
            | Inr (TrustEdge edge) \<Rightarrow>
                if \<not> lb_key_ok L (from_key edge) then ed_reject hash EdInvalidSignature st
                else (case verify (lb_nfc L) (lb_ser L) (lb_de L) (lb_ed L) payload sg (from_key edge) of
                    Inl _ \<Rightarrow> ed_reject hash EdInvalidSignature st
                  | Inr _ \<Rightarrow> if fails 4 then (Inl DbError, [], st) else receive_edge L C wire payload sg hash edge arrived st)
            | Inr _ \<Rightarrow> ed_reject hash EdUnknownClass st))"

text \<open>A recovery is spawned if one of the permits is free.\<close>

definition OUTBOUND_BACKFILL_CONCURRENCY :: nat where "OUTBOUND_BACKFILL_CONCURRENCY = 8"

definition try_acquire :: "nat \<Rightarrow> bool" where
  "try_acquire running \<longleftrightarrow> running < OUTBOUND_BACKFILL_CONCURRENCY"

definition apply_one_edge ::
  "fed_lib \<Rightarrow> edge_clock \<Rightarrow> nat \<Rightarrow> (nat \<Rightarrow> bool) \<Rightarrow> bytes \<Rightarrow> bytes \<Rightarrow> edge_store \<Rightarrow> (db_error + bytes \<times> EdgeStatus) \<times> edge_action list \<times> edge_store" where
  "apply_one_edge L C running fails wire arrived st = (case apply_one_edge_inner L C fails wire arrived st of
     (Inl err, acts, st1) \<Rightarrow> (Inl err, acts, st1)
   | (Inr (result, None), acts, st1) \<Rightarrow> (Inr result, acts, st1)
   | (Inr (result, Some r), acts, st1) \<Rightarrow> (Inr result, if try_acquire running then acts @ [SpawnRecovery r] else acts, st1))"

section \<open>The route\<close>

text \<open>Here other keys are ignored and the last \<open>edges\<close> entry counts.\<close>

fun edges_field :: "(cbor_value \<times> cbor_value) list \<Rightarrow> cbor_value list option \<Rightarrow> cbor_value list option" where
  "edges_field [] found = found"
| "edges_field ((VText k, v) # es) found =
     (if k = ''edges'' then (case v of VArray a \<Rightarrow> edges_field es (Some a) | _ \<Rightarrow> None) else edges_field es found)"
| "edges_field (e # es) found = edges_field es found"

definition edges_decode :: "(bytes \<Rightarrow> cbor_value option) \<Rightarrow> bytes \<Rightarrow> bytes list option" where
  "edges_decode de bs = (case de bs of
     Some (VMap es) \<Rightarrow> Option.bind (edges_field es None) (decode_items bytes_item)
   | _ \<Rightarrow> None)"

text \<open>The loop, with the statement failures and the occupied permits of every edge.\<close>

fun edges_loop ::
  "fed_lib \<Rightarrow> edge_clock \<Rightarrow> (nat \<Rightarrow> nat) \<Rightarrow> (nat \<Rightarrow> nat \<Rightarrow> bool) \<Rightarrow> bytes \<Rightarrow> nat \<Rightarrow> bytes list \<Rightarrow> edge_store
   \<Rightarrow> (bytes \<times> EdgeStatus) list option \<times> edge_action list \<times> edge_store" where
  "edges_loop L C running fails arrived i [] st = (Some [], [], st)"
| "edges_loop L C running fails arrived i (w # ws) st = (case apply_one_edge L C (running i) (fails i) w arrived st of
     (Inl _, acts, st1) \<Rightarrow> (None, acts, st1)
   | (Inr r, acts, st1) \<Rightarrow> (case edges_loop L C running fails arrived (Suc i) ws st1 of
       (rs, acts', st2) \<Rightarrow> (map_option ((#) r) rs, acts @ acts', st2)))"

definition handle_edges_push ::
  "fed_lib \<Rightarrow> edge_clock \<Rightarrow> (nat \<Rightarrow> nat) \<Rightarrow> (nat \<Rightarrow> nat \<Rightarrow> bool) \<Rightarrow> bytes \<Rightarrow> bytes \<Rightarrow> edge_store \<Rightarrow> push_reply \<times> edge_action list \<times> edge_store" where
  "handle_edges_push L C running fails sndr msg st = (case edges_decode (lb_de L) msg of
     None \<Rightarrow> (PushErr 400 ''malformed'', [], st)
   | Some edges \<Rightarrow>
       if edges = [] then (PushErr 400 ''empty_batch'', [], st)
       else if length edges > MAX_EDGE_BATCH then (PushErr 400 ''batch_too_large'', [], st)
       else case edges_loop L C running fails sndr 0 edges st of
         (None, acts, st1) \<Rightarrow> (PushErr 500 ''internal'', acts, st1)
       | (Some results, acts, st1) \<Rightarrow>
           (PushOk (encode_results ed_reason_as_str (lb_ser L) results),
            if \<exists>r \<in> set results. snd r = StApplied then acts @ [NotifyGraph] else acts, st1))"

definition pending_orphan_ttl_tick :: "edge_clock \<Rightarrow> edge_store \<Rightarrow> edge_store" where
  "pending_orphan_ttl_tick C st = snd (evict_expired_pending_trust_edges (ec_now_ms C) DEFERRED_ORPHAN_TTL_MS st)"

section \<open>The pull of predecessors\<close>

datatype BackfillError = BfDb | BfNoHome | BfTransport TransportError | BfUnexpectedStatus nat | BfBadResponseBody

definition resolve_source_home :: "bytes \<Rightarrow> edge_store \<Rightarrow> bytes option" where
  "resolve_source_home key st =
     (let stub = (case find (\<lambda>u. us_public_key u = key) (db_users (es_frontier st)) of
          None \<Rightarrow> None
        | Some u \<Rightarrow> (case us_home u of None \<Rightarrow> None | Some h \<Rightarrow> if length h \<noteq> 32 then None else Some h))
      in case fs_homes (es_fed st) key of
        Some row \<Rightarrow> if length (hp_key row) = 32 then Some (hp_key row) else stub
      | None \<Rightarrow> stub)"

fun backfill_fields ::
  "(cbor_value \<times> cbor_value) list \<Rightarrow> bytes list option \<Rightarrow> bytes option \<Rightarrow> bool option \<Rightarrow> (bytes list option \<times> bytes option \<times> bool option) option" where
  "backfill_fields [] objects cursor whole = Some (objects, cursor, whole)"
| "backfill_fields ((VText k, v) # es) objects cursor whole =
     (if k = ''objects'' then (case v of VArray arr \<Rightarrow> (case decode_items bytes_item arr of
           Some out \<Rightarrow> backfill_fields es (Some out) cursor whole | None \<Rightarrow> None) | _ \<Rightarrow> None)
      else if k = ''next_cursor'' then (case v of VBytes b \<Rightarrow> backfill_fields es objects (Some b) whole | _ \<Rightarrow> None)
      else if k = ''complete'' then (case v of VBool b \<Rightarrow> backfill_fields es objects cursor (Some b) | _ \<Rightarrow> None)
      else backfill_fields es objects cursor whole)"
| "backfill_fields (e # es) objects cursor whole = backfill_fields es objects cursor whole"

definition decode_backfill_body :: "(bytes \<Rightarrow> cbor_value option) \<Rightarrow> bytes \<Rightarrow> (bytes list \<times> bytes option \<times> bool) option" where
  "decode_backfill_body de msg = (case de msg of
     Some (VMap es) \<Rightarrow> (case backfill_fields es None None None of
         Some (Some objects, cursor, Some whole) \<Rightarrow> Some (objects, cursor, whole)
       | _ \<Rightarrow> None)
   | _ \<Rightarrow> None)"

definition hex_lower :: "bytes \<Rightarrow> string" where
  "hex_lower bs = concat (map hex_byte bs)"

definition backfill_path :: "bytes \<Rightarrow> bytes \<Rightarrow> string" where
  "backfill_path source target = ''/federation/v1/edges/backfill?source='' @ hex_lower source @ ''&target='' @ hex_lower target"

definition path_only :: "string \<Rightarrow> string" where
  "path_only p = takeWhile (\<lambda>c. c \<noteq> CHR ''?'') p"

text \<open>The answer is fed through the receive path; the recoveries it asks for are dropped.\<close>

fun refeed :: "fed_lib \<Rightarrow> edge_clock \<Rightarrow> (nat \<Rightarrow> nat \<Rightarrow> bool) \<Rightarrow> bytes \<Rightarrow> nat \<Rightarrow> bytes list \<Rightarrow> edge_store \<Rightarrow> bool \<times> edge_action list \<times> edge_store" where
  "refeed L C fails home i [] st = (True, [], st)"
| "refeed L C fails home i (w # ws) st = (case apply_one_edge_inner L C (fails i) w home st of
     (Inl _, acts, st1) \<Rightarrow> (False, acts, st1)
   | (Inr _, acts, st1) \<Rightarrow> (case refeed L C fails home (Suc i) ws st1 of (ok, acts', st2) \<Rightarrow> (ok, acts @ acts', st2)))"

text \<open>\<open>transport home signed_path path\<close> is the answer: status and body, or the failure to send.\<close>

definition request_edge_predecessor ::
  "fed_lib \<Rightarrow> edge_clock \<Rightarrow> (bytes \<Rightarrow> string \<Rightarrow> string \<Rightarrow> TransportError + nat \<times> bytes) \<Rightarrow> bool \<Rightarrow> (nat \<Rightarrow> nat \<Rightarrow> bool) \<Rightarrow> bytes \<Rightarrow> bytes
   \<Rightarrow> edge_store \<Rightarrow> (BackfillError + unit) \<times> edge_action list \<times> edge_store" where
  "request_edge_predecessor L C transport home_fails fails source target st =
     (if home_fails then (Inl BfDb, [], st)
      else case resolve_source_home source st of
        None \<Rightarrow> (Inl BfNoHome, [], st)
      | Some home \<Rightarrow> (case transport home (path_only (backfill_path source target)) (backfill_path source target) of
          Inl err \<Rightarrow> (Inl (BfTransport err), [], st)
        | Inr (status, msg) \<Rightarrow>
            if \<not> (200 \<le> status \<and> status < 300) then (Inl (BfUnexpectedStatus status), [], st)
            else (case decode_backfill_body (lb_de L) msg of
                None \<Rightarrow> (Inl BfBadResponseBody, [], st)
              | Some (objects, _, _) \<Rightarrow> (case refeed L C fails home 0 objects st of
                  (False, acts, st1) \<Rightarrow> (Inl BfDb, acts, st1)
                | (True, acts, st1) \<Rightarrow> (Inr (), if objects \<noteq> [] then acts @ [NotifyGraph] else acts, st1)))))"

section \<open>What every history keeps\<close>

text \<open>An invariant is kept by the receive path too if what passes the signature check is good.\<close>

locale edge_receiver = edge_invariant +
  assumes verified: "parse (lb_nfc L) (lb_ser L) (lb_de L) p = Inr (TrustEdge e) \<Longrightarrow>
    verify (lb_nfc L) (lb_ser L) (lb_de L) (lb_ed L) p sg (from_key e) = Inr x \<Longrightarrow> good e (lb_sha L p) sg p"
    and evict: "I st \<Longrightarrow> I (st\<lparr>es_pending := filter P (es_pending st)\<rparr>)"
begin

lemma missing_keeps: "I st \<Longrightarrow> good e h sg p \<Longrightarrow> I (snd (endpoint_missing e h sg p a st))"
  by (simp add: endpoint_missing_def Let_def frontier)

lemma reattempt_keeps:
  assumes "I st"
  shows "I (snd (reattempt_unprojected_edge L C fails h a st))"
proof (cases "\<exists>ob p e. \<not> fails 2 \<and> \<not> fails 3 \<and> fs_objects (es_fed st) h = Some ob \<and> ob_payload ob = Some p \<and>
    parse (lb_nfc L) (lb_ser L) (lb_de L) p = Inr (TrustEdge e)")
  case True
  then obtain ob p e where x: "\<not> fails 2" "\<not> fails 3" "fs_objects (es_fed st) h = Some ob" "ob_payload ob = Some p"
    "parse (lb_nfc L) (lb_ser L) (lb_de L) p = Inr (TrustEdge e)" by blast
  have g: "good e h (ob_signature ob) p" by (rule stored [OF assms x(3-5)])
  obtain q st1 where t: "try_project_trust_edge C e h (ob_signature ob) p st = (q, st1)" by fastforce
  have i: "I st1" using project [OF assms g] t by simp
  show ?thesis using x t i drain_after_keeps [OF i] missing_keeps [OF i g, of a]
    by (cases q) (auto simp: reattempt_unprojected_edge_def split: prod.split)
next
  case False
  then show ?thesis using assms
    by (auto simp: reattempt_unprojected_edge_def split: option.splits sum.splits SignedPayload.splits)
qed

lemma receive_keeps:
  assumes "I st" "good e h sg p"
  shows "I (snd (snd (receive_edge L C w p sg h e a st)))"
proof -
  obtain q st1 where t: "try_project_trust_edge C e h sg p st = (q, st1)" by fastforce
  have i: "I st1" using project [OF assms] t by simp
  then have s: "I (store_edge p sg h st1)" by (rule store [OF _ assms(2)])
  show ?thesis
    using t assms(1) s drain_after_keeps [OF s] missing_keeps [OF s assms(2), of a] queue [OF i assms(2), of "ec_now_ms C"]
    by (cases q) (auto simp: receive_edge_def Let_def ed_reject_def split: prod.split option.split)
qed

lemma apply_keeps:
  assumes "I st"
  shows "I (snd (snd (apply_one_edge_inner L C fails w a st)))"
proof (cases "decode_signed_object (lb_de L) w")
  case (Some ps)
  obtain p sg where d: "ps = (p, sg)" by fastforce
  show ?thesis
  proof (cases "\<exists>e x. parse (lb_nfc L) (lb_ser L) (lb_de L) p = Inr (TrustEdge e) \<and>
      verify (lb_nfc L) (lb_ser L) (lb_de L) (lb_ed L) p sg (from_key e) = Inr x \<and> fs_objects (es_fed st) (lb_sha L p) = None")
    case True
    then obtain e x where x: "parse (lb_nfc L) (lb_ser L) (lb_de L) p = Inr (TrustEdge e)"
      "verify (lb_nfc L) (lb_ser L) (lb_de L) (lb_ed L) p sg (from_key e) = Inr x" "fs_objects (es_fed st) (lb_sha L p) = None" by blast
    show ?thesis using Some d x assms receive_keeps [OF assms verified [OF x(1,2)]]
      by (simp add: apply_one_edge_inner_def ed_reject_def Let_def)
  next
    case False
    show ?thesis using Some d False assms reattempt_keeps [OF assms, of fails "lb_sha L p" a]
      by (auto simp: apply_one_edge_inner_def ed_reject_def Let_def split: option.splits sum.splits SignedPayload.splits prod.splits)
  qed
qed (simp add: apply_one_edge_inner_def ed_reject_def assms)

lemma apply_outer_keeps: "I st \<Longrightarrow> I (snd (snd (apply_one_edge L C n fails w a st)))"
  using apply_keeps [of st fails w a] by (auto simp: apply_one_edge_def split: prod.splits sum.splits option.splits)

lemma edges_loop_keeps: "I st \<Longrightarrow> I (snd (snd (edges_loop L C n fails a i ws st)))"
proof (induction ws arbitrary: i st)
  case (Cons w ws)
  obtain r acts st1 where o: "apply_one_edge L C (n i) (fails i) w a st = (r, acts, st1)" by (metis prod_cases3)
  have "I st1" using apply_outer_keeps [OF Cons.prems, of "n i" "fails i" w a] o by simp
  from Cons.IH [OF this, of "Suc i"] \<open>I st1\<close> show ?case using o by (auto split: sum.splits prod.splits)
qed simp

lemma push_keeps: "I st \<Longrightarrow> I (snd (snd (handle_edges_push L C n fails s msg st)))"
  using edges_loop_keeps [of st n fails s 0]
  by (auto simp: handle_edges_push_def split: option.splits prod.splits) (metis snd_conv)+

lemma refeed_keeps: "I st \<Longrightarrow> I (snd (snd (refeed L C fails home i ws st)))"
proof (induction ws arbitrary: i st)
  case (Cons w ws)
  obtain r acts st1 where o: "apply_one_edge_inner L C (fails i) w home st = (r, acts, st1)" by (metis prod_cases3)
  have "I st1" using apply_keeps [OF Cons.prems, of "fails i" w home] o by simp
  from Cons.IH [OF this, of "Suc i"] \<open>I st1\<close> show ?case using o by (auto split: sum.splits prod.splits)
qed simp

lemma backfill_keeps: "I st \<Longrightarrow> I (snd (snd (request_edge_predecessor L C tr hf fails a b st)))"
  using refeed_keeps [of st fails _ 0]
  by (auto simp: request_edge_predecessor_def split: option.splits sum.splits prod.splits bool.splits) (metis snd_conv)+

lemma tick_keeps: "I st \<Longrightarrow> I (pending_orphan_ttl_tick C st)"
  by (simp add: pending_orphan_ttl_tick_def evict_expired_pending_trust_edges_def Let_def evict)

end

interpretation chains: edge_receiver L C chains_wf "\<lambda>_ _ _ _. True" for L C
  by unfold_locales (simp_all add: chains_wf_def)

interpretation keys: edge_receiver L C keys_unique "\<lambda>_ _ _ _. True" for L C
  by unfold_locales (simp_all add: keys_unique_def distinct_map_filter)

interpretation authentic: edge_receiver L C "edges_authentic L" "signed_edge L" for L C
  by unfold_locales (auto simp: signed_edge_def edges_authentic_def user_id_def dest: verify_signature)

text \<open>A profile hydrates a row of \<open>users\<close>; \<open>federated\<close> says whether an existing row for the key is a stub. The display name is
  not a column of the model.\<close>

definition hydrate_stub_user :: "string \<Rightarrow> bool \<Rightarrow> bytes \<Rightarrow> bytes \<Rightarrow> edge_store \<Rightarrow> string \<times> edge_store" where
  "hydrate_stub_user new_id federated key home st =
     (let users = db_users (es_frontier st); put = (\<lambda>us. st\<lparr>es_frontier := (es_frontier st)\<lparr>db_users := us\<rparr>\<rparr>)
      in case find (\<lambda>u. us_public_key u = key) users of
        Some row \<Rightarrow> (us_id row, if federated then put (map (\<lambda>u. if us_public_key u = key then u\<lparr>us_home := Some home\<rparr> else u) users) else st)
      | None \<Rightarrow> (new_id, put (users @ [\<lparr>us_id = new_id, us_public_key = key, us_home = Some home, us_status = ''active''\<rparr>])))"

text \<open>The events of a history: pushes, pulls of predecessors, the hydration of a user with the sweep that follows it, and ticks of
  the eviction loop.\<close>

datatype edge_op =
    PushOp edge_clock "nat \<Rightarrow> nat" "nat \<Rightarrow> nat \<Rightarrow> bool" bytes bytes
  | PullOp edge_clock "bytes \<Rightarrow> string \<Rightarrow> string \<Rightarrow> TransportError + nat \<times> bytes" bool "nat \<Rightarrow> nat \<Rightarrow> bool" bytes bytes
  | HydrateOp edge_clock string bool bytes bytes "bytes list"
  | TickOp edge_clock

fun edge_step :: "fed_lib \<Rightarrow> edge_op \<Rightarrow> edge_store \<Rightarrow> edge_store" where
  "edge_step L (PushOp C running fails sndr msg) st = snd (snd (handle_edges_push L C running fails sndr msg st))"
| "edge_step L (PullOp C transport home_fails fails source target) st =
     snd (snd (request_edge_predecessor L C transport home_fails fails source target st))"
| "edge_step L (HydrateOp C new_id federated key home rows) st =
     snd (sweep_pending_projections L C rows key (snd (hydrate_stub_user new_id federated key home st)))"
| "edge_step L (TickOp C) st = pending_orphan_ttl_tick C st"

lemma hydrate_kept [simp]: "es_edges (snd (hydrate_stub_user i f k h st)) = es_edges st" "es_pending (snd (hydrate_stub_user i f k h st)) = es_pending st"
    "es_fed (snd (hydrate_stub_user i f k h st)) = es_fed st"
  by (simp_all add: hydrate_stub_user_def Let_def split: option.split)

lemma find_extends: "find P xs = Some y \<Longrightarrow> find P (xs @ ys) = Some y"
  by (induction xs) (auto split: if_splits)

lemma find_refreshed: "(\<And>x. P (f x) = P x) \<Longrightarrow> find P (map f xs) = map_option f (find P xs)"
  by (induction xs) auto

lemma hydrate_id:
  assumes "user_id key st = Some a"
  shows "user_id key (snd (hydrate_stub_user i f k h st)) = Some a"
proof -
  obtain u where "find (\<lambda>u. us_public_key u = key) (db_users (es_frontier st)) = Some u" "a = us_id u" using assms by (auto simp: user_id_def)
  then show ?thesis by (simp add: user_id_def hydrate_stub_user_def Let_def find_extends find_refreshed split: option.split)
qed

lemma hydrate_authentic: "edges_authentic L st \<Longrightarrow> edges_authentic L (snd (hydrate_stub_user i f k home st))"
  unfolding edges_authentic_def hydrate_kept
proof (intro conjI ballI allI impI, elim conjE)
  fix r h
  assume "\<forall>r \<in> set (es_edges st). \<forall>h. tr_hash r = Some h \<longrightarrow> (\<exists>e sg p. signed_edge L e h sg p \<and> tr_sig r = Some sg \<and> tr_prior r = prior_edge_hash e \<and>
        tr_type r = stance_as_str (stance e) \<and> user_id (from_key e) st = Some (tr_source r) \<and> user_id (to_key e) st = Some (tr_target r))"
    "r \<in> set (es_edges st)" "tr_hash r = Some h"
  then obtain e sg p where "signed_edge L e h sg p" "tr_sig r = Some sg" "tr_prior r = prior_edge_hash e" "tr_type r = stance_as_str (stance e)"
    "user_id (from_key e) st = Some (tr_source r)" "user_id (to_key e) st = Some (tr_target r)" by blast
  then show "\<exists>e sg p. signed_edge L e h sg p \<and> tr_sig r = Some sg \<and> tr_prior r = prior_edge_hash e \<and> tr_type r = stance_as_str (stance e) \<and>
      user_id (from_key e) (snd (hydrate_stub_user i f k home st)) = Some (tr_source r) \<and> user_id (to_key e) (snd (hydrate_stub_user i f k home st)) = Some (tr_target r)"
    using hydrate_id by blast
qed blast+

text \<open>C30. The trust graph holds what users signed, and one chain per pair. After every history of pushes, pulls of predecessors,
  arrivals of users with their sweeps and evictions, with whatever bodies, answers and database failures: a row of the graph comes
  from an edge whose signature verifies under the key of the user in its source column and that states its stance and its
  predecessor; no two projected edges of a pair share a predecessor and every predecessor is projected; and the buffered and the
  stored edges are signed.\<close>

theorem trust_graph_history:
  assumes "edges_authentic L st" "chains_wf st" "keys_unique st"
  shows "edges_authentic L (fold (edge_step L) ops st) \<and> chains_wf (fold (edge_step L) ops st) \<and> keys_unique (fold (edge_step L) ops st)"
  using assms
proof (induction ops arbitrary: st)
  case (Cons op ops)
  have "edges_authentic L (edge_step L op st) \<and> chains_wf (edge_step L op st) \<and> keys_unique (edge_step L op st)"
  proof (cases op)
    case (HydrateOp C i f k h rows)
    let ?st = "snd (hydrate_stub_user i f k h st)"
    have "edges_authentic L ?st" "chains_wf ?st" "keys_unique ?st"
      using Cons.prems hydrate_authentic by (simp_all add: chains_wf_def keys_unique_def)
    then show ?thesis using HydrateOp authentic.sweep_keeps chains.sweep_keeps keys.sweep_keeps by simp
  qed (use Cons.prems in \<open>simp_all add: authentic.push_keeps chains.push_keeps keys.push_keeps authentic.backfill_keeps chains.backfill_keeps
      keys.backfill_keeps authentic.tick_keeps chains.tick_keeps keys.tick_keeps\<close>)
  then show ?case using Cons.IH by simp
qed simp

section \<open>A chain in any order\<close>

text \<open>\<open>n\<close> edges of one pair: their wires, payloads, signatures and contents; each names its predecessor's hash.\<close>

definition chain_ok ::
  "fed_lib \<Rightarrow> nat \<Rightarrow> (nat \<Rightarrow> bytes) \<Rightarrow> (nat \<Rightarrow> bytes) \<Rightarrow> (nat \<Rightarrow> bytes) \<Rightarrow> (nat \<Rightarrow> TrustEdge) \<Rightarrow> bytes \<Rightarrow> bytes \<Rightarrow> bool" where
  "chain_ok L n wire pl sg ed k t \<longleftrightarrow> lb_key_ok L k \<and> inj_on (\<lambda>i. lb_sha L (pl i)) {..<n} \<and>
     (\<forall>i<n. decode_signed_object (lb_de L) (wire i) = Some (pl i, sg i) \<and> parse (lb_nfc L) (lb_ser L) (lb_de L) (pl i) = Inr (TrustEdge (ed i)) \<and>
        (\<exists>x. verify (lb_nfc L) (lb_ser L) (lb_de L) (lb_ed L) (pl i) (sg i) k = Inr x) \<and> from_key (ed i) = k \<and> to_key (ed i) = t \<and>
        length (lb_sha L (pl i)) = 32 \<and> prior_edge_hash (ed i) = (if i = 0 then None else Some (lb_sha L (pl (i - 1)))))"

text \<open>The first \<open>m\<close> are projected and stored, those of \<open>W\<close> are buffered.\<close>

definition chain_state ::
  "fed_lib \<Rightarrow> nat \<Rightarrow> (nat \<Rightarrow> bytes) \<Rightarrow> (nat \<Rightarrow> bytes) \<Rightarrow> (nat \<Rightarrow> TrustEdge) \<Rightarrow> bytes \<Rightarrow> bytes \<Rightarrow> nat \<Rightarrow> nat set \<Rightarrow> edge_store \<Rightarrow> bool" where
  "chain_state L n pl sg ed k t m W st \<longleftrightarrow>
     (\<exists>a b. user_id k st = Some a \<and> user_id t st = Some b \<and>
        (\<forall>r \<in> set (es_edges st). tr_source r = a \<longrightarrow> tr_target r = b \<longrightarrow> tr_hash r \<noteq> None \<longrightarrow>
           (\<exists>i<m. tr_hash r = Some (lb_sha L (pl i)) \<and> tr_prior r = prior_edge_hash (ed i))) \<and>
        (\<forall>i<m. \<exists>r \<in> set (es_edges st). tr_source r = a \<and> tr_target r = b \<and> tr_hash r = Some (lb_sha L (pl i)))) \<and>
     m \<le> n \<and> W \<subseteq> {1..<n} \<and> (\<forall>i<n. has_edge (lb_sha L (pl i)) st \<longleftrightarrow> i < m) \<and> (\<forall>i<n. fs_objects (es_fed st) (lb_sha L (pl i)) \<noteq> None \<longleftrightarrow> i < m) \<and>
     (\<forall>r \<in> set (es_pending st). \<forall>i<n. pt_prior r = lb_sha L (pl i) \<longrightarrow> Suc i \<in> W \<and> pt_source r = k \<and> pt_hash r = lb_sha L (pl (Suc i)) \<and>
        pt_payload r = pl (Suc i) \<and> pt_sig r = sg (Suc i)) \<and>
     (\<forall>i. Suc i \<in> W \<longrightarrow> (\<exists>r \<in> set (es_pending st). pt_prior r = lb_sha L (pl i))) \<and> keys_unique st"

lemma chain_stateI:
  assumes "user_id k st = Some a" "user_id t st = Some b"
    "\<forall>r \<in> set (es_edges st). tr_source r = a \<longrightarrow> tr_target r = b \<longrightarrow> tr_hash r \<noteq> None \<longrightarrow>
       (\<exists>i<m. tr_hash r = Some (lb_sha L (pl i)) \<and> tr_prior r = prior_edge_hash (ed i))"
    "\<forall>i<m. \<exists>r \<in> set (es_edges st). tr_source r = a \<and> tr_target r = b \<and> tr_hash r = Some (lb_sha L (pl i))"
    "m \<le> n" "W \<subseteq> {1..<n}" "\<forall>i<n. has_edge (lb_sha L (pl i)) st \<longleftrightarrow> i < m" "\<forall>i<n. fs_objects (es_fed st) (lb_sha L (pl i)) \<noteq> None \<longleftrightarrow> i < m"
    "\<forall>r \<in> set (es_pending st). \<forall>i<n. pt_prior r = lb_sha L (pl i) \<longrightarrow> Suc i \<in> W \<and> pt_source r = k \<and> pt_hash r = lb_sha L (pl (Suc i)) \<and>
       pt_payload r = pl (Suc i) \<and> pt_sig r = sg (Suc i)"
    "\<forall>i. Suc i \<in> W \<longrightarrow> (\<exists>r \<in> set (es_pending st). pt_prior r = lb_sha L (pl i))" "keys_unique st"
  shows "chain_state L n pl sg ed k t m W st"
  unfolding chain_state_def by (intro conjI) (use assms in blast)+

lemma chain_stateD:
  assumes "chain_state L n pl sg ed k t m W st"
  shows "m \<le> n" "W \<subseteq> {1..<n}" "i < n \<Longrightarrow> has_edge (lb_sha L (pl i)) st \<longleftrightarrow> i < m"
    "i < n \<Longrightarrow> fs_objects (es_fed st) (lb_sha L (pl i)) \<noteq> None \<longleftrightarrow> i < m"
    "r \<in> set (es_pending st) \<Longrightarrow> i < n \<Longrightarrow> pt_prior r = lb_sha L (pl i) \<Longrightarrow> Suc i \<in> W \<and> pt_source r = k \<and> pt_hash r = lb_sha L (pl (Suc i)) \<and>
       pt_payload r = pl (Suc i) \<and> pt_sig r = sg (Suc i)"
    "Suc i \<in> W \<Longrightarrow> \<exists>r \<in> set (es_pending st). pt_prior r = lb_sha L (pl i)" "keys_unique st"
  using assms unfolding chain_state_def by blast+

lemma chain_hash: "chain_ok L n wire pl sg ed k t \<Longrightarrow> i < n \<Longrightarrow> j < n \<Longrightarrow> lb_sha L (pl i) = lb_sha L (pl j) \<longleftrightarrow> i = j"
  by (auto simp: chain_ok_def dest: inj_onD)

lemma chain_prior:
  assumes "chain_ok L n wire pl sg ed k t" "i < n" "j < n" "prior_edge_hash (ed i) = prior_edge_hash (ed j)"
  shows "i = j"
proof -
  have p: "prior_edge_hash (ed x) = (if x = 0 then None else Some (lb_sha L (pl (x - 1))))" if "x < n" for x
    using assms(1) that by (simp add: chain_ok_def)
  have "(if i = 0 then None else Some (lb_sha L (pl (i - 1)))) = (if j = 0 then None else Some (lb_sha L (pl (j - 1))))"
    using assms(4) unfolding p [OF assms(2)] p [OF assms(3)] .
  then consider "i = 0" "j = 0" | "i \<noteq> 0" "j \<noteq> 0" "lb_sha L (pl (i - 1)) = lb_sha L (pl (j - 1))" by (auto split: if_splits)
  then show ?thesis
  proof cases
    case 2
    then have "i - 1 = j - 1" using chain_hash [OF assms(1), of "i - 1" "j - 1"] assms(2,3) by simp
    then show ?thesis using 2 by simp
  qed simp
qed

text \<open>The projection of an edge of the chain: nothing for the gap, the row for the next one.\<close>

lemma chain_no_sibling:
  assumes "chain_ok L n wire pl sg ed k t" "chain_state L n pl sg ed k t m W st" "user_id k st = Some a" "user_id t st = Some b" "m \<le> i" "i < n"
  shows "\<not> list_ex (sibling a b (prior_edge_hash (ed i)) (lb_sha L (pl i))) (es_edges st)"
proof
  assume "list_ex (sibling a b (prior_edge_hash (ed i)) (lb_sha L (pl i))) (es_edges st)"
  then obtain r where r: "r \<in> set (es_edges st)" "tr_source r = a" "tr_target r = b" "tr_prior r = prior_edge_hash (ed i)" "tr_hash r \<noteq> None"
    by (auto simp: list_ex_iff sibling_def)
  then obtain j where "j < m" "tr_prior r = prior_edge_hash (ed j)" using assms(2-4) unfolding chain_state_def by auto
  then show False using chain_prior [OF assms(1,6), of j] r(4) assms(5,6) by auto
qed

lemma chain_gap:
  assumes "chain_ok L n wire pl sg ed k t" "chain_state L n pl sg ed k t m W st" "m < i" "i < n"
  shows "try_project_trust_edge C (ed i) (lb_sha L (pl i)) (sg i) (pl i) st = (Deferred, st)"
proof -
  obtain a b where u: "user_id k st = Some a" "user_id t st = Some b" using assms(2) by (auto simp: chain_state_def)
  have e: "from_key (ed i) = k" "to_key (ed i) = t" "prior_edge_hash (ed i) = Some (lb_sha L (pl (i - 1)))"
    using assms(1,3,4) by (simp_all add: chain_ok_def)
  have "\<not> has_edge (lb_sha L (pl i)) st" using assms(2-4) by (simp add: chain_state_def)
  moreover have "\<not> list_ex (\<lambda>r. tr_source r = a \<and> tr_target r = b \<and> tr_hash r = Some (lb_sha L (pl (i - 1)))) (es_edges st)"
  proof
    assume "list_ex (\<lambda>r. tr_source r = a \<and> tr_target r = b \<and> tr_hash r = Some (lb_sha L (pl (i - 1)))) (es_edges st)"
    then have "has_edge (lb_sha L (pl (i - 1))) st" by (auto simp: has_edge_def list_ex_iff)
    then show False using assms(2-4) by (auto simp: chain_state_def)
  qed
  ultimately show ?thesis using u e chain_no_sibling [OF assms(1,2) u _ assms(4)] assms(3) by (simp add: try_project_trust_edge_def)
qed

lemma store_edge_objects: "fs_objects (es_fed (store_edge p sg h st)) x \<noteq> None \<longleftrightarrow> x = h \<or> fs_objects (es_fed st) x \<noteq> None"
  by (auto simp: store_edge_def store_signed_object_def split: option.splits)

lemma project_object_keys: "fs_objects (es_fed (snd (try_project_trust_edge C e h sg p st))) x = None \<longleftrightarrow> fs_objects (es_fed st) x = None"
  by (auto simp: try_project_trust_edge_def Let_def erase_trust_edge_chain_def split: option.splits)

lemma chain_next:
  assumes "chain_ok L n wire pl sg ed k t" "chain_state L n pl sg ed k t m W st" "m < n"
  shows "\<exists>st1. try_project_trust_edge C (ed m) (lb_sha L (pl m)) (sg m) (pl m) st = (Projected, st1) \<and>
    chain_state L n pl sg ed k t (Suc m) W (store_edge (pl m) (sg m) (lb_sha L (pl m)) st1)"
proof -
  let ?h = "\<lambda>i. lb_sha L (pl i)"
  obtain a b where u: "user_id k st = Some a" "user_id t st = Some b"
    and r1: "\<forall>r \<in> set (es_edges st). tr_source r = a \<longrightarrow> tr_target r = b \<longrightarrow> tr_hash r \<noteq> None \<longrightarrow>
           (\<exists>i<m. tr_hash r = Some (?h i) \<and> tr_prior r = prior_edge_hash (ed i))"
    and r2: "\<forall>i<m. \<exists>r \<in> set (es_edges st). tr_source r = a \<and> tr_target r = b \<and> tr_hash r = Some (?h i)"
    using assms(2) by (auto simp: chain_state_def)
  have e: "from_key (ed m) = k" "to_key (ed m) = t" "prior_edge_hash (ed m) = (if m = 0 then None else Some (?h (m - 1)))"
    using assms(1,3) by (simp_all add: chain_ok_def)
  have n: "\<not> has_edge (?h m) st" using assms(2,3) by (simp add: chain_state_def)
  obtain q st1 where t: "try_project_trust_edge C (ed m) (?h m) (sg m) (pl m) st = (q, st1)" by fastforce
  have "list_ex (\<lambda>r. tr_source r = a \<and> tr_target r = b \<and> tr_hash r = Some (?h (m - 1))) (es_edges st)" if "m \<noteq> 0"
    using r2 that by (auto simp: list_ex_iff)
  then have q: "q = Projected" using t u e n chain_no_sibling [OF assms(1,2) u _ assms(3)]
    by (auto simp: try_project_trust_edge_def Let_def split: if_splits)
  from project_cases [OF t] n q obtain a' b' where x: "user_id k st = Some a'" "user_id t st = Some b'"
    "es_edges st1 = es_edges st @ [projected_row C (ed m) (?h m) (sg m) a' b']" "es_pending st1 = es_pending st"
    "db_users (es_frontier st1) = db_users (es_frontier st)" unfolding e(1,2) by auto
  have id: "user_id y st1 = user_id y st" for y using x(5) by (simp add: user_id_def)
  let ?st = "store_edge (pl m) (sg m) (?h m) st1"
  have edges: "es_edges ?st = es_edges st @ [projected_row C (ed m) (?h m) (sg m) a b]" using x u by simp
  have he: "has_edge y ?st \<longleftrightarrow> y = ?h m \<or> has_edge y st" for y unfolding has_edge_def edges by (auto simp: projected_row_def)
  have ho: "fs_objects (es_fed ?st) y \<noteq> None \<longleftrightarrow> y = ?h m \<or> fs_objects (es_fed st) y \<noteq> None" for y
    using store_edge_objects [of "pl m" "sg m" "?h m" st1 y] project_object_keys [of C "ed m" "?h m" "sg m" "pl m" st y] t by (simp del: not_None_eq)
  have eq: "?h i = ?h m \<longleftrightarrow> i = m" if "i < n" for i by (rule chain_hash [OF assms(1) that assms(3)])
  note D = chain_stateD [OF assms(2)]
  have "chain_state L n pl sg ed k t (Suc m) W ?st"
  proof (rule chain_stateI)
    show "\<forall>r \<in> set (es_edges ?st). tr_source r = a \<longrightarrow> tr_target r = b \<longrightarrow> tr_hash r \<noteq> None \<longrightarrow>
        (\<exists>i<Suc m. tr_hash r = Some (?h i) \<and> tr_prior r = prior_edge_hash (ed i))"
      unfolding edges using r1 by (auto simp: projected_row_def less_Suc_eq)
    show "\<forall>i<Suc m. \<exists>r \<in> set (es_edges ?st). tr_source r = a \<and> tr_target r = b \<and> tr_hash r = Some (?h i)"
      unfolding edges using r2 by (auto simp: projected_row_def less_Suc_eq)
    show "\<forall>i<n. has_edge (?h i) ?st \<longleftrightarrow> i < Suc m" using D(3) eq by (auto simp: he less_Suc_eq)
    show "\<forall>i<n. fs_objects (es_fed ?st) (?h i) \<noteq> None \<longleftrightarrow> i < Suc m" unfolding ho using D(4) eq by (auto simp: less_Suc_eq simp del: not_None_eq)
    show "user_id k ?st = Some a" "user_id t ?st = Some b" using u id by simp_all
    show "\<forall>r \<in> set (es_pending ?st). \<forall>i<n. pt_prior r = ?h i \<longrightarrow> Suc i \<in> W \<and> pt_source r = k \<and> pt_hash r = ?h (Suc i) \<and>
        pt_payload r = pl (Suc i) \<and> pt_sig r = sg (Suc i)" using D(5) x(4) by simp
    show "\<forall>i. Suc i \<in> W \<longrightarrow> (\<exists>r \<in> set (es_pending ?st). pt_prior r = ?h i)" using D(6) x(4) by simp
    show "keys_unique ?st" using D(7) x(4) by (simp add: keys_unique_def)
  qed (use assms(3) D(2) in simp_all)
  then show ?thesis using t q by blast
qed

text \<open>A change of the buffer alone.\<close>

lemma chain_rebuffer:
  assumes "chain_state L n pl sg ed k t m W st" "es_edges st' = es_edges st" "\<And>y. user_id y st' = user_id y st"
    "fs_objects (es_fed st') = fs_objects (es_fed st)" "V \<subseteq> {1..<n}" "keys_unique st'"
    "\<And>r i. r \<in> set (es_pending st') \<Longrightarrow> i < n \<Longrightarrow> pt_prior r = lb_sha L (pl i) \<Longrightarrow> Suc i \<in> V \<and> pt_source r = k \<and>
       pt_hash r = lb_sha L (pl (Suc i)) \<and> pt_payload r = pl (Suc i) \<and> pt_sig r = sg (Suc i)"
    "\<And>i. Suc i \<in> V \<Longrightarrow> \<exists>r \<in> set (es_pending st'). pt_prior r = lb_sha L (pl i)"
  shows "chain_state L n pl sg ed k t m V st'"
proof -
  obtain a b where u: "user_id k st = Some a" "user_id t st = Some b"
    "\<forall>r \<in> set (es_edges st). tr_source r = a \<longrightarrow> tr_target r = b \<longrightarrow> tr_hash r \<noteq> None \<longrightarrow>
       (\<exists>i<m. tr_hash r = Some (lb_sha L (pl i)) \<and> tr_prior r = prior_edge_hash (ed i))"
    "\<forall>i<m. \<exists>r \<in> set (es_edges st). tr_source r = a \<and> tr_target r = b \<and> tr_hash r = Some (lb_sha L (pl i))"
    using assms(1) unfolding chain_state_def by blast
  have "has_edge y st' = has_edge y st" for y using assms(2) by (simp add: has_edge_def)
  then show ?thesis using u chain_stateD(1,3,4) [OF assms(1)] assms(2-8) by (intro chain_stateI [of k st' a t b]) (simp_all del: not_None_eq)
qed

lemma chain_forget:
  assumes "chain_ok L n wire pl sg ed k t" "chain_state L n pl sg ed k t m W st" "Suc i \<in> W"
  shows "chain_state L n pl sg ed k t m (W - {Suc i}) (delete_pending_orphan k (lb_sha L (pl i)) st)"
proof -
  let ?st = "delete_pending_orphan k (lb_sha L (pl i)) st"
  have i: "Suc i < n" using assms(2,3) by (auto simp: chain_state_def)
  have ku: "keys_unique ?st" using assms(2) keys.forget by (simp add: chain_state_def)
  have pr: "Suc j \<in> W - {Suc i} \<and> pt_source r = k \<and> pt_hash r = lb_sha L (pl (Suc j)) \<and> pt_payload r = pl (Suc j) \<and> pt_sig r = sg (Suc j)"
    if "r \<in> set (es_pending ?st)" "j < n" "pt_prior r = lb_sha L (pl j)" for r j
  proof -
    have r: "r \<in> set (es_pending st)" "pending_key r \<noteq> (k, lb_sha L (pl i))" using that(1) by (auto simp: forget_pending)
    then have x: "Suc j \<in> W \<and> pt_source r = k \<and> pt_hash r = lb_sha L (pl (Suc j)) \<and> pt_payload r = pl (Suc j) \<and> pt_sig r = sg (Suc j)"
      using assms(2) that(2,3) unfolding chain_state_def by blast
    then have "j \<noteq> i" using r(2) that(3) by auto
    then show ?thesis using x by simp
  qed
  have pe: "\<exists>r \<in> set (es_pending ?st). pt_prior r = lb_sha L (pl j)" if "Suc j \<in> W - {Suc i}" for j
  proof -
    have "j \<noteq> i" "Suc j < n" using that assms(2) by (auto simp: chain_state_def)
    then have "lb_sha L (pl j) \<noteq> lb_sha L (pl i)" using chain_hash [OF assms(1), of j i] i by simp
    moreover have "\<exists>r \<in> set (es_pending st). pt_prior r = lb_sha L (pl j)" using that chain_stateD(6) [OF assms(2)] by simp
    ultimately show ?thesis by (auto simp: forget_pending)
  qed
  show ?thesis by (rule chain_rebuffer [OF assms(2) _ _ _ _ ku pr pe]) (use chain_stateD(2) [OF assms(2)] in auto)
qed

lemma keys_single:
  assumes "keys_unique st" "\<forall>r \<in> set (es_pending st). pt_prior r = h \<longrightarrow> pt_source r = k" "r \<in> set (es_pending st)" "pt_prior r = h"
  shows "filter (\<lambda>r. pt_prior r = h) (es_pending st) = [r]"
proof -
  let ?f = "filter (\<lambda>r. pt_prior r = h) (es_pending st)"
  have d: "distinct (map pending_key ?f)" using assms(1) by (simp add: keys_unique_def distinct_map_filter)
  have "set (map pending_key ?f) \<subseteq> {(k, h)}" using assms(2) by auto
  then have "length (map pending_key ?f) \<le> 1" using distinct_card [OF d] card_mono [of "{(k, h)}" "set (map pending_key ?f)"] by simp
  moreover have "r \<in> set ?f" using assms(3,4) by simp
  ultimately show ?thesis by (cases ?f) auto
qed

text \<open>Draining from the last projected edge takes the buffered ones as far as they follow without a gap.\<close>

lemma chain_drain:
  assumes "chain_ok L n wire pl sg ed k t"
  shows "chain_state L n pl sg ed k t (Suc m) W st \<Longrightarrow> drain L C f [lb_sha L (pl m)] st = Some st' \<Longrightarrow>
    \<exists>m' W'. chain_state L n pl sg ed k t m' W' st' \<and> Suc m \<le> m' \<and> m' \<notin> W' \<and> {..<m'} \<union> W' = {..<Suc m} \<union> W \<and> W' \<subseteq> W"
proof (induction f arbitrary: m W st)
  case (Suc f)
  let ?h = "\<lambda>i. lb_sha L (pl i)"
  note cs = Suc.prems(1)
  have m: "m < n" using cs by (simp add: chain_state_def)
  have own: "\<forall>r \<in> set (es_pending st). pt_prior r = ?h m \<longrightarrow> Suc m \<in> W \<and> pt_source r = k \<and> pt_hash r = ?h (Suc m) \<and> pt_payload r = pl (Suc m) \<and>
      pt_sig r = sg (Suc m)" using cs m unfolding chain_state_def by blast
  show ?case
  proof (cases "Suc m \<in> W")
    case False
    then have "filter (\<lambda>r. pt_prior r = ?h m) (es_pending st) = []" using own by (auto simp: filter_empty_conv)
    then have "st' = st" using Suc.prems(2) by simp
    then show ?thesis using cs False by (intro exI [of _ "Suc m"] exI [of _ W]) simp
  next
    case True
    then have n: "Suc m < n" using cs by (auto simp: chain_state_def)
    obtain r where r: "r \<in> set (es_pending st)" "pt_prior r = ?h m" using cs True by (auto simp: chain_state_def)
    then have x: "pt_source r = k" "pt_hash r = ?h (Suc m)" "pt_payload r = pl (Suc m)" "pt_sig r = sg (Suc m)" using own by auto
    have "keys_unique st" using cs by (simp add: chain_state_def)
    from keys_single [OF this _ r, of k] own have f: "filter (\<lambda>r. pt_prior r = ?h m) (es_pending st) = [r]" by blast
    obtain st1 where t: "try_project_trust_edge C (ed (Suc m)) (?h (Suc m)) (sg (Suc m)) (pl (Suc m)) st = (Projected, st1)"
      "chain_state L n pl sg ed k t (Suc (Suc m)) W (store_edge (pl (Suc m)) (sg (Suc m)) (?h (Suc m)) st1)"
      using chain_next [OF assms cs n] by blast
    have "drain_row L C r ([], st) = ([?h (Suc m)], delete_pending_orphan k (?h m) (store_edge (pl (Suc m)) (sg (Suc m)) (?h (Suc m)) st1))"
      using t(1) x r(2) assms n by (simp add: drain_row_def Let_def chain_ok_def)
    then have "drain L C f [?h (Suc m)] (delete_pending_orphan k (?h m) (store_edge (pl (Suc m)) (sg (Suc m)) (?h (Suc m)) st1)) = Some st'"
      using Suc.prems(2) f by simp
    from Suc.IH [OF chain_forget [OF assms t(2) True] this] obtain m' W' where
      y: "chain_state L n pl sg ed k t m' W' st'" "Suc (Suc m) \<le> m'" "m' \<notin> W'" "{..<m'} \<union> W' = {..<Suc (Suc m)} \<union> (W - {Suc m})" "W' \<subseteq> W - {Suc m}"
      by blast
    have "{..<Suc (Suc m)} \<union> (W - {Suc m}) = {..<Suc m} \<union> W" using True by (auto simp: less_Suc_eq)
    then show ?thesis using y by (intro exI [of _ m'] exI [of _ W']) auto
  qed
qed simp

lemma chain_enqueue:
  assumes "chain_ok L n wire pl sg ed k t" "chain_state L n pl sg ed k t m W st" "m < i" "i < n"
  shows "chain_state L n pl sg ed k t m (insert i W) (snd (enqueue_pending_trust_edge (ed i) (lb_sha L (pl i)) (pl i) (sg i) now st))"
proof -
  let ?h = "\<lambda>i. lb_sha L (pl i)"
  let ?st = "snd (enqueue_pending_trust_edge (ed i) (?h i) (pl i) (sg i) now st)"
  let ?row = "\<lparr>pt_source = k, pt_target = t, pt_prior = ?h (i - 1), pt_hash = ?h i, pt_payload = pl i, pt_sig = sg i, pt_received = now\<rparr>"
  have e: "from_key (ed i) = k" "to_key (ed i) = t" "prior_edge_hash (ed i) = Some (?h (i - 1))" using assms(1,3,4) by (simp_all add: chain_ok_def)
  have p: "es_pending ?st = es_pending st \<and> (\<exists>r \<in> set (es_pending st). pt_prior r = ?h (i - 1)) \<or> es_pending ?st = es_pending st @ [?row]"
    by (auto simp: enqueue_pending_trust_edge_def e list_ex_iff)
  have ku: "keys_unique ?st" using assms(2) keys.queue by (simp add: chain_state_def)
  have s: "Suc (i - 1) = i" using assms(3) by simp
  have pr: "Suc j \<in> insert i W \<and> pt_source r = k \<and> pt_hash r = ?h (Suc j) \<and> pt_payload r = pl (Suc j) \<and> pt_sig r = sg (Suc j)"
    if "r \<in> set (es_pending ?st)" "j < n" "pt_prior r = ?h j" for r j
  proof (cases "r \<in> set (es_pending st)")
    case True
    then show ?thesis using assms(2) that(2,3) unfolding chain_state_def by blast
  next
    case False
    then have r: "r = ?row" using p that(1) by auto
    then have "?h j = ?h (i - 1)" using that(3) by simp
    then have "j = i - 1" using chain_hash [OF assms(1) that(2), of "i - 1"] assms(4) by simp
    then have j: "Suc j = i" using s by simp
    show ?thesis unfolding r j by simp
  qed
  have pe: "\<exists>r \<in> set (es_pending ?st). pt_prior r = ?h j" if "Suc j \<in> insert i W" for j
  proof (cases "Suc j = i")
    case True
    then have "j = i - 1" by simp
    then show ?thesis using p by auto
  next
    case False
    then have "\<exists>r \<in> set (es_pending st). pt_prior r = ?h j" using that chain_stateD(6) [OF assms(2)] by simp
    then show ?thesis using p by auto
  qed
  have "insert i W \<subseteq> {1..<n}" using assms(2-4) by (auto simp: chain_state_def)
  then show ?thesis by (intro chain_rebuffer [OF assms(2) _ _ _ _ ku pr pe]) simp_all
qed

text \<open>One delivery of the \<open>i\<close>-th edge.\<close>

lemma chain_delivery:
  assumes ok: "chain_ok L n wire pl sg ed k t" and cs: "chain_state L n pl sg ed k t m W st" and m: "m \<notin> W" and i: "i < n"
  shows "\<exists>m' W'. chain_state L n pl sg ed k t m' W' (snd (snd (apply_one_edge_inner L C (\<lambda>_. False) (wire i) arr st))) \<and> m' \<notin> W' \<and>
    {..<m'} \<union> W' = insert i ({..<m} \<union> W)"
proof -
  let ?h = "\<lambda>i. lb_sha L (pl i)"
  let ?st' = "snd (snd (apply_one_edge_inner L C (\<lambda>_. False) (wire i) arr st))"
  from ok i have c: "decode_signed_object (lb_de L) (wire i) = Some (pl i, sg i)" "parse (lb_nfc L) (lb_ser L) (lb_de L) (pl i) = Inr (TrustEdge (ed i))"
    "from_key (ed i) = k" "to_key (ed i) = t" "prior_edge_hash (ed i) = (if i = 0 then None else Some (?h (i - 1)))" "lb_key_ok L k"
    by (simp_all add: chain_ok_def)
  obtain x where v: "verify (lb_nfc L) (lb_ser L) (lb_de L) (lb_ed L) (pl i) (sg i) k = Inr x" using ok i by (auto simp: chain_ok_def)
  have new: "?st' = snd (snd (receive_edge L C (wire i) (pl i) (sg i) (?h i) (ed i) arr st))" if "m \<le> i"
  proof -
    have "fs_objects (es_fed st) (?h i) = None" using chain_stateD(4) [OF cs i] that by simp
    then show ?thesis using c v by (simp add: apply_one_edge_inner_def)
  qed
  consider "i < m" | "i = m" | "m < i" by linarith
  then show ?thesis
  proof cases
    case 1
    then have "fs_objects (es_fed st) (?h i) \<noteq> None" "has_edge (?h i) st" using chain_stateD(3,4) [OF cs i] by simp_all
    then have "?st' = st" using c(1) by (auto simp: apply_one_edge_inner_def ed_reject_def Let_def)
    then show ?thesis using cs m 1 by (intro exI [of _ m] exI [of _ W]) auto
  next
    case 2
    obtain st1 where t: "try_project_trust_edge C (ed m) (?h m) (sg m) (pl m) st = (Projected, st1)"
      "chain_state L n pl sg ed k t (Suc m) W (store_edge (pl m) (sg m) (?h m) st1)" using chain_next [OF ok cs] i 2 by blast
    let ?s = "store_edge (pl m) (sg m) (?h m) st1"
    obtain st2 where d: "drain L C (Suc (length (es_pending ?s))) [?h m] ?s = Some st2"
      using drain_total [of ?s "[?h m]" "Suc (length (es_pending ?s))" L C] t(2) by (auto simp: chain_state_def simp del: drain.simps)
    have "?st' = drain_pending_orphans_after L C (?h m) ?s" using new 2 t(1) by (simp add: receive_edge_def)
    also have "\<dots> = st2" unfolding drain_pending_orphans_after_def d by simp
    finally have s: "?st' = st2" .
    obtain m' W' where "chain_state L n pl sg ed k t m' W' st2" "m' \<notin> W'" "{..<m'} \<union> W' = {..<Suc m} \<union> W" using chain_drain [OF ok t(2) d] by blast
    then show ?thesis unfolding s using 2 by (intro exI [of _ m'] exI [of _ W']) (auto simp: lessThan_Suc)
  next
    case 3
    have t: "try_project_trust_edge C (ed i) (?h i) (sg i) (pl i) st = (Deferred, st)" by (rule chain_gap [OF ok cs 3 i])
    have p: "prior_edge_hash (ed i) = Some (?h (i - 1))" using c(5) 3 by simp
    let ?e = "enqueue_pending_trust_edge (ed i) (?h i) (pl i) (sg i) (ec_now_ms C) st"
    have s: "?st' = snd ?e" using new 3 t p by (simp add: receive_edge_def split: prod.split)
    have "chain_state L n pl sg ed k t m (insert i W) (snd ?e)"
      by (rule chain_enqueue [OF ok cs 3 i])
    then show ?thesis unfolding s using m 3 by (intro exI [of _ m] exI [of _ "insert i W"]) auto
  qed
qed

text \<open>C31. The order of delivery does not matter. However the edges of a chain of a pair reach an instance that knows both users, in
  whatever order, from whatever peers and with whatever repetitions, exactly those are in the trust graph of which all
  predecessors have been delivered too. In particular a chain delivered completely is projected completely.\<close>

theorem chain_any_order:
  assumes "chain_ok L n wire pl sg ed k t" "user_id k st = Some a" "user_id t st = Some b" "keys_unique st"
    and "\<forall>r \<in> set (es_edges st). \<not> (tr_source r = a \<and> tr_target r = b)" "\<forall>i<n. fs_objects (es_fed st) (lb_sha L (pl i)) = None"
    and "\<forall>i<n. \<not> has_edge (lb_sha L (pl i)) st" "\<forall>r \<in> set (es_pending st). \<forall>i<n. pt_prior r \<noteq> lb_sha L (pl i)"
    and "\<forall>(C, arr, i) \<in> set ds. i < n" "j < n"
  shows "has_edge (lb_sha L (pl j)) (fold (\<lambda>(C, arr, i) s. snd (snd (apply_one_edge_inner L C (\<lambda>_. False) (wire i) arr s))) ds st) \<longleftrightarrow>
    {..j} \<subseteq> (snd \<circ> snd) ` set ds"
proof -
  let ?run = "\<lambda>ds. fold (\<lambda>(C, arr, i) s. snd (snd (apply_one_edge_inner L C (\<lambda>_. False) (wire i) arr s))) ds st"
  have "\<exists>m W. chain_state L n pl sg ed k t m W (?run ds) \<and> m \<notin> W \<and> {..<m} \<union> W = (snd \<circ> snd) ` set ds"
    using assms(9)
  proof (induction ds rule: rev_induct)
    case Nil
    have "chain_state L n pl sg ed k t 0 {} st" by (rule chain_stateI [OF assms(2,3)]) (use assms(4-8) in auto)
    then show ?case by (intro exI [of _ 0] exI [of _ "{}"]) simp
  next
    case (snoc d ds)
    obtain C arr i where d: "d = (C, arr, i)" "i < n" using snoc.prems by (cases d) auto
    obtain m W where x: "chain_state L n pl sg ed k t m W (?run ds)" "m \<notin> W" "{..<m} \<union> W = (snd \<circ> snd) ` set ds" using snoc by auto
    show ?case using chain_delivery [OF assms(1) x(1,2) d(2), of C arr] x(3) d(1) by auto
  qed
  then obtain m W where x: "chain_state L n pl sg ed k t m W (?run ds)" "m \<notin> W" "{..<m} \<union> W = (snd \<circ> snd) ` set ds" by blast
  have "{..j} \<subseteq> (snd \<circ> snd) ` set ds \<longleftrightarrow> j < m" unfolding x(3) [symmetric] using x(2) by (auto simp: subset_iff) (metis less_irrefl not_less)
  then show ?thesis using chain_stateD(3) [OF x(1) assms(10)] by simp
qed

section \<open>Forks and redeliveries\<close>

text \<open>A signed edge that a wire carries.\<close>

definition carries :: "fed_lib \<Rightarrow> bytes \<Rightarrow> bytes \<Rightarrow> bytes \<Rightarrow> TrustEdge \<Rightarrow> bool" where
  "carries L w p sg e \<longleftrightarrow> decode_signed_object (lb_de L) w = Some (p, sg) \<and> parse (lb_nfc L) (lb_ser L) (lb_de L) p = Inr (TrustEdge e) \<and>
     lb_key_ok L (from_key e) \<and> (\<exists>x. verify (lb_nfc L) (lb_ser L) (lb_de L) (lb_ed L) p sg (from_key e) = Inr x)"

abbreviation deliver :: "fed_lib \<Rightarrow> edge_clock \<Rightarrow> bytes \<Rightarrow> bytes \<Rightarrow> edge_store \<Rightarrow> edge_store" where
  "deliver L C arr w st \<equiv> snd (snd (apply_one_edge_inner L C (\<lambda>_. False) w arr st))"

lemma deliver_new:
  "carries L w p sg e \<Longrightarrow> fs_objects (es_fed st) (lb_sha L p) = None \<Longrightarrow>
     deliver L C arr w st = snd (snd (receive_edge L C w p sg (lb_sha L p) e arr st))"
  by (auto simp: carries_def apply_one_edge_inner_def Let_def)

lemma drain_nothing: "es_pending st = [] \<Longrightarrow> drain_pending_orphans_after L C h st = st"
  by (simp add: drain_pending_orphans_after_def)

lemma first_then_fork:
  assumes "carries L w p sg e" "carries L w' p' sg' e'" "from_key e' = from_key e" "to_key e' = to_key e" "prior_edge_hash e' = prior_edge_hash e"
    and "lb_sha L p' \<noteq> lb_sha L p" "es_pending st = []" "fs_objects (es_fed st) (lb_sha L p) = None" "fs_objects (es_fed st) (lb_sha L p') = None"
    and "\<not> has_edge (lb_sha L p) st" "\<not> has_edge (lb_sha L p') st" "fst (try_project_trust_edge C e (lb_sha L p) sg p st) = Projected"
  shows "has_edge (lb_sha L p) (deliver L C arr w' (deliver L C arr w st)) \<and> \<not> has_edge (lb_sha L p') (deliver L C arr w' (deliver L C arr w st))"
proof -
  let ?h = "lb_sha L p" and ?h' = "lb_sha L p'"
  obtain st1 where t: "try_project_trust_edge C e ?h sg p st = (Projected, st1)" using assms(12) by (metis prod.collapse)
  from project_cases [OF t] assms(10) obtain a b where u: "user_id (from_key e) st = Some a" "user_id (to_key e) st = Some b"
    "es_edges st1 = es_edges st @ [projected_row C e ?h sg a b]" "es_pending st1 = es_pending st" "db_users (es_frontier st1) = db_users (es_frontier st)"
    by auto
  let ?st1 = "store_edge p sg ?h st1"
  have d1: "deliver L C arr w st = ?st1"
    using deliver_new [OF assms(1,8), of C arr] t drain_nothing [of ?st1 L C ?h] u(4) assms(7) by (simp add: receive_edge_def)
  have e1: "es_edges ?st1 = es_edges st @ [projected_row C e ?h sg a b]" using u(3) by simp
  have id: "user_id y st1 = user_id y st" for y using u(5) by (simp add: user_id_def)
  have n: "fs_objects (es_fed ?st1) ?h' = None"
    using store_edge_objects [of p sg ?h st1 ?h'] project_object_keys [of C e ?h sg p st ?h'] t assms(6,9) by auto
  have h: "has_edge ?h ?st1" "\<not> has_edge ?h' ?st1" using assms(6,11) unfolding has_edge_def e1 by (auto simp: projected_row_def)
  have "list_ex (sibling a b (prior_edge_hash e') ?h') (es_edges ?st1)" unfolding e1 using assms(5,6) by (simp add: sibling_def projected_row_def)
  then have "try_project_trust_edge C e' ?h' sg' p' ?st1 = (ChainFork, ?st1)"
    using h(2) u(1,2) assms(3,4) by (simp add: try_project_trust_edge_def id)
  then have "deliver L C arr w' ?st1 = store_edge p' sg' ?h' ?st1" using deliver_new [OF assms(2) n, of C arr] by (simp add: receive_edge_def)
  then show ?thesis using h unfolding d1 by (simp add: has_edge_def)
qed

text \<open>C32. The first sibling stays active. If a user signs two different edges to one target with one predecessor, each of which
  could be projected, an instance keeps in its trust graph the one that reaches it first, so that two instances that
  receive both in opposite orders hold different edges for good. The rule quoted in the code for forks is that both are
  stored and neither is active.\<close>

theorem fork_order_decides:
  assumes "carries L w p sg e" "carries L w' p' sg' e'" "from_key e' = from_key e" "to_key e' = to_key e" "prior_edge_hash e' = prior_edge_hash e"
    and "lb_sha L p' \<noteq> lb_sha L p" "es_pending st = []" "fs_objects (es_fed st) (lb_sha L p) = None" "fs_objects (es_fed st) (lb_sha L p') = None"
    and "\<not> has_edge (lb_sha L p) st" "\<not> has_edge (lb_sha L p') st" "fst (try_project_trust_edge C e (lb_sha L p) sg p st) = Projected"
    and "fst (try_project_trust_edge C e' (lb_sha L p') sg' p' st) = Projected"
  shows "has_edge (lb_sha L p) (deliver L C arr w' (deliver L C arr w st)) \<and> \<not> has_edge (lb_sha L p') (deliver L C arr w' (deliver L C arr w st)) \<and>
    has_edge (lb_sha L p') (deliver L C arr w (deliver L C arr w' st)) \<and> \<not> has_edge (lb_sha L p) (deliver L C arr w (deliver L C arr w' st))"
  using first_then_fork [OF assms(1-12), of arr]
    first_then_fork [OF assms(2,1) assms(3-6) [symmetric] assms(7) assms(9,8,11,10,13), of arr] by blast

text \<open>C33. A projection by redelivery is not announced. When an edge that was stored without being projected is delivered again and
  can be projected now, it enters the trust graph, but the answer is \<open>duplicate\<close> and the rebuild loop is not woken, so that
  readers do not see the edge until another change wakes it.\<close>

theorem redelivery_projects_silently:
  assumes "edges_decode (lb_de L) msg = Some [w]" "decode_signed_object (lb_de L) w = Some (p, sg)"
    and "fs_objects (es_fed st) (lb_sha L p) = Some ob" "ob_payload ob = Some q" "es_erased_by st (lb_sha L p) = None"
    and "parse (lb_nfc L) (lb_ser L) (lb_de L) q = Inr (TrustEdge e)" "\<not> has_edge (lb_sha L p) st"
    and "fst (try_project_trust_edge C e (lb_sha L p) (ob_signature ob) q st) = Projected"
  shows "\<exists>st'. handle_edges_push L C running (\<lambda>_ _. False) sndr msg st =
      (PushOk (encode_results ed_reason_as_str (lb_ser L) [(lb_sha L p, StDuplicate)]), [], st') \<and> has_edge (lb_sha L p) st'"
proof -
  obtain st1 where t: "try_project_trust_edge C e (lb_sha L p) (ob_signature ob) q st = (Projected, st1)" using assms(8) by (metis prod.collapse)
  let ?st' = "drain_pending_orphans_after L C (lb_sha L p) st1"
  have "has_edge (lb_sha L p) st1" using project_cases [OF t] assms(7) by (auto simp: has_edge_def projected_row_def)
  then have "has_edge (lb_sha L p) ?st'" using growth.drain_after_keeps [of st1 st1 L C] by (force simp: has_edge_def list_ex_iff grown_def)
  moreover have "apply_one_edge_inner L C (\<lambda>_. False) w sndr st = (Inr ((lb_sha L p, StDuplicate), None), [], ?st')"
    using assms(2-7) t by (simp add: apply_one_edge_inner_def reattempt_unprojected_edge_def Let_def)
  ultimately show ?thesis using assms(1) by (simp add: handle_edges_push_def apply_one_edge_def MAX_EDGE_BATCH_def)
qed

section \<open>Concrete inputs\<close>

text \<open>User 7 states to user 8: trust (payload \<open>[2]\<close>), then distrust (\<open>[4]\<close>), and a rival first statement (\<open>[6]\<close>). The wires are
  \<open>[1]\<close>, \<open>[3]\<close> and \<open>[5]\<close>; the body \<open>[8]\<close> carries the first.\<close>

definition demo_edge :: "u8 \<Rightarrow> TrustEdge" where
  "demo_edge b = \<lparr>from_key = replicate 32 7, to_key = replicate 32 8, stance = (if b = 2 then Trust else Distrust), te_created_at = ucast b,
     prior_edge_hash = (if b = 4 then Some (replicate 32 2) else None)\<rparr>"

definition edge_lib :: fed_lib where
  "edge_lib = \<lparr>lb_nfc = id,
     lb_ser = (\<lambda>v. Some (if v = to_cbor_value (TrustEdge (demo_edge 4)) then [4] else if v = to_cbor_value (TrustEdge (demo_edge 6)) then [6] else [2])),
     lb_de = (\<lambda>b. if b = [2] \<or> b = [4] \<or> b = [6] then Some (to_cbor_value (TrustEdge (demo_edge (hd b))))
        else if b = [8] then Some (VMap [(VText ''edges'', VArray [VBytes [1]])])
        else Some (VMap [(VText ''p'', VBytes [hd b + 1]), (VText ''s'', VBytes (replicate 64 7))])),
     lb_ed = (\<lambda>k p sg. sg = replicate 64 (hd k)), lb_key_ok = (\<lambda>_. True), lb_sha = (\<lambda>p. replicate 32 (hd p)), lb_sign = (\<lambda>_. replicate 64 9)\<rparr>"

definition edge_fed :: "(bytes \<rightharpoonup> object_row) \<Rightarrow> fed_store" where
  "edge_fed obs = \<lparr>fs_objects = obs, fs_users = Map.empty, fs_moves = [], fs_homes = Map.empty, fs_genesis = Map.empty, fs_peers = Map.empty,
     fs_threads = Map.empty, fs_user_statuses = Map.empty, fs_thread_statuses = Map.empty, fs_key = replicate 32 1, fs_domain = ''b'',
     fs_user_limit = for_user_status, fs_thread_limit = for_thread_status, fs_status_limit = content_default, fs_move_limit = content_default\<rparr>"

definition edge_users :: "user_row list" where
  "edge_users = [user_row.make ''u'' (replicate 32 7) (Some (replicate 32 9)) ''active'', user_row.make ''v'' (replicate 32 8) None ''active'']"

definition edge_demo :: "(bytes \<rightharpoonup> object_row) \<Rightarrow> edge_store" where
  "edge_demo obs = \<lparr>es_fed = edge_fed obs, es_erased_by = Map.empty, es_edges = [], es_pending = [],
     es_frontier = \<lparr>db_edges = [], db_stubs = [], db_generation = 0, db_ceilings = [], db_users = edge_users, db_homes = [], db_peers = [], db_genesis = []\<rparr>\<rparr>"

definition demo_clock :: edge_clock where
  "demo_clock = \<lparr>ec_now_ms = 5, ec_now_iso = ''now'', ec_iso = (\<lambda>_. None)\<rparr>"

lemma demo_edge_wf: "wf_payload id (TrustEdge (demo_edge b))"
  by (simp add: demo_edge_def opt_len_def)

lemma demo_edges_differ: "demo_edge x \<noteq> demo_edge y \<Longrightarrow> to_cbor_value (TrustEdge (demo_edge x)) \<noteq> to_cbor_value (TrustEdge (demo_edge y))"
  using to_cbor_inj [OF demo_edge_wf demo_edge_wf] by blast

lemma demo_parse:
  assumes "b \<in> {2, 4, 6}"
  shows "parse (lb_nfc edge_lib) (lb_ser edge_lib) (lb_de edge_lib) [b] = Inr (TrustEdge (demo_edge b))"
proof (rule parse_of)
  have "demo_edge 2 \<noteq> demo_edge 4" "demo_edge 2 \<noteq> demo_edge 6" "demo_edge 6 \<noteq> demo_edge 4" by (simp_all add: demo_edge_def)
  then show "lb_ser edge_lib (to_cbor_value (TrustEdge (demo_edge b))) = Some [b]"
    using assms demo_edges_differ [of 2 4] demo_edges_differ [of 2 6] demo_edges_differ [of 6 4] by (auto simp: edge_lib_def)
qed (use assms in \<open>auto simp: edge_lib_def demo_edge_def opt_len_def\<close>)

lemma demo_carries:
  assumes "b \<in> {1, 3, 5}"
  shows "carries edge_lib [b] [b + 1] (replicate 64 7) (demo_edge (b + 1))"
proof -
  have p: "parse (lb_nfc edge_lib) (lb_ser edge_lib) (lb_de edge_lib) [b + 1] = Inr (TrustEdge (demo_edge (b + 1)))" using assms by (intro demo_parse) auto
  have d: "decode_signed_object (lb_de edge_lib) [b] = Some ([b + 1], replicate 64 7)"
    using assms by (auto simp: edge_lib_def decode_signed_object_def)
  have k: "from_key (demo_edge (b + 1)) = replicate 32 7" by (simp add: demo_edge_def)
  have "lb_ed edge_lib (replicate 32 7) [b + 1] (replicate 64 7)" by (simp add: edge_lib_def)
  then have "verify (lb_nfc edge_lib) (lb_ser edge_lib) (lb_de edge_lib) (lb_ed edge_lib) [b + 1] (replicate 64 7) (replicate 32 7) =
      Inr (TrustEdge (demo_edge (b + 1)))" using p by (simp add: verify_def guard_def andthen_def map_err_def k)
  then show ?thesis unfolding carries_def k using p d by (simp add: edge_lib_def)
qed

lemma demo_ids: "user_id (replicate 32 7) (edge_demo obs) = Some ''u''" "user_id (replicate 32 8) (edge_demo obs) = Some ''v''"
  by (simp_all add: user_id_def edge_demo_def edge_users_def user_row.defs replicate_eq_replicate)

lemma demo_empty [simp]: "es_edges (edge_demo obs) = []" "es_pending (edge_demo obs) = []" "fs_objects (es_fed (edge_demo obs)) = obs"
  "\<not> has_edge h (edge_demo obs)" "keys_unique (edge_demo obs)" "chains_wf (edge_demo obs)" "es_erased_by (edge_demo obs) h = None"
  by (simp_all add: edge_demo_def edge_fed_def has_edge_def keys_unique_def chains_wf_def)

lemma demo_sha: "lb_sha edge_lib [b] = replicate 32 b"
  by (simp add: edge_lib_def)

lemma demo_projects:
  assumes "b \<in> {2, 6}"
  shows "fst (try_project_trust_edge C (demo_edge b) h sg p (edge_demo obs)) = Projected"
proof -
  have "from_key (demo_edge b) = replicate 32 7" "to_key (demo_edge b) = replicate 32 8" "prior_edge_hash (demo_edge b) = None"
    using assms by (auto simp: demo_edge_def)
  then show ?thesis by (simp add: try_project_trust_edge_def demo_ids Let_def)
qed

theorem trust_graph_history_witness:
  "edges_authentic edge_lib (fold (edge_step edge_lib) [PushOp demo_clock (\<lambda>_. 0) (\<lambda>_ _. False) (replicate 32 5) [8], TickOp demo_clock] (edge_demo Map.empty))"
proof -
  have "edges_authentic edge_lib (edge_demo Map.empty)" by (simp add: edges_authentic_def)
  from trust_graph_history [OF this demo_empty(6,5)] show ?thesis by blast
qed

theorem chain_any_order_witness:
  "has_edge (replicate 32 4) (fold (\<lambda>(C, arr, i) s. snd (snd (apply_one_edge_inner edge_lib C (\<lambda>_. False) (if i = (0 :: nat) then [1] else [3]) arr s)))
     [(demo_clock, replicate 32 5, 1), (demo_clock, replicate 32 6, 0)] (edge_demo Map.empty))"
proof -
  let ?wire = "\<lambda>i :: nat. if i = 0 then [1] else [3 :: u8]" and ?pl = "\<lambda>i :: nat. if i = 0 then [2] else [4 :: u8]"
  let ?ed = "\<lambda>i :: nat. if i = 0 then demo_edge 2 else demo_edge 4"
  let ?ds = "[(demo_clock, replicate 32 5, 1), (demo_clock, replicate 32 6, 0)] :: (edge_clock \<times> bytes \<times> nat) list"
  have ne: "replicate 32 (2 :: u8) \<noteq> replicate 32 4" by (simp add: replicate_eq_replicate)
  note c = demo_carries [of 1, simplified, unfolded carries_def] demo_carries [of 3, simplified, unfolded carries_def]
  have k: "from_key (demo_edge b) = replicate 32 7" "to_key (demo_edge b) = replicate 32 8" for b by (simp_all add: demo_edge_def)
  have pr: "prior_edge_hash (demo_edge 2) = None" "prior_edge_hash (demo_edge 4) = Some (replicate 32 2)" by (simp_all add: demo_edge_def)
  have "chain_ok edge_lib 2 ?wire ?pl (\<lambda>_. replicate 64 7) ?ed (replicate 32 7) (replicate 32 8)"
    unfolding chain_ok_def using c k pr ne by (auto simp: demo_sha less_2_cases_iff inj_on_def)
  from chain_any_order [OF this demo_ids(1) [of Map.empty] demo_ids(2) [of Map.empty] demo_empty(5), of ?ds 1]
  show ?thesis by (auto simp: demo_sha atMost_Suc)
qed

theorem fork_order_decides_witness:
  "has_edge (replicate 32 2) (deliver edge_lib demo_clock (replicate 32 5) [5] (deliver edge_lib demo_clock (replicate 32 5) [1] (edge_demo Map.empty))) \<and>
   has_edge (replicate 32 6) (deliver edge_lib demo_clock (replicate 32 5) [1] (deliver edge_lib demo_clock (replicate 32 5) [5] (edge_demo Map.empty)))"
proof -
  have c: "carries edge_lib [1] [2] (replicate 64 7) (demo_edge 2)" "carries edge_lib [5] [6] (replicate 64 7) (demo_edge 6)"
    using demo_carries [of 1] demo_carries [of 5] by simp_all
  have ne: "lb_sha edge_lib [6] \<noteq> lb_sha edge_lib [2]" by (simp add: demo_sha replicate_eq_replicate)
  have k: "from_key (demo_edge 6) = from_key (demo_edge 2)" "to_key (demo_edge 6) = to_key (demo_edge 2)"
    "prior_edge_hash (demo_edge 6) = prior_edge_hash (demo_edge 2)" by (simp_all add: demo_edge_def)
  from fork_order_decides [OF c k ne, of "edge_demo Map.empty" demo_clock "replicate 32 5"] show ?thesis by (simp add: demo_projects demo_sha)
qed

theorem redelivery_projects_silently_witness:
  "\<exists>rep st'. handle_edges_push edge_lib demo_clock (\<lambda>_. 0) (\<lambda>_ _. False) (replicate 32 5) [8]
      (edge_demo [replicate 32 2 \<mapsto> \<lparr>ob_class = ''trust-edge'', ob_payload = Some [2], ob_signature = replicate 64 7\<rparr>]) = (rep, [], st') \<and>
    has_edge (replicate 32 2) st'"
proof -
  let ?ob = "\<lparr>ob_class = ''trust-edge'', ob_payload = Some [2], ob_signature = replicate 64 7\<rparr>"
  let ?st = "edge_demo [replicate 32 2 \<mapsto> ?ob]"
  have "edges_decode (lb_de edge_lib) [8] = Some [[1]]" by (simp add: edge_lib_def edges_decode_def bytes_item_def)
  moreover have "decode_signed_object (lb_de edge_lib) [1] = Some ([2], replicate 64 7)" using demo_carries [of 1] by (simp add: carries_def)
  moreover have "fs_objects (es_fed ?st) (lb_sha edge_lib [2]) = Some ?ob" by (simp add: demo_sha)
  ultimately have "\<exists>st'. handle_edges_push edge_lib demo_clock (\<lambda>_. 0) (\<lambda>_ _. False) (replicate 32 5) [8] ?st =
      (PushOk (encode_results ed_reason_as_str (lb_ser edge_lib) [(lb_sha edge_lib [2], StDuplicate)]), [], st') \<and> has_edge (lb_sha edge_lib [2]) st'"
    by (rule redelivery_projects_silently [where e = "demo_edge 2"]) (use demo_parse [of 2] in \<open>simp_all add: demo_projects\<close>)
  then show ?thesis unfolding demo_sha by blast
qed

end
