(* ===== verification/Spec2Isabelle.thy ===== *)
theory Spec2Isabelle
  imports Rate_Limit Filename Signed_Verify Outbound_Worker Trust_Rebuild Bloom_Filter Trust_Code Frontier_Route Peering Thread_Status User_Moves Edge_Push
begin

text \<open>
  \<^bold>\<open>Prismoire.\<close> A federated discussion platform. Every instance is a server with a SQLite store; users sign what they
  publish, and what a reader sees is decided by a graph of trust between users. This library models the core of
  the server, \<open>src/server/src\<close>, and proves what makes it correct.

  \<^bold>\<open>The parts and how they interact.\<close> A user's action becomes a \<^emph>\<open>signed payload\<close> (\<open>signed.rs\<close>), a canonical CBOR
  map with an Ed25519 signature. A change of a trust edge goes through the handlers of \<open>users.rs\<close> into the
  database and, as a \<^emph>\<open>pending delta\<close>, on top of the cached \<^emph>\<open>trust graph\<close> (\<open>trust.rs\<close>), which a loop rebuilds. Each
  instance computes, from the edges it knows, its \<^emph>\<open>frontier\<close>: the users within three hops of a local reader
  (\<open>federation/frontier_store.rs\<close>), announces it to its peers as two \<^emph>\<open>Bloom filters\<close> (\<open>frontier.rs\<close>, \<open>bloom.rs\<close>), and
  the peers' \<^emph>\<open>routing\<close> (\<open>routing.rs\<close>) and \<^emph>\<open>forwarder\<close> (\<open>forwarder.rs\<close>) use those to decide who gets an object, which
  goes through the per-peer \<^emph>\<open>outbound queues\<close> (\<open>outbound_queue.rs\<close>). Peers find each other by a \<^emph>\<open>handshake\<close>
  (\<open>peering.rs\<close>), every request between them is authenticated by an \<^emph>\<open>envelope\<close> (\<open>envelope.rs\<close>, \<open>middleware.rs\<close>), and
  \<^emph>\<open>rate limiters\<close> bound what a peer can push or pull.

  \<^bold>\<open>Theories, and the code they model.\<close>
  \<^item> \<open>Prism_Prelude\<close>: machine integers at their width, results as sums, the lemma collections. \<open>Utf8\<close>: Rust strings as
    byte lists, the UTF-8 codec and its round trips. \<open>Cbor\<close>: CBOR values and the locale \<open>cbor_codec\<close> of what the code relies
    on in the crate \<open>ciborium\<close>, with an RFC 8949 codec as its instance.
  \<^item> \<open>Signed_Types\<close>, \<open>Signed_Encode\<close>, \<open>Signed_Parse\<close>, \<open>Signed_Wf\<close>, \<open>Signed_Verify\<close>: \<open>signed.rs\<close>. Encoding is injective,
    parsing inverts it on all well-formed payloads, whatever parses meets the schema, canonical input is exactly what
    encodes back, and one signature binds one payload to one signer. \<open>Filename\<close>: the attachment name sanitizer.
  \<^item> \<open>Csr_Graph\<close>, \<open>Node_Index\<close>, \<open>Level_Search\<close>, \<open>Trust_Bfs\<close>, \<open>Trust_Scores\<close>, \<open>Trust_Reverse\<close>, \<open>Trust_Graph\<close>: the graph of
    \<open>trust.rs\<close>. The locale \<open>level_search\<close> states what a breadth-first search promises; the forward, the reverse and the
    frontier search are its three interpretations. Scores are exact against a closed formula, and the reverse search
    agrees with the forward one. \<open>Pending_Deltas\<close> and \<open>Trust_Rebuild\<close>: the overlay of uncommitted changes, and the
    rebuild loop beside the handlers as a step relation with its invariant.
  \<^item> \<open>Outbound_Queue\<close>, \<open>Outbound_Worker\<close>: the queues with their caps and byte accounting, and the drain worker as a step
    relation. Accounting is an invariant of every interleaving, and no queued object is left without a worker.
  \<^item> \<open>Fed_Envelope\<close>: signing and the checks of an inbound request; what is accepted is authentic and fresh.
    \<open>Wire_Bodies\<close>: the message bodies, with the locale \<open>map_body\<close> for the shape they share. \<open>Peering\<close>: the peers table, the
    handlers and the operator actions; a peer is active only after both sides consented, and a handshake completes.
  \<^item> \<open>Bloom_Filter\<close>, \<open>Routing\<close>, \<open>Forwarder\<close>: no false negatives, exact candidate selection, and at most \<open>k\<close> deliveries of an
    object however fan-outs interleave.
  \<^item> \<open>Admission_Cap\<close>, \<open>Frontier_Store\<close>, \<open>Frontier_Search\<close>: \<open>frontier_store.rs\<close>. The cap refines \<^emph>\<open>the best n\<close>; a pass reaches
    exactly the users within the hop limit; an edge survives a bounded number of rebuilds after its last use.
  \<^item> \<open>Frontier_Wire\<close>, \<open>Frontier_Sync\<close>, \<open>Frontier_Races\<close>, \<open>Frontier_Route\<close>: \<open>frontier.rs\<close>. Its messages round trip, the stored
    version only grows under concurrent announces, and what an instance announces is never filtered out by a peer.
  \<^item> \<open>Object_Store\<close>: the tables and helpers the push routes share. \<open>User_Status\<close>, \<open>Thread_Status\<close>, \<open>User_Moves\<close>:
    \<open>user_status.rs\<close>, \<open>thread_status.rs\<close>, \<open>moves.rs\<close>. An accepted status was signed by the home of its subject at that
    time and an accepted move by the user, the stored status does not depend on the order of arrival, a birth record
    never changes, and an instance disposes of the keys and sessions of a user who moves away.
  \<^item> \<open>Edge_Chain\<close>, \<open>Edge_Push\<close>: the projection of trust edges in \<open>remote_users.rs\<close> with its buffer of orphans and its sweep, the
    push route \<open>edges.rs\<close> and the pull of predecessors \<open>edge_backfill.rs\<close>. The locales \<open>edge_invariant\<close> and \<open>edge_receiver\<close> say
    what an invariant of the store has to bring to be kept by every route; well-formed chains, unique keys of the buffer
    and authentic rows are their interpretations. A chain is projected completely whatever the order of its delivery.
  \<^item> \<open>Ip_Addr\<close>, \<open>Instance_Domain\<close>, \<open>Trust_Code\<close>, \<open>Rate_Limit\<close>: the domain gate with its deny list, trust codes, the five
    rate limiters with rolling-window bounds.

  \<^bold>\<open>How code becomes definitions.\<close> A struct is a record, an enum a datatype, a method the function on the state it changes.
  \<open>Option\<close> and \<open>Result\<close> are option and sum types; a panic is a value (\<open>None\<close>, or an outcome of its own) wherever it can
  happen. A database statement is a function on the list or map of its rows, written from the SQL; where several
  statements of a handler can interleave with another request, each is a step. Unsigned integers are naturals with
  their casts, checks and wrap-arounds written out, or words where bits matter. Loops are recursive functions with
  a termination proof, and the nesting depth of the CBOR instance is bounded by what the encoders build. The one
  definition with fuel is \<open>drain\<close> of \<open>Edge_Chain\<close>: a round for every buffered row and one for the start are enough
  (\<open>drain_total\<close>), because a row is deleted for every hash that is put on the worklist.

  \<^bold>\<open>Parameters.\<close> Third-party code is an argument: the CBOR codec, Unicode normalisation, Ed25519, SHA-256, SipHash, base64,
  UUID parsing, the eviction of \<open>quick_cache\<close>, HTTP answers, the clock and random numbers. What a theorem needs of one is
  a hypothesis, and its witness instantiates it. Floating-point numbers are reals, with a rounding parameter where the
  result depends on it.

  \<^bold>\<open>Not modelled.\<close> The web front end, the benchmarks, the command line tool and the configuration loader; page queries and
  administration (\<open>threads\<close>, \<open>rooms\<close>, \<open>users\<close>, \<open>admin\<close>, \<open>search\<close>, \<open>privacy\<close>), which are SQL texts whose meaning is that of
  SQLite; sessions and WebAuthn, which call third-party protocols; attachment storage and image processing; metrics and
  server start. Of the federation, content push, the responders of the backfill routes, registration, the prior-home protocol,
  moderation and attachments rest on the payloads, envelope, limiters, routing and queues proved here, and are not modelled themselves.
\<close>

end
